(* ===== verification/Prelude.thy ===== *)
theory Prelude
  imports Main "HOL-Library.Word"
begin

text \<open>
  What the component theories share: machine integer types, the result type that models
  Rust's \<open>Result\<close> together with panics, checked arithmetic, byte slices and their
  in-place updates, and little and big endian encodings of machine words.

  A Rust function that can fail returns \<open>('e, 'a) result\<close>: \<open>Ok\<close> and \<open>Err\<close> are the
  constructors of the source, and \<open>Panic\<close> is an unwinding panic (an index out of range,
  an \<open>expect\<close> on \<open>None\<close>, an \<open>assert!\<close>, an integer overflow in checked builds).
  A function that can only panic is polymorphic in \<open>'e\<close>. \<open>usize\<close> is \<open>nat\<close>.
\<close>

named_theorems codec_simps \<open>read-after-write laws of byte buffers and codecs\<close>
named_theorems defs \<open>small definitions that proofs unfold freely\<close>

type_synonym byte = "8 word"
type_synonym u16 = "16 word"
type_synonym u32 = "32 word"
type_synonym u64 = "64 word"
type_synonym bytes = "byte list"

section \<open>Results and panics\<close>

datatype ('e, 'a) result = Ok 'a | Err 'e | Panic

fun bindR :: "('e, 'a) result \<Rightarrow> ('a \<Rightarrow> ('e, 'b) result) \<Rightarrow> ('e, 'b) result" where
  "bindR (Ok x) f = f x"
| "bindR (Err e) f = Err e"
| "bindR Panic f = Panic"

fun map_err :: "('e \<Rightarrow> 'f) \<Rightarrow> ('e, 'a) result \<Rightarrow> ('f, 'a) result" where
  "map_err g (Ok x) = Ok x"
| "map_err g (Err e) = Err (g e)"
| "map_err g Panic = Panic"

fun mapR :: "('a \<Rightarrow> 'b) \<Rightarrow> ('e, 'a) result \<Rightarrow> ('e, 'b) result" where
  "mapR g (Ok x) = Ok (g x)"
| "mapR g (Err e) = Err e"
| "mapR g Panic = Panic"

fun ok_or :: "'a option \<Rightarrow> 'e \<Rightarrow> ('e, 'a) result" where
  "ok_or (Some x) e = Ok x"
| "ok_or None e = Err e"

fun expectR :: "'a option \<Rightarrow> ('e, 'a) result" where
  "expectR (Some x) = Ok x"
| "expectR None = Panic"

definition assertR :: "bool \<Rightarrow> ('e, unit) result" where
  "assertR p = (if p then Ok () else Panic)"

fun is_ok :: "('e, 'a) result \<Rightarrow> bool" where
  "is_ok (Ok x) = True"
| "is_ok r = False"

fun is_err :: "('e, 'a) result \<Rightarrow> bool" where
  "is_err (Err e) = True"
| "is_err r = False"

text \<open>A loop over a list that threads a state and stops at the first error or panic.\<close>

fun foldR :: "('x \<Rightarrow> 's \<Rightarrow> ('e, 's) result) \<Rightarrow> 'x list \<Rightarrow> 's \<Rightarrow> ('e, 's) result" where
  "foldR f [] s = Ok s"
| "foldR f (x # xs) s = bindR (f x s) (foldR f xs)"

text \<open>Collecting the results of a fallible function over a list, as
  \<open>collect::<Result<Vec<_>, _>>()\<close> does.\<close>

fun traverseR :: "('x \<Rightarrow> ('e, 'y) result) \<Rightarrow> 'x list \<Rightarrow> ('e, 'y list) result" where
  "traverseR f [] = Ok []"
| "traverseR f (x # xs) = bindR (f x) (\<lambda>y. bindR (traverseR f xs) (\<lambda>ys. Ok (y # ys)))"

section \<open>Checked arithmetic\<close>

text \<open>\<open>usize\<close> subtraction panics below zero in checked builds.\<close>

definition sub_usize :: "nat \<Rightarrow> nat \<Rightarrow> ('e, nat) result" where
  "sub_usize a b = (if b \<le> a then Ok (a - b) else Panic)"

definition checked_add :: "'a::len word \<Rightarrow> 'a word \<Rightarrow> 'a word option" where
  "checked_add a b = (if unat a + unat b < 2 ^ LENGTH('a) then Some (a + b) else None)"

definition checked_sub :: "'a::len word \<Rightarrow> 'a word \<Rightarrow> 'a word option" where
  "checked_sub a b = (if b \<le> a then Some (a - b) else None)"

section \<open>Byte slices\<close>

text \<open>\<open>sub b off n\<close> is the slice \<open>b[off..off + n]\<close>, and \<open>patch b off d\<close> is \<open>b\<close> with the
  bytes from \<open>off\<close> overwritten by \<open>d\<close>. Both are meaningful inside the buffer only; the
  operations of the model check that first.\<close>

definition sub :: "'a list \<Rightarrow> nat \<Rightarrow> nat \<Rightarrow> 'a list" where
  "sub b off n = take n (drop off b)"

definition patch :: "'a list \<Rightarrow> nat \<Rightarrow> 'a list \<Rightarrow> 'a list" where
  "patch b off d = take off b @ d @ drop (off + length d) b"

definition slice_get :: "'a list \<Rightarrow> nat \<Rightarrow> nat \<Rightarrow> ('e, 'a list) result" where
  "slice_get b i j = (if i \<le> j \<and> j \<le> length b then Ok (sub b i (j - i)) else Panic)"

definition copy_from_slice :: "'a list \<Rightarrow> nat \<Rightarrow> nat \<Rightarrow> 'a list \<Rightarrow> ('e, 'a list) result" where
  "copy_from_slice b i j d =
     (if i \<le> j \<and> j \<le> length b \<and> length d = j - i then Ok (patch b i d) else Panic)"

definition index_get :: "'a list \<Rightarrow> nat \<Rightarrow> ('e, 'a) result" where
  "index_get b i = (if i < length b then Ok (b ! i) else Panic)"

definition index_put :: "'a list \<Rightarrow> nat \<Rightarrow> 'a \<Rightarrow> ('e, 'a list) result" where
  "index_put b i x = (if i < length b then Ok (b[i := x]) else Panic)"

section \<open>Endian encodings\<close>

primrec le_bytes :: "nat \<Rightarrow> nat \<Rightarrow> bytes" where
  "le_bytes 0 x = []"
| "le_bytes (Suc n) x = word_of_nat (x mod 256) # le_bytes n (x div 256)"

primrec le_val :: "bytes \<Rightarrow> nat" where
  "le_val [] = 0"
| "le_val (b # bs) = unat b + 256 * le_val bs"

definition to_le_bytes :: "'a::len word \<Rightarrow> bytes" where
  "to_le_bytes w = le_bytes (LENGTH('a) div 8) (unat w)"

definition from_le_bytes :: "bytes \<Rightarrow> 'a::len word" where
  "from_le_bytes bs = word_of_nat (le_val bs)"

definition to_be_bytes :: "'a::len word \<Rightarrow> bytes" where
  "to_be_bytes w = rev (to_le_bytes w)"

definition from_be_bytes :: "bytes \<Rightarrow> 'a::len word" where
  "from_be_bytes bs = from_le_bytes (rev bs)"

section \<open>Laws of results\<close>

lemma bindR_Ok_iff: "bindR m f = Ok y \<longleftrightarrow> (\<exists>x. m = Ok x \<and> f x = Ok y)"
  by (cases m) auto

lemma bindR_Err_iff: "bindR m f = Err e \<longleftrightarrow> m = Err e \<or> (\<exists>x. m = Ok x \<and> f x = Err e)"
  by (cases m) auto

lemma bindR_Panic_iff: "bindR m f = Panic \<longleftrightarrow> m = Panic \<or> (\<exists>x. m = Ok x \<and> f x = Panic)"
  by (cases m) auto

lemmas bindR_iffs = bindR_Ok_iff bindR_Err_iff bindR_Panic_iff

lemma bindR_assoc: "bindR (bindR m f) g = bindR m (\<lambda>x. bindR (f x) g)"
  by (cases m) auto

lemma bindR_OkE:
  assumes "bindR m f = Ok y"
  obtains x where "m = Ok x" and "f x = Ok y"
  using assms by (cases m) auto

lemma map_err_Ok_iff [simp]: "map_err g m = Ok y \<longleftrightarrow> m = Ok y"
  by (cases m) auto

lemma map_err_Panic_iff [simp]: "map_err g m = Panic \<longleftrightarrow> m = Panic"
  by (cases m) auto

lemma map_err_Err_iff: "map_err g m = Err y \<longleftrightarrow> (\<exists>e. m = Err e \<and> y = g e)"
  by (cases m) auto

lemma ok_or_iffs [simp]:
  "ok_or x e = Ok y \<longleftrightarrow> x = Some y"
  "ok_or x e = Err e' \<longleftrightarrow> x = None \<and> e' = e"
  "ok_or x e \<noteq> Panic"
  by (cases x; auto)+

lemma assertR_iffs [simp]:
  "assertR p = Ok u \<longleftrightarrow> p" "assertR p = Panic \<longleftrightarrow> \<not> p" "assertR p \<noteq> Err e"
  by (auto simp: assertR_def)

lemma assertR_True [simp]: "assertR True = Ok ()"
  by (simp add: assertR_def)

lemma sub_usize_ok [simp]: "b \<le> a \<Longrightarrow> sub_usize a b = Ok (a - b)"
  by (simp add: sub_usize_def)

lemma foldR_append: "foldR f (xs @ ys) s = bindR (foldR f xs s) (foldR f ys)"
proof (induction xs arbitrary: s)
  case (Cons x xs)
  show ?case by (cases "f x s") (auto simp: Cons)
qed simp

lemma foldR_ok_invariant:
  assumes "I s" and "\<And>x t. x \<in> set xs \<Longrightarrow> I t \<Longrightarrow> \<exists>t'. f x t = Ok t' \<and> I t'"
  shows "\<exists>t. foldR f xs s = Ok t \<and> I t"
  using assms
proof (induction xs arbitrary: s)
  case Nil
  then show ?case by simp
next
  case (Cons x xs)
  from Cons.prems(2)[of x s] Cons.prems(1) obtain t where t: "f x s = Ok t" "I t" by auto
  from Cons.IH[OF t(2)] Cons.prems(2) show ?case by (simp add: t(1))
qed

lemma foldR_enumerate_invariant:
  assumes "I n s"
    and "\<And>k t. k < length xs \<Longrightarrow> I (n + k) t \<Longrightarrow> \<exists>t'. f (n + k, xs ! k) t = Ok t' \<and> I (Suc (n + k)) t'"
  shows "\<exists>t. foldR f (enumerate n xs) s = Ok t \<and> I (n + length xs) t"
  using assms
proof (induction xs arbitrary: n s)
  case Nil
  then show ?case by simp
next
  case (Cons x xs)
  from Cons.prems(2) [of 0 s] Cons.prems(1) obtain t where t: "f (n, x) s = Ok t" "I (Suc n) t" by auto
  have "\<exists>t'. foldR f (enumerate (Suc n) xs) t = Ok t' \<and> I (Suc n + length xs) t'"
  proof (rule Cons.IH [of "Suc n" t])
    fix k u assume "k < length xs" "I (Suc n + k) u"
    then show "\<exists>t'. f (Suc n + k, xs ! k) u = Ok t' \<and> I (Suc (Suc n + k)) t'"
      using Cons.prems(2) [of "Suc k" u] by simp
  qed (rule t(2))
  then show ?case by (simp add: t(1))
qed

lemma traverseR_Ok_iff:
  "traverseR f xs = Ok ys \<longleftrightarrow> list_all2 (\<lambda>x y. f x = Ok y) xs ys"
  by (induction xs arbitrary: ys) (auto simp: bindR_Ok_iff list_all2_Cons1)

lemma traverseR_all_Ok: "(\<And>x. x \<in> set xs \<Longrightarrow> f x = Ok (g x)) \<Longrightarrow> traverseR f xs = Ok (map g xs)"
  by (induction xs) auto

section \<open>Laws of checked arithmetic\<close>

lemma checked_add_Some: "checked_add a b = Some c \<Longrightarrow> unat c = unat a + unat b"
  by (auto simp: checked_add_def unat_word_ariths split: if_splits)

lemma checked_sub_Some: "checked_sub a b = Some c \<Longrightarrow> unat c = unat a - unat b \<and> b \<le> a"
  by (auto simp: checked_sub_def unat_sub split: if_splits)

lemma unat_u16_less: "unat (w :: u16) < 65536"
  using unsigned_less [of w] by simp

lemma unat_u32_less: "unat (w :: u32) < 4294967296"
  using unsigned_less [of w] by simp

lemma unat_u64_less: "unat (w :: u64) < 18446744073709551616"
  using unsigned_less [of w] by simp

lemma unat_byte_less: "unat (w :: byte) < 256"
  using unsigned_less [of w] by simp

lemma unat_of_nat_eq: "n < 2 ^ LENGTH('a) \<Longrightarrow> unat (word_of_nat n :: 'a::len word) = n"
  by (simp add: unat_of_nat take_bit_nat_eq_self)

lemma word_of_nat_inject:
  assumes "m < 2 ^ LENGTH('a)" "n < 2 ^ LENGTH('a)"
  shows "word_of_nat m = (word_of_nat n :: 'a::len word) \<longleftrightarrow> m = n"
  using assms by (metis unat_of_nat_eq)

lemma unat_ucast_wide:
  assumes "unat w < 2 ^ LENGTH('b)"
  shows "unat (ucast (w :: 'a::len word) :: 'b::len word) = unat w"
proof -
  have "unat (ucast w :: 'b word) = take_bit LENGTH('b) (unat w)"
    by (simp only: unsigned_ucast_eq unsigned_take_bit_eq)
  also have "\<dots> = unat w" using assms by (rule take_bit_nat_eq_self)
  finally show ?thesis .
qed

lemma unat_ucast_u16 [simp]: "unat (ucast (w :: u16) :: u32) = unat w"
  using unat_u16_less [of w] by (intro unat_ucast_wide) simp

section \<open>Laws of slices\<close>

lemma length_sub [simp]: "off + n \<le> length b \<Longrightarrow> length (sub b off n) = n"
  by (simp add: sub_def)

lemma length_patch [simp]: "off + length d \<le> length b \<Longrightarrow> length (patch b off d) = length b"
  by (simp add: patch_def)

lemma nth_patch:
  assumes "off + length d \<le> length b" and "i < length b"
  shows "patch b off d ! i = (if off \<le> i \<and> i < off + length d then d ! (i - off) else b ! i)"
proof -
  consider "i < off" | "off \<le> i" "i < off + length d" | "off + length d \<le> i" by linarith
  then show ?thesis
  proof cases
    case 1
    with assms show ?thesis by (simp add: patch_def nth_append)
  next
    case 2
    then have "i - off < length d" by linarith
    with 2 assms show ?thesis by (simp add: patch_def nth_append)
  next
    case 3
    then have "\<not> i < off" "\<not> i - off < length d" by linarith+
    moreover have "off + length d + (i - off - length d) = i" using 3 by linarith
    ultimately show ?thesis using 3 assms by (simp add: patch_def nth_append)
  qed
qed

lemma nth_sub: "i < n \<Longrightarrow> off + n \<le> length b \<Longrightarrow> sub b off n ! i = b ! (off + i)"
  by (simp add: sub_def)

lemma sub_eqI:
  assumes "off + n \<le> length b" and "off' + n \<le> length b'"
    and "\<And>i. i < n \<Longrightarrow> b ! (off + i) = b' ! (off' + i)"
  shows "sub b off n = sub b' off' n"
  using assms by (intro nth_equalityI) (auto simp: nth_sub)

lemma sub_patch_same [codec_simps]:
  "off + length d \<le> length b \<Longrightarrow> n = length d \<Longrightarrow> sub (patch b off d) off n = d"
  by (simp add: sub_def patch_def)

lemma sub_patch_before:
  assumes "i + n \<le> off" and "off + length d \<le> length b"
  shows "sub (patch b off d) i n = sub b i n"
  using assms by (intro sub_eqI) (auto simp: nth_patch)

lemma sub_patch_after:
  assumes "off + length d \<le> i" and "i + n \<le> length b"
  shows "sub (patch b off d) i n = sub b i n"
  using assms by (intro sub_eqI) (auto simp: nth_patch)

lemma sub_patch_disjoint:
  assumes "i + n \<le> off \<or> off + length d \<le> i" and "off + length d \<le> length b" and "i + n \<le> length b"
  shows "sub (patch b off d) i n = sub b i n"
  using assms by (auto simp: sub_patch_before sub_patch_after)

lemma sub_patch_inside:
  assumes "off \<le> i" and "i + n \<le> off + length d" and "off + length d \<le> length b"
  shows "sub (patch b off d) i n = sub d (i - off) n"
  using assms by (intro sub_eqI) (auto simp: nth_patch)

lemma sub_sub: "j + n \<le> m \<Longrightarrow> off + m \<le> length b \<Longrightarrow> sub (sub b off m) j n = sub b (off + j) n"
  by (simp add: sub_def take_drop add.commute min_def)

lemma sub_0_all [simp]: "sub b 0 (length b) = b"
  by (simp add: sub_def)

lemma list_update_patch: "i < length b \<Longrightarrow> b[i := x] = patch b i [x]"
  by (simp add: patch_def upd_conv_take_nth_drop)

lemma patch_nil [simp]: "patch b off [] = b"
  by (simp add: patch_def)

section \<open>Laws of endian encodings\<close>

lemma length_le_bytes [simp]: "length (le_bytes n x) = n"
  by (induction n arbitrary: x) auto

lemma le_val_le_bytes: "le_val (le_bytes n x) = x mod 256 ^ n"
proof (induction n arbitrary: x)
  case (Suc n)
  have "le_val (le_bytes (Suc n) x) = x mod 256 + 256 * (x div 256 mod 256 ^ n)"
    by (simp add: Suc unat_of_nat take_bit_eq_mod)
  also have "\<dots> = x mod 256 ^ Suc n"
    using mod_mult2_eq [of x 256 "256 ^ n"] by simp
  finally show ?case .
qed simp

lemma le_bytes_le_val: "le_bytes (length bs) (le_val bs) = bs"
proof (induction bs)
  case (Cons b bs)
  have "(unat b + 256 * le_val bs) mod 256 = unat b" using unat_byte_less [of b] by simp
  moreover have "(unat b + 256 * le_val bs) div 256 = le_val bs" using unat_byte_less [of b] by simp
  ultimately show ?case using Cons by simp
qed simp

lemma le_val_less: "le_val bs < 256 ^ length bs"
proof (induction bs)
  case (Cons b bs)
  have "unat b + 256 * le_val bs < 256 + 256 * le_val bs" using unat_byte_less [of b] by simp
  also have "\<dots> \<le> 256 * 256 ^ length bs" using Cons by simp
  finally show ?case by simp
qed simp

lemma pow256: "256 ^ n = (2::nat) ^ (8 * n)"
  by (simp add: power_mult)

lemma from_to_le_bytes:
  fixes w :: "'a::len word"
  assumes "8 dvd LENGTH('a)"
  shows "from_le_bytes (to_le_bytes w) = w"
proof -
  have "(256::nat) ^ (LENGTH('a) div 8) = 2 ^ LENGTH('a)" using assms by (simp add: pow256)
  then have "le_val (to_le_bytes w) = unat w"
    using unsigned_less [of w] by (simp add: to_le_bytes_def le_val_le_bytes)
  then show ?thesis by (simp add: from_le_bytes_def)
qed

lemma to_from_le_bytes:
  assumes "length bs = LENGTH('a) div 8" and "8 dvd LENGTH('a)"
  shows "to_le_bytes (from_le_bytes bs :: 'a::len word) = bs"
proof -
  have "le_val bs < 2 ^ LENGTH('a)" using le_val_less [of bs] assms by (simp add: pow256)
  then have "unat (from_le_bytes bs :: 'a word) = le_val bs"
    by (simp add: from_le_bytes_def unat_of_nat_eq)
  then show ?thesis using assms le_bytes_le_val [of bs] by (simp add: to_le_bytes_def)
qed

lemma length_to_le_bytes [simp]: "length (to_le_bytes (w :: 'a::len word)) = LENGTH('a) div 8"
  by (simp add: to_le_bytes_def)

lemma length_to_be_bytes [simp]: "length (to_be_bytes (w :: 'a::len word)) = LENGTH('a) div 8"
  by (simp add: to_be_bytes_def)

lemma from_to_le_bytes_widths [simp, codec_simps]:
  "from_le_bytes (to_le_bytes (w8 :: byte)) = w8"
  "from_le_bytes (to_le_bytes (w16 :: u16)) = w16"
  "from_le_bytes (to_le_bytes (w32 :: u32)) = w32"
  "from_le_bytes (to_le_bytes (w64 :: u64)) = w64"
  by (simp_all add: from_to_le_bytes)

lemma from_to_be_bytes_widths [simp, codec_simps]:
  "from_be_bytes (to_be_bytes (w32 :: u32)) = w32"
  "from_be_bytes (to_be_bytes (w64 :: u64)) = w64"
  by (simp_all add: from_be_bytes_def to_be_bytes_def)

end
