(* ===== verification/Ids.thy ===== *)
theory Ids
  imports Prelude
begin

text \<open>
  Models \<open>src/src/ids.rs\<close>: the newtypes for page, frame, table, index and record ids, and
  the encodings of page links. A missing page link is \<open>None\<close>; only the encode and decode
  functions here know the sentinel it is stored as.
\<close>

section \<open>Ids\<close>

datatype PageId = PageId (page_raw: u32)

datatype PageIdOutOfRange = PageIdOutOfRange u64

definition PageId_MAX :: PageId where
  "PageId_MAX = PageId 4294967294"

definition NO_PAGE_U32 :: u32 where
  "NO_PAGE_U32 = 4294967295"

definition NO_PAGE_U64 :: u64 where
  "NO_PAGE_U64 = 18446744073709551615"

definition PageId_new :: "u32 \<Rightarrow> ('e, PageId) result" where
  "PageId_new raw = bindR (assertR (raw \<le> page_raw PageId_MAX)) (\<lambda>_. Ok (PageId raw))"

definition PageId_get :: "PageId \<Rightarrow> u32" where
  "PageId_get p = page_raw p"

definition as_usize :: "PageId \<Rightarrow> nat" where
  "as_usize p = unat (page_raw p)"

definition encode_u32 :: "PageId option \<Rightarrow> u32" where
  "encode_u32 link = (case link of None \<Rightarrow> NO_PAGE_U32 | Some p \<Rightarrow> PageId_get p)"

definition decode_u32 :: "u32 \<Rightarrow> PageId option" where
  "decode_u32 raw = (if raw \<noteq> NO_PAGE_U32 then Some (PageId raw) else None)"

definition encode_u64 :: "PageId option \<Rightarrow> u64" where
  "encode_u64 link = (case link of None \<Rightarrow> NO_PAGE_U64 | Some p \<Rightarrow> ucast (page_raw p))"

text \<open>\<open>u32::try_from\<close> on a \<open>u64\<close>.\<close>

definition u32_try_from :: "u64 \<Rightarrow> u32 option" where
  "u32_try_from raw = (if unat raw < 2 ^ 32 then Some (ucast raw) else None)"

definition try_from_u64 :: "u64 \<Rightarrow> (PageIdOutOfRange, PageId) result" where
  "try_from_u64 raw =
     ok_or (case u32_try_from raw of
              None \<Rightarrow> None
            | Some i \<Rightarrow> if i \<le> page_raw PageId_MAX then Some (PageId i) else None)
       (PageIdOutOfRange raw)"

definition try_from_usize :: "nat \<Rightarrow> (PageIdOutOfRange, PageId) result" where
  "try_from_usize raw = try_from_u64 (if raw < 2 ^ 64 then word_of_nat raw else 18446744073709551615)"

definition decode_u64 :: "u64 \<Rightarrow> (PageIdOutOfRange, PageId option) result" where
  "decode_u64 raw =
     (if raw = NO_PAGE_U64 then Ok None
      else mapR Some (try_from_u64 raw))"

datatype FrameId = FrameId (frame_raw: nat)

datatype TableOid = TableOid u32

datatype IndexOid = IndexOid u32

record RecordId =
  page_id :: PageId
  slot_id :: u32

definition RecordId_RESERVED :: RecordId where
  "RecordId_RESERVED = \<lparr>page_id = PageId 4294967295, slot_id = 4294967295\<rparr>"

section \<open>Order of page ids\<close>

text \<open>The derived \<open>Ord\<close> of a newtype is the order of what it wraps.\<close>

instantiation PageId :: linorder
begin

definition less_eq_PageId :: "PageId \<Rightarrow> PageId \<Rightarrow> bool" where
  "less_eq_PageId a b \<longleftrightarrow> page_raw a \<le> page_raw b"

definition less_PageId :: "PageId \<Rightarrow> PageId \<Rightarrow> bool" where
  "less_PageId a b \<longleftrightarrow> page_raw a < page_raw b"

instance
  by standard (auto simp: less_eq_PageId_def less_PageId_def PageId.expand)

end

section \<open>Valid page ids and the link codecs\<close>

text \<open>A page id that the allocator can hand out: at most \<open>PageId::MAX\<close>.\<close>

definition valid_page_id :: "PageId \<Rightarrow> bool" where
  "valid_page_id p \<longleftrightarrow> p \<le> PageId_MAX"

lemma valid_page_id_iff: "valid_page_id p \<longleftrightarrow> page_raw p \<noteq> NO_PAGE_U32"
proof -
  have "valid_page_id p \<longleftrightarrow> unat (page_raw p) \<le> 4294967294"
    by (simp add: valid_page_id_def less_eq_PageId_def PageId_MAX_def word_le_nat_alt)
  moreover have "page_raw p = NO_PAGE_U32 \<longleftrightarrow> unat (page_raw p) = 4294967295"
    by (simp add: NO_PAGE_U32_def word_unat_eq_iff)
  moreover have "unat (page_raw p) < 4294967296" by (rule unat_u32_less)
  ultimately show ?thesis by linarith
qed

lemma decode_encode_u32: "pred_option valid_page_id link \<Longrightarrow> decode_u32 (encode_u32 link) = link"
  by (cases link) (auto simp: encode_u32_def decode_u32_def PageId_get_def valid_page_id_iff)

lemma encode_decode_u32: "encode_u32 (decode_u32 raw) = raw"
  by (auto simp: encode_u32_def decode_u32_def PageId_get_def)

lemma decode_u32_valid: "pred_option valid_page_id (decode_u32 raw)"
  by (auto simp: decode_u32_def valid_page_id_iff)

lemma unat_ucast_u32_u64 [simp]: "unat (ucast (x :: u32) :: u64) = unat x"
proof (rule unat_ucast_wide)
  show "unat x < 2 ^ LENGTH(64)" using unat_u32_less [of x] by simp
qed

lemma unat_ucast_u64_u32: "unat (x :: u64) < 2 ^ 32 \<Longrightarrow> unat (ucast x :: u32) = unat x"
  by (rule unat_ucast_wide) simp

lemma u32_try_from_ucast [simp]: "u32_try_from (ucast (x :: u32)) = Some x"
proof -
  have less: "unat (ucast x :: u64) < 2 ^ 32" using unat_u32_less [of x] by simp
  then have "unat (ucast (ucast x :: u64) :: u32) = unat x" by (simp only: unat_ucast_u64_u32 unat_ucast_u32_u64)
  then have "ucast (ucast x :: u64) = x" by (simp only: word_unat_eq_iff)
  then show ?thesis using less by (simp only: u32_try_from_def if_True)
qed

lemma try_from_u64_ucast:
  "try_from_u64 (ucast x) =
     (if valid_page_id (PageId x) then Ok (PageId x) else Err (PageIdOutOfRange (ucast x)))"
  by (simp add: try_from_u64_def valid_page_id_def less_eq_PageId_def)

lemma ucast_u32_not_NO_PAGE: "ucast (x :: u32) \<noteq> NO_PAGE_U64"
proof
  assume "ucast x = NO_PAGE_U64"
  then have "unat (ucast x :: u64) = unat NO_PAGE_U64" by simp
  then show False using unat_u32_less [of x] by (simp add: NO_PAGE_U64_def)
qed

lemma decode_encode_u64:
  "pred_option valid_page_id link \<Longrightarrow> decode_u64 (encode_u64 link) = Ok link"
  by (cases link)
     (auto simp: encode_u64_def decode_u64_def try_from_u64_ucast ucast_u32_not_NO_PAGE)

lemma try_from_u64_Ok:
  assumes "try_from_u64 raw = Ok p"
  shows "valid_page_id p \<and> ucast (page_raw p) = raw"
proof -
  from assms have less: "unat raw < 2 ^ 32" and p: "p = PageId (ucast raw)"
    and "page_raw p \<le> page_raw PageId_MAX"
    by (auto simp: try_from_u64_def u32_try_from_def split: option.splits if_splits)
  moreover have "unat (ucast (ucast raw :: u32) :: u64) = unat raw"
    using less by (simp only: unat_ucast_u64_u32 unat_ucast_u32_u64)
  then have "ucast (ucast raw :: u32) = raw" by (simp only: word_unat_eq_iff)
  ultimately show ?thesis by (simp add: valid_page_id_def less_eq_PageId_def)
qed

lemma decode_u64_Ok:
  "decode_u64 raw = Ok link \<Longrightarrow> encode_u64 link = raw \<and> pred_option valid_page_id link"
  by (cases "try_from_u64 raw")
     (auto simp: decode_u64_def encode_u64_def dest: try_from_u64_Ok split: if_splits)

lemma try_from_u64_not_Panic [simp]: "try_from_u64 raw \<noteq> Panic"
  by (simp add: try_from_u64_def)

lemma try_from_usize_Ok_iff:
  "try_from_usize n = Ok p \<longleftrightarrow> n < 4294967295 \<and> p = PageId (word_of_nat n)"
proof (cases "n < 2 ^ 32")
  case True
  have u: "unat (word_of_nat n :: u32) = n" using True by (simp add: unat_of_nat_eq)
  have "(word_of_nat n :: u64) = ucast (word_of_nat n :: u32)"
    using True u by (simp add: word_unat_eq_iff unat_of_nat_eq)
  then have "try_from_usize n = try_from_u64 (ucast (word_of_nat n :: u32))"
    using True by (simp add: try_from_usize_def)
  then show ?thesis using True u
    by (auto simp: try_from_u64_ucast valid_page_id_iff NO_PAGE_U32_def word_unat_eq_iff)
next
  case False
  have "unat (if n < 2 ^ 64 then word_of_nat n else 18446744073709551615 :: u64) \<ge> 2 ^ 32"
    using False by (auto simp: unat_of_nat_eq)
  then show ?thesis using False
    by (auto simp: try_from_usize_def try_from_u64_def u32_try_from_def)
qed

end
