(* ===== verification/Buf.thy ===== *)
theory Buf
  imports Ids
begin

text \<open>
  Models \<open>src/src/buf.rs\<close>: the bounds-checked writer and reader cursors, and the
  fixed-offset little-endian accessors the page views use, which panic outside the buffer.
  A writer or reader operation that fails leaves the cursor as it was, so it returns the
  new cursor on success only.
\<close>

definition PAGE_SIZE :: nat where
  "PAGE_SIZE = 8192"

datatype BufferError = Overflow | BufferTooSmall (needed: nat) (actual: nat)

record BufWriter =
  w_buf :: bytes
  w_pos :: nat

record BufReader =
  r_buf :: bytes
  r_pos :: nat

text \<open>\<open>usize::checked_add\<close>.\<close>

definition checked_add_usize :: "nat \<Rightarrow> nat \<Rightarrow> nat option" where
  "checked_add_usize a b = (if a + b < 2 ^ 64 then Some (a + b) else None)"

section \<open>Writer\<close>

definition BufWriter_new :: "bytes \<Rightarrow> (BufferError, BufWriter) result" where
  "BufWriter_new buf =
     (if length buf < PAGE_SIZE then Err (BufferTooSmall PAGE_SIZE (length buf))
      else Ok \<lparr>w_buf = buf, w_pos = 0\<rparr>)"

definition write_bytes :: "BufWriter \<Rightarrow> bytes \<Rightarrow> (BufferError, BufWriter) result" where
  "write_bytes w d =
     bindR (ok_or (checked_add_usize (w_pos w) (length d)) Overflow) (\<lambda>e.
       if e > length (w_buf w) then Err (BufferTooSmall e (length (w_buf w)))
       else bindR (copy_from_slice (w_buf w) (w_pos w) e d) (\<lambda>b.
         Ok \<lparr>w_buf = b, w_pos = e\<rparr>))"

definition write_u8 :: "BufWriter \<Rightarrow> byte \<Rightarrow> (BufferError, BufWriter) result" where
  "write_u8 w v = write_bytes w [v]"

definition write_u16_le :: "BufWriter \<Rightarrow> u16 \<Rightarrow> (BufferError, BufWriter) result" where
  "write_u16_le w v = write_bytes w (to_le_bytes v)"

definition write_u32_le :: "BufWriter \<Rightarrow> u32 \<Rightarrow> (BufferError, BufWriter) result" where
  "write_u32_le w v = write_bytes w (to_le_bytes v)"

definition write_u64_le :: "BufWriter \<Rightarrow> u64 \<Rightarrow> (BufferError, BufWriter) result" where
  "write_u64_le w v = write_bytes w (to_le_bytes v)"

section \<open>Reader\<close>

definition BufReader_new :: "bytes \<Rightarrow> (BufferError, BufReader) result" where
  "BufReader_new buf =
     (if length buf < PAGE_SIZE then Err (BufferTooSmall PAGE_SIZE (length buf))
      else Ok \<lparr>r_buf = buf, r_pos = 0\<rparr>)"

definition read_bytes :: "BufReader \<Rightarrow> nat \<Rightarrow> (BufferError, bytes \<times> BufReader) result" where
  "read_bytes r n =
     bindR (ok_or (checked_add_usize (r_pos r) n) Overflow) (\<lambda>e.
       if e > length (r_buf r) then Err (BufferTooSmall e (length (r_buf r)))
       else bindR (slice_get (r_buf r) (r_pos r) e) (\<lambda>out.
         Ok (out, r\<lparr>r_pos := e\<rparr>)))"

definition read_u8 :: "BufReader \<Rightarrow> (BufferError, byte \<times> BufReader) result" where
  "read_u8 r = bindR (read_bytes r 1) (\<lambda>(b, r'). bindR (index_get b 0) (\<lambda>x. Ok (x, r')))"

definition read_u16_le :: "BufReader \<Rightarrow> (BufferError, u16 \<times> BufReader) result" where
  "read_u16_le r = bindR (read_bytes r 2) (\<lambda>(b, r'). Ok (from_le_bytes b, r'))"

definition read_u32_le :: "BufReader \<Rightarrow> (BufferError, u32 \<times> BufReader) result" where
  "read_u32_le r = bindR (read_bytes r 4) (\<lambda>(b, r'). Ok (from_le_bytes b, r'))"

definition read_u64_le :: "BufReader \<Rightarrow> (BufferError, u64 \<times> BufReader) result" where
  "read_u64_le r = bindR (read_bytes r 8) (\<lambda>(b, r'). Ok (from_le_bytes b, r'))"

definition remaining :: "BufReader \<Rightarrow> nat" where
  "remaining r = length (r_buf r) - r_pos r"

section \<open>Accessors at an offset\<close>

definition get_u16_le :: "bytes \<Rightarrow> nat \<Rightarrow> ('e, u16) result" where
  "get_u16_le buf off = mapR from_le_bytes (slice_get buf off (off + 2))"

definition get_u32_le :: "bytes \<Rightarrow> nat \<Rightarrow> ('e, u32) result" where
  "get_u32_le buf off = mapR from_le_bytes (slice_get buf off (off + 4))"

definition get_u64_le :: "bytes \<Rightarrow> nat \<Rightarrow> ('e, u64) result" where
  "get_u64_le buf off = mapR from_le_bytes (slice_get buf off (off + 8))"

definition put_u16_le :: "bytes \<Rightarrow> nat \<Rightarrow> u16 \<Rightarrow> ('e, bytes) result" where
  "put_u16_le buf off v = copy_from_slice buf off (off + 2) (to_le_bytes v)"

definition put_u32_le :: "bytes \<Rightarrow> nat \<Rightarrow> u32 \<Rightarrow> ('e, bytes) result" where
  "put_u32_le buf off v = copy_from_slice buf off (off + 4) (to_le_bytes v)"

definition put_u64_le :: "bytes \<Rightarrow> nat \<Rightarrow> u64 \<Rightarrow> ('e, bytes) result" where
  "put_u64_le buf off v = copy_from_slice buf off (off + 8) (to_le_bytes v)"

section \<open>Values at an offset\<close>

text \<open>The value a getter returns inside the buffer, and how writes elsewhere leave it.\<close>

definition u8_at :: "bytes \<Rightarrow> nat \<Rightarrow> byte" where
  "u8_at b off = from_le_bytes (sub b off 1)"

definition u16_at :: "bytes \<Rightarrow> nat \<Rightarrow> u16" where
  "u16_at b off = from_le_bytes (sub b off 2)"

definition u32_at :: "bytes \<Rightarrow> nat \<Rightarrow> u32" where
  "u32_at b off = from_le_bytes (sub b off 4)"

definition u64_at :: "bytes \<Rightarrow> nat \<Rightarrow> u64" where
  "u64_at b off = from_le_bytes (sub b off 8)"

lemmas at_defs = u8_at_def u16_at_def u32_at_def u64_at_def

lemma get_u16_le_ok [simp]: "off + 2 \<le> length b \<Longrightarrow> get_u16_le b off = Ok (u16_at b off)"
  by (simp add: get_u16_le_def slice_get_def u16_at_def)

lemma get_u32_le_ok [simp]: "off + 4 \<le> length b \<Longrightarrow> get_u32_le b off = Ok (u32_at b off)"
  by (simp add: get_u32_le_def slice_get_def u32_at_def)

lemma get_u64_le_ok [simp]: "off + 8 \<le> length b \<Longrightarrow> get_u64_le b off = Ok (u64_at b off)"
  by (simp add: get_u64_le_def slice_get_def u64_at_def)

lemma put_u16_le_ok [simp]:
  "off + 2 \<le> length b \<Longrightarrow> put_u16_le b off v = Ok (patch b off (to_le_bytes v))"
  by (simp add: put_u16_le_def copy_from_slice_def)

lemma put_u32_le_ok [simp]:
  "off + 4 \<le> length b \<Longrightarrow> put_u32_le b off v = Ok (patch b off (to_le_bytes v))"
  by (simp add: put_u32_le_def copy_from_slice_def)

lemma put_u64_le_ok [simp]:
  "off + 8 \<le> length b \<Longrightarrow> put_u64_le b off v = Ok (patch b off (to_le_bytes v))"
  by (simp add: put_u64_le_def copy_from_slice_def)

lemma get_le_Panic_iff:
  "get_u16_le b off = Panic \<longleftrightarrow> length b < off + 2"
  "get_u32_le b off = Panic \<longleftrightarrow> length b < off + 4"
  "get_u64_le b off = Panic \<longleftrightarrow> length b < off + 8"
  by (auto simp: get_u16_le_def get_u32_le_def get_u64_le_def slice_get_def)

lemma from_le_bytes_singleton [simp]: "from_le_bytes [x] = (x :: byte)"
  by (simp add: from_le_bytes_def)

lemma sub_singleton: "i < length b \<Longrightarrow> sub b i (Suc 0) = [b ! i]"
  by (simp add: sub_def take_Suc_conv_app_nth hd_drop_conv_nth Cons_nth_drop_Suc [symmetric])

lemma nth_u8_at: "i < length b \<Longrightarrow> b ! i = u8_at b i"
  by (simp add: u8_at_def sub_singleton)

lemma index_get_ok [simp]: "i < length b \<Longrightarrow> index_get b i = Ok (u8_at b i)"
  by (simp add: index_get_def nth_u8_at)

lemma index_put_ok [simp]: "i < length b \<Longrightarrow> index_put b i x = Ok (patch b i [x])"
  by (simp add: index_put_def list_update_patch)

lemma u8_at_patch_same [codec_simps]: "off < length b \<Longrightarrow> u8_at (patch b off [v]) off = v"
  using sub_patch_same [of off "[v]" b 1] by (simp add: u8_at_def)

lemma u16_at_patch_same [codec_simps]:
  "off + 2 \<le> length b \<Longrightarrow> u16_at (patch b off (to_le_bytes v)) off = v"
  by (simp add: u16_at_def sub_patch_same)

lemma u32_at_patch_same [codec_simps]:
  "off + 4 \<le> length b \<Longrightarrow> u32_at (patch b off (to_le_bytes v)) off = v"
  by (simp add: u32_at_def sub_patch_same)

lemma u64_at_patch_same [codec_simps]:
  "off + 8 \<le> length b \<Longrightarrow> u64_at (patch b off (to_le_bytes v)) off = v"
  by (simp add: u64_at_def sub_patch_same)

lemma u8_at_patch_other [codec_simps]:
  "i < off \<or> off + length d \<le> i \<Longrightarrow> off + length d \<le> length b \<Longrightarrow> i < length b \<Longrightarrow>
   u8_at (patch b off d) i = u8_at b i"
  by (simp add: u8_at_def sub_patch_disjoint Suc_le_eq)

lemma u16_at_patch_other [codec_simps]:
  "i + 2 \<le> off \<or> off + length d \<le> i \<Longrightarrow> off + length d \<le> length b \<Longrightarrow> i + 2 \<le> length b \<Longrightarrow>
   u16_at (patch b off d) i = u16_at b i"
  by (simp add: u16_at_def sub_patch_disjoint)

lemma u32_at_patch_other [codec_simps]:
  "i + 4 \<le> off \<or> off + length d \<le> i \<Longrightarrow> off + length d \<le> length b \<Longrightarrow> i + 4 \<le> length b \<Longrightarrow>
   u32_at (patch b off d) i = u32_at b i"
  by (simp add: u32_at_def sub_patch_disjoint)

lemma u64_at_patch_other [codec_simps]:
  "i + 8 \<le> off \<or> off + length d \<le> i \<Longrightarrow> off + length d \<le> length b \<Longrightarrow> i + 8 \<le> length b \<Longrightarrow>
   u64_at (patch b off d) i = u64_at b i"
  by (simp add: u64_at_def sub_patch_disjoint)

section \<open>Cursors round trip\<close>

lemma write_bytes_ok_iff:
  "write_bytes w d = Ok w' \<longleftrightarrow>
     w_pos w + length d \<le> length (w_buf w) \<and> w_pos w + length d < 2 ^ 64 \<and>
     w' = \<lparr>w_buf = patch (w_buf w) (w_pos w) d, w_pos = w_pos w + length d\<rparr>"
  by (auto simp: write_bytes_def checked_add_usize_def copy_from_slice_def bindR_Ok_iff split: if_splits)

lemma write_bytes_not_Panic [simp]: "write_bytes w d \<noteq> Panic"
  by (auto simp: write_bytes_def checked_add_usize_def copy_from_slice_def)

lemma read_bytes_ok_iff:
  "read_bytes r n = Ok (d, r') \<longleftrightarrow>
     r_pos r + n \<le> length (r_buf r) \<and> r_pos r + n < 2 ^ 64 \<and>
     d = sub (r_buf r) (r_pos r) n \<and> r' = r\<lparr>r_pos := r_pos r + n\<rparr>"
  by (auto simp: read_bytes_def checked_add_usize_def slice_get_def bindR_Ok_iff split: if_splits)

lemma read_bytes_not_Panic [simp]: "read_bytes r n \<noteq> Panic"
  by (auto simp: read_bytes_def checked_add_usize_def slice_get_def)

end
