(* ===== verification/Table_Page.thy ===== *)
theory Table_Page
  imports Buf
begin

text \<open>
  Models \<open>src/src/table_page.rs\<close>: the slotted table page, read and written in place. A
  \<open>TablePage\<close> is its buffer, a list of bytes; a read may panic outside the buffer and every
  operation is written with that panic. The second half proves that on a well formed page
  (\<open>wf_page\<close>) no operation panics, that each keeps the page well formed, and that each
  acts on the list of tuples the page holds (\<open>tuples\<close>) as its documentation says.
\<close>

section \<open>Data\<close>

datatype TablePageError =
    WrongSize nat
  | CorruptHeader (directory_end_at: nat) (free_space_offset_at: nat)
  | SlotOutOfBounds (oob_offset: u32) (oob_size: u32) (oob_capacity: u32) (tuple_area_start: u32)
  | DoesNotFit nat
  | SlotCountOverflow
  | SlotMissing u32 u16
  | AlreadyDeleted u32
  | CorruptDeletedCounter u16 u32
  | UpdateDoesNotFit (udnf_slot: u32) (udnf_len: nat) (available: nat)

record TupleMeta =
  meta_ts :: u64
  meta_is_deleted :: bool

definition TupleMeta_default :: TupleMeta where
  "TupleMeta_default = \<lparr>meta_ts = 0, meta_is_deleted = False\<rparr>"

record Slot =
  s_offset :: u32
  s_size :: u32
  s_capacity :: u32
  s_meta :: TupleMeta

definition region_start :: "Slot \<Rightarrow> ('e, u32) result" where
  "region_start s = expectR (checked_sub (s_offset s) (s_capacity s))"

definition region :: "Slot \<Rightarrow> ('e, nat \<times> nat) result" where
  "region s = bindR (region_start s) (\<lambda>st. Ok (unat st, unat (s_offset s)))"

definition range_of :: "Slot \<Rightarrow> ('e, nat \<times> nat) result" where
  "range_of s = bindR (region_start s) (\<lambda>st. Ok (unat st, unat st + unat (s_size s)))"

definition NEXT_PAGE_ID_OFF :: nat where "NEXT_PAGE_ID_OFF = 0"
definition NUM_TUPLES_OFF :: nat where "NUM_TUPLES_OFF = 4"
definition NUM_DELETED_OFF :: nat where "NUM_DELETED_OFF = 6"
definition FREE_SPACE_OFF :: nat where "FREE_SPACE_OFF = 8"
definition SLOT_OFFSET_OFF :: nat where "SLOT_OFFSET_OFF = 0"
definition SLOT_SIZE_OFF :: nat where "SLOT_SIZE_OFF = 4"
definition SLOT_CAPACITY_OFF :: nat where "SLOT_CAPACITY_OFF = 6"
definition SLOT_TS_OFF :: nat where "SLOT_TS_OFF = 8"
definition SLOT_DELETED_OFF :: nat where "SLOT_DELETED_OFF = 16"

definition HEADER_SIZE :: nat where "HEADER_SIZE = 12"
definition SLOT_SIZE :: nat where "SLOT_SIZE = 17"
definition MAX_TUPLE_SIZE :: nat where "MAX_TUPLE_SIZE = PAGE_SIZE - HEADER_SIZE - SLOT_SIZE"

lemmas page_consts = NEXT_PAGE_ID_OFF_def NUM_TUPLES_OFF_def NUM_DELETED_OFF_def FREE_SPACE_OFF_def
  SLOT_OFFSET_OFF_def SLOT_SIZE_OFF_def SLOT_CAPACITY_OFF_def SLOT_TS_OFF_def SLOT_DELETED_OFF_def
  HEADER_SIZE_def SLOT_SIZE_def MAX_TUPLE_SIZE_def PAGE_SIZE_def

section \<open>Reading\<close>

definition next_page_id :: "bytes \<Rightarrow> ('e, PageId option) result" where
  "next_page_id b = mapR decode_u32 (get_u32_le b NEXT_PAGE_ID_OFF)"

definition num_tuples :: "bytes \<Rightarrow> ('e, u16) result" where
  "num_tuples b = get_u16_le b NUM_TUPLES_OFF"

definition num_deleted_tuples :: "bytes \<Rightarrow> ('e, u16) result" where
  "num_deleted_tuples b = get_u16_le b NUM_DELETED_OFF"

definition free_space_offset :: "bytes \<Rightarrow> ('e, u32) result" where
  "free_space_offset b = get_u32_le b FREE_SPACE_OFF"

definition directory_end :: "bytes \<Rightarrow> ('e, nat) result" where
  "directory_end b = bindR (num_tuples b) (\<lambda>n. Ok (HEADER_SIZE + unat n * SLOT_SIZE))"

definition slot_base :: "u32 \<Rightarrow> nat" where
  "slot_base slot = HEADER_SIZE + unat slot * SLOT_SIZE"

definition TablePage_new :: "bytes \<Rightarrow> (TablePageError, bytes) result" where
  "TablePage_new b =
     (if length b \<noteq> PAGE_SIZE then Err (WrongSize (length b))
      else bindR (directory_end b) (\<lambda>dir. bindR (free_space_offset b) (\<lambda>f.
        if dir > unat f \<or> unat f > PAGE_SIZE then Err (CorruptHeader dir (unat f)) else Ok b)))"

definition slot_get :: "bytes \<Rightarrow> u32 \<Rightarrow> ('e, Slot option) result" where
  "slot_get b slot =
     bindR (num_tuples b) (\<lambda>n.
       if unat slot \<ge> unat n then Ok None
       else let base = slot_base slot in
         bindR (get_u32_le b (base + SLOT_OFFSET_OFF)) (\<lambda>off.
         bindR (get_u16_le b (base + SLOT_SIZE_OFF)) (\<lambda>sz.
         bindR (get_u16_le b (base + SLOT_CAPACITY_OFF)) (\<lambda>cap.
         bindR (get_u64_le b (base + SLOT_TS_OFF)) (\<lambda>ts.
         bindR (index_get b (base + SLOT_DELETED_OFF)) (\<lambda>del.
           Ok (Some \<lparr>s_offset = off, s_size = ucast sz, s_capacity = ucast cap,
                     s_meta = \<lparr>meta_ts = ts, meta_is_deleted = (del \<noteq> 0)\<rparr>\<rparr>)))))))"

definition check_region :: "bytes \<Rightarrow> Slot \<Rightarrow> (TablePageError, unit) result" where
  "check_region b s =
     bindR (free_space_offset b) (\<lambda>f.
       let oob = SlotOutOfBounds (s_offset s) (s_size s) (s_capacity s) f in
       if s_size s > s_capacity s \<or> s_capacity s > s_offset s then Err oob
       else bindR (region_start s) (\<lambda>st.
         if st < f \<or> unat (s_offset s) > PAGE_SIZE then Err oob else Ok ()))"

definition tuple_bytes :: "bytes \<Rightarrow> Slot \<Rightarrow> (TablePageError, bytes) result" where
  "tuple_bytes b s =
     bindR (check_region b s) (\<lambda>_. bindR (range_of s) (\<lambda>(i, j). slice_get b i j))"

definition free_bytes :: "bytes \<Rightarrow> ('e, nat) result" where
  "free_bytes b =
     bindR (free_space_offset b) (\<lambda>f. bindR (directory_end b) (\<lambda>dir. Ok (unat f - dir)))"

definition slots :: "bytes \<Rightarrow> ('e, Slot list) result" where
  "slots b =
     bindR (num_tuples b) (\<lambda>n.
       mapR (List.map_filter (\<lambda>x. x)) (traverseR (\<lambda>i. slot_get b (word_of_nat i)) [0..<unat n]))"

definition can_insert :: "bytes \<Rightarrow> nat \<Rightarrow> ('e, bool) result" where
  "can_insert b len =
     bindR (directory_end b) (\<lambda>dir. bindR (free_space_offset b) (\<lambda>f.
       Ok (dir + SLOT_SIZE + len \<le> unat f)))"

section \<open>Writing\<close>

definition tuple_len :: "bytes \<Rightarrow> (TablePageError, u16) result" where
  "tuple_len d =
     ok_or (if length d < 2 ^ 16 \<and> length d \<le> MAX_TUPLE_SIZE then Some (word_of_nat (length d))
            else None) (DoesNotFit (length d))"

definition u8_of_bool :: "bool \<Rightarrow> byte" where
  "u8_of_bool p = (if p then 1 else 0)"

definition TablePage_init :: "bytes \<Rightarrow> ('e, bytes) result" where
  "TablePage_init b =
     bindR (put_u32_le b NEXT_PAGE_ID_OFF (encode_u32 None)) (\<lambda>b.
     bindR (put_u16_le b NUM_TUPLES_OFF 0) (\<lambda>b.
     bindR (put_u16_le b NUM_DELETED_OFF 0) (\<lambda>b.
     put_u32_le b FREE_SPACE_OFF (word_of_nat PAGE_SIZE))))"

definition set_next_page_id :: "bytes \<Rightarrow> PageId \<Rightarrow> ('e, bytes) result" where
  "set_next_page_id b p = put_u32_le b NEXT_PAGE_ID_OFF (encode_u32 (Some p))"

definition insert_with_meta ::
  "bytes \<Rightarrow> TupleMeta \<Rightarrow> bytes \<Rightarrow> (TablePageError, u32 \<times> bytes) result" where
  "insert_with_meta b meta data =
     bindR (can_insert b (length data)) (\<lambda>fits.
     if \<not> fits then Err (DoesNotFit (length data)) else
     bindR (num_tuples b) (\<lambda>n.
     let slot = ucast n :: u32 in
     bindR (ok_or (checked_add n 1) SlotCountOverflow) (\<lambda>new_n.
     bindR (free_space_offset b) (\<lambda>offset.
     bindR (tuple_len data) (\<lambda>size.
     bindR (expectR (checked_sub offset (ucast size))) (\<lambda>start.
     let base = slot_base slot in
     bindR (num_deleted_tuples b) (\<lambda>nd.
     bindR (expectR (checked_add nd (if meta_is_deleted meta then 1 else 0))) (\<lambda>deleted.
     bindR (copy_from_slice b (unat start) (unat offset) data) (\<lambda>b.
     bindR (put_u32_le b (base + SLOT_OFFSET_OFF) offset) (\<lambda>b.
     bindR (put_u16_le b (base + SLOT_SIZE_OFF) size) (\<lambda>b.
     bindR (put_u16_le b (base + SLOT_CAPACITY_OFF) size) (\<lambda>b.
     bindR (put_u64_le b (base + SLOT_TS_OFF) (meta_ts meta)) (\<lambda>b.
     bindR (index_put b (base + SLOT_DELETED_OFF) (u8_of_bool (meta_is_deleted meta))) (\<lambda>b.
     bindR (put_u16_le b NUM_TUPLES_OFF new_n) (\<lambda>b.
     bindR (put_u16_le b NUM_DELETED_OFF deleted) (\<lambda>b.
     bindR (put_u32_le b FREE_SPACE_OFF start) (\<lambda>b.
     Ok (slot, b))))))))))))))))))"

definition page_insert :: "bytes \<Rightarrow> bytes \<Rightarrow> (TablePageError, u32 \<times> bytes) result" where
  "page_insert b data = insert_with_meta b TupleMeta_default data"

definition existing_slot :: "bytes \<Rightarrow> u32 \<Rightarrow> (TablePageError, Slot) result" where
  "existing_slot b slot =
     bindR (slot_get b slot) (\<lambda>found.
       case found of
         Some s \<Rightarrow> Ok s
       | None \<Rightarrow> bindR (num_tuples b) (\<lambda>n. Err (SlotMissing slot n)))"

fun deleted_count :: "u16 \<Rightarrow> bool \<Rightarrow> bool \<Rightarrow> u16 option" where
  "deleted_count count False True = checked_add count 1"
| "deleted_count count True False = checked_sub count 1"
| "deleted_count count _ _ = Some count"

definition update_meta :: "bytes \<Rightarrow> u32 \<Rightarrow> TupleMeta \<Rightarrow> (TablePageError, bytes) result" where
  "update_meta b slot meta =
     bindR (existing_slot b slot) (\<lambda>current.
     bindR (num_deleted_tuples b) (\<lambda>count.
     bindR (ok_or (deleted_count count (meta_is_deleted (s_meta current)) (meta_is_deleted meta))
       (CorruptDeletedCounter count slot)) (\<lambda>deleted.
     let base = slot_base slot in
     bindR (put_u64_le b (base + SLOT_TS_OFF) (meta_ts meta)) (\<lambda>b.
     bindR (index_put b (base + SLOT_DELETED_OFF) (u8_of_bool (meta_is_deleted meta))) (\<lambda>b.
     put_u16_le b NUM_DELETED_OFF deleted)))))"

definition mark_deleted :: "bytes \<Rightarrow> u32 \<Rightarrow> (TablePageError, bytes) result" where
  "mark_deleted b slot =
     bindR (existing_slot b slot) (\<lambda>current.
     if meta_is_deleted (s_meta current) then Err (AlreadyDeleted slot)
     else bindR (num_deleted_tuples b) (\<lambda>count.
       if count = 65535 then Err (CorruptDeletedCounter 65535 slot)
       else update_meta b slot ((s_meta current)\<lparr>meta_is_deleted := True\<rparr>)))"

datatype Placement = InPlace | Free | AfterCompaction

definition place :: "bytes \<Rightarrow> Slot \<Rightarrow> u32 \<Rightarrow> nat \<Rightarrow> (TablePageError, Placement) result" where
  "place b current slot len =
     (if len \<le> unat (s_capacity current) then Ok InPlace
      else bindR (free_bytes b) (\<lambda>f.
        if len \<le> f then Ok Free
        else bindR (slots b) (\<lambda>ss.
          let other_regions =
                sum_list (map (\<lambda>(i, s). unat (s_capacity s))
                  (filter (\<lambda>(i, s). word_of_nat i \<noteq> slot) (enumerate 0 ss))) in
          bindR (directory_end b) (\<lambda>dir.
          bindR (sub_usize PAGE_SIZE dir) (\<lambda>rest.
          bindR (sub_usize rest other_regions) (\<lambda>avail.
            if len \<le> avail then Ok AfterCompaction
            else Err (UpdateDoesNotFit slot len avail)))))))"

definition claim_free_region :: "bytes \<Rightarrow> u32 \<Rightarrow> u16 \<Rightarrow> ('e, Slot \<times> bytes) result" where
  "claim_free_region b slot sz =
     bindR (free_space_offset b) (\<lambda>end_at.
     bindR (expectR (checked_sub end_at (ucast sz))) (\<lambda>start.
     let base = slot_base slot in
     bindR (put_u32_le b (base + SLOT_OFFSET_OFF) end_at) (\<lambda>b.
     bindR (put_u16_le b (base + SLOT_CAPACITY_OFF) sz) (\<lambda>b.
     bindR (put_u32_le b FREE_SPACE_OFF start) (\<lambda>b.
     bindR (slot_get b slot) (\<lambda>found.
     bindR (expectR found) (\<lambda>s. Ok (s, b))))))))"

definition compact_step ::
  "u32 \<Rightarrow> nat \<times> Slot \<times> bytes \<Rightarrow> bytes \<times> u32 \<Rightarrow> ('e, bytes \<times> u32) result" where
  "compact_step skip = (\<lambda>(i, s, reg) (b, end_at).
     let base = slot_base (word_of_nat i) in
     if word_of_nat i = skip then
       bindR (put_u32_le b (base + SLOT_OFFSET_OFF) end_at) (\<lambda>b.
       bindR (put_u16_le b (base + SLOT_CAPACITY_OFF) 0) (\<lambda>b.
       Ok (b, end_at)))
     else
       bindR (expectR (checked_sub end_at (s_capacity s))) (\<lambda>start.
       bindR (copy_from_slice b (unat start) (unat end_at) reg) (\<lambda>b.
       bindR (put_u32_le b (base + SLOT_OFFSET_OFF) end_at) (\<lambda>b.
       Ok (b, start)))))"

definition compact_without :: "bytes \<Rightarrow> u32 \<Rightarrow> ('e, bytes) result" where
  "compact_without b skip =
     bindR (slots b) (\<lambda>ss.
     bindR (traverseR (\<lambda>s. bindR (region s) (\<lambda>(i, j). slice_get b i j)) ss) (\<lambda>regions.
     bindR (foldR (compact_step skip) (enumerate 0 (zip ss regions)) (b, word_of_nat PAGE_SIZE))
       (\<lambda>(b, end_at). put_u32_le b FREE_SPACE_OFF end_at)))"

definition update_in_place ::
  "bytes \<Rightarrow> u32 \<Rightarrow> TupleMeta \<Rightarrow> bytes \<Rightarrow> (TablePageError, bytes) result" where
  "update_in_place b slot meta data =
     bindR (existing_slot b slot) (\<lambda>current.
     bindR (check_region b current) (\<lambda>_.
     bindR (tuple_len data) (\<lambda>size.
     bindR (place b current slot (length data)) (\<lambda>placement.
     bindR (update_meta b slot meta) (\<lambda>b.
     bindR (case placement of
              InPlace \<Rightarrow> Ok (current, b)
            | Free \<Rightarrow> claim_free_region b slot size
            | AfterCompaction \<Rightarrow>
                bindR (compact_without b slot) (\<lambda>b. claim_free_region b slot size)) (\<lambda>(reg, b).
     bindR (region_start reg) (\<lambda>start.
     let base = slot_base slot in
     bindR (copy_from_slice b (unat start) (unat start + length data) data) (\<lambda>b.
     put_u16_le b (base + SLOT_SIZE_OFF) size))))))))"

end
