(* ===== verification/Table_Page_Inv.thy ===== *)
theory Table_Page_Inv
  imports Table_Page
begin

text \<open>
  The well-formedness invariant of a table page and the list of tuples it holds, with the
  framing lemmas that say what a write to one part of the buffer leaves alone.
\<close>

section \<open>The page as its slots\<close>

definition base_of :: "nat \<Rightarrow> nat" where
  "base_of i = HEADER_SIZE + i * SLOT_SIZE"

definition count_of :: "bytes \<Rightarrow> nat" where
  "count_of b = unat (u16_at b NUM_TUPLES_OFF)"

definition deleted_of :: "bytes \<Rightarrow> nat" where
  "deleted_of b = unat (u16_at b NUM_DELETED_OFF)"

definition free_of :: "bytes \<Rightarrow> nat" where
  "free_of b = unat (u32_at b FREE_SPACE_OFF)"

definition link_of :: "bytes \<Rightarrow> PageId option" where
  "link_of b = decode_u32 (u32_at b NEXT_PAGE_ID_OFF)"

definition off_at :: "bytes \<Rightarrow> nat \<Rightarrow> nat" where
  "off_at b i = unat (u32_at b (base_of i + SLOT_OFFSET_OFF))"

definition size_at :: "bytes \<Rightarrow> nat \<Rightarrow> nat" where
  "size_at b i = unat (u16_at b (base_of i + SLOT_SIZE_OFF))"

definition cap_at :: "bytes \<Rightarrow> nat \<Rightarrow> nat" where
  "cap_at b i = unat (u16_at b (base_of i + SLOT_CAPACITY_OFF))"

definition meta_at :: "bytes \<Rightarrow> nat \<Rightarrow> TupleMeta" where
  "meta_at b i = \<lparr>meta_ts = u64_at b (base_of i + SLOT_TS_OFF),
                  meta_is_deleted = (u8_at b (base_of i + SLOT_DELETED_OFF) \<noteq> 0)\<rparr>"

definition slot_at :: "bytes \<Rightarrow> nat \<Rightarrow> Slot" where
  "slot_at b i = \<lparr>s_offset = u32_at b (base_of i + SLOT_OFFSET_OFF),
                  s_size = ucast (u16_at b (base_of i + SLOT_SIZE_OFF)),
                  s_capacity = ucast (u16_at b (base_of i + SLOT_CAPACITY_OFF)),
                  s_meta = meta_at b i\<rparr>"

text \<open>The bytes of slot \<open>i\<close>, and the tuples of the page in slot order.\<close>

definition data_at :: "bytes \<Rightarrow> nat \<Rightarrow> bytes" where
  "data_at b i = sub b (off_at b i - cap_at b i) (size_at b i)"

definition tuples :: "bytes \<Rightarrow> (TupleMeta \<times> bytes) list" where
  "tuples b = map (\<lambda>i. (meta_at b i, data_at b i)) [0..<count_of b]"

definition dir_end :: "bytes \<Rightarrow> nat" where
  "dir_end b = base_of (count_of b)"

definition header_ok :: "bytes \<Rightarrow> bool" where
  "header_ok b \<longleftrightarrow> length b = PAGE_SIZE \<and> dir_end b \<le> free_of b \<and> free_of b \<le> PAGE_SIZE"

definition slot_ok :: "bytes \<Rightarrow> nat \<Rightarrow> bool" where
  "slot_ok b i \<longleftrightarrow> size_at b i \<le> cap_at b i \<and> free_of b + cap_at b i \<le> off_at b i \<and>
     off_at b i \<le> PAGE_SIZE"

definition apart :: "bytes \<Rightarrow> nat \<Rightarrow> nat \<Rightarrow> bool" where
  "apart b i j \<longleftrightarrow> off_at b i + cap_at b j \<le> off_at b j \<or> off_at b j + cap_at b i \<le> off_at b i"

definition num_dead :: "TupleMeta list \<Rightarrow> nat" where
  "num_dead ms = length (filter meta_is_deleted ms)"

definition metas :: "bytes \<Rightarrow> TupleMeta list" where
  "metas b = map (meta_at b) [0..<count_of b]"

definition wf_page :: "bytes \<Rightarrow> bool" where
  "wf_page b \<longleftrightarrow> header_ok b \<and> (\<forall>i<count_of b. slot_ok b i) \<and>
     (\<forall>i<count_of b. \<forall>j<i. apart b i j) \<and> deleted_of b = num_dead (metas b)"

lemmas view_defs = count_of_def deleted_of_def free_of_def link_of_def off_at_def size_at_def
  cap_at_def meta_at_def

section \<open>Bounds\<close>

lemma header_okD:
  assumes "header_ok b"
  shows "length b = 8192" "12 + count_of b * 17 \<le> free_of b" "free_of b \<le> 8192"
    "count_of b \<le> 481"
  using assms by (auto simp: header_ok_def dir_end_def base_of_def page_consts)

lemma wf_page_header [simp, intro]: "wf_page b \<Longrightarrow> header_ok b"
  by (simp add: wf_page_def)

lemma wf_page_slot: "wf_page b \<Longrightarrow> i < count_of b \<Longrightarrow> slot_ok b i"
  by (simp add: wf_page_def)

lemma wf_page_apart: "wf_page b \<Longrightarrow> i < count_of b \<Longrightarrow> j < count_of b \<Longrightarrow> i \<noteq> j \<Longrightarrow> apart b i j"
  by (metis apart_def nat_neq_iff wf_page_def)

lemma cap_at_less: "cap_at b i < 65536" "size_at b i < 65536" "off_at b i < 4294967296"
  by (simp_all add: cap_at_def size_at_def off_at_def unat_u16_less unat_u32_less)

lemma slot_base_of_nat: "i < 2 ^ 32 \<Longrightarrow> slot_base (word_of_nat i) = base_of i"
  by (simp add: slot_base_def base_of_def unat_of_nat_eq)

lemma slot_base_unat: "slot_base w = base_of (unat w)"
  by (simp add: slot_base_def base_of_def)

lemma slot_at_fields [simp]:
  "unat (s_offset (slot_at b i)) = off_at b i"
  "unat (s_size (slot_at b i)) = size_at b i"
  "unat (s_capacity (slot_at b i)) = cap_at b i"
  "s_meta (slot_at b i) = meta_at b i"
  by (simp_all add: slot_at_def off_at_def size_at_def cap_at_def)

section \<open>Framing\<close>

lemma header_patch [simp]:
  assumes "12 \<le> off" "off + length d \<le> length b"
  shows "count_of (patch b off d) = count_of b" "deleted_of (patch b off d) = deleted_of b"
    "free_of (patch b off d) = free_of b" "link_of (patch b off d) = link_of b"
  using assms by (simp_all add: view_defs page_consts codec_simps)

lemma slot_patch [simp]:
  assumes "off + length d \<le> base_of i \<or> base_of i + 17 \<le> off" "off + length d \<le> length b"
    "base_of i + 17 \<le> length b"
  shows "off_at (patch b off d) i = off_at b i" "size_at (patch b off d) i = size_at b i"
    "cap_at (patch b off d) i = cap_at b i" "meta_at (patch b off d) i = meta_at b i"
  using assms by (auto simp: view_defs page_consts codec_simps)

lemma base_of_bounds:
  "12 \<le> base_of i" "i < j \<Longrightarrow> base_of i + 17 \<le> base_of j"
  by (auto simp: base_of_def page_consts)

lemma base_of_dir: "header_ok b \<Longrightarrow> i < count_of b \<Longrightarrow> base_of i + 17 \<le> dir_end b"
  by (auto simp: dir_end_def base_of_bounds)

lemma dir_end_le: "header_ok b \<Longrightarrow> dir_end b \<le> free_of b \<and> free_of b \<le> 8192 \<and> length b = 8192"
  by (simp add: header_ok_def page_consts)


section \<open>Reads on a page with a sound header\<close>

lemma header_reads [simp]:
  assumes "header_ok b"
  shows "num_tuples b = Ok (u16_at b NUM_TUPLES_OFF)"
    "num_deleted_tuples b = Ok (u16_at b NUM_DELETED_OFF)"
    "free_space_offset b = Ok (u32_at b FREE_SPACE_OFF)"
    "next_page_id b = Ok (link_of b)"
    "directory_end b = Ok (dir_end b)"
  using header_okD [OF assms]
  by (simp_all add: num_tuples_def num_deleted_tuples_def free_space_offset_def next_page_id_def
      directory_end_def page_consts link_of_def dir_end_def base_of_def count_of_def)

lemma can_insert_ok [simp]:
  "header_ok b \<Longrightarrow> can_insert b n = Ok (dir_end b + SLOT_SIZE + n \<le> free_of b)"
  by (simp add: can_insert_def free_of_def)

lemma free_bytes_ok [simp]: "header_ok b \<Longrightarrow> free_bytes b = Ok (free_of b - dir_end b)"
  by (simp add: free_bytes_def free_of_def)

lemma TablePage_new_Ok_iff: "TablePage_new b = Ok b' \<longleftrightarrow> header_ok b \<and> b' = b"
proof (cases "length b = PAGE_SIZE")
  case True
  then have "TablePage_new b = (if header_ok b then Ok b else Err (CorruptHeader (dir_end b) (free_of b)))"
    by (simp add: TablePage_new_def directory_end_def num_tuples_def free_space_offset_def
        page_consts header_ok_def dir_end_def base_of_def count_of_def free_of_def not_le)
  then show ?thesis by auto
qed (auto simp: TablePage_new_def header_ok_def)

lemma slot_get_ok:
  assumes "header_ok b"
  shows "slot_get b w = Ok (if unat w < count_of b then Some (slot_at b (unat w)) else None)"
proof (cases "unat w < count_of b")
  case True
  then have "base_of (unat w) + 17 \<le> length b"
    using base_of_dir [OF assms True] dir_end_le [OF assms] by simp
  with True show ?thesis
    by (simp add: slot_get_def assms slot_base_unat count_of_def slot_at_def meta_at_def page_consts Let_def)
next
  case False
  then show ?thesis by (simp add: slot_get_def assms count_of_def)
qed

lemma map_filter_Some: "List.map_filter (\<lambda>x. x) (map (\<lambda>i. Some (f i)) xs) = map f xs"
  by (induction xs) (simp_all add: List.map_filter_def)

lemma slot_get_all:
  assumes "header_ok b"
  shows "traverseR (\<lambda>i. slot_get b (word_of_nat i)) [0..<count_of b] =
    Ok (map (\<lambda>i. Some (slot_at b i)) [0..<count_of b])"
  using header_okD(4) [OF assms]
  by (intro traverseR_all_Ok) (simp add: slot_get_ok [OF assms] unat_of_nat_eq)

lemma slots_ok: "header_ok b \<Longrightarrow> slots b = Ok (map (slot_at b) [0..<count_of b])"
  by (simp add: slots_def slot_get_all map_filter_Some flip: count_of_def)

lemma existing_slot_ok:
  "header_ok b \<Longrightarrow> existing_slot b w =
     (if unat w < count_of b then Ok (slot_at b (unat w))
      else Err (SlotMissing w (u16_at b NUM_TUPLES_OFF)))"
  by (simp add: existing_slot_def slot_get_ok)

definition start_at :: "bytes \<Rightarrow> nat \<Rightarrow> u32" where
  "start_at b i = s_offset (slot_at b i) - s_capacity (slot_at b i)"

lemma region_start_ok:
  assumes "cap_at b i \<le> off_at b i"
  shows "region_start (slot_at b i) = Ok (start_at b i)" "unat (start_at b i) = off_at b i - cap_at b i"
  using assms by (auto simp: region_start_def start_at_def checked_sub_def word_le_nat_alt unat_sub)

lemma check_region_ok:
  assumes "header_ok b" "slot_ok b i"
  shows "check_region b (slot_at b i) = Ok ()"
proof -
  have "cap_at b i \<le> off_at b i" using assms by (simp add: slot_ok_def)
  note r = region_start_ok [OF this]
  show ?thesis
    using assms by (auto simp: check_region_def r slot_ok_def word_le_nat_alt word_less_nat_alt
        free_of_def not_le not_less Let_def)
qed

lemma tuple_bytes_ok:
  assumes "header_ok b" "slot_ok b i"
  shows "tuple_bytes b (slot_at b i) = Ok (data_at b i)"
proof -
  have c: "cap_at b i \<le> off_at b i" "off_at b i \<le> length b" "size_at b i \<le> cap_at b i"
    using assms by (simp_all add: slot_ok_def header_ok_def)
  then show ?thesis
    by (auto simp: tuple_bytes_def check_region_ok [OF assms] range_of_def region_start_ok [OF c(1)]
        slice_get_def data_at_def)
qed


section \<open>Writes of slot metadata\<close>

lemma meta_at_meta_write:
  assumes "base_of i + 17 \<le> length b"
  shows "meta_at (patch (patch b (base_of i + 8) (to_le_bytes (meta_ts m))) (base_of i + 16)
    [u8_of_bool (meta_is_deleted m)]) i = m"
  using assms by (simp add: meta_at_def page_consts codec_simps u8_of_bool_def)

text \<open>The state a metadata write leaves, seen through the slots.\<close>

definition meta_written :: "bytes \<Rightarrow> nat \<Rightarrow> TupleMeta \<Rightarrow> nat \<Rightarrow> bytes \<Rightarrow> bool" where
  "meta_written b i m dead b' \<longleftrightarrow>
     length b' = length b \<and> count_of b' = count_of b \<and> free_of b' = free_of b \<and>
     link_of b' = link_of b \<and> deleted_of b' = dead \<and>
     (\<forall>j<count_of b. off_at b' j = off_at b j \<and> size_at b' j = size_at b j \<and>
        cap_at b' j = cap_at b j \<and> meta_at b' j = (if j = i then m else meta_at b j)) \<and>
     (\<forall>k<length b. dir_end b \<le> k \<longrightarrow> b' ! k = b ! k)"

definition new_dead :: "bytes \<Rightarrow> nat \<Rightarrow> TupleMeta \<Rightarrow> nat" where
  "new_dead b i m = deleted_of b + (if meta_is_deleted m then 1 else 0)
     - (if meta_is_deleted (meta_at b i) then 1 else 0)"

lemma slot_fields_meta_write:
  assumes "base_of i + 17 \<le> length b"
  shows "off_at (patch (patch b (base_of i + 8) (to_le_bytes (t::u64))) (base_of i + 16) [d]) i = off_at b i"
    "size_at (patch (patch b (base_of i + 8) (to_le_bytes t)) (base_of i + 16) [d]) i = size_at b i"
    "cap_at (patch (patch b (base_of i + 8) (to_le_bytes t)) (base_of i + 16) [d]) i = cap_at b i"
  using assms by (simp_all add: view_defs page_consts codec_simps)

lemma slot_header_write [simp]:
  assumes "off + length d \<le> 12" "base_of i + 17 \<le> length b"
  shows "off_at (patch b off d) i = off_at b i" "size_at (patch b off d) i = size_at b i"
    "cap_at (patch b off d) i = cap_at b i" "meta_at (patch b off d) i = meta_at b i"
  using assms base_of_bounds(1) [of i] by simp_all

lemma header_write_others [simp]:
  assumes "12 \<le> length b"
  shows "count_of (patch b 6 (to_le_bytes (x::u16))) = count_of b"
    "free_of (patch b 6 (to_le_bytes x)) = free_of b"
    "link_of (patch b 6 (to_le_bytes x)) = link_of b"
    "deleted_of (patch b 6 (to_le_bytes x)) = unat x"
  using assms by (simp_all add: view_defs page_consts codec_simps)

lemma deleted_count_ok:
  fixes c :: u16
  assumes "unat c \<le> 481" "old \<Longrightarrow> 0 < unat c"
  shows "deleted_count c old new =
    Some (word_of_nat (unat c + (if new then 1 else 0) - (if old then 1 else 0)))"
  using assms by (cases old; cases new)
    (auto simp: checked_add_def checked_sub_def of_nat_diff word_le_nat_alt)

lemma base_of_cases:
  assumes "j \<noteq> i" shows "base_of i + 17 \<le> base_of j \<or> base_of j + 17 \<le> base_of i"
  using assms base_of_bounds(2) [of i j] base_of_bounds(2) [of j i] by linarith

lemma meta_write_spec:
  fixes m :: TupleMeta
  assumes h: "header_ok b" and i: "i < count_of b"
  defines "b1 \<equiv> patch (patch b (base_of i + 8) (to_le_bytes (meta_ts m))) (base_of i + 16)
    [u8_of_bool (meta_is_deleted m)]"
  shows "meta_written b i m (unat x) (patch b1 6 (to_le_bytes (x :: u16)))"
proof -
  have bi: "base_of i + 17 \<le> dir_end b" "dir_end b \<le> 8192" "length b = 8192"
    using base_of_dir [OF h i] dir_end_le [OF h] by auto
  have l: "length b1 = length b" using bi by (simp add: b1_def)
  have bj: "base_of j + 17 \<le> length b" if "j < count_of b" for j
    using base_of_dir [OF h that] bi by simp
  have slot_j: "off_at b1 j = off_at b j \<and> size_at b1 j = size_at b j \<and> cap_at b1 j = cap_at b j \<and>
      meta_at b1 j = (if j = i then m else meta_at b j)" if j: "j < count_of b" for j
  proof (cases "j = i")
    case True
    then show ?thesis using bi by (simp add: b1_def slot_fields_meta_write meta_at_meta_write)
  next
    case False
    then show ?thesis using base_of_cases [OF False] bi bj [OF j] by (auto simp: b1_def)
  qed
  have hdr: "count_of b1 = count_of b" "free_of b1 = free_of b" "link_of b1 = link_of b"
    using bi base_of_bounds(1) [of i] by (simp_all add: b1_def)
  have "b1 ! k = b ! k" if "k < length b" "dir_end b \<le> k" for k
    using that bi by (simp add: b1_def nth_patch)
  moreover have "12 \<le> dir_end b" using base_of_bounds(1) by (simp add: dir_end_def)
  ultimately show ?thesis
    using slot_j hdr l bi bj by (simp add: meta_written_def nth_patch)
qed

lemma update_meta_spec:
  assumes h: "header_ok b" and i: "unat w < count_of b"
    and dead: "deleted_of b \<le> count_of b" "meta_is_deleted (meta_at b (unat w)) \<Longrightarrow> 0 < deleted_of b"
  shows "\<exists>b'. update_meta b w m = Ok b' \<and> meta_written b (unat w) m (new_dead b (unat w) m) b'"
proof -
  define i where "i = unat w"
  have bi: "base_of i + 17 \<le> dir_end b" "dir_end b \<le> 8192" "length b = 8192"
    using base_of_dir [OF h] i dir_end_le [OF h] by (auto simp: i_def)
  define x :: u16 where "x = word_of_nat (new_dead b i m)"
  have nd: "new_dead b i m \<le> 482" using dead header_okD(4) [OF h] by (auto simp: new_dead_def)
  have cnt: "deleted_count (u16_at b 6) (meta_is_deleted (meta_at b i)) (meta_is_deleted m) = Some x"
    using dead header_okD(4) [OF h] unfolding x_def new_dead_def
    by (subst deleted_count_ok) (auto simp: deleted_of_def page_consts i_def)
  have "unat x = new_dead b i m" using nd by (simp add: x_def unat_of_nat_eq)
  moreover have "update_meta b w m = Ok (patch (patch (patch b (base_of i + 8) (to_le_bytes (meta_ts m)))
      (base_of i + 16) [u8_of_bool (meta_is_deleted m)]) 6 (to_le_bytes x))"
    using bi i cnt
    by (simp add: update_meta_def existing_slot_ok h slot_base_unat page_consts Let_def flip: i_def)
  ultimately show ?thesis using meta_write_spec [OF h i, of m x] by (simp add: i_def)
qed


section \<open>Counting tombstones\<close>

lemma num_dead_le: "num_dead ms \<le> length ms"
  by (simp add: num_dead_def)

lemma num_dead_pos: "i < length ms \<Longrightarrow> meta_is_deleted (ms ! i) \<Longrightarrow> 0 < num_dead ms"
  by (auto simp: num_dead_def filter_empty_conv)

lemma num_dead_update:
  assumes "i < length ms"
  shows "num_dead (ms[i := m]) + (if meta_is_deleted (ms ! i) then 1 else 0) =
    num_dead ms + (if meta_is_deleted m then 1 else 0)"
proof -
  have "ms = take i ms @ ms ! i # drop (Suc i) ms" using assms by (rule id_take_nth_drop)
  then have "num_dead ms = num_dead (take i ms @ ms ! i # drop (Suc i) ms)" by simp
  then show ?thesis using assms by (simp add: num_dead_def upd_conv_take_nth_drop)
qed

lemma num_dead_append: "num_dead (ms @ [m]) = num_dead ms + (if meta_is_deleted m then 1 else 0)"
  by (simp add: num_dead_def)

lemma length_metas [simp]: "length (metas b) = count_of b"
  by (simp add: metas_def)

lemma length_tuples [simp]: "length (tuples b) = count_of b"
  by (simp add: tuples_def)

lemma nth_tuples [simp]: "i < count_of b \<Longrightarrow> tuples b ! i = (meta_at b i, data_at b i)"
  by (simp add: tuples_def)

lemma nth_metas [simp]: "i < count_of b \<Longrightarrow> metas b ! i = meta_at b i"
  by (simp add: metas_def)

lemma wf_page_dead:
  assumes "wf_page b"
  shows "deleted_of b \<le> count_of b" "i < count_of b \<Longrightarrow> meta_is_deleted (meta_at b i) \<Longrightarrow> 0 < deleted_of b"
  using assms num_dead_le [of "metas b"] num_dead_pos [of i "metas b"] by (simp_all add: wf_page_def)

section \<open>Metadata writes keep the page well formed\<close>

lemma data_at_same:
  assumes "wf_page b" "i < count_of b" "off_at b' i = off_at b i" "cap_at b' i = cap_at b i"
    "size_at b' i = size_at b i" "length b' = length b"
    "\<forall>k<length b. free_of b \<le> k \<longrightarrow> b' ! k = b ! k"
  shows "data_at b' i = data_at b i"
proof -
  have "slot_ok b i" using assms by (simp add: wf_page_slot)
  then show ?thesis
    using assms header_okD(1) [of b]
    by (auto simp: data_at_def slot_ok_def page_consts intro!: sub_eqI)
qed

lemma meta_written_wf:
  assumes wf: "wf_page b" and i: "i < count_of b" and w: "meta_written b i m (new_dead b i m) b'"
  shows "wf_page b'" "tuples b' = (tuples b)[i := (m, data_at b i)]"
proof -
  have fields: "count_of b' = count_of b" "free_of b' = free_of b" "length b' = length b"
      "deleted_of b' = new_dead b i m"
    and slots: "\<And>j. j < count_of b \<Longrightarrow> off_at b' j = off_at b j \<and> size_at b' j = size_at b j \<and>
        cap_at b' j = cap_at b j \<and> meta_at b' j = (if j = i then m else meta_at b j)"
    using w by (auto simp: meta_written_def)
  have metas: "metas b' = (metas b)[i := m]"
    by (rule nth_equalityI) (auto simp: fields slots i nth_list_update)
  have "deleted_of b' = num_dead (metas b')"
    using wf i num_dead_update [of i "metas b" m] unfolding metas
    by (auto simp: fields new_dead_def wf_page_def)
  moreover have "header_ok b'" using wf fields by (simp add: wf_page_def header_ok_def dir_end_def)
  moreover have "slot_ok b' j" if "j < count_of b" for j
    using wf_page_slot [OF wf that] slots [OF that] by (simp add: slot_ok_def fields)
  moreover have "apart b' j k" if "j < count_of b" "k < j" for j k
    using wf_page_apart [OF wf, of j k] slots [of j] slots [of k] that by (simp add: apart_def)
  ultimately show "wf_page b'" by (simp add: wf_page_def fields)
  have same: "\<forall>k<length b. free_of b \<le> k \<longrightarrow> b' ! k = b ! k"
    using w dir_end_le [of b] wf by (auto simp: meta_written_def)
  have "data_at b' j = data_at b j" if "j < count_of b" for j
    using slots [OF that] fields same by (intro data_at_same wf that) auto
  then show "tuples b' = (tuples b)[i := (m, data_at b i)]"
    by (intro nth_equalityI) (auto simp: fields slots nth_list_update)
qed

end
