(* ===== verification/Table_Page_Correct.thy ===== *)
theory Table_Page_Correct
  imports Table_Page_Inv
begin

text \<open>
  Correctness of the writes of a table page: insertion, in-place update with its three
  placements and compaction, each characterised by the tuples the page holds afterwards.
\<close>


section \<open>Insertion\<close>

definition slot_write :: "bytes \<Rightarrow> nat \<Rightarrow> u32 \<Rightarrow> u16 \<Rightarrow> u16 \<Rightarrow> TupleMeta \<Rightarrow> bytes" where
  "slot_write b i off sz cap m =
     patch (patch (patch (patch (patch b (base_of i) (to_le_bytes off)) (base_of i + 4) (to_le_bytes sz))
       (base_of i + 6) (to_le_bytes cap)) (base_of i + 8) (to_le_bytes (meta_ts m)))
       (base_of i + 16) [u8_of_bool (meta_is_deleted m)]"

definition header_write :: "bytes \<Rightarrow> u16 \<Rightarrow> u16 \<Rightarrow> u32 \<Rightarrow> bytes" where
  "header_write b n dead f =
     patch (patch (patch b 4 (to_le_bytes n)) 6 (to_le_bytes dead)) 8 (to_le_bytes f)"

lemma slot_write_same:
  assumes "base_of i + 17 \<le> length b"
  shows "off_at (slot_write b i off sz cap m) i = unat off"
    "size_at (slot_write b i off sz cap m) i = unat sz"
    "cap_at (slot_write b i off sz cap m) i = unat cap"
    "meta_at (slot_write b i off sz cap m) i = m"
    "length (slot_write b i off sz cap m) = length b"
  using assms by (simp_all add: slot_write_def view_defs page_consts codec_simps u8_of_bool_def)

lemma slot_write_other:
  assumes "base_of i + 17 \<le> length b" "base_of j + 17 \<le> length b" "j \<noteq> i"
  shows "off_at (slot_write b i off sz cap m) j = off_at b j"
    "size_at (slot_write b i off sz cap m) j = size_at b j"
    "cap_at (slot_write b i off sz cap m) j = cap_at b j"
    "meta_at (slot_write b i off sz cap m) j = meta_at b j"
  using base_of_cases [OF assms(3)] assms by (auto simp: slot_write_def)

lemma slot_write_header:
  assumes "base_of i + 17 \<le> length b"
  shows "link_of (slot_write b i off sz cap m) = link_of b"
  using assms base_of_bounds(1) [of i] by (simp add: slot_write_def)

lemma slot_write_nth:
  assumes "base_of i + 17 \<le> k" "k < length b"
  shows "slot_write b i off sz cap m ! k = b ! k"
  using assms by (simp add: slot_write_def nth_patch)

lemma header_write_fields:
  assumes "12 \<le> length b"
  shows "count_of (header_write b n dead f) = unat n" "deleted_of (header_write b n dead f) = unat dead"
    "free_of (header_write b n dead f) = unat f" "link_of (header_write b n dead f) = link_of b"
    "length (header_write b n dead f) = length b"
  using assms by (simp_all add: header_write_def view_defs page_consts codec_simps)

lemma header_write_slots:
  assumes "base_of j + 17 \<le> length b"
  shows "off_at (header_write b n dead f) j = off_at b j" "size_at (header_write b n dead f) j = size_at b j"
    "cap_at (header_write b n dead f) j = cap_at b j" "meta_at (header_write b n dead f) j = meta_at b j"
  using assms base_of_bounds(1) [of j] by (simp_all add: header_write_def)

lemma header_write_nth: "12 \<le> k \<Longrightarrow> k < length b \<Longrightarrow> header_write b n dead f ! k = b ! k"
  by (simp add: header_write_def nth_patch)

lemma tuple_len_ok: "length d \<le> 8163 \<Longrightarrow> tuple_len d = Ok (word_of_nat (length d))"
  by (simp add: tuple_len_def page_consts)

definition inserted :: "bytes \<Rightarrow> TupleMeta \<Rightarrow> bytes \<Rightarrow> bytes" where
  "inserted b m d =
     header_write
       (slot_write (patch b (free_of b - length d) d) (count_of b) (u32_at b 8)
          (word_of_nat (length d)) (word_of_nat (length d)) m)
       (u16_at b 4 + 1) (u16_at b 6 + (if meta_is_deleted m then 1 else 0))
       (u32_at b 8 - word_of_nat (length d))"

lemma insert_with_meta_run:
  assumes wf: "wf_page b" and fits: "dir_end b + 17 + length d \<le> free_of b"
  shows "insert_with_meta b m d = Ok (word_of_nat (count_of b), inserted b m d)"
proof -
  note h = wf_page_header [OF wf]
  have len: "length b = 8192" "free_of b \<le> 8192" "12 \<le> dir_end b" "count_of b \<le> 481"
    using header_okD [OF h] base_of_bounds(1) by (auto simp: dir_end_def)
  have d: "length d \<le> 8163" using fits len by simp
  have ucast_d: "(ucast (word_of_nat (length d) :: u16) :: u32) = word_of_nat (length d)"
    using d by (simp add: word_unat_eq_iff unat_of_nat_eq)
  have le: "(word_of_nat (length d) :: u32) \<le> u32_at b 8"
    using d fits by (simp add: word_le_nat_alt unat_of_nat_eq free_of_def page_consts)
  have start: "unat (u32_at b 8 - word_of_nat (length d)) = free_of b - length d"
    using le d by (simp add: unat_sub unat_of_nat_eq free_of_def page_consts)
  have "slot_base (ucast (u16_at b 4)) = base_of (count_of b)"
    by (simp add: slot_base_unat count_of_def page_consts)
  moreover have "(ucast (u16_at b 4) :: u32) = word_of_nat (count_of b)"
    by (simp add: word_unat_eq_iff count_of_def page_consts unat_of_nat_eq less_trans [OF unat_u16_less])
  moreover have "checked_add (u16_at b 4) 1 = Some (u16_at b 4 + 1)"
    using len by (simp add: checked_add_def count_of_def page_consts)
  moreover have "checked_add (u16_at b 6) (if meta_is_deleted m then 1 else 0) =
      Some (u16_at b 6 + (if meta_is_deleted m then 1 else 0))"
    using wf_page_dead(1) [OF wf] len by (simp add: checked_add_def deleted_of_def page_consts)
  moreover have "base_of (count_of b) = dir_end b" by (simp add: dir_end_def)
  moreover have "free_of b = unat (u32_at b 8)" by (simp add: free_of_def page_consts)
  ultimately show ?thesis
    using len fits h
    by (simp add: insert_with_meta_def inserted_def header_write_def slot_write_def page_consts
        tuple_len_ok d ucast_d checked_sub_def le start copy_from_slice_def Let_def)
qed

lemma inserted_view:
  fixes m :: TupleMeta
  assumes wf: "wf_page b" and fits: "dir_end b + 17 + length d \<le> free_of b"
  defines "b' \<equiv> inserted b m d"
  shows "length b' = length b" "count_of b' = Suc (count_of b)" "link_of b' = link_of b"
    "free_of b' = free_of b - length d"
    "deleted_of b' = deleted_of b + (if meta_is_deleted m then 1 else 0)"
    "off_at b' (count_of b) = free_of b" "size_at b' (count_of b) = length d"
    "cap_at b' (count_of b) = length d" "meta_at b' (count_of b) = m"
    "\<And>j. j < count_of b \<Longrightarrow> off_at b' j = off_at b j \<and> size_at b' j = size_at b j \<and>
       cap_at b' j = cap_at b j \<and> meta_at b' j = meta_at b j"
    "\<forall>k<length b. free_of b \<le> k \<longrightarrow> b' ! k = b ! k"
    "sub b' (free_of b - length d) (length d) = d"
proof -
  note h = wf_page_header [OF wf]
  have len: "length b = 8192" "free_of b \<le> 8192" "12 \<le> dir_end b" "count_of b \<le> 481"
    "dir_end b = base_of (count_of b)"
    using header_okD [OF h] base_of_bounds(1) by (auto simp: dir_end_def)
  have d: "length d \<le> 8163" using fits len by simp
  have ud: "unat (word_of_nat (length d) :: u16) = length d" using d by (simp add: unat_of_nat_eq)
  have start: "unat (u32_at b 8 - word_of_nat (length d)) = free_of b - length d"
    using d fits by (simp add: unat_sub unat_of_nat_eq free_of_def page_consts word_le_nat_alt)
  define p where "p = patch b (free_of b - length d) d"
  have p: "length p = 8192" "link_of p = link_of b"
    using len fits by (simp_all add: p_def)
  define q where "q = slot_write p (count_of b) (u32_at b 8) (word_of_nat (length d)) (word_of_nat (length d)) m"
  have bn: "base_of (count_of b) + 17 \<le> 8192" using fits len by simp
  have q: "length q = 8192" "link_of q = link_of b"
    using p bn by (simp_all add: q_def slot_write_same slot_write_header)
  have b': "b' = header_write q (u16_at b 4 + 1) (u16_at b 6 + (if meta_is_deleted m then 1 else 0))
      (u32_at b 8 - word_of_nat (length d))"
    by (simp add: b'_def inserted_def q_def p_def)
  show "length b' = length b" "link_of b' = link_of b" "free_of b' = free_of b - length d"
    using q len start by (simp_all add: b' header_write_fields)
  show "count_of b' = Suc (count_of b)"
  proof -
    have "unat (u16_at b 4 + 1) = Suc (count_of b)"
      using len by (simp add: unat_word_ariths count_of_def page_consts)
    then show ?thesis using q by (simp add: b' header_write_fields)
  qed
  show "deleted_of b' = deleted_of b + (if meta_is_deleted m then 1 else 0)"
  proof -
    have "unat (u16_at b 6 + (if meta_is_deleted m then 1 else 0)) =
        deleted_of b + (if meta_is_deleted m then 1 else 0)"
      using len wf_page_dead(1) [OF wf] by (simp add: unat_word_ariths deleted_of_def page_consts)
    then show ?thesis using q by (simp add: b' header_write_fields)
  qed
  show "off_at b' (count_of b) = free_of b" "size_at b' (count_of b) = length d"
    "cap_at b' (count_of b) = length d" "meta_at b' (count_of b) = m"
    using q bn p ud by (simp_all add: b' header_write_slots)
      (simp_all add: q_def slot_write_same free_of_def page_consts)
  show "off_at b' j = off_at b j \<and> size_at b' j = size_at b j \<and> cap_at b' j = cap_at b j \<and>
      meta_at b' j = meta_at b j" if j: "j < count_of b" for j
  proof -
    have bj: "base_of j + 17 \<le> dir_end b" using base_of_dir [OF h j] .
    then have "off_at p j = off_at b j \<and> size_at p j = size_at b j \<and> cap_at p j = cap_at b j \<and>
        meta_at p j = meta_at b j"
      using len fits by (simp add: p_def)
    then show ?thesis
      using bj len fits j p q bn by (simp add: b' header_write_slots) (simp add: q_def slot_write_other)
  qed
  show "\<forall>k<length b. free_of b \<le> k \<longrightarrow> b' ! k = b ! k"
    using len fits q p by (simp add: b' header_write_nth) (simp add: q_def slot_write_nth p_def nth_patch)
  have "sub b' (free_of b - length d) (length d) = sub p (free_of b - length d) (length d)"
    using len fits q p bn \<open>length b' = length b\<close>
    by (intro sub_eqI) (simp_all add: b' header_write_nth q_def slot_write_nth)
  then show "sub b' (free_of b - length d) (length d) = d"
    using len fits by (simp add: p_def sub_patch_same)
qed

lemma insert_ok:
  fixes m :: TupleMeta
  assumes wf: "wf_page b" and fits: "dir_end b + 17 + length d \<le> free_of b"
  defines "b' \<equiv> inserted b m d"
  shows "wf_page b'" "tuples b' = tuples b @ [(m, d)]"
proof -
  note v = inserted_view [OF wf fits, where m = m, folded b'_def]
  have slot: "slot_ok b' j" if "j \<le> count_of b" for j
  proof (cases "j = count_of b")
    case True
    with v fits wf_page_header [OF wf] show ?thesis by (simp add: slot_ok_def header_ok_def)
  next
    case False
    then have "j < count_of b" using that by simp
    with v(10) [OF this] wf_page_slot [OF wf this] v(4) show ?thesis by (auto simp: slot_ok_def)
  qed
  have ap: "apart b' j k" if "j \<le> count_of b" "k < j" for j k
  proof (cases "j = count_of b")
    case True
    with that have "k < count_of b" by simp
    with v(10) [OF this] wf_page_slot [OF wf this] v(6,8) True show ?thesis
      by (simp add: apart_def slot_ok_def)
  next
    case False
    with that have "j < count_of b" "k < count_of b" by simp_all
    with v(10) [of j] v(10) [of k] wf_page_apart [OF wf, of j k] that show ?thesis
      by (simp add: apart_def)
  qed
  have "metas b' = metas b @ [m]"
    using v(2,9,10) by (intro nth_equalityI) (auto simp: nth_append less_Suc_eq)
  then have "deleted_of b' = num_dead (metas b')"
    using wf v(5) by (simp add: num_dead_append wf_page_def)
  moreover have "header_ok b'"
    using v(1,2,4) fits wf_page_header [OF wf]
    by (auto simp: header_ok_def dir_end_def base_of_def page_consts)
  ultimately show "wf_page b'" using slot ap v(2) by (simp add: wf_page_def less_Suc_eq_le)
  have "data_at b' j = data_at b j" if "j < count_of b" for j
    using v(1,10,11) that by (intro data_at_same wf) auto
  moreover have "data_at b' (count_of b) = d" using v(6,7,8,12) by (simp add: data_at_def)
  ultimately show "tuples b' = tuples b @ [(m, d)]"
    using v(2,9,10) by (intro nth_equalityI) (auto simp: nth_append less_Suc_eq)
qed


section \<open>Room on the page\<close>

definition others :: "bytes \<Rightarrow> nat \<Rightarrow> nat" where
  "others b i = (\<Sum>j \<in> {..<count_of b} - {i}. cap_at b j)"

text \<open>The longest tuple slot \<open>i\<close> can hold once the page is compacted.\<close>

definition room :: "bytes \<Rightarrow> nat \<Rightarrow> nat" where
  "room b i = PAGE_SIZE - dir_end b - others b i"

lemma sum_caps_le:
  assumes wf: "wf_page b" and S: "S \<subseteq> {..<count_of b}"
  shows "(\<Sum>j \<in> S. cap_at b j) + free_of b \<le> PAGE_SIZE"
proof -
  let ?R = "\<lambda>j. {off_at b j - cap_at b j ..< off_at b j}"
  have fin: "finite S" using S finite_subset by blast
  have slot: "slot_ok b j" if "j \<in> S" for j using that S wf_page_slot [OF wf] by auto
  have "?R j \<inter> ?R k = {}" if "j \<in> S" "k \<in> S" "j \<noteq> k" for j k
  proof -
    have "apart b j k" using that S by (intro wf_page_apart wf) auto
    then show ?thesis using slot [OF that(1)] slot [OF that(2)] by (auto simp: apart_def slot_ok_def)
  qed
  then have "card (\<Union>j\<in>S. ?R j) = (\<Sum>j\<in>S. card (?R j))"
    using fin by (intro card_UN_disjoint) auto
  also have "\<dots> = (\<Sum>j\<in>S. cap_at b j)"
    using slot by (intro sum.cong) (fastforce simp: slot_ok_def)+
  finally have "(\<Sum>j\<in>S. cap_at b j) = card (\<Union>j\<in>S. ?R j)" ..
  also have "\<dots> \<le> card {free_of b ..< PAGE_SIZE}"
    using slot by (intro card_mono) (fastforce simp: slot_ok_def)+
  finally show ?thesis using wf_page_header [OF wf] by (auto simp: header_ok_def)
qed

lemma room_bounds:
  assumes "wf_page b" "i < count_of b"
  shows "cap_at b i \<le> room b i" "free_of b - dir_end b \<le> room b i"
    "dir_end b + others b i + room b i = 8192" "room b i \<le> 8163"
proof -
  have "(\<Sum>j<count_of b. cap_at b j) = cap_at b i + others b i"
    using assms(2) by (simp add: others_def sum.remove [of _ i])
  then have *: "cap_at b i + others b i + free_of b \<le> 8192"
    using sum_caps_le [OF assms(1), of "{..<count_of b}"] by (simp add: page_consts)
  have "base_of i + 17 \<le> dir_end b" using base_of_dir assms by blast
  then show "cap_at b i \<le> room b i" "free_of b - dir_end b \<le> room b i"
    "dir_end b + others b i + room b i = 8192" "room b i \<le> 8163"
    using * dir_end_le [OF wf_page_header [OF assms(1)]] base_of_bounds(1) [of i]
    by (auto simp: room_def page_consts)
qed

lemma filter_enumerate_others:
  assumes "n \<le> 481" "i < n"
  shows "sum_list (map (\<lambda>(j, s). f s) (filter (\<lambda>(j, s). word_of_nat j \<noteq> (word_of_nat i :: u32))
      (enumerate 0 (map g [0..<n])))) = (\<Sum>j \<in> {..<n} - {i}. f (g j))"
proof -
  have eq: "(word_of_nat j \<noteq> (word_of_nat i :: u32)) = (j \<noteq> i)" if "j \<in> set [0..<n]" for j
    using that assms by (simp add: word_of_nat_inject)
  have "filter (\<lambda>(j, s). word_of_nat j \<noteq> (word_of_nat i :: u32)) (enumerate 0 (map g [0..<n]))
      = map (\<lambda>j. (j, g j)) (filter (\<lambda>j. word_of_nat j \<noteq> (word_of_nat i :: u32)) [0..<n])"
    by (simp add: enumerate_map_upt filter_map comp_def)
  also have "\<dots> = map (\<lambda>j. (j, g j)) (filter (\<lambda>j. j \<noteq> i) [0..<n])"
    using eq by (metis (mono_tags, lifting) filter_cong)
  finally have *: "filter (\<lambda>(j, s). word_of_nat j \<noteq> (word_of_nat i :: u32)) (enumerate 0 (map g [0..<n]))
      = map (\<lambda>j. (j, g j)) (filter (\<lambda>j. j \<noteq> i) [0..<n])" .
  have "sum_list (map (\<lambda>j. f (g j)) (filter (\<lambda>j. j \<noteq> i) [0..<n])) = (\<Sum>j \<in> {..<n} - {i}. f (g j))"
    by (subst sum_list_distinct_conv_sum_set) (auto intro!: sum.cong)
  then show ?thesis unfolding * by (simp add: comp_def)
qed

lemma place_ok:
  assumes wf: "wf_page b" and i: "unat w < count_of b"
  shows "place b (slot_at b (unat w)) w n =
    (if n \<le> cap_at b (unat w) then Ok InPlace
     else if n \<le> free_of b - dir_end b then Ok Free
     else if n \<le> room b (unat w) then Ok AfterCompaction
     else Err (UpdateDoesNotFit w n (room b (unat w))))"
proof -
  note h = wf_page_header [OF wf]
  have "sum_list (map (\<lambda>(j, s). unat (s_capacity s)) (filter (\<lambda>(j, s). word_of_nat j \<noteq> w)
      (enumerate 0 (map (slot_at b) [0..<count_of b])))) = others b (unat w)"
    using filter_enumerate_others [of "count_of b" "unat w" "\<lambda>s. unat (s_capacity s)" "slot_at b"]
      header_okD(4) [OF h] i by (simp add: others_def)
  then show ?thesis
    using room_bounds [OF wf i] h
    by (simp add: place_def slots_ok Let_def room_def page_consts)
qed


section \<open>Writing a tuple into its region\<close>

definition write_region :: "u32 \<Rightarrow> bytes \<Rightarrow> u16 \<Rightarrow> Slot \<times> bytes \<Rightarrow> ('e, bytes) result" where
  "write_region slot data sz = (\<lambda>(reg, b). bindR (region_start reg) (\<lambda>start.
     bindR (copy_from_slice b (unat start) (unat start + length data) data) (\<lambda>b.
     put_u16_le b (slot_base slot + SLOT_SIZE_OFF) sz)))"

lemma update_in_place_alt:
  "update_in_place b slot meta data =
     bindR (existing_slot b slot) (\<lambda>current. bindR (check_region b current) (\<lambda>_.
     bindR (tuple_len data) (\<lambda>sz. bindR (place b current slot (length data)) (\<lambda>placement.
     bindR (update_meta b slot meta) (\<lambda>b.
     bindR (case placement of InPlace \<Rightarrow> Ok (current, b)
            | Free \<Rightarrow> claim_free_region b slot sz
            | AfterCompaction \<Rightarrow> bindR (compact_without b slot) (\<lambda>b. claim_free_region b slot sz))
       (write_region slot data sz))))))"
  by (simp add: update_in_place_def write_region_def Let_def case_prod_unfold)

text \<open>A page that is well formed but for the region of slot \<open>i\<close>, as compaction leaves it.\<close>

definition wf_but :: "bytes \<Rightarrow> nat \<Rightarrow> bool" where
  "wf_but b i \<longleftrightarrow> header_ok b \<and> (\<forall>j<count_of b. j \<noteq> i \<longrightarrow> slot_ok b j) \<and>
     (\<forall>j<count_of b. \<forall>k<j. j \<noteq> i \<longrightarrow> k \<noteq> i \<longrightarrow> apart b j k) \<and> deleted_of b = num_dead (metas b)"

lemma wf_page_but: "wf_page b \<Longrightarrow> wf_but b i"
  by (simp add: wf_page_def wf_but_def)

lemma wf_but_slot: "wf_but b i \<Longrightarrow> j < count_of b \<Longrightarrow> j \<noteq> i \<Longrightarrow> slot_ok b j"
  by (simp add: wf_but_def)

lemma apart_sym: "apart b i j \<longleftrightarrow> apart b j i"
  by (auto simp: apart_def)

text \<open>What writing \<open>d\<close> into a region of slot \<open>i\<close> that nothing else uses leaves.\<close>

definition tuple_written :: "bytes \<Rightarrow> nat \<Rightarrow> bytes \<Rightarrow> bytes \<Rightarrow> bool" where
  "tuple_written b i d b' \<longleftrightarrow> wf_page b' \<and> tuples b' = (tuples b)[i := (meta_at b i, d)] \<and>
     link_of b' = link_of b \<and> (\<forall>j<count_of b. j \<noteq> i \<longrightarrow> cap_at b' j = cap_at b j)"

lemma size_write_same:
  assumes "base_of i + 17 \<le> length b"
  shows "size_at (patch b (base_of i + 4) (to_le_bytes x)) i = unat (x :: u16)"
    "off_at (patch b (base_of i + 4) (to_le_bytes x)) i = off_at b i"
    "cap_at (patch b (base_of i + 4) (to_le_bytes x)) i = cap_at b i"
    "meta_at (patch b (base_of i + 4) (to_le_bytes x)) i = meta_at b i"
  using assms by (simp_all add: view_defs page_consts codec_simps)

lemma size_write_other:
  assumes "base_of i + 17 \<le> length b" "base_of j + 17 \<le> length b" "j \<noteq> i"
  shows "size_at (patch b (base_of i + 4) (to_le_bytes (x :: u16))) j = size_at b j"
    "off_at (patch b (base_of i + 4) (to_le_bytes x)) j = off_at b j"
    "cap_at (patch b (base_of i + 4) (to_le_bytes x)) j = cap_at b j"
    "meta_at (patch b (base_of i + 4) (to_le_bytes x)) j = meta_at b j"
  using base_of_cases [OF assms(3)] assms by auto

text \<open>The region of slot \<open>i\<close> holds \<open>d\<close> and is apart from every other region.\<close>

definition owns_region :: "bytes \<Rightarrow> nat \<Rightarrow> nat \<Rightarrow> bool" where
  "owns_region b i n \<longleftrightarrow> n \<le> cap_at b i \<and> free_of b + cap_at b i \<le> off_at b i \<and> off_at b i \<le> PAGE_SIZE \<and>
     (\<forall>j<count_of b. j \<noteq> i \<longrightarrow> apart b i j)"

definition tuple_write :: "bytes \<Rightarrow> nat \<Rightarrow> bytes \<Rightarrow> bytes" where
  "tuple_write b i d =
     patch (patch b (off_at b i - cap_at b i) d) (base_of i + 4) (to_le_bytes (word_of_nat (length d) :: u16))"

lemma tuple_write_view:
  assumes wf: "wf_but b i" and i: "i < count_of b" and own: "owns_region b i (length d)"
  defines "b' \<equiv> tuple_write b i d"
  shows "length b' = length b" "count_of b' = count_of b" "link_of b' = link_of b"
    "free_of b' = free_of b" "deleted_of b' = deleted_of b"
    "\<And>j. j < count_of b \<Longrightarrow> off_at b' j = off_at b j \<and> cap_at b' j = cap_at b j \<and>
       meta_at b' j = meta_at b j \<and> size_at b' j = (if j = i then length d else size_at b j)"
    "data_at b' i = d"
    "\<And>j. j < count_of b \<Longrightarrow> j \<noteq> i \<Longrightarrow> data_at b' j = data_at b j"
proof -
  have h: "header_ok b" using wf by (simp add: wf_but_def)
  let ?s = "off_at b i - cap_at b i"
  have len: "length b = 8192" "dir_end b \<le> free_of b" "12 \<le> base_of i" "base_of i + 17 \<le> dir_end b"
    using dir_end_le [OF h] base_of_dir [OF h i] base_of_bounds(1) by auto
  have own': "?s + length d \<le> off_at b i" "free_of b \<le> ?s" "off_at b i \<le> 8192" "length d \<le> cap_at b i"
    using own by (auto simp: owns_region_def page_consts)
  have d: "length d < 65536" using own' cap_at_less(1) [of b i] by simp
  have bj: "base_of j + 17 \<le> dir_end b" if "j < count_of b" for j using base_of_dir [OF h that] .
  have in_p: "off_at (patch b ?s d) j = off_at b j \<and> cap_at (patch b ?s d) j = cap_at b j \<and>
      meta_at (patch b ?s d) j = meta_at b j \<and> size_at (patch b ?s d) j = size_at b j"
    if "j < count_of b" for j
    using bj [OF that] len own' by simp
  show "length b' = length b" "count_of b' = count_of b" "link_of b' = link_of b"
    "free_of b' = free_of b" "deleted_of b' = deleted_of b"
    using len own' by (simp_all add: b'_def tuple_write_def)
  show fields: "off_at b' j = off_at b j \<and> cap_at b' j = cap_at b j \<and>
       meta_at b' j = meta_at b j \<and> size_at b' j = (if j = i then length d else size_at b j)"
    if j: "j < count_of b" for j
    using in_p [OF j] bj [OF j] len own' d
    by (cases "j = i") (simp_all add: b'_def tuple_write_def size_write_same size_write_other unat_of_nat_eq)
  have nth: "b' ! k = patch b ?s d ! k" if "dir_end b \<le> k" "k < 8192" for k
    using that len own' by (simp add: b'_def tuple_write_def nth_patch)
  have "data_at b' i = sub b' ?s (length d)" using fields [OF i] by (simp add: data_at_def)
  also have "\<dots> = sub (patch b ?s d) ?s (length d)"
    using len own' \<open>length b' = length b\<close> by (intro sub_eqI nth) auto
  finally show "data_at b' i = d" using len own' by (simp add: sub_patch_same)
  show "data_at b' j = data_at b j" if j: "j < count_of b" "j \<noteq> i" for j
  proof -
    have sj: "slot_ok b j" using wf_but_slot [OF wf j] .
    have ap: "apart b i j" using own j by (simp add: owns_region_def)
    have "data_at b' j = sub b' (off_at b j - cap_at b j) (size_at b j)"
      using fields [OF j(1)] j(2) by (simp add: data_at_def)
    also have "\<dots> = sub b (off_at b j - cap_at b j) (size_at b j)"
    proof (rule sub_eqI)
      fix k assume k: "k < size_at b j"
      have "dir_end b \<le> off_at b j - cap_at b j + k" "off_at b j - cap_at b j + k < 8192"
        using sj k len by (auto simp: slot_ok_def page_consts)
      note nth [OF this]
      also have "patch b ?s d ! (off_at b j - cap_at b j + k) = b ! (off_at b j - cap_at b j + k)"
        using sj k ap own' len by (subst nth_patch) (auto simp: slot_ok_def apart_def page_consts)
      finally show "b' ! (off_at b j - cap_at b j + k) = b ! (off_at b j - cap_at b j + k)" .
    qed (use sj len \<open>length b' = length b\<close> in \<open>auto simp: slot_ok_def page_consts\<close>)
    finally show ?thesis by (simp add: data_at_def)
  qed
qed

lemma tuple_write_ok:
  assumes wf: "wf_but b i" and i: "i < count_of b" and own: "owns_region b i (length d)"
  shows "tuple_written b i d (tuple_write b i d)" "cap_at (tuple_write b i d) i = cap_at b i"
proof -
  note v = tuple_write_view [OF assms]
  have metas: "metas (tuple_write b i d) = metas b"
    using v(2,6) by (intro nth_equalityI) auto
  have "header_ok (tuple_write b i d)"
    using wf v by (simp add: wf_but_def header_ok_def dir_end_def)
  moreover have "slot_ok (tuple_write b i d) j" if "j < count_of b" for j
    using v(4) v(6) [OF that] wf_but_slot [OF wf that] own
    by (cases "j = i") (auto simp: slot_ok_def owns_region_def)
  moreover have "apart (tuple_write b i d) j k" if "j < count_of b" "k < j" for j k
  proof -
    have "apart b j k" using wf own that apart_sym [of b j k]
      by (cases "j = i"; cases "k = i") (auto simp: wf_but_def owns_region_def)
    then show ?thesis using v(6) [of j] v(6) [of k] that by (simp add: apart_def)
  qed
  ultimately have "wf_page (tuple_write b i d)"
    using wf v(2,5) metas by (simp add: wf_page_def wf_but_def)
  moreover have "tuples (tuple_write b i d) = (tuples b)[i := (meta_at b i, d)]"
    using i v(2,6,7,8) by (intro nth_equalityI) (auto simp: nth_list_update)
  ultimately show "tuple_written b i d (tuple_write b i d)"
    using v(3,6) by (simp add: tuple_written_def)
  show "cap_at (tuple_write b i d) i = cap_at b i" using v(6) [OF i] by simp
qed


lemma write_region_run:
  assumes h: "header_ok b" and i: "unat w < count_of b" and own: "owns_region b (unat w) (length d)"
    and reg: "s_offset reg = s_offset (slot_at b (unat w))" "s_capacity reg = s_capacity (slot_at b (unat w))"
  shows "write_region w d (word_of_nat (length d)) (reg, b) =
    (Ok (tuple_write b (unat w) d) :: ('e, bytes) result)"
proof -
  have o: "cap_at b (unat w) \<le> off_at b (unat w)" "length d \<le> cap_at b (unat w)"
    "off_at b (unat w) \<le> 8192" "length b = 8192" "base_of (unat w) + 17 \<le> 8192"
    using own dir_end_le [OF h] base_of_dir [OF h i] by (auto simp: owns_region_def page_consts)
  have "region_start reg = (Ok (start_at b (unat w)) :: ('e, u32) result)"
    using reg region_start_ok(1) [OF o(1)] by (simp add: region_start_def)
  moreover have "off_at b (unat w) - cap_at b (unat w) + length d \<le> 8192" using o by linarith
  ultimately show ?thesis
    using o by (simp add: write_region_def region_start_ok(2) [OF o(1)] copy_from_slice_def tuple_write_def
        slot_base_unat page_consts)
qed

section \<open>Taking a region from the free space\<close>

definition claimed :: "bytes \<Rightarrow> nat \<Rightarrow> nat \<Rightarrow> bytes" where
  "claimed b i n =
     patch (patch (patch b (base_of i) (to_le_bytes (u32_at b 8))) (base_of i + 6)
       (to_le_bytes (word_of_nat n :: u16))) 8 (to_le_bytes (u32_at b 8 - word_of_nat n))"

lemma claimed_view:
  assumes h: "header_ok b" and i: "i < count_of b" and n: "n \<le> free_of b - dir_end b"
  defines "b' \<equiv> claimed b i n"
  shows "length b' = length b" "count_of b' = count_of b" "link_of b' = link_of b"
    "free_of b' = free_of b - n" "deleted_of b' = deleted_of b"
    "off_at b' i = free_of b" "cap_at b' i = n" "meta_at b' i = meta_at b i"
    "\<And>j. j < count_of b \<Longrightarrow> j \<noteq> i \<Longrightarrow> off_at b' j = off_at b j \<and> cap_at b' j = cap_at b j \<and>
       meta_at b' j = meta_at b j \<and> size_at b' j = size_at b j"
    "\<forall>k<length b. dir_end b \<le> k \<longrightarrow> b' ! k = b ! k"
proof -
  have len: "length b = 8192" "dir_end b \<le> free_of b" "free_of b \<le> 8192" "12 \<le> base_of i"
    "base_of i + 17 \<le> dir_end b"
    using dir_end_le [OF h] base_of_dir [OF h i] base_of_bounds(1) by auto
  define p where "p = patch (patch b (base_of i) (to_le_bytes (u32_at b 8))) (base_of i + 6)
       (to_le_bytes (word_of_nat n :: u16))"
  have b': "b' = patch p 8 (to_le_bytes (u32_at b 8 - word_of_nat n))"
    by (simp add: b'_def claimed_def p_def)
  have p: "length p = length b" "count_of p = count_of b" "link_of p = link_of b" "deleted_of p = deleted_of b"
    using len by (simp_all add: p_def)
  have start: "unat (u32_at b 8 - word_of_nat n) = free_of b - n"
    using n len by (simp add: unat_sub unat_of_nat_eq free_of_def page_consts word_le_nat_alt)
  show "length b' = length b" using p len by (simp add: b')
  show "count_of b' = count_of b" "link_of b' = link_of b" "deleted_of b' = deleted_of b"
    using p len by (simp_all add: b' view_defs page_consts codec_simps)
  show "free_of b' = free_of b - n"
    using p len start by (simp add: b' free_of_def page_consts codec_simps)
  have "n < 65536" using n len by simp
  then show "off_at b' i = free_of b" "cap_at b' i = n" "meta_at b' i = meta_at b i"
    using len by (simp_all add: b' p_def view_defs page_consts codec_simps unat_of_nat_eq)
  show "off_at b' j = off_at b j \<and> cap_at b' j = cap_at b j \<and> meta_at b' j = meta_at b j \<and>
      size_at b' j = size_at b j" if "j < count_of b" "j \<noteq> i" for j
    using base_of_cases [OF that(2)] base_of_dir [OF h that(1)] len p(1)
    by (simp add: b') (auto simp: p_def)
  show "\<forall>k<length b. dir_end b \<le> k \<longrightarrow> b' ! k = b ! k"
    using len p(1) by (simp add: b' nth_patch) (simp add: p_def nth_patch)
qed


lemma claim_free_region_run:
  assumes h: "header_ok b" and i: "unat w < count_of b" and n: "n \<le> free_of b - dir_end b"
  shows "claim_free_region b w (word_of_nat n) =
    (Ok (slot_at (claimed b (unat w) n) (unat w), claimed b (unat w) n) :: ('e, Slot \<times> bytes) result)"
proof -
  let ?b' = "claimed b (unat w) n"
  note v = claimed_view [OF h i n]
  have len: "length b = 8192" "dir_end b \<le> free_of b" "free_of b \<le> 8192" "12 \<le> base_of (unat w)"
    "base_of (unat w) + 17 \<le> dir_end b"
    using dir_end_le [OF h] base_of_dir [OF h i] base_of_bounds(1) by auto
  have h': "header_ok ?b'" using v(1,2,4) h n by (auto simp: header_ok_def dir_end_def)
  have le: "(word_of_nat n :: u32) \<le> u32_at b 8" and uc: "ucast (word_of_nat n :: u16) = (word_of_nat n :: u32)"
    using n len by (simp_all add: word_le_nat_alt unat_of_nat_eq free_of_def page_consts word_unat_eq_iff)
  have "slot_get ?b' w = (Ok (Some (slot_at ?b' (unat w))) :: ('e, Slot option) result)"
    using i v(2) by (simp add: slot_get_ok [OF h'])
  then show ?thesis
    using h len le by (simp add: claim_free_region_def page_consts slot_base_unat checked_sub_def uc
        claimed_def Let_def)
qed

lemma claim_ok:
  assumes wf: "wf_but b i" and i: "i < count_of b" and n: "n \<le> free_of b - dir_end b"
  shows "wf_but (claimed b i n) i" "owns_region (claimed b i n) i n"
    "\<And>j. j < count_of b \<Longrightarrow> j \<noteq> i \<Longrightarrow> data_at (claimed b i n) j = data_at b j"
proof -
  let ?b' = "claimed b i n"
  have h: "header_ok b" using wf by (simp add: wf_but_def)
  note v = claimed_view [OF h i n]
  have len: "dir_end b \<le> free_of b" "free_of b \<le> PAGE_SIZE" "length b = PAGE_SIZE"
    using h by (simp_all add: header_ok_def)
  have metas: "metas ?b' = metas b"
  proof (rule nth_equalityI)
    fix j assume "j < length (metas ?b')"
    then show "metas ?b' ! j = metas b ! j" using v(2,8,9) by (cases "j = i") auto
  qed (simp add: v(2))
  have h': "header_ok ?b'" using v(1,2,4) h n by (auto simp: header_ok_def dir_end_def)
  have sj: "slot_ok ?b' j" if "j < count_of b" "j \<noteq> i" for j
    using v(9) [OF that] wf_but_slot [OF wf that] v(4) by (auto simp: slot_ok_def)
  have "apart ?b' j k" if "j < count_of b" "k < j" "j \<noteq> i" "k \<noteq> i" for j k
    using v(9) [of j] v(9) [of k] wf that by (simp add: apart_def wf_but_def)
  then show "wf_but ?b' i" using h' sj metas v(2,5) wf by (simp add: wf_but_def)
  have "apart ?b' i j" if "j < count_of b" "j \<noteq> i" for j
    using v(6,7) v(9) [OF that] wf_but_slot [OF wf that] by (auto simp: apart_def slot_ok_def)
  then show "owns_region ?b' i n" using v(2,4,6,7) n len by (auto simp: owns_region_def)
  show "data_at ?b' j = data_at b j" if "j < count_of b" "j \<noteq> i" for j
    using v(1,10) v(9) [OF that] wf_but_slot [OF wf that] len
    by (auto simp: data_at_def slot_ok_def intro!: sub_eqI)
qed


section \<open>Compaction\<close>

text \<open>Where the packed region of slot \<open>k\<close> ends when slot \<open>i\<close> is left out.\<close>

definition pack_end :: "bytes \<Rightarrow> nat \<Rightarrow> nat \<Rightarrow> nat" where
  "pack_end b i k = PAGE_SIZE - (\<Sum>j \<in> {..<k} - {i}. cap_at b j)"

definition region_at :: "bytes \<Rightarrow> nat \<Rightarrow> bytes" where
  "region_at b j = sub b (off_at b j - cap_at b j) (cap_at b j)"

definition packed :: "bytes \<Rightarrow> nat \<Rightarrow> nat \<Rightarrow> bytes \<times> u32 \<Rightarrow> bool" where
  "packed b i k = (\<lambda>(t, e). unat e = pack_end b i k \<and> length t = length b \<and>
     count_of t = count_of b \<and> deleted_of t = deleted_of b \<and> free_of t = free_of b \<and> link_of t = link_of b \<and>
     (\<forall>j<count_of b. meta_at t j = meta_at b j \<and> size_at t j = size_at b j \<and>
        off_at t j = (if j < k then pack_end b i j else off_at b j) \<and>
        cap_at t j = (if j = i \<and> i < k then 0 else cap_at b j)) \<and>
     (\<forall>j<k. j \<noteq> i \<longrightarrow> sub t (pack_end b i (Suc j)) (cap_at b j) = region_at b j))"

lemma pack_end_bound:
  assumes "wf_page b" "k \<le> count_of b"
  shows "dir_end b \<le> pack_end b i k" "pack_end b i k \<le> 8192"
proof -
  have "{..<k} - {i} \<subseteq> {..<count_of b}" using assms(2) by auto
  from sum_caps_le [OF assms(1) this] show "dir_end b \<le> pack_end b i k" "pack_end b i k \<le> 8192"
    using dir_end_le [OF wf_page_header [OF assms(1)]] by (auto simp: pack_end_def page_consts)
qed

lemma pack_end_Suc:
  assumes "wf_page b" "k < count_of b"
  shows "k \<noteq> i \<Longrightarrow> pack_end b i (Suc k) + cap_at b k = pack_end b i k"
    "k = i \<Longrightarrow> pack_end b i (Suc k) = pack_end b i k"
proof -
  assume "k \<noteq> i"
  have "{..<Suc k} - {i} = insert k ({..<k} - {i})" using \<open>k \<noteq> i\<close> by auto
  then have s: "(\<Sum>j \<in> {..<Suc k} - {i}. cap_at b j) = cap_at b k + (\<Sum>j \<in> {..<k} - {i}. cap_at b j)"
    by simp
  have "{..<Suc k} - {i} \<subseteq> {..<count_of b}" using assms(2) by auto
  from sum_caps_le [OF assms(1) this] show "pack_end b i (Suc k) + cap_at b k = pack_end b i k"
    unfolding pack_end_def s by simp
next
  assume "k = i"
  then have "{..<Suc k} - {i} = {..<k} - {i}" by auto
  then show "pack_end b i (Suc k) = pack_end b i k" by (simp add: pack_end_def)
qed

lemma pack_end_mono: "j \<le> k \<Longrightarrow> pack_end b i k \<le> pack_end b i j"
  unfolding pack_end_def by (intro diff_le_mono2 sum_mono2) auto

lemma off_write:
  assumes "base_of k + 17 \<le> length t"
  shows "off_at (patch t (base_of k) (to_le_bytes (e :: u32))) k = unat e"
    "cap_at (patch t (base_of k) (to_le_bytes e)) k = cap_at t k"
    "size_at (patch t (base_of k) (to_le_bytes e)) k = size_at t k"
    "meta_at (patch t (base_of k) (to_le_bytes e)) k = meta_at t k"
  using assms by (simp_all add: view_defs page_consts codec_simps)

lemma cap_write:
  assumes "base_of k + 17 \<le> length t"
  shows "off_at (patch t (base_of k + 6) (to_le_bytes (c :: u16))) k = off_at t k"
    "cap_at (patch t (base_of k + 6) (to_le_bytes c)) k = unat c"
    "size_at (patch t (base_of k + 6) (to_le_bytes c)) k = size_at t k"
    "meta_at (patch t (base_of k + 6) (to_le_bytes c)) k = meta_at t k"
  using assms by (simp_all add: view_defs page_consts codec_simps)

lemma compact_step_skip:
  assumes wf: "wf_page b" and i: "i < count_of b" and P: "packed b i i (t, e)"
  shows "\<exists>t'. compact_step (word_of_nat i) (i, s, reg) (t, e) = Ok t' \<and> packed b i (Suc i) t'"
proof -
  note h = wf_page_header [OF wf]
  have len: "length b = 8192" "base_of i + 17 \<le> dir_end b" "12 \<le> base_of i" "dir_end b \<le> 8192"
    using dir_end_le [OF h] base_of_dir [OF h i] base_of_bounds(1) by auto
  have b: "slot_base (word_of_nat i) = base_of i"
    using i header_okD(4) [OF h] by (simp add: slot_base_of_nat)
  define t' where "t' = patch (patch t (base_of i) (to_le_bytes e)) (base_of i + 6) (to_le_bytes (0 :: u16))"
  have t: "length t = 8192" using P len by (simp add: packed_def)
  have run: "compact_step (word_of_nat i) (i, s, reg) (t, e) = Ok (t', e)"
    using t len by (simp add: compact_step_def b t'_def page_consts Let_def)
  have slots: "meta_at t' j = meta_at b j \<and> size_at t' j = size_at b j \<and>
        off_at t' j = (if j < Suc i then pack_end b i j else off_at b j) \<and>
        cap_at t' j = (if j = i \<and> i < Suc i then 0 else cap_at b j)" if j: "j < count_of b" for j
  proof (cases "j = i")
    case True
    then show ?thesis using P i len t by (simp add: t'_def off_write cap_write packed_def)
  next
    case False
    then show ?thesis
      using P j len t base_of_cases [OF False] base_of_dir [OF h j]
      by (auto simp: t'_def packed_def)
  qed
  have "sub t' (pack_end b i (Suc j)) (cap_at b j) = region_at b j" if "j < Suc i" "j \<noteq> i" for j
  proof -
    have *: "j < count_of b" "Suc j \<le> count_of b" using that i by auto
    have "pack_end b i (Suc j) + cap_at b j \<le> 8192" "base_of i + 17 \<le> pack_end b i (Suc j)"
      using pack_end_Suc(1) [OF wf *(1) that(2)] pack_end_bound [OF wf *(2), of i] len
        pack_end_bound(2) [OF wf, of j i] * by auto
    then have "sub t' (pack_end b i (Suc j)) (cap_at b j) = sub t (pack_end b i (Suc j)) (cap_at b j)"
      using t by (simp add: t'_def sub_patch_after)
    then show ?thesis using P that by (simp add: packed_def)
  qed
  then have "packed b i (Suc i) (t', e)"
    using P slots t len pack_end_Suc(2) [OF wf i refl] by (simp add: packed_def t'_def)
  then show ?thesis using run by auto
qed


lemma compact_step_move:
  assumes wf: "wf_page b" and k: "k < count_of b" and ik: "k \<noteq> i" "i < count_of b"
    and P: "packed b i k (t, e)"
  shows "\<exists>t'. compact_step (word_of_nat i) (k, slot_at b k, region_at b k) (t, e) = Ok t' \<and>
    packed b i (Suc k) t'"
proof -
  note h = wf_page_header [OF wf]
  have len: "length b = 8192" "base_of k + 17 \<le> dir_end b" "12 \<le> base_of k" "dir_end b \<le> 8192"
    "count_of b \<le> 481"
    using dir_end_le [OF h] base_of_dir [OF h k] base_of_bounds(1) header_okD(4) [OF h] by auto
  have sk: "slot_ok b k" using wf_page_slot [OF wf k] .
  have lreg: "length (region_at b k) = cap_at b k"
    using sk len by (simp add: region_at_def slot_ok_def page_consts)
  have b: "slot_base (word_of_nat k) = base_of k" "word_of_nat k \<noteq> (word_of_nat i :: u32)"
    using k ik len by (simp_all add: slot_base_of_nat word_of_nat_inject)
  have t: "length t = 8192" and e: "unat e = pack_end b i k" using P len by (simp_all add: packed_def)
  note ends = pack_end_Suc(1) [OF wf k ik(1)]
    pack_end_bound [OF wf less_imp_le [OF k], of i] pack_end_bound [OF wf Suc_leI [OF k], of i]
  have le: "s_capacity (slot_at b k) \<le> e" using ends e by (simp add: word_le_nat_alt)
  define e' where "e' = e - s_capacity (slot_at b k)"
  have e': "unat e' = pack_end b i (Suc k)"
    using le ends e by (simp add: e'_def unat_sub)
  define p where "p = patch t (pack_end b i (Suc k)) (region_at b k)"
  define t' where "t' = patch p (base_of k) (to_le_bytes e)"
  have p: "length p = 8192" using t lreg ends by (simp add: p_def)
  have run: "compact_step (word_of_nat i) (k, slot_at b k, region_at b k) (t, e) = Ok (t', e')"
    using t len e' e ends le lreg p
    by (simp add: compact_step_def b checked_sub_def copy_from_slice_def page_consts t'_def p_def
        Let_def flip: e'_def)
  have in_p: "meta_at p j = meta_at t j \<and> size_at p j = size_at t j \<and> off_at p j = off_at t j \<and>
      cap_at p j = cap_at t j" if "j < count_of b" for j
    using base_of_dir [OF h that] ends t lreg by (simp add: p_def)
  have slots: "meta_at t' j = meta_at b j \<and> size_at t' j = size_at b j \<and>
        off_at t' j = (if j < Suc k then pack_end b i j else off_at b j) \<and>
        cap_at t' j = (if j = i \<and> i < Suc k then 0 else cap_at b j)" if j: "j < count_of b" for j
  proof (cases "j = k")
    case True
    then show ?thesis using P k len p in_p [OF k] ik e by (simp add: t'_def off_write packed_def)
  next
    case False
    have "meta_at t' j = meta_at t j \<and> size_at t' j = size_at t j \<and> off_at t' j = off_at t j \<and>
        cap_at t' j = cap_at t j"
      using len p base_of_cases [OF False] base_of_dir [OF h j] in_p [OF j] by (auto simp: t'_def)
    then show ?thesis using P j ik False by (auto simp: packed_def)
  qed
  have regions: "sub t' (pack_end b i (Suc j)) (cap_at b j) = region_at b j" if j: "j < Suc k" "j \<noteq> i" for j
  proof -
    have jn: "j < count_of b" using j k by simp
    note ej = pack_end_Suc(1) [OF wf jn j(2)] pack_end_bound [OF wf Suc_leI [OF jn], of i]
      pack_end_bound [OF wf less_imp_le [OF jn], of i]
    have "sub t' (pack_end b i (Suc j)) (cap_at b j) = sub p (pack_end b i (Suc j)) (cap_at b j)"
      using ej len p by (simp add: t'_def sub_patch_after)
    also have "\<dots> = region_at b j"
    proof (cases "j = k")
      case True
      then show ?thesis using t ends lreg by (simp add: p_def sub_patch_same)
    next
      case False
      then have "j < k" using j by simp
      then have "pack_end b i k \<le> pack_end b i (Suc j)" by (intro pack_end_mono) simp
      then have "sub p (pack_end b i (Suc j)) (cap_at b j) = sub t (pack_end b i (Suc j)) (cap_at b j)"
        using t ends ej lreg by (simp add: p_def sub_patch_after)
      then show ?thesis using P j \<open>j < k\<close> by (simp add: packed_def)
    qed
    finally show ?thesis .
  qed
  have "count_of t' = count_of t" "deleted_of t' = deleted_of t" "free_of t' = free_of t" "link_of t' = link_of t"
    using len p t lreg ends by (simp_all add: t'_def p_def)
  then have "packed b i (Suc k) (t', e')"
    using P slots regions e' p len by (simp add: packed_def t'_def)
  then show ?thesis using run by auto
qed

definition compacted :: "bytes \<Rightarrow> nat \<Rightarrow> bytes \<Rightarrow> bool" where
  "compacted b i b' \<longleftrightarrow> wf_but b' i \<and> count_of b' = count_of b \<and> link_of b' = link_of b \<and>
     free_of b' - dir_end b' = room b i \<and> meta_at b' i = meta_at b i \<and>
     (\<forall>j<count_of b. j \<noteq> i \<longrightarrow> meta_at b' j = meta_at b j \<and> data_at b' j = data_at b j \<and>
        cap_at b' j = cap_at b j)"

lemma free_write:
  assumes "length t = 8192"
  shows "count_of (patch t 8 (to_le_bytes (e :: u32))) = count_of t"
    "deleted_of (patch t 8 (to_le_bytes e)) = deleted_of t"
    "link_of (patch t 8 (to_le_bytes e)) = link_of t" "free_of (patch t 8 (to_le_bytes e)) = unat e"
  using assms by (simp_all add: view_defs page_consts codec_simps)

lemma packed_compacted:
  assumes wf: "wf_page b" and i: "i < count_of b" and P: "packed b i (count_of b) (t, e)"
  shows "compacted b i (patch t 8 (to_le_bytes e))"
proof -
  let ?b' = "patch t 8 (to_le_bytes e)"
  note h = wf_page_header [OF wf]
  have len: "length b = 8192" "count_of b \<le> 481" "12 \<le> dir_end b"
    using dir_end_le [OF h] header_okD(4) [OF h] base_of_bounds(1) by (auto simp: dir_end_def)
  have t: "length t = 8192" and e: "unat e = pack_end b i (count_of b)"
    and c: "count_of t = count_of b" "deleted_of t = deleted_of b" "link_of t = link_of b"
    using P len by (simp_all add: packed_def)
  have hdr: "count_of ?b' = count_of b" "deleted_of ?b' = deleted_of b" "link_of ?b' = link_of b"
      "free_of ?b' = pack_end b i (count_of b)" "length ?b' = 8192"
    using free_write [OF t, of e] e t c by simp_all
  have slots: "meta_at ?b' j = meta_at b j \<and> size_at ?b' j = size_at b j \<and>
        off_at ?b' j = pack_end b i j \<and> cap_at ?b' j = (if j = i then 0 else cap_at b j)"
    if j: "j < count_of b" for j
    using P j i t base_of_dir [OF h j] dir_end_le [OF h] by (simp add: packed_def)
  note bounds = pack_end_bound [OF wf order_refl, of i]
  have h': "header_ok ?b'"
    using hdr bounds by (simp add: header_ok_def dir_end_def page_consts)
  have step: "pack_end b i (Suc j) + cap_at b j = pack_end b i j" "pack_end b i (count_of b) \<le> pack_end b i (Suc j)"
    "pack_end b i j \<le> 8192" if "j < count_of b" "j \<noteq> i" for j
    using pack_end_Suc(1) [OF wf that] pack_end_mono [of "Suc j" "count_of b" b i] that
      pack_end_bound [OF wf, of j i] by auto
  have sj: "slot_ok ?b' j" if "j < count_of b" "j \<noteq> i" for j
    using slots [OF that(1)] step [OF that] that wf_page_slot [OF wf that(1)] hdr(4)
    by (auto simp: slot_ok_def page_consts)
  have "apart ?b' j k" if "j < count_of b" "k < j" "j \<noteq> i" "k \<noteq> i" for j k
    using slots [of j] slots [of k] step [of k] that pack_end_mono [of "Suc k" j b i]
    by (simp add: apart_def)
  moreover have "metas ?b' = metas b" using slots hdr(1) by (intro nth_equalityI) auto
  ultimately have "wf_but ?b' i" using h' sj hdr wf by (simp add: wf_but_def wf_page_def)
  moreover have "data_at ?b' j = data_at b j" if j: "j < count_of b" "j \<noteq> i" for j
  proof -
    have s: "size_at b j \<le> cap_at b j" "cap_at b j \<le> off_at b j" "off_at b j \<le> 8192"
      using wf_page_slot [OF wf j(1)] by (auto simp: slot_ok_def page_consts)
    have "pack_end b i j - cap_at b j = pack_end b i (Suc j)" using step(1) [OF j] by simp
    then have "data_at ?b' j = sub ?b' (pack_end b i (Suc j)) (size_at b j)"
      using slots [OF j(1)] j by (simp add: data_at_def)
    also have "\<dots> = sub t (pack_end b i (Suc j)) (size_at b j)"
      using t step [OF j] s bounds len by (intro sub_patch_after) auto
    also have "\<dots> = sub (sub t (pack_end b i (Suc j)) (cap_at b j)) 0 (size_at b j)"
      using t step [OF j] s by (simp add: sub_sub)
    also have "\<dots> = sub (region_at b j) 0 (size_at b j)" using P j by (simp add: packed_def)
    also have "\<dots> = data_at b j" using s len by (simp add: region_at_def data_at_def sub_sub)
    finally show ?thesis .
  qed
  moreover have "pack_end b i (count_of b) - dir_end b = room b i"
    by (simp add: pack_end_def room_def others_def)
  ultimately show ?thesis using slots hdr i by (simp add: compacted_def dir_end_def)
qed


lemma regions_run:
  assumes wf: "wf_page b"
  shows "traverseR (\<lambda>s. bindR (region s) (\<lambda>(i, j). slice_get b i j)) (map (slot_at b) [0..<count_of b])
    = Ok (map (region_at b) [0..<count_of b])"
proof -
  have "bindR (region (slot_at b j)) (\<lambda>(i, j). slice_get b i j) = Ok (region_at b j)"
    if "j < count_of b" for j
  proof -
    have s: "cap_at b j \<le> off_at b j" "off_at b j \<le> length b"
      using wf_page_slot [OF wf that] header_okD(1) [OF wf_page_header [OF wf]]
      by (auto simp: slot_ok_def page_consts)
    then show ?thesis by (simp add: region_def region_start_ok [OF s(1)] slice_get_def region_at_def)
  qed
  then show ?thesis by (auto simp: traverseR_Ok_iff list_all2_conv_all_nth)
qed

lemma compact_without_ok:
  assumes wf: "wf_page b" and i: "unat w < count_of b"
  shows "\<exists>b'. compact_without b w = (Ok b' :: ('e, bytes) result) \<and> compacted b (unat w) b'"
proof -
  let ?i = "unat w" and ?xs = "zip (map (slot_at b) [0..<count_of b]) (map (region_at b) [0..<count_of b])"
  note h = wf_page_header [OF wf]
  have len: "length ?xs = count_of b" "length b = 8192" using header_okD(1) [OF h] by simp_all
  have "packed b ?i 0 (b, word_of_nat PAGE_SIZE)"
    by (simp add: packed_def pack_end_def page_consts)
  then have "\<exists>t. foldR (compact_step w) (enumerate 0 ?xs) (b, word_of_nat PAGE_SIZE) =
        (Ok t :: ('e, bytes \<times> u32) result) \<and> packed b ?i (0 + length ?xs) t"
  proof (rule foldR_enumerate_invariant [where I = "packed b ?i"])
    fix k and te :: "bytes \<times> u32" assume k: "k < length ?xs" and P: "packed b ?i (0 + k) te"
    obtain t e where te: "te = (t, e)" by (cases te)
    have "?xs ! k = (slot_at b k, region_at b k)" using k by simp
    then show "\<exists>t'. compact_step w (0 + k, ?xs ! k) te = Ok t' \<and> packed b ?i (Suc (0 + k)) t'"
      using compact_step_skip [OF wf i, of t e "slot_at b k" "region_at b k"]
        compact_step_move [OF wf _ _ i, of k t e] k P
      by (cases "k = ?i") (simp_all add: te)
  qed
  then obtain t e where r: "foldR (compact_step w) (enumerate 0 ?xs) (b, word_of_nat PAGE_SIZE) =
        (Ok (t, e) :: ('e, bytes \<times> u32) result)"
    and P: "packed b ?i (count_of b) (t, e)" using len by (auto simp del: enumerate_simps)
  have "length t = 8192" using P len by (simp add: packed_def)
  then have "compact_without b w = (Ok (patch t 8 (to_le_bytes e)) :: ('e, bytes) result)"
    using r by (simp add: compact_without_def slots_ok [OF h] regions_run [OF wf] page_consts)
  then show ?thesis using packed_compacted [OF wf i P] by simp
qed


section \<open>Update in place\<close>

text \<open>What a successful update of slot \<open>i\<close> leaves.\<close>

definition updated :: "bytes \<Rightarrow> nat \<Rightarrow> TupleMeta \<Rightarrow> bytes \<Rightarrow> bytes \<Rightarrow> bool" where
  "updated b i m d b' \<longleftrightarrow> wf_page b' \<and> tuples b' = (tuples b)[i := (m, d)] \<and> link_of b' = link_of b \<and>
     (\<forall>j<count_of b. cap_at b' j = (if j = i then max (cap_at b i) (length d) else cap_at b j))"

lemma claim_and_write:
  assumes wf: "wf_but b (unat w)" and i: "unat w < count_of b" and n: "length d \<le> free_of b - dir_end b"
  shows "\<exists>b'. bindR (claim_free_region b w (word_of_nat (length d)))
      (write_region w d (word_of_nat (length d))) = (Ok b' :: ('e, bytes) result) \<and>
    tuple_written b (unat w) d b' \<and> cap_at b' (unat w) = length d"
proof -
  let ?i = "unat w"
  let ?c = "claimed b ?i (length d)"
  have h: "header_ok b" using wf by (simp add: wf_but_def)
  note c = claim_ok [OF wf i n] and v = claimed_view [OF h i n]
  have hc: "header_ok ?c" using c(1) by (simp add: wf_but_def)
  have ic: "?i < count_of ?c" using i v(2) by simp
  note w = tuple_write_ok [OF c(1) ic c(2)]
  have "meta_at ?c j = meta_at b j" if "j < count_of b" for j
    using v(8) v(9) [OF that] by (cases "j = ?i") auto
  then have "(tuples ?c)[?i := (meta_at ?c ?i, d)] = (tuples b)[?i := (meta_at b ?i, d)]"
    using i v(2) c(3) by (intro nth_equalityI) (auto simp: nth_list_update)
  then have "tuple_written b ?i d (tuple_write ?c ?i d)"
    using w(1) v(2,3,9) by (simp add: tuple_written_def)
  moreover have "cap_at (tuple_write ?c ?i d) ?i = length d" using w(2) v(7) by simp
  ultimately show ?thesis
    by (simp add: claim_free_region_run [OF h i n] write_region_run [OF hc ic c(2) refl refl])
qed

lemma update_in_place_ok:
  assumes wf: "wf_page b" and i: "unat w < count_of b" and d: "length d \<le> room b (unat w)"
  shows "\<exists>b'. update_in_place b w m d = Ok b' \<and> updated b (unat w) m d b'"
proof -
  let ?i = "unat w"
  note h = wf_page_header [OF wf]
  obtain b1 where b1: "update_meta b w m = Ok b1" "meta_written b ?i m (new_dead b ?i m) b1"
    using update_meta_spec [OF h i, of m] wf_page_dead [OF wf] i by auto
  note wf1 = meta_written_wf [OF wf i b1(2)]
  have v: "count_of b1 = count_of b" "free_of b1 = free_of b" "link_of b1 = link_of b"
    "\<And>j. j < count_of b \<Longrightarrow> off_at b1 j = off_at b j \<and> cap_at b1 j = cap_at b j"
    "meta_at b1 ?i = m"
    using b1(2) i by (simp_all add: meta_written_def)
  have room: "room b1 ?i = room b ?i" "dir_end b1 = dir_end b"
    using v by (auto simp: room_def others_def dir_end_def intro!: arg_cong2 [where f = "(-)"] sum.cong)
  have i1: "?i < count_of b1" using i v by simp
  have sz: "tuple_len d = Ok (word_of_nat (length d))"
    using d room_bounds(4) [OF wf i] by (simp add: tuple_len_ok)
  have fin: "updated b ?i m d b'"
    if "tuple_written b1 ?i d b'" "cap_at b' ?i = max (cap_at b ?i) (length d)" for b'
    using that wf1(2) v by (simp add: tuple_written_def updated_def)
  consider (in_place) "length d \<le> cap_at b ?i"
    | (free) "cap_at b ?i < length d" "length d \<le> free_of b - dir_end b"
    | (compact) "cap_at b ?i < length d" "free_of b - dir_end b < length d" by linarith
  then show ?thesis
  proof cases
    case in_place
    have own: "owns_region b1 ?i (length d)"
      using in_place wf_page_slot [OF wf1(1) i1] wf_page_apart [OF wf1(1) i1] v i
      by (auto simp: owns_region_def slot_ok_def)
    have "update_in_place b w m d = Ok (tuple_write b1 ?i d)"
      using in_place i sz b1(1) v(4) [OF i]
        write_region_run [OF wf_page_header [OF wf1(1)] i1 own, of "slot_at b ?i"]
      by (simp add: update_in_place_alt existing_slot_ok h check_region_ok wf_page_slot [OF wf] place_ok [OF wf]
          word_unat_eq_iff)
    then show ?thesis
      using tuple_write_ok [OF wf_page_but [OF wf1(1)] i1 own] fin v(4) [OF i] in_place
      by (auto simp: max_def)
  next
    case free
    obtain b' where "bindR (claim_free_region b1 w (word_of_nat (length d)))
        (write_region w d (word_of_nat (length d))) = (Ok b' :: (TablePageError, bytes) result)"
        "tuple_written b1 ?i d b'" "cap_at b' ?i = length d"
      using claim_and_write [OF wf_page_but [OF wf1(1)] i1, of d] free v room by auto
    then show ?thesis
      using free i sz b1(1) fin [of b']
      by (simp add: update_in_place_alt existing_slot_ok h check_region_ok wf_page_slot [OF wf] place_ok [OF wf])
  next
    case compact
    obtain c where c: "compact_without b1 w = (Ok c :: (TablePageError, bytes) result)" "compacted b1 ?i c"
      using compact_without_ok [OF wf1(1) i1] by auto
    have cw: "wf_but c ?i" "?i < count_of c" "length d \<le> free_of c - dir_end c"
      using c(2) i1 d room by (simp_all add: compacted_def)
    obtain b' where b': "bindR (claim_free_region c w (word_of_nat (length d)))
        (write_region w d (word_of_nat (length d))) = (Ok b' :: (TablePageError, bytes) result)"
        "tuple_written c ?i d b'" "cap_at b' ?i = length d"
      using claim_and_write [OF cw] by auto
    have "(tuples c)[?i := (meta_at c ?i, d)] = (tuples b1)[?i := (meta_at b1 ?i, d)]"
      using i1 c(2) by (intro nth_equalityI) (auto simp: nth_list_update compacted_def)
    then have "tuple_written b1 ?i d b'" using b'(2) c(2) by (simp add: tuple_written_def compacted_def)
    then show ?thesis
      using compact i sz b1(1) fin [of b'] b' c(1) d
      by (simp add: update_in_place_alt existing_slot_ok h check_region_ok wf_page_slot [OF wf] place_ok [OF wf]
          bindR_assoc)
  qed
qed


section \<open>Fresh pages, links and sequences of operations\<close>

lemma TablePage_init_ok:
  assumes "length b = PAGE_SIZE"
  shows "\<exists>b'. TablePage_init b = (Ok b' :: ('e, bytes) result) \<and> wf_page b' \<and> tuples b' = [] \<and> link_of b' = None \<and>
    dir_end b' = 12 \<and> free_of b' = 8192"
proof -
  define b' where "b' = patch (patch (patch (patch b 0 (to_le_bytes (encode_u32 None)))
    4 (to_le_bytes (0 :: u16))) 6 (to_le_bytes (0 :: u16))) 8 (to_le_bytes (8192 :: u32))"
  have "TablePage_init b = (Ok b' :: ('e, bytes) result)"
    using assms by (simp add: TablePage_init_def page_consts b'_def)
  moreover have v: "count_of b' = 0" "deleted_of b' = 0" "free_of b' = 8192" "link_of b' = None"
      "length b' = 8192"
    using assms by (simp_all add: b'_def view_defs page_consts codec_simps decode_encode_u32)
  moreover have "metas b' = []" "tuples b' = []" "dir_end b' = 12"
    using v by (simp_all add: metas_def tuples_def dir_end_def base_of_def page_consts)
  ultimately show ?thesis
    by (simp add: wf_page_def header_ok_def num_dead_def page_consts)
qed

lemma link_write:
  assumes "length b = 8192"
  shows "count_of (patch b 0 (to_le_bytes (e :: u32))) = count_of b"
    "deleted_of (patch b 0 (to_le_bytes e)) = deleted_of b"
    "free_of (patch b 0 (to_le_bytes e)) = free_of b" "link_of (patch b 0 (to_le_bytes e)) = decode_u32 e"
  using assms by (simp_all add: view_defs page_consts codec_simps)

lemma set_next_page_id_ok:
  assumes wf: "wf_page b" and p: "valid_page_id p"
  shows "\<exists>b'. set_next_page_id b p = (Ok b' :: ('e, bytes) result) \<and> wf_page b' \<and> tuples b' = tuples b \<and>
    link_of b' = Some p \<and> count_of b' = count_of b \<and> (\<forall>j<count_of b. cap_at b' j = cap_at b j)"
proof -
  note h = wf_page_header [OF wf]
  let ?b' = "patch b 0 (to_le_bytes (encode_u32 (Some p)))"
  have len: "length b = 8192" using header_okD(1) [OF h] .
  note hdr = link_write [OF len, of "encode_u32 (Some p)"]
  have slots: "off_at ?b' j = off_at b j \<and> size_at ?b' j = size_at b j \<and> cap_at ?b' j = cap_at b j \<and>
      meta_at ?b' j = meta_at b j" if "j < count_of b" for j
    using base_of_dir [OF h that] dir_end_le [OF h] by simp
  have "metas ?b' = metas b" using hdr(1) slots by (intro nth_equalityI) auto
  moreover have "header_ok ?b'" using h hdr len by (simp add: header_ok_def dir_end_def)
  moreover have "slot_ok ?b' j" if "j < count_of b" for j
    using slots [OF that] wf_page_slot [OF wf that] hdr(3) by (simp add: slot_ok_def)
  moreover have "apart ?b' j k" if "j < count_of b" "k < j" for j k
    using slots [of j] slots [of k] wf_page_apart [OF wf, of j k] that by (simp add: apart_def)
  ultimately have "wf_page ?b'" using wf hdr by (simp add: wf_page_def)
  moreover have "data_at ?b' j = data_at b j" if "j < count_of b" for j
    using slots [OF that] len header_okD(2) [OF h] that
    by (intro data_at_same [OF wf that]) (auto simp: nth_patch)
  then have "tuples ?b' = tuples b" using hdr(1) slots by (intro nth_equalityI) auto
  ultimately show ?thesis
    using hdr p slots len by (simp add: set_next_page_id_def page_consts decode_encode_u32)
qed

text \<open>One operation of a table page that succeeds.\<close>

inductive page_step :: "bytes \<Rightarrow> bytes \<Rightarrow> bool" where
  step_insert: "insert_with_meta b m d = Ok (w, b') \<Longrightarrow> page_step b b'"
| step_update_meta: "update_meta b w m = Ok b' \<Longrightarrow> page_step b b'"
| step_mark_deleted: "mark_deleted b w = Ok b' \<Longrightarrow> page_step b b'"
| step_update_in_place: "update_in_place b w m d = Ok b' \<Longrightarrow> page_step b b'"
| step_set_next: "valid_page_id p \<Longrightarrow> set_next_page_id b p = (Ok b' :: (TablePageError, bytes) result) \<Longrightarrow> page_step b b'"

lemma insert_with_meta_cases:
  assumes wf: "wf_page b"
  shows "insert_with_meta b m d =
    (if dir_end b + SLOT_SIZE + length d \<le> free_of b then Ok (word_of_nat (count_of b), inserted b m d)
     else Err (DoesNotFit (length d)))"
  using insert_with_meta_run [OF wf, of d m] wf_page_header [OF wf]
  by (auto simp: page_consts) (simp add: insert_with_meta_def page_consts)

lemma update_meta_cases:
  assumes wf: "wf_page b"
  shows "unat w < count_of b \<Longrightarrow> \<exists>b'. update_meta b w m = Ok b' \<and> wf_page b' \<and>
      tuples b' = (tuples b)[unat w := (m, data_at b (unat w))] \<and> link_of b' = link_of b \<and>
      (\<forall>j<count_of b. cap_at b' j = cap_at b j)"
    "\<not> unat w < count_of b \<Longrightarrow> update_meta b w m = Err (SlotMissing w (u16_at b NUM_TUPLES_OFF))"
proof -
  note h = wf_page_header [OF wf]
  assume i: "unat w < count_of b"
  obtain b' where b': "update_meta b w m = Ok b'" "meta_written b (unat w) m (new_dead b (unat w) m) b'"
    using update_meta_spec [OF h i, of m] wf_page_dead [OF wf] i by auto
  then show "\<exists>b'. update_meta b w m = Ok b' \<and> wf_page b' \<and>
      tuples b' = (tuples b)[unat w := (m, data_at b (unat w))] \<and> link_of b' = link_of b \<and>
      (\<forall>j<count_of b. cap_at b' j = cap_at b j)"
    using meta_written_wf [OF wf i b'(2)] by (auto simp: meta_written_def)
next
  assume "\<not> unat w < count_of b"
  then show "update_meta b w m = Err (SlotMissing w (u16_at b NUM_TUPLES_OFF))"
    using wf_page_header [OF wf] by (simp add: update_meta_def existing_slot_ok)
qed

lemma mark_deleted_cases:
  assumes wf: "wf_page b"
  shows "mark_deleted b w =
    (if \<not> unat w < count_of b then Err (SlotMissing w (u16_at b NUM_TUPLES_OFF))
     else if meta_is_deleted (meta_at b (unat w)) then Err (AlreadyDeleted w)
     else update_meta b w ((meta_at b (unat w))\<lparr>meta_is_deleted := True\<rparr>))"
proof -
  note h = wf_page_header [OF wf]
  have "u16_at b NUM_DELETED_OFF \<noteq> 65535"
    using wf_page_dead(1) [OF wf] header_okD(4) [OF h] by (auto simp: deleted_of_def)
  then show ?thesis using h by (simp add: mark_deleted_def existing_slot_ok)
qed

lemma update_in_place_cases:
  assumes wf: "wf_page b"
  shows "\<not> unat w < count_of b \<Longrightarrow> update_in_place b w m d = Err (SlotMissing w (u16_at b NUM_TUPLES_OFF))"
    "unat w < count_of b \<Longrightarrow> room b (unat w) < length d \<Longrightarrow>
       update_in_place b w m d = Err (if length d \<le> MAX_TUPLE_SIZE
         then UpdateDoesNotFit w (length d) (room b (unat w)) else DoesNotFit (length d))"
proof -
  note h = wf_page_header [OF wf]
  show "\<not> unat w < count_of b \<Longrightarrow> update_in_place b w m d = Err (SlotMissing w (u16_at b NUM_TUPLES_OFF))"
    using h by (simp add: update_in_place_def existing_slot_ok)
  assume i: "unat w < count_of b" and d: "room b (unat w) < length d"
  show "update_in_place b w m d = Err (if length d \<le> MAX_TUPLE_SIZE
         then UpdateDoesNotFit w (length d) (room b (unat w)) else DoesNotFit (length d))"
    using room_bounds [OF wf i] d i h
    by (simp add: update_in_place_def existing_slot_ok check_region_ok wf_page_slot [OF wf]
        place_ok [OF wf] tuple_len_def page_consts)
qed


lemma count_of_update: "tuples b' = (tuples b)[i := x] \<Longrightarrow> count_of b' = count_of b"
  by (metis length_list_update length_tuples)

lemma length_data_at:
  assumes "wf_page b" "i < count_of b"
  shows "length (data_at b i) = size_at b i"
proof -
  have "slot_ok b i" using assms by (rule wf_page_slot)
  then have "off_at b i - cap_at b i + size_at b i \<le> length b"
    using header_okD(1) [OF wf_page_header [OF assms(1)]] by (auto simp: slot_ok_def page_consts)
  then show ?thesis by (simp add: data_at_def)
qed

lemma page_step_grows:
  assumes "page_step b b'" and wf: "wf_page b"
  shows "wf_page b' \<and> count_of b \<le> count_of b' \<and> (\<forall>i<count_of b. cap_at b i \<le> cap_at b' i)"
proof -
  have meta: "wf_page b' \<and> count_of b \<le> count_of b' \<and> (\<forall>i<count_of b. cap_at b i \<le> cap_at b' i)"
    if "update_meta b w m = Ok b'" for w m
  proof -
    have i: "unat w < count_of b"
      using that update_meta_cases(2) [OF wf, of w m] by (cases "unat w < count_of b") auto
    obtain b'' where b'': "update_meta b w m = Ok b''" "wf_page b''"
      "tuples b'' = (tuples b)[unat w := (m, data_at b (unat w))]"
      "\<forall>j<count_of b. cap_at b'' j = cap_at b j"
      using update_meta_cases(1) [OF wf i, of m] by blast
    have "count_of b'' = count_of b" using b''(3) by (rule count_of_update)
    then show ?thesis using that b'' by simp
  qed
  from assms(1) show ?thesis
  proof cases
    case (step_insert m d w)
    then have f: "dir_end b + 17 + length d \<le> free_of b" and b': "b' = inserted b m d"
      using insert_with_meta_cases [OF wf, of m d] by (auto simp: page_consts split: if_splits)
    show ?thesis
      using insert_ok(1) [OF wf f, where m = m] inserted_view(2,10) [OF wf f, where m = m] by (simp add: b')
  next
    case (step_update_meta w m)
    then show ?thesis by (rule meta)
  next
    case (step_mark_deleted w)
    then show ?thesis by (intro meta) (auto simp: mark_deleted_cases [OF wf] split: if_splits)
  next
    case (step_update_in_place w m d)
    have i: "unat w < count_of b" and d: "length d \<le> room b (unat w)"
      using step_update_in_place update_in_place_cases [OF wf, where w = w and m = m and d = d]
      by (auto simp: not_less [symmetric])
    obtain b'' where b'': "update_in_place b w m d = Ok b''" "updated b (unat w) m d b''"
      using update_in_place_ok [OF wf i d] by blast
    moreover have "count_of b'' = count_of b"
      using b''(2) by (intro count_of_update) (simp add: updated_def)
    ultimately show ?thesis using step_update_in_place by (simp add: updated_def)
  next
    case (step_set_next p)
    then show ?thesis
      using set_next_page_id_ok [OF wf step_set_next(1), where 'e = TablePageError] by auto
  qed
qed

lemma page_steps_grow:
  assumes "page_step\<^sup>*\<^sup>* b b'" and wf: "wf_page b"
  shows "wf_page b' \<and> count_of b \<le> count_of b' \<and> (\<forall>i<count_of b. cap_at b i \<le> cap_at b' i)"
  using assms
proof (induction rule: rtranclp_induct)
  case (step y z)
  then show ?case using page_step_grows [of y z]
    by (meson le_trans less_le_trans)
qed simp

section \<open>A concrete page\<close>

definition blank_page :: bytes where
  "blank_page = (case TablePage_init (replicate PAGE_SIZE 0) :: (TablePageError, bytes) result of Ok b \<Rightarrow> b | _ \<Rightarrow> [])"

lemma blank_page_ok:
  "wf_page blank_page" "tuples blank_page = []" "dir_end blank_page = 12" "free_of blank_page = 8192"
  "count_of blank_page = 0"
proof -
  obtain b where b: "TablePage_init (replicate PAGE_SIZE 0) = (Ok b :: (TablePageError, bytes) result)"
    "wf_page b" "tuples b = []" "dir_end b = 12" "free_of b = 8192"
    using TablePage_init_ok [of "replicate PAGE_SIZE 0", where 'e = TablePageError] by auto
  then have "blank_page = b" by (simp add: blank_page_def)
  moreover have "count_of b = 0" using b(3) by (simp add: tuples_def)
  ultimately show "wf_page blank_page" "tuples blank_page = []" "dir_end blank_page = 12"
    "free_of blank_page = 8192" "count_of blank_page = 0" using b by auto
qed

text \<open>The blank page after one insertion.\<close>

definition one_page :: "bytes \<Rightarrow> bytes" where
  "one_page d = inserted blank_page TupleMeta_default d"

lemma one_page_ok:
  assumes "length d \<le> 100"
  shows "wf_page (one_page d)" "tuples (one_page d) = [(TupleMeta_default, d)]" "count_of (one_page d) = 1"
    "room (one_page d) 0 = 8163" "data_at (one_page d) 0 = d"
proof -
  have f: "dir_end blank_page + 17 + length d \<le> free_of blank_page"
    using assms by (simp add: blank_page_ok)
  note i = insert_ok [OF blank_page_ok(1) f, where m = TupleMeta_default, folded one_page_def]
  show "wf_page (one_page d)" "tuples (one_page d) = [(TupleMeta_default, d)]"
    using i by (simp_all add: blank_page_ok)
  then show c: "count_of (one_page d) = 1" using length_tuples [of "one_page d"] by simp
  show "room (one_page d) 0 = 8163"
    by (simp add: room_def others_def c dir_end_def base_of_def page_consts lessThan_Suc)
  show "data_at (one_page d) 0 = d"
    using nth_tuples [of 0 "one_page d"] c i(2) by (simp add: blank_page_ok)
qed

section \<open>Properties\<close>

text \<open>C1. On a well formed page an in-place update of an existing slot succeeds exactly when the new
  tuple fits the room the page has once every other region is packed. It then replaces the
  metadata and the bytes of that slot and of no other, whichever of the three placements the page
  takes, keeps the page well formed, and no slot's capacity shrinks. Otherwise it is refused with
  the error that names the room.\<close>

theorem update_in_place_correct:
  assumes "wf_page b" "unat w < count_of b"
  shows "(length d \<le> room b (unat w) \<longrightarrow>
      (\<exists>b'. update_in_place b w m d = Ok b' \<and> wf_page b' \<and> tuples b' = (tuples b)[unat w := (m, d)] \<and>
         link_of b' = link_of b \<and> (\<forall>j<count_of b. cap_at b j \<le> cap_at b' j))) \<and>
    (room b (unat w) < length d \<longrightarrow>
      update_in_place b w m d = Err (if length d \<le> MAX_TUPLE_SIZE
         then UpdateDoesNotFit w (length d) (room b (unat w)) else DoesNotFit (length d)))"
  using update_in_place_ok [OF assms, of d m] update_in_place_cases(2) [OF assms, of d m]
  by (auto simp: updated_def)

theorem update_in_place_correct_witness:
  "\<exists>b'. update_in_place (one_page [1, 2, 3]) 0 TupleMeta_default (replicate 8000 7) = Ok b' \<and>
     tuples b' = [(TupleMeta_default, replicate 8000 7)]"
  using update_in_place_correct [of "one_page [1, 2, 3]" 0 "replicate 8000 7" TupleMeta_default]
  by (auto simp: one_page_ok)

text \<open>C2. An insertion on a well formed page succeeds exactly when the tuple and its slot fit the
  free space. It then returns the next slot id and appends exactly that tuple, and every
  tuple already there keeps its metadata and its bytes. It never panics.\<close>

theorem insert_with_meta_correct:
  assumes "wf_page b"
  shows "if dir_end b + SLOT_SIZE + length d \<le> free_of b
    then \<exists>b'. insert_with_meta b m d = Ok (word_of_nat (count_of b), b') \<and> wf_page b' \<and>
        tuples b' = tuples b @ [(m, d)] \<and> link_of b' = link_of b
    else insert_with_meta b m d = Err (DoesNotFit (length d))"
  using insert_with_meta_cases [OF assms, of m d] insert_ok [OF assms, where d = d and m = m]
    inserted_view(3) [OF assms, where d = d and m = m]
  by (auto simp: page_consts)

theorem insert_with_meta_correct_witness:
  "\<exists>b'. insert_with_meta (one_page [1, 2, 3]) TupleMeta_default (replicate 9000 0) = Err (DoesNotFit 9000) \<and>
     insert_with_meta blank_page TupleMeta_default [9] = Ok (0, b') \<and> tuples b' = [(TupleMeta_default, [9])]"
  using insert_with_meta_correct [of blank_page "[9]" TupleMeta_default]
    insert_with_meta_correct [of "one_page [1, 2, 3]" "replicate 9000 0" TupleMeta_default]
    header_okD(3) [of "one_page [1, 2, 3]"]
  by (auto simp: blank_page_ok one_page_ok page_consts split: if_splits)

text \<open>C3. The image of a tuple that was once on the page can always be written back: after any
  sequence of insertions, metadata writes, deletions, updates and link writes, restoring slot
  \<open>i\<close> to the bytes it held before the sequence succeeds.\<close>

theorem old_image_always_fits:
  assumes "wf_page b" "page_step\<^sup>*\<^sup>* b b'" "i < count_of b"
  shows "\<exists>b''. update_in_place b' (word_of_nat i) m (data_at b i) = Ok b'' \<and> wf_page b'' \<and>
    tuples b'' = (tuples b')[i := (m, data_at b i)]"
proof -
  from page_steps_grow [OF assms(2,1)] assms(3)
  have wf: "wf_page b'" and i: "i < count_of b'" and cap: "cap_at b i \<le> cap_at b' i" by auto
  have u: "unat (word_of_nat i :: u32) = i"
    using i header_okD(4) [OF wf_page_header [OF wf]] by (simp add: unat_of_nat_eq)
  have s: "slot_ok b i" using wf_page_slot assms by blast
  have "length (data_at b i) = size_at b i" using length_data_at assms by blast
  also have "\<dots> \<le> room b' i" using s cap room_bounds(1) [OF wf i] by (simp add: slot_ok_def)
  finally show ?thesis
    using update_in_place_ok [OF wf, of "word_of_nat i"] i by (fastforce simp: u updated_def)
qed

theorem old_image_always_fits_witness:
  "\<exists>b' b''. update_meta (one_page [1, 2, 3]) 0 \<lparr>meta_ts = 7, meta_is_deleted = True\<rparr> = Ok b' \<and>
     update_in_place b' 0 TupleMeta_default [1, 2, 3] = Ok b'' \<and> tuples b'' = [(TupleMeta_default, [1, 2, 3])]"
proof -
  obtain b' where b': "update_meta (one_page [1, 2, 3]) 0 \<lparr>meta_ts = 7, meta_is_deleted = True\<rparr> = Ok b'"
      "tuples b' = (tuples (one_page [1, 2, 3]))[0 := (\<lparr>meta_ts = 7, meta_is_deleted = True\<rparr>, [1, 2, 3])]"
    using update_meta_cases(1) [OF one_page_ok(1), of "[1, 2, 3]" 0 "\<lparr>meta_ts = 7, meta_is_deleted = True\<rparr>"]
    by (auto simp: one_page_ok)
  then have "page_step\<^sup>*\<^sup>* (one_page [1, 2, 3]) b'" by (blast intro: step_update_meta)
  from old_image_always_fits [OF one_page_ok(1) this, of 0 TupleMeta_default] b'
  show ?thesis by (auto simp: one_page_ok)
qed

text \<open>C4. A buffer that \<open>TablePage::new\<close> accepts can be read whatever its slots hold: looking up a
  slot never panics, and borrowing the tuple it describes gives the bytes or an error.\<close>

theorem accepted_page_reads_safely:
  assumes "TablePage_new b = Ok b'"
  shows "\<exists>found. slot_get b' w = (Ok found :: (TablePageError, Slot option) result) \<and>
    (case found of None \<Rightarrow> True | Some s \<Rightarrow> tuple_bytes b' s \<noteq> Panic)"
proof -
  have h: "header_ok b'" using assms by (simp add: TablePage_new_Ok_iff)
  have "tuple_bytes b' s \<noteq> Panic" for s
  proof (cases "s_capacity s > s_offset s \<or> s_size s > s_capacity s")
    case True
    then show ?thesis using h by (auto simp: tuple_bytes_def check_region_def)
  next
    case False
    then have "region_start s = Ok (s_offset s - s_capacity s)" for e
      by (simp add: region_start_def checked_sub_def not_less)
    then show ?thesis
      using h False unat_sub [of "s_capacity s" "s_offset s"] header_okD(1) [OF h]
      by (auto simp: tuple_bytes_def check_region_def range_of_def slice_get_def word_le_nat_alt
          page_consts Let_def not_less region_start_def checked_sub_def)
  qed
  then show ?thesis by (auto simp: slot_get_ok [OF h] split: option.split)
qed

theorem accepted_page_reads_safely_witness:
  "\<exists>found. slot_get (one_page [5]) 0 = (Ok found :: (TablePageError, Slot option) result) \<and>
    (case found of None \<Rightarrow> True | Some s \<Rightarrow> tuple_bytes (one_page [5]) s \<noteq> Panic)"
  using accepted_page_reads_safely [of "one_page [5]" "one_page [5]" 0]
  by (simp add: TablePage_new_Ok_iff one_page_ok wf_page_header)

end
