(* ===== verification/Replacer.thy ===== *)
theory Replacer
  imports Buf
begin

text \<open>
  Models \<open>src/src/replacer.rs\<close>: the Adaptive Replacement Cache that picks victim frames. The
  four lists are doubly linked through indices into one node vector, as in the source; an index
  out of range, a subtraction below zero and every assertion of the source is a \<open>Panic\<close>.

  The walk of \<open>evict_from_list\<close> follows \<open>prev\<close> links and takes the number of nodes as fuel. A walk
  that runs out of fuel panics, so a theorem that gives \<open>Ok\<close> shows that the walk ended.
\<close>

section \<open>Data\<close>

datatype ArcList = Mru | Mfu | GhostMru | GhostMfu

datatype ResidentList = ResidentMru | ResidentMfu

datatype GhostList = GhostListMru | GhostListMfu

fun ResidentList_list :: "ResidentList \<Rightarrow> ArcList" where
  "ResidentList_list ResidentMru = Mru"
| "ResidentList_list ResidentMfu = Mfu"

fun ResidentList_ghost :: "ResidentList \<Rightarrow> GhostList" where
  "ResidentList_ghost ResidentMru = GhostListMru"
| "ResidentList_ghost ResidentMfu = GhostListMfu"

fun GhostList_list :: "GhostList \<Rightarrow> ArcList" where
  "GhostList_list GhostListMru = GhostMru"
| "GhostList_list GhostListMfu = GhostMfu"

record Node =
  n_page_id :: PageId
  n_frame_id :: "FrameId option"
  n_evictable :: bool
  n_list :: ArcList
  n_next :: "nat option"
  n_prev :: "nat option"

record ListHead =
  most_recent :: "nat option"
  least_recent :: "nat option"
  lh_length :: nat

record ArcReplacer =
  nodes :: "Node list"
  unused_node_indices :: "nat list"
  page_indices :: "PageId \<rightharpoonup> nat"
  frame_indices :: "FrameId \<rightharpoonup> nat"
  mru_list :: ListHead
  mfu_list :: ListHead
  mru_ghost_list :: ListHead
  mfu_ghost_list :: ListHead
  mru_target_size :: nat
  r_capacity :: nat
  evictable_count :: nat

record EvictionUndo =
  eu_node_idx :: nat
  eu_frame_id :: FrameId
  eu_list :: ResidentList
  eu_more_recent :: "nat option"

definition ListHead_default :: ListHead where
  "ListHead_default = \<lparr>most_recent = None, least_recent = None, lh_length = 0\<rparr>"

definition ArcReplacer_new :: "nat \<Rightarrow> ArcReplacer" where
  "ArcReplacer_new cap =
     \<lparr>nodes = [], unused_node_indices = [], page_indices = Map.empty, frame_indices = Map.empty,
      mru_list = ListHead_default, mfu_list = ListHead_default, mru_ghost_list = ListHead_default,
      mfu_ghost_list = ListHead_default, mru_target_size = 0, r_capacity = cap, evictable_count = 0\<rparr>"

section \<open>The linked lists\<close>

fun list_of :: "ArcReplacer \<Rightarrow> ArcList \<Rightarrow> ListHead" where
  "list_of r Mfu = mfu_list r"
| "list_of r Mru = mru_list r"
| "list_of r GhostMru = mru_ghost_list r"
| "list_of r GhostMfu = mfu_ghost_list r"

fun list_mut :: "ArcList \<Rightarrow> (ListHead \<Rightarrow> ListHead) \<Rightarrow> ArcReplacer \<Rightarrow> ArcReplacer" where
  "list_mut Mfu f r = mfu_list_update f r"
| "list_mut Mru f r = mru_list_update f r"
| "list_mut GhostMru f r = mru_ghost_list_update f r"
| "list_mut GhostMfu f r = mfu_ghost_list_update f r"

text \<open>\<open>self.nodes[idx]\<close>, read and updated; both panic out of range.\<close>

definition node_at :: "ArcReplacer \<Rightarrow> nat \<Rightarrow> ('e, Node) result" where
  "node_at r idx = index_get (nodes r) idx"

definition node_upd :: "ArcReplacer \<Rightarrow> nat \<Rightarrow> (Node \<Rightarrow> Node) \<Rightarrow> ('e, ArcReplacer) result" where
  "node_upd r idx f =
     bindR (index_get (nodes r) idx) (\<lambda>n. Ok (r\<lparr>nodes := (nodes r)[idx := f n]\<rparr>))"

fun node_upd_opt :: "ArcReplacer \<Rightarrow> nat option \<Rightarrow> (Node \<Rightarrow> Node) \<Rightarrow> ('e, ArcReplacer) result" where
  "node_upd_opt r None f = Ok r"
| "node_upd_opt r (Some i) f = node_upd r i f"

definition unlink_head :: "ListHead \<Rightarrow> nat \<Rightarrow> Node \<Rightarrow> ('e, ListHead) result" where
  "unlink_head head node_idx n =
     (let head = (if most_recent head = Some node_idx then head\<lparr>most_recent := n_next n\<rparr> else head);
          head = (if least_recent head = Some node_idx then head\<lparr>least_recent := n_prev n\<rparr> else head) in
      bindR (sub_usize (lh_length head) 1) (\<lambda>len. Ok (head\<lparr>lh_length := len\<rparr>)))"

definition detach :: "ArcReplacer \<Rightarrow> nat \<Rightarrow> ('e, ArcReplacer) result" where
  "detach r node_idx =
     bindR (node_at r node_idx) (\<lambda>n.
     bindR (unlink_head (list_of r (n_list n)) node_idx n) (\<lambda>head.
     let r = list_mut (n_list n) (\<lambda>_. head) r in
     bindR (node_upd_opt r (n_prev n) (\<lambda>p. p\<lparr>n_next := n_next n\<rparr>)) (\<lambda>r.
     bindR (node_upd_opt r (n_next n) (\<lambda>p. p\<lparr>n_prev := n_prev n\<rparr>)) (\<lambda>r.
     bindR (node_upd r node_idx (\<lambda>m. m\<lparr>n_prev := None\<rparr>)) (\<lambda>r.
     node_upd r node_idx (\<lambda>m. m\<lparr>n_next := None\<rparr>))))))"

definition link_head :: "ListHead \<Rightarrow> nat \<Rightarrow> ListHead" where
  "link_head head node_idx =
     (let old_most_recent = most_recent head;
          head = head\<lparr>most_recent := Some node_idx\<rparr>;
          head = (if old_most_recent = None then head\<lparr>least_recent := Some node_idx\<rparr> else head) in
      head\<lparr>lh_length := lh_length head + 1\<rparr>)"

definition push :: "ArcReplacer \<Rightarrow> nat \<Rightarrow> ArcList \<Rightarrow> ('e, ArcReplacer) result" where
  "push r node_idx l =
     (let old_most_recent = most_recent (list_of r l);
          r = list_mut l (\<lambda>head. link_head head node_idx) r in
      bindR (node_upd r node_idx (\<lambda>n. n\<lparr>n_list := l\<rparr>)) (\<lambda>r.
      bindR (node_upd r node_idx (\<lambda>n. n\<lparr>n_prev := None\<rparr>)) (\<lambda>r.
      bindR (node_upd r node_idx (\<lambda>n. n\<lparr>n_next := old_most_recent\<rparr>)) (\<lambda>r.
      node_upd_opt r old_most_recent (\<lambda>n. n\<lparr>n_prev := Some node_idx\<rparr>)))))"

definition insert_after ::
  "ArcReplacer \<Rightarrow> nat \<Rightarrow> ArcList \<Rightarrow> nat option \<Rightarrow> ('e, ArcReplacer) result" where
  "insert_after r node_idx l more_recent =
     (case more_recent of
        None \<Rightarrow> push r node_idx l
      | Some mr \<Rightarrow>
          bindR (node_at r mr) (\<lambda>m.
          let less_recent = n_next m in
          bindR (node_upd r mr (\<lambda>n. n\<lparr>n_next := Some node_idx\<rparr>)) (\<lambda>r.
          bindR (node_upd r node_idx (\<lambda>n. n\<lparr>n_list := l\<rparr>)) (\<lambda>r.
          bindR (node_upd r node_idx (\<lambda>n. n\<lparr>n_prev := Some mr\<rparr>)) (\<lambda>r.
          bindR (node_upd r node_idx (\<lambda>n. n\<lparr>n_next := less_recent\<rparr>)) (\<lambda>r.
          bindR (case less_recent of
                   Some lr \<Rightarrow> node_upd r lr (\<lambda>n. n\<lparr>n_prev := Some node_idx\<rparr>)
                 | None \<Rightarrow> Ok (list_mut l (least_recent_update (\<lambda>_. Some node_idx)) r)) (\<lambda>r.
          Ok (list_mut l (lh_length_update (\<lambda>n. n + 1)) r))))))))"

definition move_to_front :: "ArcReplacer \<Rightarrow> nat \<Rightarrow> ArcList \<Rightarrow> ('e, ArcReplacer) result" where
  "move_to_front r node_idx l = bindR (detach r node_idx) (\<lambda>r. push r node_idx l)"

section \<open>Operations\<close>

definition replacer_size :: "ArcReplacer \<Rightarrow> nat" where
  "replacer_size r = evictable_count r"

definition is_full :: "ArcReplacer \<Rightarrow> bool" where
  "is_full r \<longleftrightarrow> lh_length (mru_list r) + lh_length (mfu_list r) \<ge> r_capacity r"

text \<open>Clearing the evictable flag of a node and counting it out,
  \<open>if std::mem::replace(&mut node.evictable, false) { self.evictable_count -= 1; }\<close>.\<close>

definition clear_evictable :: "ArcReplacer \<Rightarrow> nat \<Rightarrow> ('e, ArcReplacer) result" where
  "clear_evictable r idx =
     bindR (node_at r idx) (\<lambda>n.
     bindR (node_upd r idx (\<lambda>n. n\<lparr>n_evictable := False\<rparr>)) (\<lambda>r.
     if n_evictable n then
       bindR (sub_usize (evictable_count r) 1) (\<lambda>c. Ok (r\<lparr>evictable_count := c\<rparr>))
     else Ok r))"

definition set_evictable :: "ArcReplacer \<Rightarrow> FrameId \<Rightarrow> bool \<Rightarrow> ('e, ArcReplacer) result" where
  "set_evictable r frame_id evictable =
     (case frame_indices r frame_id of
        None \<Rightarrow> Ok r
      | Some idx \<Rightarrow>
          bindR (node_at r idx) (\<lambda>n.
          let was_evictable = n_evictable n in
          bindR (node_upd r idx (\<lambda>n. n\<lparr>n_evictable := evictable\<rparr>)) (\<lambda>r.
          if evictable \<and> \<not> was_evictable then Ok (r\<lparr>evictable_count := evictable_count r + 1\<rparr>)
          else if \<not> evictable \<and> was_evictable then
            bindR (sub_usize (evictable_count r) 1) (\<lambda>c. Ok (r\<lparr>evictable_count := c\<rparr>))
          else Ok r)))"

fun forget_frame :: "ArcReplacer \<Rightarrow> FrameId option \<Rightarrow> ArcReplacer" where
  "forget_frame r None = r"
| "forget_frame r (Some f) = r\<lparr>frame_indices := (frame_indices r)(f := None)\<rparr>"

definition replacer_remove ::
  "ArcReplacer \<Rightarrow> PageId \<Rightarrow> ('e, FrameId option \<times> ArcReplacer) result" where
  "replacer_remove r pid =
     (case page_indices r pid of
        None \<Rightarrow> Ok (None, r)
      | Some idx \<Rightarrow>
          let r = r\<lparr>page_indices := (page_indices r)(pid := None)\<rparr> in
          bindR (node_at r idx) (\<lambda>n.
          bindR (node_upd r idx (\<lambda>n. n\<lparr>n_frame_id := None\<rparr>)) (\<lambda>r.
          bindR (clear_evictable r idx) (\<lambda>r.
          let r = forget_frame r (n_frame_id n) in
          bindR (detach r idx) (\<lambda>r.
          Ok (n_frame_id n, r\<lparr>unused_node_indices := unused_node_indices r @ [idx]\<rparr>))))))"

definition give_up_frame :: "ArcReplacer \<Rightarrow> nat \<Rightarrow> ('e, ArcReplacer) result" where
  "give_up_frame r idx =
     bindR (node_at r idx) (\<lambda>n.
     bindR (case n_list n of Mru \<Rightarrow> Ok ResidentMru | Mfu \<Rightarrow> Ok ResidentMfu | _ \<Rightarrow> Panic) (\<lambda>resident.
     bindR (node_upd r idx (\<lambda>n. n\<lparr>n_frame_id := None\<rparr>)) (\<lambda>r.
     let r = forget_frame r (n_frame_id n) in
     bindR (clear_evictable r idx) (\<lambda>r.
     move_to_front r idx (GhostList_list (ResidentList_ghost resident))))))"

definition take_frame_from_its_holder ::
  "ArcReplacer \<Rightarrow> FrameId \<Rightarrow> ('e, bool \<times> ArcReplacer) result" where
  "take_frame_from_its_holder r frame_id =
     (case frame_indices r frame_id of
        Some previous_holder \<Rightarrow> bindR (give_up_frame r previous_holder) (\<lambda>r. Ok (True, r))
      | None \<Rightarrow> Ok (False, r))"

definition release_frame_for_admission ::
  "ArcReplacer \<Rightarrow> FrameId \<Rightarrow> ('e, ArcReplacer) result" where
  "release_frame_for_admission r frame_id =
     bindR (take_frame_from_its_holder r frame_id) (\<lambda>(freed_a_tracked_frame, r).
     bindR (assertR (freed_a_tracked_frame \<or> \<not> is_full r)) (\<lambda>_. Ok r))"

definition revive_ghost :: "ArcReplacer \<Rightarrow> nat \<Rightarrow> FrameId \<Rightarrow> ('e, ArcReplacer) result" where
  "revive_ghost r idx frame_id =
     bindR (release_frame_for_admission r frame_id) (\<lambda>r.
     bindR (node_upd r idx (\<lambda>n. n\<lparr>n_frame_id := Some frame_id\<rparr>)) (\<lambda>r.
     bindR (node_upd r idx (\<lambda>n. n\<lparr>n_evictable := False\<rparr>)) (\<lambda>r.
     let r = r\<lparr>frame_indices := (frame_indices r)(frame_id \<mapsto> idx)\<rparr> in
     move_to_front r idx Mfu)))"

definition move_to_new_frame :: "ArcReplacer \<Rightarrow> nat \<Rightarrow> FrameId \<Rightarrow> ('e, ArcReplacer) result" where
  "move_to_new_frame r idx frame_id =
     bindR (take_frame_from_its_holder r frame_id) (\<lambda>(_, r).
     bindR (node_at r idx) (\<lambda>n.
     bindR (node_upd r idx (\<lambda>n. n\<lparr>n_frame_id := Some frame_id\<rparr>)) (\<lambda>r.
     let r = forget_frame r (n_frame_id n) in
     bindR (clear_evictable r idx) (\<lambda>r.
     Ok (r\<lparr>frame_indices := (frame_indices r)(frame_id \<mapsto> idx)\<rparr>)))))"

definition trim_ghost_tail :: "ArcReplacer \<Rightarrow> GhostList \<Rightarrow> ('e, ArcReplacer) result" where
  "trim_ghost_tail r ghost =
     bindR (expectR (least_recent (list_of r (GhostList_list ghost)))) (\<lambda>idx.
     bindR (node_at r idx) (\<lambda>n.
     bindR (assertR (n_frame_id n = None)) (\<lambda>_.
     bindR (detach r idx) (\<lambda>r.
     Ok (r\<lparr>page_indices := (page_indices r)(n_page_id n := None),
           unused_node_indices := unused_node_indices r @ [idx]\<rparr>)))))"

text \<open>\<open>a / b\<close> on \<open>usize\<close> panics when \<open>b\<close> is zero.\<close>

definition div_usize :: "nat \<Rightarrow> nat \<Rightarrow> ('e, nat) result" where
  "div_usize a b = (if b = 0 then Panic else Ok (a div b))"

definition record_repeat_access ::
  "ArcReplacer \<Rightarrow> nat \<Rightarrow> FrameId \<Rightarrow> PageId \<Rightarrow> ('e, ArcReplacer) result" where
  "record_repeat_access r idx frame_id pid =
     bindR (node_at r idx) (\<lambda>n.
     let mru_ghosts = lh_length (mru_ghost_list r); mfu_ghosts = lh_length (mfu_ghost_list r);
         resident =
           bindR (if n_frame_id n \<noteq> Some frame_id then move_to_new_frame r idx frame_id else Ok r) (\<lambda>r.
           move_to_front r idx Mfu) in
     case n_list n of
       Mfu \<Rightarrow> resident
     | Mru \<Rightarrow> resident
     | GhostMru \<Rightarrow>
         bindR (if mru_ghosts \<ge> mfu_ghosts then Ok 1 else div_usize mfu_ghosts mru_ghosts) (\<lambda>delta.
         revive_ghost (r\<lparr>mru_target_size := min (mru_target_size r + delta) (r_capacity r)\<rparr>) idx frame_id)
     | GhostMfu \<Rightarrow>
         bindR (if mfu_ghosts \<ge> mru_ghosts then Ok 1 else div_usize mru_ghosts mfu_ghosts) (\<lambda>delta.
         revive_ghost (r\<lparr>mru_target_size := mru_target_size r - delta\<rparr>) idx frame_id))"

text \<open>Placing a new node in the vector: the last unused index first, else at the end.\<close>

definition alloc_node :: "ArcReplacer \<Rightarrow> Node \<Rightarrow> ('e, nat \<times> ArcReplacer) result" where
  "alloc_node r n =
     (if unused_node_indices r \<noteq> [] then
        let idx = last (unused_node_indices r);
            r = r\<lparr>unused_node_indices := butlast (unused_node_indices r)\<rparr> in
        bindR (node_upd r idx (\<lambda>_. n)) (\<lambda>r. Ok (idx, r))
      else
        let r = r\<lparr>nodes := nodes r @ [n]\<rparr> in Ok (length (nodes r) - 1, r))"

definition record_first_access :: "ArcReplacer \<Rightarrow> FrameId \<Rightarrow> PageId \<Rightarrow> ('e, ArcReplacer) result" where
  "record_first_access r frame_id pid =
     bindR (release_frame_for_admission r frame_id) (\<lambda>r.
     let mru_side = lh_length (mru_list r) + lh_length (mru_ghost_list r) in
     bindR (if mru_side = r_capacity r then trim_ghost_tail r GhostListMru
            else bindR (assertR (mru_side < r_capacity r)) (\<lambda>_.
              let tracked = mru_side + lh_length (mfu_list r) + lh_length (mfu_ghost_list r) in
              if tracked = 2 * r_capacity r then trim_ghost_tail r GhostListMfu else Ok r)) (\<lambda>r.
     bindR (alloc_node r \<lparr>n_page_id = pid, n_frame_id = Some frame_id, n_evictable = False,
                         n_list = Mru, n_next = None, n_prev = None\<rparr>) (\<lambda>(idx, r).
     let r = r\<lparr>page_indices := (page_indices r)(pid \<mapsto> idx),
               frame_indices := (frame_indices r)(frame_id \<mapsto> idx)\<rparr> in
     push r idx Mru)))"

definition record_access :: "ArcReplacer \<Rightarrow> FrameId \<Rightarrow> PageId \<Rightarrow> ('e, ArcReplacer) result" where
  "record_access r frame_id pid =
     (case page_indices r pid of
        Some idx \<Rightarrow> record_repeat_access r idx frame_id pid
      | None \<Rightarrow> record_first_access r frame_id pid)"

section \<open>Eviction\<close>

fun find_evictable :: "nat \<Rightarrow> ArcReplacer \<Rightarrow> nat \<Rightarrow> ('e, nat option) result" where
  "find_evictable 0 r current = Panic"
| "find_evictable (Suc fuel) r current =
     bindR (node_at r current) (\<lambda>n.
     if n_evictable n then Ok (Some current)
     else case n_prev n of None \<Rightarrow> Ok None | Some more_recent \<Rightarrow> find_evictable fuel r more_recent)"

definition evict_from_list ::
  "ArcReplacer \<Rightarrow> ResidentList \<Rightarrow> ('e, EvictionUndo option \<times> ArcReplacer) result" where
  "evict_from_list r resident =
     (case least_recent (list_of r (ResidentList_list resident)) of
        None \<Rightarrow> Ok (None, r)
      | Some start \<Rightarrow>
          bindR (find_evictable (length (nodes r)) r start) (\<lambda>found.
          case found of
            None \<Rightarrow> Ok (None, r)
          | Some current \<Rightarrow>
              bindR (node_at r current) (\<lambda>n.
              case n_frame_id n of
                None \<Rightarrow> Ok (None, r)
              | Some frame_id \<Rightarrow>
                  bindR (give_up_frame r current) (\<lambda>r.
                  Ok (Some \<lparr>eu_node_idx = current, eu_frame_id = frame_id, eu_list = resident,
                            eu_more_recent = n_prev n\<rparr>, r)))))"

definition begin_eviction :: "ArcReplacer \<Rightarrow> ('e, EvictionUndo option \<times> ArcReplacer) result" where
  "begin_eviction r =
     (let (preferred, fallback) =
        (if lh_length (mru_list r) \<ge> mru_target_size r then (ResidentMru, ResidentMfu)
         else (ResidentMfu, ResidentMru)) in
      bindR (evict_from_list r preferred) (\<lambda>(undo, r).
      case undo of Some u \<Rightarrow> Ok (Some u, r) | None \<Rightarrow> evict_from_list r fallback))"

definition evict :: "ArcReplacer \<Rightarrow> ('e, FrameId option \<times> ArcReplacer) result" where
  "evict r = bindR (begin_eviction r) (\<lambda>(undo, r). Ok (map_option eu_frame_id undo, r))"

text \<open>Dropping an uncommitted \<open>Eviction\<close> runs \<open>undo_eviction\<close>.\<close>

definition undo_eviction :: "ArcReplacer \<Rightarrow> EvictionUndo \<Rightarrow> ('e, ArcReplacer) result" where
  "undo_eviction r u =
     bindR (detach r (eu_node_idx u)) (\<lambda>r.
     bindR (insert_after r (eu_node_idx u) (ResidentList_list (eu_list u)) (eu_more_recent u)) (\<lambda>r.
     bindR (node_upd r (eu_node_idx u) (\<lambda>n. n\<lparr>n_frame_id := Some (eu_frame_id u)\<rparr>)) (\<lambda>r.
     bindR (node_upd r (eu_node_idx u) (\<lambda>n. n\<lparr>n_evictable := True\<rparr>)) (\<lambda>r.
     Ok (r\<lparr>frame_indices := (frame_indices r)(eu_frame_id u \<mapsto> eu_node_idx u),
           evictable_count := evictable_count r + 1\<rparr>)))))"

end
