(* ===== verification/Replacer_Lists.thy ===== *)
theory Replacer_Lists
  imports Replacer
begin

text \<open>
  The doubly linked lists of the replacer, related to HOL lists of node indices: what
  detaching, pushing and inserting a node does to them.
\<close>


section \<open>Doubly linked segments\<close>

definition hd_or :: "nat list \<Rightarrow> nat option \<Rightarrow> nat option" where
  "hd_or xs n = (if xs = [] then n else Some (hd xs))"

definition last_or :: "nat list \<Rightarrow> nat option \<Rightarrow> nat option" where
  "last_or xs p = (if xs = [] then p else Some (last xs))"

lemma hd_or_simps [simp]: "hd_or [] n = n" "hd_or (x # xs) n = Some x" "last_or [] p = p"
  "last_or (xs @ [x]) p = Some x" "hd_or (xs @ ys) n = hd_or xs (hd_or ys n)"
  "last_or (x # xs) p = last_or xs (Some x)" "last_or (xs @ ys) p = last_or ys (last_or xs p)"
  by (auto simp: hd_or_def last_or_def)

text \<open>\<open>dll ns l p xs n\<close>: the nodes \<open>xs\<close> of list \<open>l\<close> are linked in this order, from most to least
  recent; the first one points back to \<open>p\<close> and the last one on to \<open>n\<close>.\<close>

fun dll :: "Node list \<Rightarrow> ArcList \<Rightarrow> nat option \<Rightarrow> nat list \<Rightarrow> nat option \<Rightarrow> bool" where
  "dll ns l p [] n \<longleftrightarrow> True"
| "dll ns l p (i # xs) n \<longleftrightarrow> i < length ns \<and> n_list (ns ! i) = l \<and> n_prev (ns ! i) = p \<and>
     n_next (ns ! i) = hd_or xs n \<and> dll ns l (Some i) xs n"

lemma dll_append: "dll ns l p (xs @ ys) n \<longleftrightarrow> dll ns l p xs (hd_or ys n) \<and> dll ns l (last_or xs p) ys n"
  by (induction xs arbitrary: p) auto

lemma dll_node: "dll ns l p xs n \<Longrightarrow> i \<in> set xs \<Longrightarrow> i < length ns \<and> n_list (ns ! i) = l"
  by (induction xs arbitrary: p) auto

lemma dll_cong:
  assumes "dll ns l p xs n" "length ns \<le> length ns'" "\<And>i. i \<in> set xs \<Longrightarrow> ns' ! i = ns ! i"
  shows "dll ns' l p xs n"
  using assms by (induction xs arbitrary: p) auto

lemma dll_links_cong:
  assumes "dll ns l p xs n" "length ns \<le> length ns'"
    "\<And>i. i \<in> set xs \<Longrightarrow> n_list (ns' ! i) = n_list (ns ! i) \<and> n_prev (ns' ! i) = n_prev (ns ! i) \<and>
       n_next (ns' ! i) = n_next (ns ! i)"
  shows "dll ns' l p xs n"
  using assms by (induction xs arbitrary: p) auto

definition head_ok :: "ListHead \<Rightarrow> nat list \<Rightarrow> bool" where
  "head_ok h xs \<longleftrightarrow> most_recent h = hd_or xs None \<and> least_recent h = last_or xs None \<and> lh_length h = length xs"

definition list_ok :: "ArcReplacer \<Rightarrow> ArcList \<Rightarrow> nat list \<Rightarrow> bool" where
  "list_ok r l xs \<longleftrightarrow> head_ok (list_of r l) xs \<and> dll (nodes r) l None xs None \<and> distinct xs"

text \<open>The nodes of \<open>ns\<close> and \<open>ns'\<close> hold the same pages, frames and flags, and outside \<open>S\<close> they are equal.\<close>

definition relinked :: "nat set \<Rightarrow> Node list \<Rightarrow> Node list \<Rightarrow> bool" where
  "relinked S ns ns' \<longleftrightarrow> length ns' = length ns \<and>
     (\<forall>k<length ns. n_page_id (ns' ! k) = n_page_id (ns ! k) \<and> n_frame_id (ns' ! k) = n_frame_id (ns ! k) \<and>
        n_evictable (ns' ! k) = n_evictable (ns ! k) \<and> (k \<notin> S \<longrightarrow> ns' ! k = ns ! k))"

lemma node_upd_ok [simp]: "i < length (nodes r) \<Longrightarrow>
  node_upd r i f = Ok (r\<lparr>nodes := (nodes r)[i := f (nodes r ! i)]\<rparr>)"
  by (simp add: node_upd_def index_get_def)

lemma node_at_ok [simp]: "i < length (nodes r) \<Longrightarrow> node_at r i = Ok (nodes r ! i)"
  by (simp add: node_at_def index_get_def)

lemma list_mut_nodes [simp]: "nodes (list_mut l f r) = nodes r" "r_capacity (list_mut l f r) = r_capacity r"
  "page_indices (list_mut l f r) = page_indices r" "frame_indices (list_mut l f r) = frame_indices r"
  "unused_node_indices (list_mut l f r) = unused_node_indices r"
  "evictable_count (list_mut l f r) = evictable_count r" "mru_target_size (list_mut l f r) = mru_target_size r"
  by (cases l; simp)+

lemma list_of_mut [simp]: "list_of (list_mut l f r) l' = (if l' = l then f (list_of r l) else list_of r l')"
  by (cases l; cases l'; simp)

lemma list_of_update [simp]:
  "list_of (r\<lparr>nodes := x\<rparr>) l = list_of r l"
  "list_of (r\<lparr>page_indices := p\<rparr>) l = list_of r l"
  "list_of (r\<lparr>frame_indices := q\<rparr>) l = list_of r l"
  "list_of (r\<lparr>unused_node_indices := u\<rparr>) l = list_of r l"
  "list_of (r\<lparr>evictable_count := c\<rparr>) l = list_of r l"
  "list_of (r\<lparr>mru_target_size := t\<rparr>) l = list_of r l"
  by (cases l; simp)+

text \<open>What an operation on the links leaves alone.\<close>

definition same_rest :: "ArcReplacer \<Rightarrow> ArcReplacer \<Rightarrow> bool" where
  "same_rest r r' \<longleftrightarrow> page_indices r' = page_indices r \<and> frame_indices r' = frame_indices r \<and>
     unused_node_indices r' = unused_node_indices r \<and> evictable_count r' = evictable_count r \<and>
     mru_target_size r' = mru_target_size r \<and> r_capacity r' = r_capacity r"

fun upd_opt :: "nat option \<Rightarrow> (Node \<Rightarrow> Node) \<Rightarrow> Node list \<Rightarrow> Node list" where
  "upd_opt None f ns = ns"
| "upd_opt (Some i) f ns = ns[i := f (ns ! i)]"

lemma length_upd_opt [simp]: "length (upd_opt x f ns) = length ns"
  by (cases x) auto

lemma node_upd_opt_ok: "(\<And>k. x = Some k \<Longrightarrow> k < length (nodes r)) \<Longrightarrow>
  node_upd_opt r x f = Ok (r\<lparr>nodes := upd_opt x f (nodes r)\<rparr>)"
  by (cases x) auto

lemma nth_upd_opt: "k < length ns \<Longrightarrow> upd_opt x f ns ! k = (if x = Some k then f (ns ! k) else ns ! k)"
  by (cases x) (auto simp: nth_list_update)

definition detached :: "Node list \<Rightarrow> nat \<Rightarrow> Node list" where
  "detached ns i =
     (let ns1 = upd_opt (n_prev (ns ! i)) (\<lambda>p. p\<lparr>n_next := n_next (ns ! i)\<rparr>) ns;
          ns2 = upd_opt (n_next (ns ! i)) (\<lambda>p. p\<lparr>n_prev := n_prev (ns ! i)\<rparr>) ns1 in
      ns2[i := (ns2 ! i)\<lparr>n_prev := None, n_next := None\<rparr>])"

lemma length_detached [simp]: "length (detached ns i) = length ns"
  by (simp add: detached_def Let_def)

lemma nth_detached:
  assumes "k < length ns" "k \<noteq> i"
  shows "detached ns i ! k = (ns ! k)
    \<lparr>n_next := if n_prev (ns ! i) = Some k then n_next (ns ! i) else n_next (ns ! k),
     n_prev := if n_next (ns ! i) = Some k then n_prev (ns ! i) else n_prev (ns ! k)\<rparr>"
  using assms by (simp add: detached_def Let_def nth_upd_opt)

lemma nth_detached_self:
  assumes "i < length ns"
  shows "detached ns i ! i = (ns ! i)\<lparr>n_prev := None, n_next := None\<rparr>"
  using assms by (simp add: detached_def Let_def nth_upd_opt)


lemma dll_retarget_next:
  assumes "dll ns l p xs n" "distinct xs" "length ns \<le> length ns'"
    "\<And>k. k \<in> set xs \<Longrightarrow> n_list (ns' ! k) = n_list (ns ! k) \<and> n_prev (ns' ! k) = n_prev (ns ! k) \<and>
       n_next (ns' ! k) = (if k = last xs then n' else n_next (ns ! k))"
  shows "dll ns' l p xs n'"
  using assms
proof (induction xs arbitrary: p)
  case (Cons i xs)
  have "dll ns' l (Some i) xs n'"
  proof (rule Cons.IH)
    show "dll ns l (Some i) xs n" "distinct xs" "length ns \<le> length ns'" using Cons.prems by auto
    fix k assume k: "k \<in> set xs"
    then have "xs \<noteq> []" by auto
    with k Cons.prems(4) [of k]
    show "n_list (ns' ! k) = n_list (ns ! k) \<and> n_prev (ns' ! k) = n_prev (ns ! k) \<and>
       n_next (ns' ! k) = (if k = last xs then n' else n_next (ns ! k))" by simp
  qed
  moreover have "n_next (ns' ! i) = hd_or xs n'"
  proof (cases "xs = []")
    case True
    then show ?thesis using Cons.prems(4) [of i] by simp
  next
    case False
    then have "i \<noteq> last xs" using Cons.prems(2) by auto
    then show ?thesis using False Cons.prems by (simp add: hd_or_def)
  qed
  ultimately show ?case using Cons.prems by auto
qed simp

lemma dll_retarget_prev:
  assumes "dll ns l p xs n" "distinct xs" "length ns \<le> length ns'"
    "\<And>k. k \<in> set xs \<Longrightarrow> n_list (ns' ! k) = n_list (ns ! k) \<and> n_next (ns' ! k) = n_next (ns ! k) \<and>
       n_prev (ns' ! k) = (if k = hd xs then p' else n_prev (ns ! k))"
  shows "dll ns' l p' xs n"
proof (cases xs)
  case (Cons i ys)
  have "dll ns' l (Some i) ys n"
  proof (rule dll_links_cong)
    show "dll ns l (Some i) ys n" "length ns \<le> length ns'" using assms Cons by auto
    fix k assume "k \<in> set ys"
    moreover from this have "k \<noteq> i" using assms(2) Cons by auto
    ultimately show "n_list (ns' ! k) = n_list (ns ! k) \<and> n_prev (ns' ! k) = n_prev (ns ! k) \<and>
       n_next (ns' ! k) = n_next (ns ! k)" using assms(4) [of k] Cons by simp
  qed
  then show ?thesis using assms Cons by auto
qed simp

lemma last_or_eq_Some: "last_or xs None = Some k \<longleftrightarrow> xs \<noteq> [] \<and> k = last xs"
  by (auto simp: last_or_def)

lemma hd_or_eq_Some: "hd_or xs None = Some k \<longleftrightarrow> xs \<noteq> [] \<and> k = hd xs"
  by (auto simp: hd_or_def)

lemma dll_detached:
  assumes d: "dll ns l None (xs @ i # ys) None" and dist: "distinct (xs @ i # ys)"
  shows "dll (detached ns i) l None (xs @ ys) None"
proof -
  from d have xs: "dll ns l None xs (Some i)" and ys: "dll ns l (Some i) ys None"
    and i: "i < length ns" "n_prev (ns ! i) = last_or xs None" "n_next (ns ! i) = hd_or ys None"
    by (auto simp: dll_append)
  have "dll (detached ns i) l None xs (hd_or ys None)"
  proof (rule dll_retarget_next [OF xs])
    fix k assume k: "k \<in> set xs"
    then have *: "k < length ns" "k \<noteq> i" "hd_or ys None \<noteq> Some k" "xs \<noteq> []"
      using dll_node [OF xs] dist by (auto simp: hd_or_eq_Some disjoint_iff)
    show "n_list (detached ns i ! k) = n_list (ns ! k) \<and> n_prev (detached ns i ! k) = n_prev (ns ! k) \<and>
        n_next (detached ns i ! k) = (if k = last xs then hd_or ys None else n_next (ns ! k))"
      unfolding nth_detached [OF *(1,2)] using * by (simp add: i last_or_eq_Some)
  qed (use dist in auto)
  moreover have "dll (detached ns i) l (last_or xs None) ys None"
  proof (rule dll_retarget_prev [OF ys])
    fix k assume k: "k \<in> set ys"
    then have *: "k < length ns" "k \<noteq> i" "last_or xs None \<noteq> Some k" "ys \<noteq> []"
      using dll_node [OF ys] dist by (auto simp: last_or_eq_Some disjoint_iff)
    show "n_list (detached ns i ! k) = n_list (ns ! k) \<and> n_next (detached ns i ! k) = n_next (ns ! k) \<and>
        n_prev (detached ns i ! k) = (if k = hd ys then last_or xs None else n_prev (ns ! k))"
      unfolding nth_detached [OF *(1,2)] using * by (simp add: i hd_or_eq_Some)
  qed (use dist in auto)
  ultimately show ?thesis by (simp add: dll_append)
qed

lemma list_ok_other:
  assumes "list_ok r l xs" "list_of r' l = list_of r l" "length (nodes r) \<le> length (nodes r')"
    "\<And>k. k \<in> set xs \<Longrightarrow> nodes r' ! k = nodes r ! k"
  shows "list_ok r' l xs"
  using assms dll_cong [of "nodes r" l None xs None "nodes r'"] by (simp add: list_ok_def)

lemma list_ok_node: "list_ok r l xs \<Longrightarrow> i \<in> set xs \<Longrightarrow> i < length (nodes r) \<and> n_list (nodes r ! i) = l"
  by (auto simp: list_ok_def dest: dll_node)

lemma unlink_head_ok:
  assumes "head_ok h (xs @ i # ys)" "distinct (xs @ i # ys)"
    "n_prev n = last_or xs None" "n_next n = hd_or ys None"
  shows "\<exists>h'. unlink_head h i n = (Ok h' :: ('e, ListHead) result) \<and> head_ok h' (xs @ ys)"
proof -
  have "hd (xs @ i # ys) = i \<longleftrightarrow> xs = []" "last (i # ys) = i \<longleftrightarrow> ys = []"
    using assms(2) by (cases xs; cases ys; auto)+
  then show ?thesis
    using assms by (cases "xs = []"; cases "ys = []")
      (auto simp: unlink_head_def head_ok_def Let_def hd_or_def last_or_def)
qed

lemma detach_ok:
  assumes ok: "list_ok r l (xs @ i # ys)"
  shows "\<exists>r'. detach r i = (Ok r' :: ('e, ArcReplacer) result) \<and> list_ok r' l (xs @ ys) \<and>
    nodes r' = detached (nodes r) i \<and> same_rest r r' \<and> (\<forall>l'. l' \<noteq> l \<longrightarrow> list_of r' l' = list_of r l')"
proof -
  let ?n = "nodes r ! i"
  from ok have d: "dll (nodes r) l None (xs @ i # ys) None" and dist: "distinct (xs @ i # ys)"
    and hd: "head_ok (list_of r l) (xs @ i # ys)" by (simp_all add: list_ok_def)
  from d have i: "i < length (nodes r)" "n_prev ?n = last_or xs None" "n_next ?n = hd_or ys None" "n_list ?n = l"
    by (auto simp: dll_append)
  have len: "\<And>k. last_or xs None = Some k \<Longrightarrow> k < length (nodes r)"
    "\<And>k. hd_or ys None = Some k \<Longrightarrow> k < length (nodes r)"
    using dll_node [OF d] by (auto simp: last_or_eq_Some hd_or_eq_Some)
  obtain h where h: "unlink_head (list_of r l) i ?n = (Ok h :: ('e, ListHead) result)" "head_ok h (xs @ ys)"
    using unlink_head_ok [OF hd dist i(2,3), where 'e = 'e] by blast
  let ?r' = "(list_mut l (\<lambda>_. h) r)\<lparr>nodes := detached (nodes r) i\<rparr>"
  have "detach r i = (Ok ?r' :: ('e, ArcReplacer) result)"
    using i len h(1) by (simp add: detach_def node_upd_opt_ok detached_def Let_def)
  moreover have "list_ok ?r' l (xs @ ys)"
    using dll_detached [OF d dist] dist h(2) by (simp add: list_ok_def)
  ultimately show ?thesis by (auto simp: same_rest_def)
qed


lemma relinked_detached:
  assumes "i < length ns"
  shows "relinked ({i} \<union> set_option (n_prev (ns ! i)) \<union> set_option (n_next (ns ! i))) ns (detached ns i)"
proof -
  have "n_page_id (detached ns i ! k) = n_page_id (ns ! k) \<and> n_frame_id (detached ns i ! k) = n_frame_id (ns ! k) \<and>
      n_evictable (detached ns i ! k) = n_evictable (ns ! k)" if "k < length ns" for k
    using that by (cases "k = i") (simp_all add: nth_detached nth_detached_self)
  moreover have "detached ns i ! k = ns ! k"
    if "k < length ns" "k \<noteq> i" "n_prev (ns ! i) \<noteq> Some k" "n_next (ns ! i) \<noteq> Some k" for k
    using that by (simp add: nth_detached)
  ultimately show ?thesis by (auto simp: relinked_def)
qed

definition pushed :: "Node list \<Rightarrow> nat \<Rightarrow> ArcList \<Rightarrow> nat option \<Rightarrow> Node list" where
  "pushed ns i l h = upd_opt h (\<lambda>n. n\<lparr>n_prev := Some i\<rparr>) (ns[i := (ns ! i)\<lparr>n_list := l, n_prev := None, n_next := h\<rparr>])"

lemma length_pushed [simp]: "length (pushed ns i l h) = length ns"
  by (simp add: pushed_def)

lemma nth_pushed:
  assumes "k < length ns" "i < length ns" "h \<noteq> Some i"
  shows "pushed ns i l h ! k = (if k = i then (ns ! i)\<lparr>n_list := l, n_prev := None, n_next := h\<rparr>
    else if h = Some k then (ns ! k)\<lparr>n_prev := Some i\<rparr> else ns ! k)"
  using assms by (simp add: pushed_def nth_upd_opt nth_list_update)

lemma link_head_ok: "head_ok h xs \<Longrightarrow> head_ok (link_head h i) (i # xs)"
  by (auto simp: head_ok_def link_head_def Let_def hd_or_def last_or_def)

lemma dll_pushed:
  assumes d: "dll ns l None xs None" "distinct xs" "i < length ns" "i \<notin> set xs"
  shows "dll (pushed ns i l (hd_or xs None)) l None (i # xs) None"
proof -
  have h: "hd_or xs None \<noteq> Some i" using d(4) by (auto simp: hd_or_eq_Some)
  have "dll (pushed ns i l (hd_or xs None)) l (Some i) xs None"
  proof (rule dll_retarget_prev [OF d(1,2)])
    fix k assume k: "k \<in> set xs"
    then have "k < length ns" "k \<noteq> i" "xs \<noteq> []" using dll_node [OF d(1)] d(4) by auto
    then show "n_list (pushed ns i l (hd_or xs None) ! k) = n_list (ns ! k) \<and>
        n_next (pushed ns i l (hd_or xs None) ! k) = n_next (ns ! k) \<and>
        n_prev (pushed ns i l (hd_or xs None) ! k) = (if k = hd xs then Some i else n_prev (ns ! k))"
      using nth_pushed [of k ns i] d(3) h by (simp add: hd_or_eq_Some)
  qed simp
  then show ?thesis using d h by (simp add: nth_pushed)
qed

lemma push_ok:
  assumes ok: "list_ok r l xs" and i: "i < length (nodes r)" "i \<notin> set xs"
  shows "\<exists>r'. push r i l = (Ok r' :: ('e, ArcReplacer) result) \<and> list_ok r' l (i # xs) \<and>
    nodes r' = pushed (nodes r) i l (hd_or xs None) \<and> same_rest r r' \<and>
    (\<forall>l'. l' \<noteq> l \<longrightarrow> list_of r' l' = list_of r l')"
proof -
  from ok have d: "dll (nodes r) l None xs None" "distinct xs" and hd: "head_ok (list_of r l) xs"
    by (simp_all add: list_ok_def)
  have mr: "most_recent (list_of r l) = hd_or xs None" using hd by (simp add: head_ok_def)
  have len: "\<And>k. hd_or xs None = Some k \<Longrightarrow> k < length (nodes r)"
    using dll_node [OF d(1)] by (auto simp: hd_or_eq_Some)
  let ?r' = "(list_mut l (\<lambda>head. link_head head i) r)\<lparr>nodes := pushed (nodes r) i l (hd_or xs None)\<rparr>"
  have "push r i l = (Ok ?r' :: ('e, ArcReplacer) result)"
    using i len by (simp add: push_def mr node_upd_opt_ok pushed_def Let_def)
  moreover have "list_ok ?r' l (i # xs)"
    using dll_pushed [OF d i] d(2) i(2) link_head_ok [OF hd] by (simp add: list_ok_def)
  ultimately show ?thesis by (auto simp: same_rest_def)
qed

lemma relinked_pushed:
  assumes "i < length ns" "h \<noteq> Some i"
  shows "relinked ({i} \<union> set_option h) ns (pushed ns i l h)"
  using assms by (auto simp: relinked_def nth_pushed)

definition spliced :: "Node list \<Rightarrow> nat \<Rightarrow> ArcList \<Rightarrow> nat \<Rightarrow> nat option \<Rightarrow> Node list" where
  "spliced ns i l m lr = upd_opt lr (\<lambda>n. n\<lparr>n_prev := Some i\<rparr>)
     (ns[m := (ns ! m)\<lparr>n_next := Some i\<rparr>, i := (ns ! i)\<lparr>n_list := l, n_prev := Some m, n_next := lr\<rparr>])"

lemma length_spliced [simp]: "length (spliced ns i l m lr) = length ns"
  by (simp add: spliced_def)

lemma nth_spliced:
  assumes "k < length ns" "i < length ns" "lr \<noteq> Some i" "m < length ns" "m \<noteq> i" "lr \<noteq> Some m"
  shows "spliced ns i l m lr ! k =
    (if k = i then (ns ! i)\<lparr>n_list := l, n_prev := Some m, n_next := lr\<rparr>
     else if k = m then (ns ! m)\<lparr>n_next := Some i\<rparr>
     else if lr = Some k then (ns ! k)\<lparr>n_prev := Some i\<rparr> else ns ! k)"
  using assms by (auto simp: spliced_def nth_upd_opt nth_list_update)

lemma relinked_spliced:
  assumes "i < length ns" "lr \<noteq> Some i" "m < length ns" "m \<noteq> i" "lr \<noteq> Some m"
  shows "relinked ({i, m} \<union> set_option lr) ns (spliced ns i l m lr)"
  using assms by (auto simp: relinked_def nth_spliced)

lemma dll_spliced:
  assumes d: "dll ns l None (xs @ [m] @ ys) None" and dist: "distinct (xs @ [m] @ ys)"
    and i: "i < length ns" "i \<notin> set (xs @ [m] @ ys)"
  shows "dll (spliced ns i l m (hd_or ys None)) l None (xs @ [m, i] @ ys) None"
proof -
  let ?ns = "spliced ns i l m (hd_or ys None)"
  from d have xs: "dll ns l None xs (Some m)" and m: "m < length ns" "n_list (ns ! m) = l"
      "n_prev (ns ! m) = last_or xs None" "n_next (ns ! m) = hd_or ys None" and ys: "dll ns l (Some m) ys None"
    by (auto simp: dll_append)
  have ne: "m \<noteq> i" "hd_or ys None \<noteq> Some i" "hd_or ys None \<noteq> Some m"
    using dist i by (auto simp: hd_or_eq_Some)
  note nth = nth_spliced [OF _ i(1) ne(2) m(1) ne(1,3)]
  have "dll ?ns l None xs (Some m)"
  proof (rule dll_cong [OF xs])
    fix k assume k: "k \<in> set xs"
    then have "k < length ns" "k \<noteq> i" "k \<noteq> m" "hd_or ys None \<noteq> Some k"
      using dll_node [OF xs k] dist i by (auto simp: hd_or_eq_Some disjoint_iff)
    then show "?ns ! k = ns ! k" by (simp add: nth)
  qed simp
  moreover have "dll ?ns l (Some i) ys None"
  proof (rule dll_retarget_prev [OF ys])
    fix k assume k: "k \<in> set ys"
    then have "k < length ns" "k \<noteq> i" "k \<noteq> m" "ys \<noteq> []" using dll_node [OF ys k] dist i by auto
    then show "n_list (?ns ! k) = n_list (ns ! k) \<and> n_next (?ns ! k) = n_next (ns ! k) \<and>
        n_prev (?ns ! k) = (if k = hd ys then Some i else n_prev (ns ! k))"
      by (simp add: nth hd_or_eq_Some)
  qed (use dist in auto)
  ultimately show ?thesis using m i ne by (simp add: dll_append nth)
qed

lemma insert_after_ok:
  assumes ok: "list_ok r l (xs @ [m] @ ys)" and i: "i < length (nodes r)" "i \<notin> set (xs @ [m] @ ys)"
  shows "\<exists>r'. insert_after r i l (Some m) = (Ok r' :: ('e, ArcReplacer) result) \<and>
    list_ok r' l (xs @ [m, i] @ ys) \<and> nodes r' = spliced (nodes r) i l m (hd_or ys None) \<and> same_rest r r' \<and>
    (\<forall>l'. l' \<noteq> l \<longrightarrow> list_of r' l' = list_of r l')"
proof -
  from ok have d: "dll (nodes r) l None (xs @ [m] @ ys) None" and dist: "distinct (xs @ [m] @ ys)"
    and hd: "head_ok (list_of r l) (xs @ [m] @ ys)" by (simp_all add: list_ok_def)
  from d have m: "m < length (nodes r)" "n_next (nodes r ! m) = hd_or ys None" by (auto simp: dll_append)
  have len: "\<And>k. hd_or ys None = Some k \<Longrightarrow> k < length (nodes r)"
    using dll_node [OF d] by (auto simp: hd_or_eq_Some)
  have ne: "m \<noteq> i" using i by auto
  define h where "h = (if ys = [] then (list_of r l)\<lparr>least_recent := Some i, lh_length := lh_length (list_of r l) + 1\<rparr>
    else (list_of r l)\<lparr>lh_length := lh_length (list_of r l) + 1\<rparr>)"
  have h: "head_ok h (xs @ [m, i] @ ys)"
    using hd by (auto simp: h_def head_ok_def hd_or_def last_or_def hd_append)
  let ?r' = "(list_mut l (\<lambda>_. h) r)\<lparr>nodes := spliced (nodes r) i l m (hd_or ys None)\<rparr>"
  have "insert_after r i l (Some m) = (Ok ?r' :: ('e, ArcReplacer) result)"
  proof (cases ys)
    case Nil
    then show ?thesis using m i ne
      by (cases l) (simp_all add: insert_after_def Let_def spliced_def h_def)
  next
    case (Cons y zs)
    then show ?thesis using m i ne len [of y]
      by (cases l) (simp_all add: insert_after_def Let_def spliced_def h_def)
  qed
  moreover have "list_ok ?r' l (xs @ [m, i] @ ys)"
    using dll_spliced [OF d dist i] dist i(2) h by (auto simp: list_ok_def)
  ultimately show ?thesis by (auto simp: same_rest_def)
qed


section \<open>All four lists\<close>

type_synonym index_lists = "ArcList \<Rightarrow> nat list"

definition tracked :: "index_lists \<Rightarrow> nat set" where
  "tracked L = (\<Union>l. set (L l))"

definition links_ok :: "ArcReplacer \<Rightarrow> index_lists \<Rightarrow> bool" where
  "links_ok r L \<longleftrightarrow> (\<forall>l. list_ok r l (L l))"

text \<open>The page, frame and flag of a node, which moving it between lists leaves alone.\<close>

definition payload :: "ArcReplacer \<Rightarrow> nat \<Rightarrow> PageId \<times> FrameId option \<times> bool" where
  "payload r k = (n_page_id (nodes r ! k), n_frame_id (nodes r ! k), n_evictable (nodes r ! k))"

definition same_payload :: "ArcReplacer \<Rightarrow> ArcReplacer \<Rightarrow> bool" where
  "same_payload r r' \<longleftrightarrow> length (nodes r') = length (nodes r) \<and> (\<forall>k<length (nodes r). payload r' k = payload r k)"

lemma links_ok_disjoint:
  assumes "links_ok r L" "i \<in> set (L l)" "i \<in> set (L l')"
  shows "l = l'"
  using assms list_ok_node [of r l "L l" i] list_ok_node [of r l' "L l'" i] by (auto simp: links_ok_def)

lemma links_ok_len: "links_ok r L \<Longrightarrow> i \<in> tracked L \<Longrightarrow> i < length (nodes r)"
  by (auto simp: links_ok_def tracked_def dest: list_ok_node)

lemma links_ok_list: "links_ok r L \<Longrightarrow> i \<in> set (L l) \<Longrightarrow> n_list (nodes r ! i) = l"
  by (auto simp: links_ok_def dest: list_ok_node)

lemma links_ok_distinct: "links_ok r L \<Longrightarrow> distinct (L l)"
  by (simp add: links_ok_def list_ok_def)

lemma links_ok_length: "links_ok r L \<Longrightarrow> lh_length (list_of r l) = length (L l)"
  by (simp add: links_ok_def list_ok_def head_ok_def)

lemma list_ok_eqI:
  assumes "list_ok r l xs" "\<And>l. list_of r' l = list_of r l" "length (nodes r') \<ge> length (nodes r)"
    "\<And>k. k \<in> set xs \<Longrightarrow> n_list (nodes r' ! k) = n_list (nodes r ! k) \<and>
       n_prev (nodes r' ! k) = n_prev (nodes r ! k) \<and> n_next (nodes r' ! k) = n_next (nodes r ! k)"
  shows "list_ok r' l xs"
  using assms dll_links_cong [of "nodes r" l None xs None "nodes r'"] by (simp add: list_ok_def)

lemma links_ok_eqI:
  assumes "links_ok r L" "\<And>l. list_of r' l = list_of r l" "length (nodes r') \<ge> length (nodes r)"
    "\<And>k. k < length (nodes r) \<Longrightarrow> n_list (nodes r' ! k) = n_list (nodes r ! k) \<and>
       n_prev (nodes r' ! k) = n_prev (nodes r ! k) \<and> n_next (nodes r' ! k) = n_next (nodes r ! k)"
  shows "links_ok r' L"
  unfolding links_ok_def
proof
  fix l
  have ok: "list_ok r l (L l)" using assms(1) by (simp add: links_ok_def)
  show "list_ok r' l (L l)"
  proof (rule list_ok_eqI [OF ok assms(2,3)])
    fix k assume "k \<in> set (L l)"
    then show "n_list (nodes r' ! k) = n_list (nodes r ! k) \<and> n_prev (nodes r' ! k) = n_prev (nodes r ! k) \<and>
        n_next (nodes r' ! k) = n_next (nodes r ! k)"
      using assms(4) list_ok_node [OF ok] by blast
  qed
qed

definition unlisted :: "index_lists \<Rightarrow> ArcList \<Rightarrow> nat \<Rightarrow> index_lists" where
  "unlisted L l i = L(l := remove1 i (L l))"

definition listed :: "index_lists \<Rightarrow> ArcList \<Rightarrow> nat \<Rightarrow> index_lists" where
  "listed L l i = L(l := i # L l)"

text \<open>What an operation that only relinks \<open>i\<close> and nodes of \<open>S\<close> guarantees.\<close>

definition relink_ok :: "nat set \<Rightarrow> ArcReplacer \<Rightarrow> ArcReplacer \<Rightarrow> index_lists \<Rightarrow> bool" where
  "relink_ok S r r' L' \<longleftrightarrow> links_ok r' L' \<and> same_payload r r' \<and> same_rest r r' \<and>
     (\<forall>k<length (nodes r). k \<notin> S \<longrightarrow> nodes r' ! k = nodes r ! k)"

lemma relinked_payload:
  "relinked S (nodes r) (nodes r') \<Longrightarrow> same_payload r r' \<and> (\<forall>k<length (nodes r). k \<notin> S \<longrightarrow> nodes r' ! k = nodes r ! k)"
  by (simp add: relinked_def same_payload_def payload_def)

lemma links_ok_upd:
  assumes L: "links_ok r L" and rel: "relinked S (nodes r) (nodes r')" and l: "list_ok r' l xs"
    and others: "\<forall>l'. l' \<noteq> l \<longrightarrow> list_of r' l' = list_of r l'" and S: "S \<inter> (\<Union>l'\<in>-{l}. set (L l')) = {}"
  shows "links_ok r' (L(l := xs))"
  unfolding links_ok_def
proof
  fix l'
  show "list_ok r' l' ((L(l := xs)) l')"
  proof (cases "l' = l")
    case False
    have ok: "list_ok r l' (L l')" using L by (simp add: links_ok_def)
    have "nodes r' ! k = nodes r ! k" if "k \<in> set (L l')" for k
      using rel S that False list_ok_node [OF ok that] by (auto simp: relinked_def)
    then have "list_ok r' l' (L l')"
      using others False rel by (intro list_ok_other [OF ok]) (auto simp: relinked_def)
    then show ?thesis using False by simp
  qed (simp add: l)
qed

lemma detach_links:
  assumes L: "links_ok r L" and i: "i \<in> set (L l)"
  shows "\<exists>r'. detach r i = (Ok r' :: ('e, ArcReplacer) result) \<and> relink_ok (tracked L) r r' (unlisted L l i)"
proof -
  have ok: "list_ok r l (L l)" using L by (simp add: links_ok_def)
  obtain xs ys where split: "L l = xs @ i # ys" "i \<notin> set xs"
    using split_list_first [OF i] by blast
  have rem: "remove1 i (L l) = xs @ ys" using split by (simp add: remove1_append)
  obtain r' where r': "detach r i = (Ok r' :: ('e, ArcReplacer) result)" "list_ok r' l (xs @ ys)"
      "nodes r' = detached (nodes r) i" "same_rest r r'" "\<forall>l'. l' \<noteq> l \<longrightarrow> list_of r' l' = list_of r l'"
    using detach_ok [of r l xs i ys, where 'e = 'e] ok split by auto
  let ?S = "{i} \<union> set_option (n_prev (nodes r ! i)) \<union> set_option (n_next (nodes r ! i))"
  have len: "i < length (nodes r)" using list_ok_node [OF ok i] by simp
  have rel: "relinked ?S (nodes r) (nodes r')" using relinked_detached [OF len] r'(3) by simp
  have "dll (nodes r) l None (xs @ i # ys) None" using ok split by (simp add: list_ok_def)
  then have S: "?S \<subseteq> set (L l)"
    using split by (auto simp: dll_append last_or_def hd_or_def split: if_splits)
  have "links_ok r' (L(l := xs @ ys))"
    using links_ok_upd [OF L rel r'(2,5)] S links_ok_disjoint [OF L] by fastforce
  moreover have "nodes r' ! k = nodes r ! k" if "k < length (nodes r)" "k \<notin> tracked L" for k
  proof -
    have "k \<notin> ?S" using S that by (auto simp: tracked_def)
    then show ?thesis using rel that by (simp add: relinked_def)
  qed
  ultimately show ?thesis
    using r' rem relinked_payload [OF rel] by (auto simp: relink_ok_def unlisted_def)
qed

lemma push_links:
  assumes L: "links_ok r L" and i: "i < length (nodes r)" "i \<notin> tracked L"
  shows "\<exists>r'. push r i l = (Ok r' :: ('e, ArcReplacer) result) \<and> relink_ok (insert i (tracked L)) r r' (listed L l i)"
proof -
  have ok: "list_ok r l (L l)" using L by (simp add: links_ok_def)
  have il: "i \<notin> set (L l)" using i by (auto simp: tracked_def)
  obtain r' where r': "push r i l = (Ok r' :: ('e, ArcReplacer) result)" "list_ok r' l (i # L l)"
      "nodes r' = pushed (nodes r) i l (hd_or (L l) None)" "same_rest r r'"
      "\<forall>l'. l' \<noteq> l \<longrightarrow> list_of r' l' = list_of r l'"
    using push_ok [OF ok i(1) il, where 'e = 'e] by auto
  have h: "hd_or (L l) None \<noteq> Some i" using il by (auto simp: hd_or_eq_Some)
  let ?S = "{i} \<union> set_option (hd_or (L l) None)"
  have rel: "relinked ?S (nodes r) (nodes r')" using relinked_pushed [OF i(1) h, of l] r'(3) by simp
  have S: "?S \<subseteq> insert i (set (L l))" by (auto simp: hd_or_def split: if_splits)
  have "links_ok r' (L(l := i # L l))"
    using links_ok_upd [OF L rel r'(2,5)] S links_ok_disjoint [OF L] i(2) by (fastforce simp: tracked_def)
  moreover have "nodes r' ! k = nodes r ! k" if "k < length (nodes r)" "k \<notin> insert i (tracked L)" for k
  proof -
    have "k \<notin> ?S" using S that by (auto simp: tracked_def)
    then show ?thesis using rel that by (simp add: relinked_def)
  qed
  ultimately show ?thesis
    using r' relinked_payload [OF rel] by (auto simp: relink_ok_def listed_def)
qed

end
