(* ===== verification/Replacer_Inv.thy ===== *)
theory Replacer_Inv
  imports Replacer_Lists
begin

text \<open>
  The invariant of the replacer: the links, the two hash maps, the free node slots, the
  evictable counter and the sizes ARC promises; and that each step of the operations keeps it.
\<close>


definition is_resident :: "ArcList \<Rightarrow> bool" where
  "is_resident l \<longleftrightarrow> l = Mru \<or> l = Mfu"

definition page_of :: "ArcReplacer \<Rightarrow> nat \<Rightarrow> PageId" where
  "page_of r i = fst (payload r i)"

definition frame_of :: "ArcReplacer \<Rightarrow> nat \<Rightarrow> FrameId option" where
  "frame_of r i = fst (snd (payload r i))"

definition flag_of :: "ArcReplacer \<Rightarrow> nat \<Rightarrow> bool" where
  "flag_of r i = snd (snd (payload r i))"

lemma payload_fields: "page_of r i = n_page_id (nodes r ! i)" "frame_of r i = n_frame_id (nodes r ! i)"
  "flag_of r i = n_evictable (nodes r ! i)"
  by (simp_all add: page_of_def frame_of_def flag_of_def payload_def)

definition pages_ok :: "ArcReplacer \<Rightarrow> index_lists \<Rightarrow> bool" where
  "pages_ok r L \<longleftrightarrow> (\<forall>p i. page_indices r p = Some i \<longleftrightarrow> i \<in> tracked L \<and> page_of r i = p)"

definition frames_ok :: "ArcReplacer \<Rightarrow> index_lists \<Rightarrow> bool" where
  "frames_ok r L \<longleftrightarrow> (\<forall>f i. frame_indices r f = Some i \<longleftrightarrow> i \<in> tracked L \<and> frame_of r i = Some f)"

definition roles_ok :: "ArcReplacer \<Rightarrow> index_lists \<Rightarrow> bool" where
  "roles_ok r L \<longleftrightarrow> (\<forall>l. \<forall>i \<in> set (L l).
     if is_resident l then frame_of r i \<noteq> None else frame_of r i = None \<and> \<not> flag_of r i)"

definition slots_free :: "ArcReplacer \<Rightarrow> index_lists \<Rightarrow> bool" where
  "slots_free r L \<longleftrightarrow> distinct (unused_node_indices r) \<and> set (unused_node_indices r) \<inter> tracked L = {} \<and>
     set (unused_node_indices r) \<union> tracked L = {..<length (nodes r)}"

definition flagged :: "ArcReplacer \<Rightarrow> index_lists \<Rightarrow> nat set" where
  "flagged r L = {i \<in> tracked L. flag_of r i}"

definition sizes_ok :: "nat \<Rightarrow> nat \<Rightarrow> index_lists \<Rightarrow> bool" where
  "sizes_ok cap target L \<longleftrightarrow> length (L Mru) + length (L Mfu) \<le> cap \<and>
     length (L Mru) + length (L GhostMru) \<le> cap \<and>
     length (L Mru) + length (L Mfu) + length (L GhostMru) + length (L GhostMfu) \<le> 2 * cap \<and> target \<le> cap"

definition arc_inv :: "ArcReplacer \<Rightarrow> index_lists \<Rightarrow> bool" where
  "arc_inv r L \<longleftrightarrow> links_ok r L \<and> pages_ok r L \<and> frames_ok r L \<and> roles_ok r L \<and> slots_free r L \<and>
     evictable_count r = card (flagged r L) \<and> sizes_ok (r_capacity r) (mru_target_size r) L"

lemma arc_inv_links [simp, intro]: "arc_inv r L \<Longrightarrow> links_ok r L"
  by (simp add: arc_inv_def)

lemma tracked_eq: "tracked L = set (L Mru) \<union> set (L Mfu) \<union> set (L GhostMru) \<union> set (L GhostMfu)"
proof -
  have "(\<exists>l. x \<in> set (L l)) \<longleftrightarrow> x \<in> set (L Mru) \<or> x \<in> set (L Mfu) \<or> x \<in> set (L GhostMru) \<or> x \<in> set (L GhostMfu)" for x
    by (metis ArcList.exhaust)
  then show ?thesis by (auto simp: tracked_def)
qed

lemma finite_tracked [simp]: "finite (tracked L)"
  by (simp add: tracked_eq)

lemma finite_flagged [simp]: "finite (flagged r L)"
  by (simp add: flagged_def)

section \<open>Moving a node\<close>

definition moved :: "index_lists \<Rightarrow> ArcList \<Rightarrow> nat \<Rightarrow> ArcList \<Rightarrow> index_lists" where
  "moved L l i l' = listed (unlisted L l i) l' i"

lemma tracked_unlisted:
  assumes "links_ok r L" "i \<in> set (L l)"
  shows "tracked (unlisted L l i) = tracked L - {i}"
proof -
  have "k \<in> set ((unlisted L l i) l') \<longleftrightarrow> k \<in> set (L l') \<and> k \<noteq> i" for k l'
    using links_ok_distinct [OF assms(1), of l] links_ok_disjoint [OF assms, of l']
    by (cases "l' = l") (auto simp: unlisted_def)
  then show ?thesis by (auto simp: tracked_def)
qed

lemma tracked_listed: "tracked (listed L l i) = insert i (tracked L)"
  by (auto simp: tracked_def listed_def split: if_splits)

lemma tracked_moved:
  "links_ok r L \<Longrightarrow> i \<in> set (L l) \<Longrightarrow> tracked (moved L l i l') = tracked L"
  using tracked_unlisted [of r L i l] by (simp add: moved_def tracked_listed) (auto simp: tracked_def)

lemma same_payload_trans: "same_payload r s \<Longrightarrow> same_payload s t \<Longrightarrow> same_payload r t"
  by (simp add: same_payload_def)

lemma same_rest_trans: "same_rest r s \<Longrightarrow> same_rest s t \<Longrightarrow> same_rest r t"
  by (simp add: same_rest_def)

lemma move_to_front_links:
  assumes L: "links_ok r L" and i: "i \<in> set (L l)"
  shows "\<exists>r'. move_to_front r i l' = (Ok r' :: ('e, ArcReplacer) result) \<and> relink_ok (tracked L) r r' (moved L l i l')"
proof -
  obtain s where s: "detach r i = (Ok s :: ('e, ArcReplacer) result)" "relink_ok (tracked L) r s (unlisted L l i)"
    using detach_links [OF L i, where 'e = 'e] by blast
  have len: "i < length (nodes r)" "i \<in> tracked L" using list_ok_node [of r l "L l" i] L i
    by (auto simp: links_ok_def tracked_def)
  have "links_ok s (unlisted L l i)" "i < length (nodes s)" "i \<notin> tracked (unlisted L l i)"
    using s(2) len tracked_unlisted [OF L i] by (simp_all add: relink_ok_def same_payload_def)
  from push_links [OF this, where 'e = 'e]
  obtain t where t: "push s i l' = (Ok t :: ('e, ArcReplacer) result)"
    "relink_ok (insert i (tracked (unlisted L l i))) s t (moved L l i l')"
    by (auto simp: moved_def)
  have "relink_ok (tracked L) r t (moved L l i l')"
    using s(2) t(2) tracked_unlisted [OF L i] len same_payload_trans [of r s t] same_rest_trans [of r s t]
    by (auto simp: relink_ok_def same_payload_def)
  then show ?thesis using s(1) t(1) by (auto simp: move_to_front_def)
qed

section \<open>Writing the payload of a node\<close>

definition set_node :: "ArcReplacer \<Rightarrow> nat \<Rightarrow> FrameId option \<Rightarrow> bool \<Rightarrow> ArcReplacer" where
  "set_node r i f e = r\<lparr>nodes := (nodes r)[i := (nodes r ! i)\<lparr>n_frame_id := f, n_evictable := e\<rparr>]\<rparr>"

lemma payload_set_node:
  assumes "i < length (nodes r)" "k < length (nodes r)"
  shows "payload (set_node r i f e) k = (if k = i then (page_of r i, f, e) else payload r k)"
  using assms by (simp add: payload_def set_node_def page_of_def nth_list_update)

lemma links_ok_set_node [simp]:
  assumes "links_ok r L" "i < length (nodes r)"
  shows "links_ok (set_node r i f e) L"
  using assms by (intro links_ok_eqI [OF assms(1)]) (simp_all add: set_node_def nth_list_update)

lemma links_ok_maps [simp]:
  "links_ok (r\<lparr>frame_indices := a\<rparr>) L = links_ok r L" "links_ok (r\<lparr>page_indices := b\<rparr>) L = links_ok r L"
  "links_ok (r\<lparr>evictable_count := c\<rparr>) L = links_ok r L" "links_ok (r\<lparr>mru_target_size := d\<rparr>) L = links_ok r L"
  "links_ok (r\<lparr>unused_node_indices := u\<rparr>) L = links_ok r L"
  by (simp_all add: links_ok_def list_ok_def)

lemma set_node_fields [simp]:
  "page_indices (set_node r i f e) = page_indices r" "frame_indices (set_node r i f e) = frame_indices r"
  "unused_node_indices (set_node r i f e) = unused_node_indices r" "r_capacity (set_node r i f e) = r_capacity r"
  "evictable_count (set_node r i f e) = evictable_count r" "mru_target_size (set_node r i f e) = mru_target_size r"
  "length (nodes (set_node r i f e)) = length (nodes r)" "list_of (set_node r i f e) l = list_of r l"
  by (simp_all add: set_node_def)

lemma payload_maps [simp]:
  "payload (r\<lparr>frame_indices := a\<rparr>) k = payload r k" "payload (r\<lparr>page_indices := b\<rparr>) k = payload r k"
  "payload (r\<lparr>evictable_count := c\<rparr>) k = payload r k" "payload (r\<lparr>mru_target_size := d\<rparr>) k = payload r k"
  "payload (r\<lparr>unused_node_indices := u\<rparr>) k = payload r k"
  by (simp_all add: payload_def)


lemma card_flag_update:
  assumes "finite T" "i \<in> T" "\<And>k. k \<in> T \<Longrightarrow> k \<noteq> i \<Longrightarrow> Q k = P k"
  shows "card {k \<in> T. Q k} = card {k \<in> T. P k} + (if Q i then 1 else 0) - (if P i then 1 else 0)"
proof -
  have Q: "{k \<in> T. Q k} = (if Q i then insert i {k \<in> T - {i}. P k} else {k \<in> T - {i}. P k})"
    using assms by auto
  have P: "{k \<in> T. P k} = (if P i then insert i {k \<in> T - {i}. P k} else {k \<in> T - {i}. P k})"
    using assms by auto
  have "finite {k \<in> T - {i}. P k}" "i \<notin> {k \<in> T - {i}. P k}" using assms(1) by auto
  then show ?thesis unfolding P Q by simp
qed

lemma card_flagged_pos: "i \<in> tracked L \<Longrightarrow> flag_of r i \<Longrightarrow> 0 < card (flagged r L)"
  by (auto simp: flagged_def card_gt_0_iff)

text \<open>Which node changed, and how, seen through the payloads.\<close>

definition repaid :: "ArcReplacer \<Rightarrow> nat \<Rightarrow> FrameId option \<Rightarrow> bool \<Rightarrow> ArcReplacer \<Rightarrow> bool" where
  "repaid r i f e r' \<longleftrightarrow> length (nodes r') = length (nodes r) \<and>
     (\<forall>k<length (nodes r). payload r' k = (if k = i then (page_of r i, f, e) else payload r k)) \<and>
     page_indices r' = page_indices r \<and> unused_node_indices r' = unused_node_indices r \<and>
     r_capacity r' = r_capacity r"

lemma repaid_fields:
  assumes "repaid r i f e r'" "k < length (nodes r)"
  shows "page_of r' k = page_of r k" "frame_of r' k = (if k = i then f else frame_of r k)"
    "flag_of r' k = (if k = i then e else flag_of r k)"
  using assms by (simp_all add: repaid_def page_of_def frame_of_def flag_of_def)

lemma arc_inv_repaidI:
  assumes inv: "arc_inv r L" and i: "i \<in> tracked L" and rep: "repaid r i f e r'"
    and links: "links_ok r' L'" and tr: "tracked L' = tracked L"
    and lists: "\<And>l k. k \<in> set (L' l) \<Longrightarrow> k \<noteq> i \<Longrightarrow> k \<in> set (L l)"
    and frames: "\<And>g. frame_indices r' g = (if f = Some g then Some i
        else if frame_of r i = Some g then None else frame_indices r g)"
    and fresh: "\<And>g k. f = Some g \<Longrightarrow> frame_indices r g = Some k \<Longrightarrow> k = i"
    and role: "\<And>l. i \<in> set (L' l) \<Longrightarrow> if is_resident l then f \<noteq> None else f = None \<and> \<not> e"
    and count: "evictable_count r' = evictable_count r + (if e then 1 else 0) - (if flag_of r i then 1 else 0)"
    and sizes: "sizes_ok (r_capacity r') (mru_target_size r') L'"
  shows "arc_inv r' L'"
proof -
  have len: "k < length (nodes r)" if "k \<in> tracked L" for k
    using links_ok_len [OF arc_inv_links [OF inv] that] .
  note fields = repaid_fields [OF rep len]
  have "pages_ok r' L'"
    using inv rep fields(1) by (auto simp: arc_inv_def pages_ok_def tr repaid_def)
  moreover have "frames_ok r' L'"
    unfolding frames_ok_def tr
  proof (intro allI)
    fix g k
    have F: "frame_indices r g = Some j \<longleftrightarrow> j \<in> tracked L \<and> frame_of r j = Some g" for j
      using inv by (simp add: arc_inv_def frames_ok_def)
    show "frame_indices r' g = Some k \<longleftrightarrow> k \<in> tracked L \<and> frame_of r' k = Some g"
    proof (cases "k = i")
      case True
      then show ?thesis using F [of i] i fields(2) [OF i] unfolding frames [of g] by auto
    next
      case False
      have "frame_indices r' g = Some k \<longleftrightarrow> frame_indices r g = Some k"
        using F [of i] i fresh [of g k] False unfolding frames [of g] by auto
      then show ?thesis using F [of k] fields(2) [of k] False by auto
    qed
  qed
  moreover have "roles_ok r' L'"
    unfolding roles_ok_def
  proof (intro allI ballI)
    fix l k assume k: "k \<in> set (L' l)"
    then have t: "k \<in> tracked L" using tr by (auto simp: tracked_def)
    show "if is_resident l then frame_of r' k \<noteq> None else frame_of r' k = None \<and> \<not> flag_of r' k"
    proof (cases "k = i")
      case True
      then show ?thesis using role [of l] k unfolding fields(2,3) [OF t] by simp
    next
      case False
      have "roles_ok r L" using inv by (simp add: arc_inv_def)
      then show ?thesis using lists [OF k False] False unfolding fields(2,3) [OF t] by (simp add: roles_ok_def)
    qed
  qed
  moreover have "slots_free r' L'"
    using inv rep by (simp add: arc_inv_def slots_free_def tr repaid_def)
  moreover have "evictable_count r' = card (flagged r' L')"
  proof -
    have "card (flagged r' L') = card {k \<in> tracked L. if k = i then e else flag_of r k}"
      using fields(3) by (intro arg_cong [where f = card]) (auto simp: flagged_def tr split: if_splits)
    also have "\<dots> = card (flagged r L) + (if e then 1 else 0) - (if flag_of r i then 1 else 0)"
      using card_flag_update [OF finite_tracked i, of "\<lambda>k. if k = i then e else flag_of r k" "flag_of r"]
      by (simp add: flagged_def)
    finally show ?thesis using inv count by (simp add: arc_inv_def)
  qed
  ultimately show ?thesis using links sizes by (simp add: arc_inv_def)
qed

lemma set_moved:
  assumes "links_ok r L" "i \<in> set (L l)"
  shows "k \<noteq> i \<Longrightarrow> k \<in> set (moved L l i l' m) \<longleftrightarrow> k \<in> set (L m)" "i \<in> set (moved L l i l' m) \<longleftrightarrow> m = l'"
proof -
  show "k \<noteq> i \<Longrightarrow> k \<in> set (moved L l i l' m) \<longleftrightarrow> k \<in> set (L m)"
    by (auto simp: moved_def listed_def unlisted_def)
  show "i \<in> set (moved L l i l' m) \<longleftrightarrow> m = l'"
    using links_ok_distinct [OF assms(1), of l] links_ok_disjoint [OF assms, of m]
    by (auto simp: moved_def listed_def unlisted_def split: if_splits)
qed

lemma length_moved:
  assumes "i \<in> set (L l)"
  shows "length (moved L l i l' m) = length (L m) - (if m = l then 1 else 0) + (if m = l' then 1 else 0)"
  using assms by (auto simp: moved_def listed_def unlisted_def length_remove1)

text \<open>Writing the payload of a tracked node and then moving it to the front of a list.\<close>

lemma repay_and_move:
  assumes inv: "arc_inv r L" and i: "i \<in> set (L l)"
    and r0: "links_ok r0 L" "repaid r i f e r0"
    and frames: "\<And>g. frame_indices r0 g = (if f = Some g then Some i
        else if frame_of r i = Some g then None else frame_indices r g)"
    and fresh: "\<And>g k. f = Some g \<Longrightarrow> frame_indices r g = Some k \<Longrightarrow> k = i"
    and role: "if is_resident l' then f \<noteq> None else f = None \<and> \<not> e"
    and count: "evictable_count r0 = evictable_count r + (if e then 1 else 0) - (if flag_of r i then 1 else 0)"
    and sizes: "sizes_ok (r_capacity r) (mru_target_size r0) (moved L l i l')"
  shows "\<exists>r'. move_to_front r0 i l' = (Ok r' :: ('e, ArcReplacer) result) \<and> arc_inv r' (moved L l i l') \<and>
    repaid r i f e r' \<and> frame_indices r' = frame_indices r0 \<and> mru_target_size r' = mru_target_size r0 \<and>
    evictable_count r' = evictable_count r0 \<and>
    (\<forall>k<length (nodes r). k \<notin> tracked L \<longrightarrow> nodes r' ! k = nodes r0 ! k)"
proof -
  have tr: "i \<in> tracked L" using i by (auto simp: tracked_def)
  obtain r' where r': "move_to_front r0 i l' = (Ok r' :: ('e, ArcReplacer) result)"
      "relink_ok (tracked L) r0 r' (moved L l i l')"
    using move_to_front_links [OF r0(1) i, where 'e = 'e] by blast
  have rep: "repaid r i f e r'"
    using r0(2) r'(2) by (simp add: repaid_def relink_ok_def same_payload_def same_rest_def)
  have same: "frame_indices r' = frame_indices r0" "mru_target_size r' = mru_target_size r0"
    "evictable_count r' = evictable_count r0" "r_capacity r' = r_capacity r"
    using r'(2) rep by (simp_all add: relink_ok_def same_rest_def repaid_def)
  note L = arc_inv_links [OF inv]
  have "arc_inv r' (moved L l i l')"
  proof (rule arc_inv_repaidI [OF inv tr rep])
    show "links_ok r' (moved L l i l')" using r'(2) by (simp add: relink_ok_def)
    show "tracked (moved L l i l') = tracked L" using tracked_moved [OF L i] .
    show "sizes_ok (r_capacity r') (mru_target_size r') (moved L l i l')" using sizes same by simp
  qed (use set_moved [OF L i] role frames count same fresh in \<open>auto split: if_splits\<close>)
  then show ?thesis using r' rep same r0(2) by (auto simp: relink_ok_def repaid_def)
qed


section \<open>Giving up a frame\<close>

fun ghost_of :: "ArcList \<Rightarrow> ArcList" where
  "ghost_of Mru = GhostMru"
| "ghost_of Mfu = GhostMfu"
| "ghost_of l = l"

lemma clear_evictable_ok:
  assumes "i < length (nodes r)" "flag_of r i \<Longrightarrow> 0 < evictable_count r"
  shows "clear_evictable r i = Ok ((set_node r i (frame_of r i) False)
    \<lparr>evictable_count := evictable_count r - (if flag_of r i then 1 else 0)\<rparr>)"
  using assms by (auto simp: clear_evictable_def set_node_def payload_fields)

lemma arc_inv_count: "arc_inv r L \<Longrightarrow> i \<in> tracked L \<Longrightarrow> flag_of r i \<Longrightarrow> 0 < evictable_count r"
  by (simp add: arc_inv_def card_flagged_pos)

lemma arc_inv_frame:
  assumes "arc_inv r L" "i \<in> tracked L" "frame_of r i = Some f"
  shows "frame_indices r f = Some i"
  using assms by (simp add: arc_inv_def frames_ok_def)

lemma roles_okD:
  assumes "arc_inv r L" "i \<in> set (L l)"
  shows "if is_resident l then frame_of r i \<noteq> None else frame_of r i = None \<and> \<not> flag_of r i"
  using assms unfolding arc_inv_def roles_ok_def by blast

lemma resident_frame:
  assumes "arc_inv r L" "i \<in> set (L l)" "is_resident l"
  shows "\<exists>f. frame_of r i = Some f"
  using roles_okD [OF assms(1,2)] assms(3) by auto

lemma frame_resident:
  assumes "arc_inv r L" "frame_indices r f = Some i"
  shows "\<exists>l. i \<in> set (L l) \<and> is_resident l \<and> frame_of r i = Some f"
proof -
  have F: "i \<in> tracked L" "frame_of r i = Some f" using assms by (simp_all add: arc_inv_def frames_ok_def)
  then obtain l where l: "i \<in> set (L l)" by (auto simp: tracked_def)
  have "is_resident l" using roles_okD [OF assms(1) l] F(2) by (auto split: if_splits)
  then show ?thesis using l F by blast
qed

lemma sizes_give_up:
  assumes "sizes_ok c t L" "i \<in> set (L l)" "is_resident l"
  shows "sizes_ok c t (moved L l i (ghost_of l))"
proof -
  obtain n where "length (L l) = Suc n" using assms(2) by (cases "L l") auto
  then show ?thesis
    using assms by (auto simp: is_resident_def sizes_ok_def length_moved)
qed

lemma give_up_frame_ok:
  assumes inv: "arc_inv r L" and i: "i \<in> set (L l)" and res: "is_resident l"
  shows "\<exists>r' f. frame_of r i = Some f \<and> give_up_frame r i = (Ok r' :: ('e, ArcReplacer) result) \<and>
    arc_inv r' (moved L l i (ghost_of l)) \<and> repaid r i None False r' \<and>
    frame_indices r' = (frame_indices r)(f := None) \<and> mru_target_size r' = mru_target_size r \<and>
    evictable_count r' = evictable_count r - (if flag_of r i then 1 else 0) \<and>
    (\<forall>k<length (nodes r). k \<notin> tracked L \<longrightarrow> nodes r' ! k = nodes r ! k)"
proof -
  note L = arc_inv_links [OF inv]
  have tr: "i \<in> tracked L" using i by (auto simp: tracked_def)
  have len: "i < length (nodes r)" using links_ok_len [OF L tr] .
  obtain f where f: "frame_of r i = Some f" using resident_frame [OF inv i res] by blast
  define c where "c = evictable_count r - (if flag_of r i then 1 else 0)"
  define r0 where "r0 = (set_node r i None False)\<lparr>frame_indices := (frame_indices r)(f := None), evictable_count := c\<rparr>"
  have pos: "flag_of r i \<Longrightarrow> 0 < evictable_count r" using arc_inv_count [OF inv tr] .
  have run: "give_up_frame r i = (move_to_front r0 i (ghost_of l) :: ('e, ArcReplacer) result)"
  proof -
    have "n_list (nodes r ! i) = l" using links_ok_list [OF L i] .
    then show ?thesis
      using len pos f res
      by (auto simp: give_up_frame_def is_resident_def clear_evictable_def payload_fields r0_def c_def set_node_def
          intro!: arg_cong [where f = "\<lambda>r. move_to_front r i _"] ArcReplacer.equality)
  qed
  have "\<exists>r'. move_to_front r0 i (ghost_of l) = (Ok r' :: ('e, ArcReplacer) result) \<and>
      arc_inv r' (moved L l i (ghost_of l)) \<and> repaid r i None False r' \<and> frame_indices r' = frame_indices r0 \<and>
      mru_target_size r' = mru_target_size r0 \<and> evictable_count r' = evictable_count r0 \<and>
      (\<forall>k<length (nodes r). k \<notin> tracked L \<longrightarrow> nodes r' ! k = nodes r0 ! k)"
  proof (rule repay_and_move [OF inv i])
    show "links_ok r0 L" using L len by (simp add: r0_def)
    show "repaid r i None False r0" using len by (simp add: repaid_def r0_def payload_set_node)
    show "if is_resident (ghost_of l) then None \<noteq> None else None = None \<and> \<not> False"
      using res by (auto simp: is_resident_def)
    show "sizes_ok (r_capacity r) (mru_target_size r0) (moved L l i (ghost_of l))"
      using sizes_give_up [of "r_capacity r" "mru_target_size r" L i l] i res inv by (simp add: arc_inv_def r0_def)
  qed (use f in \<open>auto simp: r0_def c_def\<close>)
  moreover have "nodes r0 ! k = nodes r ! k" if "k < length (nodes r)" "k \<notin> tracked L" for k
  proof -
    have "k \<noteq> i" using that tr by auto
    then show ?thesis by (simp add: r0_def set_node_def)
  qed
  ultimately show ?thesis using run f by (auto simp: r0_def c_def)
qed

section \<open>The frame an access claims\<close>

text \<open>The lists after \<open>take_frame_from_its_holder\<close>.\<close>

definition demoted :: "ArcReplacer \<Rightarrow> index_lists \<Rightarrow> FrameId \<Rightarrow> index_lists" where
  "demoted r L f = (case frame_indices r f of None \<Rightarrow> L
     | Some i \<Rightarrow> moved L (n_list (nodes r ! i)) i (ghost_of (n_list (nodes r ! i))))"

text \<open>The payloads after it: the holder, if any, has lost its frame and its flag.\<close>

definition robbed :: "ArcReplacer \<Rightarrow> FrameId \<Rightarrow> ArcReplacer \<Rightarrow> bool" where
  "robbed r f r' \<longleftrightarrow> length (nodes r') = length (nodes r) \<and>
     (\<forall>k<length (nodes r). payload r' k =
        (if frame_indices r f = Some k then (page_of r k, None, False) else payload r k)) \<and>
     page_indices r' = page_indices r \<and> unused_node_indices r' = unused_node_indices r \<and>
     r_capacity r' = r_capacity r \<and> mru_target_size r' = mru_target_size r \<and>
     frame_indices r' = (frame_indices r)(f := None)"

lemma take_frame_ok:
  assumes inv: "arc_inv r L"
  shows "\<exists>r'. take_frame_from_its_holder r f = (Ok (frame_indices r f \<noteq> None, r') :: ('e, bool \<times> ArcReplacer) result) \<and>
    arc_inv r' (demoted r L f) \<and> robbed r f r'"
proof (cases "frame_indices r f")
  case None
  then have "(frame_indices r)(f := None) = frame_indices r" by auto
  then show ?thesis using None inv by (auto simp: take_frame_from_its_holder_def demoted_def robbed_def)
next
  case (Some i)
  obtain l where l: "i \<in> set (L l)" "is_resident l" "frame_of r i = Some f"
    using frame_resident [OF inv Some] by blast
  have nl: "n_list (nodes r ! i) = l" using links_ok_list [OF arc_inv_links [OF inv] l(1)] .
  obtain r' where "give_up_frame r i = (Ok r' :: ('e, ArcReplacer) result)"
    "arc_inv r' (moved L l i (ghost_of l))" "repaid r i None False r'"
    "frame_indices r' = (frame_indices r)(f := None)" "mru_target_size r' = mru_target_size r"
    using give_up_frame_ok [OF inv l(1,2), where 'e = 'e] l(3) by auto
  then show ?thesis
    using Some nl by (auto simp: take_frame_from_its_holder_def demoted_def robbed_def repaid_def)
qed

end
