(* ===== verification/Replacer_Spec.thy ===== *)
theory Replacer_Spec
  imports Replacer_Inv
begin

text \<open>
  Adaptive replacement on plain lists, the contract the linked implementation refines: four lists of
  entries (page, frame, evictable flag), most recent first, with pages unique across them.
\<close>

section \<open>The abstract cache\<close>

type_synonym arc_entry = "PageId \<times> FrameId option \<times> bool"

record arc =
  arc_lists :: "ArcList \<Rightarrow> arc_entry list"
  arc_target :: nat
  arc_cap :: nat

abbreviation entry_page :: "arc_entry \<Rightarrow> PageId" where
  "entry_page x \<equiv> fst x"

abbreviation entry_frame :: "arc_entry \<Rightarrow> FrameId option" where
  "entry_frame x \<equiv> fst (snd x)"

abbreviation entry_flag :: "arc_entry \<Rightarrow> bool" where
  "entry_flag x \<equiv> snd (snd x)"

definition entries :: "arc \<Rightarrow> (ArcList \<times> arc_entry) list" where
  "entries a = concat (map (\<lambda>l. map (Pair l) (arc_lists a l)) [Mru, Mfu, GhostMru, GhostMfu])"

definition arc_drop :: "PageId \<Rightarrow> arc \<Rightarrow> arc" where
  "arc_drop p a = a\<lparr>arc_lists := (\<lambda>l. filter (\<lambda>x. entry_page x \<noteq> p) (arc_lists a l))\<rparr>"

definition arc_put :: "ArcList \<Rightarrow> arc_entry \<Rightarrow> arc \<Rightarrow> arc" where
  "arc_put l x a = a\<lparr>arc_lists := (arc_lists a)(l := x # arc_lists a l)\<rparr>"

definition arc_len :: "arc \<Rightarrow> ArcList \<Rightarrow> nat" where
  "arc_len a l = length (arc_lists a l)"

text \<open>The holder of a frame loses it: its page goes to the front of the ghost list of its list.\<close>

definition spec_demote :: "FrameId \<Rightarrow> arc \<Rightarrow> arc" where
  "spec_demote f a =
     (case find (\<lambda>(l, x). entry_frame x = Some f) (entries a) of
        None \<Rightarrow> a
      | Some (l, p, _) \<Rightarrow> arc_put (ghost_of l) (p, None, False) (arc_drop p a))"

definition spec_trim :: "arc \<Rightarrow> arc" where
  "spec_trim a =
     (let drop_last = (\<lambda>l. a\<lparr>arc_lists := (arc_lists a)(l := butlast (arc_lists a l))\<rparr>) in
      if arc_len a Mru + arc_len a GhostMru = arc_cap a then drop_last GhostMru
      else if arc_len a Mru + arc_len a GhostMru + arc_len a Mfu + arc_len a GhostMfu = 2 * arc_cap a
      then drop_last GhostMfu else a)"

text \<open>A ghost hit moves the target towards the list the page was evicted from.\<close>

definition spec_retarget :: "ArcList \<Rightarrow> arc \<Rightarrow> arc" where
  "spec_retarget l a =
     (let m = arc_len a GhostMru; n = arc_len a GhostMfu in
      if l = GhostMru then
        a\<lparr>arc_target := min (arc_target a + (if m \<ge> n then 1 else n div m)) (arc_cap a)\<rparr>
      else if l = GhostMfu then
        a\<lparr>arc_target := arc_target a - (if n \<ge> m then 1 else m div n)\<rparr>
      else a)"

definition spec_access :: "FrameId \<Rightarrow> PageId \<Rightarrow> arc \<Rightarrow> arc" where
  "spec_access f p a =
     (case find (\<lambda>(l, x). entry_page x = p) (entries a) of
        None \<Rightarrow> arc_put Mru (p, Some f, False) (spec_trim (spec_demote f a))
      | Some (l, _, g, e) \<Rightarrow>
          if is_resident l \<and> g = Some f then arc_put Mfu (p, g, e) (arc_drop p a)
          else arc_put Mfu (p, Some f, False) (arc_drop p (spec_demote f (spec_retarget l a))))"

definition spec_set_evictable :: "FrameId \<Rightarrow> bool \<Rightarrow> arc \<Rightarrow> arc" where
  "spec_set_evictable f v a = a\<lparr>arc_lists := (\<lambda>l. map (\<lambda>(p, g, e). (p, g, if g = Some f then v else e)) (arc_lists a l))\<rparr>"

definition spec_remove :: "PageId \<Rightarrow> arc \<Rightarrow> FrameId option \<times> arc" where
  "spec_remove p a =
     (case find (\<lambda>(l, x). entry_page x = p) (entries a) of
        None \<Rightarrow> (None, a)
      | Some (_, _, g, _) \<Rightarrow> (g, arc_drop p a))"

text \<open>The victim: the least recent evictable entry of the list that is over its share, else of the other.\<close>

definition spec_victim :: "arc \<Rightarrow> (ArcList \<times> arc_entry) option" where
  "spec_victim a =
     (let (x, y) = (if arc_len a Mru \<ge> arc_target a then (Mru, Mfu) else (Mfu, Mru));
          last_evictable = (\<lambda>l. map_option (Pair l) (find entry_flag (rev (arc_lists a l)))) in
      case last_evictable x of Some v \<Rightarrow> Some v | None \<Rightarrow> last_evictable y)"

definition spec_evict :: "arc \<Rightarrow> FrameId option \<times> arc" where
  "spec_evict a =
     (case spec_victim a of
        None \<Rightarrow> (None, a)
      | Some (l, p, g, _) \<Rightarrow> (g, arc_put (ghost_of l) (p, None, False) (arc_drop p a)))"

section \<open>The abstraction\<close>

definition abs_arc :: "ArcReplacer \<Rightarrow> index_lists \<Rightarrow> arc" where
  "abs_arc r L = \<lparr>arc_lists = (\<lambda>l. map (payload r) (L l)), arc_target = mru_target_size r, arc_cap = r_capacity r\<rparr>"

definition refines :: "ArcReplacer \<Rightarrow> arc \<Rightarrow> bool" where
  "refines r a \<longleftrightarrow> (\<exists>L. arc_inv r L \<and> a = abs_arc r L)"

lemma abs_arc_simps [simp]:
  "arc_lists (abs_arc r L) l = map (payload r) (L l)" "arc_target (abs_arc r L) = mru_target_size r"
  "arc_cap (abs_arc r L) = r_capacity r" "arc_len (abs_arc r L) l = length (L l)"
  by (simp_all add: abs_arc_def arc_len_def)

lemma payload_split: "payload r i = (page_of r i, frame_of r i, flag_of r i)"
  by (simp add: page_of_def frame_of_def flag_of_def)

lemma set_entries: "(l, x) \<in> set (entries (abs_arc r L)) \<longleftrightarrow> (\<exists>i \<in> set (L l). x = payload r i)"
  by (cases l) (auto simp: entries_def)

lemma find_unique:
  assumes "x \<in> set xs" "P x" "\<And>y. y \<in> set xs \<Longrightarrow> P y \<Longrightarrow> y = x"
  shows "find P xs = Some x"
proof -
  have "find P xs \<noteq> None" using assms(1,2) by (auto simp: find_None_iff)
  then obtain y where y: "find P xs = Some y" by auto
  then have "P y" "y \<in> set xs" by (auto simp: find_Some_iff)
  then show ?thesis using assms(3) y by simp
qed

lemma page_unique:
  assumes "arc_inv r L" "i \<in> tracked L" "j \<in> tracked L" "page_of r i = page_of r j"
  shows "i = j"
proof -
  have "page_indices r (page_of r i) = Some i" "page_indices r (page_of r i) = Some j"
    using assms by (simp_all add: arc_inv_def pages_ok_def)
  then show ?thesis by simp
qed

lemma find_page:
  assumes inv: "arc_inv r L" and i: "i \<in> set (L l)"
  shows "find (\<lambda>(l, x). entry_page x = page_of r i) (entries (abs_arc r L)) = Some (l, payload r i)"
proof (rule find_unique)
  show "(l, payload r i) \<in> set (entries (abs_arc r L))" using i by (auto simp: set_entries)
  show "case (l, payload r i) of (l, x) \<Rightarrow> entry_page x = page_of r i" by (simp add: page_of_def)
  fix y assume y: "y \<in> set (entries (abs_arc r L))" "case y of (l, x) \<Rightarrow> entry_page x = page_of r i"
  obtain m x where ym: "y = (m, x)" by (cases y)
  with y obtain j where j: "j \<in> set (L m)" "x = payload r j" "page_of r j = page_of r i"
    by (auto simp: set_entries page_of_def)
  have t: "j \<in> tracked L" "i \<in> tracked L" using i j by (auto simp: tracked_def)
  then have "j = i" using page_unique [OF inv] j(3) by blast
  moreover from this have "m = l" using links_ok_disjoint [OF arc_inv_links [OF inv] i] j(1) by blast
  ultimately show "y = (l, payload r i)" using ym j(2) by simp
qed

lemma find_page_none:
  assumes inv: "arc_inv r L" and p: "page_indices r p = None"
  shows "find (\<lambda>(l, x). entry_page x = p) (entries (abs_arc r L)) = None"
proof -
  have "page_of r i \<noteq> p" if "i \<in> tracked L" for i
    using inv p that unfolding arc_inv_def pages_ok_def by (metis option.distinct(1))
  then show ?thesis by (auto simp: find_None_iff set_entries tracked_def payload_split)
qed

lemma find_frame:
  assumes inv: "arc_inv r L" and i: "i \<in> set (L l)" and f: "frame_of r i = Some f"
  shows "find (\<lambda>(l, x). entry_frame x = Some f) (entries (abs_arc r L)) = Some (l, payload r i)"
proof (rule find_unique)
  show "(l, payload r i) \<in> set (entries (abs_arc r L))" using i by (auto simp: set_entries)
  show "case (l, payload r i) of (l, x) \<Rightarrow> entry_frame x = Some f" using f by (simp add: frame_of_def)
  fix y assume y: "y \<in> set (entries (abs_arc r L))" "case y of (l, x) \<Rightarrow> entry_frame x = Some f"
  obtain m x where ym: "y = (m, x)" by (cases y)
  with y obtain j where j: "j \<in> set (L m)" "x = payload r j" "frame_of r j = Some f"
    by (auto simp: set_entries frame_of_def)
  have "frame_indices r f = Some j" "frame_indices r f = Some i"
    using arc_inv_frame [OF inv] i j f by (auto simp: tracked_def)
  then have "j = i" by simp
  moreover from this have "m = l" using links_ok_disjoint [OF arc_inv_links [OF inv] i] j(1) by blast
  ultimately show "y = (l, payload r i)" using ym j(2) by simp
qed

lemma find_frame_none:
  assumes inv: "arc_inv r L" and f: "frame_indices r f = None"
  shows "find (\<lambda>(l, x). entry_frame x = Some f) (entries (abs_arc r L)) = None"
proof -
  have "frame_of r i \<noteq> Some f" if "i \<in> tracked L" for i
    using inv f that unfolding arc_inv_def frames_ok_def by (metis option.distinct(1))
  then have "entry_frame x \<noteq> Some f" if "(l, x) \<in> set (entries (abs_arc r L))" for l x
    using that unfolding set_entries frame_of_def tracked_def by blast
  then show ?thesis by (fastforce simp: find_None_iff)
qed


lemma arc_eqI:
  fixes a b :: arc
  assumes "\<And>l. arc_lists a l = arc_lists b l" "arc_target a = arc_target b" "arc_cap a = arc_cap b"
  shows "a = b"
  using assms by (intro arc.equality ext) auto

lemma map_remove1_page:
  assumes inv: "arc_inv r L" and i: "i \<in> set (L l)"
  shows "map (payload r) (unlisted L l i m) = filter (\<lambda>x. entry_page x \<noteq> page_of r i) (map (payload r) (L m))"
proof -
  have ti: "i \<in> tracked L" using i by (auto simp: tracked_def)
  have ne: "entry_page (payload r k) \<noteq> page_of r i \<longleftrightarrow> k \<noteq> i" if "k \<in> set (L m)" for k
    using that page_unique [OF inv _ ti, of k] by (auto simp: tracked_def page_of_def)
  have "unlisted L l i m = filter (\<lambda>k. k \<noteq> i) (L m)"
  proof (cases "m = l")
    case True
    then show ?thesis using links_ok_distinct [OF arc_inv_links [OF inv], of l]
      by (auto simp: unlisted_def distinct_remove1_removeAll removeAll_filter_not_eq intro!: filter_cong)
  next
    case False
    then have "i \<notin> set (L m)" using links_ok_disjoint [OF arc_inv_links [OF inv] i] by blast
    then have "filter (\<lambda>k. k \<noteq> i) (L m) = L m" by (intro filter_True) auto
    then show ?thesis using False by (simp add: unlisted_def)
  qed
  then show ?thesis using ne by (simp add: filter_map comp_def cong: filter_cong)
qed

lemma abs_moved:
  assumes inv: "arc_inv r L" and i: "i \<in> set (L l)" and rep: "repaid r i f e r'"
    and t: "mru_target_size r' = mru_target_size s" "r_capacity s = r_capacity r"
    and s: "\<And>k. payload s k = payload r k"
  shows "abs_arc r' (moved L l i l') = arc_put l' (page_of r i, f, e) (arc_drop (page_of r i) (abs_arc s L))"
proof -
  note L = arc_inv_links [OF inv]
  have ti: "i \<in> tracked L" using i by (auto simp: tracked_def)
  have len: "k < length (nodes r)" if "k \<in> tracked L" for k using links_ok_len [OF L that] .
  have pay: "payload r' k = payload r k" if "k \<in> set (unlisted L l i m)" for k m
  proof -
    have "k \<in> tracked L - {i}" using that tracked_unlisted [OF L i] by (auto simp: tracked_def)
    then show ?thesis using rep len by (auto simp: repaid_def)
  qed
  then have rest: "map (payload r') (unlisted L l i m) = filter (\<lambda>x. entry_page x \<noteq> page_of r i) (map (payload r) (L m))" for m
    using map_remove1_page [OF inv i, of m] by (simp cong: map_cong)
  have pi: "payload r' i = (page_of r i, f, e)" using rep len [OF ti] by (simp add: repaid_def)
  have ps: "payload s = payload r" using s by auto
  show ?thesis
  proof (rule arc_eqI)
    show "arc_lists (abs_arc r' (moved L l i l')) m =
        arc_lists (arc_put l' (page_of r i, f, e) (arc_drop (page_of r i) (abs_arc s L))) m" for m
      by (simp add: rest pi arc_put_def arc_drop_def moved_def listed_def ps)
  qed (use t rep in \<open>simp_all add: arc_put_def arc_drop_def repaid_def\<close>)
qed

lemma abs_demoted:
  assumes inv: "arc_inv r L" and rob: "robbed r f r'"
  shows "abs_arc r' (demoted r L f) = spec_demote f (abs_arc r L)"
proof (cases "frame_indices r f")
  case None
  have "payload r' k = payload r k" if "k \<in> tracked L" for k
    using rob None links_ok_len [OF arc_inv_links [OF inv] that] by (simp add: robbed_def)
  then have "map (payload r') (L m) = map (payload r) (L m)" for m by (auto simp: tracked_def)
  then have "abs_arc r' L = abs_arc r L" using rob by (intro arc_eqI) (simp_all add: robbed_def)
  then show ?thesis using None find_frame_none [OF inv None] by (simp add: demoted_def spec_demote_def)
next
  case (Some i)
  obtain l where l: "i \<in> set (L l)" "is_resident l" "frame_of r i = Some f"
    using frame_resident [OF inv Some] by blast
  have nl: "n_list (nodes r ! i) = l" using links_ok_list [OF arc_inv_links [OF inv] l(1)] .
  have "repaid r i None False r'" using rob Some by (auto simp: robbed_def repaid_def)
  from abs_moved [OF inv l(1) this, of r] rob
  show ?thesis using Some nl find_frame [OF inv l(1,3)]
    by (simp add: demoted_def spec_demote_def robbed_def payload_split)
qed

section \<open>Repeated accesses\<close>

lemma refinesI: "arc_inv r L \<Longrightarrow> a = abs_arc r L \<Longrightarrow> refines r a"
  by (auto simp: refines_def)

lemma sizes_to_mfu:
  assumes "sizes_ok c t L" "i \<in> set (L l)" "is_resident l"
  shows "sizes_ok c t (moved L l i Mfu)"
proof -
  obtain n where "length (L l) = Suc n" using assms(2) by (cases "L l") auto
  then show ?thesis using assms by (auto simp: is_resident_def sizes_ok_def length_moved)
qed

text \<open>A hit on a resident page that stays in its frame.\<close>

lemma hit_same_frame:
  assumes inv: "arc_inv r L" and i: "i \<in> set (L l)" "is_resident l"
  shows "\<exists>r'. move_to_front r i Mfu = (Ok r' :: ('e, ArcReplacer) result) \<and> arc_inv r' (moved L l i Mfu) \<and>
    abs_arc r' (moved L l i Mfu) =
      arc_put Mfu (page_of r i, frame_of r i, flag_of r i) (arc_drop (page_of r i) (abs_arc r L))"
proof -
  note L = arc_inv_links [OF inv]
  have tr: "i \<in> tracked L" using i by (auto simp: tracked_def)
  obtain f where f: "frame_of r i = Some f" using resident_frame [OF inv i] by blast
  have rep: "repaid r i (Some f) (flag_of r i) r"
    using f by (auto simp: repaid_def payload_split)
  have "\<exists>r'. move_to_front r i Mfu = (Ok r' :: ('e, ArcReplacer) result) \<and> arc_inv r' (moved L l i Mfu) \<and>
      repaid r i (Some f) (flag_of r i) r' \<and> frame_indices r' = frame_indices r \<and>
      mru_target_size r' = mru_target_size r \<and> evictable_count r' = evictable_count r \<and>
      (\<forall>k<length (nodes r). k \<notin> tracked L \<longrightarrow> nodes r' ! k = nodes r ! k)"
  proof (rule repay_and_move [OF inv i(1) L rep])
    show "sizes_ok (r_capacity r) (mru_target_size r) (moved L l i Mfu)"
      using sizes_to_mfu [of "r_capacity r" "mru_target_size r" L i l] i inv by (simp add: arc_inv_def)
    show "frame_indices r g = (if Some f = Some g then Some i else if frame_of r i = Some g then None
        else frame_indices r g)" for g
      using f arc_inv_frame [OF inv tr] by auto
    show "\<And>g k. Some f = Some g \<Longrightarrow> frame_indices r g = Some k \<Longrightarrow> k = i"
      using f arc_inv_frame [OF inv tr] by auto
    show "evictable_count r = evictable_count r + (if flag_of r i then 1 else 0) - (if flag_of r i then 1 else 0)"
      by simp
  qed (simp add: is_resident_def)
  then show ?thesis using abs_moved [OF inv i(1), of "Some f" "flag_of r i" _ r] f by auto
qed


lemma demoted_keeps:
  assumes inv: "arc_inv r L" and i: "i \<in> set (L l)" "frame_indices r f \<noteq> Some i"
  shows "i \<in> set (demoted r L f l)"
proof (cases "frame_indices r f")
  case (Some j)
  obtain m where m: "j \<in> set (L m)" using frame_resident [OF inv Some] by blast
  have "i \<noteq> j" using i(2) Some by auto
  then show ?thesis
    using set_moved(1) [OF arc_inv_links [OF inv] m, of i] i(1) Some
      links_ok_list [OF arc_inv_links [OF inv] m] by (simp add: demoted_def)
qed (use i in \<open>simp add: demoted_def\<close>)

lemma tracked_demoted: "arc_inv r L \<Longrightarrow> tracked (demoted r L f) = tracked L"
proof (cases "frame_indices r f")
  case (Some j)
  assume inv: "arc_inv r L"
  obtain m where m: "j \<in> set (L m)" using frame_resident [OF inv Some] by blast
  show ?thesis
    using tracked_moved [OF arc_inv_links [OF inv] m] Some links_ok_list [OF arc_inv_links [OF inv] m]
    by (simp add: demoted_def)
qed (simp add: demoted_def)

lemma robbed_fields:
  assumes "robbed r f r'" "k < length (nodes r)" "frame_indices r f \<noteq> Some k"
  shows "payload r' k = payload r k" "page_of r' k = page_of r k" "frame_of r' k = frame_of r k"
    "flag_of r' k = flag_of r k"
  using assms by (auto simp: robbed_def page_of_def frame_of_def flag_of_def)

text \<open>A page that takes over a frame nobody tracked holds any more, and moves to the front of MFU.\<close>

lemma claim_frame:
  assumes inv: "arc_inv r L" and i: "i \<in> set (L l)" and f: "frame_indices r f = None"
    and sizes: "sizes_ok (r_capacity r) (mru_target_size r) (moved L l i Mfu)"
    and r0: "links_ok r0 L" "repaid r i (Some f) False r0"
      "\<And>g. frame_indices r0 g = (if f = g then Some i else if frame_of r i = Some g then None else frame_indices r g)"
      "evictable_count r0 = evictable_count r - (if flag_of r i then 1 else 0)"
      "mru_target_size r0 = mru_target_size r"
  shows "\<exists>r'. move_to_front r0 i Mfu = (Ok r' :: ('e, ArcReplacer) result) \<and> arc_inv r' (moved L l i Mfu) \<and>
    abs_arc r' (moved L l i Mfu) = arc_put Mfu (page_of r i, Some f, False) (arc_drop (page_of r i) (abs_arc r L))"
proof -
  have "\<exists>r'. move_to_front r0 i Mfu = (Ok r' :: ('e, ArcReplacer) result) \<and> arc_inv r' (moved L l i Mfu) \<and>
      repaid r i (Some f) False r' \<and> frame_indices r' = frame_indices r0 \<and>
      mru_target_size r' = mru_target_size r0 \<and> evictable_count r' = evictable_count r0 \<and>
      (\<forall>k<length (nodes r). k \<notin> tracked L \<longrightarrow> nodes r' ! k = nodes r0 ! k)"
  proof (rule repay_and_move [OF inv i r0(1,2)])
    show "sizes_ok (r_capacity r) (mru_target_size r0) (moved L l i Mfu)" using sizes r0(5) by simp
  qed (use r0 f in \<open>auto simp: is_resident_def\<close>)
  then obtain r' where r': "move_to_front r0 i Mfu = (Ok r' :: ('e, ArcReplacer) result)" "arc_inv r' (moved L l i Mfu)"
      "repaid r i (Some f) False r'" "mru_target_size r' = mru_target_size r0" by blast
  have "abs_arc r' (moved L l i Mfu) = arc_put Mfu (page_of r i, Some f, False) (arc_drop (page_of r i) (abs_arc r L))"
    using r'(4) r0(5) by (intro abs_moved [OF inv i r'(3)]) simp_all
  then show ?thesis using r' by blast
qed

text \<open>A hit on a resident page that changes its frame.\<close>

lemma hit_new_frame:
  assumes inv: "arc_inv r L" and i: "i \<in> set (L l)" "is_resident l" and f: "frame_of r i \<noteq> Some f"
  shows "\<exists>r' L'. bindR (move_to_new_frame r i f) (\<lambda>r. move_to_front r i Mfu) = (Ok r' :: ('e, ArcReplacer) result) \<and>
    arc_inv r' L' \<and> abs_arc r' L' =
      arc_put Mfu (page_of r i, Some f, False) (arc_drop (page_of r i) (spec_demote f (abs_arc r L)))"
proof -
  have ti: "i \<in> tracked L" using i by (auto simp: tracked_def)
  have len: "i < length (nodes r)" using links_ok_len [OF arc_inv_links [OF inv] ti] .
  obtain s where s: "take_frame_from_its_holder r f = (Ok (frame_indices r f \<noteq> None, s) :: ('e, bool \<times> ArcReplacer) result)"
      "arc_inv s (demoted r L f)" "robbed r f s" using take_frame_ok [OF inv, of f, where 'e = 'e] by blast
  have nf: "frame_indices r f \<noteq> Some i"
    using f inv unfolding arc_inv_def frames_ok_def by blast
  have isl: "i \<in> set (demoted r L f l)" using demoted_keeps [OF inv i(1) nf] .
  have tis: "i \<in> tracked (demoted r L f)" using isl by (auto simp: tracked_def)
  note L = arc_inv_links [OF s(2)]
  have lens: "i < length (nodes s)" using links_ok_len [OF L tis] .
  have pay: "page_of s i = page_of r i" using robbed_fields [OF s(3) len nf] by simp
  obtain g where g: "frame_of s i = Some g" using resident_frame [OF s(2) isl i(2)] by blast
  have pos: "flag_of s i \<Longrightarrow> 0 < evictable_count s" using arc_inv_count [OF s(2) tis] .
  define s0 where "s0 = (set_node s i (Some f) False)
    \<lparr>evictable_count := evictable_count s - (if flag_of s i then 1 else 0),
     frame_indices := (frame_indices s)(g := None, f \<mapsto> i)\<rparr>"
  have run: "bindR (move_to_new_frame r i f) (\<lambda>r. move_to_front r i Mfu) = (move_to_front s0 i Mfu :: ('e, ArcReplacer) result)"
    using s(1) lens g pos
    by (auto simp: move_to_new_frame_def clear_evictable_def payload_fields s0_def set_node_def
        intro!: arg_cong [where f = "\<lambda>r. move_to_front r i _"] ArcReplacer.equality)
  have "\<exists>r'. move_to_front s0 i Mfu = (Ok r' :: ('e, ArcReplacer) result) \<and> arc_inv r' (moved (demoted r L f) l i Mfu) \<and>
      abs_arc r' (moved (demoted r L f) l i Mfu) =
        arc_put Mfu (page_of s i, Some f, False) (arc_drop (page_of s i) (abs_arc s (demoted r L f)))"
  proof (rule claim_frame [OF s(2) isl])
    show "frame_indices s f = None" using s(3) by (simp add: robbed_def)
    show "sizes_ok (r_capacity s) (mru_target_size s) (moved (demoted r L f) l i Mfu)"
      using sizes_to_mfu [of "r_capacity s" "mru_target_size s" "demoted r L f" i l] isl i(2) s(2) by (simp add: arc_inv_def)
    show "links_ok s0 (demoted r L f)" using L lens by (simp add: s0_def)
    show "repaid s i (Some f) False s0" using lens by (simp add: repaid_def s0_def payload_set_node)
  qed (use g in \<open>auto simp: s0_def\<close>)
  then show ?thesis using run abs_demoted [OF inv s(3)] pay by metis
qed


section \<open>Admissions\<close>

text \<open>The contract of an admission: the frame is already tracked or there is room for one more.\<close>

definition admissible :: "ArcReplacer \<Rightarrow> FrameId \<Rightarrow> bool" where
  "admissible r f \<longleftrightarrow> frame_indices r f \<noteq> None \<or> \<not> is_full r"

lemma is_full_iff: "arc_inv r L \<Longrightarrow> is_full r \<longleftrightarrow> r_capacity r \<le> length (L Mru) + length (L Mfu)"
  using links_ok_length [OF arc_inv_links, of r L Mru] links_ok_length [OF arc_inv_links, of r L Mfu]
  by (simp add: is_full_def)

lemma release_ok:
  assumes inv: "arc_inv r L" and adm: "admissible r f"
  shows "\<exists>s. release_frame_for_admission r f = (Ok s :: ('e, ArcReplacer) result) \<and> arc_inv s (demoted r L f) \<and>
    robbed r f s \<and> length (demoted r L f Mru) + length (demoted r L f Mfu) < r_capacity r"
proof -
  obtain s where s: "take_frame_from_its_holder r f = (Ok (frame_indices r f \<noteq> None, s) :: ('e, bool \<times> ArcReplacer) result)"
      "arc_inv s (demoted r L f)" "robbed r f s" using take_frame_ok [OF inv, of f, where 'e = 'e] by blast
  have cap: "r_capacity s = r_capacity r" using s(3) by (simp add: robbed_def)
  have room: "length (demoted r L f Mru) + length (demoted r L f Mfu) < r_capacity r"
  proof (cases "frame_indices r f")
    case None
    then show ?thesis using adm is_full_iff [OF inv] by (simp add: admissible_def demoted_def not_le)
  next
    case (Some i)
    obtain l where l: "i \<in> set (L l)" "is_resident l" using frame_resident [OF inv Some] by blast
    obtain n where n: "length (L l) = Suc n" using l(1) by (cases "L l") auto
    have "length (L Mru) + length (L Mfu) \<le> r_capacity r" using inv by (simp add: arc_inv_def sizes_ok_def)
    then show ?thesis using Some l n links_ok_list [OF arc_inv_links [OF inv] l(1)]
      by (auto simp: demoted_def length_moved is_resident_def)
  qed
  moreover have "frame_indices r f \<noteq> None \<or> \<not> is_full s"
    using is_full_iff [OF s(2)] room cap by simp
  ultimately show ?thesis using s by (auto simp: release_frame_for_admission_def assertR_def)
qed

lemma revive_ok:
  assumes inv: "arc_inv r L" and i: "i \<in> set (L l)" "\<not> is_resident l" and adm: "admissible r f"
  shows "\<exists>r' L'. revive_ghost r i f = (Ok r' :: ('e, ArcReplacer) result) \<and> arc_inv r' L' \<and>
    abs_arc r' L' = arc_put Mfu (page_of r i, Some f, False) (arc_drop (page_of r i) (spec_demote f (abs_arc r L)))"
proof -
  have ti: "i \<in> tracked L" using i by (auto simp: tracked_def)
  have len: "i < length (nodes r)" using links_ok_len [OF arc_inv_links [OF inv] ti] .
  obtain s where s: "release_frame_for_admission r f = (Ok s :: ('e, ArcReplacer) result)"
      "arc_inv s (demoted r L f)" "robbed r f s"
      "length (demoted r L f Mru) + length (demoted r L f Mfu) < r_capacity r"
    using release_ok [OF inv adm, where 'e = 'e] by blast
  have "frame_of r i = None" using roles_okD [OF inv i(1)] i(2) by simp
  then have nf: "frame_indices r f \<noteq> Some i" using inv unfolding arc_inv_def frames_ok_def by auto
  have isl: "i \<in> set (demoted r L f l)" using demoted_keeps [OF inv i(1) nf] .
  have tis: "i \<in> tracked (demoted r L f)" using isl by (auto simp: tracked_def)
  note L = arc_inv_links [OF s(2)]
  have lens: "i < length (nodes s)" using links_ok_len [OF L tis] .
  have pay: "page_of s i = page_of r i" using robbed_fields [OF s(3) len nf] by simp
  have gh: "frame_of s i = None" "\<not> flag_of s i" using roles_okD [OF s(2) isl] i(2) by simp_all
  define s0 where "s0 = (set_node s i (Some f) False)\<lparr>frame_indices := (frame_indices s)(f \<mapsto> i)\<rparr>"
  have run: "revive_ghost r i f = (move_to_front s0 i Mfu :: ('e, ArcReplacer) result)"
    using s(1) lens by (simp add: revive_ghost_def s0_def set_node_def)
  have "\<exists>r'. move_to_front s0 i Mfu = (Ok r' :: ('e, ArcReplacer) result) \<and> arc_inv r' (moved (demoted r L f) l i Mfu) \<and>
      abs_arc r' (moved (demoted r L f) l i Mfu) =
        arc_put Mfu (page_of s i, Some f, False) (arc_drop (page_of s i) (abs_arc s (demoted r L f)))"
  proof (rule claim_frame [OF s(2) isl])
    show "frame_indices s f = None" using s(3) by (simp add: robbed_def)
    obtain n where n: "length (demoted r L f l) = Suc n" using isl by (cases "demoted r L f l") auto
    have "r_capacity s = r_capacity r" using s(3) by (simp add: robbed_def)
    then show "sizes_ok (r_capacity s) (mru_target_size s) (moved (demoted r L f) l i Mfu)"
      using s(2,4) n i(2) isl
      by (cases l) (simp_all add: arc_inv_def sizes_ok_def length_moved is_resident_def)
    show "links_ok s0 (demoted r L f)" using L lens by (simp add: s0_def)
    show "repaid s i (Some f) False s0" using lens by (simp add: repaid_def s0_def payload_set_node)
  qed (use gh in \<open>auto simp: s0_def\<close>)
  then show ?thesis using run abs_demoted [OF inv s(3)] pay by metis
qed

lemma target_irrelevant [simp]:
  "pages_ok (r\<lparr>mru_target_size := t\<rparr>) L = pages_ok r L" "frames_ok (r\<lparr>mru_target_size := t\<rparr>) L = frames_ok r L"
  "roles_ok (r\<lparr>mru_target_size := t\<rparr>) L = roles_ok r L" "slots_free (r\<lparr>mru_target_size := t\<rparr>) L = slots_free r L"
  "flagged (r\<lparr>mru_target_size := t\<rparr>) L = flagged r L" "page_of (r\<lparr>mru_target_size := t\<rparr>) i = page_of r i"
  by (simp_all add: pages_ok_def frames_ok_def roles_ok_def slots_free_def flagged_def page_of_def frame_of_def flag_of_def)

lemma arc_inv_target:
  assumes "arc_inv r L" "t \<le> r_capacity r"
  shows "arc_inv (r\<lparr>mru_target_size := t\<rparr>) L"
  using assms by (simp add: arc_inv_def sizes_ok_def)

lemma record_repeat_access_ok:
  assumes inv: "arc_inv r L" and i: "i \<in> set (L l)" and adm: "is_resident l \<or> admissible r f"
  shows "\<exists>r' L'. record_repeat_access r i f p = (Ok r' :: ('e, ArcReplacer) result) \<and> arc_inv r' L' \<and>
    abs_arc r' L' = spec_access f (page_of r i) (abs_arc r L)"
proof -
  note L = arc_inv_links [OF inv]
  have ti: "i \<in> tracked L" using i by (auto simp: tracked_def)
  have len: "i < length (nodes r)" using links_ok_len [OF L ti] .
  have nl: "n_list (nodes r ! i) = l" using links_ok_list [OF L i] .
  have ll: "lh_length (mru_ghost_list r) = length (L GhostMru)" "lh_length (mfu_ghost_list r) = length (L GhostMfu)"
    using links_ok_length [OF L, of GhostMru] links_ok_length [OF L, of GhostMfu] by simp_all
  note find = find_page [OF inv i]
  consider (same) "is_resident l" "frame_of r i = Some f" | (new) "is_resident l" "frame_of r i \<noteq> Some f"
    | (gm) "l = GhostMru" | (gf) "l = GhostMfu" by (cases l) (auto simp: is_resident_def)
  then show ?thesis
  proof cases
    case same
    then have "record_repeat_access r i f p = (move_to_front r i Mfu :: ('e, ArcReplacer) result)"
      using len nl by (auto simp: record_repeat_access_def is_resident_def payload_fields Let_def)
    moreover have "spec_access f (page_of r i) (abs_arc r L) =
        arc_put Mfu (page_of r i, frame_of r i, flag_of r i) (arc_drop (page_of r i) (abs_arc r L))"
      using same find by (simp add: spec_access_def payload_split)
    ultimately show ?thesis using hit_same_frame [OF inv i same(1), where 'e = 'e] by metis
  next
    case new
    then have "record_repeat_access r i f p =
        (bindR (move_to_new_frame r i f) (\<lambda>r. move_to_front r i Mfu) :: ('e, ArcReplacer) result)"
      using len nl by (auto simp: record_repeat_access_def is_resident_def payload_fields Let_def)
    moreover have "spec_access f (page_of r i) (abs_arc r L) =
        arc_put Mfu (page_of r i, Some f, False) (arc_drop (page_of r i) (spec_demote f (abs_arc r L)))"
      using new find by (auto simp: spec_access_def payload_split spec_retarget_def is_resident_def)
    ultimately show ?thesis using hit_new_frame [OF inv i new, where 'e = 'e] by metis
  next
    case gm
    define t where "t = min (mru_target_size r + (if length (L GhostMru) \<ge> length (L GhostMfu) then 1
      else length (L GhostMfu) div length (L GhostMru))) (r_capacity r)"
    have inv': "arc_inv (r\<lparr>mru_target_size := t\<rparr>) L" using arc_inv_target [OF inv] by (simp add: t_def)
    have "length (L GhostMru) \<noteq> 0" using i gm by auto
    then have "record_repeat_access r i f p = (revive_ghost (r\<lparr>mru_target_size := t\<rparr>) i f :: ('e, ArcReplacer) result)"
      using len nl gm ll by (auto simp: record_repeat_access_def div_usize_def t_def Let_def)
    moreover have "spec_access f (page_of r i) (abs_arc r L) =
        arc_put Mfu (page_of r i, Some f, False) (arc_drop (page_of r i) (spec_demote f (abs_arc (r\<lparr>mru_target_size := t\<rparr>) L)))"
    proof -
      have "spec_retarget GhostMru (abs_arc r L) = abs_arc (r\<lparr>mru_target_size := t\<rparr>) L"
        by (intro arc_eqI) (simp_all add: spec_retarget_def t_def Let_def)
      then show ?thesis using gm find by (simp add: spec_access_def payload_split is_resident_def)
    qed
    moreover have "admissible (r\<lparr>mru_target_size := t\<rparr>) f"
      using adm gm by (simp add: admissible_def is_full_def is_resident_def)
    ultimately show ?thesis using revive_ok [OF inv', of i l f, where 'e = 'e] i gm
      by (simp add: is_resident_def)
  next
    case gf
    define t where "t = mru_target_size r - (if length (L GhostMfu) \<ge> length (L GhostMru) then 1
      else length (L GhostMru) div length (L GhostMfu))"
    have "mru_target_size r \<le> r_capacity r" using inv by (simp add: arc_inv_def sizes_ok_def)
    then have inv': "arc_inv (r\<lparr>mru_target_size := t\<rparr>) L" using arc_inv_target [OF inv, of t] by (simp add: t_def)
    have "length (L GhostMfu) \<noteq> 0" using i gf by auto
    then have "record_repeat_access r i f p = (revive_ghost (r\<lparr>mru_target_size := t\<rparr>) i f :: ('e, ArcReplacer) result)"
      using len nl gf ll by (auto simp: record_repeat_access_def div_usize_def t_def Let_def)
    moreover have "spec_access f (page_of r i) (abs_arc r L) =
        arc_put Mfu (page_of r i, Some f, False) (arc_drop (page_of r i) (spec_demote f (abs_arc (r\<lparr>mru_target_size := t\<rparr>) L)))"
    proof -
      have "spec_retarget GhostMfu (abs_arc r L) = abs_arc (r\<lparr>mru_target_size := t\<rparr>) L"
        by (intro arc_eqI) (simp_all add: spec_retarget_def t_def Let_def)
      then show ?thesis using gf find by (simp add: spec_access_def payload_split is_resident_def)
    qed
    moreover have "admissible (r\<lparr>mru_target_size := t\<rparr>) f"
      using adm gf by (simp add: admissible_def is_full_def is_resident_def)
    ultimately show ?thesis using revive_ok [OF inv', of i l f, where 'e = 'e] i gf
      by (simp add: is_resident_def)
  qed
qed


section \<open>Forgetting a node\<close>

lemma pages_okD: "arc_inv r L \<Longrightarrow> page_indices r p = Some k \<longleftrightarrow> k \<in> tracked L \<and> page_of r k = p"
  unfolding arc_inv_def pages_ok_def by blast

lemma frames_okD: "arc_inv r L \<Longrightarrow> frame_indices r f = Some k \<longleftrightarrow> k \<in> tracked L \<and> frame_of r k = Some f"
  unfolding arc_inv_def frames_ok_def by blast

lemma length_unlisted: "i \<in> set (L l) \<Longrightarrow> length (unlisted L l i m) = length (L m) - (if m = l then 1 else 0)"
  by (simp add: unlisted_def length_remove1)

lemma set_unlisted: "k \<in> set (unlisted L l i m) \<Longrightarrow> k \<in> set (L m)"
  using set_remove1_subset [of i "L l"] by (auto simp: unlisted_def split: if_splits)

text \<open>\<open>r'\<close> is \<open>r\<close> with node \<open>i\<close> forgotten and its slot handed to the free list.\<close>

definition forgotten :: "ArcReplacer \<Rightarrow> nat \<Rightarrow> ArcReplacer \<Rightarrow> bool" where
  "forgotten r i r' \<longleftrightarrow> length (nodes r') = length (nodes r) \<and>
     (\<forall>k<length (nodes r). k \<noteq> i \<longrightarrow> payload r' k = payload r k) \<and>
     page_indices r' = (page_indices r)(page_of r i := None) \<and>
     frame_indices r' = (case frame_of r i of None \<Rightarrow> frame_indices r | Some f \<Rightarrow> (frame_indices r)(f := None)) \<and>
     unused_node_indices r' = unused_node_indices r @ [i] \<and> r_capacity r' = r_capacity r \<and>
     mru_target_size r' = mru_target_size r \<and>
     evictable_count r' = evictable_count r - (if flag_of r i then 1 else 0)"

lemma forgotten_ok:
  assumes inv: "arc_inv r L" and i: "i \<in> set (L l)" and fg: "forgotten r i r'" and links: "links_ok r' (unlisted L l i)"
  shows "arc_inv r' (unlisted L l i)" "abs_arc r' (unlisted L l i) = arc_drop (page_of r i) (abs_arc r L)"
proof -
  let ?L = "unlisted L l i"
  note lk = arc_inv_links [OF inv]
  have ti: "i \<in> tracked L" using i by (auto simp: tracked_def)
  have tr: "tracked ?L = tracked L - {i}" using tracked_unlisted [OF lk i] .
  have len: "k < length (nodes r)" if "k \<in> tracked L" for k using links_ok_len [OF lk that] .
  have pay: "payload r' k = payload r k" if "k \<in> tracked L" "k \<noteq> i" for k
    using fg len [OF that(1)] that(2) by (simp add: forgotten_def)
  then have fields: "page_of r' k = page_of r k" "frame_of r' k = frame_of r k" "flag_of r' k = flag_of r k"
    if "k \<in> tracked L" "k \<noteq> i" for k using that by (simp_all add: page_of_def frame_of_def flag_of_def)
  have pi: "page_indices r' = (page_indices r)(page_of r i := None)"
    and fi: "frame_indices r' = (case frame_of r i of None \<Rightarrow> frame_indices r | Some f \<Rightarrow> (frame_indices r)(f := None))"
    and ui: "unused_node_indices r' = unused_node_indices r @ [i]" "length (nodes r') = length (nodes r)"
    and rest: "r_capacity r' = r_capacity r" "mru_target_size r' = mru_target_size r"
      "evictable_count r' = evictable_count r - (if flag_of r i then 1 else 0)"
    using fg by (simp_all add: forgotten_def)
  have inv_parts: "slots_free r L" "evictable_count r = card (flagged r L)"
    "sizes_ok (r_capacity r) (mru_target_size r) L" using inv by (simp_all add: arc_inv_def)
  have "pages_ok r' ?L"
    unfolding pages_ok_def tr
  proof (intro allI)
    fix p k
    show "page_indices r' p = Some k \<longleftrightarrow> k \<in> tracked L - {i} \<and> page_of r' k = p"
    proof (cases "k = i")
      case True
      then show ?thesis using pages_okD [OF inv, of p i] unfolding pi by auto
    next
      case False
      have "page_indices r' p = Some k \<longleftrightarrow> page_indices r p = Some k"
        using pages_okD [OF inv, of p i] ti False unfolding pi by auto
      then show ?thesis using pages_okD [OF inv, of p k] fields(1) [of k] False by auto
    qed
  qed
  moreover have "frames_ok r' ?L"
    unfolding frames_ok_def tr
  proof (intro allI)
    fix f k
    show "frame_indices r' f = Some k \<longleftrightarrow> k \<in> tracked L - {i} \<and> frame_of r' k = Some f"
    proof (cases "k = i")
      case True
      then show ?thesis using frames_okD [OF inv, of f i] unfolding fi by (auto split: option.splits)
    next
      case False
      have "frame_indices r' f = Some k \<longleftrightarrow> frame_indices r f = Some k"
        using frames_okD [OF inv, of f i] ti False unfolding fi by (auto split: option.splits)
      then show ?thesis using frames_okD [OF inv, of f k] fields(2) [of k] False by auto
    qed
  qed
  moreover have "roles_ok r' ?L"
    unfolding roles_ok_def
  proof (intro allI ballI)
    fix m k assume k: "k \<in> set (?L m)"
    then have "k \<in> tracked L - {i}" using tr by (auto simp: tracked_def)
    then have t: "k \<in> tracked L" "k \<noteq> i" by auto
    show "if is_resident m then frame_of r' k \<noteq> None else frame_of r' k = None \<and> \<not> flag_of r' k"
      using roles_okD [OF inv set_unlisted [OF k]] unfolding fields [OF t] .
  qed
  moreover have "slots_free r' ?L"
    using inv_parts(1) ti by (auto simp: slots_free_def tr ui)
  moreover have "evictable_count r' = card (flagged r' ?L)"
  proof -
    have eq: "flagged r' ?L = {k \<in> tracked L. if k = i then False else flag_of r k}"
      using fields(3) by (auto simp: flagged_def tr split: if_splits)
    show ?thesis
      using card_flag_update [OF finite_tracked ti, of "\<lambda>k. if k = i then False else flag_of r k" "flag_of r"] inv_parts(2)
      unfolding eq rest by (simp add: flagged_def)
  qed
  moreover have "sizes_ok (r_capacity r') (mru_target_size r') ?L"
    using inv_parts(3) length_unlisted [of i L l, OF i] by (auto simp: sizes_ok_def rest)
  ultimately show "arc_inv r' ?L" using links by (simp add: arc_inv_def)
  have "map (payload r') (?L m) = map (payload r) (?L m)" for m
  proof (rule map_cong [OF refl])
    fix k assume "k \<in> set (?L m)"
    then have "k \<in> tracked L - {i}" using tr by (auto simp: tracked_def)
    then show "payload r' k = payload r k" using pay by auto
  qed
  then show "abs_arc r' ?L = arc_drop (page_of r i) (abs_arc r L)"
    using map_remove1_page [OF inv i] by (intro arc_eqI) (simp_all add: arc_drop_def rest)
qed

lemma trim_ok:
  assumes inv: "arc_inv r L" and l: "L (GhostList_list g) \<noteq> []"
  shows "\<exists>r' L'. trim_ghost_tail r g = (Ok r' :: ('e, ArcReplacer) result) \<and> arc_inv r' L' \<and>
    L' = L(GhostList_list g := butlast (L (GhostList_list g))) \<and>
    page_indices r' = (page_indices r)(page_of r (last (L (GhostList_list g))) := None) \<and>
    frame_indices r' = frame_indices r \<and> r_capacity r' = r_capacity r \<and>
    abs_arc r' L' = (abs_arc r L)\<lparr>arc_lists := (arc_lists (abs_arc r L))
      (GhostList_list g := butlast (arc_lists (abs_arc r L) (GhostList_list g)))\<rparr>"
proof -
  let ?l = "GhostList_list g"
  define i where "i = last (L ?l)"
  have i: "i \<in> set (L ?l)" using l by (simp add: i_def)
  note lk = arc_inv_links [OF inv]
  have ti: "i \<in> tracked L" using i by (auto simp: tracked_def)
  have len: "i < length (nodes r)" using links_ok_len [OF lk ti] .
  have nr: "\<not> is_resident ?l" by (cases g) (simp_all add: is_resident_def)
  have gh: "frame_of r i = None" "\<not> flag_of r i" using roles_okD [OF inv i] nr by simp_all
  have lr: "least_recent (list_of r ?l) = Some i"
    using lk l by (simp add: links_ok_def list_ok_def head_ok_def last_or_def i_def)
  have but: "unlisted L ?l i = L(?l := butlast (L ?l))"
  proof -
    have "L ?l = butlast (L ?l) @ [i]" using l by (simp add: i_def)
    moreover have "distinct (L ?l)" using links_ok_distinct [OF lk] .
    ultimately have "remove1 i (L ?l) = butlast (L ?l)"
      by (metis append_Nil2 distinct_append distinct_remove1_removeAll empty_iff insert_iff list.set(1) list.simps(15)
          not_distinct_conv_prefix remove1.simps(2) remove1_append)
    then show ?thesis by (simp add: unlisted_def)
  qed
  obtain s where s: "detach r i = (Ok s :: ('e, ArcReplacer) result)" "relink_ok (tracked L) r s (unlisted L ?l i)"
    using detach_links [OF lk i, where 'e = 'e] by blast
  define r' where "r' = s\<lparr>page_indices := (page_indices s)(page_of r i := None), unused_node_indices := unused_node_indices s @ [i]\<rparr>"
  have run: "trim_ghost_tail r g = (Ok r' :: ('e, ArcReplacer) result)"
    using lr len gh s(1) by (simp add: trim_ghost_tail_def payload_fields r'_def)
  have fg: "forgotten r i r'"
    using s(2) gh by (auto simp: forgotten_def r'_def relink_ok_def same_payload_def same_rest_def)
  have "links_ok r' (unlisted L ?l i)" using s(2) by (simp add: r'_def relink_ok_def)
  note f = forgotten_ok [OF inv i fg this]
  have "abs_arc r' (unlisted L ?l i) = (abs_arc r L)\<lparr>arc_lists := (arc_lists (abs_arc r L))
      (?l := butlast (arc_lists (abs_arc r L) ?l))\<rparr>"
  proof (rule arc_eqI)
    fix m
    have "map (payload r') (unlisted L ?l i m) = map (payload r) (unlisted L ?l i m)"
      using f(2) map_remove1_page [OF inv i, of m] by (simp add: abs_arc_def arc_drop_def fun_eq_iff)
    then show "arc_lists (abs_arc r' (unlisted L ?l i)) m = arc_lists ((abs_arc r L)\<lparr>arc_lists := (arc_lists (abs_arc r L))
      (?l := butlast (arc_lists (abs_arc r L) ?l))\<rparr>) m"
      unfolding but by (simp add: map_butlast [symmetric])
  qed (use fg in \<open>simp_all add: forgotten_def\<close>)
  then show ?thesis using run f(1) fg gh(1) unfolding but forgotten_def by (auto simp: i_def)
qed


section \<open>First accesses\<close>

text \<open>What placing a new node does.\<close>

definition placed :: "ArcReplacer \<Rightarrow> index_lists \<Rightarrow> Node \<Rightarrow> nat \<Rightarrow> ArcReplacer \<Rightarrow> bool" where
  "placed r L n idx s \<longleftrightarrow> idx < length (nodes s) \<and> idx \<notin> tracked L \<and> nodes s ! idx = n \<and>
     (\<forall>k \<in> tracked L. nodes s ! k = nodes r ! k) \<and> length (nodes r) \<le> length (nodes s) \<and>
     (\<forall>l. list_of s l = list_of r l) \<and> page_indices s = page_indices r \<and> frame_indices s = frame_indices r \<and>
     r_capacity s = r_capacity r \<and> mru_target_size s = mru_target_size r \<and> evictable_count s = evictable_count r \<and>
     distinct (unused_node_indices s) \<and> set (unused_node_indices s) \<inter> insert idx (tracked L) = {} \<and>
     set (unused_node_indices s) \<union> insert idx (tracked L) = {..<length (nodes s)}"

lemma alloc_node_ok:
  assumes inv: "arc_inv r L"
  shows "\<exists>idx s. alloc_node r n = (Ok (idx, s) :: ('e, nat \<times> ArcReplacer) result) \<and> placed r L n idx s"
proof -
  have free: "distinct (unused_node_indices r)" "set (unused_node_indices r) \<inter> tracked L = {}"
    "set (unused_node_indices r) \<union> tracked L = {..<length (nodes r)}"
    using inv by (simp_all add: arc_inv_def slots_free_def)
  show ?thesis
  proof (cases "unused_node_indices r = []")
    case True
    define s where "s = r\<lparr>nodes := nodes r @ [n]\<rparr>"
    have tr: "tracked L = {..<length (nodes r)}" using True free(3) by simp
    have "alloc_node r n = (Ok (length (nodes r), s) :: ('e, nat \<times> ArcReplacer) result)"
      using True by (simp add: alloc_node_def s_def)
    moreover have "placed r L n (length (nodes r)) s"
      by (simp add: placed_def s_def nth_append tr True lessThan_Suc)
    ultimately show ?thesis by blast
  next
    case False
    define i where "i = last (unused_node_indices r)"
    have u: "unused_node_indices r = butlast (unused_node_indices r) @ [i]" using False by (simp add: i_def)
    have iu: "i \<in> set (unused_node_indices r)" using False by (simp add: i_def)
    have set_u: "set (unused_node_indices r) = insert i (set (butlast (unused_node_indices r)))"
      by (subst u) simp
    have d: "distinct (butlast (unused_node_indices r))" "i \<notin> set (butlast (unused_node_indices r))"
      using free(1) by (subst (asm) u; simp)+
    have i: "i < length (nodes r)" "i \<notin> tracked L" using iu free(2,3) by auto
    define s where "s = r\<lparr>unused_node_indices := butlast (unused_node_indices r), nodes := (nodes r)[i := n]\<rparr>"
    have run: "alloc_node r n = (Ok (i, s) :: ('e, nat \<times> ArcReplacer) result)"
      using False i(1) by (simp add: alloc_node_def s_def Let_def flip: i_def)
    have "\<forall>k \<in> tracked L. nodes s ! k = nodes r ! k"
    proof
      fix k assume "k \<in> tracked L"
      then have "k \<noteq> i" using i(2) by auto
      then show "nodes s ! k = nodes r ! k" by (simp add: s_def)
    qed
    moreover have "set (butlast (unused_node_indices r)) \<union> insert i (tracked L) = {..<length (nodes r)}"
      using free(3) set_u by auto
    moreover have "set (butlast (unused_node_indices r)) \<inter> insert i (tracked L) = {}"
      using free(2) set_u d(2) by auto
    ultimately have "placed r L n i s" using i d by (simp add: placed_def s_def)
    then show ?thesis using run by blast
  qed
qed

lemma admit_ok:
  assumes inv: "arc_inv r L" and p: "page_indices r p = None" and f: "frame_indices r f = None"
    and sizes: "sizes_ok (r_capacity r) (mru_target_size r) (L(Mru := x # L Mru))"
  shows "\<exists>r' L'. bindR (alloc_node r \<lparr>n_page_id = p, n_frame_id = Some f, n_evictable = False, n_list = Mru,
        n_next = None, n_prev = None\<rparr>) (\<lambda>(idx, r). push (r\<lparr>page_indices := (page_indices r)(p \<mapsto> idx),
        frame_indices := (frame_indices r)(f \<mapsto> idx)\<rparr>) idx Mru) = (Ok r' :: ('e, ArcReplacer) result) \<and>
    arc_inv r' L' \<and> abs_arc r' L' = arc_put Mru (p, Some f, False) (abs_arc r L)"
proof -
  let ?n = "\<lparr>n_page_id = p, n_frame_id = Some f, n_evictable = False, n_list = Mru, n_next = None, n_prev = None\<rparr>"
  obtain i s where s: "alloc_node r ?n = (Ok (i, s) :: ('e, nat \<times> ArcReplacer) result)" "placed r L ?n i s"
    using alloc_node_ok [OF inv, of ?n, where 'e = 'e] by blast
  define s0 where "s0 = s\<lparr>page_indices := (page_indices s)(p \<mapsto> i), frame_indices := (frame_indices s)(f \<mapsto> i)\<rparr>"
  note lk = arc_inv_links [OF inv]
  have s_lk: "links_ok s L"
    unfolding links_ok_def
  proof
    fix l
    have ok: "list_ok r l (L l)" using lk by (simp add: links_ok_def)
    show "list_ok s l (L l)"
    proof (rule list_ok_other [OF ok])
      fix k assume "k \<in> set (L l)"
      then have "k \<in> tracked L" by (auto simp: tracked_def)
      then show "nodes s ! k = nodes r ! k" using s(2) by (simp add: placed_def)
    qed (use s(2) in \<open>simp_all add: placed_def\<close>)
  qed
  have i: "i < length (nodes s0)" "i \<notin> tracked L" using s(2) by (simp_all add: placed_def s0_def)
  have "links_ok s0 L" using s_lk by (simp add: s0_def)
  then obtain r' where r': "push s0 i Mru = (Ok r' :: ('e, ArcReplacer) result)"
      "relink_ok (insert i (tracked L)) s0 r' (listed L Mru i)"
    using push_links [OF _ i, of Mru, where 'e = 'e] by blast
  let ?L = "listed L Mru i"
  have tr: "tracked ?L = insert i (tracked L)" by (rule tracked_listed)
  have len: "k < length (nodes s0)" if "k \<in> tracked L" for k
    using links_ok_len [OF s_lk that] by (simp add: s0_def)
  have pay: "payload r' k = payload r k" if "k \<in> tracked L" for k
  proof -
    have "payload r' k = payload s0 k" using r'(2) len [OF that] by (simp add: relink_ok_def same_payload_def)
    also have "\<dots> = payload r k" using s(2) that by (simp add: s0_def payload_def placed_def)
    finally show ?thesis .
  qed
  have pi: "payload r' i = (p, Some f, False)"
  proof -
    have "payload r' i = payload s0 i" using r'(2) i(1) by (simp add: relink_ok_def same_payload_def)
    also have "\<dots> = (p, Some f, False)" using s(2) by (simp add: s0_def payload_def placed_def)
    finally show ?thesis .
  qed
  have fields: "page_of r' k = page_of r k" "frame_of r' k = frame_of r k" "flag_of r' k = flag_of r k"
    if "k \<in> tracked L" for k using pay [OF that] by (simp_all add: page_of_def frame_of_def flag_of_def)
  have fields_i: "page_of r' i = p" "frame_of r' i = Some f" "\<not> flag_of r' i"
    using pi by (simp_all add: page_of_def frame_of_def flag_of_def)
  have rest: "page_indices r' = (page_indices r)(p \<mapsto> i)" "frame_indices r' = (frame_indices r)(f \<mapsto> i)"
    "unused_node_indices r' = unused_node_indices s" "r_capacity r' = r_capacity r"
    "mru_target_size r' = mru_target_size r" "evictable_count r' = evictable_count r" "length (nodes r') = length (nodes s)"
    using r'(2) s(2) by (simp_all add: relink_ok_def same_rest_def same_payload_def placed_def s0_def)
  have "pages_ok r' ?L"
    unfolding pages_ok_def tr
  proof (intro allI)
    fix q k
    show "page_indices r' q = Some k \<longleftrightarrow> k \<in> insert i (tracked L) \<and> page_of r' k = q"
      using pages_okD [OF inv, of q k] p fields(1) [of k] fields_i(1) i(2) unfolding rest(1)
      by (cases "k = i"; cases "q = p") auto
  qed
  moreover have "frames_ok r' ?L"
    unfolding frames_ok_def tr
  proof (intro allI)
    fix g k
    show "frame_indices r' g = Some k \<longleftrightarrow> k \<in> insert i (tracked L) \<and> frame_of r' k = Some g"
      using frames_okD [OF inv, of g k] f fields(2) [of k] fields_i(2) i(2) unfolding rest(2)
      by (cases "k = i"; cases "g = f") auto
  qed
  moreover have "roles_ok r' ?L"
    unfolding roles_ok_def
  proof (intro allI ballI)
    fix l k assume k: "k \<in> set (?L l)"
    show "if is_resident l then frame_of r' k \<noteq> None else frame_of r' k = None \<and> \<not> flag_of r' k"
    proof (cases "k = i")
      case True
      then have "l = Mru" using k i(2) by (auto simp: listed_def tracked_def split: if_splits)
      then show ?thesis using True fields_i by (simp add: is_resident_def)
    next
      case False
      then have k': "k \<in> set (L l)" using k by (auto simp: listed_def split: if_splits)
      then have t: "k \<in> tracked L" by (auto simp: tracked_def)
      show ?thesis using roles_okD [OF inv k'] unfolding fields [OF t] .
    qed
  qed
  moreover have "slots_free r' ?L" using s(2) by (simp add: slots_free_def tr rest placed_def)
  moreover have "evictable_count r' = card (flagged r' ?L)"
  proof -
    have "flagged r' ?L = flagged r L" using fields(3) fields_i(3) by (auto simp: flagged_def tr)
    then show ?thesis using inv rest(6) by (simp add: arc_inv_def)
  qed
  moreover have "sizes_ok (r_capacity r') (mru_target_size r') ?L"
    using sizes by (simp add: sizes_ok_def rest listed_def)
  ultimately have "arc_inv r' ?L" using r'(2) by (simp add: arc_inv_def relink_ok_def)
  moreover have "abs_arc r' ?L = arc_put Mru (p, Some f, False) (abs_arc r L)"
  proof (rule arc_eqI)
    fix m
    have "map (payload r') (L m) = map (payload r) (L m)" using pay by (auto simp: tracked_def)
    then show "arc_lists (abs_arc r' ?L) m = arc_lists (arc_put Mru (p, Some f, False) (abs_arc r L)) m"
      using pi by (auto simp: arc_put_def listed_def)
  qed (simp_all add: arc_put_def rest)
  ultimately show ?thesis using s(1) r'(1) by (auto simp: s0_def)
qed


definition trim_stage :: "ArcReplacer \<Rightarrow> index_lists \<Rightarrow> ('e, ArcReplacer) result" where
  "trim_stage s L = (if length (L Mru) + length (L GhostMru) = r_capacity s then trim_ghost_tail s GhostListMru
     else if length (L Mru) + length (L GhostMru) + length (L Mfu) + length (L GhostMfu) = 2 * r_capacity s
     then trim_ghost_tail s GhostListMfu else Ok s)"

text \<open>After the ghost tail is trimmed there is room for one more page on the MRU list.\<close>

definition has_room :: "ArcReplacer \<Rightarrow> index_lists \<Rightarrow> bool" where
  "has_room t L \<longleftrightarrow> length (L Mru) + length (L Mfu) < r_capacity t \<and>
     length (L Mru) + length (L GhostMru) < r_capacity t \<and>
     length (L Mru) + length (L Mfu) + length (L GhostMru) + length (L GhostMfu) < 2 * r_capacity t"

lemma trim_stage_ok:
  assumes inv: "arc_inv s L" and room: "length (L Mru) + length (L Mfu) < r_capacity s"
  shows "\<exists>t L'. trim_stage s L = (Ok t :: ('e, ArcReplacer) result) \<and> arc_inv t L' \<and>
    (\<forall>q. page_indices s q = None \<longrightarrow> page_indices t q = None) \<and> frame_indices t = frame_indices s \<and>
    abs_arc t L' = spec_trim (abs_arc s L) \<and> has_room t L'"
proof -
  have trim: "\<exists>t L'. trim_ghost_tail s g = (Ok t :: ('e, ArcReplacer) result) \<and> arc_inv t L' \<and>
      (\<forall>q. page_indices s q = None \<longrightarrow> page_indices t q = None) \<and> frame_indices t = frame_indices s \<and>
      abs_arc t L' = (abs_arc s L)\<lparr>arc_lists := (arc_lists (abs_arc s L))
        (GhostList_list g := butlast (arc_lists (abs_arc s L) (GhostList_list g)))\<rparr> \<and>
      L' = L(GhostList_list g := butlast (L (GhostList_list g))) \<and> r_capacity t = r_capacity s"
    if "L (GhostList_list g) \<noteq> []" for g
  proof -
    note ne = that
    obtain t L' where t: "trim_ghost_tail s g = (Ok t :: ('e, ArcReplacer) result)" "arc_inv t L'"
        "L' = L(GhostList_list g := butlast (L (GhostList_list g)))"
        "page_indices t = (page_indices s)(page_of s (last (L (GhostList_list g))) := None)"
        "frame_indices t = frame_indices s" "r_capacity t = r_capacity s"
        "abs_arc t L' = (abs_arc s L)\<lparr>arc_lists := (arc_lists (abs_arc s L))
          (GhostList_list g := butlast (arc_lists (abs_arc s L) (GhostList_list g)))\<rparr>"
      using trim_ok [OF inv ne, where 'e = 'e] by blast
    have "\<forall>q. page_indices s q = None \<longrightarrow> page_indices t q = None" by (simp add: t(4))
    then show ?thesis using t by blast
  qed
  have sz: "sizes_ok (r_capacity s) (mru_target_size s) L" using inv by (simp add: arc_inv_def)
  consider (m) "length (L Mru) + length (L GhostMru) = r_capacity s"
    | (f) "length (L Mru) + length (L GhostMru) < r_capacity s"
        "length (L Mru) + length (L GhostMru) + length (L Mfu) + length (L GhostMfu) = 2 * r_capacity s"
    | (n) "length (L Mru) + length (L GhostMru) < r_capacity s"
        "length (L Mru) + length (L GhostMru) + length (L Mfu) + length (L GhostMfu) < 2 * r_capacity s"
    using sz unfolding sizes_ok_def by linarith
  then show ?thesis
  proof cases
    case m
    have ne: "L GhostMru \<noteq> []" using m room by auto
    then obtain k where k: "length (L GhostMru) = Suc k" by (cases "L GhostMru") auto
    have "spec_trim (abs_arc s L) = (abs_arc s L)\<lparr>arc_lists := (arc_lists (abs_arc s L))
        (GhostMru := butlast (arc_lists (abs_arc s L) GhostMru))\<rparr>" using m by (simp add: spec_trim_def Let_def)
    moreover have "has_room t L'" if "L' = L(GhostMru := butlast (L GhostMru))" "r_capacity t = r_capacity s" for t L'
      using that m k room sz by (simp add: has_room_def sizes_ok_def)
    moreover have "trim_stage s L = (trim_ghost_tail s GhostListMru :: ('e, ArcReplacer) result)"
      using m by (simp add: trim_stage_def)
    ultimately show ?thesis using trim [of GhostListMru] ne by auto
  next
    case f
    have ne: "L GhostMfu \<noteq> []" using f room by auto
    then obtain k where k: "length (L GhostMfu) = Suc k" by (cases "L GhostMfu") auto
    have "spec_trim (abs_arc s L) = (abs_arc s L)\<lparr>arc_lists := (arc_lists (abs_arc s L))
        (GhostMfu := butlast (arc_lists (abs_arc s L) GhostMfu))\<rparr>" using f by (simp add: spec_trim_def Let_def)
    moreover have "has_room t L'" if "L' = L(GhostMfu := butlast (L GhostMfu))" "r_capacity t = r_capacity s" for t L'
      using that f k room by (simp add: has_room_def)
    moreover have "trim_stage s L = (trim_ghost_tail s GhostListMfu :: ('e, ArcReplacer) result)"
      using f by (simp add: trim_stage_def)
    ultimately show ?thesis using trim [of GhostListMfu] ne by auto
  next
    case n
    then have "has_room s L" "spec_trim (abs_arc s L) = abs_arc s L" "trim_stage s L = (Ok s :: ('e, ArcReplacer) result)"
      using room by (simp_all add: has_room_def spec_trim_def Let_def trim_stage_def)
    then show ?thesis using inv by auto
  qed
qed

lemma record_first_access_ok:
  assumes inv: "arc_inv r L" and p: "page_indices r p = None" and adm: "admissible r f"
  shows "\<exists>r' L'. record_first_access r f p = (Ok r' :: ('e, ArcReplacer) result) \<and> arc_inv r' L' \<and>
    abs_arc r' L' = spec_access f p (abs_arc r L)"
proof -
  obtain s where s: "release_frame_for_admission r f = (Ok s :: ('e, ArcReplacer) result)"
      "arc_inv s (demoted r L f)" "robbed r f s"
      "length (demoted r L f Mru) + length (demoted r L f Mfu) < r_capacity r"
    using release_ok [OF inv adm, where 'e = 'e] by blast
  let ?L = "demoted r L f"
  have rob: "r_capacity s = r_capacity r" "page_indices s p = None" "frame_indices s f = None"
    using s(3) p by (simp_all add: robbed_def)
  have len: "lh_length (list_of s l) = length (?L l)" for l using links_ok_length [OF arc_inv_links [OF s(2)]] .
  have lens: "lh_length (mru_list s) = length (?L Mru)" "lh_length (mfu_list s) = length (?L Mfu)"
    "lh_length (mru_ghost_list s) = length (?L GhostMru)" "lh_length (mfu_ghost_list s) = length (?L GhostMfu)"
    using len [of Mru] len [of Mfu] len [of GhostMru] len [of GhostMfu] by simp_all
  have sz: "length (?L Mru) + length (?L GhostMru) \<le> r_capacity s" using s(2) by (simp add: arc_inv_def sizes_ok_def)
  let ?admit = "\<lambda>r. bindR (alloc_node r \<lparr>n_page_id = p, n_frame_id = Some f, n_evictable = False, n_list = Mru,
        n_next = None, n_prev = None\<rparr>) (\<lambda>(idx, r). push (r\<lparr>page_indices := (page_indices r)(p \<mapsto> idx),
        frame_indices := (frame_indices r)(f \<mapsto> idx)\<rparr>) idx Mru)"
  have run: "record_first_access r f p = (bindR (trim_stage s ?L) ?admit :: ('e, ArcReplacer) result)"
    using s(1) sz by (simp add: record_first_access_def Let_def lens assertR_def trim_stage_def)
  obtain t L' where t: "trim_stage s ?L = (Ok t :: ('e, ArcReplacer) result)" "arc_inv t L'" "page_indices t p = None"
      "frame_indices t f = None" "abs_arc t L' = spec_trim (abs_arc s ?L)" "has_room t L'"
    using trim_stage_ok [OF s(2), where 'e = 'e] s(4) rob by auto
  have "mru_target_size t \<le> r_capacity t" using t(2) by (simp add: arc_inv_def sizes_ok_def)
  then have "sizes_ok (r_capacity t) (mru_target_size t) (L'(Mru := 0 # L' Mru))"
    using t(6) by (simp add: has_room_def sizes_ok_def)
  from admit_ok [OF t(2,3,4) this, where 'e = 'e]
  have "\<exists>r' L''. ?admit t = (Ok r' :: ('e, ArcReplacer) result) \<and> arc_inv r' L'' \<and>
      abs_arc r' L'' = arc_put Mru (p, Some f, False) (abs_arc t L')" .
  moreover have "spec_access f p (abs_arc r L) = arc_put Mru (p, Some f, False) (abs_arc t L')"
    using find_page_none [OF inv p] abs_demoted [OF inv s(3)] t(5) by (simp add: spec_access_def)
  ultimately show ?thesis using run t(1) by simp
qed

lemma record_access_ok:
  assumes "refines r a" and "admissible r f \<or> (\<exists>l g e. is_resident l \<and> (p, g, e) \<in> set (arc_lists a l))"
  shows "\<exists>r'. record_access r f p = (Ok r' :: ('e, ArcReplacer) result) \<and> refines r' (spec_access f p a)"
proof -
  obtain L where inv: "arc_inv r L" and a: "a = abs_arc r L" using assms(1) by (auto simp: refines_def)
  show ?thesis
  proof (cases "page_indices r p")
    case None
    have "admissible r f"
    proof (rule ccontr)
      assume "\<not> admissible r f"
      then obtain l g e k where "is_resident l" "k \<in> set (L l)" "(p, g, e) = payload r k"
        using assms(2) by (auto simp: a)
      then have "k \<in> tracked L" "page_of r k = p" by (auto simp: tracked_def payload_split)
      then have "page_indices r p = Some k" using pages_okD [OF inv, of p k] by simp
      then show False using None by simp
    qed
    then show ?thesis
      using record_first_access_ok [OF inv None, of f, where 'e = 'e] None
      unfolding record_access_def a refines_def by fastforce
  next
    case (Some i)
    then have i: "i \<in> tracked L" "page_of r i = p" using pages_okD [OF inv] by auto
    then obtain l where l: "i \<in> set (L l)" by (auto simp: tracked_def)
    have "is_resident l \<or> admissible r f"
    proof (rule ccontr)
      assume *: "\<not> (is_resident l \<or> admissible r f)"
      then obtain m g e k where "is_resident m" "k \<in> set (L m)" "(p, g, e) = payload r k"
        using assms(2) by (auto simp: a)
      then have k: "is_resident m" "k \<in> set (L m)" "page_of r k = p" by (simp_all add: payload_split)
      then have "page_indices r p = Some k" using pages_okD [OF inv, of p k] by (auto simp: tracked_def)
      then have "k = i" using Some by simp
      then show False using links_ok_disjoint [OF arc_inv_links [OF inv] l] k * by blast
    qed
    then show ?thesis
      using record_repeat_access_ok [OF inv l, of f p, where 'e = 'e] Some i(2)
      unfolding record_access_def a refines_def by fastforce
  qed
qed

end
