(* ===== verification/Replacer_Correct.thy ===== *)
theory Replacer_Correct
  imports Replacer_Spec
begin

text \<open>
  Eviction, its undo, removal and the evictable flag refine the abstract cache; the properties of
  the replacer follow.
\<close>


section \<open>Picking the victim\<close>

lemma find_SomeD: "find P xs = Some x \<Longrightarrow> x \<in> set xs \<and> P x"
  by (induction xs) (auto split: if_splits)

lemma find_evictable_ok:
  assumes "dll (nodes r) l None (ys @ zs) None" "ys \<noteq> []" "length ys \<le> fuel"
  shows "find_evictable fuel r (last ys) = (Ok (find (flag_of r) (rev ys)) :: ('e, nat option) result)"
  using assms
proof (induction ys arbitrary: zs fuel rule: rev_induct)
  case (snoc i ys)
  have i: "i < length (nodes r)" "n_prev (nodes r ! i) = last_or ys None"
    using snoc.prems(1) by (auto simp: dll_append)
  obtain n where n: "fuel = Suc n" using snoc.prems(3) by (cases fuel) auto
  note ev = payload_fields(3) [of r i, symmetric]
  show ?case
  proof (cases "flag_of r i")
    case True
    then show ?thesis using i n by (simp add: ev)
  next
    case False
    show ?thesis
    proof (cases "ys = []")
      case True
      then show ?thesis using False i n by (simp add: ev)
    next
      case ne: False
      have "find_evictable n r (last ys) = (Ok (find (flag_of r) (rev ys)) :: ('e, nat option) result)"
        using snoc.prems n ne by (intro snoc.IH [of "i # zs"]) auto
      then show ?thesis using False i n ne by (simp add: ev last_or_def)
    qed
  qed
qed simp

lemma length_list_le:
  assumes "links_ok r L"
  shows "length (L l) \<le> length (nodes r)"
proof -
  have "length (L l) = card (set (L l))" using links_ok_distinct [OF assms] by (simp add: distinct_card)
  also have "\<dots> \<le> card {..<length (nodes r)}"
    using links_ok_len [OF assms] by (intro card_mono) (auto simp: tracked_def)
  finally show ?thesis by simp
qed

lemma resident_list [simp]: "is_resident (ResidentList_list res)"
  "GhostList_list (ResidentList_ghost res) = ghost_of (ResidentList_list res)"
  by (cases res; simp add: is_resident_def)+

text \<open>The state of an eviction of node \<open>i\<close> from list \<open>l\<close>.\<close>

definition evicted :: "ArcReplacer \<Rightarrow> index_lists \<Rightarrow> ArcList \<Rightarrow> nat \<Rightarrow> FrameId \<Rightarrow> ArcReplacer \<Rightarrow> bool" where
  "evicted r L l i f r' \<longleftrightarrow> i \<in> set (L l) \<and> is_resident l \<and> flag_of r i \<and> frame_of r i = Some f \<and>
     arc_inv r' (moved L l i (ghost_of l)) \<and> repaid r i None False r' \<and>
     frame_indices r' = (frame_indices r)(f := None) \<and> mru_target_size r' = mru_target_size r \<and>
     evictable_count r' = evictable_count r - 1 \<and>
     (\<forall>k<length (nodes r). k \<notin> tracked L \<longrightarrow> nodes r' ! k = nodes r ! k)"

lemma evict_from_list_ok:
  fixes res :: ResidentList
  assumes inv: "arc_inv r L"
  defines "l \<equiv> ResidentList_list res"
  shows "find (flag_of r) (rev (L l)) = None \<Longrightarrow> evict_from_list r res = (Ok (None, r) :: ('e, EvictionUndo option \<times> ArcReplacer) result)"
    "find (flag_of r) (rev (L l)) = Some i \<Longrightarrow> \<exists>r' f. evict_from_list r res =
       (Ok (Some \<lparr>eu_node_idx = i, eu_frame_id = f, eu_list = res, eu_more_recent = n_prev (nodes r ! i)\<rparr>, r')
        :: ('e, EvictionUndo option \<times> ArcReplacer) result) \<and> evicted r L l i f r'"
proof -
  note lk = arc_inv_links [OF inv]
  have ok: "list_ok r l (L l)" using lk by (simp add: links_ok_def)
  have lr: "least_recent (list_of r l) = last_or (L l) None" using ok by (simp add: list_ok_def head_ok_def)
  have walk: "find_evictable (length (nodes r)) r (last (L l)) =
      (Ok (find (flag_of r) (rev (L l))) :: ('e, nat option) result)" if "L l \<noteq> []"
    using find_evictable_ok [of r l "L l" "[]"] ok that length_list_le [OF lk, of l] by (simp add: list_ok_def)
  show "find (flag_of r) (rev (L l)) = None \<Longrightarrow> evict_from_list r res = (Ok (None, r) :: ('e, EvictionUndo option \<times> ArcReplacer) result)"
    using lr walk by (cases "L l = []") (simp_all add: evict_from_list_def l_def last_or_def)
  assume f: "find (flag_of r) (rev (L l)) = Some i"
  then have i: "i \<in> set (L l)" "flag_of r i" by (auto dest: find_SomeD)
  then have ne: "L l \<noteq> []" by auto
  have len: "i < length (nodes r)" using links_ok_len [OF lk] i by (auto simp: tracked_def)
  have res: "is_resident l" by (simp add: l_def)
  obtain r' f where r': "frame_of r i = Some f" "give_up_frame r i = (Ok r' :: ('e, ArcReplacer) result)"
      "arc_inv r' (moved L l i (ghost_of l))" "repaid r i None False r'"
      "frame_indices r' = (frame_indices r)(f := None)" "mru_target_size r' = mru_target_size r"
      "evictable_count r' = evictable_count r - (if flag_of r i then 1 else 0)"
      "\<forall>k<length (nodes r). k \<notin> tracked L \<longrightarrow> nodes r' ! k = nodes r ! k"
    using give_up_frame_ok [OF inv i(1) res, where 'e = 'e] by blast
  have "evict_from_list r res = (Ok (Some \<lparr>eu_node_idx = i, eu_frame_id = f, eu_list = res,
      eu_more_recent = n_prev (nodes r ! i)\<rparr>, r') :: ('e, EvictionUndo option \<times> ArcReplacer) result)"
    using lr walk [OF ne] ne len r'(1,2) f
    by (simp add: evict_from_list_def last_or_def payload_fields(2) [symmetric] flip: l_def)
  moreover have "evicted r L l i f r'" using r' i res by (simp add: evicted_def)
  ultimately show "\<exists>r' f. evict_from_list r res =
       (Ok (Some \<lparr>eu_node_idx = i, eu_frame_id = f, eu_list = res, eu_more_recent = n_prev (nodes r ! i)\<rparr>, r')
        :: ('e, EvictionUndo option \<times> ArcReplacer) result) \<and> evicted r L l i f r'" by blast
qed

text \<open>The victim among the node indices.\<close>

definition victim_in :: "ArcReplacer \<Rightarrow> index_lists \<Rightarrow> (ResidentList \<times> nat) option" where
  "victim_in r L =
     (let (x, y) = (if length (L Mru) \<ge> mru_target_size r then (ResidentMru, ResidentMfu) else (ResidentMfu, ResidentMru));
          pick = (\<lambda>res. map_option (Pair res) (find (flag_of r) (rev (L (ResidentList_list res))))) in
      case pick x of Some v \<Rightarrow> Some v | None \<Rightarrow> pick y)"

lemma begin_eviction_ok:
  assumes inv: "arc_inv r L"
  shows "victim_in r L = None \<Longrightarrow> begin_eviction r = (Ok (None, r) :: ('e, EvictionUndo option \<times> ArcReplacer) result)"
    "victim_in r L = Some (res, i) \<Longrightarrow> \<exists>r' f. begin_eviction r =
       (Ok (Some \<lparr>eu_node_idx = i, eu_frame_id = f, eu_list = res, eu_more_recent = n_prev (nodes r ! i)\<rparr>, r')
        :: ('e, EvictionUndo option \<times> ArcReplacer) result) \<and> evicted r L (ResidentList_list res) i f r'"
proof -
  have len: "lh_length (mru_list r) = length (L Mru)" using links_ok_length [OF arc_inv_links [OF inv], of Mru] by simp
  note ev = evict_from_list_ok [OF inv]
  have none: "evict_from_list r res = (Ok (None, r) :: ('e, EvictionUndo option \<times> ArcReplacer) result)"
    if "find (flag_of r) (rev (L (ResidentList_list res))) = None" for res
    using ev(1) [OF that] .
  show "victim_in r L = None \<Longrightarrow> begin_eviction r = (Ok (None, r) :: ('e, EvictionUndo option \<times> ArcReplacer) result)"
    using none [of ResidentMru] none [of ResidentMfu]
    by (auto simp: victim_in_def begin_eviction_def len Let_def split: if_splits option.splits)
  assume v: "victim_in r L = Some (res, i)"
  define x y where "x = (if length (L Mru) \<ge> mru_target_size r then ResidentMru else ResidentMfu)"
    and "y = (if length (L Mru) \<ge> mru_target_size r then ResidentMfu else ResidentMru)"
  have run: "begin_eviction r = (bindR (evict_from_list r x) (\<lambda>(undo, r).
      case undo of Some u \<Rightarrow> Ok (Some u, r) | None \<Rightarrow> evict_from_list r y) :: ('e, EvictionUndo option \<times> ArcReplacer) result)"
    unfolding x_def y_def by (simp add: begin_eviction_def len)
  let ?find = "\<lambda>res. find (flag_of r) (rev (L (ResidentList_list res)))"
  have vic: "victim_in r L = (case ?find x of Some j \<Rightarrow> Some (x, j) | None \<Rightarrow> map_option (Pair y) (?find y))"
    by (auto simp: victim_in_def Let_def x_def y_def split: option.splits)
  show "\<exists>r' f. begin_eviction r =
       (Ok (Some \<lparr>eu_node_idx = i, eu_frame_id = f, eu_list = res, eu_more_recent = n_prev (nodes r ! i)\<rparr>, r')
        :: ('e, EvictionUndo option \<times> ArcReplacer) result) \<and> evicted r L (ResidentList_list res) i f r'"
  proof (cases "?find x")
    case None
    then have "?find y = Some i" "y = res" using v vic by auto
    then show ?thesis using none [OF None] ev(2) [of y i, where 'e = 'e] unfolding run by auto
  next
    case (Some j)
    then have "x = res" "j = i" using v vic by auto
    then show ?thesis using ev(2) [OF Some, where 'e = 'e] unfolding run by auto
  qed
qed


lemma abs_evicted:
  assumes inv: "arc_inv r L" and ev: "evicted r L l i f r'"
  shows "abs_arc r' (moved L l i (ghost_of l)) =
    arc_put (ghost_of l) (page_of r i, None, False) (arc_drop (page_of r i) (abs_arc r L))"
proof -
  have e: "i \<in> set (L l)" "repaid r i None False r'" "mru_target_size r' = mru_target_size r"
    using ev by (simp_all add: evicted_def)
  show ?thesis by (rule abs_moved [OF inv e(1,2,3)]) simp_all
qed

lemma find_map: "find P (map f xs) = map_option f (find (P \<circ> f) xs)"
  by (induction xs) auto

lemma spec_victim_abs:
  "spec_victim (abs_arc r L) = map_option (\<lambda>(res, i). (ResidentList_list res, payload r i)) (victim_in r L)"
proof -
  have f: "find entry_flag (rev (arc_lists (abs_arc r L) l)) = map_option (payload r) (find (flag_of r) (rev (L l)))" for l
    by (simp add: rev_map find_map comp_def flag_of_def [abs_def])
  show ?thesis
    unfolding spec_victim_def victim_in_def f
    by (auto simp: Let_def split: option.splits)
qed

lemma evict_ok:
  assumes inv: "arc_inv r L"
  shows "\<exists>r' L'. evict r = (Ok (fst (spec_evict (abs_arc r L)), r') :: ('e, FrameId option \<times> ArcReplacer) result) \<and>
    arc_inv r' L' \<and> abs_arc r' L' = snd (spec_evict (abs_arc r L))"
proof (cases "victim_in r L")
  case None
  then have "spec_evict (abs_arc r L) = (None, abs_arc r L)" by (simp add: spec_evict_def spec_victim_abs)
  moreover have "evict r = (Ok (None, r) :: ('e, FrameId option \<times> ArcReplacer) result)"
    by (simp add: evict_def begin_eviction_ok(1) [OF inv None])
  ultimately show ?thesis using inv by auto
next
  case (Some v)
  obtain res i where v: "v = (res, i)" by (cases v)
  obtain r' f where r': "begin_eviction r = (Ok (Some \<lparr>eu_node_idx = i, eu_frame_id = f, eu_list = res,
      eu_more_recent = n_prev (nodes r ! i)\<rparr>, r') :: ('e, EvictionUndo option \<times> ArcReplacer) result)"
      "evicted r L (ResidentList_list res) i f r'"
    using begin_eviction_ok(2) [OF inv Some [unfolded v], where 'e = 'e] by blast
  have "spec_evict (abs_arc r L) = (Some f, abs_arc r' (moved L (ResidentList_list res) i (ghost_of (ResidentList_list res))))"
    using Some v abs_evicted [OF inv r'(2)] r'(2)
    by (simp add: spec_evict_def spec_victim_abs payload_split evicted_def)
  moreover have "evict r = (Ok (Some f, r') :: ('e, FrameId option \<times> ArcReplacer) result)"
    using r'(1) by (simp add: evict_def)
  ultimately show ?thesis using r'(2) by (auto simp: evicted_def)
qed

section \<open>Undoing an eviction\<close>

lemma dll_unique:
  assumes "dll ns l p xs n" "dll ns' l p xs n" "i \<in> set xs"
  shows "n_list (ns' ! i) = n_list (ns ! i) \<and> n_prev (ns' ! i) = n_prev (ns ! i) \<and> n_next (ns' ! i) = n_next (ns ! i)"
  using assms by (induction xs arbitrary: p) auto

lemma links_ok_unique:
  assumes "links_ok r L" "links_ok r' L"
  shows "list_of r' l = list_of r l"
    "i \<in> tracked L \<Longrightarrow> n_list (nodes r' ! i) = n_list (nodes r ! i) \<and> n_prev (nodes r' ! i) = n_prev (nodes r ! i) \<and>
       n_next (nodes r' ! i) = n_next (nodes r ! i)"
proof -
  have "head_ok (list_of r l) (L l)" "head_ok (list_of r' l) (L l)"
    using assms by (simp_all add: links_ok_def list_ok_def)
  then show "list_of r' l = list_of r l" by (intro ListHead.equality) (simp_all add: head_ok_def)
  assume "i \<in> tracked L"
  then obtain m where m: "i \<in> set (L m)" by (auto simp: tracked_def)
  have "dll (nodes r) m None (L m) None" "dll (nodes r') m None (L m) None"
    using assms by (simp_all add: links_ok_def list_ok_def)
  from dll_unique [OF this m] show "n_list (nodes r' ! i) = n_list (nodes r ! i) \<and>
    n_prev (nodes r' ! i) = n_prev (nodes r ! i) \<and> n_next (nodes r' ! i) = n_next (nodes r ! i)" .
qed

lemma insert_after_links:
  assumes L: "links_ok r L" and i: "i < length (nodes r)" "i \<notin> tracked L" and l: "L l = xs @ ys"
  shows "\<exists>r'. insert_after r i l (last_or xs None) = (Ok r' :: ('e, ArcReplacer) result) \<and>
    relink_ok (insert i (tracked L)) r r' (L(l := xs @ i # ys))"
proof (cases "xs = []")
  case True
  then show ?thesis using push_links [OF L i, of l, where 'e = 'e] l
    by (simp add: insert_after_def listed_def)
next
  case False
  define m ws where "m = last xs" and "ws = butlast xs"
  have xs: "xs = ws @ [m]" using False by (simp add: m_def ws_def)
  have ok: "list_ok r l (ws @ [m] @ ys)" using L l xs by (simp add: links_ok_def) (metis append.assoc append_Cons append_Nil)
  have "i \<notin> set (L l)" using i(2) by (auto simp: tracked_def)
  then have il: "i \<notin> set (ws @ [m] @ ys)" using l xs by simp
  obtain r' where r': "insert_after r i l (Some m) = (Ok r' :: ('e, ArcReplacer) result)"
      "list_ok r' l (ws @ [m, i] @ ys)" "nodes r' = spliced (nodes r) i l m (hd_or ys None)" "same_rest r r'"
      "\<forall>l'. l' \<noteq> l \<longrightarrow> list_of r' l' = list_of r l'"
    using insert_after_ok [OF ok i(1) il, where 'e = 'e] by blast
  have ne: "hd_or ys None \<noteq> Some i" "m \<noteq> i" "hd_or ys None \<noteq> Some m"
    using il ok by (auto simp: hd_or_eq_Some list_ok_def)
  have m: "m < length (nodes r)" using list_ok_node [OF ok, of m] by simp
  let ?S = "{i, m} \<union> set_option (hd_or ys None)"
  have rel: "relinked ?S (nodes r) (nodes r')" using relinked_spliced [OF i(1) ne(1) m ne(2,3), of l] r'(3) by simp
  have S: "?S \<subseteq> insert i (set (L l))" using l xs by (auto simp: hd_or_def split: if_splits)
  have eq: "ws @ [m, i] @ ys = xs @ i # ys" using xs by simp
  have "links_ok r' (L(l := ws @ [m, i] @ ys))"
    using links_ok_upd [OF L rel r'(2,5)] S links_ok_disjoint [OF L] i(2) by (fastforce simp: tracked_def)
  moreover have "nodes r' ! k = nodes r ! k" if "k < length (nodes r)" "k \<notin> insert i (tracked L)" for k
  proof -
    have "k \<notin> ?S" using S that by (auto simp: tracked_def)
    then show ?thesis using rel that by (simp add: relinked_def)
  qed
  ultimately show ?thesis
    using r' relinked_payload [OF rel] xs unfolding eq by (auto simp: relink_ok_def)
qed

lemma undo_eviction_restores:
  assumes inv: "arc_inv r L" and ev: "evicted r L (ResidentList_list res) i f r'"
  shows "undo_eviction r' \<lparr>eu_node_idx = i, eu_frame_id = f, eu_list = res, eu_more_recent = n_prev (nodes r ! i)\<rparr> =
    (Ok r :: ('e, ArcReplacer) result)"
proof -
  define l where "l = ResidentList_list res"
  note lk = arc_inv_links [OF inv]
  let ?M = "moved L l i (ghost_of l)"
  have e: "i \<in> set (L l)" "is_resident l" "flag_of r i" "frame_of r i = Some f" "arc_inv r' ?M"
      "repaid r i None False r'" "frame_indices r' = (frame_indices r)(f := None)"
      "mru_target_size r' = mru_target_size r" "evictable_count r' = evictable_count r - 1"
      "\<And>k. k < length (nodes r) \<Longrightarrow> k \<notin> tracked L \<Longrightarrow> nodes r' ! k = nodes r ! k"
    using ev by (simp_all add: evicted_def l_def)
  have ti: "i \<in> tracked L" using e(1) by (auto simp: tracked_def)
  have len: "i < length (nodes r)" "length (nodes r') = length (nodes r)"
    using links_ok_len [OF lk ti] e(6) by (simp_all add: repaid_def)
  have lg: "l \<noteq> ghost_of l" using e(2) by (auto simp: is_resident_def)
  have iM: "i \<in> set (?M (ghost_of l))" using set_moved(2) [OF lk e(1)] by simp
  have U: "unlisted ?M (ghost_of l) i = unlisted L l i"
    using lg by (auto simp: unlisted_def moved_def listed_def)
  obtain s where s: "detach r' i = (Ok s :: ('e, ArcReplacer) result)" "relink_ok (tracked ?M) r' s (unlisted L l i)"
    using detach_links [OF arc_inv_links [OF e(5)] iM, where 'e = 'e] U by auto
  obtain xs ys where Ll: "L l = xs @ i # ys" "i \<notin> set xs" using split_list_first [OF e(1)] by blast
  have prev: "n_prev (nodes r ! i) = last_or xs None"
    using lk Ll by (auto simp: links_ok_def list_ok_def dll_append dest!: spec [of _ l])
  have Ul: "unlisted L l i l = xs @ ys" using Ll by (simp add: unlisted_def remove1_append)
  have Lback: "(unlisted L l i)(l := xs @ i # ys) = L" using Ll by (auto simp: unlisted_def)
  have tu: "tracked (unlisted L l i) = tracked L - {i}" using tracked_unlisted [OF lk e(1)] .
  have "links_ok s (unlisted L l i)" "i < length (nodes s)" "i \<notin> tracked (unlisted L l i)"
    using s(2) len tu by (simp_all add: relink_ok_def same_payload_def)
  from insert_after_links [OF this Ul, where 'e = 'e] prev Lback
  obtain t where t: "insert_after s i l (n_prev (nodes r ! i)) = (Ok t :: ('e, ArcReplacer) result)"
      "relink_ok (insert i (tracked (unlisted L l i))) s t L" by auto
  define u where "u = (set_node t i (Some f) True)
    \<lparr>frame_indices := (frame_indices t)(f \<mapsto> i), evictable_count := evictable_count t + 1\<rparr>"
  have lent: "length (nodes t) = length (nodes r)" using s(2) t(2) len by (simp add: relink_ok_def same_payload_def)
  have run: "undo_eviction r' \<lparr>eu_node_idx = i, eu_frame_id = f, eu_list = res, eu_more_recent = n_prev (nodes r ! i)\<rparr> =
      (Ok u :: ('e, ArcReplacer) result)"
    using s(1) t(1) len lent
    by (simp add: undo_eviction_def u_def set_node_def flip: l_def)
  have tM: "tracked ?M = tracked L" using tracked_moved [OF lk e(1)] .
  have rest: "page_indices t = page_indices r" "frame_indices t = frame_indices r'" "unused_node_indices t = unused_node_indices r"
      "evictable_count t = evictable_count r'" "mru_target_size t = mru_target_size r" "r_capacity t = r_capacity r"
    using s(2) t(2) e(6,8) by (simp_all add: relink_ok_def same_rest_def repaid_def)
  have lu: "links_ok u L" using t(2) len lent by (simp add: u_def relink_ok_def)
  have pay: "payload u k = payload r k" if "k < length (nodes r)" for k
  proof -
    have pt: "payload t j = (if j = i then (page_of r i, None, False) else payload r j)" if "j < length (nodes r)" for j
      using s(2) t(2) len lent that e(6) by (simp add: relink_ok_def same_payload_def repaid_def)
    have "page_of t i = page_of r i" using pt [OF len(1)] unfolding page_of_def [of t] by simp
    then have "payload u k = (if k = i then (page_of r i, Some f, True) else payload t k)"
      using that len lent by (simp add: u_def payload_set_node)
    also have "\<dots> = payload r k" using pt [OF that] payload_split [of r i] e(3,4) by simp
    finally show ?thesis .
  qed
  have node: "nodes u ! k = nodes r ! k" if k: "k < length (nodes r)" for k
  proof (cases "k \<in> tracked L")
    case True
    then show ?thesis using links_ok_unique(2) [OF lk lu True] pay [OF k]
      by (intro Node.equality) (simp_all add: payload_def)
  next
    case False
    then have "k \<noteq> i" using ti by auto
    then have "nodes u ! k = nodes t ! k" by (simp add: u_def set_node_def)
    also have "\<dots> = nodes s ! k" using t(2) False tu k len s(2) \<open>k \<noteq> i\<close> by (simp add: relink_ok_def same_payload_def)
    also have "\<dots> = nodes r' ! k" using s(2) False tM k len by (simp add: relink_ok_def)
    finally show ?thesis using e(10) [OF k False] by simp
  qed
  have cnt: "evictable_count u = evictable_count r"
    using arc_inv_count [OF inv ti e(3)] e(9) rest(4) by (simp add: u_def)
  have fr: "frame_indices u = frame_indices r"
    using e(7) rest(2) arc_inv_frame [OF inv ti e(4)] by (auto simp: u_def)
  have "u = r"
  proof (rule ArcReplacer.equality)
    show "nodes u = nodes r" using node lent by (intro nth_equalityI) (simp_all add: u_def)
    show "mru_list u = mru_list r" "mfu_list u = mfu_list r" "mru_ghost_list u = mru_ghost_list r"
      "mfu_ghost_list u = mfu_ghost_list r"
      using links_ok_unique(1) [OF lk lu, of Mru] links_ok_unique(1) [OF lk lu, of Mfu]
        links_ok_unique(1) [OF lk lu, of GhostMru] links_ok_unique(1) [OF lk lu, of GhostMfu] by simp_all
  qed (use cnt fr rest in \<open>simp_all add: u_def\<close>)
  then show ?thesis using run by simp
qed


section \<open>Removal and the evictable flag\<close>

lemma remove_ok:
  assumes inv: "arc_inv r L"
  shows "\<exists>r' L'. replacer_remove r p = (Ok (fst (spec_remove p (abs_arc r L)), r') :: ('e, FrameId option \<times> ArcReplacer) result) \<and>
    arc_inv r' L' \<and> abs_arc r' L' = snd (spec_remove p (abs_arc r L))"
proof (cases "page_indices r p")
  case None
  then have "spec_remove p (abs_arc r L) = (None, abs_arc r L)"
    using find_page_none [OF inv None] by (simp add: spec_remove_def)
  then show ?thesis using inv None by (auto simp: replacer_remove_def)
next
  case (Some i)
  note lk = arc_inv_links [OF inv]
  have ti: "i \<in> tracked L" and p: "page_of r i = p" using pages_okD [OF inv, of p i] Some by auto
  then obtain l where l: "i \<in> set (L l)" by (auto simp: tracked_def)
  have len: "i < length (nodes r)" using links_ok_len [OF lk ti] .
  have pos: "flag_of r i \<Longrightarrow> 0 < evictable_count r" using arc_inv_count [OF inv ti] .
  define s where "s = (set_node r i None False)\<lparr>page_indices := (page_indices r)(p := None),
    frame_indices := (case frame_of r i of None \<Rightarrow> frame_indices r | Some f \<Rightarrow> (frame_indices r)(f := None)),
    evictable_count := evictable_count r - (if flag_of r i then 1 else 0)\<rparr>"
  have ls: "links_ok s L" using lk len by (simp add: s_def)
  obtain t where t: "detach s i = (Ok t :: ('e, ArcReplacer) result)" "relink_ok (tracked L) s t (unlisted L l i)"
    using detach_links [OF ls l, where 'e = 'e] by blast
  define r' where "r' = t\<lparr>unused_node_indices := unused_node_indices t @ [i]\<rparr>"
  have mid: "bindR (node_upd (r\<lparr>page_indices := (page_indices r)(p := None)\<rparr>) i (\<lambda>n. n\<lparr>n_frame_id := None\<rparr>)) (\<lambda>r'.
      bindR (clear_evictable r' i) (\<lambda>r'. Ok (forget_frame r' (frame_of r i)))) = (Ok s :: ('e, ArcReplacer) result)"
    using len pos
    by (cases "frame_of r i")
      (auto simp: clear_evictable_def payload_fields s_def set_node_def intro!: ArcReplacer.equality)
  have "replacer_remove r p = (bindR (bindR (node_upd (r\<lparr>page_indices := (page_indices r)(p := None)\<rparr>) i (\<lambda>n. n\<lparr>n_frame_id := None\<rparr>)) (\<lambda>r'.
      bindR (clear_evictable r' i) (\<lambda>r'. Ok (forget_frame r' (frame_of r i)))))
      (\<lambda>r'. bindR (detach r' i) (\<lambda>r'. Ok (frame_of r i, r'\<lparr>unused_node_indices := unused_node_indices r' @ [i]\<rparr>))) :: ('e, FrameId option \<times> ArcReplacer) result)"
    using Some len by (simp add: replacer_remove_def Let_def payload_fields bindR_assoc)
  then have run: "replacer_remove r p = (Ok (frame_of r i, r') :: ('e, FrameId option \<times> ArcReplacer) result)"
    unfolding mid using t(1) by (simp add: r'_def)
  have fg: "forgotten r i r'"
    using t(2) len p by (auto simp: forgotten_def r'_def relink_ok_def same_payload_def same_rest_def s_def payload_set_node)
  have "links_ok r' (unlisted L l i)" using t(2) by (simp add: r'_def relink_ok_def)
  note f = forgotten_ok [OF inv l fg this]
  have "spec_remove p (abs_arc r L) = (frame_of r i, arc_drop p (abs_arc r L))"
    using find_page [OF inv l] p by (simp add: spec_remove_def payload_split)
  then show ?thesis using run f p by auto
qed

lemma set_evictable_ok:
  assumes inv: "arc_inv r L"
  shows "\<exists>r'. set_evictable r f v = (Ok r' :: ('e, ArcReplacer) result) \<and> arc_inv r' L \<and>
    abs_arc r' L = spec_set_evictable f v (abs_arc r L)"
proof (cases "frame_indices r f")
  case None
  have "frame_of r k \<noteq> Some f" if "k \<in> tracked L" for k
    using frames_okD [OF inv, of f k] None that by simp
  then have "map (\<lambda>(p, g, e). (p, g, if g = Some f then v else e)) (map (payload r) (L l)) = map (payload r) (L l)" for l
    by (auto simp: payload_split tracked_def)
  then have "spec_set_evictable f v (abs_arc r L) = abs_arc r L"
    by (intro arc_eqI) (simp_all add: spec_set_evictable_def)
  then show ?thesis using None inv by (simp add: set_evictable_def)
next
  case (Some i)
  note lk = arc_inv_links [OF inv]
  have ti: "i \<in> tracked L" and fr: "frame_of r i = Some f" using frames_okD [OF inv, of f i] Some by auto
  have len: "i < length (nodes r)" using links_ok_len [OF lk ti] .
  have pos: "flag_of r i \<Longrightarrow> 0 < evictable_count r" using arc_inv_count [OF inv ti] .
  define r' where "r' = (set_node r i (Some f) v)
    \<lparr>evictable_count := evictable_count r + (if v then 1 else 0) - (if flag_of r i then 1 else 0)\<rparr>"
  have nd: "(nodes r ! i)\<lparr>n_evictable := w\<rparr> = (nodes r ! i)\<lparr>n_frame_id := Some f, n_evictable := w\<rparr>" for w
    using fr by (intro Node.equality) (simp_all add: payload_fields)
  have set: "set_node r i (Some f) v = r\<lparr>nodes := (nodes r)[i := (nodes r ! i)\<lparr>n_evictable := v\<rparr>]\<rparr>"
    by (subst nd) (simp add: set_node_def)
  have run: "set_evictable r f v = (Ok r' :: ('e, ArcReplacer) result)"
    using Some len pos unfolding r'_def set
    by (auto simp: set_evictable_def payload_fields Let_def)
  have rep: "repaid r i (Some f) v r'" using len by (simp add: repaid_def r'_def payload_set_node)
  have inv': "arc_inv r' L"
  proof (rule arc_inv_repaidI [OF inv ti rep])
    show "links_ok r' L" using lk len by (simp add: r'_def)
    show "if is_resident l then Some f \<noteq> None else Some f = None \<and> \<not> v" if "i \<in> set (L l)" for l
      using roles_okD [OF inv that] fr by (auto split: if_splits)
    show "sizes_ok (r_capacity r') (mru_target_size r') L" using inv by (simp add: arc_inv_def r'_def)
  qed (use fr Some in \<open>auto simp: r'_def\<close>)
  have "payload r' k = (case payload r k of (p, g, e) \<Rightarrow> (p, g, if g = Some f then v else e))" if k: "k \<in> tracked L" for k
  proof -
    have "frame_of r k = Some f \<longleftrightarrow> k = i" using frames_okD [OF inv, of f k] Some k by auto
    then show ?thesis using rep links_ok_len [OF lk k] by (auto simp: repaid_def payload_split)
  qed
  then have "abs_arc r' L = spec_set_evictable f v (abs_arc r L)"
    by (intro arc_eqI) (auto simp: spec_set_evictable_def tracked_def r'_def)
  then show ?thesis using run inv' by blast
qed

lemma new_ok: "arc_inv (ArcReplacer_new c) (\<lambda>_. [])"
proof -
  have "list_of (ArcReplacer_new c) l = ListHead_default" for l by (cases l) (simp_all add: ArcReplacer_new_def)
  then have "links_ok (ArcReplacer_new c) (\<lambda>_. [])"
    by (simp add: links_ok_def list_ok_def head_ok_def ListHead_default_def)
  then show ?thesis
    by (simp add: arc_inv_def pages_ok_def frames_ok_def roles_ok_def slots_free_def flagged_def sizes_ok_def
        tracked_def ArcReplacer_new_def)
qed


section \<open>Reachable states\<close>

lemma refinesE:
  assumes "refines r a" obtains L where "arc_inv r L" "a = abs_arc r L"
  using assms by (auto simp: refines_def)

lemma evict_refined:
  assumes "refines r a"
  shows "\<exists>r'. evict r = (Ok (fst (spec_evict a), r') :: ('e, FrameId option \<times> ArcReplacer) result) \<and> refines r' (snd (spec_evict a))"
proof -
  obtain L where L: "arc_inv r L" "a = abs_arc r L" using assms by (rule refinesE)
  show ?thesis using evict_ok [OF L(1), where 'e = 'e] unfolding L(2) refines_def by metis
qed

lemma remove_refined:
  assumes "refines r a"
  shows "\<exists>r'. replacer_remove r p = (Ok (fst (spec_remove p a), r') :: ('e, FrameId option \<times> ArcReplacer) result) \<and>
    refines r' (snd (spec_remove p a))"
proof -
  obtain L where L: "arc_inv r L" "a = abs_arc r L" using assms by (rule refinesE)
  show ?thesis using remove_ok [OF L(1), where 'e = 'e] unfolding L(2) refines_def by metis
qed

lemma set_evictable_refined:
  assumes "refines r a"
  shows "\<exists>r'. set_evictable r f v = (Ok r' :: ('e, ArcReplacer) result) \<and> refines r' (spec_set_evictable f v a)"
proof -
  obtain L where L: "arc_inv r L" "a = abs_arc r L" using assms by (rule refinesE)
  show ?thesis using set_evictable_ok [OF L(1), where 'e = 'e] unfolding L(2) refines_def by metis
qed

definition empty_arc :: "nat \<Rightarrow> arc" where
  "empty_arc c = \<lparr>arc_lists = (\<lambda>_. []), arc_target = 0, arc_cap = c\<rparr>"

lemma new_refined: "refines (ArcReplacer_new c) (empty_arc c)"
proof -
  have "empty_arc c = abs_arc (ArcReplacer_new c) (\<lambda>_. [])"
    by (simp add: empty_arc_def abs_arc_def ArcReplacer_new_def)
  then show ?thesis using new_ok by (auto simp: refines_def)
qed

lemma spec_cap [simp]:
  "arc_cap (arc_put l x a) = arc_cap a" "arc_cap (arc_drop p a) = arc_cap a" "arc_cap (spec_demote f a) = arc_cap a"
  "arc_cap (spec_trim a) = arc_cap a" "arc_cap (spec_retarget m a) = arc_cap a"
  "arc_cap (spec_set_evictable f v a) = arc_cap a"
  by (auto simp: arc_put_def arc_drop_def spec_demote_def spec_trim_def spec_retarget_def spec_set_evictable_def
      Let_def split: option.split)

lemma spec_cap_ops [simp]: "arc_cap (spec_access f p a) = arc_cap a"
  "arc_cap (snd (spec_remove p a)) = arc_cap a" "arc_cap (snd (spec_evict a)) = arc_cap a"
  by (auto simp: spec_access_def spec_remove_def spec_evict_def split: option.split)

text \<open>A replacer of capacity \<open>c\<close> driven as its contract asks: a page is admitted to a frame only when that
  frame is tracked, the page is resident, or a frame is free.\<close>

definition resident_page :: "ArcReplacer \<Rightarrow> PageId \<Rightarrow> bool" where
  "resident_page r p \<longleftrightarrow> (case page_indices r p of None \<Rightarrow> False | Some i \<Rightarrow> is_resident (n_list (nodes r ! i)))"

lemma resident_page_in:
  assumes "refines r a" "resident_page r p"
  shows "\<exists>l g e. is_resident l \<and> (p, g, e) \<in> set (arc_lists a l)"
proof -
  obtain L where L: "arc_inv r L" "a = abs_arc r L" using assms(1) by (rule refinesE)
  obtain i where i: "page_indices r p = Some i" "is_resident (n_list (nodes r ! i))"
    using assms(2) by (auto simp: resident_page_def split: option.splits)
  then obtain l where l: "i \<in> set (L l)" "page_of r i = p"
    using pages_okD [OF L(1), of p i] by (auto simp: tracked_def)
  then have "is_resident l" using links_ok_list [OF arc_inv_links [OF L(1)] l(1)] i by simp
  moreover have "(p, frame_of r i, flag_of r i) \<in> payload r ` set (L l)"
    using l by (auto simp: payload_split intro!: image_eqI [of _ _ i])
  ultimately show ?thesis unfolding L(2) abs_arc_simps set_map by blast
qed

inductive arc_reach :: "nat \<Rightarrow> ArcReplacer \<Rightarrow> bool" for c where
  reach_new: "arc_reach c (ArcReplacer_new c)"
| reach_flag: "arc_reach c r \<Longrightarrow> set_evictable r f v = (Ok r' :: (unit, ArcReplacer) result) \<Longrightarrow> arc_reach c r'"
| reach_remove: "arc_reach c r \<Longrightarrow>
    replacer_remove r p = (Ok (g, r') :: (unit, FrameId option \<times> ArcReplacer) result) \<Longrightarrow> arc_reach c r'"
| reach_access: "arc_reach c r \<Longrightarrow> admissible r f \<or> resident_page r p \<Longrightarrow>
    record_access r f p = (Ok r' :: (unit, ArcReplacer) result) \<Longrightarrow> arc_reach c r'"
| reach_evict: "arc_reach c r \<Longrightarrow>
    evict r = (Ok (g, r') :: (unit, FrameId option \<times> ArcReplacer) result) \<Longrightarrow> arc_reach c r'"

lemma arc_reach_refines: "arc_reach c r \<Longrightarrow> \<exists>a. refines r a \<and> arc_cap a = c"
proof (induction rule: arc_reach.induct)
  case reach_new
  show ?case using new_refined [of c] by (auto simp: empty_arc_def)
next
  case (reach_flag r f v r')
  then obtain a where a: "refines r a" "arc_cap a = c" by blast
  then have "refines r' (spec_set_evictable f v a)"
    using set_evictable_refined [of r a f v, where 'e = unit] reach_flag.hyps by auto
  then show ?case using a(2) by (metis spec_cap(6))
next
  case (reach_remove r p g r')
  then obtain a where a: "refines r a" "arc_cap a = c" by blast
  then have "refines r' (snd (spec_remove p a))"
    using remove_refined [of r a p, where 'e = unit] reach_remove.hyps by auto
  then show ?case using a(2) by (metis spec_cap_ops(2))
next
  case (reach_access r f p r')
  then obtain a where a: "refines r a" "arc_cap a = c" by blast
  then have "refines r' (spec_access f p a)"
    using record_access_ok [of r a f p, where 'e = unit] resident_page_in [of r a p] reach_access.hyps by auto
  then show ?case using a(2) by (metis spec_cap_ops(1))
next
  case (reach_evict r g r')
  then obtain a where a: "refines r a" "arc_cap a = c" by blast
  then have "refines r' (snd (spec_evict a))"
    using evict_refined [of r a, where 'e = unit] reach_evict.hyps by auto
  then show ?case using a(2) by (metis spec_cap_ops(3))
qed

lemma abs_flag_count:
  assumes "arc_inv r L"
  shows "evictable_count r = length (filter entry_flag (map (payload r) (L Mru @ L Mfu)))"
proof -
  note lk = arc_inv_links [OF assms]
  have dis: "distinct (L Mru @ L Mfu)"
    using links_ok_distinct [OF lk] links_ok_disjoint [OF lk] by fastforce
  have gh: "\<not> flag_of r i" if "i \<in> set (L GhostMru) \<union> set (L GhostMfu)" for i
    using that roles_okD [OF assms, of i GhostMru] roles_okD [OF assms, of i GhostMfu] by (auto simp: is_resident_def)
  have "flagged r L = set (filter (flag_of r) (L Mru @ L Mfu))"
    using gh by (auto simp: flagged_def tracked_eq)
  then have "evictable_count r = card (set (filter (flag_of r) (L Mru @ L Mfu)))"
    using assms by (simp add: arc_inv_def)
  also have "\<dots> = length (filter (flag_of r) (L Mru @ L Mfu))"
    using dis by (intro distinct_card distinct_filter)
  finally show ?thesis by (simp add: filter_map comp_def flag_of_def [abs_def])
qed


lemma distinct_entries:
  assumes inv: "arc_inv r L"
  shows "distinct (map (\<lambda>(l, x). entry_page x) (entries (abs_arc r L)))"
proof -
  let ?is = "concat (map L [Mru, Mfu, GhostMru, GhostMfu])"
  note lk = arc_inv_links [OF inv]
  have "distinct ?is" using links_ok_distinct [OF lk] links_ok_disjoint [OF lk] by fastforce
  moreover have "inj_on (page_of r) (set ?is)"
    using page_unique [OF inv] by (intro inj_onI) (auto simp: tracked_eq)
  ultimately have "distinct (map (page_of r) ?is)" unfolding distinct_map by blast
  moreover have "map (\<lambda>(l, x). entry_page x) (entries (abs_arc r L)) = map (page_of r) ?is"
    by (simp add: entries_def page_of_def)
  ultimately show ?thesis by simp
qed

lemma new_admits: "0 < c \<Longrightarrow> admissible (ArcReplacer_new c) f"
  by (simp add: admissible_def is_full_def ArcReplacer_new_def ListHead_default_def)

section \<open>A replacer with one evictable page\<close>

definition one_page :: ArcReplacer where
  "one_page = (case bindR (record_access (ArcReplacer_new 2) (FrameId 0) (PageId 7)) (\<lambda>r. set_evictable r (FrameId 0) True) of
     (Ok r :: (unit, ArcReplacer) result) \<Rightarrow> r | _ \<Rightarrow> ArcReplacer_new 2)"

definition one_arc :: arc where
  "one_arc = spec_set_evictable (FrameId 0) True (spec_access (FrameId 0) (PageId 7) (empty_arc 2))"

lemma one_page_refines: "refines one_page one_arc"
proof -
  obtain r where r: "record_access (ArcReplacer_new 2) (FrameId 0) (PageId 7) = (Ok r :: (unit, ArcReplacer) result)"
    "refines r (spec_access (FrameId 0) (PageId 7) (empty_arc 2))"
    using record_access_ok [OF new_refined [of 2], of "FrameId 0" "PageId 7", where 'e = unit]
    by (auto simp: new_admits)
  then obtain r' where "set_evictable r (FrameId 0) True = (Ok r' :: (unit, ArcReplacer) result)"
    "refines r' (spec_set_evictable (FrameId 0) True (spec_access (FrameId 0) (PageId 7) (empty_arc 2)))"
    using set_evictable_refined by blast
  then show ?thesis using r by (auto simp: one_page_def one_arc_def)
qed

lemma one_page_reached: "arc_reach 2 one_page"
proof -
  have adm: "admissible (ArcReplacer_new 2) (FrameId 0)" by (simp add: new_admits)
  then obtain r where r: "record_access (ArcReplacer_new 2) (FrameId 0) (PageId 7) = (Ok r :: (unit, ArcReplacer) result)"
    "refines r (spec_access (FrameId 0) (PageId 7) (empty_arc 2))"
    using record_access_ok [OF new_refined [of 2], where 'e = unit] by metis
  obtain r' where r': "set_evictable r (FrameId 0) True = (Ok r' :: (unit, ArcReplacer) result)"
    using set_evictable_refined [OF r(2)] by blast
  have "arc_reach 2 r" by (rule reach_access [OF reach_new _ r(1)]) (simp add: adm)
  then have "arc_reach 2 r'" by (rule reach_flag [OF _ r'])
  then show ?thesis using r r' by (simp add: one_page_def)
qed

section \<open>The properties of the replacer\<close>

text \<open>C5. Recording an access on any replacer state that represents an adaptive replacement cache never panics
  when the page is resident, its frame is tracked or there is room, and does exactly what the algorithm on plain lists
  does: a hit goes to the front of the frequent list, a ghost hit moves the target and revives the page,
  a first access trims a ghost list when full and enters the recent list.\<close>

theorem record_access_refines:
  assumes "refines r a" "admissible r f \<or> resident_page r p"
  shows "\<exists>r'. record_access r f p = (Ok r' :: ('e, ArcReplacer) result) \<and> refines r' (spec_access f p a)"
  using record_access_ok [OF assms(1)] resident_page_in [OF assms(1)] assms(2) by blast

theorem record_access_refines_witness:
  "\<exists>r'. record_access (ArcReplacer_new 2) (FrameId 0) (PageId 7) = (Ok r' :: (unit, ArcReplacer) result) \<and>
     refines r' (spec_access (FrameId 0) (PageId 7) (empty_arc 2))"
  by (rule record_access_refines [OF new_refined]) (simp add: new_admits)

text \<open>C6. Evicting picks the frame the algorithm on plain lists picks (the least recent evictable page of the list that
  is over its share, else of the other list), moves its page to the front of the matching ghost list, and returns
  no frame exactly when that algorithm has none; it never panics.\<close>

theorem evict_refines:
  assumes "refines r a"
  shows "\<exists>r'. evict r = (Ok (fst (spec_evict a), r') :: ('e, FrameId option \<times> ArcReplacer) result) \<and>
    refines r' (snd (spec_evict a))"
  using evict_refined [OF assms] .

theorem evict_refines_witness:
  "\<exists>r'. evict one_page = (Ok (Some (FrameId 0), r') :: (unit, FrameId option \<times> ArcReplacer) result) \<and>
    refines r' (snd (spec_evict one_arc))"
proof -
  have "fst (spec_evict one_arc) = Some (FrameId 0)" by code_simp
  then show ?thesis using evict_refines [OF one_page_refines, where 'e = unit] by simp
qed

text \<open>C7. An eviction that is begun and not committed leaves no trace: undoing it gives back the very state the
  replacer had, links, indices, counters and target included.\<close>

theorem undo_after_begin:
  assumes "refines r a" and "begin_eviction r = (Ok (Some u, r') :: ('e, EvictionUndo option \<times> ArcReplacer) result)"
  shows "undo_eviction r' u = (Ok r :: ('e, ArcReplacer) result)"
proof -
  obtain L where inv: "arc_inv r L" using assms(1) by (rule refinesE)
  have "victim_in r L \<noteq> None" using begin_eviction_ok(1) [OF inv, where 'e = 'e] assms(2) by fastforce
  then obtain res i where "victim_in r L = Some (res, i)" by auto
  from begin_eviction_ok(2) [OF inv this, where 'e = 'e] assms(2)
  obtain f where "u = \<lparr>eu_node_idx = i, eu_frame_id = f, eu_list = res, eu_more_recent = n_prev (nodes r ! i)\<rparr>"
    "evicted r L (ResidentList_list res) i f r'" by auto
  then show ?thesis using undo_eviction_restores [OF inv, where 'e = 'e] by simp
qed

theorem undo_after_begin_witness:
  "\<exists>u r'. begin_eviction one_page = (Ok (Some u, r') :: (unit, EvictionUndo option \<times> ArcReplacer) result) \<and>
     undo_eviction r' u = (Ok one_page :: (unit, ArcReplacer) result)"
proof -
  have "(case begin_eviction one_page of (Ok (Some u, r') :: (unit, EvictionUndo option \<times> ArcReplacer) result) \<Rightarrow> True | _ \<Rightarrow> False)"
    by code_simp
  then obtain u r' where e: "begin_eviction one_page = (Ok (Some u, r') :: (unit, EvictionUndo option \<times> ArcReplacer) result)"
    by (auto split: result.splits option.splits)
  show ?thesis using undo_after_begin [OF one_page_refines e] e by blast
qed

text \<open>C8. In every state a replacer of capacity \<open>c\<close> reaches, its four lists hold no page twice, the resident lists
  together and the recent list with its ghosts hold at most \<open>c\<close> pages, all four at most \<open>2 * c\<close>, the target is at
  most \<open>c\<close>, and the reported size is the number of evictable resident pages.\<close>

theorem replacer_bounds:
  assumes "arc_reach c r"
  shows "\<exists>a. refines r a \<and> distinct (map (\<lambda>(l, x). entry_page x) (entries a)) \<and>
    arc_len a Mru + arc_len a Mfu \<le> c \<and> arc_len a Mru + arc_len a GhostMru \<le> c \<and>
    arc_len a Mru + arc_len a Mfu + arc_len a GhostMru + arc_len a GhostMfu \<le> 2 * c \<and> arc_target a \<le> c \<and>
    replacer_size r = length (filter entry_flag (arc_lists a Mru @ arc_lists a Mfu))"
proof -
  obtain a where a: "refines r a" "arc_cap a = c" using arc_reach_refines [OF assms] by blast
  obtain L where L: "arc_inv r L" "a = abs_arc r L" using a(1) by (rule refinesE)
  have "distinct (map (\<lambda>(l, x). entry_page x) (entries a))" using distinct_entries [OF L(1)] L(2) by simp
  moreover have "sizes_ok c (mru_target_size r) L" using L a(2) by (simp add: arc_inv_def)
  ultimately show ?thesis using a(1) L abs_flag_count [OF L(1)]
    by (intro exI [of _ a]) (simp add: sizes_ok_def replacer_size_def)
qed

theorem replacer_bounds_witness: 
  "\<exists>a. refines one_page a \<and> distinct (map (\<lambda>(l, x). entry_page x) (entries a)) \<and>
    arc_len a Mru + arc_len a Mfu \<le> 2 \<and> arc_len a Mru + arc_len a GhostMru \<le> 2 \<and>
    arc_len a Mru + arc_len a Mfu + arc_len a GhostMru + arc_len a GhostMfu \<le> 2 * 2 \<and> arc_target a \<le> 2 \<and>
    replacer_size one_page = length (filter entry_flag (arc_lists a Mru @ arc_lists a Mfu))"
  by (rule replacer_bounds [OF one_page_reached])

end
