(* ===== verification/Rust_Str.thy ===== *)
theory Rust_Str
  imports Prelude "HOL-Library.Signed_Division"
begin

text \<open>
  What the components use of the standard library on text and signed integers: trimming, splitting, decimal
  parsing and printing of strings, and the ranges of \<open>i64\<close>.
\<close>

section \<open>Signed machine integers\<close>

text \<open>An \<open>i64\<close> is an \<open>int\<close> in range; the checked operations of the source are explicit. \<open>/\<close> and \<open>%\<close> of
  the source truncate, so they are \<open>sdiv\<close> and \<open>smod\<close>; \<open>div_euclid\<close> and \<open>rem_euclid\<close> by a positive divisor are
  \<open>div\<close> and \<open>mod\<close>.\<close>

definition I64_MIN :: int where "I64_MIN = - 9223372036854775808"
definition I64_MAX :: int where "I64_MAX = 9223372036854775807"

definition in_i64 :: "int \<Rightarrow> bool" where
  "in_i64 x \<longleftrightarrow> I64_MIN \<le> x \<and> x \<le> I64_MAX"

definition checked_i64 :: "int \<Rightarrow> int option" where
  "checked_i64 x = (if in_i64 x then Some x else None)"

section \<open>Characters and white space\<close>

text \<open>A \<open>&str\<close> is the list of its UTF-8 bytes, each a \<open>char\<close>.\<close>

definition byte_of :: "char \<Rightarrow> nat" where
  "byte_of c = of_char c"

definition is_ascii_digit :: "char \<Rightarrow> bool" where
  "is_ascii_digit c \<longleftrightarrow> 48 \<le> byte_of c \<and> byte_of c \<le> 57"

text \<open>The length in bytes of the white space character a byte list starts with, 0 when there is none: the
  \<open>White_Space\<close> characters of Unicode in their UTF-8 encoding.\<close>

fun white_len :: "nat list \<Rightarrow> nat" where
  "white_len (a # b # c # _) =
     (if (9 \<le> a \<and> a \<le> 13) \<or> a = 32 then 1
      else if a = 194 \<and> (b = 133 \<or> b = 160) then 2
      else if (a, b, c) = (225, 154, 128) \<or> a = 226 \<and> b = 128 \<and> (128 \<le> c \<and> c \<le> 138 \<or> c = 168 \<or> c = 169 \<or> c = 175) \<or>
              (a, b, c) = (226, 129, 159) \<or> (a, b, c) = (227, 128, 128) then 3 else 0)"
| "white_len [a, b] = (if (9 \<le> a \<and> a \<le> 13) \<or> a = 32 then 1 else if a = 194 \<and> (b = 133 \<or> b = 160) then 2 else 0)"
| "white_len [a] = (if (9 \<le> a \<and> a \<le> 13) \<or> a = 32 then 1 else 0)"
| "white_len [] = 0"

lemma white_len_le: "white_len xs \<le> length xs"
  by (induction xs rule: white_len.induct) auto

function trim_start :: "string \<Rightarrow> string" where
  "trim_start s = (let n = white_len (map byte_of s) in if n = 0 then s else trim_start (drop n s))"
  by auto
termination
proof (relation "measure length", simp)
  fix s x assume "x = white_len (map byte_of s)" "x \<noteq> 0"
  then show "(drop x s, s) \<in> measure length" using white_len_le [of "map byte_of s"] by (cases s) auto
qed

text \<open>The length of the white space character that ends a string: one, two or three bytes.\<close>

definition white_end :: "string \<Rightarrow> nat" where
  "white_end s =
     (let n = length s; b = map byte_of s;
          ends = (\<lambda>k. k \<le> n \<and> white_len (drop (n - k) b) = k) in
      if n = 0 then 0 else if ends 1 then 1 else if ends 2 then 2 else if ends 3 then 3 else 0)"

function trim_end :: "string \<Rightarrow> string" where
  "trim_end s = (let n = white_end s in if n = 0 then s else trim_end (take (length s - n) s))"
  by auto
termination
proof (relation "measure length", simp)
  fix s x assume "x = white_end s" "x \<noteq> 0"
  then show "(take (length s - x) s, s) \<in> measure length" by (cases s) (auto simp: white_end_def)
qed

declare trim_start.simps [simp del] trim_end.simps [simp del]

definition str_trim :: "string \<Rightarrow> string" where
  "str_trim s = trim_end (trim_start s)"

section \<open>Splitting\<close>

text \<open>\<open>split_once\<close> at the first character of a set, and \<open>split\<close> at every occurrence of a character.\<close>

fun split_once :: "(char \<Rightarrow> bool) \<Rightarrow> string \<Rightarrow> (string \<times> string) option" where
  "split_once p [] = None"
| "split_once p (c # s) =
     (if p c then Some ([], s) else map_option (\<lambda>(a, b). (c # a, b)) (split_once p s))"

fun split_on :: "char \<Rightarrow> string \<Rightarrow> string list" where
  "split_on d [] = [[]]"
| "split_on d (c # s) =
     (if c = d then [] # split_on d s
      else case split_on d s of [] \<Rightarrow> [[c]] | p # ps \<Rightarrow> (c # p) # ps)"

definition trim_end_matches :: "char \<Rightarrow> string \<Rightarrow> string" where
  "trim_end_matches c s = rev (dropWhile (\<lambda>x. x = c) (rev s))"

section \<open>Decimal digits\<close>

definition digit_char :: "nat \<Rightarrow> char" where
  "digit_char d = ''0123456789'' ! d"

fun dec :: "nat \<Rightarrow> string" where
  "dec n = (if n < 10 then [digit_char n] else dec (n div 10) @ [digit_char (n mod 10)])"

declare dec.simps [simp del]

definition digits_val :: "string \<Rightarrow> nat" where
  "digits_val s = foldl (\<lambda>acc c. 10 * acc + (byte_of c - 48)) 0 s"

text \<open>\<open>str::parse::<i64>\<close>: an optional sign, at least one digit, and a value in range.\<close>

definition parse_i64 :: "string \<Rightarrow> int option" where
  "parse_i64 s =
     (let (sg, ds) = (case s of [] \<Rightarrow> (1, []) | c # r \<Rightarrow>
            if c = CHR ''-'' then (- 1, r) else if c = CHR ''+'' then (1, r) else (1, s)) in
      if ds = [] \<or> \<not> list_all is_ascii_digit ds then None else checked_i64 (sg * int (digits_val ds)))"

text \<open>\<open>{x:0w}\<close>, zero padding to a width that counts the sign, and \<open>{s:0<w$}\<close>.\<close>

definition fmt_zero :: "nat \<Rightarrow> int \<Rightarrow> string" where
  "fmt_zero w x =
     (if x < 0 then let ds = dec (nat (- x)) in CHR ''-'' # replicate (w - Suc (length ds)) (CHR ''0'') @ ds
      else let ds = dec (nat x) in replicate (w - length ds) (CHR ''0'') @ ds)"

definition pad_right :: "nat \<Rightarrow> string \<Rightarrow> string" where
  "pad_right w s = s @ replicate (w - length s) (CHR ''0'')"


section \<open>Laws\<close>

lemma digit_cases: "(n::nat) < 10 \<Longrightarrow> n = 0 \<or> n = 1 \<or> n = 2 \<or> n = 3 \<or> n = 4 \<or> n = 5 \<or> n = 6 \<or> n = 7 \<or> n = 8 \<or> n = 9"
  by presburger

lemma digit_char_digit [simp]: "d < 10 \<Longrightarrow> is_ascii_digit (digit_char d)"
  using digit_cases [of d] by (auto simp: is_ascii_digit_def byte_of_def digit_char_def)

lemma digit_char_val [simp]: "d < 10 \<Longrightarrow> byte_of (digit_char d) = 48 + d"
  using digit_cases [of d] by (auto simp: byte_of_def digit_char_def)

lemma zero_char: "CHR ''0'' = digit_char 0" by (simp add: digit_char_def)

lemma digits_val_append: "digits_val (s @ t) = digits_val s * 10 ^ length t + digits_val t"
proof -
  have "foldl (\<lambda>acc c. 10 * acc + (byte_of c - 48)) a t = a * 10 ^ length t + foldl (\<lambda>acc c. 10 * acc + (byte_of c - 48)) 0 t"
    for a :: nat and t
  proof (induction t arbitrary: a)
    case (Cons c t)
    show ?case using Cons [of "10 * a + (byte_of c - 48)"] Cons [of "byte_of c - 48"]
      by (simp add: algebra_simps)
  qed simp
  from this [of "foldl (\<lambda>acc c. 10 * acc + (byte_of c - 48)) 0 s" t] show ?thesis by (simp add: digits_val_def)
qed

lemma digits_val_Nil [simp]: "digits_val [] = 0"
  by (simp add: digits_val_def)

lemma digits_val_zeros [simp]: "digits_val (replicate k (CHR ''0'')) = 0"
  by (induction k) (simp_all add: digits_val_def byte_of_def)

lemma digits_val_digit: "d < 10 \<Longrightarrow> digits_val [digit_char d] = d"
  by (simp add: digits_val_def)

lemma dec_props: "list_all is_ascii_digit (dec n) \<and> digits_val (dec n) = n \<and> dec n \<noteq> []"
proof (induction n rule: dec.induct)
  case (1 n)
  show ?case
  proof (cases "n < 10")
    case True
    then show ?thesis by (subst (1 2 3) dec.simps) (simp add: digits_val_digit)
  next
    case False
    then show ?thesis using 1 by (subst (1 2 3) dec.simps) (simp add: digits_val_append digits_val_digit)
  qed
qed

lemmas dec_digits [simp] = dec_props [THEN conjunct1]
lemmas dec_val [simp] = dec_props [THEN conjunct2, THEN conjunct1]
lemmas dec_nonempty [simp] = dec_props [THEN conjunct2, THEN conjunct2]

lemma dec_length: "0 < k \<Longrightarrow> n < 10 ^ k \<Longrightarrow> length (dec n) \<le> k"
proof (induction n arbitrary: k rule: dec.induct)
  case (1 n)
  show ?case
  proof (cases "n < 10")
    case True
    then show ?thesis using 1(2) by (subst dec.simps) simp
  next
    case False
    obtain j where j: "k = Suc j" "0 < j" using 1(2,3) False by (cases k; cases "k - 1") auto
    then have "n div 10 < 10 ^ j" using 1(3) by (simp add: less_mult_imp_div_less mult.commute)
    then have "length (dec (n div 10)) \<le> j" using 1(1) [of j] False j by simp
    then show ?thesis using False j by (subst dec.simps) simp
  qed
qed

lemma zeros_digits [simp]: "list_all is_ascii_digit (replicate k (CHR ''0''))"
  by (induction k) (simp_all add: is_ascii_digit_def byte_of_def)

lemma fmt_zero_length: "0 \<le> x \<Longrightarrow> x < 10 ^ w \<Longrightarrow> 0 < w \<Longrightarrow> length (fmt_zero w x) = w"
  using dec_length [of w "nat x"] by (simp add: fmt_zero_def Let_def nat_less_iff)

lemma fmt_zero_digits: "0 \<le> x \<Longrightarrow> list_all is_ascii_digit (fmt_zero w x)"
  by (simp add: fmt_zero_def Let_def)

lemma fmt_zero_val: "0 \<le> x \<Longrightarrow> int (digits_val (fmt_zero w x)) = x"
  by (simp add: fmt_zero_def Let_def digits_val_append)

lemma trim_zeros:
  obtains k where "s = trim_end_matches c s @ replicate k c" "trim_end_matches c s = [] \<or> last (trim_end_matches c s) \<noteq> c"
proof -
  let ?t = "takeWhile (\<lambda>x. x = c) (rev s)"
  have "?t = replicate (length ?t) c" by (metis (mono_tags, lifting) replicate_eqI set_takeWhileD)
  moreover have "s = trim_end_matches c s @ rev ?t"
    unfolding trim_end_matches_def rev_append [symmetric] takeWhile_dropWhile_id by simp
  moreover have "trim_end_matches c s = [] \<or> last (trim_end_matches c s) \<noteq> c"
    using hd_dropWhile [of "\<lambda>x. x = c" "rev s"] by (auto simp: trim_end_matches_def last_rev)
  ultimately show ?thesis using that by (metis rev_replicate)
qed

end
