(* ===== verification/Timestamp.thy ===== *)
theory Timestamp
  imports Rust_Str
begin

text \<open>
  TIMESTAMP literals of \<open>src/src/catalog/timestamp.rs\<close>: parsing and printing of microseconds since the Unix epoch,
  with the conversions between dates and day numbers. The day numbers of all microsecond counts are within
  \<open>+-106751992\<close>, so no operation between the checked ones leaves the range of \<open>i64\<close>.
\<close>

section \<open>Definitions\<close>

definition MICROS_PER_SECOND :: int where "MICROS_PER_SECOND = 1000000"
definition SECONDS_PER_DAY :: int where "SECONDS_PER_DAY = 86400"
definition MICROS_PER_DAY :: int where "MICROS_PER_DAY = MICROS_PER_SECOND * SECONDS_PER_DAY"
definition FRACTION_DIGITS :: nat where "FRACTION_DIGITS = 6"
definition DAYS_FROM_CIVIL_EPOCH_TO_UNIX_EPOCH :: int where "DAYS_FROM_CIVIL_EPOCH_TO_UNIX_EPOCH = 719468"
definition DAYS_PER_400_YEARS :: int where "DAYS_PER_400_YEARS = 146097"

lemmas timestamp_consts = MICROS_PER_SECOND_def SECONDS_PER_DAY_def MICROS_PER_DAY_def FRACTION_DIGITS_def
  DAYS_FROM_CIVIL_EPOCH_TO_UNIX_EPOCH_def DAYS_PER_400_YEARS_def

datatype InvalidTimestamp = InvalidTimestamp (it_literal: string)

definition fixed_digits :: "string \<Rightarrow> nat \<Rightarrow> int option" where
  "fixed_digits s len = (if length s = len \<and> list_all is_ascii_digit s then parse_i64 s else None)"

definition is_leap_year :: "int \<Rightarrow> bool" where
  "is_leap_year year \<longleftrightarrow> year smod 4 = 0 \<and> year smod 100 \<noteq> 0 \<or> year smod 400 = 0"

definition days_in_month :: "int \<Rightarrow> int \<Rightarrow> int" where
  "days_in_month year month =
     (if month = 2 \<and> is_leap_year year then 29
      else if month = 2 then 28
      else if month = 4 \<or> month = 6 \<or> month = 9 \<or> month = 11 then 30
      else 31)"

definition days_from_civil :: "int \<Rightarrow> int \<Rightarrow> int \<Rightarrow> int" where
  "days_from_civil year month day =
     (let year = (if month \<le> 2 then year - 1 else year);
          era = year div 400;
          year_of_era = year - era * 400;
          month_from_march = (month + 9) smod 12;
          day_of_year = (153 * month_from_march + 2) sdiv 5 + day - 1;
          day_of_era = year_of_era * 365 + year_of_era sdiv 4 - year_of_era sdiv 100 + day_of_year in
      era * DAYS_PER_400_YEARS + day_of_era - DAYS_FROM_CIVIL_EPOCH_TO_UNIX_EPOCH)"

definition civil_from_days :: "int \<Rightarrow> int \<times> int \<times> int" where
  "civil_from_days days =
     (let days = days + DAYS_FROM_CIVIL_EPOCH_TO_UNIX_EPOCH;
          era = days div DAYS_PER_400_YEARS;
          day_of_era = days - era * DAYS_PER_400_YEARS;
          year_of_era = (day_of_era - day_of_era sdiv 1460 + day_of_era sdiv 36524 - day_of_era sdiv 146096) sdiv 365;
          day_of_year = day_of_era - (365 * year_of_era + year_of_era sdiv 4 - year_of_era sdiv 100);
          month_from_march = (5 * day_of_year + 2) sdiv 153;
          day = day_of_year - (153 * month_from_march + 2) sdiv 5 + 1;
          month = (if month_from_march < 10 then month_from_march + 3 else month_from_march - 9);
          year = year_of_era + era * 400 + (if month \<le> 2 then 1 else 0) in
      (year, month, day))"

definition parse_date :: "string \<Rightarrow> int option" where
  "parse_date date =
     (case split_on (CHR ''-'') date of
        y # m # d # rest \<Rightarrow>
          Option.bind (fixed_digits y 4) (\<lambda>year.
          Option.bind (fixed_digits m 2) (\<lambda>month.
          Option.bind (fixed_digits d 2) (\<lambda>day.
          if rest \<noteq> [] \<or> \<not> (1 \<le> month \<and> month \<le> 12) then None
          else if day < 1 \<or> day > days_in_month year month then None
          else Some (days_from_civil year month day))))
      | _ \<Rightarrow> None)"

definition parse_time :: "string \<Rightarrow> int option" where
  "parse_time time =
     (let (hms, fraction) = (case split_once (\<lambda>c. c = CHR ''.'') time of
            Some (hms, fraction) \<Rightarrow> (hms, Some fraction) | None \<Rightarrow> (time, None)) in
      case split_on (CHR '':'') hms of
        h # m # s # rest \<Rightarrow>
          Option.bind (fixed_digits h 2) (\<lambda>hour.
          Option.bind (fixed_digits m 2) (\<lambda>minute.
          Option.bind (fixed_digits s 2) (\<lambda>second.
          if rest \<noteq> [] \<or> hour > 23 \<or> minute > 59 \<or> second > 59 then None
          else Option.bind
            (case fraction of
               None \<Rightarrow> Some 0
             | Some digits \<Rightarrow>
                 if digits = [] \<or> length digits > FRACTION_DIGITS \<or> \<not> list_all is_ascii_digit digits then None
                 else parse_i64 (pad_right FRACTION_DIGITS digits))
            (\<lambda>micros. Some (((hour * 60 + minute) * 60 + second) * MICROS_PER_SECOND + micros)))))
      | _ \<Rightarrow> None)"

definition parse_parts :: "string \<Rightarrow> int option" where
  "parse_parts s =
     (let (date, time) = (case split_once (\<lambda>c. c = CHR '' '' \<or> c = CHR ''T'') s of
            Some (date, time) \<Rightarrow> (date, Some (trim_start time)) | None \<Rightarrow> (s, None)) in
      Option.bind (parse_date date) (\<lambda>days.
      Option.bind (case time of None \<Rightarrow> Some 0 | Some t \<Rightarrow> parse_time t) (\<lambda>micros_of_day.
      Option.bind (checked_i64 (days * MICROS_PER_DAY)) (\<lambda>x. checked_i64 (x + micros_of_day)))))"

definition timestamp_parse :: "string \<Rightarrow> (InvalidTimestamp, int) result" where
  "timestamp_parse literal = ok_or (parse_parts (str_trim literal)) (InvalidTimestamp literal)"

definition timestamp_format :: "int \<Rightarrow> string" where
  "timestamp_format micros =
     (let days = micros div MICROS_PER_DAY;
          micros_of_day = micros mod MICROS_PER_DAY;
          (year, month, day) = civil_from_days days;
          seconds_of_day = micros_of_day sdiv MICROS_PER_SECOND;
          fraction = micros_of_day smod MICROS_PER_SECOND;
          hour = seconds_of_day sdiv 3600;
          minute = seconds_of_day sdiv 60 smod 60;
          second = seconds_of_day smod 60;
          out = fmt_zero 4 year @ ''-'' @ fmt_zero 2 month @ ''-'' @ fmt_zero 2 day @ '' '' @
                fmt_zero 2 hour @ '':'' @ fmt_zero 2 minute @ '':'' @ fmt_zero 2 second in
      if fraction \<noteq> 0 then out @ ''.'' @ trim_end_matches (CHR ''0'') (fmt_zero 6 fraction) else out)"


section \<open>The calendar\<close>

text \<open>The Gregorian calendar as a walk from day to day.\<close>

definition valid_date :: "int \<Rightarrow> int \<Rightarrow> int \<Rightarrow> bool" where
  "valid_date y m d \<longleftrightarrow> 1 \<le> m \<and> m \<le> 12 \<and> 1 \<le> d \<and> d \<le> days_in_month y m"

definition next_day :: "int \<times> int \<times> int \<Rightarrow> int \<times> int \<times> int" where
  "next_day = (\<lambda>(y, m, d). if d < days_in_month y m then (y, m, d + 1) else if m < 12 then (y, m + 1, 1) else (y + 1, 1, 1))"

lemma sdiv_nonneg: "0 \<le> a \<Longrightarrow> 0 < b \<Longrightarrow> a sdiv b = (a::int) div b"
  by (simp add: signed_divide_int_def sgn_if)

lemma smod_nonneg: "0 \<le> a \<Longrightarrow> 0 < b \<Longrightarrow> a smod b = (a::int) mod b"
  by (cases "a = 0") (simp_all add: signed_modulo_int_def)

lemma smod_0_iff: "a smod b = 0 \<longleftrightarrow> b dvd (a::int)"
proof -
  have "a smod b = 0 \<longleftrightarrow> a = 0 \<or> \<bar>b\<bar> dvd \<bar>a\<bar>" by (simp add: signed_modulo_int_def sgn_0_0 mod_eq_0_iff_dvd del: abs_dvd_iff dvd_abs_iff)
  then show ?thesis by auto
qed

lemma leap_iff: "is_leap_year y \<longleftrightarrow> 4 dvd y \<and> \<not> 100 dvd y \<or> 400 dvd y"
  by (simp add: is_leap_year_def smod_0_iff)

text \<open>The first day of the year \<open>y\<close> that starts in March, counted from year 0.\<close>

definition year_start :: "int \<Rightarrow> int" where
  "year_start y = 365 * y + y div 4 - y div 100 + y div 400"

definition month_start :: "int \<Rightarrow> int" where
  "month_start k = (153 * k + 2) div 5"

lemma div_step: "0 < k \<Longrightarrow> (y + 1) div k = y div k + (if k dvd y + 1 then 1 else (0::int))"
proof -
  assume k: "0 < k"
  have m: "0 \<le> y mod k" "y mod k < k" using k by simp_all
  have y: "y + 1 = k * (y div k) + (y mod k + 1)" using mult_div_mod_eq [of k y] by linarith
  show ?thesis
  proof (cases "y mod k + 1 = k")
    case True
    then have e: "y + 1 = k * (y div k + 1)" using y by (simp add: algebra_simps)
    then have "k dvd y + 1" by (metis dvd_triv_left)
    then show ?thesis using e k by (metis nonzero_mult_div_cancel_left less_irrefl)
  next
    case False
    then have "(y + 1) div k = y div k" "(y + 1) mod k = y mod k + 1"
      using int_div_pos_eq [OF y] int_mod_pos_eq [OF y] m False by simp_all
    then show ?thesis using m by (simp add: dvd_eq_mod_eq_0)
  qed
qed

lemma year_start_step: "year_start (y + 1) = year_start y + 365 + (if is_leap_year (y + 1) then 1 else 0)"
proof -
  have "400 dvd y + 1 \<Longrightarrow> 100 dvd y + 1" "100 dvd y + 1 \<Longrightarrow> 4 dvd y + 1" by presburger+
  then show ?thesis unfolding year_start_def leap_iff div_step [of 4 y, simplified] div_step [of 100 y, simplified] div_step [of 400 y, simplified]
    by auto
qed

lemma days_from_civil_eq:
  assumes "1 \<le> m" "m \<le> 12"
  shows "days_from_civil y m d =
    year_start (if m \<le> 2 then y - 1 else y) + month_start ((m + 9) mod 12) + d - 1 - 719468"
proof -
  define Y where "Y = (if m \<le> 2 then y - 1 else y)"
  define e where "e = Y div 400"
  define r where "r = Y - e * 400"
  have r: "0 \<le> r" "r < 400" "Y = 400 * e + r" by (auto simp: r_def e_def minus_div_mult_eq_mod)
  have ds: "Y div 4 = 100 * e + r div 4" "Y div 100 = 4 * e + r div 100" 
    using div_mult_self1 [of 4 r "100 * e"] div_mult_self1 [of 100 r "4 * e"] by (simp_all add: r(3) add.commute)
  have "year_start Y = e * 146097 + (r * 365 + r div 4 - r div 100)"
    unfolding year_start_def ds e_def [symmetric] unfolding r(3) by simp
  moreover have "days_from_civil y m d = e * 146097 + (r * 365 + r div 4 - r div 100) + month_start ((m + 9) mod 12) + d - 1 - 719468"
    using assms r(1) unfolding days_from_civil_def Let_def Y_def [symmetric] e_def [symmetric] r_def [symmetric] month_start_def
    by (simp add: sdiv_nonneg smod_nonneg timestamp_consts)
  ultimately show ?thesis by (simp add: Y_def)
qed

lemma month_cases: "1 \<le> (m::int) \<Longrightarrow> m \<le> 12 \<Longrightarrow> m = 1 \<or> m = 2 \<or> m = 3 \<or> m = 4 \<or> m = 5 \<or> m = 6 \<or>
    m = 7 \<or> m = 8 \<or> m = 9 \<or> m = 10 \<or> m = 11 \<or> m = 12"
  by presburger

lemma days_step:
  assumes "valid_date y m d" and n: "next_day (y, m, d) = (y', m', d')"
  shows "valid_date y' m' d'" "days_from_civil y' m' d' = days_from_civil y m d + 1"
proof -
  have m: "1 \<le> m" "m \<le> 12" "1 \<le> d" "d \<le> days_in_month y m" using assms(1) by (auto simp: valid_date_def)
  have pos: "1 \<le> days_in_month a b" for a b by (simp add: days_in_month_def)
  note ys = year_start_step [of "y - 1", simplified]
  have "valid_date y' m' d' \<and> days_from_civil y' m' d' = days_from_civil y m d + 1"
  proof (cases "d < days_in_month y m")
    case True
    then show ?thesis using n m by (auto simp: next_day_def valid_date_def days_from_civil_eq)
  next
    case False
    then have d: "d = days_in_month y m" using m by simp
    have m': "1 \<le> m'" "m' \<le> 12" "valid_date y' m' d'" using n m d pos by (auto simp: next_day_def valid_date_def split: if_splits)
    show ?thesis
      using month_cases [OF m(1,2)] n m' d ys
      by (elim disjE) (auto simp: next_day_def days_from_civil_eq month_start_def days_in_month_def)
  qed
  then show "valid_date y' m' d'" "days_from_civil y' m' d' = days_from_civil y m d + 1" by simp_all
qed


section \<open>Inverse of the day number\<close>

text \<open>The year of the era from the day of the era, as \<open>civil_from_days\<close> computes it.\<close>

definition era_year :: "int \<Rightarrow> int" where
  "era_year n = (n - n div 1460 + n div 36524 - n div 146096) div 365"

lemma era_year_mono_step:
  assumes "0 \<le> n"
  shows "era_year n \<le> era_year (n + 1)"
proof -
  have "146096 dvd n + 1 \<Longrightarrow> 36524 dvd n + 1" using dvd_trans [of 36524 146096 "n + 1"] dvd_triv_left [of "36524::int" 4] by simp
  then show ?thesis
    unfolding era_year_def div_step [of 1460 n, simplified] div_step [of 36524 n, simplified] div_step [of 146096 n, simplified]
    by (intro zdiv_mono1) auto
qed

lemma era_year_mono:
  assumes "0 \<le> m" "m \<le> n"
  shows "era_year m \<le> era_year n"
  using assms(2)
proof (induction rule: int_ge_induct)
  case (step i)
  then show ?case using era_year_mono_step [of i] assms(1) by simp
qed simp

lemma era_year_ends: "list_all (\<lambda>y. era_year (year_start y) = y \<and> era_year (year_start (y + 1) - 1) = y) [0..399]"
  by code_simp

lemma era_year_ok:
  assumes "0 \<le> y" "y < 400" "year_start y \<le> n" "n < year_start (y + 1)"
  shows "era_year n = y"
proof -
  have e: "era_year (year_start y) = y" "era_year (year_start (y + 1) - 1) = y"
    using era_year_ends assms(1,2) by (auto simp: list_all_iff)
  have "0 \<le> year_start y" using assms(1,2) by (simp add: year_start_def zdiv_mono2)
  then have "y \<le> era_year n" "era_year n \<le> y"
    using era_year_mono [of "year_start y" n] era_year_mono [of n "year_start (y + 1) - 1"] e assms by auto
  then show ?thesis by simp
qed

lemma year_exists:
  assumes "0 \<le> n" "n < year_start (int k)"
  shows "\<exists>y. 0 \<le> y \<and> y < int k \<and> year_start y \<le> n \<and> n < year_start (y + 1)"
  using assms
proof (induction k)
  case 0
  then show ?case by (simp add: year_start_def)
next
  case (Suc k)
  show ?case
  proof (cases "n < year_start (int k)")
    case True
    then show ?thesis using Suc by fastforce
  next
    case False
    then show ?thesis using Suc.prems by (intro exI [of _ "int k"]) (simp add: add.commute)
  qed
qed

lemma era_start: "year_start (400 * e + r) = 146097 * e + year_start r"
proof -
  have "(400 * e + r) div 4 = 100 * e + r div 4" "(400 * e + r) div 100 = 4 * e + r div 100" "(400 * e + r) div 400 = e + r div 400"
    using div_mult_self1 [of 4 r "100 * e"] div_mult_self1 [of 100 r "4 * e"] div_mult_self1 [of 400 r e]
    by (simp_all add: add.commute mult.commute)
  then show ?thesis by (simp add: year_start_def)
qed

text \<open>The last day of a year that starts in March is the end of February.\<close>

definition year_len :: "int \<Rightarrow> int" where
  "year_len y = (if is_leap_year (y + 1) then 366 else 365)"

lemma year_len_eq: "year_start (y + 1) = year_start y + year_len y"
  by (simp add: year_start_step year_len_def)

lemma month_of_day:
  assumes "valid_date y m d"
  defines "k \<equiv> (m + 9) mod 12"
  defines "t \<equiv> month_start k + d - 1"
  shows "0 \<le> t" "t < year_len (if m \<le> 2 then y - 1 else y)" "(5 * t + 2) div 153 = k"
    "m = (if k < 10 then k + 3 else k - 9)"
proof -
  have m: "1 \<le> m" "m \<le> 12" "1 \<le> d" "d \<le> days_in_month y m" using assms(1) by (auto simp: valid_date_def)
  have "0 \<le> t \<and> t < year_len (if m \<le> 2 then y - 1 else y) \<and> (5 * t + 2) div 153 = k \<and> m = (if k < 10 then k + 3 else k - 9)"
    using month_cases [OF m(1,2)] m(3,4)
    by (elim disjE) (auto simp: k_def t_def month_start_def days_in_month_def year_len_def split: if_splits)
  then show "0 \<le> t" "t < year_len (if m \<le> 2 then y - 1 else y)" "(5 * t + 2) div 153 = k"
    "m = (if k < 10 then k + 3 else k - 9)" by blast+
qed

lemma civil_from_days_eq:
  assumes y: "n + 719468 = year_start Y + t" "0 \<le> t" "t < year_len Y"
  defines "k \<equiv> (5 * t + 2) div 153"
  defines "m \<equiv> (if k < 10 then k + 3 else k - 9)"
  shows "civil_from_days n = (Y + (if m \<le> 2 then 1 else 0), m, t - month_start k + 1)"
proof -
  define e where "e = Y div 400"
  define r where "r = Y mod 400"
  have r: "0 \<le> r" "r < 400" "Y = 400 * e + r" by (auto simp: r_def e_def)
  have n: "n + 719468 = 146097 * e + (year_start r + t)" using y(1) era_start [of e r] r(3) by simp
  have b: "year_start r \<le> year_start r + t" "year_start r + t < year_start (r + 1)"
    using y era_start [of e r] era_start [of e "r + 1"] year_len_eq [of Y] r(3) by (simp_all add: add.assoc)
  have s: "0 \<le> year_start r" using r by (simp add: year_start_def zdiv_mono2)
  have top: "year_start (r + 1) \<le> 146097"
    using r by (simp add: year_start_def)
  have d: "(n + 719468) div 146097 = e" using int_div_pos_eq [OF n] b s top y(2) by simp
  have yr: "era_year (year_start r + t) = r" using era_year_ok [OF r(1,2) b] .
  have nn: "0 \<le> year_start r + t" using s y(2) by simp
  define x where "x = year_start r + t"
  have x: "0 \<le> x" "x = n + 719468 - e * 146097" using nn n by (simp_all add: x_def)
  have E2: "(x - x sdiv 1460 + x sdiv 36524 - x sdiv 146096) sdiv 365 = r"
  proof -
    have "x div 1460 \<le> x" "x div 146096 \<le> x div 36524" using x(1) zdiv_mono2 [of x 1 1460] zdiv_mono2 [of x 36524 146096] by simp_all
    then have "0 \<le> x - x div 1460 + x div 36524 - x div 146096" by linarith
    then show ?thesis using yr x(1) by (simp add: sdiv_nonneg era_year_def x_def [symmetric])
  qed
  have E3: "x - (365 * r + r sdiv 4 - r sdiv 100) = t" using r by (simp add: year_start_def sdiv_nonneg x_def)
  have E4: "(5 * t + 2) sdiv 153 = k" using y(2) by (simp add: k_def sdiv_nonneg)
  then have "0 \<le> k" using y(2) by (simp add: k_def)
  then have E5: "(153 * k + 2) sdiv 5 = month_start k" by (simp add: month_start_def sdiv_nonneg)
  show ?thesis
    unfolding civil_from_days_def Let_def timestamp_consts d x(2) [symmetric] E2 E3 E4 E5 m_def [symmetric]
    by (simp add: r(3))
qed

lemma civil_of_days:
  assumes "valid_date y m d"
  shows "civil_from_days (days_from_civil y m d) = (y, m, d)"
proof -
  have m: "1 \<le> m" "m \<le> 12" using assms by (auto simp: valid_date_def)
  note k = month_of_day [OF assms]
  define t where "t = month_start ((m + 9) mod 12) + d - 1"
  have "days_from_civil y m d + 719468 = year_start (if m \<le> 2 then y - 1 else y) + t"
    using m by (simp add: days_from_civil_eq t_def)
  from civil_from_days_eq [OF this k(1,2) [folded t_def], unfolded k(3) [folded t_def], folded k(4)]
  show ?thesis by (simp add: t_def)
qed

lemma date_exists:
  shows "\<exists>y m d. valid_date y m d \<and> days_from_civil y m d = n"
proof -
  define e where "e = (n + 719468) div 146097"
  define x where "x = (n + 719468) mod 146097"
  have x: "0 \<le> x" "x < year_start (int 400)" "n + 719468 = 146097 * e + x"
    by (simp_all add: x_def e_def year_start_def)
  from year_exists [OF x(1,2)] obtain r where r: "year_start r \<le> x" "x < year_start (r + 1)" by auto
  define Y where "Y = 400 * e + r"
  define t where "t = x - year_start r"
  have t: "0 \<le> t" "t < year_len Y" "n + 719468 = year_start Y + t"
    using r x(3) era_start [of e r] era_start [of e "r + 1"] year_len_eq [of Y] by (simp_all add: t_def Y_def add.assoc)
  define k where "k = (5 * t + 2) div 153"
  define m where "m = (if k < 10 then k + 3 else k - 9)"
  define y where "y = Y + (if m \<le> 2 then 1 else 0)"
  have k: "0 \<le> k" "k \<le> 11" using t(1,2) by (auto simp: k_def year_len_def split: if_splits)
  then have "k = 0 \<or> k = 1 \<or> k = 2 \<or> k = 3 \<or> k = 4 \<or> k = 5 \<or> k = 6 \<or> k = 7 \<or> k = 8 \<or> k = 9 \<or> k = 10 \<or> k = 11" by presburger
  moreover have "153 * k \<le> 5 * t + 2" "5 * t + 2 < 153 * k + 153" unfolding k_def by presburger+
  ultimately have "valid_date y m (t - month_start k + 1) \<and> (m + 9) mod 12 = k"
    using t(1,2)
    by (elim disjE) (auto simp: valid_date_def month_start_def days_in_month_def m_def y_def year_len_def split: if_splits)
  moreover have "(if m \<le> 2 then y - 1 else y) = Y" by (simp add: y_def)
  moreover have "1 \<le> m" "m \<le> 12" using k by (simp_all add: m_def)
  ultimately show ?thesis using t(3) days_from_civil_eq [of m y "t - month_start k + 1"] by (intro exI [of _ y] exI [of _ m] exI) auto
qed

lemma days_of_civil:
  assumes "civil_from_days n = (y, m, d)"
  shows "valid_date y m d" "days_from_civil y m d = n"
proof -
  obtain a b c where "valid_date a b c" "days_from_civil a b c = n" using date_exists by blast
  with civil_of_days [of a b c] assms show "valid_date y m d" "days_from_civil y m d = n" by auto
qed


section \<open>Printing and parsing\<close>

lemma split_once_app: "\<forall>x \<in> set a. \<not> p x \<Longrightarrow> p c \<Longrightarrow> split_once p (a @ c # b) = Some (a, b)"
  by (induction a) auto

lemma split_once_none: "\<forall>x \<in> set a. \<not> p x \<Longrightarrow> split_once p a = None"
  by (induction a) auto

lemma split_on_none: "d \<notin> set a \<Longrightarrow> split_on d a = [a]"
  by (induction a) auto

lemma split_on_app: "d \<notin> set a \<Longrightarrow> split_on d (a @ d # b) = a # split_on d b"
  by (induction a) auto

lemma fixed_fmt: "0 \<le> x \<Longrightarrow> x < 10 ^ w \<Longrightarrow> 0 < w \<Longrightarrow> w \<le> 6 \<Longrightarrow> fixed_digits (fmt_zero w x) w = Some x"
proof -
  assume x: "0 \<le> x" "x < 10 ^ w" "0 < w" "w \<le> 6"
  let ?s = "fmt_zero w x"
  have l: "length ?s = w" "list_all is_ascii_digit ?s" using x by (simp_all add: fmt_zero_length fmt_zero_digits)
  then obtain c r where c: "?s = c # r" using x(3) by (cases ?s) auto
  then have "c \<noteq> CHR ''-''" "c \<noteq> CHR ''+''" using l(2) by (auto simp: is_ascii_digit_def byte_of_def)
  moreover have "(10::int) ^ w \<le> 10 ^ 6" using x(4) by (intro power_increasing) simp_all
  ultimately show ?thesis using x l c fmt_zero_val [OF x(1), of w]
    by (simp add: fixed_digits_def parse_i64_def checked_i64_def in_i64_def I64_MIN_def I64_MAX_def)
qed

lemma digits_free: "list_all is_ascii_digit s \<Longrightarrow> \<not> is_ascii_digit c \<Longrightarrow> c \<notin> set s"
  by (auto simp: list_all_iff)

lemma not_digits [simp]: "\<not> is_ascii_digit (CHR ''-'')" "\<not> is_ascii_digit (CHR '':'')" "\<not> is_ascii_digit (CHR ''.'')"
  "\<not> is_ascii_digit (CHR '' '')" "\<not> is_ascii_digit (CHR ''T'')"
  by (simp_all add: is_ascii_digit_def byte_of_def)

lemma white_len_ascii: "32 < a \<Longrightarrow> a < 128 \<Longrightarrow> white_len (a # r) = 0"
  by (cases r rule: list.exhaust; cases "tl r") auto

lemma trim_start_id: "32 < byte_of c \<Longrightarrow> byte_of c < 128 \<Longrightarrow> trim_start (c # s) = c # s"
  by (subst trim_start.simps) (simp add: white_len_ascii)

lemma white_end_ascii:
  assumes "32 < byte_of c" "byte_of c < 128"
  shows "white_end (s @ [c]) = 0"
proof -
  have 1: "white_len [byte_of c] \<noteq> 1" using assms by auto
  have 2: "white_len [a, byte_of c] \<noteq> 2" for a using assms by auto
  have 3: "white_len [a, b, byte_of c] \<noteq> 3" for a b using assms by auto
  have n2: "white_len (drop (length s + 1 - 2) (map byte_of (s @ [c]))) \<noteq> 2" if "2 \<le> length s + 1"
  proof -
    from that have "s \<noteq> []" by auto
    then obtain t a where "s = t @ [a]" by (cases s rule: rev_cases) auto
    then show ?thesis using 2 by simp
  qed
  have n3: "white_len (drop (length s + 1 - 3) (map byte_of (s @ [c]))) \<noteq> 3" if "3 \<le> length s + 1"
  proof -
    from that have "s \<noteq> []" by auto
    then obtain u b where u: "s = u @ [b]" by (cases s rule: rev_cases) auto
    from that u have "u \<noteq> []" by auto
    then obtain t a where "u = t @ [a]" by (cases u rule: rev_cases) auto
    then show ?thesis using 3 u by simp
  qed
  show ?thesis using 1 n2 n3 by (auto simp: white_end_def Let_def)
qed

lemma trim_id: "32 < byte_of c \<Longrightarrow> byte_of c < 128 \<Longrightarrow> 32 < byte_of d \<Longrightarrow> byte_of d < 128 \<Longrightarrow> s = c # r \<Longrightarrow> s = q @ [d] \<Longrightarrow>
  str_trim s = s"
  using white_end_ascii [of d q] by (subst str_trim_def) (simp add: trim_start_id, subst trim_end.simps, simp)

lemma fraction_round:
  assumes "0 < f" "f < 1000000"
  defines "t \<equiv> trim_end_matches (CHR ''0'') (fmt_zero 6 f)"
  shows "t \<noteq> []" "length t \<le> 6" "list_all is_ascii_digit t" "parse_i64 (pad_right 6 t) = Some f"
proof -
  let ?s = "fmt_zero 6 f"
  have l: "length ?s = 6" using assms by (intro fmt_zero_length) simp_all
  obtain k where k: "?s = t @ replicate k (CHR ''0'')" using trim_zeros [where s = ?s and c = "CHR ''0''"] by (metis t_def)
  show "t \<noteq> []"
  proof
    assume "t = []"
    then have "digits_val ?s = 0" using k by simp
    then show False using fmt_zero_val [of f 6] assms by simp
  qed
  have "length t + k = 6" using l k by (metis length_append length_replicate)
  then have "pad_right 6 t = ?s" "length t \<le> 6" using k by (auto simp: pad_right_def)
  then show "length t \<le> 6" "parse_i64 (pad_right 6 t) = Some f"
    using fixed_fmt [of f 6] assms l fmt_zero_digits [of f 6] by (simp_all add: fixed_digits_def)
  show "list_all is_ascii_digit t" using fmt_zero_digits [of f 6] assms k by (metis list_all_append less_imp_le)
qed


lemma digits_val_less: "list_all is_ascii_digit s \<Longrightarrow> digits_val s < 10 ^ length s"
proof (induction s rule: rev_induct)
  case (snoc c s)
  have "byte_of c - 48 < 10" using snoc.prems by (auto simp: is_ascii_digit_def)
  then have "digits_val s * 10 + (byte_of c - 48) < (digits_val s + 1) * 10" by simp
  also have "\<dots> \<le> 10 ^ length s * 10" using snoc by (intro mult_right_mono) auto
  finally show ?case by (simp add: digits_val_append) (simp add: digits_val_def mult.commute)
qed simp

definition date_text :: "int \<Rightarrow> int \<Rightarrow> int \<Rightarrow> string" where
  "date_text y m d = fmt_zero 4 y @ ''-'' @ fmt_zero 2 m @ ''-'' @ fmt_zero 2 d"

definition time_text :: "int \<Rightarrow> int \<Rightarrow> int \<Rightarrow> int \<Rightarrow> string" where
  "time_text h mi s f = fmt_zero 2 h @ '':'' @ fmt_zero 2 mi @ '':'' @ fmt_zero 2 s @
     (if f \<noteq> 0 then ''.'' @ trim_end_matches (CHR ''0'') (fmt_zero 6 f) else '''')"

lemma year_text_ok: "0 \<le> y \<Longrightarrow> fixed_digits (fmt_zero 4 y) 4 = (if y \<le> 9999 then Some y else None)"
proof (cases "y \<le> 9999")
  case False
  assume y: "0 \<le> y"
  have "int (digits_val (fmt_zero 4 y)) = y" using y by (rule fmt_zero_val)
  then have "length (fmt_zero 4 y) \<noteq> 4" using digits_val_less [OF fmt_zero_digits [OF y, of 4]] False by auto
  then show ?thesis using False by (simp add: fixed_digits_def)
qed (simp add: fixed_fmt)

lemma parse_date_text:
  assumes "valid_date y m d"
  shows "parse_date (date_text y m d) = (if 0 \<le> y \<and> y \<le> 9999 then Some (days_from_civil y m d) else None)"
proof (cases "0 \<le> y")
  case True
  have m: "1 \<le> m" "m \<le> 12" "1 \<le> d" "d \<le> days_in_month y m" using assms by (auto simp: valid_date_def)
  have d: "d < 100" using m(4) by (auto simp: days_in_month_def split: if_splits)
  have "CHR ''-'' \<notin> set (fmt_zero 4 y)" "CHR ''-'' \<notin> set (fmt_zero 2 m)" "CHR ''-'' \<notin> set (fmt_zero 2 d)"
    using True m by (simp_all add: digits_free fmt_zero_digits)
  then have "split_on (CHR ''-'') (date_text y m d) = [fmt_zero 4 y, fmt_zero 2 m, fmt_zero 2 d]"
    by (simp add: date_text_def split_on_app split_on_none)
  then show ?thesis using True m d by (simp add: parse_date_def year_text_ok fixed_fmt)
next
  case False
  obtain r where r: "date_text y m d = CHR ''-'' # r" using False by (simp add: date_text_def fmt_zero_def Let_def)
  show ?thesis using False by (simp add: parse_date_def r fixed_digits_def split: list.splits)
qed

lemma parse_time_text:
  assumes "0 \<le> h" "h \<le> 23" "0 \<le> mi" "mi \<le> 59" "0 \<le> s" "s \<le> 59" "0 \<le> f" "f < 1000000"
  shows "parse_time (time_text h mi s f) = Some (((h * 60 + mi) * 60 + s) * MICROS_PER_SECOND + f)"
proof -
  let ?hms = "fmt_zero 2 h @ '':'' @ fmt_zero 2 mi @ '':'' @ fmt_zero 2 s"
  let ?f = "if f \<noteq> 0 then Some (trim_end_matches (CHR ''0'') (fmt_zero 6 f)) else None"
  have dg: "list_all is_ascii_digit (fmt_zero 2 h)" "list_all is_ascii_digit (fmt_zero 2 mi)" "list_all is_ascii_digit (fmt_zero 2 s)"
    using assms by (simp_all add: fmt_zero_digits)
  then have "\<forall>x \<in> set ?hms. \<not> x = CHR ''.''" by (auto simp: list_all_iff)
  then have so: "(case split_once (\<lambda>c. c = CHR ''.'') (time_text h mi s f) of
      Some (hms, fraction) \<Rightarrow> (hms, Some fraction) | None \<Rightarrow> (time_text h mi s f, None)) = (?hms, ?f)"
    using split_once_app [of ?hms "\<lambda>c. c = CHR ''.''" "CHR ''.''" "trim_end_matches (CHR ''0'') (fmt_zero 6 f)"]
      split_once_none [of ?hms "\<lambda>c. c = CHR ''.''"]
    by (cases "f = 0") (simp_all add: time_text_def)
  have sp: "split_on (CHR '':'') ?hms = [fmt_zero 2 h, fmt_zero 2 mi, fmt_zero 2 s]"
    using dg by (simp add: split_on_app split_on_none digits_free)
  show ?thesis
    unfolding parse_time_def Let_def so prod.case sp using assms fraction_round [of f]
    by (cases "f = 0") (simp_all add: fixed_fmt FRACTION_DIGITS_def not_less)
qed

lemma format_text:
  assumes "civil_from_days (x div MICROS_PER_DAY) = (y, m, d)"
  defines "q \<equiv> x mod MICROS_PER_DAY div MICROS_PER_SECOND"
  shows "timestamp_format x = date_text y m d @ '' '' @
    time_text (q div 3600) (q div 60 mod 60) (q mod 60) (x mod MICROS_PER_DAY mod MICROS_PER_SECOND)"
proof -
  have n: "0 \<le> x mod MICROS_PER_DAY" by (simp add: timestamp_consts)
  then have q: "0 \<le> q" by (simp add: q_def timestamp_consts)
  have "x mod MICROS_PER_DAY sdiv MICROS_PER_SECOND = q"
    "x mod MICROS_PER_DAY smod MICROS_PER_SECOND = x mod MICROS_PER_DAY mod MICROS_PER_SECOND"
    "q sdiv 3600 = q div 3600" "q sdiv 60 smod 60 = q div 60 mod 60" "q smod 60 = q mod 60"
    using n q by (simp_all add: q_def sdiv_nonneg smod_nonneg timestamp_consts)
  then show ?thesis using assms(1) by (simp add: timestamp_format_def Let_def date_text_def time_text_def)
qed


lemma fmt_zero_chars: "c \<in> set (fmt_zero w x) \<Longrightarrow> is_ascii_digit c \<or> c = CHR ''-''"
  using dec_digits [of "nat x"] dec_digits [of "nat (- x)"] zeros_digits [of 1]
  by (auto simp: fmt_zero_def Let_def list_all_iff split: if_splits)

lemma date_chars: "c \<in> set (date_text y m d) \<Longrightarrow> is_ascii_digit c \<or> c = CHR ''-''"
  by (auto simp: date_text_def dest: fmt_zero_chars)

lemma time_text_ends:
  assumes "0 \<le> h" "h \<le> 23" "0 \<le> s" "s \<le> 59" "0 \<le> f" "f < 1000000"
  shows "\<exists>c r. is_ascii_digit c \<and> time_text h mi s f = c # r" "\<exists>c r. is_ascii_digit c \<and> time_text h mi s f = r @ [c]"
proof -
  have "length (fmt_zero 2 h) = 2" "list_all is_ascii_digit (fmt_zero 2 h)" using assms by (simp_all add: fmt_zero_length fmt_zero_digits)
  then show "\<exists>c r. is_ascii_digit c \<and> time_text h mi s f = c # r"
    by (cases "fmt_zero 2 h") (auto simp: time_text_def)
  have s: "length (fmt_zero 2 s) = 2" "list_all is_ascii_digit (fmt_zero 2 s)" using assms by (simp_all add: fmt_zero_length fmt_zero_digits)
  show "\<exists>c r. is_ascii_digit c \<and> time_text h mi s f = r @ [c]"
  proof (cases "f = 0")
    case True
    then show ?thesis using s by (cases "fmt_zero 2 s" rule: rev_cases) (auto simp: time_text_def)
  next
    case False
    then show ?thesis using fraction_round [of f] assms
      by (cases "trim_end_matches (CHR ''0'') (fmt_zero 6 f)" rule: rev_cases) (auto simp: time_text_def)
  qed
qed

lemma date_text_first: "1 \<le> m \<Longrightarrow> 1 \<le> d \<Longrightarrow> \<exists>c r. 32 < byte_of c \<and> byte_of c < 128 \<and> date_text y m d = c # r"
proof -
  assume md: "1 \<le> m" "1 \<le> d"
  obtain c r where c: "date_text y m d = c # r" by (cases "date_text y m d") (simp_all add: date_text_def)
  then have "is_ascii_digit c \<or> c = CHR ''-''" using date_chars [of c y m d] by simp
  then show ?thesis using c by (auto simp: is_ascii_digit_def byte_of_def)
qed

lemma days_lower:
  assumes "valid_date y m d" "0 \<le> y"
  shows "- 719834 \<le> days_from_civil y m d"
proof -
  let ?Y = "if m \<le> 2 then y - 1 else y"
  have m: "1 \<le> m" "m \<le> 12" "1 \<le> d" using assms(1) by (auto simp: valid_date_def)
  have "- 366 \<le> year_start Y" if "- 1 \<le> Y" for Y
  proof (cases "Y = - 1")
    case False
    then have "0 \<le> Y" using that by simp
    then have "Y div 100 \<le> Y div 4" "0 \<le> Y div 400" by (simp_all add: zdiv_mono2 pos_imp_zdiv_nonneg_iff)
    then show ?thesis using \<open>0 \<le> Y\<close> unfolding year_start_def by linarith
  qed (simp add: year_start_def)
  then have "- 366 \<le> year_start ?Y" using assms(2) by simp
  moreover have "0 \<le> month_start ((m + 9) mod 12)" by (simp add: month_start_def pos_imp_zdiv_nonneg_iff)
  ultimately show ?thesis using days_from_civil_eq [OF m(1,2), of y d] m(3) by simp
qed

lemma parse_format:
  assumes x: "in_i64 x" and c: "civil_from_days (x div MICROS_PER_DAY) = (y, m, d)"
  shows "parse_parts (str_trim (timestamp_format x)) = (if 0 \<le> y \<and> y \<le> 9999 then Some x else None)"
proof -
  define q where "q = x mod MICROS_PER_DAY div MICROS_PER_SECOND"
  define f where "f = x mod MICROS_PER_DAY mod MICROS_PER_SECOND"
  let ?T = "time_text (q div 3600) (q div 60 mod 60) (q mod 60) f"
  have v: "valid_date y m d" "days_from_civil y m d = x div MICROS_PER_DAY" using days_of_civil [OF c] by simp_all
  then have md: "1 \<le> m" "1 \<le> d" by (simp_all add: valid_date_def)
  have fmt: "timestamp_format x = date_text y m d @ '' '' @ ?T" using format_text [OF c] by (simp add: q_def f_def)
  have q: "0 \<le> q" "q < 86400" by (auto simp: q_def timestamp_consts intro: pos_imp_zdiv_nonneg_iff [THEN iffD2] div_less_iff_less_mult [THEN iffD2])
  have h: "0 \<le> q div 3600" "q div 3600 \<le> 23" "0 \<le> q div 60 mod 60" "q div 60 mod 60 \<le> 59" "0 \<le> q mod 60" "q mod 60 \<le> 59"
    "0 \<le> f" "f < 1000000" using q by (auto simp: f_def timestamp_consts)
  obtain c1 r1 where c1: "32 < byte_of c1" "byte_of c1 < 128" "date_text y m d = c1 # r1" using date_text_first [OF md] by blast
  obtain c2 r2 where c2: "is_ascii_digit c2" "?T = r2 @ [c2]" using time_text_ends(2) [OF h(1,2,5,6,7,8)] by blast
  obtain c3 r3 where c3: "is_ascii_digit c3" "?T = c3 # r3" using time_text_ends(1) [OF h(1,2,5,6,7,8)] by blast
  have tr: "str_trim (timestamp_format x) = timestamp_format x"
    using c1 c2 by (intro trim_id [of c1 c2 _ "r1 @ '' '' @ ?T" "date_text y m d @ '' '' @ r2"]) (auto simp: fmt is_ascii_digit_def)
  have so: "split_once (\<lambda>c. c = CHR '' '' \<or> c = CHR ''T'') (timestamp_format x) = Some (date_text y m d, ?T)"
    using date_chars [of _ y m d] unfolding fmt append_Cons append_Nil by (intro split_once_app) fastforce+
  have ts: "trim_start ?T = ?T" using c3 trim_start_id [of c3 r3] by (auto simp: is_ascii_digit_def)
  have e: "(q div 3600 * 60 + q div 60 mod 60) * 60 + q mod 60 = q"
    using zdiv_zmult2_eq [of 60 q 60] by (simp add: div_mult_mod_eq)
  have r: "x div MICROS_PER_DAY * MICROS_PER_DAY + (q * MICROS_PER_SECOND + f) = x"
    using mult_div_mod_eq [of MICROS_PER_SECOND "x mod MICROS_PER_DAY"] mult_div_mod_eq [of MICROS_PER_DAY x]
    by (simp add: q_def f_def mult.commute)
  have b: "in_i64 (x div MICROS_PER_DAY * MICROS_PER_DAY)" if "0 \<le> y"
  proof -
    have "- 719834 \<le> x div MICROS_PER_DAY" using days_lower [OF v(1) that] v(2) by simp
    moreover have "0 \<le> q * MICROS_PER_SECOND + f" using q h by (simp add: timestamp_consts)
    ultimately show ?thesis using x r by (auto simp: in_i64_def I64_MIN_def I64_MAX_def timestamp_consts)
  qed
  have t: "parse_time ?T = Some (q * MICROS_PER_SECOND + f)" using parse_time_text [OF h] e by simp
  show ?thesis
  proof (cases "0 \<le> y \<and> y \<le> 9999")
    case True
    then show ?thesis unfolding tr parse_parts_def so using b x by (simp add: parse_date_text [OF v(1)] v(2) ts t checked_i64_def r)
  next
    case False
    then show ?thesis unfolding tr parse_parts_def so by (auto simp: parse_date_text [OF v(1)])
  qed
qed

section \<open>The properties of timestamps\<close>



text \<open>C16. Every timestamp prints as text that parses back to the same microsecond count when its year has four
  digits, and as text the parser refuses otherwise.\<close>

theorem format_then_parse:
  assumes "in_i64 x"
  shows "timestamp_parse (timestamp_format x) =
    (if 0 \<le> fst (civil_from_days (x div MICROS_PER_DAY)) \<and> fst (civil_from_days (x div MICROS_PER_DAY)) \<le> 9999
     then Ok x else Err (InvalidTimestamp (timestamp_format x)))"
  using parse_format [OF assms] by (cases "civil_from_days (x div MICROS_PER_DAY)") (auto simp: timestamp_parse_def)

theorem format_then_parse_witness:
  "timestamp_parse (timestamp_format 1709208000250000) = Ok 1709208000250000"
proof -
  have "civil_from_days (1709208000250000 div MICROS_PER_DAY) = (2024, 2, 29)" by code_simp
  then show ?thesis using format_then_parse [of 1709208000250000] by (simp add: in_i64_def I64_MIN_def I64_MAX_def)
qed

end
