(* ===== verification/Orders.thy ===== *)
theory Orders
  imports Rust_Str
begin

text \<open>
  Three-way comparisons as \<open>std::cmp::Ordering\<close>, the lexicographic order of slices, and the order of
  big-endian encodings.
\<close>


section \<open>Orderings\<close>

datatype Ordering = Less | Equal | Greater

definition cmp_ord :: "'a::linorder \<Rightarrow> 'a \<Rightarrow> Ordering" where
  "cmp_ord a b = (if a < b then Less else if a = b then Equal else Greater)"

fun then_cmp :: "Ordering \<Rightarrow> Ordering \<Rightarrow> Ordering" where
  "then_cmp Equal o2 = o2"
| "then_cmp o1 o2 = o1"

fun rev_ord :: "Ordering \<Rightarrow> Ordering" where
  "rev_ord Less = Greater"
| "rev_ord Equal = Equal"
| "rev_ord Greater = Less"

text \<open>The order of slices and vectors.\<close>

fun lex_cmp :: "('a \<Rightarrow> 'a \<Rightarrow> Ordering) \<Rightarrow> 'a list \<Rightarrow> 'a list \<Rightarrow> Ordering" where
  "lex_cmp c [] [] = Equal"
| "lex_cmp c [] (y # ys) = Less"
| "lex_cmp c (x # xs) [] = Greater"
| "lex_cmp c (x # xs) (y # ys) = then_cmp (c x y) (lex_cmp c xs ys)"

abbreviation bytes_cmp :: "bytes \<Rightarrow> bytes \<Rightarrow> Ordering" where
  "bytes_cmp \<equiv> lex_cmp cmp_ord"

lemma cmp_ord_simps [simp]:
  "cmp_ord a a = Equal" "cmp_ord a b = Equal \<longleftrightarrow> a = b" "cmp_ord a b = Less \<longleftrightarrow> a < b" "cmp_ord a b = Greater \<longleftrightarrow> b < a"
  by (auto simp: cmp_ord_def)

lemma then_cmp_simps [simp]: "then_cmp o1 Equal = o1" "then_cmp (then_cmp a b) c = then_cmp a (then_cmp b c)"
  "then_cmp o1 o2 = Equal \<longleftrightarrow> o1 = Equal \<and> o2 = Equal"
  by (cases o1; cases a; simp)+

lemma then_cmp_Less: "then_cmp o1 o2 = Less \<longleftrightarrow> o1 = Less \<or> o1 = Equal \<and> o2 = Less"
  by (cases o1) auto

lemma cmp_ord_less [simp]: "a < b \<Longrightarrow> cmp_ord a b = Less" "b < a \<Longrightarrow> cmp_ord a b = Greater"
  by auto

lemma rev_then_cmp [simp]: "rev_ord (then_cmp a b) = then_cmp (rev_ord a) (rev_ord b)" "rev_ord (rev_ord a) = a"
  by (cases a; simp)+

lemma cmp_ord_rev: "rev_ord (cmp_ord a b) = cmp_ord b a"
  by (auto simp: cmp_ord_def)

lemma cmp_ord_mono: "(\<And>x y. x < y \<Longrightarrow> f x < f y) \<Longrightarrow> cmp_ord (f (a::'a::linorder)) (f b :: 'b::linorder) = cmp_ord a b"
  by (metis cmp_ord_def not_less_iff_gr_or_eq)

lemma lex_cmp_append_same:
  "length xs = length ys \<Longrightarrow> lex_cmp c (xs @ s) (ys @ t) = then_cmp (lex_cmp c xs ys) (lex_cmp c s t)"
  by (induction xs ys rule: list_induct2) simp_all

lemma lex_cmp_refl: "(\<And>x. x \<in> set xs \<Longrightarrow> c x x = Equal) \<Longrightarrow> lex_cmp c xs xs = Equal"
  by (induction xs) auto

lemma lex_cmp_Equal: "lex_cmp cmp_ord xs ys = Equal \<longleftrightarrow> xs = ys"
  by (induction "cmp_ord :: 'a \<Rightarrow> 'a \<Rightarrow> Ordering" xs ys rule: lex_cmp.induct) auto

lemma lex_cmp_rev: "lex_cmp cmp_ord ys xs = rev_ord (lex_cmp cmp_ord xs ys)"
  by (induction "cmp_ord :: 'a \<Rightarrow> 'a \<Rightarrow> Ordering" xs ys rule: lex_cmp.induct) (auto simp: cmp_ord_rev)

lemma lex_cmp_trans:
  "lex_cmp cmp_ord xs ys = Less \<Longrightarrow> lex_cmp cmp_ord ys zs = Less \<Longrightarrow> lex_cmp cmp_ord xs zs = Less"
proof (induction xs arbitrary: ys zs)
  case Nil
  then show ?case by (cases ys; cases zs) auto
next
  case (Cons x xs)
  then obtain y ys' z zs' where s: "ys = y # ys'" "zs = z # zs'" by (cases ys; cases zs) auto
  then show ?case using Cons.prems Cons.IH [of ys' zs'] by (fastforce simp: then_cmp_Less)
qed

text \<open>Big-endian bytes order like the numbers they encode.\<close>

lemma le_val_append: "le_val (xs @ ys) = le_val xs + 256 ^ length xs * le_val ys"
  by (induction xs) (auto simp: algebra_simps)

lemma be_cmp: "length xs = length ys \<Longrightarrow> bytes_cmp xs ys = cmp_ord (le_val (rev xs)) (le_val (rev ys))"
proof (induction xs ys rule: list_induct2)
  case (Cons x xs y ys)
  let ?p = "256 ^ length xs :: nat"
  have b: "le_val (rev xs) < ?p" "le_val (rev ys) < ?p" using le_val_less [of "rev xs"] le_val_less [of "rev ys"] Cons by simp_all
  have "le_val (rev xs) + ?p * unat x < le_val (rev ys) + ?p * unat y" if "unat x < unat y"
  proof -
    have "le_val (rev xs) + ?p * unat x < ?p * (unat x + 1)" using b by simp
    also have "\<dots> \<le> ?p * unat y" using that by (intro mult_left_mono) simp_all
    finally show ?thesis by simp
  qed
  moreover have "le_val (rev ys) + ?p * unat y < le_val (rev xs) + ?p * unat x" if "unat y < unat x"
  proof -
    have "le_val (rev ys) + ?p * unat y < ?p * (unat y + 1)" using b by simp
    also have "\<dots> \<le> ?p * unat x" using that by (intro mult_left_mono) simp_all
    finally show ?thesis by simp
  qed
  ultimately show ?case using Cons
    by (cases x y rule: linorder_cases) (simp_all add: le_val_append word_less_nat_alt, auto simp: cmp_ord_def)
qed simp

lemma le_val_to_le: "8 dvd LENGTH('a) \<Longrightarrow> le_val (to_le_bytes (w :: 'a::len word)) = unat w"
proof -
  assume "8 dvd LENGTH('a)"
  then have "(256::nat) ^ (LENGTH('a) div 8) = 2 ^ LENGTH('a)" by (simp add: pow256)
  then show ?thesis using unsigned_less [of w] by (simp add: to_le_bytes_def le_val_le_bytes)
qed

lemma be_bytes_cmp:
  "8 dvd LENGTH('a) \<Longrightarrow> bytes_cmp (to_be_bytes (a :: 'a::len word) @ s) (to_be_bytes b @ t) = then_cmp (cmp_ord a b) (bytes_cmp s t)"
proof -
  assume d: "8 dvd LENGTH('a)"
  have "bytes_cmp (to_be_bytes a) (to_be_bytes b) = cmp_ord (unat a) (unat b)"
    using be_cmp [of "to_be_bytes a" "to_be_bytes b"] d by (simp add: to_be_bytes_def le_val_to_le)
  also have "\<dots> = cmp_ord a b" by (auto simp: cmp_ord_def word_less_nat_alt word_unat_eq_iff)
  finally show ?thesis using lex_cmp_append_same [of "to_be_bytes a" "to_be_bytes b"] by (simp add: to_be_bytes_def)
qed

end
