(* ===== verification/F64.thy ===== *)
theory F64
  imports Orders
begin

text \<open>
  IEEE 754 double precision numbers as the source uses them: a float is its bit pattern, compared by the exact
  number it encodes, with the conversions between floats and integers.
\<close>


unbundle bit_operations_syntax

type_synonym f64 = "64 word"

definition f64_sign :: "f64 \<Rightarrow> bool" where
  "f64_sign f \<longleftrightarrow> 9223372036854775808 \<le> unat f"

definition f64_mag :: "f64 \<Rightarrow> nat" where
  "f64_mag f = unat f mod 9223372036854775808"

definition f64_infinity_mag :: nat where
  "f64_infinity_mag = 2047 * 2 ^ 52"

definition is_nan :: "f64 \<Rightarrow> bool" where
  "is_nan f \<longleftrightarrow> f64_infinity_mag < f64_mag f"

text \<open>The magnitude a bit pattern encodes, in units of \<open>2 ^ -1074\<close>, the smallest positive float. Infinity comes out as
  the power of two above every finite float.\<close>

definition f64_scaled :: "nat \<Rightarrow> nat" where
  "f64_scaled m = (let e = m div 2 ^ 52; k = m mod 2 ^ 52 in if e = 0 then k else (2 ^ 52 + k) * 2 ^ (e - 1))"

definition f64_num :: "f64 \<Rightarrow> int" where
  "f64_num f = (if f64_sign f then - int (f64_scaled (f64_mag f)) else int (f64_scaled (f64_mag f)))"

definition f64_unit :: int where
  "f64_unit = 2 ^ 1074"

definition f64_eq :: "f64 \<Rightarrow> f64 \<Rightarrow> bool" where
  "f64_eq a b \<longleftrightarrow> \<not> is_nan a \<and> \<not> is_nan b \<and> f64_num a = f64_num b"

definition F64_NAN :: f64 where
  "F64_NAN = 9221120237041090560"

section \<open>Conversions\<close>

text \<open>\<open>i as f64\<close>: the nearest float, ties to even.\<close>

fun bit_len :: "nat \<Rightarrow> nat" where
  "bit_len n = (if n = 0 then 0 else Suc (bit_len (n div 2)))"

declare bit_len.simps [simp del]

definition round_shift :: "nat \<Rightarrow> nat \<Rightarrow> nat" where
  "round_shift n k =
     (let q = n div 2 ^ k; r = n mod 2 ^ k; half = 2 ^ (k - 1) in
      if k = 0 then n else if half < r \<or> r = half \<and> odd q then q + 1 else q)"

definition mag_of_nat :: "nat \<Rightarrow> nat" where
  "mag_of_nat n =
     (if n = 0 then 0
      else let e = bit_len n - 1 in
        (e + 1022) * 2 ^ 52 + (if e \<le> 52 then n * 2 ^ (52 - e) else round_shift n (e - 52)))"

definition f64_of_int :: "int \<Rightarrow> f64" where
  "f64_of_int i = (if i < 0 then word_of_nat (9223372036854775808 + mag_of_nat (nat (- i))) else word_of_nat (mag_of_nat (nat i)))"

text \<open>\<open>f as i64\<close> truncates and saturates, with NaN as 0.\<close>

definition i64_of_f64 :: "f64 \<Rightarrow> int" where
  "i64_of_f64 f = (if is_nan f then 0 else max I64_MIN (min I64_MAX (f64_num f sdiv f64_unit)))"

text \<open>\<open>f.fract() == 0.0\<close>: infinities and NaN have a NaN fraction.\<close>

definition is_whole :: "f64 \<Rightarrow> bool" where
  "is_whole f \<longleftrightarrow> f64_mag f < f64_infinity_mag \<and> f64_unit dvd f64_num f"

section \<open>The order of floats\<close>

lemma f64_scaled_parts:
  "m div 2 ^ 52 = e \<Longrightarrow> m mod 2 ^ 52 = k \<Longrightarrow> f64_scaled m = (if e = 0 then k else (2 ^ 52 + k) * 2 ^ (e - 1))"
  by (simp add: f64_scaled_def Let_def)

lemma f64_scaled_Suc: "f64_scaled m < f64_scaled (Suc m)"
proof -
  define e where "e = m div 2 ^ 52"
  define k where "k = m mod 2 ^ 52"
  have k: "k < 2 ^ 52" by (simp add: k_def)
  show ?thesis
  proof (cases "Suc k = 2 ^ 52")
    case False
    then have "Suc m mod 2 ^ 52 = Suc k" "Suc m div 2 ^ 52 = e"
      by (simp_all add: k_def e_def mod_Suc div_Suc)
    then show ?thesis
      unfolding f64_scaled_parts [OF e_def [symmetric] k_def [symmetric]] by (simp add: f64_scaled_parts)
  next
    case True
    then have "Suc m mod 2 ^ 52 = 0" "Suc m div 2 ^ 52 = Suc e"
      by (simp_all add: k_def e_def mod_Suc div_Suc)
    then have s: "f64_scaled (Suc m) = 2 ^ 52 * 2 ^ e" by (simp add: f64_scaled_def Let_def)
    have "f64_scaled m < 2 ^ 52 * 2 ^ e"
    proof (cases e)
      case 0
      then show ?thesis using k unfolding f64_scaled_parts [OF e_def [symmetric] k_def [symmetric]] by simp
    next
      case (Suc n)
      have "(2 ^ 52 + k) * 2 ^ n < (2 ^ 52 * 2) * 2 ^ n" using k by simp
      then show ?thesis using Suc unfolding f64_scaled_parts [OF e_def [symmetric] k_def [symmetric]] by simp
    qed
    then show ?thesis using s by simp
  qed
qed

lemma f64_scaled_mono: "a < b \<Longrightarrow> f64_scaled a < f64_scaled b"
  using lift_Suc_mono_less [of f64_scaled a b] f64_scaled_Suc by blast

lemma f64_scaled_0 [simp]: "f64_scaled 0 = 0"
  by (simp add: f64_scaled_def)

lemma f64_scaled_eq [simp]: "f64_scaled a = f64_scaled b \<longleftrightarrow> a = b"
  by (metis f64_scaled_mono linorder_neqE_nat less_irrefl)

lemma f64_scaled_less [simp]: "f64_scaled a < f64_scaled b \<longleftrightarrow> a < b"
  by (metis f64_scaled_mono linorder_neqE_nat less_asym less_irrefl)

lemma f64_num_0_iff: "f64_num f = 0 \<longleftrightarrow> f64_mag f = 0"
  using f64_scaled_eq [of "f64_mag f" 0] by (auto simp: f64_num_def)


section \<open>Exact conversions\<close>

lemma bit_len_bounds: "0 < n \<Longrightarrow> 0 < bit_len n \<and> 2 ^ (bit_len n - 1) \<le> n \<and> n < 2 ^ bit_len n"
proof (induction n rule: bit_len.induct)
  case (1 n)
  show ?case
  proof (cases "n div 2 = 0")
    case True
    then have "n = 1" using 1(2) by simp
    then show ?thesis by (simp add: bit_len.simps)
  next
    case False
    then have IH: "0 < bit_len (n div 2)" "2 ^ (bit_len (n div 2) - 1) \<le> n div 2" "n div 2 < 2 ^ bit_len (n div 2)"
      using 1 by auto
    obtain j where j: "bit_len (n div 2) = Suc j" using IH(1) by (cases "bit_len (n div 2)") auto
    have "bit_len n = Suc (bit_len (n div 2))" using 1(2) by (subst bit_len.simps) simp
    then show ?thesis using IH j by (simp add: less_mult_imp_div_less) linarith
  qed
qed

lemma mag_of_nat_eq:
  "0 < n \<Longrightarrow> e = bit_len n - 1 \<Longrightarrow>
    mag_of_nat n = (e + 1022) * 2 ^ 52 + (if e \<le> 52 then n * 2 ^ (52 - e) else round_shift n (e - 52))"
  by (simp add: mag_of_nat_def Let_def)

lemma mag_of_nat_parts:
  assumes "0 < n" "n < 2 ^ 53"
  defines "e \<equiv> bit_len n - 1"
  shows "e \<le> 52" "2 ^ 52 \<le> n * 2 ^ (52 - e)" "n * 2 ^ (52 - e) < 2 ^ 53"
proof -
  have b: "0 < bit_len n" "2 ^ e \<le> n" "n < 2 ^ Suc e" using bit_len_bounds [OF assms(1)] by (auto simp: e_def)
  have "(2::nat) ^ e < 2 ^ 53" using b(2) assms(2) by (rule le_less_trans)
  then show e: "e \<le> 52" using power_less_imp_less_exp [of "2::nat" e 53] by simp
  have p: "(2::nat) ^ e * 2 ^ (52 - e) = 2 ^ 52" using e by (simp flip: power_add)
  have "2 ^ e * 2 ^ (52 - e) \<le> n * 2 ^ (52 - e)" using b(2) by (rule mult_right_mono) simp
  then show "2 ^ 52 \<le> n * 2 ^ (52 - e)" unfolding p .
  have "n * 2 ^ (52 - e) < 2 ^ Suc e * 2 ^ (52 - e)" using b(3) by (rule mult_strict_right_mono) simp
  also have "\<dots> = 2 ^ 53" using p by simp
  finally show "n * 2 ^ (52 - e) < 2 ^ 53" .
qed

lemma mag_of_nat_exact:
  assumes "n < 2 ^ 53"
  shows "f64_scaled (mag_of_nat n) = n * 2 ^ 1074" "mag_of_nat n < f64_infinity_mag"
proof -
  have "f64_scaled (mag_of_nat n) = n * 2 ^ 1074 \<and> mag_of_nat n < f64_infinity_mag"
  proof (cases "n = 0")
    case True
    then show ?thesis by (simp add: mag_of_nat_def f64_infinity_mag_def)
  next
    case False
    define e where "e = bit_len n - 1"
    define k where "k = n * 2 ^ (52 - e)"
    note p = mag_of_nat_parts [of n, folded e_def, folded k_def]
    have p: "e \<le> 52" "2 ^ 52 \<le> k" "k < 2 ^ 53" using p assms False by simp_all
    obtain j where j: "k = 2 ^ 52 + j" "j < 2 ^ 52" using p(2,3) by (auto simp: le_iff_add)
    have m: "mag_of_nat n = j + (e + 1023) * 2 ^ 52" using mag_of_nat_eq [OF _ e_def, folded k_def] False p(1) j(1) by simp
    have "mag_of_nat n div 2 ^ 52 = e + 1023" "mag_of_nat n mod 2 ^ 52 = j" 
      unfolding m using j(2) mod_mult_self1 [of j "e + 1023" "2 ^ 52"] div_mult_self1 [of "2 ^ 52 :: nat" j "e + 1023"]
      by (metis div_less mod_less add.right_neutral power_not_zero zero_neq_numeral, metis mod_less)
    then have "f64_scaled (mag_of_nat n) = k * 2 ^ (e + 1022)" by (simp add: f64_scaled_parts j(1))
    also have "\<dots> = n * (2 ^ (52 - e) * 2 ^ (e + 1022))" by (simp add: k_def)
    also have "2 ^ (52 - e) * 2 ^ (e + 1022) = (2::nat) ^ 1074" unfolding power_add [symmetric] using p(1) by simp
    finally show ?thesis using j(2) p(1) by (simp add: m f64_infinity_mag_def)
  qed
  then show "f64_scaled (mag_of_nat n) = n * 2 ^ 1074" "mag_of_nat n < f64_infinity_mag" by simp_all
qed

lemma f64_of_mag:
  assumes "m < 9223372036854775808"
  shows "f64_mag (word_of_nat m) = m" "\<not> f64_sign (word_of_nat m)"
    "f64_mag (word_of_nat (9223372036854775808 + m)) = m" "f64_sign (word_of_nat (9223372036854775808 + m))"
proof -
  have u: "unat (word_of_nat m :: f64) = m" "unat (word_of_nat (9223372036854775808 + m) :: f64) = 9223372036854775808 + m"
    using assms by (intro unat_of_nat_eq, simp)+
  show "f64_mag (word_of_nat m) = m" "\<not> f64_sign (word_of_nat m)"
    "f64_mag (word_of_nat (9223372036854775808 + m)) = m" "f64_sign (word_of_nat (9223372036854775808 + m))"
    unfolding f64_mag_def f64_sign_def u using assms by simp_all
qed

lemma mag_bound: "mag_of_nat n < f64_infinity_mag \<Longrightarrow> mag_of_nat n < 9223372036854775808"
  by (simp add: f64_infinity_mag_def)

lemma f64_of_int_exact:
  assumes "\<bar>i\<bar> < 2 ^ 53"
  shows "f64_num (f64_of_int i) = i * f64_unit" "\<not> is_nan (f64_of_int i)"
proof -
  have n: "nat \<bar>i\<bar> < 2 ^ 53" using assms by (simp add: nat_less_iff)
  note m = mag_of_nat_exact [OF n]
  note f = f64_of_mag [OF mag_bound [OF m(2)]]
  show "f64_num (f64_of_int i) = i * f64_unit"
    using m(1) f by (auto simp: f64_of_int_def f64_num_def f64_unit_def)
  show "\<not> is_nan (f64_of_int i)" using m(2) f by (auto simp: f64_of_int_def is_nan_def)
qed

lemma mag_of_nat_large:
  assumes "2 ^ 53 \<le> n"
  shows "2 ^ 53 * 2 ^ 1074 \<le> f64_scaled (mag_of_nat n)"
proof -
  define e where "e = bit_len n - 1"
  have n: "0 < n" using assms by (rule less_le_trans [rotated]) simp
  have b: "2 ^ e \<le> n" "n < 2 ^ Suc e" using bit_len_bounds [OF n] by (auto simp: e_def)
  have "(2::nat) ^ 53 < 2 ^ Suc e" using assms b(2) by (rule le_less_trans)
  then have e: "53 \<le> e" using power_less_imp_less_exp [of "2::nat" 53 "Suc e"] by simp
  have "(2::nat) ^ 52 = 2 ^ e div 2 ^ (e - 52)" using e by (simp add: power_diff [symmetric])
  also have "\<dots> \<le> n div 2 ^ (e - 52)" using b(1) by (rule div_le_mono)
  also have "\<dots> \<le> round_shift n (e - 52)" by (simp add: round_shift_def Let_def)
  finally have "(e + 1023) * 2 ^ 52 \<le> mag_of_nat n"
    using mag_of_nat_eq [OF n e_def] e by simp
  moreover have "1076 * 2 ^ 52 \<le> (e + 1023) * (2::nat) ^ 52" using e by (intro mult_right_mono) simp_all
  ultimately have "1076 * 2 ^ 52 \<le> mag_of_nat n" by linarith
  then have "f64_scaled (1076 * 2 ^ 52) \<le> f64_scaled (mag_of_nat n)" by (metis f64_scaled_less not_le)
  moreover have "f64_scaled (1076 * 2 ^ 52) = 2 ^ 52 * 2 ^ 1075" by (subst f64_scaled_parts [of _ 1076 0]) simp_all
  ultimately show ?thesis by simp
qed

end
