(* ===== verification/Value.thy ===== *)
theory Value
  imports F64 Buf
begin

text \<open>
  Values and column types of \<open>src/src/catalog/mod.rs\<close>: their conversions and comparisons.  \<open>INT\<close>, \<open>BIGINT\<close> and
  \<open>TIMESTAMP\<close> are machine words read as signed, \<open>FLOAT\<close> is a bit pattern, and text is its UTF-8 bytes.
\<close>


unbundle bit_operations_syntax

section \<open>Text\<close>

text \<open>\<open>str::as_bytes\<close> and \<open>std::str::from_utf8\<close>. \<open>utf8_len\<close> is the length of the well formed character a byte list
  starts with, 0 when it starts with none.\<close>

definition as_bytes :: "string \<Rightarrow> bytes" where
  "as_bytes s = map (\<lambda>c. word_of_nat (byte_of c)) s"

definition is_cont :: "nat \<Rightarrow> bool" where
  "is_cont b \<longleftrightarrow> 128 \<le> b \<and> b \<le> 191"

fun utf8_len :: "nat list \<Rightarrow> nat" where
  "utf8_len [] = 0"
| "utf8_len (a # r) =
     (if a < 128 then 1
      else if 194 \<le> a \<and> a \<le> 223 then
        (case r of b # _ \<Rightarrow> if is_cont b then 2 else 0 | _ \<Rightarrow> 0)
      else if 224 \<le> a \<and> a \<le> 239 then
        (case r of b # c # _ \<Rightarrow>
           if (if a = 224 then 160 \<le> b \<and> b \<le> 191 else if a = 237 then 128 \<le> b \<and> b \<le> 159 else is_cont b) \<and> is_cont c
           then 3 else 0 | _ \<Rightarrow> 0)
      else if 240 \<le> a \<and> a \<le> 244 then
        (case r of b # c # d # _ \<Rightarrow>
           if (if a = 240 then 144 \<le> b \<and> b \<le> 191 else if a = 244 then 128 \<le> b \<and> b \<le> 143 else is_cont b) \<and>
              is_cont c \<and> is_cont d
           then 4 else 0 | _ \<Rightarrow> 0)
      else 0)"

function utf8_valid :: "nat list \<Rightarrow> bool" where
  "utf8_valid b = (if b = [] then True else if utf8_len b = 0 then False else utf8_valid (drop (utf8_len b) b))"
  by auto
termination by (relation "measure length") auto

declare utf8_valid.simps [simp del]

definition valid_str :: "string \<Rightarrow> bool" where
  "valid_str s \<longleftrightarrow> utf8_valid (map byte_of s)"

definition from_utf8 :: "bytes \<Rightarrow> string option" where
  "from_utf8 b = (if utf8_valid (map unat b) then Some (map (\<lambda>w. char_of (unat w)) b) else None)"

text \<open>\<open>s.chars().count()\<close>: the bytes that do not continue a character.\<close>

definition char_count :: "string \<Rightarrow> nat" where
  "char_count s = length (filter (\<lambda>c. \<not> is_cont (byte_of c)) s)"

section \<open>Values and types\<close>

datatype Value =
    V_BOOLEAN bool
  | V_INT "32 word"
  | V_BIGINT "64 word"
  | V_FLOAT f64
  | V_TIMESTAMP "64 word"
  | V_TEXT string

datatype DataType =
    T_BOOLEAN
  | T_INT
  | T_BIGINT
  | T_FLOAT
  | T_TIMESTAMP
  | T_TEXT
  | T_VARCHAR u32
  | T_CHAR u32

datatype CoercionError = WrongType | OutOfRange | TooLong nat

datatype CatalogError =
    TupleSchemaMismatch
  | ColumnType string DataType DataType
  | ColumnOutOfRange string DataType Value
  | ColumnTooLong string DataType nat
  | ColumnOutOfBounds
  | RowTooLarge nat
  | ColumnNotFound
  | TableExists
  | TableDoesNotExist
  | TableCreationError string
  | IndexExists
  | IndexDoesNotExist
  | IndexCreationError string
  | TableOpenError string
  | IndexOpenError string

fun data_type :: "Value \<Rightarrow> DataType" where
  "data_type (V_BOOLEAN _) = T_BOOLEAN"
| "data_type (V_INT _) = T_INT"
| "data_type (V_BIGINT _) = T_BIGINT"
| "data_type (V_FLOAT _) = T_FLOAT"
| "data_type (V_TIMESTAMP _) = T_TIMESTAMP"
| "data_type (V_TEXT _) = T_TEXT"

definition i32_try_from :: "64 word \<Rightarrow> 32 word option" where
  "i32_try_from i = (if - 2147483648 \<le> sint i \<and> sint i \<le> 2147483647 then Some (word_of_int (sint i)) else None)"

definition i64_from :: "32 word \<Rightarrow> 64 word" where
  "i64_from i = word_of_int (sint i)"

definition Value_integer :: "64 word \<Rightarrow> Value" where
  "Value_integer i = (case i32_try_from i of Some j \<Rightarrow> V_INT j | None \<Rightarrow> V_BIGINT i)"

fun as_i64 :: "Value \<Rightarrow> 64 word option" where
  "as_i64 (V_INT i) = Some (i64_from i)"
| "as_i64 (V_BIGINT i) = Some i"
| "as_i64 _ = None"

fun as_f64 :: "Value \<Rightarrow> f64 option" where
  "as_f64 (V_INT i) = Some (f64_of_int (sint i))"
| "as_f64 (V_BIGINT i) = Some (f64_of_int (sint i))"
| "as_f64 (V_FLOAT f) = Some f"
| "as_f64 _ = None"

definition CHAR_PAD :: char where "CHAR_PAD = CHR '' ''"

definition without_char_padding :: "string \<Rightarrow> string" where
  "without_char_padding s = trim_end_matches CHAR_PAD s"

definition fit_chars :: "string \<Rightarrow> u32 \<Rightarrow> (CoercionError, Value) result" where
  "fit_chars s max_chars =
     (let len = char_count s in if len \<le> unat max_chars then Ok (V_TEXT s) else Err (TooLong len))"

definition coerce_to :: "Value \<Rightarrow> DataType \<Rightarrow> (CoercionError, Value) result" where
  "coerce_to v ty =
     (if data_type v = ty then Ok v
      else case (v, ty) of
        (V_TEXT s, T_VARCHAR max_chars) \<Rightarrow> fit_chars s max_chars
      | (V_TEXT s, T_CHAR n) \<Rightarrow> fit_chars (without_char_padding s) n
      | (V_INT i, T_BIGINT) \<Rightarrow> Ok (V_BIGINT (i64_from i))
      | (V_BIGINT i, T_INT) \<Rightarrow> (case i32_try_from i of Some j \<Rightarrow> Ok (V_INT j) | None \<Rightarrow> Err OutOfRange)
      | (V_INT i, T_FLOAT) \<Rightarrow> Ok (V_FLOAT (f64_of_int (sint i)))
      | (V_BIGINT i, T_FLOAT) \<Rightarrow> Ok (V_FLOAT (f64_of_int (sint i)))
      | _ \<Rightarrow> Err WrongType)"

definition I64_EXACT_FLOAT_BOUND :: f64 where
  "I64_EXACT_FLOAT_BOUND = 4845873199050653696"

fun ok :: "('e, 'a) result \<Rightarrow> 'a option" where
  "ok (Ok x) = Some x"
| "ok _ = None"

definition exactly_as :: "Value \<Rightarrow> DataType \<Rightarrow> Value option" where
  "exactly_as v ty =
     (if data_type v = ty then Some v
      else case (v, ty) of
        (V_TEXT s, T_CHAR _) \<Rightarrow> Some (V_TEXT (without_char_padding s))
      | (V_INT i, T_BIGINT) \<Rightarrow> ok (coerce_to v ty)
      | (V_BIGINT i, T_INT) \<Rightarrow> ok (coerce_to v ty)
      | (V_INT i, T_FLOAT) \<Rightarrow>
          if f64_num (f64_of_int \<bar>sint i\<bar>) < f64_num I64_EXACT_FLOAT_BOUND then Some (V_FLOAT (f64_of_int (sint i))) else None
      | (V_BIGINT i, T_FLOAT) \<Rightarrow>
          if f64_num (f64_of_int \<bar>sint i\<bar>) < f64_num I64_EXACT_FLOAT_BOUND then Some (V_FLOAT (f64_of_int (sint i))) else None
      | (V_FLOAT f, T_INT) \<Rightarrow>
          if \<not> is_whole f \<or> f64_num I64_EXACT_FLOAT_BOUND \<le> \<bar>f64_num f\<bar> then None
          else ok (coerce_to (V_BIGINT (word_of_int (i64_of_f64 f))) ty)
      | (V_FLOAT f, T_BIGINT) \<Rightarrow>
          if \<not> is_whole f \<or> f64_num I64_EXACT_FLOAT_BOUND \<le> \<bar>f64_num f\<bar> then None
          else ok (coerce_to (V_BIGINT (word_of_int (i64_of_f64 f))) ty)
      | _ \<Rightarrow> None)"

definition padded_for :: "Value \<Rightarrow> DataType \<Rightarrow> Value" where
  "padded_for v dtype =
     (case (v, dtype) of
        (V_TEXT s, T_CHAR n) \<Rightarrow> V_TEXT (s @ replicate (unat n - char_count s) CHAR_PAD)
      | (other, _) \<Rightarrow> other)"

text \<open>The derived order of values. \<open>fcmp\<close> is the order of \<open>OrderedFloat\<close>.\<close>

fun variant :: "Value \<Rightarrow> nat" where
  "variant (V_BOOLEAN _) = 0"
| "variant (V_INT _) = 1"
| "variant (V_BIGINT _) = 2"
| "variant (V_FLOAT _) = 3"
| "variant (V_TIMESTAMP _) = 4"
| "variant (V_TEXT _) = 5"

fun value_cmp :: "(f64 \<Rightarrow> f64 \<Rightarrow> Ordering) \<Rightarrow> Value \<Rightarrow> Value \<Rightarrow> Ordering" where
  "value_cmp fcmp (V_BOOLEAN a) (V_BOOLEAN b) = cmp_ord a b"
| "value_cmp fcmp (V_INT a) (V_INT b) = cmp_ord (sint a) (sint b)"
| "value_cmp fcmp (V_BIGINT a) (V_BIGINT b) = cmp_ord (sint a) (sint b)"
| "value_cmp fcmp (V_FLOAT a) (V_FLOAT b) = fcmp a b"
| "value_cmp fcmp (V_TIMESTAMP a) (V_TIMESTAMP b) = cmp_ord (sint a) (sint b)"
| "value_cmp fcmp (V_TEXT a) (V_TEXT b) = bytes_cmp (as_bytes a) (as_bytes b)"
| "value_cmp fcmp v w = cmp_ord (variant v) (variant w)"

definition value_compare :: "(f64 \<Rightarrow> f64 \<Rightarrow> Ordering) \<Rightarrow> Value \<Rightarrow> Value \<Rightarrow> Ordering option" where
  "value_compare fcmp v w =
     (if data_type v = data_type w then Some (value_cmp fcmp v w)
      else case (as_i64 v, as_i64 w) of
        (Some a, Some b) \<Rightarrow> Some (cmp_ord (sint a) (sint b))
      | _ \<Rightarrow> Option.bind (as_f64 v) (\<lambda>a. Option.bind (as_f64 w) (\<lambda>b. Some (fcmp a b))))"

section \<open>Types\<close>

definition TEXT_DESCRIPTOR_LEN :: nat where "TEXT_DESCRIPTOR_LEN = 8"
definition MAX_UTF8_CHAR_LEN :: nat where "MAX_UTF8_CHAR_LEN = 4"
definition TEXT_KEY_TERMINATOR_LEN :: nat where "TEXT_KEY_TERMINATOR_LEN = 2"

fun fixed_width :: "DataType \<Rightarrow> nat" where
  "fixed_width T_BOOLEAN = 1"
| "fixed_width T_INT = 4"
| "fixed_width T_BIGINT = 8"
| "fixed_width T_FLOAT = 8"
| "fixed_width T_TIMESTAMP = 8"
| "fixed_width T_TEXT = TEXT_DESCRIPTOR_LEN"
| "fixed_width (T_VARCHAR _) = TEXT_DESCRIPTOR_LEN"
| "fixed_width (T_CHAR _) = TEXT_DESCRIPTOR_LEN"

definition checked_usize :: "nat \<Rightarrow> nat option" where
  "checked_usize n = (if n < 2 ^ 64 then Some n else None)"

definition text_key_width :: "u32 \<Rightarrow> nat option" where
  "text_key_width n =
     Option.bind (checked_usize (unat n * MAX_UTF8_CHAR_LEN)) (\<lambda>bytes. checked_usize (bytes + TEXT_KEY_TERMINATOR_LEN))"

fun key_width :: "DataType \<Rightarrow> nat option" where
  "key_width T_TEXT = None"
| "key_width (T_VARCHAR n) = text_key_width n"
| "key_width (T_CHAR n) = text_key_width n"
| "key_width fixed = Some (fixed_width fixed)"

fun is_text :: "DataType \<Rightarrow> bool" where
  "is_text T_TEXT = True"
| "is_text (T_VARCHAR _) = True"
| "is_text (T_CHAR _) = True"
| "is_text _ = False"

fun value_type :: "DataType \<Rightarrow> DataType" where
  "value_type (T_VARCHAR _) = T_TEXT"
| "value_type (T_CHAR _) = T_TEXT"
| "value_type other = other"

fun numeric_rank :: "DataType \<Rightarrow> nat option" where
  "numeric_rank T_INT = Some 0"
| "numeric_rank T_BIGINT = Some 1"
| "numeric_rank T_FLOAT = Some 2"
| "numeric_rank _ = None"

definition is_numeric :: "DataType \<Rightarrow> bool" where
  "is_numeric t \<longleftrightarrow> t = T_INT \<or> t = T_BIGINT \<or> t = T_FLOAT"

definition common_numeric :: "DataType \<Rightarrow> DataType \<Rightarrow> DataType option" where
  "common_numeric s t =
     Option.bind (numeric_rank s) (\<lambda>a. Option.bind (numeric_rank t) (\<lambda>b. Some (if a \<ge> b then s else t)))"

definition coerces_to :: "DataType \<Rightarrow> DataType \<Rightarrow> bool" where
  "coerces_to s t \<longleftrightarrow> s = t \<or> is_text s \<and> is_text t \<or>
     s = T_INT \<and> (t = T_BIGINT \<or> t = T_FLOAT) \<or> s = T_BIGINT \<and> (t = T_INT \<or> t = T_FLOAT)"

definition compares_with :: "DataType \<Rightarrow> DataType \<Rightarrow> bool" where
  "compares_with s t \<longleftrightarrow> value_type s = value_type t \<or> common_numeric s t \<noteq> None"

end
