(* ===== verification/Key_Encoding.thy ===== *)
theory Key_Encoding
  imports Value
begin

text \<open>
  Index keys of \<open>src/src/catalog/mod.rs\<close>: the byte encodings of values whose bytewise order is the order of the
  values, and the proof that it is, also for keys of several columns and with any suffix.
\<close>


unbundle bit_operations_syntax

section \<open>Definitions\<close>

definition SIGN_BIT_32 :: u32 where "SIGN_BIT_32 = push_bit 31 1"
definition SIGN_BIT_64 :: u64 where "SIGN_BIT_64 = push_bit 63 1"
definition TEXT_TERMINATOR :: byte where "TEXT_TERMINATOR = 0"
definition TEXT_ESCAPE :: byte where "TEXT_ESCAPE = 255"

fun escape_zeros :: "bytes \<Rightarrow> bytes" where
  "escape_zeros [] = []"
| "escape_zeros (b # bs) = (if b = 0 then [b, TEXT_ESCAPE] else [b]) @ escape_zeros bs"

definition encode_order_preserving_bytes :: "bytes \<Rightarrow> bytes" where
  "encode_order_preserving_bytes bs = escape_zeros bs @ [0, TEXT_TERMINATOR]"

definition order_preserving_f64_bits :: "f64 \<Rightarrow> u64" where
  "order_preserving_f64_bits f =
     (let bits = (if is_nan f then F64_NAN else if f64_eq f 0 then 0 else f) in
      if bits AND SIGN_BIT_64 = 0 then bits OR SIGN_BIT_64 else NOT bits)"

fun encode_order_preserving :: "Value \<Rightarrow> bytes" where
  "encode_order_preserving (V_BOOLEAN b) = [of_bool b]"
| "encode_order_preserving (V_INT i) = to_be_bytes (i XOR SIGN_BIT_32)"
| "encode_order_preserving (V_BIGINT i) = to_be_bytes (i XOR SIGN_BIT_64)"
| "encode_order_preserving (V_TIMESTAMP i) = to_be_bytes (i XOR SIGN_BIT_64)"
| "encode_order_preserving (V_FLOAT f) = to_be_bytes (order_preserving_f64_bits f)"
| "encode_order_preserving (V_TEXT s) = encode_order_preserving_bytes (as_bytes s)"

definition encode_key :: "Value list \<Rightarrow> bytes" where
  "encode_key vals = concat (map encode_order_preserving vals)"

section \<open>Integers\<close>

lemma bit_top: "bit (push_bit (LENGTH('a) - 1) (1 :: 'a::len word)) k \<longleftrightarrow> k = LENGTH('a) - 1"
  by (auto simp: bit_simps)

lemma xor_top_bit:
  fixes w :: "'a::len word"
  defines "S \<equiv> push_bit (LENGTH('a) - 1) 1"
  shows "w XOR S = w + S"
proof -
  have bS: "bit S k \<longleftrightarrow> k = LENGTH('a) - 1" for k unfolding S_def by (rule bit_top)
  have plus: "v + S = v XOR S" if "\<not> bit v (LENGTH('a) - 1)" for v :: "'a word"
    using that by (intro disjunctive_add_eq_xor bit_eqI) (auto simp: bit_simps bS)
  have "S + S = 2 ^ Suc (LENGTH('a) - 1)" 
    by (simp only: S_def push_bit_eq_mult mult_1 power_Suc mult_2)
  also have "\<dots> = 0" by (subst exp_eq_zero_iff) simp
  finally have SS: "S + S = 0" .
  show ?thesis
  proof (cases "bit w (LENGTH('a) - 1)")
    case True
    then have "(w XOR S) + S = w" using plus [of "w XOR S"] by (simp add: bit_simps bS xor.assoc)
    then have "w + S = (w XOR S) + (S + S)" by (metis add.assoc)
    then show ?thesis by (simp add: SS)
  qed (simp add: plus)
qed

lemma uint_xor_top:
  fixes w :: "'a::len word"
  shows "uint (w XOR push_bit (LENGTH('a) - 1) 1) = sint w + 2 ^ (LENGTH('a) - 1)"
proof -
  let ?S = "push_bit (LENGTH('a) - 1) 1 :: 'a word"
  have "?S = word_of_int (2 ^ (LENGTH('a) - 1))" by (simp add: push_bit_eq_mult)
  then have "w + ?S = word_of_int (sint w + 2 ^ (LENGTH('a) - 1))" by simp
  then have "uint (w + ?S) = take_bit LENGTH('a) (sint w + 2 ^ (LENGTH('a) - 1))" by (simp only: uint_word_of_int_eq)
  moreover have "(2::int) ^ LENGTH('a) = 2 ^ (LENGTH('a) - 1) + 2 ^ (LENGTH('a) - 1)"
    by (metis One_nat_def len_gt_0 mult_2 power_Suc Suc_pred)
  ultimately show ?thesis unfolding xor_top_bit
    using sint_greater_eq [of w] sint_less [of w] by (simp add: take_bit_int_eq_self)
qed

lemma xor_sign_cmp:
  fixes a b :: "'a::len word"
  shows "cmp_ord (a XOR push_bit (LENGTH('a) - 1) 1) (b XOR push_bit (LENGTH('a) - 1) 1) = cmp_ord (sint a) (sint b)"
proof -
  have u: "cmp_ord x y = cmp_ord (uint x) (uint y)" for x y :: "'a word" by (auto simp: cmp_ord_def word_less_def word_uint_eq_iff)
  show ?thesis unfolding u uint_xor_top by (simp add: cmp_ord_def)
qed

lemma text_cmp:
  "bytes_cmp (encode_order_preserving_bytes a @ s) (encode_order_preserving_bytes b @ t) =
    then_cmp (bytes_cmp a b) (bytes_cmp s t)"
proof (induction "cmp_ord :: byte \<Rightarrow> byte \<Rightarrow> Ordering" a b rule: lex_cmp.induct)
  case (2 y ys)
  then show ?case
    by (cases "y = 0") (auto simp: encode_order_preserving_bytes_def TEXT_TERMINATOR_def TEXT_ESCAPE_def word_neq_0_conv)
next
  case (3 x xs)
  then show ?case
    by (cases "x = 0") (auto simp: encode_order_preserving_bytes_def TEXT_TERMINATOR_def TEXT_ESCAPE_def word_neq_0_conv)
next
  case (4 x xs y ys)
  then show ?case
    by (cases x y rule: linorder_cases) (auto simp: encode_order_preserving_bytes_def)
qed (simp add: encode_order_preserving_bytes_def)


section \<open>Floats\<close>

text \<open>The order \<open>OrderedFloat\<close> documents: the numeric order, with NaN equal to itself and above every other float.\<close>

locale ordered_float =
  fixes fcmp :: "f64 \<Rightarrow> f64 \<Rightarrow> Ordering"
  assumes fcmp_num: "\<not> is_nan a \<Longrightarrow> \<not> is_nan b \<Longrightarrow> fcmp a b = cmp_ord (f64_num a) (f64_num b)"
    and fcmp_nan: "is_nan a \<Longrightarrow> fcmp a b = (if is_nan b then Equal else Greater)"
    and fcmp_less: "\<not> is_nan a \<Longrightarrow> is_nan b \<Longrightarrow> fcmp a b = Less"

lemma f64_split: "unat f = (if f64_sign f then 9223372036854775808 else 0) + f64_mag f" "f64_mag f < 9223372036854775808"
  using unat_u64_less [of f] by (auto simp: f64_sign_def f64_mag_def mod_if)

lemma and_sign_64: "f AND SIGN_BIT_64 = 0 \<longleftrightarrow> \<not> f64_sign f"
proof -
  have "63 = LENGTH(64) - 1" by simp
  then have S: "bit SIGN_BIT_64 k \<longleftrightarrow> k = 63" for k unfolding SIGN_BIT_64_def by (metis bit_top)
  have "bit f 63 \<longleftrightarrow> odd (unat f div 2 ^ 63)" 
    using bit_unsigned_iff [where w = f and n = 63 and 'a = nat] by (simp add: bit_iff_odd [of "unat f"])
  also have "unat f div 2 ^ 63 = (if f64_sign f then 1 else 0)"
    using f64_split [of f] by (intro div_nat_eqI) simp_all
  finally have "bit f 63 \<longleftrightarrow> f64_sign f" by simp
  moreover have k: "bit (f AND SIGN_BIT_64) k \<longleftrightarrow> k = 63 \<and> bit f 63" for k using S by (auto simp: bit_and_iff)
  moreover have "f AND SIGN_BIT_64 = 0" if "\<not> bit f 63" using k that by (intro bit_eqI) simp
  ultimately show ?thesis by (metis bit_0_eq bot_apply bot_bool_def)
qed

lemma unat_or_sign:
  assumes "\<not> f64_sign f"
  shows "unat (f OR SIGN_BIT_64) = 9223372036854775808 + f64_mag f"
proof -
  have "f OR SIGN_BIT_64 = f + SIGN_BIT_64"
    using assms and_sign_64 by (metis disjunctive_add_eq_or)
  moreover have "unat SIGN_BIT_64 = 9223372036854775808" by (simp add: SIGN_BIT_64_def push_bit_eq_mult)
  ultimately show ?thesis using f64_split [of f] assms by (simp add: unat_word_ariths)
qed

lemma unat_not_64: "unat (NOT f) = 18446744073709551615 - unat (f :: 64 word)"
proof -
  have "NOT f = - 1 - f" by (simp add: not_eq_complement)
  moreover have "unat (- 1 - f) = unat (- 1 :: 64 word) - unat f" by (rule unat_sub) simp
  moreover have "unat (- 1 :: 64 word) = 18446744073709551615" by (simp add: unsigned_minus_1_eq_mask mask_eq_exp_minus_1)
  ultimately show ?thesis by simp
qed

lemma order_bits:
  "unat (order_preserving_f64_bits f) =
    (if is_nan f then 18444492273895866368
     else if f64_sign f \<and> f64_mag f \<noteq> 0 then 9223372036854775807 - f64_mag f
     else 9223372036854775808 + f64_mag f)"
proof -
  have z: "f64_eq f 0 \<longleftrightarrow> f64_mag f = 0" if "\<not> is_nan f"
  proof -
    have "f64_num 0 = 0" "\<not> is_nan 0" by (simp_all add: f64_num_0_iff is_nan_def f64_mag_def)
    then show ?thesis using that f64_num_0_iff [of f] by (simp add: f64_eq_def)
  qed
  have c: "\<not> f64_sign F64_NAN" "f64_mag F64_NAN = 9221120237041090560" "\<not> f64_sign 0" "f64_mag 0 = 0"
    by (simp_all add: f64_sign_def f64_mag_def F64_NAN_def)
  consider "is_nan f" | "\<not> is_nan f" "f64_mag f = 0" | "\<not> is_nan f" "f64_mag f \<noteq> 0" "f64_sign f" |
    "\<not> is_nan f" "f64_mag f \<noteq> 0" "\<not> f64_sign f" by blast
  then show ?thesis
  proof cases
    case 3
    then show ?thesis using z and_sign_64 [of f] f64_split [of f]
      by (simp add: order_preserving_f64_bits_def Let_def unat_not_64)
  qed (use z c and_sign_64 [of F64_NAN] and_sign_64 [of 0] and_sign_64 [of f] unat_or_sign [of F64_NAN] unat_or_sign [of 0] unat_or_sign [of f] in
      \<open>simp_all add: order_preserving_f64_bits_def Let_def\<close>)
qed


text \<open>Both the number a float encodes and its key are increasing functions of its signed magnitude.\<close>

definition signed_mag :: "f64 \<Rightarrow> int" where
  "signed_mag f = (if f64_sign f then - int (f64_mag f) else int (f64_mag f))"

definition num_of_mag :: "int \<Rightarrow> int" where
  "num_of_mag x = (if x < 0 then - int (f64_scaled (nat (- x))) else int (f64_scaled (nat x)))"

definition key_of_mag :: "int \<Rightarrow> int" where
  "key_of_mag x = (if x < 0 then 9223372036854775807 + x else 9223372036854775808 + x)"

lemma num_of_mag_mono: "x < y \<Longrightarrow> num_of_mag x < num_of_mag y"
proof -
  assume xy: "x < y"
  have p: "0 < f64_scaled n" if "0 < n" for n using f64_scaled_less [of 0 n] that by simp
  consider "y < 0" | "x < 0" "0 \<le> y" | "0 \<le> x" using xy by linarith
  then show ?thesis
  proof cases
    case 2
    have "0 < f64_scaled (nat (- x))" using 2 p by simp
    then show ?thesis using 2 by (simp add: num_of_mag_def)
  qed (use xy in \<open>simp_all add: num_of_mag_def\<close>)
qed

lemma num_signed_mag: "f64_num f = num_of_mag (signed_mag f)"
  by (auto simp: f64_num_def num_of_mag_def signed_mag_def)

lemma key_signed_mag: "\<not> is_nan f \<Longrightarrow> int (unat (order_preserving_f64_bits f)) = key_of_mag (signed_mag f)"
  using f64_split(2) [of f] by (auto simp: order_bits key_of_mag_def signed_mag_def)

lemma key_nan: "\<not> is_nan f \<Longrightarrow> is_nan g \<Longrightarrow> order_preserving_f64_bits f < order_preserving_f64_bits g"
  by (auto simp: word_less_nat_alt order_bits is_nan_def [of f] f64_infinity_mag_def)

section \<open>Keys\<close>

context ordered_float
begin

lemma float_cmp: "cmp_ord (order_preserving_f64_bits a) (order_preserving_f64_bits b) = fcmp a b"
proof -
  have u: "cmp_ord x y = cmp_ord (int (unat x)) (int (unat y))" for x y :: "64 word"
    by (auto simp: cmp_ord_def word_less_def word_uint_eq_iff)
  consider "is_nan a" "is_nan b" | "is_nan a" "\<not> is_nan b" | "\<not> is_nan a" "is_nan b" | "\<not> is_nan a" "\<not> is_nan b" by blast
  then show ?thesis
  proof cases
    case 1
    then show ?thesis by (simp add: fcmp_nan u order_bits)
  next
    case 4
    have "cmp_ord (order_preserving_f64_bits a) (order_preserving_f64_bits b) = cmp_ord (key_of_mag (signed_mag a)) (key_of_mag (signed_mag b))"
      unfolding u key_signed_mag [OF 4(1)] key_signed_mag [OF 4(2)] ..
    also have "\<dots> = cmp_ord (signed_mag a) (signed_mag b)" by (rule cmp_ord_mono) (simp add: key_of_mag_def)
    also have "\<dots> = cmp_ord (f64_num a) (f64_num b)" unfolding num_signed_mag by (rule cmp_ord_mono [symmetric]) (rule num_of_mag_mono)
    finally show ?thesis using 4 by (simp add: fcmp_num)
  qed (simp_all add: fcmp_nan fcmp_less key_nan)
qed

lemma encode_cmp:
  assumes "data_type v = data_type w"
  shows "bytes_cmp (encode_order_preserving v @ s) (encode_order_preserving w @ t) =
    then_cmp (value_cmp fcmp v w) (bytes_cmp s t)"
proof -
  have l: "31 = LENGTH(32) - 1" "63 = LENGTH(64) - 1" by simp_all
  have x: "cmp_ord (a XOR SIGN_BIT_32) (b XOR SIGN_BIT_32) = cmp_ord (sint a) (sint b)" for a b
    unfolding SIGN_BIT_32_def l(1) by (rule xor_sign_cmp)
  have y: "cmp_ord (a XOR SIGN_BIT_64) (b XOR SIGN_BIT_64) = cmp_ord (sint a) (sint b)" for a b
    unfolding SIGN_BIT_64_def l(2) by (rule xor_sign_cmp)
  have z: "cmp_ord (of_bool a :: byte) (of_bool b) = cmp_ord a b" for a b by (cases a; cases b) (simp_all add: cmp_ord_def)
  show ?thesis using assms
    by (cases v; cases w) (simp_all add: be_bytes_cmp x y z float_cmp text_cmp)
qed

lemma encode_key_cmp:
  assumes "list_all2 (\<lambda>v w. data_type v = data_type w) vs ws"
  shows "bytes_cmp (encode_key vs @ s) (encode_key ws @ t) = then_cmp (lex_cmp (value_cmp fcmp) vs ws) (bytes_cmp s t)"
  using assms by (induction rule: list_all2_induct) (simp_all add: encode_key_def encode_cmp)

end


definition f64_ordered :: "f64 \<Rightarrow> f64 \<Rightarrow> Ordering" where
  "f64_ordered a b =
     (if is_nan a then if is_nan b then Equal else Greater else if is_nan b then Less
      else cmp_ord (f64_num a) (f64_num b))"

interpretation float_order: ordered_float f64_ordered
  by unfold_locales (simp_all add: f64_ordered_def)

section \<open>Key lengths\<close>

lemma utf8_len_cases:
  assumes "utf8_len b = n" "n \<noteq> 0"
  obtains a r where "b = a # r" "\<not> is_cont a" "n \<le> length b" "n \<le> 4" "\<forall>x \<in> set (take (n - 1) r). is_cont x" "1 < n \<longrightarrow> a \<noteq> 0"
proof -
  obtain a r where b: "b = a # r" using assms by (cases b) auto
  have "\<not> is_cont a \<and> n \<le> length b \<and> n \<le> 4 \<and> (\<forall>x \<in> set (take (n - 1) r). is_cont x) \<and> (1 < n \<longrightarrow> a \<noteq> 0)"
    using assms unfolding b by (auto simp: is_cont_def numeral_eq_Suc split: if_splits list.splits)
  then show ?thesis using that b by blast
qed

lemma utf8_append:
  assumes "utf8_valid (xs @ [c])" "\<not> is_cont c"
  shows "utf8_valid xs"
  using assms(1)
proof (induction xs rule: utf8_valid.induct)
  case (1 xs)
  show ?case
  proof (cases "xs = []")
    case True
    then show ?thesis by (simp add: utf8_valid.simps)
  next
    case False
    let ?n = "utf8_len (xs @ [c])"
    have n: "?n \<noteq> 0" and v: "utf8_valid (drop ?n (xs @ [c]))"
      using 1(2) False by (subst (asm) utf8_valid.simps; simp split: if_splits)+
    obtain a r where a: "xs @ [c] = a # r" "?n \<le> length (xs @ [c])" "\<forall>x \<in> set (take (?n - 1) r). is_cont x"
      using utf8_len_cases [OF refl n] by metis
    obtain ys where ys: "xs = a # ys" "r = ys @ [c]" using a(1) False by (cases xs) auto
    have le: "?n \<le> length xs"
    proof (rule ccontr)
      assume "\<not> ?n \<le> length xs"
      then have "?n - 1 = length r" using a(2) ys by simp
      then show False using a(3) ys(2) assms(2) by simp
    qed
    have "utf8_len xs = ?n" using n le unfolding ys(1) by (auto simp: Suc_le_eq split: if_splits list.splits)
    moreover have "drop ?n (xs @ [c]) = drop ?n xs @ [c]" using le by simp
    ultimately show ?thesis using 1(1) [OF False] n v by (subst utf8_valid.simps) simp
  qed
qed

lemma utf8_append_many: "utf8_valid (xs @ replicate k c) \<Longrightarrow> \<not> is_cont c \<Longrightarrow> utf8_valid xs"
proof (induction k)
  case (Suc k)
  then show ?case using utf8_append [of "xs @ replicate k c" c] by (simp add: replicate_append_same)
qed simp

lemma valid_unpadded: "valid_str s \<Longrightarrow> valid_str (without_char_padding s)"
proof -
  assume v: "valid_str s"
  obtain k where "s = trim_end_matches CHAR_PAD s @ replicate k CHAR_PAD" using trim_zeros [where s = s and c = CHAR_PAD] by metis
  then have "utf8_valid (map byte_of (trim_end_matches CHAR_PAD s) @ replicate k (byte_of CHAR_PAD))"
    using v by (metis valid_str_def map_append map_replicate)
  then show ?thesis using utf8_append_many by (simp add: valid_str_def without_char_padding_def CHAR_PAD_def byte_of_def is_cont_def)
qed

definition escaped_len :: "nat list \<Rightarrow> nat" where
  "escaped_len b = sum_list (map (\<lambda>x. if x = 0 then 2 else 1) b)"

lemma escaped_len_bound: "utf8_valid b \<Longrightarrow> escaped_len b \<le> 4 * length (filter (\<lambda>x. \<not> is_cont x) b)"
proof (induction b rule: utf8_valid.induct)
  case (1 b)
  show ?case
  proof (cases "b = []")
    case False
    let ?n = "utf8_len b"
    have n: "?n \<noteq> 0" and v: "utf8_valid (drop ?n b)"
      using 1(2) False by (subst (asm) utf8_valid.simps; simp split: if_splits)+
    obtain a r where a: "b = a # r" "\<not> is_cont a" "?n \<le> length b" "?n \<le> 4" "\<forall>x \<in> set (take (?n - 1) r). is_cont x" "1 < ?n \<longrightarrow> a \<noteq> 0"
      using utf8_len_cases [OF refl n] by metis
    obtain m where m: "?n = Suc m" using n by (cases ?n) auto
    have t: "take ?n b = a # take m r" using a(1) m by simp
    have c: "escaped_len (take m r) = length (take m r)"
    proof -
      have "map (\<lambda>x. if x = 0 then 2 else 1) (take m r) = map (\<lambda>_. 1 :: nat) (take m r)"
        using a(5) m by (auto simp: is_cont_def)
      then show ?thesis unfolding escaped_len_def by (simp only: sum_list_triv) simp
    qed
    have "escaped_len (take ?n b) = (if a = 0 then 2 else 1) + length (take m r)" using c by (simp add: t escaped_len_def)
    also have "\<dots> \<le> 4" using a(4,6) m by auto
    finally have h: "escaped_len (take ?n b) \<le> 4 * length (filter (\<lambda>x. \<not> is_cont x) (take ?n b))" using a(2) by (simp add: t)
    have "escaped_len b = escaped_len (take ?n b) + escaped_len (drop ?n b)"
      unfolding escaped_len_def by (metis append_take_drop_id map_append sum_list_append)
    moreover have "filter P b = filter P (take ?n b) @ filter P (drop ?n b)" for P by (metis append_take_drop_id filter_append)
    ultimately show ?thesis using h 1(1) [OF False n v] by simp
  qed (simp add: escaped_len_def)
qed

lemma escape_length: "length (escape_zeros b) = escaped_len (map unat b)"
  by (induction b) (simp_all add: escaped_len_def unat_eq_zero)

lemma unat_as_bytes: "map unat (as_bytes s) = map byte_of s"
proof -
  have "byte_of c < 256" for c unfolding byte_of_def by simp
  then have "unat (word_of_nat (byte_of c) :: byte) = byte_of c" for c by (intro unat_of_nat_eq) simp
  then show ?thesis by (simp add: as_bytes_def)
qed

lemma text_key_length:
  assumes "valid_str s"
  shows "length (encode_order_preserving (V_TEXT s)) \<le> 4 * char_count s + 2"
proof -
  have "length (filter (\<lambda>x. \<not> is_cont x) (map byte_of s)) = char_count s" by (simp add: char_count_def filter_map comp_def)
  then show ?thesis using escaped_len_bound [of "map byte_of s"] assms
    by (simp add: encode_order_preserving_bytes_def escape_length unat_as_bytes valid_str_def)
qed

end
