(* ===== verification/Value_Correct.thy ===== *)
theory Value_Correct
  imports Key_Encoding
begin

text \<open>
  The properties of values: exact conversions, and the order and length of index keys.
\<close>


section \<open>Exact conversions\<close>

definition valid_value :: "Value \<Rightarrow> bool" where
  "valid_value v \<longleftrightarrow> (case v of V_TEXT s \<Rightarrow> valid_str s | _ \<Rightarrow> True)"

lemma sint_small:
  assumes "- (2 ^ (LENGTH('a) - 1)) \<le> i" "i < 2 ^ (LENGTH('a) - 1)"
  shows "sint (word_of_int i :: 'a::len word) = i"
  using assms unfolding sint_sbintrunc' by (simp add: signed_take_bit_int_eq_self)

lemma sint_i64_from: "sint (i64_from i) = sint i"
  using sint_greater_eq [of i] sint_less [of i] unfolding i64_from_def by (intro sint_small) simp_all

lemma sint_i32: "i32_try_from i = Some j \<Longrightarrow> sint j = sint i"
  using sint_small [where 'a = 32, of "sint i"] by (auto simp: i32_try_from_def split: if_splits)

lemma bound_num: "f64_num I64_EXACT_FLOAT_BOUND = 2 ^ 53 * f64_unit"
proof -
  have "f64_mag I64_EXACT_FLOAT_BOUND = 1076 * 2 ^ 52" "\<not> f64_sign I64_EXACT_FLOAT_BOUND"
    by (simp_all add: f64_mag_def f64_sign_def I64_EXACT_FLOAT_BOUND_def)
  moreover have "f64_scaled (1076 * 2 ^ 52) = 2 ^ 52 * 2 ^ 1075" by (subst f64_scaled_parts [of _ 1076 0]) simp_all
  ultimately show ?thesis by (simp add: f64_num_def f64_unit_def)
qed

lemma mag_of_nat_le: "n \<le> 2 ^ 64 \<Longrightarrow> mag_of_nat n < f64_infinity_mag"
proof (cases "n < 2 ^ 53")
  case False
  assume n: "n \<le> 2 ^ 64"
  have p: "0 < n" using False by (cases n) auto
  define e where "e = bit_len n - 1"
  have b: "2 ^ e \<le> n" "n < 2 ^ Suc e" using bit_len_bounds [OF p] by (auto simp: e_def)
  have "(2::nat) ^ e < 2 ^ 65" using b(1) n by (rule le_less_trans [OF order_trans]) simp
  then have e: "e \<le> 64" using power_less_imp_less_exp [of "2::nat" e 65] by simp
  have "2 ^ 53 < (2::nat) ^ Suc e" using b(2) False by simp
  then have e2: "53 \<le> e" using power_less_imp_less_exp [of "2::nat" 53 "Suc e"] by simp
  have "n div 2 ^ (e - 52) < 2 ^ 53"
  proof (rule less_mult_imp_div_less)
    have "(2::nat) ^ Suc e = 2 ^ 53 * 2 ^ (e - 52)" using e2 power_add [of "2::nat" 53 "e - 52"] by (simp add: Suc_diff_le)
    then show "n < 2 ^ 53 * 2 ^ (e - 52)" using b(2) by simp
  qed
  then have "round_shift n (e - 52) \<le> 2 ^ 53" using e2 by (simp add: round_shift_def Let_def)
  then show ?thesis using mag_of_nat_eq [OF p e_def] e e2 by (simp add: f64_infinity_mag_def)
qed (rule mag_of_nat_exact(2))

lemma f64_of_int_large:
  assumes "2 ^ 53 \<le> i" "i \<le> 2 ^ 64"
  shows "2 ^ 53 * f64_unit \<le> f64_num (f64_of_int i)"
proof -
  have n: "2 ^ 53 \<le> nat i" "nat i \<le> 2 ^ 64" using assms by (simp_all add: le_nat_iff nat_le_iff)
  have m: "mag_of_nat (nat i) < 9223372036854775808" using mag_of_nat_le [OF n(2)] by (rule mag_bound)
  have "f64_num (f64_of_int i) = int (f64_scaled (mag_of_nat (nat i)))"
    using assms f64_of_mag(1,2) [OF m] by (simp add: f64_of_int_def f64_num_def)
  then show ?thesis using mag_of_nat_large [OF n(1)] by (simp add: f64_unit_def le_nat_iff)
qed

lemma exact_bound:
  fixes i :: "'a::len word"
  assumes "LENGTH('a) \<le> 64" "f64_num (f64_of_int \<bar>sint i\<bar>) < f64_num I64_EXACT_FLOAT_BOUND"
  shows "\<bar>sint i\<bar> < 2 ^ 53"
proof (rule ccontr)
  assume "\<not> \<bar>sint i\<bar> < 2 ^ 53"
  moreover have "\<bar>sint i\<bar> \<le> 2 ^ 64"
  proof -
    have "(2::int) ^ (LENGTH('a) - 1) \<le> 2 ^ 64" using assms(1) by (intro power_increasing) simp_all
    then show ?thesis using sint_greater_eq [of i] sint_less [of i] by simp
  qed
  ultimately show False using f64_of_int_large [of "\<bar>sint i\<bar>"] assms(2) bound_num by simp
qed

lemma whole_float:
  assumes "is_whole f" "\<bar>f64_num f\<bar> < f64_num I64_EXACT_FLOAT_BOUND"
  shows "\<bar>i64_of_f64 f\<bar> < 2 ^ 53" "f64_num f = i64_of_f64 f * f64_unit" "\<not> is_nan f"
proof -
  have u: "0 < f64_unit" by (simp add: f64_unit_def)
  show nn: "\<not> is_nan f" using assms(1) by (simp add: is_whole_def is_nan_def)
  obtain k where k: "f64_num f = f64_unit * k" using assms(1) by (auto simp: is_whole_def)
  then have "f64_unit * \<bar>k\<bar> < f64_unit * 2 ^ 53" using assms(2) bound_num u by (simp add: abs_mult mult.commute)
  then have kb: "\<bar>k\<bar> < 2 ^ 53" using u by simp
  have "f64_num f sdiv f64_unit = k"
    using u by (simp add: k signed_divide_int_def abs_mult sgn_mult sgn_mult_abs)
  then have "i64_of_f64 f = k" using nn kb by (simp add: i64_of_f64_def I64_MIN_def I64_MAX_def)
  then show "\<bar>i64_of_f64 f\<bar> < 2 ^ 53" "f64_num f = i64_of_f64 f * f64_unit" using k kb by (simp_all add: mult.commute)
qed


context ordered_float
begin

lemma value_cmp_refl: "value_cmp fcmp v v = Equal"
  by (cases v) (simp_all add: lex_cmp_refl fcmp_num fcmp_nan, metis cmp_ord_simps(1) fcmp_nan fcmp_num)

lemma compare_int_float:
  assumes "\<bar>i\<bar> < 2 ^ 53" "f64_num f = i * f64_unit" "\<not> is_nan f"
  shows "fcmp (f64_of_int i) f = Equal" "fcmp f (f64_of_int i) = Equal"
  using f64_of_int_exact [OF assms(1)] assms by (simp_all add: fcmp_num)

lemma exactly_as_equal:
  assumes "exactly_as v ty = Some w"
  shows "data_type w = value_type ty \<and>
    (value_compare fcmp v w = Some Equal \<or> (\<exists>s n. v = V_TEXT s \<and> ty = T_CHAR n \<and> w = V_TEXT (without_char_padding s)))"
proof (cases "data_type v = ty")
  case True
  then have "w = v" using assms by (simp add: exactly_as_def)
  moreover have "value_type (data_type v) = data_type v" by (cases v) simp_all
  ultimately show ?thesis using True by (auto simp: value_compare_def value_cmp_refl)
next
  case False
  have whole: ?thesis if f: "v = V_FLOAT f" "ty = T_INT \<or> ty = T_BIGINT" for f
  proof -
    let ?i = "i64_of_f64 f"
    have w: "is_whole f" "\<bar>f64_num f\<bar> < f64_num I64_EXACT_FLOAT_BOUND" "ok (coerce_to (V_BIGINT (word_of_int ?i)) ty) = Some w"
      using assms f False by (auto simp: exactly_as_def split: if_splits)
    note wf = whole_float [OF w(1,2)]
    have i: "sint (word_of_int ?i :: 64 word) = ?i" using wf(1) by (intro sint_small) auto
    show ?thesis using w(3) f i compare_int_float [OF wf(1,2,3)] sint_i32
      by (auto simp: coerce_to_def value_compare_def split: option.splits)
  qed
  show ?thesis
  proof (cases v)
    case (V_INT i)
    then show ?thesis using assms False exact_bound [of i] f64_of_int_exact
      by (auto simp: exactly_as_def coerce_to_def value_compare_def sint_i64_from compare_int_float split: DataType.splits if_splits)
  next
    case (V_BIGINT i)
    have j: "sint j = sint i" if "i32_try_from i = Some j" for j using that by (rule sint_i32)
    show ?thesis using V_BIGINT assms False exact_bound [of i] f64_of_int_exact
      by (auto simp: exactly_as_def coerce_to_def value_compare_def sint_i64_from compare_int_float j
          split: DataType.splits if_splits option.splits)
  next
    case (V_FLOAT f)
    then show ?thesis using assms False whole [OF V_FLOAT] by (auto simp: exactly_as_def split: DataType.splits)
  qed (use assms False in \<open>auto simp: exactly_as_def split: DataType.splits\<close>)
qed

end

lemma coerced_key_length:
  assumes "valid_value v" "coerce_to v ty = Ok w" "key_width ty = Some n"
  shows "length (encode_order_preserving w) \<le> n"
proof (cases "data_type v = ty")
  case True
  then have "w = v" using assms(2) by (simp add: coerce_to_def)
  then show ?thesis using assms(3) True by (cases v) (auto simp: to_be_bytes_def)
next
  case False
  have b: "text_key_width m = Some k \<Longrightarrow> 4 * unat m + 2 = k" for m k
    by (auto simp: text_key_width_def checked_usize_def MAX_UTF8_CHAR_LEN_def TEXT_KEY_TERMINATOR_LEN_def bind_eq_Some_conv split: if_splits)
  have t: "length (encode_order_preserving w) \<le> n" if "fit_chars s m = Ok w" "valid_str s" "text_key_width m = Some n" for s m
    using that b [OF that(3)] text_key_length [OF that(2)] by (auto simp: fit_chars_def Let_def split: if_splits)
  show ?thesis using assms False
    by (cases v; cases ty)
      (auto simp: coerce_to_def to_be_bytes_def valid_value_def intro: t valid_unpadded split: option.splits)
qed

section \<open>The properties of values and keys\<close>

text \<open>C12. Index keys sort like the rows they encode: for two rows of values of the same column types the bytewise
  comparison of their keys is the comparison of the rows column by column, and when the rows are equal it is the
  comparison of whatever bytes follow the keys. So no key is a prefix of a key of another row, and floats, negative
  numbers, NaN, signed zeros, strings with embedded zero bytes and strings that are prefixes of others are ordered as
  the values are.\<close>

theorem key_order:
  assumes "ordered_float fcmp" "list_all2 (\<lambda>v w. data_type v = data_type w) vs ws"
  shows "bytes_cmp (encode_key vs @ s) (encode_key ws @ t) = then_cmp (lex_cmp (value_cmp fcmp) vs ws) (bytes_cmp s t)"
  using ordered_float.encode_key_cmp [OF assms] .

theorem key_order_witness:
  "bytes_cmp (encode_key [V_TEXT ''a'', V_INT (- 1)] @ [7]) (encode_key [V_TEXT ''ab'', V_INT 0] @ [3]) = Less"
proof -
  have "lex_cmp (value_cmp f64_ordered) [V_TEXT ''a'', V_INT (- 1)] [V_TEXT ''ab'', V_INT 0] = Less" by (simp add: as_bytes_def)
  then show ?thesis using key_order [OF float_order.ordered_float_axioms, of "[V_TEXT ''a'', V_INT (- 1)]" "[V_TEXT ''ab'', V_INT 0]" "[7]" "[3]"]
    by simp
qed

text \<open>C13. The key of a value stored in a column is never longer than the width the column's type declares for index keys:
  a string of at most \<open>n\<close> characters takes at most \<open>4 * n + 2\<close> bytes, escapes and terminator included.\<close>

theorem key_width_bound:
  assumes "valid_value v" "coerce_to v ty = Ok w" "key_width ty = Some n"
  shows "length (encode_order_preserving w) \<le> n"
  using coerced_key_length [OF assms] .

theorem key_width_bound_witness: "length (encode_order_preserving (V_TEXT ''ab'')) \<le> 14"
proof (rule key_width_bound)
  show "valid_value (V_TEXT ''ab  '')" by (simp add: valid_value_def valid_str_def utf8_valid.simps byte_of_def)
  show "coerce_to (V_TEXT ''ab  '') (T_CHAR 3) = Ok (V_TEXT ''ab'')" by code_simp
  show "key_width (T_CHAR 3) = Some 14"
    by (simp add: text_key_width_def checked_usize_def MAX_UTF8_CHAR_LEN_def TEXT_KEY_TERMINATOR_LEN_def)
qed



end
