(* ===== verification/Schema.thy ===== *)
theory Schema
  imports Value_Correct
begin

text \<open>
  Table schemas of \<open>src/src/catalog/mod.rs\<close>: the layout of columns and the encoding of rows, with a null bitmap, a
  fixed-width part and the text of text columns behind it.
\<close>


unbundle bit_operations_syntax

section \<open>Definitions\<close>

record Column =
  col_name :: string
  dtype :: DataType
  col_offset :: nat

record Schema =
  cols :: "Column list"
  data_len :: nat
  bitmap_len :: nat

fun lay_out :: "nat \<Rightarrow> (DataType \<times> string) list \<Rightarrow> Column list \<times> nat" where
  "lay_out offset [] = ([], offset)"
| "lay_out offset ((ty, name) # columns) =
     (let col = \<lparr>col_name = name, dtype = ty, col_offset = offset\<rparr>;
          (cs, end) = lay_out (offset + fixed_width (dtype col)) columns in
      (col # cs, end))"

definition div_ceil8 :: "nat \<Rightarrow> nat" where
  "div_ceil8 n = (n + 7) div 8"

definition Schema_new :: "(DataType \<times> string) list \<Rightarrow> Schema" where
  "Schema_new columns =
     (let (cs, offset) = lay_out 0 columns in
      \<lparr>cols = cs, data_len = offset, bitmap_len = div_ceil8 (length columns)\<rparr>)"

definition column_error :: "Column \<Rightarrow> Value \<Rightarrow> CoercionError \<Rightarrow> CatalogError" where
  "column_error col v e =
     (case e of
        WrongType \<Rightarrow> ColumnType (col_name col) (dtype col) (data_type v)
      | OutOfRange \<Rightarrow> ColumnOutOfRange (col_name col) (dtype col) v
      | TooLong len \<Rightarrow> ColumnTooLong (col_name col) (dtype col) len)"

definition Column_coerce :: "Column \<Rightarrow> Value \<Rightarrow> (CatalogError, Value) result" where
  "Column_coerce col v = map_err (column_error col v) (coerce_to v (dtype col))"

fun Value_encode :: "Value \<Rightarrow> bytes" where
  "Value_encode (V_BOOLEAN b) = [of_bool b]"
| "Value_encode (V_INT i) = to_le_bytes i"
| "Value_encode (V_BIGINT i) = to_le_bytes i"
| "Value_encode (V_FLOAT f) = to_le_bytes f"
| "Value_encode (V_TIMESTAMP t) = to_le_bytes t"
| "Value_encode (V_TEXT s) = as_bytes s"

definition u32_try_from_usize :: "nat \<Rightarrow> u32 option" where
  "u32_try_from_usize n = (let w = word_of_nat n in if unat w = n then Some w else None)"

definition text_descriptor :: "nat \<Rightarrow> nat \<Rightarrow> (CatalogError, bytes) result" where
  "text_descriptor offset len =
     (let too_large = RowTooLarge (offset + len) in
      bindR (ok_or (u32_try_from_usize offset) too_large) (\<lambda>offset.
      bindR (ok_or (u32_try_from_usize len) too_large) (\<lambda>len.
      Ok (to_le_bytes offset @ to_le_bytes len))))"

definition text_at :: "bytes \<Rightarrow> bytes \<Rightarrow> (CatalogError, Value) result" where
  "text_at tuple descriptor =
     bindR (slice_get descriptor 0 4) (\<lambda>a.
     bindR (slice_get descriptor 4 8) (\<lambda>b.
     let offset = unat (from_le_bytes a :: u32); len = unat (from_le_bytes b :: u32) in
     if offset + len \<le> length tuple then
       (case from_utf8 (sub tuple offset len) of
          Some text \<Rightarrow> Ok (V_TEXT text)
        | None \<Rightarrow> Err TupleSchemaMismatch)
     else Err TupleSchemaMismatch))"

definition is_null :: "bytes \<Rightarrow> nat \<Rightarrow> (CatalogError, bool) result" where
  "is_null data col_idx =
     (if col_idx div 8 < length data
      then Ok (drop_bit (col_idx mod 8) (data ! (col_idx div 8)) AND 1 = 1)
      else Err TupleSchemaMismatch)"

definition fixed_bytes :: "bytes \<Rightarrow> nat \<Rightarrow> (CatalogError, bytes) result" where
  "fixed_bytes bs n = (if length bs = n then Ok bs else Panic)"

fun Value_decode :: "bytes \<Rightarrow> bytes \<Rightarrow> DataType \<Rightarrow> (CatalogError, Value) result" where
  "Value_decode tuple bs T_BOOLEAN = bindR (index_get bs 0) (\<lambda>b. Ok (V_BOOLEAN (b \<noteq> 0)))"
| "Value_decode tuple bs T_INT = bindR (fixed_bytes bs 4) (\<lambda>b. Ok (V_INT (from_le_bytes b)))"
| "Value_decode tuple bs T_BIGINT = bindR (fixed_bytes bs 8) (\<lambda>b. Ok (V_BIGINT (from_le_bytes b)))"
| "Value_decode tuple bs T_FLOAT = bindR (fixed_bytes bs 8) (\<lambda>b. Ok (V_FLOAT (from_le_bytes b)))"
| "Value_decode tuple bs T_TIMESTAMP = bindR (fixed_bytes bs 8) (\<lambda>b. Ok (V_TIMESTAMP (from_le_bytes b)))"
| "Value_decode tuple bs _ = text_at tuple bs"

definition get_value :: "Schema \<Rightarrow> bytes \<Rightarrow> nat \<Rightarrow> (CatalogError, Value option) result" where
  "get_value sch tuple col_idx =
     (if col_idx < length (cols sch) then
        let col = cols sch ! col_idx in
        bindR (is_null tuple col_idx) (\<lambda>null.
        if null then Ok None
        else let a = col_offset col; b = col_offset col + fixed_width (dtype col) in
          if bitmap_len sch \<le> length tuple \<and> b \<le> length (drop (bitmap_len sch) tuple) then
            mapR Some (Value_decode tuple (sub (drop (bitmap_len sch) tuple) a (b - a)) (dtype col))
          else Err TupleSchemaMismatch)
      else Err ColumnOutOfBounds)"

text \<open>The body of the loop over the columns, and of the loop that places the text of each text column behind the
  fixed-width part.\<close>

definition encode_col :: "nat \<times> Column \<times> Value option \<Rightarrow> bytes \<times> (nat \<times> string) list \<Rightarrow>
    (CatalogError, bytes \<times> (nat \<times> string) list) result" where
  "encode_col = (\<lambda>(i, col, val) (data, texts).
     case val of
       None \<Rightarrow>
         bindR (index_get data (i div 8)) (\<lambda>b.
         bindR (index_put data (i div 8) (b OR push_bit (i mod 8) 1)) (\<lambda>data.
         Ok (data @ replicate (fixed_width (dtype col)) 0, texts)))
     | Some v \<Rightarrow>
         bindR (Column_coerce col v) (\<lambda>w.
         case w of
           V_TEXT s \<Rightarrow> Ok (data @ replicate TEXT_DESCRIPTOR_LEN 0, texts @ [(length data, s)])
         | w \<Rightarrow> Ok (data @ Value_encode w, texts)))"

definition place_text :: "nat \<times> string \<Rightarrow> bytes \<Rightarrow> (CatalogError, bytes) result" where
  "place_text = (\<lambda>(descriptor_at, s) data.
     bindR (text_descriptor (length data) (length s)) (\<lambda>descriptor.
     bindR (copy_from_slice data descriptor_at (descriptor_at + TEXT_DESCRIPTOR_LEN) descriptor) (\<lambda>data.
     Ok (data @ as_bytes s))))"

definition encode_tuple :: "Schema \<Rightarrow> Value option list \<Rightarrow> (CatalogError, bytes) result" where
  "encode_tuple sch vals =
     (if length vals \<noteq> length (cols sch) then Err TupleSchemaMismatch
      else bindR (foldR encode_col (enumerate 0 (zip (cols sch) vals)) (replicate (bitmap_len sch) 0, []))
        (\<lambda>(data, texts). foldR place_text texts data))"

definition col_idx :: "Schema \<Rightarrow> string \<Rightarrow> nat option" where
  "col_idx sch name = map_option fst (find (\<lambda>(i, c). col_name c = name) (enumerate 0 (cols sch)))"

definition TEXT_UPDATE_RESERVE :: nat where "TEXT_UPDATE_RESERVE = PAGE_SIZE div 8"

definition update_reserve :: "Schema \<Rightarrow> nat" where
  "update_reserve sch = (if list_ex (\<lambda>c. is_text (dtype c)) (cols sch) then TEXT_UPDATE_RESERVE else 0)"

end
