(* ===== verification/Schema_Correct.thy ===== *)
theory Schema_Correct
  imports Schema
begin

text \<open>
  Correctness of row encoding: every column of an encoded row reads back as the value stored in it, and reading any
  bytes as a row never panics.
\<close>


unbundle bit_operations_syntax

section \<open>Values\<close>

lemma from_utf8_as_bytes: "valid_str s \<Longrightarrow> from_utf8 (as_bytes s) = Some s"
proof -
  assume "valid_str s"
  moreover have "map (\<lambda>w. char_of (unat w)) (as_bytes s) = map char_of (map unat (as_bytes s))" by simp
  ultimately show ?thesis by (simp add: from_utf8_def valid_str_def unat_as_bytes) (simp add: byte_of_def comp_def)
qed

lemma u32_try_from_usize_Some: "u32_try_from_usize n = Some w \<longleftrightarrow> unat w = n"
  by (auto simp: u32_try_from_usize_def Let_def)

lemma decode_encode:
  "data_type v \<noteq> T_TEXT \<Longrightarrow> Value_decode tuple (Value_encode v) (data_type v) = Ok v"
  by (cases v) (simp_all add: index_get_def fixed_bytes_def from_to_le_bytes)

lemma encode_length: "data_type v \<noteq> T_TEXT \<Longrightarrow> length (Value_encode v) = fixed_width (data_type v)"
  by (cases v) simp_all

lemma coerce_type: "coerce_to v ty = Ok w \<Longrightarrow> data_type w = value_type ty"
  by (cases v; cases ty) (auto simp: coerce_to_def fit_chars_def Let_def split: if_splits option.splits)

lemma coerce_valid: "coerce_to v ty = Ok w \<Longrightarrow> valid_value v \<Longrightarrow> valid_value w"
  by (cases v; cases ty) (auto simp: coerce_to_def fit_chars_def valid_value_def valid_unpadded Let_def split: if_splits option.splits)

lemma value_type_text: "value_type ty = T_TEXT \<longleftrightarrow> is_text ty"
  by (cases ty) simp_all

lemma value_type_other: "\<not> is_text ty \<Longrightarrow> value_type ty = ty"
  by (cases ty) simp_all

lemma text_width: "is_text ty \<Longrightarrow> fixed_width ty = TEXT_DESCRIPTOR_LEN"
  by (cases ty) simp_all

lemma text_decode: "is_text ty \<Longrightarrow> Value_decode tuple bs ty = text_at tuple bs"
  by (cases ty) simp_all

section \<open>Placing texts\<close>

text \<open>A text is placed when the descriptor in its column points at its bytes.\<close>

lemma text_at_ok:
  assumes "text_descriptor off (length s) = Ok d" "off + length s \<le> length t" "sub t off (length s) = as_bytes s" "valid_str s"
  shows "text_at t d = Ok (V_TEXT s)"
proof -
  obtain o' l where d: "d = to_le_bytes (o' :: u32) @ to_le_bytes (l :: u32)" "unat o' = off" "unat l = length s"
    using assms(1) by (auto simp: text_descriptor_def bindR_Ok_iff u32_try_from_usize_Some Let_def)
  have "sub d 0 4 = to_le_bytes o'" "sub d 4 4 = to_le_bytes l" "length d = 8" by (simp_all add: d(1) sub_def)
  then show ?thesis using assms(2-4) d(2,3) by (simp add: text_at_def slice_get_def from_to_le_bytes from_utf8_as_bytes)
qed

lemma text_descriptor_length: "text_descriptor off n = Ok d \<Longrightarrow> length d = TEXT_DESCRIPTOR_LEN"
  by (auto simp: text_descriptor_def bindR_Ok_iff TEXT_DESCRIPTOR_LEN_def Let_def)

definition apart :: "nat \<Rightarrow> nat \<Rightarrow> bool" where
  "apart i j \<longleftrightarrow> i + TEXT_DESCRIPTOR_LEN \<le> j \<or> j + TEXT_DESCRIPTOR_LEN \<le> i"

lemma place_text_ok:
  assumes "place_text (at, s) d = Ok e" "at + TEXT_DESCRIPTOR_LEN \<le> length d"
  shows "\<exists>x. text_descriptor (length d) (length s) = Ok x \<and> e = patch d at x @ as_bytes s \<and> length x = TEXT_DESCRIPTOR_LEN"
  using assms text_descriptor_length by (auto simp: place_text_def bindR_Ok_iff copy_from_slice_def split: if_splits)

lemma as_bytes_length [simp]: "length (as_bytes s) = length s"
  by (simp add: as_bytes_def)

lemma place_texts_ok:
  assumes "foldR place_text txs d = Ok t" "\<forall>(at, s) \<in> set txs. at + TEXT_DESCRIPTOR_LEN \<le> length d \<and> valid_str s"
    and "sorted_wrt (\<lambda>x y. apart (fst x) (fst y)) txs"
  shows "length d \<le> length t \<and>
    (\<forall>i < length d. (\<forall>(at, s) \<in> set txs. i < at \<or> at + TEXT_DESCRIPTOR_LEN \<le> i) \<longrightarrow> t ! i = d ! i) \<and>
    (\<forall>(at, s) \<in> set txs. text_at t (sub t at TEXT_DESCRIPTOR_LEN) = Ok (V_TEXT s))"
  using assms
proof (induction txs arbitrary: d)
  case (Cons tx txs)
  obtain at s where tx: "tx = (at, s)" by (cases tx)
  obtain e where e: "place_text (at, s) d = Ok e" "foldR place_text txs e = Ok t"
    using Cons.prems(1) by (auto simp: tx bindR_Ok_iff)
  have at: "at + TEXT_DESCRIPTOR_LEN \<le> length d" "valid_str s" using Cons.prems(2) by (auto simp: tx)
  obtain x where x: "text_descriptor (length d) (length s) = Ok x" "e = patch d at x @ as_bytes s" "length x = TEXT_DESCRIPTOR_LEN"
    using place_text_ok [OF e(1) at(1)] by blast
  have le: "length e = length d + length s" using x at by simp
  have IH: "length e \<le> length t" "\<And>i. i < length e \<Longrightarrow> (\<forall>(at, s) \<in> set txs. i < at \<or> at + TEXT_DESCRIPTOR_LEN \<le> i) \<Longrightarrow> t ! i = e ! i"
    "\<forall>(at, s) \<in> set txs. text_at t (sub t at TEXT_DESCRIPTOR_LEN) = Ok (V_TEXT s)"
    using Cons.IH [OF e(2)] Cons.prems(2,3) le by fastforce+
  have bytes: "sub t (length d) (length s) = as_bytes s"
  proof (rule nth_equalityI)
    fix i assume "i < length (sub t (length d) (length s))"
    then have i: "i < length s" using IH(1) le by simp
    then have "t ! (length d + i) = e ! (length d + i)" using Cons.prems(2) le by (intro IH(2)) auto
    also have "\<dots> = as_bytes s ! i" using x at i by (simp add: nth_append)
    finally show "sub t (length d) (length s) ! i = as_bytes s ! i" using i IH(1) le by (simp add: nth_sub)
  qed (use IH(1) le in simp)
  have desc: "sub t at TEXT_DESCRIPTOR_LEN = x"
  proof (rule nth_equalityI)
    fix i assume "i < length (sub t at TEXT_DESCRIPTOR_LEN)"
    then have i: "i < TEXT_DESCRIPTOR_LEN" using IH(1) le at by simp
    have "t ! (at + i) = e ! (at + i)" using Cons.prems(3) i le at by (intro IH(2)) (fastforce simp: tx apart_def)+
    also have "\<dots> = x ! i" using x at i by (simp add: nth_append nth_patch)
    finally show "sub t at TEXT_DESCRIPTOR_LEN ! i = x ! i" using i IH(1) le at by (simp add: nth_sub)
  qed (use IH(1) le at x in simp)
  have "text_at t x = Ok (V_TEXT s)" using text_at_ok [OF x(1) _ bytes at(2)] IH(1) le by simp
  moreover have "t ! i = d ! i" if "i < length d" "\<forall>(at, s) \<in> set (tx # txs). i < at \<or> at + TEXT_DESCRIPTOR_LEN \<le> i" for i
  proof -
    have "t ! i = e ! i" using that le by (intro IH(2)) auto
    also have "\<dots> = d ! i" using that x at by (auto simp: tx nth_append nth_patch)
    finally show ?thesis .
  qed
  ultimately show ?case using IH(1,3) le desc by (auto simp: tx)
qed simp


unbundle bit_operations_syntax

section \<open>The fixed-width part\<close>

type_synonym slots = "(Column \<times> Value option) list"

definition coerce_opt :: "Column \<times> Value option \<Rightarrow> (CatalogError, Value option) result" where
  "coerce_opt = (\<lambda>(col, val). case val of None \<Rightarrow> Ok None | Some v \<Rightarrow> mapR Some (Column_coerce col v))"

definition null_bit :: "nat \<Rightarrow> bytes \<Rightarrow> bytes" where
  "null_bit i data = data[i div 8 := data ! (i div 8) OR push_bit (i mod 8) 1]"

fun slot_of :: "Column \<times> Value option \<Rightarrow> bytes" where
  "slot_of (c, Some (V_TEXT s)) = replicate TEXT_DESCRIPTOR_LEN 0"
| "slot_of (c, Some v) = Value_encode v"
| "slot_of (c, None) = replicate (fixed_width (dtype c)) 0"

fun text_of :: "nat \<Rightarrow> Value option \<Rightarrow> (nat \<times> string) list" where
  "text_of off (Some (V_TEXT s)) = [(off, s)]"
| "text_of off _ = []"

fun set_nulls :: "nat \<Rightarrow> slots \<Rightarrow> bytes \<Rightarrow> bytes" where
  "set_nulls n [] bm = bm"
| "set_nulls n ((c, w) # cw) bm = set_nulls (Suc n) cw (if w = None then null_bit n bm else bm)"

fun text_pos :: "nat \<Rightarrow> slots \<Rightarrow> (nat \<times> string) list" where
  "text_pos off [] = []"
| "text_pos off ((c, w) # cw) = text_of off w @ text_pos (off + fixed_width (dtype c)) cw"

definition slot_ok :: "Column \<times> Value option \<Rightarrow> bool" where
  "slot_ok = (\<lambda>(c, w). case w of None \<Rightarrow> True | Some v \<Rightarrow> data_type v = value_type (dtype c) \<and> valid_value v)"

lemma slot_length: "slot_ok (c, w) \<Longrightarrow> length (slot_of (c, w)) = fixed_width (dtype c)"
proof (cases w)
  case (Some v)
  assume "slot_ok (c, w)"
  then have v: "data_type v = value_type (dtype c)" using Some by (simp add: slot_ok_def)
  show ?thesis
  proof (cases "\<exists>s. v = V_TEXT s")
    case True
    then show ?thesis using v Some value_type_text [of "dtype c"] text_width [of "dtype c"] by auto
  next
    case False
    then have "data_type v \<noteq> T_TEXT" by (cases v) auto
    then show ?thesis using v Some encode_length [of v] value_type_text [of "dtype c"] value_type_other [of "dtype c"] False
      by (cases v) auto
  qed
qed simp

lemma null_bit_append: "i div 8 < length bm \<Longrightarrow> null_bit i (bm @ fx) = null_bit i bm @ fx"
  by (simp add: null_bit_def list_update_append nth_append)

lemma null_bit_length [simp]: "length (null_bit i bm) = length bm"
  by (simp add: null_bit_def)

lemma set_nulls_length [simp]: "length (set_nulls n cw bm) = length bm"
  by (induction n cw bm rule: set_nulls.induct) auto

lemma encode_col_eq:
  assumes "i div 8 < length bm"
  shows "encode_col (i, c, val) (bm @ fx, tx) = bindR (coerce_opt (c, val)) (\<lambda>w.
    Ok ((if w = None then null_bit i bm else bm) @ fx @ slot_of (c, w), tx @ text_of (length bm + length fx) w))"
proof (cases val)
  case None
  then show ?thesis using assms null_bit_append [of i bm fx]
    by (simp add: encode_col_def coerce_opt_def index_get_def index_put_def null_bit_def nth_append)
next
  case (Some v)
  show ?thesis
  proof (cases "Column_coerce c v")
    case (Ok w)
    then show ?thesis using Some by (cases w) (simp_all add: encode_col_def coerce_opt_def)
  qed (simp_all add: Some encode_col_def coerce_opt_def)
qed

lemma coerce_opt_ok: "coerce_opt (c, val) = Ok w \<Longrightarrow> (\<forall>v. val = Some v \<longrightarrow> valid_value v) \<Longrightarrow> slot_ok (c, w)"
  by (auto simp: coerce_opt_def slot_ok_def Column_coerce_def split: option.splits dest: coerce_type coerce_valid elim!: mapR.elims)

lemma encode_cols_eq:
  assumes "\<forall>k < length cv. (n + k) div 8 < length bm" "\<forall>(c, val) \<in> set cv. \<forall>v. val = Some v \<longrightarrow> valid_value v"
  shows "foldR encode_col (enumerate n cv) (bm @ fx, tx) = bindR (traverseR coerce_opt cv) (\<lambda>ws.
    let cw = zip (map fst cv) ws in
    Ok (set_nulls n cw bm @ fx @ concat (map slot_of cw), tx @ text_pos (length bm + length fx) cw))"
  using assms
proof (induction cv arbitrary: n bm fx tx)
  case (Cons x cv)
  obtain c val where x: "x = (c, val)" by (cases x)
  have n: "n div 8 < length bm" using Cons.prems(1) by force
  show ?case
  proof (cases "coerce_opt (c, val)")
    case (Ok w)
    let ?bm = "if w = None then null_bit n bm else bm"
    have ok: "slot_ok (c, w)" using coerce_opt_ok [OF Ok] Cons.prems(2) by (auto simp: x)
    have len: "length ?bm = length bm" by simp
    have s: "\<forall>k < length cv. (Suc n + k) div 8 < length ?bm" using Cons.prems(1) len by force
    have v: "\<forall>(c, val) \<in> set cv. \<forall>v. val = Some v \<longrightarrow> valid_value v" using Cons.prems(2) by auto
    have "encode_col (n, c, val) (bm @ fx, tx) = Ok (?bm @ (fx @ slot_of (c, w)), tx @ text_of (length bm + length fx) w)"
      using encode_col_eq [OF n] Ok by simp
    then show ?thesis using Cons.IH [OF s v, of "fx @ slot_of (c, w)" "tx @ text_of (length bm + length fx) w"] Ok slot_length [OF ok]
      by (cases "traverseR coerce_opt cv") (simp_all add: x Let_def add.assoc)
  qed (simp_all add: x encode_col_eq [OF n])
qed simp

lemma set_nulls_bit:
  assumes "\<forall>k < length cw. (n + k) div 8 < length bm" "i div 8 < length bm"
  shows "bit (set_nulls n cw bm ! (i div 8)) (i mod 8) \<longleftrightarrow>
    bit (bm ! (i div 8)) (i mod 8) \<or> n \<le> i \<and> i < n + length cw \<and> snd (cw ! (i - n)) = None"
  using assms
proof (induction n cw bm rule: set_nulls.induct)
  case (2 n c w cw bm)
  let ?bm = "if w = None then null_bit n bm else bm"
  have n: "n div 8 < length bm" using 2(2) by force
  have "\<forall>k < length cw. (Suc n + k) div 8 < length ?bm" using 2(2) by force
  then have IH: "bit (set_nulls (Suc n) cw ?bm ! (i div 8)) (i mod 8) \<longleftrightarrow>
    bit (?bm ! (i div 8)) (i mod 8) \<or> Suc n \<le> i \<and> i < Suc n + length cw \<and> snd (cw ! (i - Suc n)) = None"
    using 2(1) 2(3) by simp
  have p: "bit ((2 :: byte) ^ (k mod 8)) j \<longleftrightarrow> j = k mod 8" for k j using mod_less_divisor [of 8 k] by (auto simp: bit_exp_iff)
  have eq: "i = n \<longleftrightarrow> i div 8 = n div 8 \<and> i mod 8 = n mod 8" by (metis div_mult_mod_eq)
  have "bit (?bm ! (i div 8)) (i mod 8) \<longleftrightarrow> bit (bm ! (i div 8)) (i mod 8) \<or> i = n \<and> w = None"
    using n 2(3) by (auto simp: null_bit_def nth_list_update bit_or_iff p eq)
  then show ?case using IH by (auto simp: nth_Cons' Suc_diff_le le_Suc_eq less_Suc_eq)
qed auto


text \<open>The byte offsets of the columns.\<close>

definition offset_of :: "slots \<Rightarrow> nat \<Rightarrow> nat" where
  "offset_of cw i = sum_list (map (\<lambda>(c, w). fixed_width (dtype c)) (take i cw))"

lemma offset_of_Suc: "i < length cw \<Longrightarrow> offset_of cw (Suc i) = offset_of cw i + fixed_width (dtype (fst (cw ! i)))"
  by (simp add: offset_of_def take_Suc_conv_app_nth split_beta)

lemma offset_of_mono: "i \<le> j \<Longrightarrow> offset_of cw i \<le> offset_of cw j"
  by (metis le_add1 le_add_diff_inverse map_append offset_of_def sum_list_append take_add)

lemma slots_length: "\<forall>x \<in> set cw. slot_ok x \<Longrightarrow> length (concat (map slot_of (take i cw))) = offset_of cw i"
proof (induction cw arbitrary: i)
  case (Cons x cw)
  then show ?case by (cases i; cases x) (auto simp: offset_of_def slot_length)
qed (simp add: offset_of_def)

lemma sub_slots:
  assumes "\<forall>x \<in> set cw. slot_ok x" "i < length cw"
  shows "sub (concat (map slot_of cw)) (offset_of cw i) (fixed_width (dtype (fst (cw ! i)))) = slot_of (cw ! i)"
    "offset_of cw i + fixed_width (dtype (fst (cw ! i))) \<le> length (concat (map slot_of cw))"
proof -
  have c: "concat (map slot_of cw) = concat (map slot_of (take i cw)) @ slot_of (cw ! i) @ concat (map slot_of (drop (Suc i) cw))"
    using id_take_nth_drop [OF assms(2)] by (metis concat.simps(2) concat_append list.simps(9) map_append)
  have l: "length (concat (map slot_of (take i cw))) = offset_of cw i" using slots_length [OF assms(1)] .
  have w: "length (slot_of (cw ! i)) = fixed_width (dtype (fst (cw ! i)))"
    using assms slot_length [of "fst (cw ! i)" "snd (cw ! i)"] by simp
  show "sub (concat (map slot_of cw)) (offset_of cw i) (fixed_width (dtype (fst (cw ! i)))) = slot_of (cw ! i)"
    unfolding c sub_def using l w by simp
  show "offset_of cw i + fixed_width (dtype (fst (cw ! i))) \<le> length (concat (map slot_of cw))"
    unfolding c using l w by simp
qed

lemma text_pos_mem:
  "(at, s) \<in> set (text_pos off cw) \<longleftrightarrow> (\<exists>i < length cw. at = off + offset_of cw i \<and> snd (cw ! i) = Some (V_TEXT s))"
proof (induction off cw rule: text_pos.induct)
  case (2 off c w cw)
  have "(at, s) \<in> set (text_of off w) \<longleftrightarrow> at = off \<and> w = Some (V_TEXT s)" by (cases "(off, w)" rule: text_of.cases) auto
  then show ?case using 2 by (simp add: Ex_less_Suc2 offset_of_def ac_simps)
qed simp

lemma text_pos_apart:
  assumes "\<forall>x \<in> set cw. slot_ok x"
  shows "sorted_wrt (\<lambda>x y. apart (fst x) (fst y)) (text_pos off cw)"
  using assms
proof (induction off cw rule: text_pos.induct)
  case (2 off c w cw)
  have "apart off at" if "w = Some (V_TEXT t)" "(at, s) \<in> set (text_pos (off + fixed_width (dtype c)) cw)" for at s t
  proof -
    have "is_text (dtype c)" using that(1) 2(2) value_type_text [of "dtype c"] by (auto simp: slot_ok_def)
    then show ?thesis using that(2) text_width by (auto simp: text_pos_mem apart_def)
  qed
  moreover have "text_of off w = [] \<or> (\<exists>t. w = Some (V_TEXT t) \<and> text_of off w = [(off, t)])"
    by (cases "(off, w)" rule: text_of.cases) auto
  ultimately show ?case using 2 by auto
qed simp


unbundle bit_operations_syntax

section \<open>Rows\<close>

lemma lay_out_props:
  assumes "lay_out off columns = (cs, e)"
  shows "length cs = length columns" "map dtype cs = map fst columns" "map col_name cs = map snd columns"
    "i < length cs \<Longrightarrow> col_offset (cs ! i) = off + sum_list (map (\<lambda>c. fixed_width (dtype c)) (take i cs))"
    "e = off + sum_list (map (\<lambda>c. fixed_width (dtype c)) cs)"
proof -
  have "length cs = length columns \<and> map dtype cs = map fst columns \<and> map col_name cs = map snd columns \<and>
    (\<forall>i < length cs. col_offset (cs ! i) = off + sum_list (map (\<lambda>c. fixed_width (dtype c)) (take i cs))) \<and>
    e = off + sum_list (map (\<lambda>c. fixed_width (dtype c)) cs)"
    using assms
  proof (induction off columns arbitrary: cs e rule: lay_out.induct)
    case (2 off ty name columns)
    obtain cs' where cs: "cs = \<lparr>col_name = name, dtype = ty, col_offset = off\<rparr> # cs'" "lay_out (off + fixed_width ty) columns = (cs', e)"
      using 2(2) by (auto simp: Let_def split: prod.splits)
    note IH = 2(1) [OF refl, simplified, OF cs(2)]
    show ?case using IH by (auto simp: cs(1) nth_Cons split: nat.splits)
  qed simp
  then show "length cs = length columns" "map dtype cs = map fst columns" "map col_name cs = map snd columns"
    "i < length cs \<Longrightarrow> col_offset (cs ! i) = off + sum_list (map (\<lambda>c. fixed_width (dtype c)) (take i cs))"
    "e = off + sum_list (map (\<lambda>c. fixed_width (dtype c)) cs)" by auto
qed

lemma schema_new_props:
  fixes columns defines "sch \<equiv> Schema_new columns"
  shows "length (cols sch) = length columns" "map dtype (cols sch) = map fst columns"
    "bitmap_len sch = (length columns + 7) div 8"
    "i < length columns \<Longrightarrow> col_offset (cols sch ! i) = sum_list (map (\<lambda>c. fixed_width (dtype c)) (take i (cols sch)))"
    "data_len sch = sum_list (map (\<lambda>c. fixed_width (dtype c)) (cols sch))"
proof -
  obtain cs e where l: "lay_out 0 columns = (cs, e)" by (cases "lay_out 0 columns")
  note p = lay_out_props [OF l]
  show "length (cols sch) = length columns" "map dtype (cols sch) = map fst columns"
    "bitmap_len sch = (length columns + 7) div 8"
    "i < length columns \<Longrightarrow> col_offset (cols sch ! i) = sum_list (map (\<lambda>c. fixed_width (dtype c)) (take i (cols sch)))"
    "data_len sch = sum_list (map (\<lambda>c. fixed_width (dtype c)) (cols sch))"
    using p by (simp_all add: sch_def Schema_new_def l div_ceil8_def)
qed

definition row_valid :: "Value option list \<Rightarrow> bool" where
  "row_valid vals \<longleftrightarrow> (\<forall>v. Some v \<in> set vals \<longrightarrow> valid_value v)"

lemma encode_tuple_eq:
  fixes columns defines "sch \<equiv> Schema_new columns"
  assumes "length vals = length columns" "row_valid vals"
  shows "encode_tuple sch vals = bindR (traverseR coerce_opt (zip (cols sch) vals)) (\<lambda>ws.
    let cw = zip (cols sch) ws; bm = replicate (bitmap_len sch) 0 in
    foldR place_text (text_pos (bitmap_len sch) cw) (set_nulls 0 cw bm @ concat (map slot_of cw)))"
proof -
  note p = schema_new_props [where columns = columns, folded sch_def]
  let ?cv = "zip (cols sch) vals"
  have l: "length ?cv = length columns" using assms p by simp
  have "\<forall>k < length ?cv. (0 + k) div 8 < length (replicate (bitmap_len sch) (0 :: byte))" using l p(3) by auto
  moreover have "\<forall>(c, val) \<in> set ?cv. \<forall>v. val = Some v \<longrightarrow> valid_value v"
    using assms(3) by (auto simp: row_valid_def dest!: set_zip_rightD)
  ultimately have e: "foldR encode_col (enumerate 0 ?cv) (replicate (bitmap_len sch) 0, []) = bindR (traverseR coerce_opt ?cv) (\<lambda>ws.
    let cw = zip (map fst ?cv) ws in
    Ok (set_nulls 0 cw (replicate (bitmap_len sch) 0) @ concat (map slot_of cw), text_pos (bitmap_len sch) cw))"
    using encode_cols_eq [of ?cv 0 "replicate (bitmap_len sch) 0" "[]" "[]"] by simp
  have m: "map fst ?cv = cols sch" using assms p(1) by simp
  show ?thesis using assms p(1) unfolding encode_tuple_def e m by (cases "traverseR coerce_opt ?cv") (simp_all add: Let_def)
qed

lemma row_slots:
  fixes columns defines "sch \<equiv> Schema_new columns"
  assumes "length vals = length columns" "row_valid vals" "traverseR coerce_opt (zip (cols sch) vals) = Ok ws"
  shows "length ws = length columns" "\<forall>x \<in> set (zip (cols sch) ws). slot_ok x"
    "i < length columns \<Longrightarrow> coerce_opt (cols sch ! i, vals ! i) = Ok (ws ! i)"
    "i < length columns \<Longrightarrow> offset_of (zip (cols sch) ws) i = col_offset (cols sch ! i)"
proof -
  note p = schema_new_props [where columns = columns, folded sch_def]
  have a: "list_all2 (\<lambda>x y. coerce_opt x = Ok y) (zip (cols sch) vals) ws" using assms(4) by (simp add: traverseR_Ok_iff)
  show l: "length ws = length columns" using list_all2_lengthD [OF a] assms(2) p(1) by simp
  show c: "coerce_opt (cols sch ! i, vals ! i) = Ok (ws ! i)" if "i < length columns" for i
    using list_all2_nthD [OF a, of i] that assms(2) p(1) by simp
  show "\<forall>x \<in> set (zip (cols sch) ws). slot_ok x"
  proof
    fix x assume "x \<in> set (zip (cols sch) ws)"
    then obtain i where i: "i < length columns" "x = (cols sch ! i, ws ! i)" using l p(1) by (auto simp: in_set_zip)
    then have "\<forall>v. vals ! i = Some v \<longrightarrow> valid_value v" using assms(2,3) by (metis nth_mem row_valid_def)
    then show "slot_ok x" using coerce_opt_ok [OF c [OF i(1)]] i(2) by simp
  qed
  show "offset_of (zip (cols sch) ws) i = col_offset (cols sch ! i)" if "i < length columns"
  proof -
    have "map (\<lambda>(c, w). fixed_width (dtype c)) (take i (zip (cols sch) ws)) =
      map (\<lambda>c. fixed_width (dtype c)) (map fst (take i (zip (cols sch) ws)))" by (simp add: split_beta)
    also have "map fst (take i (zip (cols sch) ws)) = take i (cols sch)" using l p(1) by (simp flip: take_map)
    finally show ?thesis using p(4) [OF that] by (simp add: offset_of_def)
  qed
qed

lemma is_null_bit: "is_null data i = (if i div 8 < length data then Ok (bit (data ! (i div 8)) (i mod 8)) else Err TupleSchemaMismatch)"
proof -
  have "(w AND 1 = 1) = odd w" for w :: byte by (simp add: and_one_eq odd_iff_mod_2_eq_one)
  then show ?thesis by (simp add: is_null_def bit_iff_odd_drop_bit)
qed


unbundle bit_operations_syntax

lemma text_pos_bounds:
  assumes "\<forall>x \<in> set cw. slot_ok x" "(at, s) \<in> set (text_pos B cw)"
  shows "at + TEXT_DESCRIPTOR_LEN \<le> B + length (concat (map slot_of cw))" "valid_str s" "B \<le> at"
proof -
  obtain j where j: "j < length cw" "at = B + offset_of cw j" "snd (cw ! j) = Some (V_TEXT s)"
    using assms(2) unfolding text_pos_mem by blast
  have "slot_ok (cw ! j)" using assms(1) j(1) by simp
  then have "is_text (dtype (fst (cw ! j)))" "valid_str s"
    using j(3) value_type_text [of "dtype (fst (cw ! j))"] by (auto simp: slot_ok_def valid_value_def split_beta)
  then show "at + TEXT_DESCRIPTOR_LEN \<le> B + length (concat (map slot_of cw))" "valid_str s" "B \<le> at"
    using sub_slots(2) [OF assms(1) j(1)] text_width j(2) by simp_all
qed

lemma text_pos_other:
  assumes "\<forall>x \<in> set cw. slot_ok x" "(at, s) \<in> set (text_pos B cw)"
    and "i < length cw" "snd (cw ! i) = Some v" "data_type v \<noteq> T_TEXT" "k < fixed_width (dtype (fst (cw ! i)))"
  shows "B + offset_of cw i + k < at \<or> at + TEXT_DESCRIPTOR_LEN \<le> B + offset_of cw i + k"
proof -
  obtain j where j: "j < length cw" "at = B + offset_of cw j" "snd (cw ! j) = Some (V_TEXT s)"
    using assms(2) unfolding text_pos_mem by blast
  have "j \<noteq> i" using j(3) assms(4,5) by auto
  moreover have "slot_ok (cw ! j)" using assms(1) j(1) by simp
  then have w: "fixed_width (dtype (fst (cw ! j))) = TEXT_DESCRIPTOR_LEN"
    using j(3) value_type_text [of "dtype (fst (cw ! j))"] text_width by (auto simp: slot_ok_def split_beta)
  ultimately consider "Suc i \<le> j" | "Suc j \<le> i" by linarith
  then show ?thesis
    using offset_of_mono [of "Suc i" j cw] offset_of_mono [of "Suc j" i cw] offset_of_Suc [OF j(1)] offset_of_Suc [OF assms(3)]
      assms(6) w j(2) by cases auto
qed

lemma placed_row:
  assumes ok: "\<forall>x \<in> set cw. slot_ok x" and B: "length bm = B"
    and fold: "foldR place_text (text_pos B cw) (bm @ concat (map slot_of cw)) = Ok t"
  shows "B + length (concat (map slot_of cw)) \<le> length t"
    "k < B \<Longrightarrow> t ! k = bm ! k"
    "i < length cw \<Longrightarrow> snd (cw ! i) = Some (V_TEXT s) \<Longrightarrow> text_at t (sub t (B + offset_of cw i) TEXT_DESCRIPTOR_LEN) = Ok (V_TEXT s)"
    "i < length cw \<Longrightarrow> snd (cw ! i) = Some v \<Longrightarrow> data_type v \<noteq> T_TEXT \<Longrightarrow>
       sub t (B + offset_of cw i) (fixed_width (dtype (fst (cw ! i)))) = Value_encode v"
proof -
  define fx where "fx = concat (map slot_of cw)"
  define d where "d = bm @ fx"
  note bd = text_pos_bounds [OF ok, where B = B, folded fx_def]
  have dl: "length d = B + length fx" using B by (simp add: d_def)
  have "\<forall>(at, s) \<in> set (text_pos B cw). at + TEXT_DESCRIPTOR_LEN \<le> length d \<and> valid_str s"
    using bd dl by fastforce
  note P = place_texts_ok [OF fold [folded fx_def, folded d_def] this text_pos_apart [OF ok]]
  have T: "length d \<le> length t" using P by (rule conjunct1)
  have keep: "t ! k = d ! k" if "k < length d" "\<And>at s. (at, s) \<in> set (text_pos B cw) \<Longrightarrow> k < at \<or> at + TEXT_DESCRIPTOR_LEN \<le> k" for k
    using P [THEN conjunct2, THEN conjunct1] that by blast
  have txt_at: "text_at t (sub t at TEXT_DESCRIPTOR_LEN) = Ok (V_TEXT s)" if "(at, s) \<in> set (text_pos B cw)" for at s
    using P [THEN conjunct2, THEN conjunct2] that by blast
  show "B + length (concat (map slot_of cw)) \<le> length t" using T dl by (simp add: fx_def)
  show "t ! k = bm ! k" if "k < B"
  proof -
    have "t ! k = d ! k" using that dl by (intro keep) (use bd(3) in fastforce)+
    then show ?thesis using that B by (simp add: d_def nth_append)
  qed
  show "text_at t (sub t (B + offset_of cw i) TEXT_DESCRIPTOR_LEN) = Ok (V_TEXT s)"
    if "i < length cw" "snd (cw ! i) = Some (V_TEXT s)"
    using that by (intro txt_at) (auto simp: text_pos_mem)
  show "sub t (B + offset_of cw i) (fixed_width (dtype (fst (cw ! i)))) = Value_encode v"
    if i: "i < length cw" "snd (cw ! i) = Some v" "data_type v \<noteq> T_TEXT"
  proof -
    let ?w = "fixed_width (dtype (fst (cw ! i)))"
    note S = sub_slots [OF ok i(1), folded fx_def]
    have "slot_of (cw ! i) = Value_encode v" using i(2,3) by (cases "cw ! i"; cases v) auto
    then have e: "sub fx (offset_of cw i) ?w = Value_encode v" using S(1) by simp
    have "sub t (B + offset_of cw i) ?w = sub fx (offset_of cw i) ?w"
    proof (rule sub_eqI)
      fix k assume k: "k < ?w"
      have "t ! (B + offset_of cw i + k) = d ! (B + offset_of cw i + k)"
        using k S(2) dl text_pos_other [OF ok _ i, of _ _ B k] by (intro keep) auto
      then show "t ! (B + offset_of cw i + k) = fx ! (offset_of cw i + k)" using B by (simp add: d_def nth_append)
    qed (use S(2) T dl in simp_all)
    then show ?thesis using e by simp
  qed
qed

lemma encoded_row:
  fixes columns defines "sch \<equiv> Schema_new columns"
  assumes len: "length vals = length columns" and val: "row_valid vals"
    and ws: "traverseR coerce_opt (zip (cols sch) vals) = Ok ws"
    and enc: "encode_tuple sch vals = Ok t" and i: "i < length columns"
  shows "get_value sch t i = Ok (ws ! i)"
proof -
  define cw where "cw = zip (cols sch) ws"
  define B where "B = bitmap_len sch"
  define bm where "bm = set_nulls 0 cw (replicate B 0)"
  define c where "c = cols sch ! i"
  note p = schema_new_props [where columns = columns, folded sch_def]
  note r = row_slots [OF len val ws [unfolded sch_def], folded sch_def, folded cw_def]
  have n: "length cw = length columns" "i < length cw" "cw ! i = (c, ws ! i)" using r(1) p(1) i by (simp_all add: cw_def c_def)
  have fold: "foldR place_text (text_pos B cw) (bm @ concat (map slot_of cw)) = Ok t"
    using enc encode_tuple_eq [OF len val, folded sch_def] ws by (simp add: Let_def B_def cw_def bm_def)
  note P = placed_row [OF r(2) _ fold]
  have B: "length bm = B" by (simp add: bm_def)
  have ib: "i div 8 < B" using i p(3) by (auto simp: B_def)
  have "\<forall>k < length cw. (0 + k) div 8 < length (replicate B (0 :: byte))" using n(1) p(3) by (auto simp: B_def)
  from set_nulls_bit [OF this, of i] have "bit (bm ! (i div 8)) (i mod 8) \<longleftrightarrow> ws ! i = None"
    using ib n by (simp add: bm_def)
  then have null: "is_null t i = Ok (ws ! i = None)" using P(1) [OF B] P(2) [OF B ib] ib by (simp add: is_null_bit)
  show ?thesis
  proof (cases "ws ! i")
    case None
    then show ?thesis using null i p(1) by (simp add: get_value_def)
  next
    case (Some v)
    have off: "offset_of cw i = col_offset c" using r(4) [OF i] by (simp add: c_def)
    have range: "col_offset c + fixed_width (dtype c) \<le> length (concat (map slot_of cw))" using sub_slots(2) [OF r(2) n(2)] n(3) off by simp
    have room: "B \<le> length t" "col_offset c + fixed_width (dtype c) \<le> length t - B" using P(1) [OF B] range by linarith+
    have "slot_ok (c, Some v)" using r(2) n(2,3) Some by (metis nth_mem)
    then have dt: "data_type v = value_type (dtype c)" by (simp add: slot_ok_def)
    have "get_value sch t i = mapR Some (Value_decode t (sub t (B + col_offset c) (fixed_width (dtype c))) (dtype c))"
      using null Some i p(1) room
      by (simp add: get_value_def sub_def Let_def add.commute c_def [symmetric] B_def [symmetric])
    moreover have "Value_decode t (sub t (B + col_offset c) (fixed_width (dtype c))) (dtype c) = Ok v"
    proof (cases "is_text (dtype c)")
      case True
      then obtain s where "v = V_TEXT s" using dt value_type_text [of "dtype c"] by (cases v) auto
      then show ?thesis using P(3) [OF B n(2), of s] True n(3) Some off text_width text_decode by simp
    next
      case False
      then have v: "dtype c = data_type v" "data_type v \<noteq> T_TEXT" using dt value_type_other value_type_text by metis+
      then show ?thesis using P(4) [OF B n(2), of v] n(3) Some off decode_encode [of v] by simp
    qed
    ultimately show ?thesis using Some by simp
  qed
qed


section \<open>Success and failure\<close>

definition text_size :: "Value option \<Rightarrow> nat" where
  "text_size w = (case w of Some (V_TEXT s) \<Rightarrow> length s | _ \<Rightarrow> 0)"

lemma u32_fits: "n < 2 ^ 32 \<Longrightarrow> u32_try_from_usize n = Some (word_of_nat n)"
  by (simp add: u32_try_from_usize_def Let_def unat_of_nat_eq)

lemma place_texts_total:
  assumes "\<forall>(at, s) \<in> set txs. at + TEXT_DESCRIPTOR_LEN \<le> length d"
    and "length d + sum_list (map (\<lambda>(at, s). length s) txs) < 2 ^ 32"
  shows "\<exists>t. foldR place_text txs d = Ok t \<and> length t = length d + sum_list (map (\<lambda>(at, s). length s) txs)"
  using assms
proof (induction txs arbitrary: d)
  case (Cons tx txs)
  obtain at s where tx: "tx = (at, s)" by (cases tx)
  have "length d < 2 ^ 32" "length s < 2 ^ 32" using Cons.prems(2) by (simp_all add: tx)
  then obtain x where x: "text_descriptor (length d) (length s) = Ok x" by (simp add: text_descriptor_def u32_fits Let_def)
  note xl = text_descriptor_length [OF x]
  have at: "at + TEXT_DESCRIPTOR_LEN \<le> length d" using Cons.prems(1) by (simp add: tx)
  have e: "place_text (at, s) d = Ok (patch d at x @ as_bytes s)" using x xl at by (simp add: place_text_def copy_from_slice_def)
  have "length (patch d at x @ as_bytes s) = length d + length s" using at xl by simp
  moreover have "\<forall>(at, s') \<in> set txs. at + TEXT_DESCRIPTOR_LEN \<le> length d + length s" using Cons.prems(1) by auto
  ultimately show ?case using Cons.IH [of "patch d at x @ as_bytes s"] Cons.prems(2) e by (simp add: tx ac_simps)
qed simp

lemma place_texts_no_panic:
  assumes "\<forall>(at, s) \<in> set txs. at + TEXT_DESCRIPTOR_LEN \<le> length d"
  shows "(\<exists>t. foldR place_text txs d = Ok t) \<or> (\<exists>n. foldR place_text txs d = Err (RowTooLarge n))"
  using assms
proof (induction txs arbitrary: d)
  case (Cons tx txs)
  obtain at s where tx: "tx = (at, s)" by (cases tx)
  have at: "at + TEXT_DESCRIPTOR_LEN \<le> length d" using Cons.prems by (simp add: tx)
  show ?case
  proof (cases "text_descriptor (length d) (length s)")
    case (Ok x)
    note xl = text_descriptor_length [OF Ok]
    have e: "place_text (at, s) d = Ok (patch d at x @ as_bytes s)" using Ok xl at by (simp add: place_text_def copy_from_slice_def)
    have "length d \<le> length (patch d at x @ as_bytes s)" using at xl by simp
    then show ?thesis using Cons.IH [of "patch d at x @ as_bytes s"] Cons.prems e by (fastforce simp: tx)
  next
    case (Err e)
    then show ?thesis by (auto simp: tx place_text_def text_descriptor_def bindR_Err_iff Let_def)
  next
    case Panic
    then show ?thesis by (auto simp: text_descriptor_def bindR_Panic_iff Let_def)
  qed
qed simp

lemma text_pos_sizes: "sum_list (map (\<lambda>(at, s). length s) (text_pos off cw)) = sum_list (map (\<lambda>(c, w). text_size w) cw)"
proof (induction off cw rule: text_pos.induct)
  case (2 off c w cw)
  have "sum_list (map (\<lambda>(at, s). length s) (text_of off w)) = text_size w"
    by (cases "(off, w)" rule: text_of.cases) (auto simp: text_size_def)
  then show ?case using 2 by simp
qed simp

lemma traverse_no_panic: "traverseR coerce_opt cv \<noteq> Panic"
proof -
  have "coerce_to v ty \<noteq> Panic" for v ty
    by (cases v; cases ty) (auto simp: coerce_to_def fit_chars_def Let_def split: option.splits)
  then have "coerce_opt x \<noteq> Panic" for x
    by (cases x; cases "snd x"; cases "Column_coerce (fst x) (the (snd x))") (auto simp: coerce_opt_def Column_coerce_def)
  then show ?thesis by (induction cv) (auto simp: bindR_Panic_iff)
qed

section \<open>The properties of rows\<close>

text \<open>C9. Every column of an encoded row reads back as the value that was stored, converted to the column's type, and
  NULL as NULL: the bitmap, the fixed-width columns and the texts behind them never overlap.\<close>

theorem row_round_trip:
  assumes "encode_tuple (Schema_new columns) vals = Ok t" "row_valid vals" "i < length columns"
  shows "case vals ! i of
      None \<Rightarrow> get_value (Schema_new columns) t i = Ok None
    | Some v \<Rightarrow> \<exists>w. coerce_to v (fst (columns ! i)) = Ok w \<and> get_value (Schema_new columns) t i = Ok (Some w)"
proof -
  let ?sch = "Schema_new columns"
  note p = schema_new_props [where columns = columns]
  have len: "length vals = length columns" using assms(1) p(1) by (auto simp: encode_tuple_def split: if_splits)
  obtain ws where ws: "traverseR coerce_opt (zip (cols ?sch) vals) = Ok ws"
    using assms(1) encode_tuple_eq [OF len assms(2)] by (auto simp: bindR_Ok_iff)
  have g: "get_value ?sch t i = Ok (ws ! i)" using encoded_row [OF len assms(2) ws assms(1,3)] .
  have "dtype (cols ?sch ! i) = fst (columns ! i)" using p(1,2) assms(3) by (metis nth_map)
  moreover have "coerce_opt (cols ?sch ! i, vals ! i) = Ok (ws ! i)" using row_slots(3) [OF len assms(2) ws assms(3)] .
  ultimately show ?thesis using g
    by (auto simp: coerce_opt_def Column_coerce_def split: option.splits elim!: mapR.elims)
qed

theorem row_round_trip_witness:
  "get_value (Schema_new [(T_INT, ''a''), (T_TEXT, ''b'')]) [1, 0, 0, 0, 0, 13, 0, 0, 0, 2, 0, 0, 0, 120, 121] 1 = Ok (Some (V_TEXT ''xy''))"
proof -
  have "encode_tuple (Schema_new [(T_INT, ''a''), (T_TEXT, ''b'')]) [None, Some (V_TEXT ''xy'')] =
    Ok [1, 0, 0, 0, 0, 13, 0, 0, 0, 2, 0, 0, 0, 120, 121]" by code_simp
  moreover have "row_valid [None, Some (V_TEXT ''xy'')]"
    by (simp add: row_valid_def valid_value_def valid_str_def utf8_valid.simps byte_of_def)
  ultimately show ?thesis using row_round_trip [of "[(T_INT, ''a''), (T_TEXT, ''b'')]" "[None, Some (V_TEXT ''xy'')]" _ 1]
    by (simp add: coerce_to_def)
qed



text \<open>C11. Reading a column never panics, whatever the bytes of the tuple: a short tuple, a descriptor that points outside
  it and text that is not UTF-8 are reported as a mismatch.\<close>

theorem get_value_safe: "get_value (Schema_new columns) tuple i \<noteq> Panic"
proof -
  have "Value_decode tuple bs ty \<noteq> Panic" if "length bs = fixed_width ty" for bs ty
    using that by (cases ty) (auto simp: index_get_def fixed_bytes_def text_at_def slice_get_def TEXT_DESCRIPTOR_LEN_def Let_def split: option.splits)
  moreover have "mapR f r = Panic \<longleftrightarrow> r = Panic" for f :: "Value \<Rightarrow> Value option" and r :: "(CatalogError, Value) result" by (cases r) auto
  ultimately show ?thesis by (simp add: get_value_def Let_def is_null_def)
qed

end
