(* ===== verification/Effects.thy ===== *)
theory Effects
  imports Prelude
begin

text \<open>
  Stateful fallible code: a function that reads and updates a state and may fail keeps the state it reached, also
  when it returns an error, as a method on \<open>&mut self\<close> does.
\<close>


type_synonym ('s, 'e, 'a) sm = "'s \<Rightarrow> ('e, 'a) result \<times> 's"

definition returnS :: "'a \<Rightarrow> ('s, 'e, 'a) sm" where
  "returnS x = (\<lambda>s. (Ok x, s))"

definition raiseS :: "'e \<Rightarrow> ('s, 'e, 'a) sm" where
  "raiseS e = (\<lambda>s. (Err e, s))"

definition liftS :: "('e, 'a) result \<Rightarrow> ('s, 'e, 'a) sm" where
  "liftS r = (\<lambda>s. (r, s))"

definition bindS :: "('s, 'e, 'a) sm \<Rightarrow> ('a \<Rightarrow> ('s, 'e, 'b) sm) \<Rightarrow> ('s, 'e, 'b) sm" where
  "bindS m f = (\<lambda>s. case m s of (Ok x, t) \<Rightarrow> f x t | (Err e, t) \<Rightarrow> (Err e, t) | (Panic, t) \<Rightarrow> (Panic, t))"

definition getS :: "('s \<Rightarrow> 'a) \<Rightarrow> ('s, 'e, 'a) sm" where
  "getS g = (\<lambda>s. (Ok (g s), s))"

definition modS :: "('s \<Rightarrow> 's) \<Rightarrow> ('s, 'e, unit) sm" where
  "modS g = (\<lambda>s. (Ok (), g s))"

fun forS :: "('x \<Rightarrow> ('s, 'e, unit) sm) \<Rightarrow> 'x list \<Rightarrow> ('s, 'e, unit) sm" where
  "forS f [] = returnS ()"
| "forS f (x # xs) = bindS (f x) (\<lambda>_. forS f xs)"

named_theorems effects \<open>the state and result operations, unfolded\<close>

lemma bindS_apply [effects]:
  "bindS m f s = (case m s of (Ok x, t) \<Rightarrow> f x t | (Err e, t) \<Rightarrow> (Err e, t) | (Panic, t) \<Rightarrow> (Panic, t))"
  by (simp add: bindS_def)

lemma effect_apply [effects]:
  "returnS x s = (Ok x, s)" "raiseS e s = (Err e, s)" "liftS r s = (r, s)" "getS g s = (Ok (g s), s)" "modS h s = (Ok (), h s)"
  by (simp_all add: returnS_def raiseS_def liftS_def getS_def modS_def)

lemma bindS_ok_iff: "bindS m f s = (Ok y, u) \<longleftrightarrow> (\<exists>x t. m s = (Ok x, t) \<and> f x t = (Ok y, u))"
  by (auto simp: bindS_def split: prod.splits result.splits)

lemma bindS_assoc: "bindS (bindS m f) g = bindS m (\<lambda>x. bindS (f x) g)"
  by (rule ext) (auto simp: bindS_def split: prod.splits result.splits)

end
