(* ===== verification/Wal.thy ===== *)
theory Wal
  imports Table_Page Effects "HOL-Library.AList"
begin

text \<open>
  The write-ahead log of \<open>src/src/wal.rs\<close>: its records and their checksums, replay, and the log with its file, the data
  file and the outcomes of file operations. Offsets are unbounded.  A read error other than the end of the file is not
  modelled in replay.
\<close>


unbundle bit_operations_syntax

section \<open>Checksums\<close>

fun crc_bits :: "nat \<Rightarrow> u32 \<Rightarrow> u32" where
  "crc_bits 0 c = c"
| "crc_bits (Suc n) c = crc_bits n (if c AND 1 \<noteq> 0 then 3988292384 XOR drop_bit 1 c else drop_bit 1 c)"

definition CRC_TABLE :: "u32 list" where
  "CRC_TABLE = map (\<lambda>i. crc_bits 8 (word_of_nat i)) [0..<256]"

definition crc_byte :: "u32 \<Rightarrow> byte \<Rightarrow> u32" where
  "crc_byte c b = CRC_TABLE ! unat ((c XOR ucast b) AND 255) XOR drop_bit 8 c"

definition crc32 :: "bytes list \<Rightarrow> u32" where
  "crc32 parts = NOT (foldl (foldl crc_byte) (NOT 0) parts)"

section \<open>Records\<close>

type_synonym TxnId = u64

definition LOG_MAGIC :: bytes where "LOG_MAGIC = [67, 77, 85, 68, 66, 87, 65, 76]"
definition LOG_VERSION :: u32 where "LOG_VERSION = 1"
definition LOG_HEADER_LEN :: nat where "LOG_HEADER_LEN = length LOG_MAGIC + 4"
definition RECORD_HEADER_LEN :: nat where "RECORD_HEADER_LEN = 1 + 4 + 4"
definition CHECKPOINT_LOG_BYTES :: nat where "CHECKPOINT_LOG_BYTES = 4194304"
definition KIND_PAGE :: byte where "KIND_PAGE = 1"
definition KIND_DURABLE :: byte where "KIND_DURABLE = 2"
definition KIND_WRITES :: byte where "KIND_WRITES = 3"
definition KIND_UNDO :: byte where "KIND_UNDO = 4"
definition KIND_END :: byte where "KIND_END = 5"
definition PAGE_ID_LEN :: nat where "PAGE_ID_LEN = 8"
definition UNDO_FIXED_LEN :: nat where "UNDO_FIXED_LEN = 8 + 4 + 4 + 8 + 1"
definition MAX_PAYLOAD_LEN :: nat where "MAX_PAYLOAD_LEN = UNDO_FIXED_LEN + PAGE_SIZE"

lemmas kind_defs = KIND_PAGE_def KIND_DURABLE_def KIND_WRITES_def KIND_UNDO_def KIND_END_def

datatype TxnRecord =
    Writes TxnId
  | Undo TxnId RecordId TupleMeta bytes
  | End TxnId

record UndoImage =
  ui_meta :: TupleMeta
  ui_data :: bytes

record RecoveredTxn =
  rt_id :: TxnId
  rt_undo :: "RecordId \<rightharpoonup> UndoImage"

record Recovery =
  pages_replayed :: nat
  unfinished :: "RecoveredTxn list"

datatype Decoded = Page PageId nat | Durable | Txn TxnRecord

datatype IoError = NotALog string | BrokenLog | UnexpectedEof | IoFailed | PageMissing PageId | InvalidData PageIdOutOfRange

definition encode_record :: "byte \<Rightarrow> bytes \<Rightarrow> ('e, bytes) result" where
  "encode_record kind payload =
     (if length payload < 2 ^ 32 then
        let len_bytes = to_le_bytes (word_of_nat (length payload) :: u32);
            crc = crc32 [[kind], len_bytes, payload] in
        Ok ([kind] @ len_bytes @ to_le_bytes crc @ payload)
      else Panic)"

fun encode_txn_record :: "TxnRecord \<Rightarrow> ('e, bytes) result" where
  "encode_txn_record (Writes txn) = encode_record KIND_WRITES (to_le_bytes txn)"
| "encode_txn_record (End txn) = encode_record KIND_END (to_le_bytes txn)"
| "encode_txn_record (Undo txn rid meta data) =
     encode_record KIND_UNDO
       (to_le_bytes txn @ to_le_bytes (PageId_get (page_id rid)) @ to_le_bytes (slot_id rid) @ to_le_bytes (meta_ts meta) @
        [of_bool (meta_is_deleted meta)] @ data)"

text \<open>\<open>read_fully\<close> on the bytes left in the file: the first \<open>n\<close> bytes and the rest, or nothing when the file ends first.\<close>

definition read_fully :: "nat \<Rightarrow> bytes \<Rightarrow> (bytes \<times> bytes) option" where
  "read_fully n rest = (if n \<le> length rest then Some (take n rest, drop n rest) else None)"

definition decode_payload :: "byte \<Rightarrow> bytes \<Rightarrow> nat \<Rightarrow> Decoded option" where
  "decode_payload kind payload offset =
     (let n = length payload in
      if kind = KIND_PAGE \<and> n = PAGE_ID_LEN + PAGE_SIZE then
        (case try_from_u64 (u64_at payload 0) of
           Ok pid \<Rightarrow> Some (Page pid (offset + (RECORD_HEADER_LEN + PAGE_ID_LEN)))
         | _ \<Rightarrow> None)
      else if kind = KIND_DURABLE \<and> n = 0 then Some Durable
      else if kind = KIND_WRITES \<and> n = 8 then Some (Txn (Writes (u64_at payload 0)))
      else if kind = KIND_END \<and> n = 8 then Some (Txn (End (u64_at payload 0)))
      else if kind = KIND_UNDO \<and> n \<ge> UNDO_FIXED_LEN then
        (case try_from_u64 (ucast (u32_at payload 8)) of
           Ok pid \<Rightarrow>
             Some (Txn (Undo (u64_at payload 0) \<lparr>page_id = pid, slot_id = u32_at payload 12\<rparr>
               \<lparr>meta_ts = u64_at payload 16, meta_is_deleted = payload ! 24 \<noteq> 0\<rparr> (drop UNDO_FIXED_LEN payload)))
         | _ \<Rightarrow> None)
      else None)"

definition read_record :: "bytes \<Rightarrow> nat \<Rightarrow> ((Decoded \<times> nat) \<times> bytes) option" where
  "read_record rest offset =
     Option.bind (read_fully RECORD_HEADER_LEN rest) (\<lambda>(header, rest).
     let kind = header ! 0;
         len_bytes = sub header 1 4;
         crc = from_le_bytes (sub header 5 4);
         len = unat (from_le_bytes len_bytes :: u32) in
     if len > MAX_PAYLOAD_LEN then None
     else Option.bind (read_fully len rest) (\<lambda>(payload, rest).
       if crc32 [[kind], len_bytes, payload] \<noteq> crc then None
       else Option.bind (decode_payload kind payload offset) (\<lambda>decoded.
         Some ((decoded, RECORD_HEADER_LEN + len), rest))))"

section \<open>Replaying a log\<close>

record Replay =
  durable :: "TxnRecord list"
  durable_pages :: "(PageId \<times> nat) list"
  since_durable :: "TxnRecord list"
  pages_since_durable :: "(PageId \<times> nat) list"

definition replay_record :: "Decoded \<Rightarrow> Replay \<Rightarrow> Replay" where
  "replay_record d r =
     (case d of
        Page pid image_offset \<Rightarrow> r\<lparr>pages_since_durable := pages_since_durable r @ [(pid, image_offset)]\<rparr>
      | Txn rec \<Rightarrow> r\<lparr>since_durable := since_durable r @ [rec]\<rparr>
      | Durable \<Rightarrow> r\<lparr>durable := durable r @ since_durable r, since_durable := [],
                      durable_pages := foldl (\<lambda>m (p, off). AList.update p off m) (durable_pages r) (pages_since_durable r),
                      pages_since_durable := []\<rparr>)"

lemma read_record_shorter: "read_record rest offset = Some ((d, n), rest') \<Longrightarrow> length rest' < length rest"
  by (auto simp: read_record_def read_fully_def RECORD_HEADER_LEN_def Let_def bind_eq_Some_conv split: if_splits)

function replay_from :: "bytes \<Rightarrow> nat \<Rightarrow> Replay \<Rightarrow> Replay" where
  "replay_from rest offset r =
     (case read_record rest offset of
        None \<Rightarrow> r
      | Some ((decoded, record_len), rest') \<Rightarrow> replay_from rest' (offset + record_len) (replay_record decoded r))"
  by auto
termination by (relation "measure (\<lambda>(rest, _). length rest)") (auto dest: read_record_shorter)

declare replay_from.simps [simp del]

definition empty_replay :: Replay where
  "empty_replay = \<lparr>durable = [], durable_pages = [], since_durable = [], pages_since_durable = []\<rparr>"

text \<open>\<open>Wal::replay\<close> on the contents of the log file, \<open>None\<close> when it is missing.\<close>

definition wal_replay :: "bytes option \<Rightarrow> (IoError, TxnRecord list \<times> (PageId \<times> nat) list) result" where
  "wal_replay file =
     (case file of
        None \<Rightarrow> Ok ([], [])
      | Some b \<Rightarrow>
          if b = [] then Ok ([], [])
          else case read_fully LOG_HEADER_LEN b of
            None \<Rightarrow> Err (NotALog ''the log header is cut short'')
          | Some (header, rest) \<Rightarrow>
              if take (length LOG_MAGIC) header \<noteq> LOG_MAGIC then Err (NotALog ''the log header is not a cmudb log header'')
              else if from_le_bytes (drop (length LOG_MAGIC) header) \<noteq> LOG_VERSION
              then Err (NotALog ''the log was written with another log version'')
              else let r = replay_from rest LOG_HEADER_LEN empty_replay in Ok (durable r, durable_pages r))"


section \<open>Ordered maps\<close>

text \<open>A \<open>BTreeMap\<close> as its entries in key order.\<close>

fun bt_update :: "'k::linorder \<Rightarrow> ('v option \<Rightarrow> 'v) \<Rightarrow> ('k \<times> 'v) list \<Rightarrow> ('k \<times> 'v) list" where
  "bt_update k f [] = [(k, f None)]"
| "bt_update k f ((k', v) # xs) =
     (if k < k' then (k, f None) # (k', v) # xs
      else if k = k' then (k, f (Some v)) # xs
      else (k', v) # bt_update k f xs)"

definition bt_remove :: "'k \<Rightarrow> ('k \<times> 'v) list \<Rightarrow> ('k \<times> 'v) list" where
  "bt_remove k xs = filter (\<lambda>(k', _). k' \<noteq> k) xs"

definition bt_values :: "('k \<times> 'v) list \<Rightarrow> 'v list" where
  "bt_values xs = map snd xs"

type_synonym open_txns = "(TxnId \<times> bytes) list"

fun track_open_txn_encoded :: "open_txns \<Rightarrow> TxnRecord \<Rightarrow> bytes \<Rightarrow> open_txns" where
  "track_open_txn_encoded opened (Writes txn) encoded =
     bt_update txn (\<lambda>v. (case v of None \<Rightarrow> [] | Some b \<Rightarrow> b) @ encoded) opened"
| "track_open_txn_encoded opened (Undo txn _ _ _) encoded =
     bt_update txn (\<lambda>v. (case v of None \<Rightarrow> [] | Some b \<Rightarrow> b) @ encoded) opened"
| "track_open_txn_encoded opened (End txn) encoded = bt_remove txn opened"

definition track_open_txn :: "open_txns \<Rightarrow> TxnRecord \<Rightarrow> ('e, open_txns) result" where
  "track_open_txn opened rec = bindR (encode_txn_record rec) (\<lambda>encoded. Ok (track_open_txn_encoded opened rec encoded))"

section \<open>The log and its files\<close>

record Wal =
  wal_file :: bytes
  wal_end :: nat
  wal_buffered :: bytes
  wal_pages :: "(PageId \<times> nat) list"
  wal_dirty :: bool
  wal_open_txns :: open_txns
  wal_checkpoint_bytes :: nat
  wal_broken :: bool

text \<open>The outcome of a file operation: it is done, or it fails after some bytes of a write reached the file. The data file
  and the outcomes to come are the environment of the log.\<close>

datatype io = Done | Fails nat

record LogEnv =
  the_wal :: Wal
  data_file :: bytes
  outcomes :: "io list"

type_synonym 'a log_op = "(LogEnv, IoError, 'a) sm"

definition next_io :: "io log_op" where
  "next_io = (\<lambda>s. case outcomes s of [] \<Rightarrow> (Ok Done, s) | f # fs \<Rightarrow> (Ok f, s\<lparr>outcomes := fs\<rparr>))"

definition file_write :: "bytes \<Rightarrow> nat \<Rightarrow> bytes \<Rightarrow> bytes" where
  "file_write f off d = take off (f @ replicate (off - length f) 0) @ d @ drop (off + length d) f"

definition upd_wal :: "(Wal \<Rightarrow> Wal) \<Rightarrow> unit log_op" where
  "upd_wal g = modS (the_wal_update g)"

definition io_step :: "unit log_op" where
  "io_step = bindS next_io (\<lambda>r. case r of Done \<Rightarrow> returnS () | Fails _ \<Rightarrow> raiseS IoFailed)"

definition write_log :: "nat \<Rightarrow> bytes \<Rightarrow> unit log_op" where
  "write_log off d =
     bindS next_io (\<lambda>r. case r of
       Done \<Rightarrow> upd_wal (\<lambda>w. w\<lparr>wal_file := file_write (wal_file w) off d\<rparr>)
     | Fails n \<Rightarrow> bindS (upd_wal (\<lambda>w. w\<lparr>wal_file := file_write (wal_file w) off (take n d)\<rparr>)) (\<lambda>_. raiseS IoFailed))"

definition write_data :: "nat \<Rightarrow> bytes \<Rightarrow> unit log_op" where
  "write_data off d =
     bindS next_io (\<lambda>r. case r of
       Done \<Rightarrow> modS (data_file_update (\<lambda>f. file_write f off d))
     | Fails n \<Rightarrow> bindS (modS (data_file_update (\<lambda>f. file_write f off (take n d)))) (\<lambda>_. raiseS IoFailed))"

definition read_log :: "nat \<Rightarrow> nat \<Rightarrow> bytes log_op" where
  "read_log off n =
     bindS io_step (\<lambda>_. bindS (getS (\<lambda>s. wal_file (the_wal s))) (\<lambda>f.
     if off + n \<le> length f then returnS (sub f off n) else raiseS UnexpectedEof))"

definition wal_sync :: "unit log_op" where
  "wal_sync = bindS next_io (\<lambda>r. case r of
     Done \<Rightarrow> returnS ()
   | Fails _ \<Rightarrow> bindS (upd_wal (\<lambda>w. w\<lparr>wal_broken := True\<rparr>)) (\<lambda>_. raiseS IoFailed))"

definition refuse_if_broken :: "unit log_op" where
  "refuse_if_broken = bindS (getS (\<lambda>s. wal_broken (the_wal s))) (\<lambda>b. if b then raiseS BrokenLog else returnS ())"

definition catchS :: "('s, 'e, 'a) sm \<Rightarrow> ('e \<Rightarrow> ('s, 'e, 'a) sm) \<Rightarrow> ('s, 'e, 'a) sm" where
  "catchS m h = (\<lambda>s. case m s of (Err e, t) \<Rightarrow> h e t | r \<Rightarrow> r)"

definition write_out_with :: "byte \<Rightarrow> bytes \<Rightarrow> nat log_op" where
  "write_out_with kind payload =
     bindS (getS the_wal) (\<lambda>w.
     let buffered = length (wal_buffered w); record_start = wal_end w + buffered in
     bindS (liftS (encode_record kind payload)) (\<lambda>rec.
     bindS (upd_wal (\<lambda>w. w\<lparr>wal_buffered := wal_buffered w @ rec\<rparr>)) (\<lambda>_.
     bindS (catchS (write_log (wal_end w) (wal_buffered w @ rec))
              (\<lambda>e. bindS (upd_wal (\<lambda>w. w\<lparr>wal_buffered := take buffered (wal_buffered w)\<rparr>)) (\<lambda>_. raiseS e))) (\<lambda>_.
     bindS (upd_wal (\<lambda>w. w\<lparr>wal_end := wal_end w + length (wal_buffered w), wal_buffered := []\<rparr>)) (\<lambda>_.
     returnS record_start)))))"

definition log_page :: "PageId \<Rightarrow> bytes \<Rightarrow> unit log_op" where
  "log_page pid page =
     bindS refuse_if_broken (\<lambda>_.
     let payload = to_le_bytes (ucast (PageId_get pid) :: u64) @ page in
     bindS (write_out_with KIND_PAGE payload) (\<lambda>record_start.
     upd_wal (\<lambda>w. w\<lparr>wal_pages := AList.update pid (record_start + (RECORD_HEADER_LEN + PAGE_ID_LEN)) (wal_pages w),
                   wal_dirty := True\<rparr>)))"

definition wal_read_page :: "PageId \<Rightarrow> bytes option log_op" where
  "wal_read_page pid =
     bindS (getS (\<lambda>s. map_of (wal_pages (the_wal s)) pid)) (\<lambda>offset.
     case offset of None \<Rightarrow> returnS None | Some off \<Rightarrow> bindS (read_log off PAGE_SIZE) (\<lambda>b. returnS (Some b)))"

definition log_txn :: "TxnRecord \<Rightarrow> unit log_op" where
  "log_txn rec =
     bindS (liftS (encode_txn_record rec)) (\<lambda>encoded.
     upd_wal (\<lambda>w. w\<lparr>wal_open_txns := track_open_txn_encoded (wal_open_txns w) rec encoded,
                   wal_buffered := wal_buffered w @ encoded, wal_dirty := True\<rparr>))"

definition copy_page :: "PageId \<times> nat \<Rightarrow> unit log_op" where
  "copy_page = (\<lambda>(pid, offset).
     bindS (read_log offset PAGE_SIZE) (\<lambda>image. write_data (unat (PageId_get pid) * PAGE_SIZE) image))"

definition fresh_log :: "open_txns \<Rightarrow> ('e, bytes) result" where
  "fresh_log opened =
     bindR (encode_record KIND_DURABLE []) (\<lambda>rec.
     Ok (LOG_MAGIC @ to_le_bytes LOG_VERSION @ concat (bt_values opened) @ rec))"

definition checkpoint :: "unit log_op" where
  "checkpoint =
     bindS (getS (\<lambda>s. wal_pages (the_wal s))) (\<lambda>pages.
     bindS (forS copy_page pages) (\<lambda>_.
     bindS wal_sync (\<lambda>_.
     bindS (getS (\<lambda>s. wal_open_txns (the_wal s))) (\<lambda>opened.
     bindS (liftS (fresh_log opened)) (\<lambda>fresh.
     bindS io_step (\<lambda>_.
     bindS io_step (\<lambda>_.
     bindS wal_sync (\<lambda>_.
     bindS io_step (\<lambda>_.
     bindS (upd_wal (\<lambda>w. w\<lparr>wal_file := fresh, wal_end := length fresh, wal_buffered := [], wal_pages := [], wal_dirty := False\<rparr>)) (\<lambda>_.
     wal_sync))))))))))"

definition durable_point :: "unit log_op" where
  "durable_point =
     bindS refuse_if_broken (\<lambda>_.
     bindS (getS (\<lambda>s. wal_dirty (the_wal s))) (\<lambda>dirty.
     if \<not> dirty then returnS ()
     else bindS (write_out_with KIND_DURABLE []) (\<lambda>_.
       bindS wal_sync (\<lambda>_.
       bindS (upd_wal (\<lambda>w. w\<lparr>wal_dirty := False\<rparr>)) (\<lambda>_.
       bindS (getS the_wal) (\<lambda>w.
       if wal_end w > wal_checkpoint_bytes w then catchS checkpoint (\<lambda>_. returnS ()) else returnS ()))))))"

text \<open>\<open>Wal::open\<close>. The unfinished transactions are a \<open>BTreeMap\<close> by transaction id.\<close>

definition new_recovered :: "TxnId \<Rightarrow> RecoveredTxn option \<Rightarrow> RecoveredTxn" where
  "new_recovered txn v = (case v of Some t \<Rightarrow> t | None \<Rightarrow> \<lparr>rt_id = txn, rt_undo = Map.empty\<rparr>)"

fun recover_record :: "TxnRecord \<Rightarrow> (TxnId \<times> RecoveredTxn) list \<Rightarrow> (TxnId \<times> RecoveredTxn) list" where
  "recover_record (Writes txn) m = bt_update txn (new_recovered txn) m"
| "recover_record (Undo txn rid meta data) m =
     bt_update txn (\<lambda>v. let t = new_recovered txn v in
       t\<lparr>rt_undo := (rt_undo t)(rid := Some (case rt_undo t rid of Some i \<Rightarrow> i | None \<Rightarrow> \<lparr>ui_meta = meta, ui_data = data\<rparr>))\<rparr>) m"
| "recover_record (End txn) m = bt_remove txn m"

definition wal_open :: "bytes option \<Rightarrow> bytes \<Rightarrow> io list \<Rightarrow> (IoError, Recovery) result \<times> LogEnv" where
  "wal_open file data ios =
     (let empty = \<lparr>wal_file = [], wal_end = 0, wal_buffered = [], wal_pages = [], wal_dirty = False, wal_open_txns = [],
                   wal_checkpoint_bytes = CHECKPOINT_LOG_BYTES, wal_broken = False\<rparr>;
          s = \<lparr>the_wal = empty\<lparr>wal_file := (case file of None \<Rightarrow> [] | Some b \<Rightarrow> b)\<rparr>, data_file = data, outcomes = ios\<rparr> in
      bindS (liftS (wal_replay file)) (\<lambda>(recs, pages).
      bindS (liftS (foldR (\<lambda>rec opened. track_open_txn opened rec) recs [])) (\<lambda>opened.
      let unfinished = foldl (\<lambda>m rec. recover_record rec m) [] recs in
      bindS io_step (\<lambda>_.
      bindS (upd_wal (\<lambda>w. w\<lparr>wal_pages := pages, wal_open_txns := opened\<rparr>)) (\<lambda>_.
      bindS checkpoint (\<lambda>_.
      returnS \<lparr>pages_replayed = length pages, unfinished = bt_values unfinished\<rparr>))))) s)"

end
