(* ===== verification/Wal_Records.thy ===== *)
theory Wal_Records
  imports Wal
begin

text \<open>
  Reading a log back: every record that was written is read as it was, a record cut short ends the log, and replay returns
  what the records up to the last durable point say.
\<close>


section \<open>Reading records back\<close>

datatype entry = EPage PageId bytes | EDurable | ETxn TxnRecord

fun entry_kind :: "entry \<Rightarrow> byte" where
  "entry_kind (EPage _ _) = KIND_PAGE"
| "entry_kind EDurable = KIND_DURABLE"
| "entry_kind (ETxn (Writes _)) = KIND_WRITES"
| "entry_kind (ETxn (Undo _ _ _ _)) = KIND_UNDO"
| "entry_kind (ETxn (End _)) = KIND_END"

fun entry_payload :: "entry \<Rightarrow> bytes" where
  "entry_payload (EPage pid page) = to_le_bytes (ucast (PageId_get pid) :: u64) @ page"
| "entry_payload EDurable = []"
| "entry_payload (ETxn (Writes txn)) = to_le_bytes txn"
| "entry_payload (ETxn (Undo txn rid meta data)) =
     to_le_bytes txn @ to_le_bytes (PageId_get (page_id rid)) @ to_le_bytes (slot_id rid) @ to_le_bytes (meta_ts meta) @
     [of_bool (meta_is_deleted meta)] @ data"
| "entry_payload (ETxn (End txn)) = to_le_bytes txn"

definition record_bytes :: "byte \<Rightarrow> bytes \<Rightarrow> bytes" where
  "record_bytes kind payload =
     (let len_bytes = to_le_bytes (word_of_nat (length payload) :: u32) in
      [kind] @ len_bytes @ to_le_bytes (crc32 [[kind], len_bytes, payload]) @ payload)"

definition enc_entry :: "entry \<Rightarrow> bytes" where
  "enc_entry e = record_bytes (entry_kind e) (entry_payload e)"

fun wf_entry :: "entry \<Rightarrow> bool" where
  "wf_entry (EPage pid page) \<longleftrightarrow> valid_page_id pid \<and> length page = PAGE_SIZE"
| "wf_entry (ETxn (Undo _ rid _ data)) \<longleftrightarrow> valid_page_id (page_id rid) \<and> length data \<le> PAGE_SIZE"
| "wf_entry _ \<longleftrightarrow> True"

fun dec_entry :: "entry \<Rightarrow> nat \<Rightarrow> Decoded" where
  "dec_entry (EPage pid page) offset = Page pid (offset + (RECORD_HEADER_LEN + PAGE_ID_LEN))"
| "dec_entry EDurable offset = Durable"
| "dec_entry (ETxn r) offset = Txn r"

lemma wf_payload: "wf_entry e \<Longrightarrow> length (entry_payload e) \<le> MAX_PAYLOAD_LEN"
  by (cases e rule: wf_entry.cases) (auto simp: MAX_PAYLOAD_LEN_def UNDO_FIXED_LEN_def PAGE_SIZE_def)

lemma max_payload: "n \<le> MAX_PAYLOAD_LEN \<Longrightarrow> n < 2 ^ 32"
  by (simp add: MAX_PAYLOAD_LEN_def UNDO_FIXED_LEN_def PAGE_SIZE_def)

lemma encode_record_ok: "length payload \<le> MAX_PAYLOAD_LEN \<Longrightarrow> encode_record kind payload = Ok (record_bytes kind payload)"
  by (drule max_payload) (simp add: encode_record_def record_bytes_def Let_def)

lemma encode_txn_ok: "wf_entry (ETxn r) \<Longrightarrow> encode_txn_record r = Ok (enc_entry (ETxn r))"
  using wf_payload [of "ETxn r"] by (cases r) (simp_all add: enc_entry_def encode_record_ok)

lemma record_bytes_length: "length (record_bytes kind payload) = RECORD_HEADER_LEN + length payload"
  by (simp add: record_bytes_def RECORD_HEADER_LEN_def Let_def)

lemma ids_back: "valid_page_id pid \<Longrightarrow> try_from_u64 (ucast (PageId_get pid)) = Ok pid"
  by (simp add: try_from_u64_ucast PageId_get_def valid_page_id_def)

lemma u64_at_app: "u64_at (to_le_bytes (w :: u64) @ r) 0 = w"
  by (simp add: u64_at_def sub_def)

lemma decode_payload_ok: "wf_entry e \<Longrightarrow> decode_payload (entry_kind e) (entry_payload e) offset = Some (dec_entry e offset)"
proof (cases e rule: entry_payload.cases)
  case (4 txn rid meta data)
  assume "wf_entry e"
  then have v: "valid_page_id (page_id rid)" using 4 by simp
  let ?p = "entry_payload e"
  have "u64_at ?p 0 = txn" "u32_at ?p 8 = PageId_get (page_id rid)" "u32_at ?p 12 = slot_id rid" "u64_at ?p 16 = meta_ts meta"
    "?p ! 24 = of_bool (meta_is_deleted meta)" "drop 25 ?p = data"
    by (simp_all add: 4 u64_at_def u32_at_def sub_def nth_append)
  then show ?thesis using v by (simp add: 4 decode_payload_def kind_defs UNDO_FIXED_LEN_def ids_back Let_def)
qed (auto simp: decode_payload_def kind_defs PAGE_ID_LEN_def UNDO_FIXED_LEN_def ids_back u64_at_app Let_def,
     simp_all add: u64_at_def sub_def)

lemma read_record_ok:
  assumes "wf_entry e"
  shows "read_record (enc_entry e @ rest) offset = Some ((dec_entry e offset, length (enc_entry e)), rest)"
proof -
  let ?k = "entry_kind e" let ?p = "entry_payload e"
  let ?len = "to_le_bytes (word_of_nat (length ?p) :: u32)"
  let ?h = "[?k] @ ?len @ to_le_bytes (crc32 [[?k], ?len, ?p])"
  note pl = wf_payload [OF assms]
  have e: "enc_entry e = ?h @ ?p" by (simp add: enc_entry_def record_bytes_def Let_def)
  have h: "length ?h = RECORD_HEADER_LEN" by (simp add: RECORD_HEADER_LEN_def)
  have rf: "read_fully RECORD_HEADER_LEN (enc_entry e @ rest) = Some (?h, ?p @ rest)" unfolding e h [symmetric] by (simp add: read_fully_def)
  have f: "?h ! 0 = ?k" "sub ?h 1 4 = ?len" "sub ?h 5 4 = to_le_bytes (crc32 [[?k], ?len, ?p])" by (simp_all add: sub_def)
  have n: "unat (from_le_bytes ?len :: u32) = length ?p" using max_payload [OF pl] by (simp add: unat_of_nat_eq)
  have p: "read_fully (length ?p) (?p @ rest) = Some (?p, rest)" by (simp add: read_fully_def)
  show ?thesis
    unfolding read_record_def rf Option.bind.simps prod.case f Let_def n using pl decode_payload_ok [OF assms]
    by (simp add: p record_bytes_length enc_entry_def)
qed

lemma read_record_cut:
  assumes "wf_entry e" "n < length (enc_entry e)"
  shows "read_record (take n (enc_entry e)) offset = None"
proof (cases "n < RECORD_HEADER_LEN")
  case True
  then show ?thesis by (simp add: read_record_def read_fully_def)
next
  case False
  let ?k = "entry_kind e" let ?p = "entry_payload e"
  let ?len = "to_le_bytes (word_of_nat (length ?p) :: u32)"
  let ?h = "[?k] @ ?len @ to_le_bytes (crc32 [[?k], ?len, ?p])"
  note pl = wf_payload [OF assms(1)]
  have e: "enc_entry e = ?h @ ?p" by (simp add: enc_entry_def record_bytes_def Let_def)
  have h: "length ?h = RECORD_HEADER_LEN" by (simp add: RECORD_HEADER_LEN_def)
  have t: "take n (enc_entry e) = ?h @ take (n - RECORD_HEADER_LEN) ?p" 
    unfolding e by (subst take_append) (use False h in \<open>simp add: take_all\<close>)
  have rf: "read_fully RECORD_HEADER_LEN (take n (enc_entry e)) = Some (?h, take (n - RECORD_HEADER_LEN) ?p)"
    unfolding t h [symmetric] by (simp add: read_fully_def)
  have f: "sub ?h 1 4 = ?len" by (simp add: sub_def)
  have k: "unat (from_le_bytes ?len :: u32) = length ?p" using max_payload [OF pl] by (simp add: unat_of_nat_eq)
  have "length (take (n - RECORD_HEADER_LEN) ?p) < length ?p" using assms(2) False by (simp add: enc_entry_def record_bytes_length) 
  then have "read_fully (length ?p) (take (n - RECORD_HEADER_LEN) ?p) = None" by (simp only: read_fully_def) auto
  then show ?thesis unfolding read_record_def rf Option.bind.simps prod.case f Let_def k by simp
qed


section \<open>Replaying a log of entries\<close>

definition enc_log :: "entry list \<Rightarrow> bytes" where
  "enc_log es = concat (map enc_entry es)"

fun replay_entries :: "entry list \<Rightarrow> nat \<Rightarrow> Replay \<Rightarrow> Replay" where
  "replay_entries [] offset r = r"
| "replay_entries (e # es) offset r = replay_entries es (offset + length (enc_entry e)) (replay_record (dec_entry e offset) r)"

text \<open>The entries that lie wholly within the first \<open>n\<close> bytes.\<close>

fun whole :: "nat \<Rightarrow> entry list \<Rightarrow> entry list" where
  "whole n [] = []"
| "whole n (e # es) = (if length (enc_entry e) \<le> n then e # whole (n - length (enc_entry e)) es else [])"

lemma enc_log_simps [simp]: "enc_log [] = []" "enc_log (e # es) = enc_entry e @ enc_log es" "enc_log (es @ fs) = enc_log es @ enc_log fs"
  by (simp_all add: enc_log_def)

lemma replay_from_none: "read_record rest offset = None \<Longrightarrow> replay_from rest offset r = r"
  by (subst replay_from.simps) simp

lemma replay_from_step: "wf_entry e \<Longrightarrow>
  replay_from (enc_entry e @ rest) offset r = replay_from rest (offset + length (enc_entry e)) (replay_record (dec_entry e offset) r)"
  by (subst replay_from.simps) (simp add: read_record_ok)

lemma replay_from_log:
  "\<forall>e \<in> set es. wf_entry e \<Longrightarrow> replay_from (enc_log es @ rest) offset r = replay_from rest (offset + length (enc_log es)) (replay_entries es offset r)"
  by (induction es arbitrary: offset r) (simp_all add: replay_from_step add.assoc)

lemma replay_from_cut:
  "\<forall>e \<in> set es. wf_entry e \<Longrightarrow> replay_from (take n (enc_log es)) offset r = replay_entries (whole n es) offset r"
proof (induction es arbitrary: n offset r)
  case Nil
  have "read_record [] offset = None" by (simp add: read_record_def read_fully_def RECORD_HEADER_LEN_def)
  then show ?case by (simp add: replay_from_none)
next
  case (Cons e es)
  show ?case
  proof (cases "length (enc_entry e) \<le> n")
    case True
    then have "take n (enc_log (e # es)) = enc_entry e @ take (n - length (enc_entry e)) (enc_log es)" by simp
    then show ?thesis using True Cons by (simp add: replay_from_step)
  next
    case False
    then have "take n (enc_log (e # es)) = take n (enc_entry e)" by simp
    then show ?thesis using False Cons.prems by (simp add: replay_from_none read_record_cut)
  qed
qed

text \<open>The entries up to the last durable point, and what they say.\<close>

definition durable_part :: "entry list \<Rightarrow> entry list" where
  "durable_part es = rev (dropWhile (\<lambda>e. e \<noteq> EDurable) (rev es))"

definition tail_part :: "entry list \<Rightarrow> entry list" where
  "tail_part es = rev (takeWhile (\<lambda>e. e \<noteq> EDurable) (rev es))"

fun txns_of :: "entry list \<Rightarrow> TxnRecord list" where
  "txns_of [] = []"
| "txns_of (ETxn r # es) = r # txns_of es"
| "txns_of (_ # es) = txns_of es"

fun image_of :: "entry list \<Rightarrow> PageId \<Rightarrow> bytes option" where
  "image_of [] p = None"
| "image_of (EPage q page # es) p = (case image_of es p of Some b \<Rightarrow> Some b | None \<Rightarrow> if q = p then Some page else None)"
| "image_of (_ # es) p = image_of es p"

fun offset_of_image :: "nat \<Rightarrow> entry list \<Rightarrow> PageId \<Rightarrow> nat option" where
  "offset_of_image offset [] p = None"
| "offset_of_image offset (e # es) p =
     (case offset_of_image (offset + length (enc_entry e)) es p of
        Some o' \<Rightarrow> Some o'
      | None \<Rightarrow> (case e of EPage q _ \<Rightarrow> if q = p then Some (offset + (RECORD_HEADER_LEN + PAGE_ID_LEN)) else None | _ \<Rightarrow> None))"

lemma durable_parts: "durable_part es @ tail_part es = es"
  by (simp add: durable_part_def tail_part_def flip: rev_append)

lemma durable_part_append: "durable_part (es @ [EDurable]) = es @ [EDurable]"
  by (simp add: durable_part_def)

lemma durable_part_skip: "e \<noteq> EDurable \<Longrightarrow> durable_part (es @ [e]) = durable_part es"
  by (simp add: durable_part_def)

lemma tail_part_append: "tail_part (es @ [EDurable]) = []" "e \<noteq> EDurable \<Longrightarrow> tail_part (es @ [e]) = tail_part es @ [e]"
  by (simp_all add: tail_part_def)

lemma txns_of_append [simp]: "txns_of (es @ fs) = txns_of es @ txns_of fs"
  by (induction es rule: txns_of.induct) simp_all

lemma offset_of_image_append:
  "offset_of_image offset (es @ fs) p = (case offset_of_image (offset + length (enc_log es)) fs p of Some o' \<Rightarrow> Some o' | None \<Rightarrow> offset_of_image offset es p)"
  by (induction es arbitrary: offset) (auto simp: add.assoc split: option.splits)


abbreviation upd_pages :: "(PageId \<times> nat) list \<Rightarrow> (PageId \<times> nat) list \<Rightarrow> (PageId \<times> nat) list" where
  "upd_pages \<equiv> foldl (\<lambda>m (p, off). AList.update p off m)"

lemma replay_entries_snoc:
  "replay_entries (es @ [e]) offset r = replay_record (dec_entry e (offset + length (enc_log es))) (replay_entries es offset r)"
  by (induction es arbitrary: offset r) (simp_all add: add.assoc)

lemma replay_entries_state:
  fixes es offset defines "R \<equiv> replay_entries es offset empty_replay"
  shows "durable R = txns_of (durable_part es) \<and> since_durable R = txns_of (tail_part es) \<and>
    (\<forall>p. map_of (durable_pages R) p = offset_of_image offset (durable_part es) p) \<and>
    (\<forall>p. map_of (upd_pages (durable_pages R) (pages_since_durable R)) p = offset_of_image offset es p) \<and>
    distinct (map fst (durable_pages R))"
  unfolding R_def
proof (induction es rule: rev_induct)
  case Nil
  show ?case by (simp add: empty_replay_def durable_part_def tail_part_def)
next
  case (snoc e es)
  have dist: "distinct (map fst m) \<Longrightarrow> distinct (map fst (upd_pages m xs))" for m xs
    by (induction xs arbitrary: m) (auto simp: distinct_update)
  show ?case
  proof (cases e)
    case (EPage p page)
    then show ?thesis using snoc
      by (simp add: replay_entries_snoc replay_record_def durable_part_skip tail_part_append offset_of_image_append update_conv')
  next
    case EDurable
    have "txns_of es = txns_of (durable_part es) @ txns_of (tail_part es)" by (metis durable_parts txns_of_append)
    then show ?thesis using EDurable snoc dist
      by (simp add: replay_entries_snoc replay_record_def durable_part_append tail_part_append offset_of_image_append)
  next
    case (ETxn r)
    then show ?thesis using snoc
      by (simp add: replay_entries_snoc replay_record_def durable_part_skip tail_part_append offset_of_image_append)
  qed
qed

lemma offset_of_image_None: "offset_of_image offset es p = None \<longleftrightarrow> image_of es p = None"
  by (induction es p arbitrary: offset rule: image_of.induct) (auto split: option.splits, (metis not_None_eq)+)

lemma image_at_offset:
  assumes "\<forall>e \<in> set es. wf_entry e" "offset_of_image (length pre) es p = Some o'"
  shows "\<exists>img. image_of es p = Some img \<and> length img = PAGE_SIZE \<and> o' + PAGE_SIZE \<le> length pre + length (enc_log es) \<and>
    length pre \<le> o' \<and> sub (pre @ enc_log es @ rest) o' PAGE_SIZE = img"
  using assms
proof (induction es arbitrary: pre)
  case (Cons e es)
  show ?case
  proof (cases "offset_of_image (length (pre @ enc_entry e)) es p")
    case None
    then have n: "image_of es p = None" by (simp add: offset_of_image_None)
    then obtain page where e: "e = EPage p page" "o' = length pre + (RECORD_HEADER_LEN + PAGE_ID_LEN)"
      using Cons.prems(2) None by (auto split: entry.splits if_splits)
    then have w: "length page = PAGE_SIZE" using Cons.prems(1) by simp
    obtain h where h: "enc_entry e = h @ page" "length h = RECORD_HEADER_LEN + PAGE_ID_LEN"
      unfolding enc_entry_def record_bytes_def Let_def e(1) by (simp add: RECORD_HEADER_LEN_def PAGE_ID_LEN_def)
    show ?thesis using n e h w by (simp add: sub_def)
  next
    case (Some o2)
    then have "o2 = o'" using Cons.prems(2) by simp
    then show ?thesis using Cons.IH [of "pre @ enc_entry e"] Cons.prems(1) Some by (cases e) (auto split: option.splits)
  qed
qed simp

definition log_header :: bytes where
  "log_header = LOG_MAGIC @ to_le_bytes LOG_VERSION"

lemma log_header_length [simp]: "length log_header = LOG_HEADER_LEN"
  by (simp add: log_header_def LOG_HEADER_LEN_def)

lemma log_header_pos: "0 < LOG_HEADER_LEN" "log_header \<noteq> []"
  by (simp_all add: LOG_HEADER_LEN_def log_header_def LOG_MAGIC_def)

lemma replay_header:
  "wal_replay (Some (log_header @ b)) =
    (let r = replay_from b LOG_HEADER_LEN empty_replay in Ok (durable r, durable_pages r))"
proof -
  have "read_fully LOG_HEADER_LEN (log_header @ b) = Some (log_header, b)" by (simp add: read_fully_def flip: log_header_length)
  moreover have "take (length LOG_MAGIC) log_header = LOG_MAGIC" "drop (length LOG_MAGIC) log_header = to_le_bytes LOG_VERSION"
    by (simp_all add: log_header_def)
  ultimately show ?thesis using log_header_pos by (simp add: wal_replay_def)
qed

end
