(* ===== verification/Wal_Correct.thy ===== *)
theory Wal_Correct
  imports Wal_Records
begin

text \<open>
  Correctness of the log: its operations log entries, a crash leaves what the last durable point held, checkpoints lose
  nothing, and recovery hands back exactly the transactions that had not ended.
\<close>


section \<open>Ordered maps\<close>

definition bt_ok :: "('k::linorder \<times> 'v) list \<Rightarrow> bool" where
  "bt_ok m \<longleftrightarrow> sorted_wrt (<) (map fst m)"

lemma bt_update_keys: "set (map fst (bt_update k f m)) = insert k (set (map fst m))"
  by (induction k f m rule: bt_update.induct) auto

lemma bt_update_ok: "bt_ok m \<Longrightarrow> bt_ok (bt_update k f m)"
  unfolding bt_ok_def
proof (induction k f m rule: bt_update.induct)
  case (2 k f k' v xs)
  then show ?case using bt_update_keys [of k f xs] by auto
qed simp

lemma bt_update_lookup: "bt_ok m \<Longrightarrow> map_of (bt_update k f m) x = (if x = k then Some (f (map_of m k)) else map_of m x)"
  unfolding bt_ok_def
proof (induction k f m rule: bt_update.induct)
  case (2 k f k' v xs)
  have "map_of xs k = None" if "k < k'" using 2(2) that by (auto simp: map_of_eq_None_iff)
  then show ?case using 2 by auto
qed simp

lemma bt_remove_ok: "bt_ok m \<Longrightarrow> bt_ok (bt_remove k m)"
  unfolding bt_ok_def bt_remove_def by (induction m) auto

lemma bt_remove_lookup: "map_of (bt_remove k m) x = (if x = k then None else map_of m x)"
  unfolding bt_remove_def by (induction m) auto

lemma bt_update_map:
  assumes "\<And>v. h k (f v) = g (map_option (h k) v)"
  shows "map (\<lambda>(x, v). (x, h x v)) (bt_update k f m) = bt_update k g (map (\<lambda>(x, v). (x, h x v)) m)"
  using assms [of None] assms [of "Some v" for v] by (induction k f m rule: bt_update.induct) auto

lemma bt_remove_map: "map (\<lambda>(x, v). (x, h x v)) (bt_remove k m) = bt_remove k (map (\<lambda>(x, v). (x, h x v)) m)"
  unfolding bt_remove_def by (induction m) auto

lemma bt_distinct: "bt_ok m \<Longrightarrow> distinct (map fst m)"
  unfolding bt_ok_def using strict_sorted_iff by blast

lemma bt_eqI:
  assumes "bt_ok m" "bt_ok n" "\<And>x. map_of m x = map_of n x"
  shows "m = n"
proof -
  have "map_of m = map_of n" using assms(3) by (rule ext)
  then have "set (map fst m) = set (map fst n)" using dom_map_of_conv_image_fst [of m] dom_map_of_conv_image_fst [of n] by simp
  then have k: "map fst m = map fst n"
    using assms(1,2) strict_sorted_equal [of "map fst m" "map fst n"] unfolding bt_ok_def by simp
  show ?thesis
  proof (rule nth_equalityI)
    show l: "length m = length n" using k by (metis length_map)
    fix i assume i: "i < length m"
    have f: "fst (m ! i) = fst (n ! i)" using k i l by (metis nth_map)
    have "map_of m (fst (m ! i)) = Some (snd (m ! i))" "map_of n (fst (n ! i)) = Some (snd (n ! i))"
      using bt_distinct [OF assms(1)] bt_distinct [OF assms(2)] i l by simp_all
    then show "m ! i = n ! i" using f assms(3) by (metis option.inject prod.expand)
  qed
qed

section \<open>Open transactions\<close>

type_synonym txn_records = "(TxnId \<times> TxnRecord list) list"

fun rec_txn :: "TxnRecord \<Rightarrow> TxnId" where
  "rec_txn (Writes t) = t"
| "rec_txn (Undo t _ _ _) = t"
| "rec_txn (End t) = t"

fun is_end :: "TxnRecord \<Rightarrow> bool" where
  "is_end (End _) = True"
| "is_end _ = False"

definition add_record :: "TxnRecord \<Rightarrow> TxnRecord list option \<Rightarrow> TxnRecord list" where
  "add_record r v = (case v of None \<Rightarrow> [] | Some l \<Rightarrow> l) @ [r]"

definition track_rec :: "txn_records \<Rightarrow> TxnRecord \<Rightarrow> txn_records" where
  "track_rec m r = (if is_end r then bt_remove (rec_txn r) m else bt_update (rec_txn r) (add_record r) m)"

definition open_recs :: "TxnRecord list \<Rightarrow> txn_records" where
  "open_recs rs = foldl track_rec [] rs"

text \<open>The records a transaction has logged since it last ended.\<close>

definition pending :: "TxnRecord list \<Rightarrow> TxnId \<Rightarrow> TxnRecord list" where
  "pending rs t = foldl (\<lambda>l r. if rec_txn r \<noteq> t then l else if is_end r then [] else l @ [r]) [] rs"

lemma pending_snoc: "pending (rs @ [r]) t = (if rec_txn r \<noteq> t then pending rs t else if is_end r then [] else pending rs t @ [r])"
  by (simp add: pending_def)

lemma open_recs_snoc: "open_recs (rs @ [r]) = track_rec (open_recs rs) r"
  by (simp add: open_recs_def)

lemma open_recs_ok: "bt_ok (open_recs rs)"
proof (induction rs rule: rev_induct)
  case (snoc r rs)
  then show ?case by (simp add: open_recs_snoc track_rec_def bt_update_ok bt_remove_ok)
qed (simp add: open_recs_def bt_ok_def)

lemma open_recs_lookup: "map_of (open_recs rs) t = (if pending rs t = [] then None else Some (pending rs t))"
proof (induction rs rule: rev_induct)
  case (snoc r rs)
  then show ?case using open_recs_ok [of rs]
    by (auto simp: open_recs_snoc track_rec_def pending_snoc bt_update_lookup bt_remove_lookup add_record_def)
qed (simp add: open_recs_def pending_def)

lemma pending_records: "\<forall>r \<in> set (pending rs t). rec_txn r = t \<and> \<not> is_end r \<and> r \<in> set rs"
  by (induction rs rule: rev_induct) (auto simp: pending_snoc pending_def)

lemma pending_append: "\<forall>r \<in> set qs. \<not> is_end r \<Longrightarrow> pending (rs @ qs) t = pending rs t @ filter (\<lambda>r. rec_txn r = t) qs"
proof (induction qs rule: rev_induct)
  case (snoc q qs)
  then show ?case by (simp add: pending_snoc flip: append_assoc)
qed simp

text \<open>Logging the records of the open transactions again leaves the same transactions open.\<close>

lemma open_recs_again: "open_recs (concat (map snd (open_recs rs))) = open_recs rs"
proof (rule bt_eqI [OF open_recs_ok open_recs_ok])
  fix t
  let ?m = "open_recs rs" let ?qs = "concat (map snd ?m)"
  have mem: "(\<forall>r \<in> set l. rec_txn r = k \<and> \<not> is_end r) \<and> l = pending rs k" if "(k, l) \<in> set ?m" for k l
  proof -
    have "map_of ?m k = Some l" using that bt_distinct [OF open_recs_ok [of rs]] by simp
    then have "l = pending rs k" using open_recs_lookup [of rs k] by (simp split: if_splits)
    then show ?thesis using pending_records [of rs k] by simp
  qed
  then have ne: "\<forall>r \<in> set ?qs. \<not> is_end r" by fastforce
  have "filter (\<lambda>r. rec_txn r = t) (concat (map snd m)) = (case map_of m t of None \<Rightarrow> [] | Some l \<Rightarrow> l)"
    if "set m \<subseteq> set ?m" "distinct (map fst m)" for m
    using that
  proof (induction m)
    case (Cons x m)
    obtain k l where x: "x = (k, l)" by (cases x)
    have "\<forall>r \<in> set l. rec_txn r = k" using mem [of k l] Cons.prems(1) by (auto simp: x)
    then have "filter (\<lambda>r. rec_txn r = t) l = (if k = t then l else [])" by (induction l) auto
    moreover have "map_of m k = None" using Cons.prems(2) by (auto simp: x map_of_eq_None_iff)
    ultimately show ?case using Cons by (auto simp: x)
  qed simp
  then have "pending ?qs t = (case map_of ?m t of None \<Rightarrow> [] | Some l \<Rightarrow> l)"
    using pending_append [OF ne, of "[]" t] bt_distinct [OF open_recs_ok] by (simp add: pending_def)
  then show "map_of (open_recs ?qs) t = map_of ?m t" by (simp add: open_recs_lookup)
qed


definition enc_open :: "txn_records \<Rightarrow> open_txns" where
  "enc_open m = map (\<lambda>(t, l). (t, enc_log (map ETxn l))) m"

lemma track_encoded: "track_open_txn_encoded (enc_open m) r (enc_entry (ETxn r)) = enc_open (track_rec m r)"
proof -
  let ?g = "\<lambda>v. (case v of None \<Rightarrow> [] | Some b \<Rightarrow> b) @ enc_entry (ETxn r)"
  have "bt_update (rec_txn r) ?g (enc_open m) = enc_open (bt_update (rec_txn r) (add_record r) m)"
    unfolding enc_open_def by (rule bt_update_map [symmetric]) (simp add: add_record_def split: option.split)
  then show ?thesis using bt_remove_map [of "\<lambda>_ l. enc_log (map ETxn l)" "rec_txn r" m]
    by (cases r) (simp_all add: track_rec_def enc_open_def)
qed

lemma track_all:
  assumes "\<forall>r \<in> set rs. wf_entry (ETxn r)"
  shows "foldR (\<lambda>rec opened. track_open_txn opened rec) rs (enc_open m) = Ok (enc_open (foldl track_rec m rs))"
  using assms by (induction rs arbitrary: m) (simp_all add: track_open_txn_def encode_txn_ok track_encoded)

definition undo_summary :: "RecoveredTxn \<Rightarrow> TxnRecord \<Rightarrow> RecoveredTxn" where
  "undo_summary T r =
     (case r of
        Undo _ rid meta data \<Rightarrow>
          T\<lparr>rt_undo := (rt_undo T)(rid := Some (case rt_undo T rid of Some i \<Rightarrow> i | None \<Rightarrow> \<lparr>ui_meta = meta, ui_data = data\<rparr>))\<rparr>
      | _ \<Rightarrow> T)"

definition txn_summary :: "TxnId \<Rightarrow> TxnRecord list \<Rightarrow> RecoveredTxn" where
  "txn_summary t l = foldl undo_summary \<lparr>rt_id = t, rt_undo = Map.empty\<rparr> l"

lemma recover_summary: "foldl (\<lambda>m rec. recover_record rec m) [] rs = map (\<lambda>(t, l). (t, txn_summary t l)) (open_recs rs)"
proof (induction rs rule: rev_induct)
  case (snoc r rs)
  let ?h = "\<lambda>t l. txn_summary t l"
  have "recover_record r (map (\<lambda>(t, l). (t, txn_summary t l)) m) = map (\<lambda>(t, l). (t, txn_summary t l)) (track_rec m r)" for m
  proof (cases r)
    case (Writes t)
    then show ?thesis
      using bt_update_map [of txn_summary t "add_record r" "new_recovered t" m]
      by (simp add: track_rec_def add_record_def new_recovered_def txn_summary_def undo_summary_def split: option.splits)
  next
    case (Undo t rid meta data)
    let ?g = "\<lambda>v. let T = new_recovered t v in
       T\<lparr>rt_undo := (rt_undo T)(rid := Some (case rt_undo T rid of Some i \<Rightarrow> i | None \<Rightarrow> \<lparr>ui_meta = meta, ui_data = data\<rparr>))\<rparr>"
    have "txn_summary t (add_record r v) = ?g (map_option (txn_summary t) v)" for v
      by (cases v) (simp_all add: Undo add_record_def new_recovered_def txn_summary_def undo_summary_def Let_def)
    from bt_update_map [of txn_summary t "add_record r" ?g m, OF this] show ?thesis by (simp add: Undo track_rec_def)
  next
    case (End t)
    then show ?thesis using bt_remove_map [of txn_summary t m] by (simp add: track_rec_def)
  qed
  then show ?case using snoc by (simp add: open_recs_snoc)
qed (simp add: open_recs_def)

section \<open>The log as entries\<close>

text \<open>The open log holds the entries \<open>es\<close> in its file, behind the header, and the transaction records \<open>bs\<close> in memory.
  Bytes behind its end, which a failed write may have left, do not count.\<close>

definition wal_rel :: "Wal \<Rightarrow> entry list \<Rightarrow> TxnRecord list \<Rightarrow> bool" where
  "wal_rel w es bs \<longleftrightarrow>
     (\<forall>e \<in> set es. wf_entry e) \<and> (\<forall>r \<in> set bs. wf_entry (ETxn r)) \<and>
     take (wal_end w) (wal_file w) = log_header @ enc_log es \<and> wal_end w = length (log_header @ enc_log es) \<and>
     wal_buffered w = enc_log (map ETxn bs) \<and>
     (\<forall>p. map_of (wal_pages w) p = offset_of_image LOG_HEADER_LEN es p) \<and> distinct (map fst (wal_pages w)) \<and>
     (\<not> wal_dirty w \<longrightarrow> tail_part es = [] \<and> bs = []) \<and>
     wal_open_txns w = enc_open (open_recs (txns_of es @ bs))"

lemma txns_of_map [simp]: "txns_of (map ETxn bs) = bs"
  by (induction bs) simp_all

lemma tail_part_more: "\<forall>e \<in> set fs. e \<noteq> EDurable \<Longrightarrow> tail_part (es @ fs) = tail_part es @ fs"
proof (induction fs rule: rev_induct)
  case (snoc f fs)
  then show ?case by (simp add: tail_part_append flip: append_assoc)
qed simp

lemma log_txn_ok:
  assumes "wal_rel (the_wal s) es bs" "wf_entry (ETxn r)"
  shows "\<exists>w'. log_txn r s = (Ok (), s\<lparr>the_wal := w'\<rparr>) \<and> wal_rel w' es (bs @ [r])"
proof -
  let ?w = "the_wal s"
  let ?w' = "?w\<lparr>wal_open_txns := track_open_txn_encoded (wal_open_txns ?w) r (enc_entry (ETxn r)),
                wal_buffered := wal_buffered ?w @ enc_entry (ETxn r), wal_dirty := True\<rparr>"
  have "log_txn r s = (Ok (), s\<lparr>the_wal := ?w'\<rparr>)"
    using assms(2) by (simp add: log_txn_def upd_wal_def encode_txn_ok effects)
  moreover have "open_recs (txns_of es @ bs @ [r]) = track_rec (open_recs (txns_of es @ bs)) r"
    using open_recs_snoc [of "txns_of es @ bs" r] by simp
  ultimately show ?thesis using assms by (intro exI [of _ ?w']) (auto simp: wal_rel_def track_encoded)
qed

lemma file_write_at:
  assumes "take n f = h" "n = length h"
  shows "take (n + length d) (file_write f n d) = h @ d"
proof -
  have "n \<le> length f" using assms by (metis length_take min.absorb_iff2 min.commute nat_le_linear take_all)
  then show ?thesis using assms by (simp add: file_write_def)
qed

lemma file_write_keeps: "take n f = h \<Longrightarrow> n = length h \<Longrightarrow> take n (file_write f n d) = h"
proof -
  assume a: "take n f = h" "n = length h"
  then have "n \<le> length f" by (metis length_take min.absorb_iff2 min.commute nat_le_linear take_all)
  then show ?thesis using a by (simp add: file_write_def)
qed

text \<open>Writing out the buffered records and one more: done, or refused with nothing changed but bytes behind the end.\<close>

lemma write_out_ok:
  assumes rel: "wal_rel (the_wal s) es bs" and pl: "length payload \<le> MAX_PAYLOAD_LEN"
    and w: "w = the_wal s" and d: "d = enc_log (map ETxn bs) @ record_bytes kind payload"
  shows "outcomes s = [] \<or> (\<exists>os. outcomes s = Done # os) \<Longrightarrow>
      write_out_with kind payload s = (Ok (wal_end w + length (enc_log (map ETxn bs))),
        s\<lparr>the_wal := w\<lparr>wal_file := file_write (wal_file w) (wal_end w) d, wal_end := wal_end w + length d, wal_buffered := []\<rparr>,
          outcomes := tl (outcomes s)\<rparr>)"
    "outcomes s = Fails n # os \<Longrightarrow>
      write_out_with kind payload s = (Err IoFailed,
        s\<lparr>the_wal := w\<lparr>wal_file := file_write (wal_file w) (wal_end w) (take n d)\<rparr>, outcomes := os\<rparr>)"
proof -
  have b: "wal_buffered (the_wal s) = enc_log (map ETxn bs)" using rel by (simp add: wal_rel_def)
  show "outcomes s = [] \<or> (\<exists>os. outcomes s = Done # os) \<Longrightarrow>
      write_out_with kind payload s = (Ok (wal_end w + length (enc_log (map ETxn bs))),
        s\<lparr>the_wal := w\<lparr>wal_file := file_write (wal_file w) (wal_end w) d, wal_end := wal_end w + length d, wal_buffered := []\<rparr>,
          outcomes := tl (outcomes s)\<rparr>)"
    using b by (auto simp: encode_record_ok [OF pl] write_out_with_def write_log_def next_io_def upd_wal_def catchS_def effects Let_def w d)
  show "outcomes s = Fails n # os \<Longrightarrow>
      write_out_with kind payload s = (Err IoFailed,
        s\<lparr>the_wal := w\<lparr>wal_file := file_write (wal_file w) (wal_end w) (take n d)\<rparr>, outcomes := os\<rparr>)"
    using b by (simp add: encode_record_ok [OF pl] write_out_with_def write_log_def next_io_def upd_wal_def catchS_def effects Let_def w d)
qed


lemma wal_rel_fail: "wal_rel w es bs \<Longrightarrow> wal_rel (w\<lparr>wal_file := file_write (wal_file w) (wal_end w) x\<rparr>) es bs"
  using file_write_keeps [of "wal_end w" "wal_file w" "log_header @ enc_log es" x] by (auto simp: wal_rel_def)

lemma offset_of_txns [simp]: "offset_of_image offset (map ETxn bs) p = None"
  by (induction bs arbitrary: offset) simp_all

lemma wal_rel_write:
  assumes rel: "wal_rel w es bs" and e: "wf_entry e" "\<And>r. e \<noteq> ETxn r"
    and fs: "fs = es @ map ETxn bs @ [e]" and d: "d = enc_log (map ETxn bs) @ enc_entry e"
    and ps: "\<And>p. map_of ps p = offset_of_image LOG_HEADER_LEN fs p" "distinct (map fst ps)" "\<not> dd \<Longrightarrow> e = EDurable"
  shows "wal_rel (w\<lparr>wal_file := file_write (wal_file w) (wal_end w) d, wal_end := wal_end w + length d, wal_buffered := [],
    wal_pages := ps, wal_dirty := dd\<rparr>) fs []"
proof -
  have "take (wal_end w + length d) (file_write (wal_file w) (wal_end w) d) = (log_header @ enc_log es) @ d"
    using rel by (intro file_write_at) (auto simp: wal_rel_def)
  moreover have "txns_of [e] = []" using e(2) by (cases e) auto
  moreover have "\<not> dd \<Longrightarrow> tail_part fs = []" using ps(3) fs tail_part_append(1) [of "es @ map ETxn bs"] by simp
  ultimately show ?thesis using rel e(1) ps(1,2) by (auto simp: wal_rel_def fs d)
qed

lemma log_page_ok:
  assumes rel: "wal_rel (the_wal s) es bs" and e: "wf_entry (EPage pid page)" and ok: "\<not> wal_broken (the_wal s)"
    and io: "outcomes s = [] \<or> (\<exists>os. outcomes s = Done # os)"
  shows "\<exists>w'. log_page pid page s = (Ok (), s\<lparr>the_wal := w', outcomes := tl (outcomes s)\<rparr>) \<and>
    wal_rel w' (es @ map ETxn bs @ [EPage pid page]) [] \<and> \<not> wal_broken w'"
proof -
  let ?w = "the_wal s" and ?e = "EPage pid page"
  let ?d = "enc_log (map ETxn bs) @ enc_entry ?e"
  let ?ps = "AList.update pid (wal_end ?w + length (enc_log (map ETxn bs)) + (RECORD_HEADER_LEN + PAGE_ID_LEN)) (wal_pages ?w)"
  let ?w' = "?w\<lparr>wal_file := file_write (wal_file ?w) (wal_end ?w) ?d, wal_end := wal_end ?w + length ?d, wal_buffered := [],
    wal_pages := ?ps, wal_dirty := True\<rparr>"
  have pl: "length (entry_payload ?e) \<le> MAX_PAYLOAD_LEN" using e by (rule wf_payload)
  have "log_page pid page s = (Ok (), s\<lparr>the_wal := ?w', outcomes := tl (outcomes s)\<rparr>)"
    using write_out_ok(1) [OF rel pl refl refl io, of KIND_PAGE] ok
    by (simp add: log_page_def refuse_if_broken_def upd_wal_def effects Let_def enc_entry_def)
  moreover have "map_of ?ps p = offset_of_image LOG_HEADER_LEN (es @ map ETxn bs @ [?e]) p" for p
    using rel by (simp add: wal_rel_def update_conv' offset_of_image_append add.assoc)
  then have "wal_rel ?w' (es @ map ETxn bs @ [?e]) []"
    using rel e by (intro wal_rel_write [where bs = bs]) (auto simp: wal_rel_def distinct_update)
  ultimately show ?thesis using ok by (intro exI [of _ ?w']) simp
qed

lemma log_page_fails:
  assumes rel: "wal_rel (the_wal s) es bs" and e: "wf_entry (EPage pid page)" and ok: "\<not> wal_broken (the_wal s)"
    and io: "outcomes s = Fails n # os"
  shows "\<exists>w'. log_page pid page s = (Err IoFailed, s\<lparr>the_wal := w', outcomes := os\<rparr>) \<and> wal_rel w' es bs \<and> \<not> wal_broken w'"
proof -
  let ?w = "the_wal s" and ?e = "EPage pid page"
  let ?w' = "?w\<lparr>wal_file := file_write (wal_file ?w) (wal_end ?w) (take n (enc_log (map ETxn bs) @ enc_entry ?e))\<rparr>"
  have pl: "length (entry_payload ?e) \<le> MAX_PAYLOAD_LEN" using e by (rule wf_payload)
  have "log_page pid page s = (Err IoFailed, s\<lparr>the_wal := ?w', outcomes := os\<rparr>)"
    using write_out_ok(2) [OF rel pl refl refl io, of KIND_PAGE] ok
    by (simp add: log_page_def refuse_if_broken_def upd_wal_def effects Let_def enc_entry_def)
  then show ?thesis using ok wal_rel_fail [OF rel] by (intro exI [of _ ?w']) simp
qed

lemma image_in_file:
  assumes "wal_rel w es bs" "map_of (wal_pages w) p = Some off"
  shows "\<exists>img. image_of es p = Some img \<and> length img = PAGE_SIZE \<and> off + PAGE_SIZE \<le> length (wal_file w) \<and>
    sub (wal_file w) off PAGE_SIZE = img"
proof -
  have w: "\<forall>e \<in> set es. wf_entry e" "take (wal_end w) (wal_file w) = log_header @ enc_log es"
    "offset_of_image (length log_header) es p = Some off"
    using assms by (auto simp: wal_rel_def)
  then obtain rest where f: "wal_file w = log_header @ enc_log es @ rest"
    by (metis append_assoc append_take_drop_id)
  from image_at_offset [OF w(1,3), of rest] show ?thesis by (auto simp: f)
qed

lemma read_page_image:
  assumes "wal_rel (the_wal s) es bs" "outcomes s = [] \<or> (\<exists>os. outcomes s = Done # os)"
  shows "\<exists>os. wal_read_page p s = (Ok (image_of es p), s\<lparr>outcomes := os\<rparr>)"
proof (cases "map_of (wal_pages (the_wal s)) p")
  case None
  then have "image_of es p = None" using assms(1) offset_of_image_None by (metis wal_rel_def)
  then show ?thesis using None by (intro exI [of _ "outcomes s"]) (simp add: wal_read_page_def effects)
next
  case (Some off)
  from image_in_file [OF assms(1) this] show ?thesis using Some assms(2)
    by (intro exI [of _ "tl (outcomes s)"]) (auto simp: wal_read_page_def read_log_def io_step_def next_io_def effects)
qed


section \<open>Checkpoints\<close>

definition fresh_wal :: "Wal \<Rightarrow> Wal" where
  "fresh_wal w =
     (let fresh = log_header @ concat (bt_values (wal_open_txns w)) @ enc_entry EDurable in
      w\<lparr>wal_file := fresh, wal_end := length fresh, wal_buffered := [], wal_pages := [], wal_dirty := False\<rparr>)"

definition fresh_entries :: "TxnRecord list \<Rightarrow> entry list" where
  "fresh_entries rs = map ETxn (concat (map snd (open_recs rs))) @ [EDurable]"

lemma fresh_log_eq: "fresh_log (wal_open_txns w) = Ok (log_header @ concat (bt_values (wal_open_txns w)) @ enc_entry EDurable)"
  by (simp add: fresh_log_def encode_record_ok log_header_def enc_entry_def)

lemma copy_pages_wal: "forS copy_page ps s = (r, t) \<Longrightarrow> the_wal t = the_wal s \<and> r \<noteq> Panic"
proof (induction ps arbitrary: s)
  case (Cons x ps)
  have step: "the_wal u = the_wal v \<and> q \<noteq> Panic" if "copy_page x v = (q, u)" for u v q
    using that by (auto simp: copy_page_def read_log_def io_step_def next_io_def write_data_def effects
      split: prod.splits io.splits list.splits if_splits)
  obtain q u where q: "copy_page x s = (q, u)" by force
  then show ?case using Cons step [OF q] by (cases q) (auto simp: effects)
qed (auto simp: effects)

lemma enc_log_concat: "enc_log (map ETxn (concat ls)) = concat (map (\<lambda>l. enc_log (map ETxn l)) ls)"
  by (induction ls) simp_all

lemma bt_values_enc: "concat (bt_values (enc_open m)) = enc_log (map ETxn (concat (map snd m)))"
  by (simp add: enc_log_concat bt_values_def enc_open_def comp_def case_prod_beta)

lemma open_recs_members: "r \<in> set (concat (map snd (open_recs rs))) \<Longrightarrow> r \<in> set rs"
proof -
  assume "r \<in> set (concat (map snd (open_recs rs)))"
  then obtain k l where kl: "(k, l) \<in> set (open_recs rs)" "r \<in> set l" by auto
  then have "map_of (open_recs rs) k = Some l" using bt_distinct [OF open_recs_ok] by (simp add: map_of_eq_Some_iff)
  then have "l = pending rs k" by (simp add: open_recs_lookup split: if_splits)
  then show ?thesis using pending_records [of rs k] kl(2) by blast
qed

lemma fresh_wal_rel:
  assumes op: "wal_open_txns w = enc_open (open_recs rs)" and wf: "\<forall>r \<in> set rs. wf_entry (ETxn r)"
  shows "wal_rel (fresh_wal w) (fresh_entries rs) []"
proof -
  have e: "enc_log (fresh_entries rs) = concat (bt_values (wal_open_txns w)) @ enc_entry EDurable"
    by (simp add: fresh_entries_def op bt_values_enc)
  have "offset_of_image LOG_HEADER_LEN (fresh_entries rs) p = None" for p
    by (simp add: fresh_entries_def offset_of_image_append)
  moreover have "txns_of (fresh_entries rs) = concat (map snd (open_recs rs))" by (simp add: fresh_entries_def)
  moreover have "\<forall>e \<in> set (fresh_entries rs). wf_entry e"
    using wf open_recs_members [of _ rs] by (auto simp: fresh_entries_def simp del: set_concat)
  moreover have "tail_part (fresh_entries rs) = []" by (simp add: fresh_entries_def tail_part_append)
  ultimately show ?thesis
    using op open_recs_again [of rs] by (simp add: wal_rel_def fresh_wal_def Let_def e)
qed

lemma wal_rel_broken: "wal_rel w es bs \<Longrightarrow> wal_rel (w\<lparr>wal_broken := b\<rparr>) es bs"
  by (auto simp: wal_rel_def)

lemma txns_wf: "\<forall>e \<in> set es. wf_entry e \<Longrightarrow> \<forall>r \<in> set (txns_of es). wf_entry (ETxn r)"
  by (induction es rule: txns_of.induct) auto

lemma fresh_wal_of_rel: "wal_rel w es bs \<Longrightarrow> wal_rel (fresh_wal w) (fresh_entries (txns_of es @ bs)) []"
  using txns_wf [of es] by (intro fresh_wal_rel) (auto simp: wal_rel_def)

section \<open>The pages recovery restores\<close>

text \<open>A page of the data file, bytes past its end read as zeros. A log over a data file shows the newest logged image
  of a page, or else the data file's.\<close>

definition page_at :: "bytes \<Rightarrow> PageId \<Rightarrow> bytes" where
  "page_at f p = take PAGE_SIZE (drop (unat (PageId_get p) * PAGE_SIZE) f @ replicate PAGE_SIZE 0)"

definition has_page :: "bytes \<Rightarrow> PageId \<Rightarrow> bool" where
  "has_page f p \<longleftrightarrow> unat (PageId_get p) * PAGE_SIZE + PAGE_SIZE \<le> length f"

definition view_page :: "entry list \<Rightarrow> bytes \<Rightarrow> PageId \<Rightarrow> bytes" where
  "view_page es f p = (case image_of es p of Some img \<Rightarrow> img | None \<Rightarrow> page_at f p)"

lemma page_pos: "0 < PAGE_SIZE"
  by (simp add: PAGE_SIZE_def)

lemma page_at_has: "has_page f p \<Longrightarrow> page_at f p = sub f (unat (PageId_get p) * PAGE_SIZE) PAGE_SIZE"
  by (simp add: page_at_def has_page_def sub_def)

lemma page_at_nth: "i < PAGE_SIZE \<Longrightarrow>
  page_at f p ! i = (let j = unat (PageId_get p) * PAGE_SIZE + i in if j < length f then f ! j else 0)"
  by (auto simp: page_at_def Let_def nth_append)

lemma page_at_length [simp]: "length (page_at f p) = PAGE_SIZE"
  by (simp add: page_at_def)

lemma file_write_length: "length (file_write f off d) = max (off + length d) (length f)"
  by (simp add: file_write_def)

lemma file_write_nth: "i < length (file_write f off d) \<Longrightarrow>
  file_write f off d ! i = (if off \<le> i \<and> i < off + length d then d ! (i - off) else if i < length f then f ! i else 0)"
  by (auto simp: file_write_def nth_append min_def)

lemma pages_apart:
  assumes "PageId_get p \<noteq> PageId_get q" "i < PAGE_SIZE" "n \<le> PAGE_SIZE"
  shows "\<not> (unat (PageId_get p) * PAGE_SIZE \<le> unat (PageId_get q) * PAGE_SIZE + i \<and>
            unat (PageId_get q) * PAGE_SIZE + i < unat (PageId_get p) * PAGE_SIZE + n)"
proof
  let ?a = "unat (PageId_get p)" and ?b = "unat (PageId_get q)"
  assume a: "?a * PAGE_SIZE \<le> ?b * PAGE_SIZE + i \<and> ?b * PAGE_SIZE + i < ?a * PAGE_SIZE + n"
  have "(?b * PAGE_SIZE + i) div PAGE_SIZE = ?b" using assms(2) by simp
  moreover have "(?b * PAGE_SIZE + i) div PAGE_SIZE = ?a"
    using a assms(3) by (intro div_nat_eqI) (simp_all add: algebra_simps)
  ultimately show False using assms(1) by (simp add: unsigned_word_eqI)
qed

text \<open>Writing a page, or the part of it a failed write got to, leaves every other page.\<close>

lemma write_other:
  assumes "q \<noteq> p" "length d \<le> PAGE_SIZE"
  shows "page_at (file_write f (unat (PageId_get p) * PAGE_SIZE) d) q = page_at f q"
proof (rule nth_equalityI)
  fix i assume "i < length (page_at (file_write f (unat (PageId_get p) * PAGE_SIZE) d) q)"
  then have i: "i < PAGE_SIZE" by simp
  have "PageId_get p \<noteq> PageId_get q" using assms(1) by (cases p; cases q) (simp add: PageId_get_def)
  from pages_apart [OF this i assms(2)]
  show "page_at (file_write f (unat (PageId_get p) * PAGE_SIZE) d) q ! i = page_at f q ! i"
    by (auto simp: page_at_nth [OF i] Let_def file_write_nth file_write_length)
qed simp

lemma write_same:
  assumes "length d = PAGE_SIZE"
  shows "page_at (file_write f (unat (PageId_get p) * PAGE_SIZE) d) p = d"
  by (rule nth_equalityI) (auto simp: page_at_nth assms Let_def file_write_nth file_write_length)

lemma write_has: "has_page f q \<Longrightarrow> has_page (file_write f off d) q"
  "length d = PAGE_SIZE \<Longrightarrow> has_page (file_write f (unat (PageId_get p) * PAGE_SIZE) d) p"
  by (simp_all add: has_page_def file_write_length)

lemma copy_page_data:
  assumes "copy_page (p, off) s = (r, t)"
  shows "(\<forall>q. q \<noteq> p \<longrightarrow> page_at (data_file t) q = page_at (data_file s) q) \<and>
    (\<forall>q. has_page (data_file s) q \<longrightarrow> has_page (data_file t) q) \<and>
    (r = Ok () \<longrightarrow> has_page (data_file t) p \<and> page_at (data_file t) p = sub (wal_file (the_wal s)) off PAGE_SIZE)"
  using assms
  by (auto simp: copy_page_def read_log_def io_step_def next_io_def write_data_def effects write_other write_same write_has sub_def
      split: prod.splits io.splits list.splits if_splits)

lemma copy_pages_data:
  assumes "forS copy_page ps s = (r, t)" "distinct (map fst ps)"
  shows "(\<forall>q. q \<notin> fst ` set ps \<longrightarrow> page_at (data_file t) q = page_at (data_file s) q) \<and>
    (\<forall>q. has_page (data_file s) q \<longrightarrow> has_page (data_file t) q) \<and>
    (r = Ok () \<longrightarrow> (\<forall>q off. map_of ps q = Some off \<longrightarrow>
       has_page (data_file t) q \<and> page_at (data_file t) q = sub (wal_file (the_wal s)) off PAGE_SIZE))"
  using assms
proof (induction ps arbitrary: s)
  case (Cons x ps)
  obtain p off where x: "x = (p, off)" by force
  obtain q u where q: "copy_page (p, off) s = (q, u)" by force
  note step = copy_page_data [OF q]
  have wu: "the_wal u = the_wal s" using copy_pages_wal [of "[(p, off)]" s] q by (cases q) (auto simp: effects)
  show ?case
  proof (cases q)
    case (Ok y)
    then have "forS copy_page ps u = (r, t)" using Cons(2) q x by (simp add: effects)
    from Cons(1) [OF this] Cons(3) step wu Ok show ?thesis by (auto simp: x)
  next
    case (Err e)
    then have "r = Err e" "t = u" using Cons(2) q x by (simp_all add: effects)
    then show ?thesis using step x by auto
  next
    case Panic
    then have "r = Panic" "t = u" using Cons(2) q x by (simp_all add: effects)
    then show ?thesis using step x by auto
  qed
qed (auto simp: effects)


lemma checkpoint_shape:
  assumes "checkpoint s = (r, t)"
  obtains q u where "forS copy_page (wal_pages (the_wal s)) s = (q, u)" "data_file t = data_file u"
    "(r = Ok () \<and> q = Ok () \<and> the_wal t = fresh_wal (the_wal s)) \<or>
     (\<exists>e. r = Err e \<and> (the_wal t = the_wal s \<or> the_wal t = (the_wal s)\<lparr>wal_broken := True\<rparr> \<or>
                       q = Ok () \<and> the_wal t = (fresh_wal (the_wal s))\<lparr>wal_broken := True\<rparr>))"
proof -
  obtain q u where q: "forS copy_page (wal_pages (the_wal s)) s = (q, u)" by force
  have w: "the_wal u = the_wal s" "q \<noteq> Panic" using copy_pages_wal [OF q] by simp_all
  have "data_file t = data_file u \<and> ((r = Ok () \<and> q = Ok () \<and> the_wal t = fresh_wal (the_wal s)) \<or>
     (\<exists>e. r = Err e \<and> (the_wal t = the_wal s \<or> the_wal t = (the_wal s)\<lparr>wal_broken := True\<rparr> \<or>
                       q = Ok () \<and> the_wal t = (fresh_wal (the_wal s))\<lparr>wal_broken := True\<rparr>)))"
  proof (cases q)
    case (Ok x)
    then show ?thesis using assms q w
      by (auto simp: checkpoint_def wal_sync_def io_step_def next_io_def upd_wal_def fresh_log_eq fresh_wal_def Let_def effects
        split: io.splits list.splits)
  next
    case (Err e)
    then show ?thesis using assms q w by (auto simp: checkpoint_def effects)
  qed (use w in simp)
  with q that show thesis by blast
qed

text \<open>What a checkpoint leaves: the log as it was, over a data file that shows the same pages, or the fresh log, over a
  data file that holds every logged page.\<close>

lemma checkpoint_pages:
  fixes s :: LogEnv
  defines "w \<equiv> the_wal s"
  assumes c: "checkpoint s = (r, t)" and d: "distinct (map fst (wal_pages w))"
    and img: "\<And>p. image_of es p = map_option (\<lambda>off. sub (wal_file w) off PAGE_SIZE) (map_of (wal_pages w) p)"
  shows "(\<forall>p. view_page es (data_file t) p = view_page es (data_file s) p) \<and>
    (the_wal t = w \<or> the_wal t = w\<lparr>wal_broken := True\<rparr> \<or> the_wal t = fresh_wal w \<or> the_wal t = (fresh_wal w)\<lparr>wal_broken := True\<rparr>) \<and>
    (r = Ok () \<longrightarrow> the_wal t = fresh_wal w) \<and> (\<forall>p. has_page (data_file s) p \<longrightarrow> has_page (data_file t) p) \<and>
    (the_wal t \<noteq> w \<and> the_wal t \<noteq> w\<lparr>wal_broken := True\<rparr> \<longrightarrow>
       (\<forall>p. page_at (data_file t) p = view_page es (data_file s) p) \<and> (\<forall>p. image_of es p \<noteq> None \<longrightarrow> has_page (data_file t) p)) \<and>
    r \<noteq> Panic"
proof -
  from c obtain q u where q: "forS copy_page (wal_pages w) s = (q, u)" and t: "data_file t = data_file u" and
    sh: "(r = Ok () \<and> q = Ok () \<and> the_wal t = fresh_wal w) \<or>
     (\<exists>e. r = Err e \<and> (the_wal t = w \<or> the_wal t = w\<lparr>wal_broken := True\<rparr> \<or>
                       q = Ok () \<and> the_wal t = (fresh_wal w)\<lparr>wal_broken := True\<rparr>))"
    unfolding w_def by (rule checkpoint_shape)
  note cp = copy_pages_data [OF q d, folded w_def]
  have other: "page_at (data_file u) p = page_at (data_file s) p" if "image_of es p = None" for p
    using cp that img [of p] by (auto simp: map_of_eq_None_iff)
  have same: "view_page es (data_file t) p = view_page es (data_file s) p" for p
    using other [of p] t by (simp add: view_page_def split: option.split)
  have all: "page_at (data_file t) p = view_page es (data_file s) p \<and> (image_of es p \<noteq> None \<longrightarrow> has_page (data_file t) p)"
    if "q = Ok ()" for p
  proof (cases "map_of (wal_pages w) p")
    case None then show ?thesis using other [of p] img [of p] t by (simp add: view_page_def)
  next
    case (Some off) then show ?thesis using cp that img [of p] t by (simp add: view_page_def)
  qed
  show ?thesis using sh same all cp t by auto
qed

lemma images_of_rel:
  assumes "wal_rel w es bs"
  shows "image_of es p = map_option (\<lambda>off. sub (wal_file w) off PAGE_SIZE) (map_of (wal_pages w) p)"
proof (cases "map_of (wal_pages w) p")
  case None
  then show ?thesis using assms offset_of_image_None [of LOG_HEADER_LEN es p] by (simp add: wal_rel_def)
next
  case (Some off)
  from image_in_file [OF assms Some] show ?thesis using Some by auto
qed

lemma image_of_append: "image_of (es @ fs) p = (case image_of fs p of Some b \<Rightarrow> Some b | None \<Rightarrow> image_of es p)"
  by (induction es p rule: image_of.induct) (auto split: option.splits)

lemma image_of_txns [simp]: "image_of (map ETxn bs) p = None"
  by (induction bs) simp_all

lemma image_of_fresh [simp]: "image_of (fresh_entries rs) p = None"
  by (simp add: fresh_entries_def image_of_append)

lemma txns_of_fresh: "open_recs (txns_of (fresh_entries rs)) = open_recs rs"
  by (simp add: fresh_entries_def open_recs_again)

section \<open>The contract of the log\<close>

text \<open>What the log and the data file stand for: the records of the open transactions, and the bytes of every page. The
  durable state is what recovery returns to, the current one includes everything logged since.\<close>

type_synonym db_view = "txn_records \<times> (PageId \<Rightarrow> bytes)"

definition db_view :: "entry list \<Rightarrow> bytes \<Rightarrow> db_view" where
  "db_view es f = (open_recs (txns_of es), view_page es f)"

definition log_holds :: "LogEnv \<Rightarrow> db_view \<Rightarrow> db_view \<Rightarrow> bool" where
  "log_holds s dur cur \<longleftrightarrow>
     (\<exists>es bs. wal_rel (the_wal s) es bs \<and> dur = db_view (durable_part es) (data_file s) \<and>
              cur = db_view (es @ map ETxn bs) (data_file s))"

lemma db_view_fresh: "db_view (fresh_entries rs) f = (open_recs rs, page_at f)"
  by (simp add: db_view_def txns_of_fresh view_page_def fun_eq_iff)

lemma view_page_txns [simp]: "view_page (es @ map ETxn bs) f = view_page es f"
  by (simp add: view_page_def image_of_append fun_eq_iff)

lemma durable_fresh: "durable_part (fresh_entries rs) = fresh_entries rs"
  by (simp add: fresh_entries_def durable_part_append)

lemma tail_Nil: "tail_part es = [] \<Longrightarrow> durable_part es = es"
  using durable_parts [of es] by simp

text \<open>A checkpoint at a durable point changes neither state.\<close>

lemma checkpoint_holds:
  assumes rel: "wal_rel (the_wal s) es []" "tail_part es = []" and c: "checkpoint s = (r, t)"
  shows "log_holds t (db_view es (data_file s)) (db_view es (data_file s)) \<and> r \<noteq> Panic \<and> (r = Ok () \<longrightarrow> the_wal t = fresh_wal (the_wal s))"
proof -
  let ?w = "the_wal s" and ?v = "db_view es (data_file s)"
  have d: "distinct (map fst (wal_pages ?w))" using rel by (simp add: wal_rel_def)
  note cp = checkpoint_pages [OF c d images_of_rel [OF rel(1)]]
  have "log_holds t ?v ?v"
  proof (cases "the_wal t = ?w \<or> the_wal t = ?w\<lparr>wal_broken := True\<rparr>")
    case True
    then have "wal_rel (the_wal t) es []" using rel(1) wal_rel_broken by metis
    moreover have "view_page es (data_file t) = view_page es (data_file s)" using cp by auto
    ultimately show ?thesis unfolding log_holds_def
      by (intro exI [of _ es] exI [of _ "[]"]) (simp add: db_view_def tail_Nil [OF rel(2)])
  next
    case False
    have "wal_rel (fresh_wal ?w) (fresh_entries (txns_of es)) []" using fresh_wal_of_rel [OF rel(1)] by simp
    then have "wal_rel (the_wal t) (fresh_entries (txns_of es)) []" using cp False wal_rel_broken by metis
    moreover have "page_at (data_file t) = view_page es (data_file s)" using cp False by auto
    ultimately show ?thesis unfolding log_holds_def
      by (intro exI [of _ "fresh_entries (txns_of es)"] exI [of _ "[]"]) (simp add: durable_fresh db_view_fresh, simp add: db_view_def)
  qed
  then show ?thesis using cp by simp
qed


lemma log_txn_holds:
  assumes "log_holds s dur cur" "wf_entry (ETxn r)"
  shows "\<exists>t. log_txn r s = (Ok (), t) \<and> log_holds t dur (track_rec (fst cur) r, snd cur)"
proof -
  from assms(1) obtain es bs where rel: "wal_rel (the_wal s) es bs" and v: "dur = db_view (durable_part es) (data_file s)"
    "cur = db_view (es @ map ETxn bs) (data_file s)" by (auto simp: log_holds_def)
  from log_txn_ok [OF rel assms(2)] obtain w' where w': "log_txn r s = (Ok (), s\<lparr>the_wal := w'\<rparr>)" "wal_rel w' es (bs @ [r])" by blast
  have "open_recs (txns_of es @ bs @ [r]) = track_rec (open_recs (txns_of es @ bs)) r"
    using open_recs_snoc [of "txns_of es @ bs" r] by simp
  moreover have "view_page (es @ map ETxn bs @ [ETxn r]) f = view_page es f" for f
    using view_page_txns [of es "bs @ [r]" f] by simp
  ultimately have "log_holds (s\<lparr>the_wal := w'\<rparr>) dur (track_rec (fst cur) r, snd cur)"
    unfolding log_holds_def using w'(2) v by (intro exI [of _ es] exI [of _ "bs @ [r]"]) (simp add: db_view_def)
  with w'(1) show ?thesis by blast
qed

lemma outcomes_cases:
  obtains "outcomes s = [] \<or> (\<exists>os. outcomes s = Done # os)" | n os where "outcomes s = Fails n # os"
  by (cases "outcomes s") (auto, metis io.exhaust)

lemma durable_part_more: "\<forall>e \<in> set fs. e \<noteq> EDurable \<Longrightarrow> durable_part (es @ fs) = durable_part es"
proof (induction fs rule: rev_induct)
  case (snoc f fs)
  then show ?case by (simp add: durable_part_skip flip: append_assoc)
qed simp

lemma db_view_page:
  "db_view (es @ map ETxn bs @ [EPage pid page]) f = (fst (db_view (es @ map ETxn bs) f), (snd (db_view (es @ map ETxn bs) f))(pid := page))"
  by (auto simp: db_view_def view_page_def image_of_append fun_eq_iff)

lemma log_page_holds:
  assumes h: "log_holds s dur cur" and wf: "wf_entry (EPage pid page)" and r: "log_page pid page s = (r, t)"
  shows "(r = Ok () \<and> log_holds t dur (fst cur, (snd cur)(pid := page))) \<or> (\<exists>e. r = Err e \<and> log_holds t dur cur)"
proof -
  from h obtain es bs where rel: "wal_rel (the_wal s) es bs" and v: "dur = db_view (durable_part es) (data_file s)"
    "cur = db_view (es @ map ETxn bs) (data_file s)" by (auto simp: log_holds_def)
  show ?thesis
  proof (cases "wal_broken (the_wal s)")
    case True
    then have "r = Err BrokenLog" "t = s" using r by (simp_all add: log_page_def refuse_if_broken_def effects)
    then show ?thesis using h by blast
  next
    case ok: False
    show ?thesis
    proof (cases s rule: outcomes_cases)
      case 1
      from log_page_ok [OF rel wf ok 1] r obtain w' where t: "r = Ok ()" "t = s\<lparr>the_wal := w', outcomes := tl (outcomes s)\<rparr>"
        and w': "wal_rel w' (es @ map ETxn bs @ [EPage pid page]) []" by auto
      have "durable_part (es @ map ETxn bs @ [EPage pid page]) = durable_part es" by (rule durable_part_more) auto
      then have "log_holds t dur (fst cur, (snd cur)(pid := page))" unfolding log_holds_def using w' t v
        by (intro exI [of _ "es @ map ETxn bs @ [EPage pid page]"] exI [of _ "[]"]) (simp add: db_view_page)
      then show ?thesis using t by simp
    next
      case (2 n os)
      from log_page_fails [OF rel wf ok 2] r obtain w' where t: "r = Err IoFailed" "t = s\<lparr>the_wal := w', outcomes := os\<rparr>"
        and w': "wal_rel w' es bs" by auto
      then show ?thesis using v unfolding log_holds_def by auto
    qed
  qed
qed

text \<open>The first half of a durable point: the record of it, written behind everything logged, and the sync.\<close>

definition write_durable :: "unit log_op" where
  "write_durable = bindS (write_out_with KIND_DURABLE []) (\<lambda>_. bindS wal_sync (\<lambda>_. upd_wal (\<lambda>w. w\<lparr>wal_dirty := False\<rparr>)))"

lemma durable_point_eq:
  "durable_point = bindS refuse_if_broken (\<lambda>_. bindS (getS (\<lambda>s. wal_dirty (the_wal s))) (\<lambda>dirty.
     if \<not> dirty then returnS ()
     else bindS write_durable (\<lambda>_. bindS (getS the_wal) (\<lambda>w.
       if wal_end w > wal_checkpoint_bytes w then catchS checkpoint (\<lambda>_. returnS ()) else returnS ()))))"
  unfolding durable_point_def write_durable_def bindS_assoc by (rule refl)

lemma write_durable_cases:
  assumes rel: "wal_rel (the_wal s) es bs" and r: "write_durable s = (r, t)" and fs: "fs = es @ map ETxn bs @ [EDurable]"
  shows "data_file t = data_file s \<and>
    ((r = Ok () \<and> wal_rel (the_wal t) fs []) \<or>
     (\<exists>e. r = Err e \<and> (wal_rel (the_wal t) es bs \<or> wal_rel (the_wal t) fs [] \<and> wal_broken (the_wal t))))"
proof -
  let ?w = "the_wal s"
  let ?d = "enc_log (map ETxn bs) @ enc_entry EDurable"
  have pl: "length [] \<le> MAX_PAYLOAD_LEN" by simp
  note out = write_out_ok [OF rel pl refl refl, where kind = KIND_DURABLE]
  let ?w' = "?w\<lparr>wal_file := file_write (wal_file ?w) (wal_end ?w) ?d, wal_end := wal_end ?w + length ?d, wal_buffered := []\<rparr>"
  have offs: "map_of (wal_pages ?w) p = offset_of_image LOG_HEADER_LEN fs p" for p
    using rel by (simp add: wal_rel_def fs offset_of_image_append)
  have w': "wal_rel (?w'\<lparr>wal_pages := wal_pages ?w, wal_dirty := dd\<rparr>) fs []" for dd
    using rel offs by (intro wal_rel_write [where bs = bs and e = EDurable and es = es]) (auto simp: wal_rel_def fs)
  have w1: "wal_rel (?w'\<lparr>wal_dirty := False\<rparr>) fs []" using w' [of False] by simp
  have w2: "wal_rel (?w'\<lparr>wal_broken := True\<rparr>) fs []" using wal_rel_broken [OF w' [of "wal_dirty ?w"], of True] by simp
  show ?thesis
  proof (cases s rule: outcomes_cases)
    case 1
    show ?thesis
      using r out(1) [OF 1] w1 w2
      by (auto simp: write_durable_def enc_entry_def wal_sync_def next_io_def upd_wal_def effects split: io.splits list.splits)
  next
    case (2 n os)
    then show ?thesis using r out(2) [OF 2] wal_rel_fail [OF rel] by (auto simp: write_durable_def effects)
  qed
qed

lemma db_view_durable: "db_view (es @ map ETxn bs @ [EDurable]) f = db_view (es @ map ETxn bs) f"
  by (auto simp: db_view_def view_page_def image_of_append fun_eq_iff)


lemma durable_point_holds:
  assumes h: "log_holds s dur cur" and r: "durable_point s = (r, t)"
  shows "(r = Ok () \<and> log_holds t cur cur) \<or>
    (\<exists>e. r = Err e \<and> (log_holds t dur cur \<or> log_holds t cur cur \<and> wal_broken (the_wal t)))"
proof -
  from h obtain es bs where rel: "wal_rel (the_wal s) es bs" and v: "dur = db_view (durable_part es) (data_file s)"
    "cur = db_view (es @ map ETxn bs) (data_file s)" by (auto simp: log_holds_def)
  let ?fs = "es @ map ETxn bs @ [EDurable]"
  consider (broken) "wal_broken (the_wal s)" | (clean) "\<not> wal_broken (the_wal s)" "\<not> wal_dirty (the_wal s)"
    | (dirty) "\<not> wal_broken (the_wal s)" "wal_dirty (the_wal s)" by blast
  then show ?thesis
  proof cases
    case broken
    then have "r = Err BrokenLog" "t = s" using r by (simp_all add: durable_point_def refuse_if_broken_def effects)
    then show ?thesis using h by blast
  next
    case clean
    then have "r = Ok ()" "t = s" using r by (simp_all add: durable_point_def refuse_if_broken_def effects)
    moreover have "dur = cur" using rel clean v by (simp add: wal_rel_def tail_Nil)
    ultimately show ?thesis using h by blast
  next
    case dirty
    obtain q u where q: "write_durable s = (q, u)" by force
    note wd = write_durable_cases [OF rel q refl]
    have tl: "tail_part ?fs = []" using tail_part_append(1) [of "es @ map ETxn bs"] by simp
    have cur: "cur = db_view ?fs (data_file u)" using v wd by (simp add: db_view_durable)
    have u_cur: "log_holds u cur cur" if "wal_rel (the_wal u) ?fs []"
      unfolding log_holds_def using that cur tail_Nil [OF tl] by (intro exI [of _ ?fs] exI [of _ "[]"]) simp
    have u_dur: "log_holds u dur cur" if "wal_rel (the_wal u) es bs"
      unfolding log_holds_def using that v wd by auto
    show ?thesis
    proof (cases q)
      case (Ok x)
      then have relu: "wal_rel (the_wal u) ?fs []" using wd by simp
      obtain c z where c: "checkpoint u = (c, z)" by force
      note hz = checkpoint_holds [OF relu tl c, folded cur]
      show ?thesis using r dirty q Ok u_cur [OF relu] hz c
        by (cases c) (auto simp: durable_point_eq refuse_if_broken_def catchS_def effects split: if_splits)
    next
      case (Err e)
      then have "r = Err e" "t = u" using r dirty q by (simp_all add: durable_point_eq refuse_if_broken_def effects)
      then show ?thesis using wd Err u_cur u_dur by auto
    next
      case Panic
      then show ?thesis using wd by simp
    qed
  qed
qed

lemma read_page_holds:
  assumes h: "log_holds s dur cur" and r: "wal_read_page p s = (Ok b, t)"
  shows "snd cur p = (case b of Some img \<Rightarrow> img | None \<Rightarrow> page_at (data_file s) p)"
proof -
  from h obtain es bs where rel: "wal_rel (the_wal s) es bs" and v: "cur = db_view (es @ map ETxn bs) (data_file s)"
    by (auto simp: log_holds_def)
  have "b = image_of es p"
  proof (cases s rule: outcomes_cases)
    case 1
    from read_page_image [OF rel this, of p] r show ?thesis by auto
  next
    case 2
    then show ?thesis using r images_of_rel [OF rel, of p]
      by (auto simp: wal_read_page_def read_log_def io_step_def next_io_def effects split: option.splits)
  qed
  then show ?thesis using v by (simp add: db_view_def view_page_def split: option.split)
qed

section \<open>Recovery\<close>

lemma whole_prefix: "length (enc_log ds) \<le> n \<Longrightarrow> whole n (ds @ fs) = ds @ whole (n - length (enc_log ds)) fs"
  by (induction ds arbitrary: n) (auto simp: diff_diff_eq)

lemma whole_subset: "set (whole n es) \<subseteq> set es"
  by (induction n es rule: whole.induct) auto

lemma durable_part_idem: "durable_part (durable_part es) = durable_part es"
proof -
  have "dropWhile P (dropWhile P xs) = dropWhile P xs" for P and xs :: "entry list" by (induction xs) simp_all
  then show ?thesis by (simp add: durable_part_def)
qed

lemma durable_whole:
  assumes "length (enc_log (durable_part es)) \<le> n"
  shows "durable_part (whole n es) = durable_part es"
proof -
  let ?m = "n - length (enc_log (durable_part es))"
  have w: "whole n es = durable_part es @ whole ?m (tail_part es)"
    using whole_prefix [OF assms, of "tail_part es"] by (simp add: durable_parts)
  have "\<forall>e \<in> set (tail_part es). e \<noteq> EDurable" by (auto simp: tail_part_def dest: set_takeWhileD)
  then have "\<forall>e \<in> set (whole ?m (tail_part es)). e \<noteq> EDurable" using whole_subset by blast
  then have "durable_part (whole n es) = durable_part (durable_part es)" unfolding w by (rule durable_part_more)
  then show ?thesis by (simp add: durable_part_idem)
qed

lemma whole_take: "\<exists>rest. take n (enc_log es) = enc_log (whole n es) @ rest"
  by (induction n es rule: whole.induct) auto

lemma torn_prefix: "\<exists>rest. take n (enc_log es) = enc_log (durable_part (whole n es)) @ rest"
proof -
  from whole_take obtain rest where "take n (enc_log es) = enc_log (whole n es) @ rest" by blast
  moreover have "enc_log (whole n es) = enc_log (durable_part (whole n es)) @ enc_log (tail_part (whole n es))"
    by (metis durable_parts enc_log_simps(3))
  ultimately show ?thesis by auto
qed

lemma durable_subset: "set (durable_part es) \<subseteq> set es"
  by (auto simp: durable_part_def dest: set_dropWhileD)

lemma torn_replay:
  assumes wf: "\<forall>e \<in> set es. wf_entry e" and ds: "ds = durable_part (whole n es)" and f: "f = log_header @ take n (enc_log es)"
  shows "\<exists>pages. wal_replay (Some f) = Ok (txns_of ds, pages) \<and> distinct (map fst pages) \<and>
    (\<forall>p. image_of ds p = map_option (\<lambda>off. sub f off PAGE_SIZE) (map_of pages p)) \<and>
    (\<forall>p off. map_of pages p = Some off \<longrightarrow> off + PAGE_SIZE \<le> length f)"
proof -
  let ?R = "replay_entries (whole n es) LOG_HEADER_LEN empty_replay"
  note st = replay_entries_state [of "whole n es" LOG_HEADER_LEN]
  have rp: "wal_replay (Some f) = Ok (txns_of ds, durable_pages ?R)"
    using st by (simp add: f replay_header replay_from_cut [OF wf] Let_def ds)
  from torn_prefix obtain rest where rest: "take n (enc_log es) = enc_log ds @ rest" unfolding ds by blast
  have wfd: "\<forall>e \<in> set ds. wf_entry e" using wf durable_subset whole_subset unfolding ds by blast
  have img: "image_of ds p = map_option (\<lambda>off. sub f off PAGE_SIZE) (map_of (durable_pages ?R) p) \<and>
    (\<forall>off. map_of (durable_pages ?R) p = Some off \<longrightarrow> off + PAGE_SIZE \<le> length f)" for p
  proof (cases "map_of (durable_pages ?R) p")
    case None
    then show ?thesis using st offset_of_image_None [of LOG_HEADER_LEN ds p] by (simp add: ds)
  next
    case (Some off)
    then have "offset_of_image (length log_header) ds p = Some off" using st by (simp add: ds)
    from image_at_offset [OF wfd this, of rest] Some show ?thesis by (auto simp: f rest)
  qed
  then show ?thesis using rp st by (intro exI [of _ "durable_pages ?R"]) blast
qed


definition loaded_wal :: "bytes \<Rightarrow> (PageId \<times> nat) list \<Rightarrow> open_txns \<Rightarrow> Wal" where
  "loaded_wal f pages opened = \<lparr>wal_file = f, wal_end = 0, wal_buffered = [], wal_pages = pages, wal_dirty = False,
     wal_open_txns = opened, wal_checkpoint_bytes = CHECKPOINT_LOG_BYTES, wal_broken = False\<rparr>"

lemma wal_open_loaded:
  assumes "wal_replay file = Ok (recs, pages)" "\<forall>r \<in> set recs. wf_entry (ETxn r)" "f = (case file of None \<Rightarrow> [] | Some b \<Rightarrow> b)"
  shows "wal_open file data ios =
    (case ios of
       Fails _ # os \<Rightarrow> (Err IoFailed, \<lparr>the_wal = loaded_wal f [] [], data_file = data, outcomes = os\<rparr>)
     | _ \<Rightarrow>
       (case checkpoint \<lparr>the_wal = loaded_wal f pages (enc_open (open_recs recs)), data_file = data, outcomes = tl ios\<rparr> of
          (Ok _, t) \<Rightarrow> (Ok \<lparr>pages_replayed = length pages, unfinished = map (\<lambda>(t, l). txn_summary t l) (open_recs recs)\<rparr>, t)
        | (Err e, t) \<Rightarrow> (Err e, t)
        | (Panic, t) \<Rightarrow> (Panic, t)))"
proof -
  have tr: "foldR (\<lambda>rec opened. track_open_txn opened rec) recs [] = Ok (enc_open (open_recs recs))"
    using track_all [OF assms(2), of "[]"] by (simp add: enc_open_def open_recs_def)
  have un: "bt_values (foldl (\<lambda>m rec. recover_record rec m) [] recs) = map (\<lambda>(t, l). txn_summary t l) (open_recs recs)"
    by (simp add: recover_summary bt_values_def comp_def case_prod_beta)
  note unf = wal_open_def assms(1) assms(3) [symmetric] Let_def effects tr un io_step_def next_io_def upd_wal_def loaded_wal_def
  show ?thesis
  proof (cases ios)
    case Nil
    then show ?thesis by (simp add: unf split: prod.split result.split)
  next
    case (Cons i os)
    then show ?thesis by (cases i) (simp_all add: unf split: prod.split result.split)
  qed
qed

text \<open>The length of a data file that holds every page a page id can name.\<close>

definition full_data :: nat where
  "full_data = 4294967295 * PAGE_SIZE"

lemma page_end: "valid_page_id p \<Longrightarrow> unat (PageId_get p) * PAGE_SIZE + PAGE_SIZE \<le> full_data"
proof -
  assume "valid_page_id p"
  then have "unat (PageId_get p) \<le> 4294967294"
    by (simp add: valid_page_id_def less_eq_PageId_def PageId_MAX_def word_le_nat_alt PageId_get_def)
  then show ?thesis by (simp add: full_data_def PAGE_SIZE_def)
qed

lemma write_within:
  "off + PAGE_SIZE \<le> full_data \<Longrightarrow> length d \<le> PAGE_SIZE \<Longrightarrow> length f \<le> full_data \<Longrightarrow> length (file_write f off d) \<le> full_data"
  by (simp add: file_write_length)

lemma copy_pages_length:
  assumes "forS copy_page ps s = (r, t)" "\<forall>(p, off) \<in> set ps. valid_page_id p" "length (data_file s) \<le> full_data"
  shows "length (data_file t) \<le> full_data"
  using assms
proof (induction ps arbitrary: s)
  case (Cons x ps)
  obtain p off where x: "x = (p, off)" by force
  obtain q u where q: "copy_page (p, off) s = (q, u)" by force
  have "valid_page_id p" using Cons(3) x by simp
  from page_end [OF this] have u: "length (data_file u) \<le> full_data" using q Cons(4)
    by (auto simp: copy_page_def read_log_def io_step_def next_io_def write_data_def effects write_within sub_def
      split: prod.splits io.splits list.splits if_splits)
  show ?case using Cons(1) [of u] Cons(2,3) q x u by (cases q) (auto simp: effects)
qed (auto simp: effects)

lemma checkpoint_length:
  assumes "checkpoint s = (r, t)" "\<forall>(p, off) \<in> set (wal_pages (the_wal s)). valid_page_id p" "length (data_file s) \<le> full_data"
  shows "length (data_file t) \<le> full_data"
  using checkpoint_shape [OF assms(1)] copy_pages_length [OF _ assms(2,3)] by metis

lemma image_valid: "\<forall>e \<in> set es. wf_entry e \<Longrightarrow> image_of es p \<noteq> None \<Longrightarrow> valid_page_id p"
  by (induction es p rule: image_of.induct) (auto split: option.splits if_splits)

lemma open_torn:
  assumes wf: "\<forall>e \<in> set es. wf_entry e" and ds: "ds = durable_part (whole n es)" and f: "f = log_header @ take n (enc_log es)"
    and r: "wal_open (Some f) data ios = (r, t)" and v: "v = db_view ds data"
  shows "(\<exists>rec. r = Ok rec \<and> unfinished rec = map (\<lambda>(t, l). txn_summary t l) (fst v) \<and> log_holds t v v \<and>
      (\<forall>p. has_page data p \<or> image_of ds p \<noteq> None \<longrightarrow> has_page (data_file t) p) \<and>
      (length data \<le> full_data \<longrightarrow> length (data_file t) \<le> full_data)) \<or>
    (\<exists>e. r = Err e \<and> (log_holds t v v \<or> wal_file (the_wal t) = f \<and> db_view ds (data_file t) = v))"
proof -
  from torn_replay [OF wf ds f] obtain pages where rp: "wal_replay (Some f) = Ok (txns_of ds, pages)" and d: "distinct (map fst pages)"
    and img: "\<And>p. image_of ds p = map_option (\<lambda>off. sub f off PAGE_SIZE) (map_of pages p)" by blast
  have wfd: "\<forall>e \<in> set ds. wf_entry e" using wf durable_subset whole_subset unfolding ds by blast
  let ?op = "enc_open (open_recs (txns_of ds))"
  let ?w = "loaded_wal f pages ?op"
  let ?s = "\<lparr>the_wal = ?w, data_file = data, outcomes = tl ios\<rparr>"
  note op = wal_open_loaded [OF rp txns_wf [OF wfd] refl, of data ios, simplified]
  obtain c u where c: "checkpoint ?s = (c, u)" by force
  have d': "distinct (map fst (wal_pages (the_wal ?s)))" using d by (simp add: loaded_wal_def)
  have img': "image_of ds p = map_option (\<lambda>off. sub (wal_file (the_wal ?s)) off PAGE_SIZE) (map_of (wal_pages (the_wal ?s)) p)" for p
    using img by (simp add: loaded_wal_def)
  note cp = checkpoint_pages [OF c d' img']
  have "valid_page_id p" if "(p, off) \<in> set pages" for p off
    using map_of_is_SomeI [OF d that] img [of p] image_valid [OF wfd, of p] by simp
  then have valid: "\<forall>(p, off) \<in> set pages. valid_page_id p" by blast
  have same: "db_view ds (data_file u) = v" using cp by (auto simp: v db_view_def)
  have fr: "wal_rel (fresh_wal ?w) (fresh_entries (txns_of ds)) []"
    using txns_wf [OF wfd] by (intro fresh_wal_rel) (simp add: loaded_wal_def)
  have holds: "log_holds u v v" if "the_wal u \<noteq> ?w" "the_wal u \<noteq> ?w\<lparr>wal_broken := True\<rparr>"
  proof -
    have "wal_rel (the_wal u) (fresh_entries (txns_of ds)) []" using cp that fr wal_rel_broken by auto
    moreover have "page_at (data_file u) = snd v" using cp that by (auto simp: v db_view_def)
    ultimately show ?thesis unfolding log_holds_def
      by (intro exI [of _ "fresh_entries (txns_of ds)"] exI [of _ "[]"]) (simp add: durable_fresh db_view_fresh, simp add: v db_view_def)
  qed
  have neq: "fresh_wal ?w \<noteq> ?w" "fresh_wal ?w \<noteq> ?w\<lparr>wal_broken := True\<rparr>"
    using log_header_pos by (auto simp: fresh_wal_def loaded_wal_def Let_def dest: arg_cong [where f = wal_end])
  show ?thesis
  proof (cases "\<exists>k os. ios = Fails k # os")
    case True
    then show ?thesis using r op v by (auto simp: loaded_wal_def)
  next
    case False
    then have eq: "wal_open (Some f) data ios = (case (c, u) of
          (Ok _, t) \<Rightarrow> (Ok \<lparr>pages_replayed = length pages, unfinished = map (\<lambda>(t, l). txn_summary t l) (open_recs (txns_of ds))\<rparr>, t)
        | (Err e, t) \<Rightarrow> (Err e, t) | (Panic, t) \<Rightarrow> (Panic, t))"
      using op c by (auto split: list.splits io.splits)
    have kept: "wal_file (the_wal u) = f" if "the_wal u = ?w \<or> the_wal u = ?w\<lparr>wal_broken := True\<rparr>"
      using that by (auto simp: loaded_wal_def)
    show ?thesis
    proof (cases c)
      case (Ok x)
      then have "the_wal u = fresh_wal ?w" using cp by simp
      then have "log_holds u v v" using holds neq by simp
      moreover have "\<forall>p. has_page data p \<or> image_of ds p \<noteq> None \<longrightarrow> has_page (data_file u) p"
        using cp neq \<open>the_wal u = fresh_wal ?w\<close> by auto
      moreover have "length data \<le> full_data \<longrightarrow> length (data_file u) \<le> full_data"
        using checkpoint_length [OF c] valid by (simp add: loaded_wal_def)
      ultimately show ?thesis using r Ok eq by (auto simp: v db_view_def)
    next
      case (Err e)
      then have "r = Err e" "t = u" using r eq by simp_all
      then show ?thesis using holds same kept by blast
    next
      case Panic
      then show ?thesis using cp by simp
    qed
  qed
qed

lemma copy_pages_done:
  assumes "\<forall>(p, off) \<in> set ps. off + PAGE_SIZE \<le> length (wal_file (the_wal s))" "outcomes s = []"
  shows "\<exists>f. forS copy_page ps s = (Ok (), s\<lparr>data_file := f\<rparr>)"
  using assms
proof (induction ps arbitrary: s)
  case Nil
  show ?case by (rule exI [of _ "data_file s"]) (simp add: effects)
next
  case (Cons x ps)
  obtain p off where x: "x = (p, off)" by force
  let ?u = "s\<lparr>data_file := file_write (data_file s) (unat (PageId_get p) * PAGE_SIZE) (sub (wal_file (the_wal s)) off PAGE_SIZE)\<rparr>"
  have "copy_page x s = (Ok (), ?u)" using Cons(2,3) x
    by (auto simp: copy_page_def read_log_def io_step_def next_io_def write_data_def effects)
  then show ?case using Cons(1) [of ?u] Cons(2,3) by (auto simp: effects)
qed

lemma open_torn_succeeds:
  assumes wf: "\<forall>e \<in> set es. wf_entry e" and f: "f = log_header @ take n (enc_log es)"
  shows "\<exists>rec t. wal_open (Some f) data [] = (Ok rec, t) \<and> outcomes t = []"
proof -
  let ?ds = "durable_part (whole n es)"
  from torn_replay [OF wf refl f] obtain pages where rp: "wal_replay (Some f) = Ok (txns_of ?ds, pages)" and d: "distinct (map fst pages)"
    and off: "\<And>p off. map_of pages p = Some off \<Longrightarrow> off + PAGE_SIZE \<le> length f" by blast
  have wfd: "\<forall>e \<in> set ?ds. wf_entry e" using wf durable_subset whole_subset by blast
  let ?s = "\<lparr>the_wal = loaded_wal f pages (enc_open (open_recs (txns_of ?ds))), data_file = data, outcomes = []\<rparr>"
  have "\<forall>(p, off) \<in> set pages. off + PAGE_SIZE \<le> length f" using off d by auto
  then obtain g where "forS copy_page pages ?s = (Ok (), ?s\<lparr>data_file := g\<rparr>)"
    using copy_pages_done [of pages ?s] by (auto simp: loaded_wal_def)
  then have "\<exists>t. checkpoint ?s = (Ok (), t) \<and> outcomes t = []"
    by (simp add: checkpoint_def wal_sync_def io_step_def next_io_def upd_wal_def fresh_log_eq effects loaded_wal_def)
  then show ?thesis using wal_open_loaded [OF rp txns_wf [OF wfd] refl, of data "[]"] by auto
qed

end
