(* ===== verification/Wal_Recovery.thy ===== *)
theory Wal_Recovery
  imports Wal_Correct
begin

text \<open>
  The contract of the write-ahead log, recovery from a log cut off anywhere, and the transactions recovery hands back.
\<close>


text \<open>The image an undo record carries, for the record id it is about.\<close>

fun undo_entry :: "TxnRecord \<Rightarrow> (RecordId \<times> UndoImage) option" where
  "undo_entry (Undo _ rid meta data) = Some (rid, \<lparr>ui_meta = meta, ui_data = data\<rparr>)"
| "undo_entry _ = None"

definition undo_images :: "TxnRecord list \<Rightarrow> (RecordId \<times> UndoImage) list" where
  "undo_images l = List.map_filter undo_entry l"

lemma undo_images_simps [simp]: "undo_images [] = []" "undo_images (l @ l') = undo_images l @ undo_images l'"
  "undo_images [r] = (case undo_entry r of None \<Rightarrow> [] | Some e \<Rightarrow> [e])"
  by (auto simp: undo_images_def map_filter_def split: option.split)

lemma txn_summary_images: "txn_summary t l = \<lparr>rt_id = t, rt_undo = map_of (undo_images l)\<rparr>"
proof (induction l rule: rev_induct)
  case (snoc r l)
  have "txn_summary t (l @ [r]) = undo_summary (txn_summary t l) r" by (simp add: txn_summary_def)
  then show ?case unfolding snoc
    by (cases r) (auto simp: undo_summary_def map_add_def fun_eq_iff split: option.split)
qed (simp add: txn_summary_def)


lemma new_log_holds: "log_holds (snd (wal_open None data [])) ([], page_at data) ([], page_at data)"
proof -
  have rp: "wal_replay None = Ok ([], [])" by (simp add: wal_replay_def)
  let ?s = "\<lparr>the_wal = loaded_wal [] [] [], data_file = data, outcomes = []\<rparr>"
  have "checkpoint ?s = (Ok (), ?s\<lparr>the_wal := fresh_wal (the_wal ?s)\<rparr>)"
    by (simp add: checkpoint_def wal_sync_def io_step_def next_io_def upd_wal_def fresh_log_eq effects loaded_wal_def fresh_wal_def Let_def)
  then have o: "snd (wal_open None data []) = ?s\<lparr>the_wal := fresh_wal (the_wal ?s)\<rparr>"
    using wal_open_loaded [OF rp, of "[]" data "[]"] by (simp add: open_recs_def enc_open_def)
  have "wal_rel (fresh_wal (loaded_wal [] [] [])) (fresh_entries []) []"
    by (rule fresh_wal_rel) (simp_all add: loaded_wal_def open_recs_def enc_open_def)
  then show ?thesis unfolding o log_holds_def
    by (intro exI [of _ "fresh_entries []"] exI [of _ "[]"]) (simp add: durable_fresh db_view_fresh open_recs_def)
qed




text \<open>C22. Recovery hands back exactly the transactions that logged a record and no end after it, each with, for every
  slot it replaced, the version before its first write.\<close>

theorem unfinished_transactions:
  "map_of (foldl (\<lambda>m rec. recover_record rec m) [] rs) t =
     (if pending rs t = [] then None else Some \<lparr>rt_id = t, rt_undo = map_of (undo_images (pending rs t))\<rparr>) \<and>
   (End t \<notin> set rs \<longrightarrow> pending rs t = filter (\<lambda>r. rec_txn r = t) rs)"
proof -
  have "map_of (map (\<lambda>(t, l). (t, txn_summary t l)) m) t = map_option (txn_summary t) (map_of m t)" for m
    by (induction m) auto
  then have "map_of (foldl (\<lambda>m rec. recover_record rec m) [] rs) t = map_option (txn_summary t) (map_of (open_recs rs) t)"
    by (simp add: recover_summary)
  moreover have "End t \<notin> set rs \<longrightarrow> pending rs t = filter (\<lambda>r. rec_txn r = t) rs"
  proof (induction rs rule: rev_induct)
    case (snoc r rs)
    then show ?case by (cases r) (auto simp: pending_snoc)
  qed (simp add: pending_def)
  ultimately show ?thesis by (simp add: open_recs_lookup txn_summary_images)
qed

theorem unfinished_transactions_witness:
  "End 7 \<notin> set [Writes 7, End 8] \<and> pending [Writes 7, End 8] 7 = filter (\<lambda>r. rec_txn r = 7) [Writes 7, End 8]"
  using unfinished_transactions [of "[Writes 7, End 8]" 7] by simp

end
