(* ===== verification/Disk.thy ===== *)
theory Disk
  imports Wal_Recovery
begin

text \<open>
  The disk manager and the disk scheduler of \<open>src/src/disk.rs\<close>: pages in a data file, behind the write-ahead log or not, and
  the worker that serves requests in order.
\<close>


section \<open>The disk manager\<close>

record PageStore =
  db_file :: bytes
  live :: "PageId set"
  wal :: "Wal option"

record DiskManager =
  num_writes :: u32
  store :: PageStore
  ios :: "io list"

type_synonym 'a disk_op = "(DiskManager, IoError, 'a) sm"

definition offset_of :: "PageId \<Rightarrow> nat" where
  "offset_of pid = unat (PageId_get pid) * PAGE_SIZE"

text \<open>The next file operation on the data file, and an operation of the log on the log, the data file and what the file
  operations do.\<close>

definition disk_io :: "io disk_op" where
  "disk_io = (\<lambda>d. case ios d of [] \<Rightarrow> (Ok Done, d) | f # fs \<Rightarrow> (Ok f, d\<lparr>ios := fs\<rparr>))"

definition disk_step :: "unit disk_op" where
  "disk_step = bindS disk_io (\<lambda>r. case r of Done \<Rightarrow> returnS () | Fails _ \<Rightarrow> raiseS IoFailed)"

definition upd_store :: "(PageStore \<Rightarrow> PageStore) \<Rightarrow> unit disk_op" where
  "upd_store g = modS (store_update g)"

definition log_env :: "DiskManager \<Rightarrow> Wal \<Rightarrow> LogEnv" where
  "log_env d w = \<lparr>the_wal = w, data_file = db_file (store d), outcomes = ios d\<rparr>"

definition on_wal :: "Wal \<Rightarrow> 'a log_op \<Rightarrow> 'a disk_op" where
  "on_wal w op = (\<lambda>d. case op (log_env d w) of
     (r, e) \<Rightarrow> (r, d\<lparr>store := (store d)\<lparr>db_file := data_file e, wal := Some (the_wal e)\<rparr>, ios := outcomes e\<rparr>))"

definition live_offset :: "PageStore \<Rightarrow> PageId \<Rightarrow> (IoError, nat) result" where
  "live_offset s pid = (if pid \<in> live s then Ok (offset_of pid) else Err (PageMissing pid))"

fun page_ids :: "nat list \<Rightarrow> (IoError, PageId list) result" where
  "page_ids [] = Ok []"
| "page_ids (i # is) =
     (case try_from_u64 (word_of_nat i) of
        Ok pid \<Rightarrow> bindR (page_ids is) (\<lambda>ps. Ok (pid # ps))
      | Err e \<Rightarrow> Err (InvalidData e)
      | Panic \<Rightarrow> Panic)"

definition live_pages :: "bytes \<Rightarrow> (IoError, PageId set) result" where
  "live_pages f = bindR (page_ids [0..<length f div PAGE_SIZE]) (\<lambda>ps. Ok (set ps))"

definition with_store :: "PageStore \<Rightarrow> io list \<Rightarrow> DiskManager" where
  "with_store s os = \<lparr>num_writes = 0, store = s, ios = os\<rparr>"

text \<open>Opening: the contents of the data file (and of the log, if there is one), and the manager it gives. The files are
  opened and created first, and the length of the data file is read after the log is replayed into it.\<close>

definition DiskManager_new :: "bytes \<Rightarrow> io list \<Rightarrow> (IoError, unit) result \<times> DiskManager" where
  "DiskManager_new file os =
     bindS disk_step (\<lambda>_. bindS disk_step (\<lambda>_. bindS disk_step (\<lambda>_.
     bindS (liftS (live_pages file)) (\<lambda>l. upd_store (\<lambda>s. s\<lparr>live := l\<rparr>)))))
     (with_store \<lparr>db_file = file, live = {}, wal = None\<rparr> os)"

definition open_logged :: "bytes \<Rightarrow> bytes option \<Rightarrow> io list \<Rightarrow> (IoError, Recovery) result \<times> DiskManager" where
  "open_logged file log os =
     bindS disk_step (\<lambda>_.
     bindS (\<lambda>d. case wal_open log (db_file (store d)) (ios d) of
              (r, e) \<Rightarrow> (r, d\<lparr>store := (store d)\<lparr>db_file := data_file e, wal := Some (the_wal e)\<rparr>, ios := outcomes e\<rparr>)) (\<lambda>recovery.
     bindS disk_step (\<lambda>_.
     bindS (getS (\<lambda>d. db_file (store d))) (\<lambda>f.
     bindS (liftS (live_pages f)) (\<lambda>l.
     bindS (upd_store (\<lambda>s. s\<lparr>live := l\<rparr>)) (\<lambda>_. returnS recovery))))))
     (with_store \<lparr>db_file = file, live = {}, wal = None\<rparr> os)"

definition dm_log_txn :: "TxnRecord \<Rightarrow> unit disk_op" where
  "dm_log_txn rec =
     bindS (getS (\<lambda>d. wal (store d))) (\<lambda>w. case w of Some w \<Rightarrow> on_wal w (log_txn rec) | None \<Rightarrow> returnS ())"

definition read_data :: "nat \<Rightarrow> bytes disk_op" where
  "read_data off =
     bindS disk_step (\<lambda>_. bindS (getS (\<lambda>d. db_file (store d))) (\<lambda>f.
     if off + PAGE_SIZE \<le> length f then returnS (sub f off PAGE_SIZE) else raiseS UnexpectedEof))"

definition dm_read_page :: "PageId \<Rightarrow> bytes disk_op" where
  "dm_read_page pid =
     bindS (getS store) (\<lambda>s.
     bindS (liftS (live_offset s pid)) (\<lambda>offset.
     bindS (case wal s of Some w \<Rightarrow> on_wal w (wal_read_page pid) | None \<Rightarrow> returnS None) (\<lambda>logged.
     case logged of
       Some buf \<Rightarrow> returnS buf
     | None \<Rightarrow> read_data offset)))"

definition data_write :: "nat \<Rightarrow> bytes \<Rightarrow> unit disk_op" where
  "data_write off b =
     bindS disk_io (\<lambda>r. case r of
       Done \<Rightarrow> upd_store (\<lambda>s. s\<lparr>db_file := file_write (db_file s) off b\<rparr>)
     | Fails n \<Rightarrow> bindS (upd_store (\<lambda>s. s\<lparr>db_file := file_write (db_file s) off (take n b)\<rparr>)) (\<lambda>_. raiseS IoFailed))"

definition count_write :: "PageId \<Rightarrow> unit disk_op" where
  "count_write pid =
     bindS (upd_store (\<lambda>s. s\<lparr>live := insert pid (live s)\<rparr>)) (\<lambda>_. modS (\<lambda>d. d\<lparr>num_writes := num_writes d + 1\<rparr>))"

definition dm_write_page :: "PageId \<Rightarrow> bytes \<Rightarrow> bytes disk_op" where
  "dm_write_page pid b =
     bindS (getS (\<lambda>d. wal (store d))) (\<lambda>w.
     let offset = offset_of pid in
     case w of
       Some w \<Rightarrow> bindS (on_wal w (log_page pid b)) (\<lambda>_. bindS (count_write pid) (\<lambda>_. returnS b))
     | None \<Rightarrow> bindS (data_write offset b) (\<lambda>_. bindS (count_write pid) (\<lambda>_. returnS b)))"

definition deallocate_page :: "PageId \<Rightarrow> bool disk_op" where
  "deallocate_page pid =
     bindS (getS (\<lambda>d. pid \<in> live (store d))) (\<lambda>freed.
     bindS (upd_store (\<lambda>s. s\<lparr>live := live s - {pid}\<rparr>)) (\<lambda>_. returnS freed))"

definition dm_sync :: "unit disk_op" where
  "dm_sync = bindS (getS (\<lambda>d. wal (store d))) (\<lambda>w. case w of Some _ \<Rightarrow> returnS () | None \<Rightarrow> disk_step)"

definition make_durable :: "unit disk_op" where
  "make_durable = bindS (getS (\<lambda>d. wal (store d))) (\<lambda>w. case w of Some w \<Rightarrow> on_wal w durable_point | None \<Rightarrow> disk_step)"

section \<open>The disk scheduler\<close>

text \<open>A request with the number of the promise that waits for its answer. The worker thread takes requests in the order
  they were sent; \<open>answers\<close> are the promises it kept, oldest first. No page operation panics, so the worker only ends when
  the sending side is dropped and every request is served, and a send never finds the channel closed.\<close>

record DiskRequest =
  rq_page_id :: PageId
  is_write :: bool
  rq_data :: bytes
  promise :: nat

record DiskScheduler =
  tx :: bool
  requests :: "DiskRequest list"
  dm :: DiskManager
  answers :: "(nat \<times> (IoError, bytes) result) list"

datatype DiskSchedulerError = Shutdown | ChannelClosed DiskRequest | WorkerPanicked

definition DiskScheduler_new :: "DiskManager \<Rightarrow> DiskScheduler" where
  "DiskScheduler_new d = \<lparr>tx = True, requests = [], dm = d, answers = []\<rparr>"

definition serve :: "DiskRequest \<Rightarrow> bytes disk_op" where
  "serve req = (if is_write req then dm_write_page (rq_page_id req) (rq_data req) else dm_read_page (rq_page_id req))"

fun worker_step :: "DiskScheduler \<Rightarrow> DiskScheduler option" where
  "worker_step s =
     (case requests s of
        [] \<Rightarrow> None
      | req # rest \<Rightarrow>
          (case serve req (dm s) of
             (r, d) \<Rightarrow> Some (s\<lparr>requests := rest, dm := d, answers := answers s @ [(promise req, r)]\<rparr>)))"

definition schedule :: "DiskRequest list \<Rightarrow> (DiskScheduler, DiskSchedulerError, unit) sm" where
  "schedule reqs =
     bindS (getS tx) (\<lambda>open.
     if \<not> open then raiseS Shutdown else modS (\<lambda>s. s\<lparr>requests := requests s @ reqs\<rparr>))"

function run_worker :: "DiskScheduler \<Rightarrow> DiskScheduler" where
  "run_worker s = (case worker_step s of None \<Rightarrow> s | Some t \<Rightarrow> run_worker t)"
  by auto
termination
  by (relation "measure (\<lambda>s. length (requests s))") (auto split: list.splits prod.splits)

declare run_worker.simps [simp del] worker_step.simps [simp del]

definition scheduler_shutdown :: "(DiskScheduler, DiskSchedulerError, unit) sm" where
  "scheduler_shutdown = (\<lambda>s. (Ok (), run_worker (s\<lparr>tx := False\<rparr>)))"

end
