(* ===== verification/Disk_Correct.thy ===== *)
theory Disk_Correct
  imports Disk
begin

text \<open>
  Correctness of the disk manager: a map from page ids to bytes, kept across crashes by the log.
\<close>


text \<open>A page that can be read: its image is in the log, or the data file has all of it.\<close>

definition stored :: "LogEnv \<Rightarrow> PageId \<Rightarrow> bool" where
  "stored e p \<longleftrightarrow> map_of (wal_pages (the_wal e)) p \<noteq> None \<or> has_page (data_file e) p"

definition disk_rel :: "DiskManager \<Rightarrow> (PageId \<rightharpoonup> bytes) \<Rightarrow> bool" where
  "disk_rel d M \<longleftrightarrow> dom M = live (store d) \<and>
     (case wal (store d) of
        None \<Rightarrow> \<forall>p \<in> live (store d). has_page (db_file (store d)) p \<and> M p = Some (page_at (db_file (store d)) p)
      | Some w \<Rightarrow> \<exists>dur cur. log_holds (log_env d w) dur cur \<and>
          (\<forall>p \<in> live (store d). stored (log_env d w) p \<and> M p = Some (snd cur p)))"

lemma log_holds_outcomes [simp]: "log_holds (e\<lparr>outcomes := os\<rparr>) dur cur = log_holds e dur cur"
  by (simp add: log_holds_def)

lemma stored_outcomes [simp]: "stored (e\<lparr>outcomes := os\<rparr>) p = stored e p"
  by (simp add: stored_def)

lemma write_out_pages: "write_out_with k pl s = (r, t) \<Longrightarrow> wal_pages (the_wal t) = wal_pages (the_wal s) \<and> data_file t = data_file s"
  by (auto simp: write_out_with_def write_log_def next_io_def upd_wal_def catchS_def effects Let_def
      split: list.splits io.splits result.splits)

lemma log_page_stored:
  assumes "log_page p b s = (r, t)"
  shows "(stored s q \<longrightarrow> stored t q) \<and> (r = Ok () \<longrightarrow> stored t p)"
proof -
  obtain x u where x: "write_out_with KIND_PAGE (to_le_bytes (ucast (PageId_get p) :: u64) @ b) s = (x, u)" by force
  from write_out_pages [OF x] show ?thesis using assms x
    by (cases x) (auto simp: log_page_def refuse_if_broken_def upd_wal_def stored_def update_conv' effects Let_def split: if_splits)
qed

lemma checkpoint_stored:
  assumes "wal_rel (the_wal s) es bs" "checkpoint s = (r, t)" "stored s p"
  shows "stored t p"
proof -
  have d: "distinct (map fst (wal_pages (the_wal s)))" using assms(1) by (simp add: wal_rel_def)
  note cp = checkpoint_pages [OF assms(2) d images_of_rel [OF assms(1)]]
  have "image_of es p \<noteq> None" if "map_of (wal_pages (the_wal s)) p \<noteq> None"
    using images_of_rel [OF assms(1), of p] that by auto
  then show ?thesis using cp assms(3) unfolding stored_def by (cases "the_wal t = the_wal s \<or> the_wal t = the_wal s\<lparr>wal_broken := True\<rparr>") auto
qed

lemma write_durable_pages: "write_durable s = (r, t) \<Longrightarrow> wal_pages (the_wal t) = wal_pages (the_wal s) \<and> data_file t = data_file s"
proof -
  assume a: "write_durable s = (r, t)"
  obtain x u where x: "write_out_with KIND_DURABLE [] s = (x, u)" by force
  from write_out_pages [OF x] show ?thesis using a x
    by (cases x) (auto simp: write_durable_def wal_sync_def next_io_def upd_wal_def effects split: list.splits io.splits)
qed

lemma durable_point_stored:
  assumes h: "log_holds s dur cur" and r: "durable_point s = (r, t)" and st: "stored s p"
  shows "stored t p"
proof (cases "wal_broken (the_wal s) \<or> \<not> wal_dirty (the_wal s)")
  case True
  then have "t = s" using r by (cases "wal_broken (the_wal s)") (auto simp: durable_point_def refuse_if_broken_def effects)
  then show ?thesis using st by simp
next
  case False
  from h obtain es bs where rel: "wal_rel (the_wal s) es bs" by (auto simp: log_holds_def)
  obtain q u where q: "write_durable s = (q, u)" by force
  have su: "stored u p" using write_durable_pages [OF q] st by (simp add: stored_def)
  show ?thesis
  proof (cases q)
    case (Ok x)
    obtain c z where c: "checkpoint u = (c, z)" by force
    have "wal_rel (the_wal u) (es @ map ETxn bs @ [EDurable]) []" using write_durable_cases [OF rel q refl] Ok by simp
    from checkpoint_stored [OF this c su] su show ?thesis using r False q Ok c
      by (cases c) (auto simp: durable_point_eq refuse_if_broken_def catchS_def effects split: if_splits)
  qed (use su r False q in \<open>auto simp: durable_point_eq refuse_if_broken_def effects\<close>)
qed

lemma read_page_env: "wal_read_page p e = (r, t) \<Longrightarrow> the_wal t = the_wal e \<and> data_file t = data_file e \<and>
  (r = Ok None \<longrightarrow> map_of (wal_pages (the_wal e)) p = None) \<and> r \<noteq> Panic \<and> (outcomes e = [] \<longrightarrow> outcomes t = [])"
  by (auto simp: wal_read_page_def read_log_def io_step_def next_io_def effects split: option.splits list.splits io.splits if_splits)


lemma on_wal_cases:
  assumes "on_wal w op d = (r, d')"
  obtains e where "op (log_env d w) = (r, e)" "wal (store d') = Some (the_wal e)" "log_env d' (the_wal e) = e"
    "live (store d') = live (store d)" "num_writes d' = num_writes d"
proof -
  obtain x e where x: "op (log_env d w) = (x, e)" by force
  then have "r = x" "d' = d\<lparr>store := (store d)\<lparr>db_file := data_file e, wal := Some (the_wal e)\<rparr>, ios := outcomes e\<rparr>"
    using assms by (simp_all add: on_wal_def)
  with x show thesis by (intro that [of e]) (simp_all add: log_env_def)
qed

lemma disk_rel_log:
  assumes "wal (store d) = Some w" "log_holds (log_env d w) dur cur" "dom M = live (store d)"
    "\<And>p. p \<in> live (store d) \<Longrightarrow> stored (log_env d w) p \<and> M p = Some (snd cur p)"
  shows "disk_rel d M"
  unfolding disk_rel_def assms(1) option.case using assms(2,3,4) by blast

lemma disk_rel_logE:
  assumes "disk_rel d M" "wal (store d) = Some w"
  obtains dur cur where "log_holds (log_env d w) dur cur" "dom M = live (store d)"
    "\<forall>p \<in> live (store d). stored (log_env d w) p \<and> M p = Some (snd cur p)"
  using assms by (auto simp: disk_rel_def)

lemma disk_step_cases:
  "disk_step d = (r, d') \<Longrightarrow> store d' = store d \<and> num_writes d' = num_writes d \<and> r \<noteq> Panic \<and> (ios d = [] \<longrightarrow> r = Ok () \<and> ios d' = [])"
  by (auto simp: disk_step_def disk_io_def effects split: list.splits io.splits)

lemma disk_rel_store: "store d' = store d \<Longrightarrow> disk_rel d' M = disk_rel d M"
proof -
  assume s: "store d' = store d"
  then have "log_env d' w = (log_env d w)\<lparr>outcomes := ios d'\<rparr>" for w by (simp add: log_env_def)
  then show ?thesis using s by (simp add: disk_rel_def split: option.split)
qed

lemma read_data_cases:
  "read_data off d = (r, d') \<Longrightarrow> store d' = store d \<and>
     (r = Ok (sub (db_file (store d)) off PAGE_SIZE) \<or>
      (\<exists>x. r = Err x) \<and> \<not> (ios d = [] \<and> off + PAGE_SIZE \<le> length (db_file (store d))))"
  by (auto simp: read_data_def disk_step_def disk_io_def effects split: list.splits io.splits if_splits)

lemma has_page_sub: "has_page f p \<Longrightarrow> offset_of p + PAGE_SIZE \<le> length f \<and> sub f (offset_of p) PAGE_SIZE = page_at f p"
  by (simp add: page_at_has offset_of_def) (simp add: has_page_def)

lemma read_unlogged:
  assumes rel: "disk_rel d M" and w: "wal (store d) = None" and l: "p \<in> live (store d)" and r: "dm_read_page p d = (r, d')"
  shows "disk_rel d' M \<and> (r = Ok (the (M p)) \<or> (\<exists>x. r = Err x) \<and> ios d \<noteq> [])"
proof -
  have h: "has_page (db_file (store d)) p" "M p = Some (page_at (db_file (store d)) p)" using rel w l by (auto simp: disk_rel_def)
  have "read_data (offset_of p) d = (r, d')" using r w l by (simp add: dm_read_page_def live_offset_def effects)
  from read_data_cases [OF this] show ?thesis using has_page_sub [OF h(1)] h(2) rel disk_rel_store [of d' d M]
    by auto
qed

lemma read_logged:
  assumes rel: "disk_rel d M" and w: "wal (store d) = Some w" and l: "p \<in> live (store d)" and r: "dm_read_page p d = (r, d')"
  shows "disk_rel d' M \<and> (r = Ok (the (M p)) \<or> (\<exists>x. r = Err x) \<and> ios d \<noteq> [])"
proof -
  obtain dur cur where h: "log_holds (log_env d w) dur cur" and dom: "dom M = live (store d)"
    and pages': "\<forall>p \<in> live (store d). stored (log_env d w) p \<and> M p = Some (snd cur p)" by (rule disk_rel_logE [OF rel w])
  note pages = pages' [rule_format]
  obtain q d1 where q: "on_wal w (wal_read_page p) d = (q, d1)" by force
  from q obtain e where e: "wal_read_page p (log_env d w) = (q, e)" "wal (store d1) = Some (the_wal e)" "log_env d1 (the_wal e) = e"
    "live (store d1) = live (store d)" by (rule on_wal_cases)
  note env = read_page_env [OF e(1)]
  have fl: "db_file (store d1) = db_file (store d)" "the_wal e = w" "ios d1 = outcomes e"
    using env e(3) by (auto simp: log_env_def dest: arg_cong [where f = data_file] arg_cong [where f = outcomes])
  have e': "e = (log_env d w)\<lparr>outcomes := outcomes e\<rparr>" using env by (simp add: log_env_def)
  have rel1: "disk_rel d1 M" using e(2,3,4) h dom pages fl(2) e'
    by (intro disk_rel_log [of d1 w dur cur]) (simp, metis log_holds_outcomes, simp, metis stored_outcomes)
  have step: "dm_read_page p d = (case q of Ok None \<Rightarrow> read_data (offset_of p) d1 | Ok (Some b) \<Rightarrow> (Ok b, d1) | Err x \<Rightarrow> (Err x, d1) | Panic \<Rightarrow> (Panic, d1))"
    using q w l by (auto simp: dm_read_page_def live_offset_def effects split: result.split option.split)
  consider (log) b where "q = Ok (Some b)" | (data) "q = Ok None" | (err) x where "q = Err x" using env by (cases q) auto
  then show ?thesis
  proof cases
    case log
    then show ?thesis using r step rel1 read_page_holds [OF h] e(1) pages [OF l] by auto
  next
    case data
    then have hp: "has_page (db_file (store d)) p" using env pages [OF l] by (simp add: stored_def log_env_def)
    have M: "M p = Some (page_at (db_file (store d)) p)"
      using read_page_holds [OF h] e(1) data pages [OF l] by (auto simp: log_env_def)
    have "read_data (offset_of p) d1 = (r, d')" using data step r by simp
    from read_data_cases [OF this] show ?thesis
      using has_page_sub [OF hp] M rel1 disk_rel_store [of d' d1 M] env fl by (auto simp: log_env_def)
  next
    case err
    have "ios d \<noteq> []"
    proof
      assume i: "ios d = []"
      from h obtain es bs where "wal_rel w es bs" by (auto simp: log_holds_def log_env_def)
      then have "\<exists>os. wal_read_page p (log_env d w) = (Ok (image_of es p), (log_env d w)\<lparr>outcomes := os\<rparr>)"
        using i by (intro read_page_image) (simp_all add: log_env_def)
      then show False using e(1) err by auto
    qed
    then show ?thesis using err r step rel1 by auto
  qed
qed

lemma disk_read:
  assumes "disk_rel d M" "dm_read_page p d = (r, d')"
  shows "disk_rel d' M \<and> (p \<notin> dom M \<longrightarrow> r = Err (PageMissing p)) \<and>
    (p \<in> dom M \<longrightarrow> r = Ok (the (M p)) \<or> (\<exists>x. r = Err x) \<and> ios d \<noteq> [])"
proof (cases "p \<in> live (store d)")
  case True
  then show ?thesis using read_unlogged [OF assms(1) _ True assms(2)] read_logged [OF assms(1) _ True assms(2)] assms(1)
    by (cases "wal (store d)") (auto simp: disk_rel_def)
next
  case False
  then have "r = Err (PageMissing p)" "d' = d" using assms(2) by (simp_all add: dm_read_page_def live_offset_def effects)
  then show ?thesis using False assms(1) by (auto simp: disk_rel_def)
qed


lemma disk_rel_more:
  assumes "wal (store d) = Some w" "log_holds (log_env d w) dur cur" "dom M = live (store d)"
    "\<And>p. p \<in> live (store d) \<Longrightarrow> stored (log_env d w) p \<and> M p = Some (snd cur p)"
    "stored (log_env d w) q"
    "store d' = (store d)\<lparr>live := insert q (live (store d))\<rparr>"
  shows "disk_rel d' (M(q \<mapsto> snd cur q))"
proof -
  have e: "log_env d' w = (log_env d w)\<lparr>outcomes := ios d'\<rparr>" using assms(6) by (simp add: log_env_def)
  show ?thesis using assms e by (intro disk_rel_log [of d' w dur cur]) auto
qed

lemma write_logged:
  assumes rel: "disk_rel d M" and w: "wal (store d) = Some w" and wf: "wf_entry (EPage p b)" and r: "dm_write_page p b d = (r, d')"
  shows "(r = Ok b \<and> disk_rel d' (M(p \<mapsto> b))) \<or> (\<exists>e. r = Err e) \<and> disk_rel d' M"
proof -
  obtain dur cur where h: "log_holds (log_env d w) dur cur" and dom: "dom M = live (store d)"
    and pages: "\<forall>p \<in> live (store d). stored (log_env d w) p \<and> M p = Some (snd cur p)" by (rule disk_rel_logE [OF rel w])
  obtain q d1 where q: "on_wal w (log_page p b) d = (q, d1)" by force
  from q obtain e where e: "log_page p b (log_env d w) = (q, e)" "wal (store d1) = Some (the_wal e)" "log_env d1 (the_wal e) = e"
    "live (store d1) = live (store d)" by (rule on_wal_cases)
  note st = log_page_stored [OF e(1)]
  from log_page_holds [OF h wf e(1)] consider
    (ok) "q = Ok ()" "log_holds e dur (fst cur, (snd cur)(p := b))" | (err) x where "q = Err x" "log_holds e dur cur" by blast
  then show ?thesis
  proof cases
    case ok
    let ?cur = "(fst cur, (snd cur)(p := b))"
    let ?M = "\<lambda>x. if x \<in> live (store d) then Some (snd ?cur x) else None"
    have r': "r = Ok b" "store d' = (store d1)\<lparr>live := insert p (live (store d1))\<rparr>"
      using r w q ok by (auto simp: dm_write_page_def count_write_def upd_store_def effects)
    have "disk_rel d' (?M(p \<mapsto> snd ?cur p))"
      using e ok st pages r'(2) by (intro disk_rel_more [of d1 "the_wal e" dur ?cur]) (auto split: if_splits)
    moreover have "?M(p \<mapsto> snd ?cur p) = M(p \<mapsto> b)" using pages dom domIff [of _ M] by (auto simp: fun_eq_iff)
    ultimately show ?thesis using r' by simp
  next
    case err
    then have r': "r = Err x" "d' = d1" using r w q by (simp_all add: dm_write_page_def effects)
    have "disk_rel d1 M" using e err st pages dom by (intro disk_rel_log [of d1 "the_wal e" dur cur]) auto
    then show ?thesis using r' by simp
  qed
qed

lemma write_unlogged:
  assumes rel: "disk_rel d M" and w: "wal (store d) = None" and b: "length b = PAGE_SIZE" and r: "dm_write_page p b d = (r, d')"
  shows "(r = Ok b \<and> disk_rel d' (M(p \<mapsto> b))) \<or>
    (\<exists>e. r = Err e) \<and> (\<exists>M'. disk_rel d' M' \<and> dom M' = dom M \<and> (\<forall>q. q \<noteq> p \<longrightarrow> M' q = M q))"
proof -
  have pages: "dom M = live (store d)" "\<forall>p \<in> live (store d). has_page (db_file (store d)) p \<and> M p = Some (page_at (db_file (store d)) p)"
    using rel w by (simp_all add: disk_rel_def)
  let ?f = "\<lambda>c. file_write (db_file (store d)) (offset_of p) c"
  consider (ok) "ios d = [] \<or> (\<exists>os. ios d = Done # os)" | (err) n os where "ios d = Fails n # os"
    by (cases "ios d") (auto, metis io.exhaust)
  then show ?thesis
  proof cases
    case ok
    then have r': "r = Ok b" "store d' = (store d)\<lparr>db_file := ?f b, live := insert p (live (store d))\<rparr>"
      using r w by (auto simp: dm_write_page_def data_write_def disk_io_def count_write_def upd_store_def effects Let_def)
    have "disk_rel d' (M(p \<mapsto> b))" unfolding disk_rel_def using r'(2) w pages b
      by (auto simp: offset_of_def write_has write_same write_other)
    then show ?thesis using r'(1) by simp
  next
    case err
    then have r': "r = Err IoFailed" "store d' = (store d)\<lparr>db_file := ?f (take n b)\<rparr>"
      using r w by (auto simp: dm_write_page_def data_write_def disk_io_def upd_store_def effects Let_def)
    let ?M' = "\<lambda>q. if q \<in> live (store d) then Some (page_at (?f (take n b)) q) else None"
    have "disk_rel d' ?M'" unfolding disk_rel_def using r'(2) w pages by (auto simp: write_has split: if_splits)
    moreover have "\<forall>q. q \<noteq> p \<longrightarrow> ?M' q = M q" using pages b domIff [of _ M] by (auto simp: offset_of_def write_other)
    moreover have "dom ?M' = dom M" using pages by (auto split: if_splits)
    ultimately show ?thesis using r'(1) by blast
  qed
qed

lemma disk_deallocate:
  assumes "disk_rel d M"
  shows "\<exists>d'. deallocate_page p d = (Ok (p \<in> dom M), d') \<and> disk_rel d' (M(p := None))"
proof -
  let ?d = "d\<lparr>store := (store d)\<lparr>live := live (store d) - {p}\<rparr>\<rparr>"
  have dom: "dom M = live (store d)" using assms by (simp add: disk_rel_def)
  have "deallocate_page p d = (Ok (p \<in> dom M), ?d)" by (simp add: deallocate_page_def upd_store_def effects dom)
  moreover have "disk_rel ?d (M(p := None))"
  proof (cases "wal (store d)")
    case None
    then show ?thesis using assms by (auto simp: disk_rel_def)
  next
    case (Some w)
    obtain dur cur where h: "log_holds (log_env d w) dur cur"
      and pages: "\<forall>p \<in> live (store d). stored (log_env d w) p \<and> M p = Some (snd cur p)" by (rule disk_rel_logE [OF assms Some])
    have "log_env ?d w = log_env d w" by (simp add: log_env_def)
    then show ?thesis using h pages dom Some by (intro disk_rel_log [of ?d w dur cur]) auto
  qed
  ultimately show ?thesis by blast
qed

lemma disk_make_durable:
  assumes rel: "disk_rel d M" and r: "make_durable d = (r, d')"
  shows "disk_rel d' M \<and> (r = Ok () \<or> (\<exists>e. r = Err e)) \<and>
    (\<forall>w'. r = Ok () \<and> wal (store d') = Some w' \<longrightarrow> (\<exists>v. log_holds (log_env d' w') v v \<and> (\<forall>p \<in> dom M. M p = Some (snd v p) \<and> stored (log_env d' w') p)))"
proof (cases "wal (store d)")
  case None
  then have "disk_step d = (r, d')" using r by (simp add: make_durable_def effects)
  from disk_step_cases [OF this] show ?thesis using rel None disk_rel_store [of d' d M] by (cases r) auto
next
  case (Some w)
  obtain dur cur where h: "log_holds (log_env d w) dur cur" and dom: "dom M = live (store d)"
    and pages: "\<forall>p \<in> live (store d). stored (log_env d w) p \<and> M p = Some (snd cur p)" by (rule disk_rel_logE [OF rel Some])
  have "on_wal w durable_point d = (r, d')" using r Some by (simp add: make_durable_def effects)
  then obtain e where e: "durable_point (log_env d w) = (r, e)" "wal (store d') = Some (the_wal e)" "log_env d' (the_wal e) = e"
    "live (store d') = live (store d)" by (rule on_wal_cases)
  have st: "stored (log_env d w) p \<Longrightarrow> stored e p" for p using durable_point_stored [OF h e(1)] by simp
  from durable_point_holds [OF h e(1)] obtain dur' where h': "log_holds e dur' cur" and ok: "r = Ok () \<or> (\<exists>x. r = Err x)"
    and dur': "r = Ok () \<longrightarrow> dur' = cur" by blast
  have "disk_rel d' M" using e st pages dom h' by (intro disk_rel_log [of d' "the_wal e" dur' cur]) auto
  moreover have "log_holds e cur cur \<and> (\<forall>p \<in> dom M. M p = Some (snd cur p) \<and> stored e p)" if "r = Ok ()"
    using that h' dur' pages st dom by auto
  ultimately show ?thesis using ok e(2,3) option.inject by metis
qed

lemma disk_sync:
  assumes "disk_rel d M" "dm_sync d = (r, d')"
  shows "disk_rel d' M \<and> r \<noteq> Panic"
proof (cases "wal (store d)")
  case None
  then have "disk_step d = (r, d')" using assms(2) by (simp add: dm_sync_def effects)
  from disk_step_cases [OF this] show ?thesis using assms(1) disk_rel_store [of d' d M] by auto
next
  case (Some w)
  then show ?thesis using assms by (auto simp: dm_sync_def effects)
qed

lemma disk_log_txn:
  assumes rel: "disk_rel d M" and wf: "wf_entry (ETxn rec)"
  shows "\<exists>d'. dm_log_txn rec d = (Ok (), d') \<and> disk_rel d' M"
proof (cases "wal (store d)")
  case None
  then show ?thesis using rel by (simp add: dm_log_txn_def effects)
next
  case (Some w)
  obtain dur cur where h: "log_holds (log_env d w) dur cur" and dom: "dom M = live (store d)"
    and pages: "\<forall>p \<in> live (store d). stored (log_env d w) p \<and> M p = Some (snd cur p)" by (rule disk_rel_logE [OF rel Some])
  from log_txn_holds [OF h wf] obtain t where t: "log_txn rec (log_env d w) = (Ok (), t)"
    "log_holds t dur (track_rec (fst cur) rec, snd cur)" by blast
  then have same: "wal_pages (the_wal t) = wal_pages w" "data_file t = db_file (store d)"
    using wf by (auto simp: log_txn_def upd_wal_def encode_txn_ok effects log_env_def)
  obtain r d' where d': "on_wal w (log_txn rec) d = (r, d')" by force
  then obtain e where e: "log_txn rec (log_env d w) = (r, e)" "wal (store d') = Some (the_wal e)" "log_env d' (the_wal e) = e"
    "live (store d') = live (store d)" by (rule on_wal_cases)
  have "e = t" "r = Ok ()" using e(1) t(1) by simp_all
  moreover have "disk_rel d' M" using e t pages dom same \<open>e = t\<close>
    by (intro disk_rel_log [of d' "the_wal e" dur "(track_rec (fst cur) rec, snd cur)"]) (auto simp: stored_def log_env_def)
  ultimately show ?thesis using d' Some by (auto simp: dm_log_txn_def effects)
qed


lemma durable_point_clean:
  assumes "durable_point s = (Ok (), t)"
  shows "\<not> wal_dirty (the_wal t)"
proof (cases "wal_broken (the_wal s) \<or> \<not> wal_dirty (the_wal s)")
  case True
  then show ?thesis using assms by (cases "wal_broken (the_wal s)") (auto simp: durable_point_def refuse_if_broken_def effects)
next
  case False
  obtain q u where q: "write_durable s = (q, u)" by force
  have q': "q = Ok ()" using assms False q by (cases q) (auto simp: durable_point_eq refuse_if_broken_def effects)
  then have d: "\<not> wal_dirty (the_wal u)"
    using q by (auto simp: write_durable_def upd_wal_def effects split: prod.splits result.splits)
  obtain c z where c: "checkpoint u = (c, z)" by force
  have "\<not> wal_dirty (the_wal z)" by (rule checkpoint_shape [OF c]) (use d in \<open>auto simp: fresh_wal_def Let_def\<close>)
  then show ?thesis using assms False q q' d c
    by (cases c) (auto simp: durable_point_eq refuse_if_broken_def catchS_def effects split: if_splits)
qed

text \<open>Every whole page of the data file is readable, if page ids can name them all.\<close>

lemma page_ids_ok: "\<forall>i \<in> set is. i < 4294967295 \<Longrightarrow> page_ids is = Ok (map (\<lambda>i. PageId (word_of_nat i)) is)"
proof (induction "is")
  case (Cons i "is")
  have i: "i < 4294967295" using Cons(2) by simp
  let ?x = "word_of_nat i :: u32"
  have "unat ?x = i" using i by (simp add: unat_of_nat_eq)
  then have v: "valid_page_id (PageId ?x)" using i
    by (simp add: valid_page_id_def less_eq_PageId_def PageId_MAX_def word_le_nat_alt)
  have "(word_of_nat i :: u64) = ucast ?x" using \<open>unat ?x = i\<close> i by (simp add: word_unat_eq_iff unat_of_nat_eq)
  then show ?case using Cons v by (simp add: try_from_u64_ucast)
qed simp

lemma live_pages_ok:
  assumes "length f \<le> full_data"
  shows "\<exists>l. live_pages f = Ok l \<and> (\<forall>p. p \<in> l \<longleftrightarrow> has_page f p)"
proof -
  let ?n = "length f div PAGE_SIZE"
  have "?n \<le> full_data div PAGE_SIZE" using assms by (rule div_le_mono)
  then have n: "?n \<le> 4294967295" by (simp add: full_data_def PAGE_SIZE_def)
  let ?l = "set (map (\<lambda>i. PageId (word_of_nat i)) [0..<?n])"
  have "live_pages f = Ok ?l" using n by (simp add: live_pages_def page_ids_ok)
  moreover have "p \<in> ?l \<longleftrightarrow> has_page f p" for p
  proof
    assume "p \<in> ?l"
    then obtain i where i: "i < ?n" "p = PageId (word_of_nat i)" by auto
    then have "unat (PageId_get p) = i" using n by (simp add: PageId_get_def unat_of_nat_eq)
    moreover have "Suc i * PAGE_SIZE \<le> length f" using i(1) by (metis Suc_leI div_times_less_eq_dividend le_trans mult_le_mono1)
    ultimately show "has_page f p" by (simp add: has_page_def)
  next
    assume h: "has_page f p"
    let ?i = "unat (PageId_get p)"
    have "Suc ?i * PAGE_SIZE \<le> length f" using h by (simp add: has_page_def)
    then have "Suc ?i \<le> ?n" using page_pos by (simp add: less_eq_div_iff_mult_less_eq)
    then have "?i \<in> set [0..<?n]" by simp
    moreover have "p = PageId (word_of_nat ?i)" by (cases p) (simp add: PageId_get_def)
    ultimately show "p \<in> ?l" unfolding set_map by (rule image_eqI [rotated])
  qed
  ultimately show ?thesis by blast
qed

lemma open_logged_done:
  assumes w: "wal_open log f [] = (Ok rec, t)" "outcomes t = []" and l: "length (data_file t) \<le> full_data" and h: "log_holds t v v"
  shows "\<exists>d. open_logged f log [] = (Ok rec, d) \<and>
    disk_rel d (\<lambda>p. if has_page (data_file t) p then Some (snd v p) else None)"
proof -
  from live_pages_ok [OF l] obtain lv where lv: "live_pages (data_file t) = Ok lv" "\<And>p. p \<in> lv \<longleftrightarrow> has_page (data_file t) p" by blast
  obtain r d where d: "open_logged f log [] = (r, d)" by force
  have r: "r = Ok rec" "store d = \<lparr>db_file = data_file t, live = lv, wal = Some (the_wal t)\<rparr>" "ios d = []"
    using d w lv(1) by (auto simp: open_logged_def with_store_def disk_step_def disk_io_def upd_store_def effects)
  have e: "log_env d (the_wal t) = t" using r w(2) by (simp add: log_env_def)
  have "disk_rel d (\<lambda>p. if has_page (data_file t) p then Some (snd v p) else None)"
    using r e h lv(2) by (intro disk_rel_log [of d "the_wal t" v v]) (auto simp: stored_def split: if_splits)
  then show ?thesis using d r(1) by blast
qed


section \<open>The worker\<close>

text \<open>Serving requests one after another, and the states a scheduler can be in after the requests \<open>sent\<close>, with the worker
  anywhere in between.\<close>

fun serve_all :: "DiskRequest list \<Rightarrow> DiskManager \<Rightarrow> (nat \<times> (IoError, bytes) result) list \<times> DiskManager" where
  "serve_all [] d = ([], d)"
| "serve_all (q # qs) d = (case serve q d of (r, d1) \<Rightarrow> case serve_all qs d1 of (rs, d2) \<Rightarrow> ((promise q, r) # rs, d2))"

inductive sched_reach :: "DiskManager \<Rightarrow> DiskRequest list \<Rightarrow> DiskScheduler \<Rightarrow> bool" for d where
  start: "sched_reach d [] (DiskScheduler_new d)"
| send: "sched_reach d sent s \<Longrightarrow> schedule reqs s = (Ok (), t) \<Longrightarrow> sched_reach d (sent @ reqs) t"
| work: "sched_reach d sent s \<Longrightarrow> worker_step s = Some t \<Longrightarrow> sched_reach d sent t"

inductive_cases sched_reachE: "sched_reach d sent s"

lemma serve_all_append:
  "serve_all (qs @ qs') d = (case serve_all qs d of (rs, d1) \<Rightarrow> case serve_all qs' d1 of (rs', d2) \<Rightarrow> (rs @ rs', d2))"
  by (induction qs arbitrary: d) (auto split: prod.splits)

lemma serve_all_snoc: "serve_all qs d = (rs, d1) \<Longrightarrow> serve q d1 = (r, d2) \<Longrightarrow> serve_all (qs @ [q]) d = (rs @ [(promise q, r)], d2)"
  by (simp add: serve_all_append)

lemma worker_step_Some:
  "worker_step s = Some t \<longleftrightarrow> (\<exists>q rest r d. requests s = q # rest \<and> serve q (dm s) = (r, d) \<and>
     t = s\<lparr>requests := rest, dm := d, answers := answers s @ [(promise q, r)]\<rparr>)"
  by (auto simp: worker_step.simps split: list.splits prod.splits)

lemma worker_step_None: "worker_step s = None \<longleftrightarrow> requests s = []"
  by (auto simp: worker_step.simps split: list.splits prod.splits)

lemma sched_reach_served:
  "sched_reach d sent s \<Longrightarrow> tx s \<and> (\<exists>served. sent = served @ requests s \<and> serve_all served d = (answers s, dm s))"
proof (induction rule: sched_reach.induct)
  case start
  show ?case by (simp add: DiskScheduler_new_def)
next
  case (send sent s reqs t)
  then show ?case by (auto simp: schedule_def effects)
next
  case (work sent s t)
  from work(2) obtain q rest r d1 where q: "requests s = q # rest" "serve q (dm s) = (r, d1)"
    "t = s\<lparr>requests := rest, dm := d1, answers := answers s @ [(promise q, r)]\<rparr>" by (auto simp: worker_step_Some)
  from work(3) obtain served where "sent = served @ requests s" "serve_all served d = (answers s, dm s)" by blast
  then have "sent = (served @ [q]) @ requests t \<and> serve_all (served @ [q]) d = (answers t, dm t)"
    using q serve_all_snoc [of served d "answers s" "dm s" q r d1] by simp
  then show ?case using work(3) q by auto
qed

lemma run_worker_all:
  "run_worker s = (case serve_all (requests s) (dm s) of (rs, d) \<Rightarrow> s\<lparr>requests := [], dm := d, answers := answers s @ rs\<rparr>)"
proof (induction s rule: run_worker.induct)
  case (1 s)
  show ?case
  proof (cases "worker_step s")
    case None
    then have "requests s = []" by (simp add: worker_step_None)
    then show ?thesis using None by (subst run_worker.simps) (cases s, simp)
  next
    case (Some t)
    then have "run_worker s = run_worker t" by (subst run_worker.simps) simp
    then show ?thesis using 1 [OF Some] Some by (auto simp: worker_step_Some split: prod.splits)
  qed
qed



text \<open>C20. The disk manager is a map from page ids to page bytes, with a log or without. Reading a page that was never
  written, or was deallocated, fails, and reading any other returns its bytes unless the file operation fails. A write
  that succeeds changes its page only; one that fails changes nothing with a log, and without one at most the page
  itself. Deallocating a page removes it and says whether it was there, and logging a transaction record, syncing and
  making the pages durable change no page.\<close>

theorem disk_contract:
  assumes "disk_rel d M" "valid_page_id p" "length b = PAGE_SIZE" "wf_entry (ETxn rec)"
  shows "(case dm_read_page p d of (r, d') \<Rightarrow> disk_rel d' M \<and> (p \<notin> dom M \<longrightarrow> r = Err (PageMissing p)) \<and>
      (p \<in> dom M \<longrightarrow> r = Ok (the (M p)) \<or> (\<exists>x. r = Err x) \<and> ios d \<noteq> [])) \<and>
    (case dm_write_page p b d of (r, d') \<Rightarrow> (r = Ok b \<and> disk_rel d' (M(p \<mapsto> b))) \<or>
      (\<exists>e M'. r = Err e \<and> disk_rel d' M' \<and> dom M' = dom M \<and> (\<forall>q. q \<noteq> p \<longrightarrow> M' q = M q) \<and> (wal (store d) \<noteq> None \<longrightarrow> M' = M))) \<and>
    (\<exists>d'. deallocate_page p d = (Ok (p \<in> dom M), d') \<and> disk_rel d' (M(p := None))) \<and>
    (\<exists>d'. dm_log_txn rec d = (Ok (), d') \<and> disk_rel d' M) \<and>
    (case dm_sync d of (r, d') \<Rightarrow> disk_rel d' M) \<and> (case make_durable d of (r, d') \<Rightarrow> disk_rel d' M)"
proof -
  obtain r1 d1 where r1: "dm_read_page p d = (r1, d1)" by force
  obtain r2 d2 where r2: "dm_write_page p b d = (r2, d2)" by force
  obtain r3 d3 where r3: "dm_sync d = (r3, d3)" by force
  obtain r4 d4 where r4: "make_durable d = (r4, d4)" by force
  have wf: "wf_entry (EPage p b)" using assms(2,3) by simp
  have wr: "(r2 = Ok b \<and> disk_rel d2 (M(p \<mapsto> b))) \<or>
      (\<exists>e M'. r2 = Err e \<and> disk_rel d2 M' \<and> dom M' = dom M \<and> (\<forall>q. q \<noteq> p \<longrightarrow> M' q = M q) \<and> (wal (store d) \<noteq> None \<longrightarrow> M' = M))"
  proof (cases "wal (store d)")
    case None
    from write_unlogged [OF assms(1) None assms(3) r2] None show ?thesis by blast
  next
    case (Some w)
    from write_logged [OF assms(1) Some wf r2] show ?thesis by blast
  qed
  show ?thesis
    using disk_read [OF assms(1) r1] disk_deallocate [OF assms(1)] disk_log_txn [OF assms(1,4)] disk_sync [OF assms(1) r3]
      disk_make_durable [OF assms(1) r4] wr by (simp add: r1 r2 r3 r4)
qed

theorem disk_contract_witness:
  "disk_rel (with_store \<lparr>db_file = [], live = {}, wal = None\<rparr> []) Map.empty \<and> valid_page_id (PageId 3) \<and>
   length (replicate PAGE_SIZE (0 :: byte)) = PAGE_SIZE \<and> wf_entry (ETxn (Writes 1)) \<and>
   (case dm_read_page (PageId 3) (with_store \<lparr>db_file = [], live = {}, wal = None\<rparr> []) of (r, d') \<Rightarrow> r = Err (PageMissing (PageId 3)))"
proof -
  let ?d = "with_store \<lparr>db_file = [], live = {}, wal = None\<rparr> []"
  have h: "disk_rel ?d Map.empty" "valid_page_id (PageId 3)" "length (replicate PAGE_SIZE (0 :: byte)) = PAGE_SIZE" "wf_entry (ETxn (Writes 1))"
    by (simp_all add: disk_rel_def with_store_def valid_page_id_def less_eq_PageId_def PageId_MAX_def)
  from disk_contract [OF h] h show ?thesis by (auto split: prod.splits)
qed

lemma disk_log_holds: "disk_rel d M \<Longrightarrow> wal (store d) = Some w \<Longrightarrow> \<exists>dur cur. log_holds (log_env d w) dur cur"
  unfolding disk_rel_def by (simp only: option.case) blast

lemma durable_point_length:
  assumes h: "log_holds s dur cur" and r: "durable_point s = (r, t)" and len: "length (data_file s) \<le> full_data"
  shows "length (data_file t) \<le> full_data"
proof (cases "wal_broken (the_wal s) \<or> \<not> wal_dirty (the_wal s)")
  case True
  then show ?thesis using r len by (cases "wal_broken (the_wal s)") (auto simp: durable_point_def refuse_if_broken_def effects)
next
  case False
  from h obtain es bs where rel: "wal_rel (the_wal s) es bs" by (auto simp: log_holds_def)
  obtain q u where q: "write_durable s = (q, u)" by force
  have u: "wal_pages (the_wal u) = wal_pages (the_wal s)" "data_file u = data_file s" using write_durable_pages [OF q] by simp_all
  have "valid_page_id p" if "(p, off) \<in> set (wal_pages (the_wal s))" for p off
  proof -
    have d: "distinct (map fst (wal_pages (the_wal s)))" and wf: "\<forall>e \<in> set es. wf_entry e" using rel by (simp_all add: wal_rel_def)
    show ?thesis using map_of_is_SomeI [OF d that] images_of_rel [OF rel, of p] image_valid [OF wf, of p] by simp
  qed
  then have v: "\<forall>(p, off) \<in> set (wal_pages (the_wal u)). valid_page_id p" using u(1) by auto
  obtain c z where c: "checkpoint u = (c, z)" by force
  have "length (data_file z) \<le> full_data" using checkpoint_length [OF c v] u(2) len by simp
  then show ?thesis using r False q c u(2) len
    by (cases q; cases c) (auto simp: durable_point_eq refuse_if_broken_def catchS_def effects split: if_splits)
qed

text \<open>C19. What was made durable survives a crash. After \<open>make_durable\<close> succeeds on a manager with a log, opening the same
  data file with the log that a crash leaves, whatever was logged since without another durable point and wherever that
  is cut off, succeeds and gives back every page as it was.\<close>

theorem durable_pages_survive:
  assumes rel: "disk_rel d M" and r: "make_durable d = (Ok (), d')" and w: "wal (store d') = Some w"
    and fs: "\<forall>e \<in> set fs. wf_entry e \<and> e \<noteq> EDurable" and len0: "length (db_file (store d)) \<le> full_data"
  shows "\<exists>rec d2 M2. open_logged (db_file (store d')) (Some (take (wal_end w) (wal_file w) @ take n (enc_log fs))) [] = (Ok rec, d2) \<and>
    disk_rel d2 M2 \<and> M \<subseteq>\<^sub>m M2"
proof -
  let ?f = "db_file (store d')"
  from disk_make_durable [OF rel r] w obtain v where h: "log_holds (log_env d' w) v v"
    and M: "\<forall>p \<in> dom M. M p = Some (snd v p) \<and> stored (log_env d' w) p" by blast
  from h obtain es bs where es: "wal_rel w es bs" "v = db_view (durable_part es) ?f" by (auto simp: log_holds_def log_env_def)
  obtain w0 where w0: "wal (store d) = Some w0" using r w by (cases "wal (store d)") (auto simp: make_durable_def effects dest: disk_step_cases)
  then have "on_wal w0 durable_point d = (Ok (), d')" using r by (simp add: make_durable_def effects)
  then obtain e where e: "durable_point (log_env d w0) = (Ok (), e)" "wal (store d') = Some (the_wal e)" "log_env d' (the_wal e) = e"
    by (rule on_wal_cases)
  have clean: "\<not> wal_dirty w" using durable_point_clean [OF e(1)] e(2) w by simp
  obtain dur cur where "log_holds (log_env d w0) dur cur" using disk_log_holds [OF rel w0] by blast
  from durable_point_length [OF this e(1)] len0 have len: "length ?f \<le> full_data"
    using arg_cong [OF e(3), of data_file] by (simp add: log_env_def)
  from clean have tl: "durable_part es = es" using es(1) tail_Nil by (auto simp: wal_rel_def)
  let ?n = "length (enc_log es) + n"
  have log: "take (wal_end w) (wal_file w) @ take n (enc_log fs) = log_header @ take ?n (enc_log (es @ fs))"
    using es(1) by (auto simp: wal_rel_def)
  have wf: "\<forall>e \<in> set (es @ fs). wf_entry e" using es(1) fs by (auto simp: wal_rel_def)
  have ds: "durable_part (whole ?n (es @ fs)) = es"
  proof -
    have "whole ?n (es @ fs) = es @ whole n fs" using whole_prefix [of es ?n fs] by simp
    moreover have "\<forall>e \<in> set (whole n fs). e \<noteq> EDurable" using fs whole_subset by blast
    ultimately show ?thesis using durable_part_more [of "whole n fs" es] tl by simp
  qed
  let ?log = "log_header @ take ?n (enc_log (es @ fs))"
  from open_torn_succeeds [OF wf refl] obtain rec t where t: "wal_open (Some ?log) ?f [] = (Ok rec, t)" "outcomes t = []" by blast
  from open_torn [OF wf refl refl t(1) refl] ds tl es(2) have o: "log_holds t v v"
    "\<And>p. has_page ?f p \<or> image_of es p \<noteq> None \<Longrightarrow> has_page (data_file t) p" "length (data_file t) \<le> full_data"
    using len by auto
  from open_logged_done [OF t o(3,1)] obtain d2 where d2: "open_logged ?f (Some ?log) [] = (Ok rec, d2)"
    "disk_rel d2 (\<lambda>p. if has_page (data_file t) p then Some (snd v p) else None)" by blast
  have "has_page (data_file t) p" if "p \<in> dom M" for p
  proof -
    have "stored (log_env d' w) p" using M that by blast
    then show ?thesis using images_of_rel [OF es(1), of p] o(2) [of p] by (auto simp: stored_def log_env_def)
  qed
  then have "M \<subseteq>\<^sub>m (\<lambda>p. if has_page (data_file t) p then Some (snd v p) else None)" using M by (auto simp: map_le_def)
  then show ?thesis using d2 log by auto
qed

lemma durable_point_succeeds:
  assumes h: "log_holds s dur cur" and ok: "\<not> wal_broken (the_wal s)" "outcomes s = []"
  shows "\<exists>t. durable_point s = (Ok (), t)"
proof (cases "wal_dirty (the_wal s)")
  case True
  from h obtain es bs where rel: "wal_rel (the_wal s) es bs" by (auto simp: log_holds_def)
  obtain q u where q: "write_durable s = (q, u)" by force
  have pl: "length [] \<le> MAX_PAYLOAD_LEN" by simp
  have q': "q = Ok ()" using q write_out_ok(1) [OF rel pl refl refl, where kind = KIND_DURABLE] ok(2)
    by (simp add: write_durable_def wal_sync_def next_io_def upd_wal_def effects)
  have rel': "wal_rel (the_wal u) (es @ map ETxn bs @ [EDurable]) []" using write_durable_cases [OF rel q refl] q' by simp
  have tl: "tail_part (es @ map ETxn bs @ [EDurable]) = []" using tail_part_append(1) [of "es @ map ETxn bs"] by simp
  obtain c z where c: "checkpoint u = (c, z)" by force
  then have "c \<noteq> Panic" using checkpoint_holds [OF rel' tl c] by simp
  then show ?thesis using True ok(1) q q' c
    by (cases c) (auto simp: durable_point_eq refuse_if_broken_def catchS_def effects)
qed (use ok in \<open>simp add: durable_point_def refuse_if_broken_def effects\<close>)

lemma new_disk: "\<exists>rec d. open_logged [] None [] = (Ok rec, d) \<and> disk_rel d Map.empty \<and> ios d = [] \<and>
  (\<exists>w. wal (store d) = Some w \<and> \<not> wal_broken w) \<and> db_file (store d) = []"
proof -
  have rp: "wal_replay None = Ok ([], [])" by (simp add: wal_replay_def)
  let ?s = "\<lparr>the_wal = loaded_wal [] [] [], data_file = [], outcomes = []\<rparr>"
  let ?t = "?s\<lparr>the_wal := fresh_wal (the_wal ?s)\<rparr>"
  have "checkpoint ?s = (Ok (), ?t)"
    by (simp add: checkpoint_def wal_sync_def io_step_def next_io_def upd_wal_def fresh_log_eq effects loaded_wal_def fresh_wal_def Let_def)
  then obtain rec where t: "wal_open None [] [] = (Ok rec, ?t)"
    using wal_open_loaded [OF rp, of "[]" "[]" "[]"] by (auto simp: open_recs_def enc_open_def)
  have nb: "\<not> wal_broken (fresh_wal (loaded_wal [] [] []))" by (simp add: fresh_wal_def loaded_wal_def Let_def)
  have lp: "live_pages [] = Ok {}" by (simp add: live_pages_def)
  have h: "log_holds ?t ([], page_at []) ([], page_at [])" using new_log_holds [of "[]"] t by simp
  obtain r d where d: "open_logged [] None [] = (r, d)" by force
  have r: "r = Ok rec" "store d = \<lparr>db_file = [], live = {}, wal = Some (fresh_wal (loaded_wal [] [] []))\<rparr>" "ios d = []"
    using d t lp by (auto simp: open_logged_def with_store_def disk_step_def disk_io_def upd_store_def effects)
  have "disk_rel d Map.empty" using r h
    by (intro disk_rel_log [of d "fresh_wal (loaded_wal [] [] [])"]) (simp_all add: log_env_def)
  then show ?thesis using d r nb by auto
qed

lemma written_disk:
  fixes b defines "b \<equiv> replicate PAGE_SIZE (7 :: byte)"
  shows "\<exists>d d' w. disk_rel d [PageId 0 \<mapsto> b] \<and> make_durable d = (Ok (), d') \<and> wal (store d') = Some w \<and>
    length (db_file (store d)) \<le> full_data"
proof -
  have wf: "wf_entry (EPage (PageId 0) b)" by (simp add: b_def valid_page_id_def less_eq_PageId_def PageId_MAX_def)
  from new_disk obtain d0 w0 where d0: "disk_rel d0 Map.empty" "ios d0 = []" "wal (store d0) = Some w0" "\<not> wal_broken w0" "db_file (store d0) = []"
    by blast
  obtain dur cur where h: "log_holds (log_env d0 w0) dur cur" using disk_log_holds [OF d0(1,3)] by blast
  from h obtain es bs where rel: "wal_rel (the_wal (log_env d0 w0)) es bs" by (auto simp: log_holds_def)
  have nb: "\<not> wal_broken (the_wal (log_env d0 w0))" "outcomes (log_env d0 w0) = []" using d0 by (simp_all add: log_env_def)
  from log_page_ok [OF rel wf nb(1)] nb(2) obtain w1 where w1:
    "log_page (PageId 0) b (log_env d0 w0) = (Ok (), (log_env d0 w0)\<lparr>the_wal := w1, outcomes := []\<rparr>)" "\<not> wal_broken w1" by auto
  obtain r1 d1 where d1: "dm_write_page (PageId 0) b d0 = (r1, d1)" by force
  then have s1: "r1 = Ok b" "wal (store d1) = Some w1" "ios d1 = []" "db_file (store d1) = []"
    using w1(1) d0(3,5) by (auto simp: dm_write_page_def on_wal_def count_write_def upd_store_def effects log_env_def)
  then have rel1: "disk_rel d1 [PageId 0 \<mapsto> b]" using write_logged [OF d0(1,3) wf d1] by auto
  obtain dur1 cur1 where h1: "log_holds (log_env d1 w1) dur1 cur1" using disk_log_holds [OF rel1 s1(2)] by blast
  from durable_point_succeeds [OF h1] w1(2) s1(3) obtain t where t: "durable_point (log_env d1 w1) = (Ok (), t)"
    by (auto simp: log_env_def)
  obtain r2 d2 where d2: "make_durable d1 = (r2, d2)" by force
  then have s2: "r2 = Ok ()" "wal (store d2) = Some (the_wal t)" "db_file (store d2) = data_file t"
    using t s1(2) by (auto simp: make_durable_def on_wal_def effects)
  then show ?thesis using rel1 d2 s1(4) s2 by (intro exI [of _ d1] exI [of _ d2] exI [of _ "the_wal t"]) simp
qed

theorem durable_pages_survive_witness:
  "\<exists>d d' w rec d2 M2. disk_rel d [PageId 0 \<mapsto> replicate PAGE_SIZE 7] \<and> make_durable d = (Ok (), d') \<and> wal (store d') = Some w \<and>
     length (db_file (store d)) \<le> full_data \<and>
     open_logged (db_file (store d')) (Some (take (wal_end w) (wal_file w) @ take 3 (enc_log [ETxn (Writes 5)]))) [] = (Ok rec, d2) \<and>
     disk_rel d2 M2 \<and> M2 (PageId 0) = Some (replicate PAGE_SIZE 7)"
proof -
  from written_disk obtain d d' w where d: "disk_rel d [PageId 0 \<mapsto> replicate PAGE_SIZE 7]" "make_durable d = (Ok (), d')"
    "wal (store d') = Some w" "length (db_file (store d)) \<le> full_data" by blast
  have fs: "\<forall>e \<in> set [ETxn (Writes 5)]. wf_entry e \<and> e \<noteq> EDurable" by simp
  from durable_pages_survive [OF d(1,2,3) fs d(4), of 3] obtain rec d2 M2 where
    "open_logged (db_file (store d')) (Some (take (wal_end w) (wal_file w) @ take 3 (enc_log [ETxn (Writes 5)]))) [] = (Ok rec, d2)"
    "disk_rel d2 M2" "[PageId 0 \<mapsto> replicate PAGE_SIZE 7] \<subseteq>\<^sub>m M2" by blast
  moreover from this(3) have "M2 (PageId 0) = Some (replicate PAGE_SIZE 7)" by (simp add: map_le_def)
  ultimately show ?thesis using d by blast
qed

end
