(* ===== verification/Page_Codec.thy ===== *)
theory Page_Codec
  imports Buf
begin

text \<open>
  The common header of index pages and the encoding of page and record ids in them, from \<open>src/src/index/page_codec.rs\<close>.
\<close>


definition MAGIC :: bytes where "MAGIC = [67, 77, 68, 66]"
definition VERSION :: u16 where "VERSION = 3"
definition KIND_HEADER :: byte where "KIND_HEADER = 0"
definition KIND_INTERNAL :: byte where "KIND_INTERNAL = 1"
definition KIND_LEAF :: byte where "KIND_LEAF = 2"
definition U32_BYTES :: nat where "U32_BYTES = 4"
definition U64_BYTES :: nat where "U64_BYTES = 8"
definition VERSION_BYTES :: nat where "VERSION_BYTES = 2"
definition KIND_BYTES :: nat where "KIND_BYTES = 1"
definition RESERVED_BYTES :: nat where "RESERVED_BYTES = 1"
definition KIND_OFFSET :: nat where "KIND_OFFSET = length MAGIC + VERSION_BYTES"
definition COMMON_HEADER_BYTES :: nat where "COMMON_HEADER_BYTES = KIND_OFFSET + KIND_BYTES + RESERVED_BYTES"

lemmas codec_consts = MAGIC_def VERSION_def KIND_HEADER_def KIND_INTERNAL_def KIND_LEAF_def U32_BYTES_def U64_BYTES_def
  VERSION_BYTES_def KIND_BYTES_def RESERVED_BYTES_def KIND_OFFSET_def COMMON_HEADER_BYTES_def

datatype PageCodecError =
    BadMagic
  | UnsupportedVersion u16
  | WrongPageKind (expected_kind: byte) (actual_kind: byte)
  | InvalidPageKind byte
  | KeyTooLong nat nat
  | InvalidSize
  | Malformed string
  | CodecBuffer BufferError

definition OVERFLOW :: PageCodecError where
  "OVERFLOW = CodecBuffer Overflow"

definition decode_page_id :: "u64 \<Rightarrow> (PageCodecError, PageId option) result" where
  "decode_page_id raw = map_err (\<lambda>_. CodecBuffer Overflow) (decode_u64 raw)"

definition decode_child_page_id :: "u64 \<Rightarrow> (PageCodecError, PageId) result" where
  "decode_child_page_id raw =
     bindR (decode_page_id raw) (\<lambda>p. ok_or p (Malformed ''an internal page child names no page''))"

definition encode_page_id :: "PageId option \<Rightarrow> u64" where
  "encode_page_id p = encode_u64 p"

definition encode_record_id :: "RecordId \<Rightarrow> ('e, u64 \<times> u64) result" where
  "encode_record_id rid = Ok (ucast (PageId_get (page_id rid)), ucast (slot_id rid))"

definition decode_record_id :: "u64 \<Rightarrow> u64 \<Rightarrow> (PageCodecError, RecordId) result" where
  "decode_record_id page slot =
     bindR (map_err (\<lambda>_. CodecBuffer Overflow) (try_from_u64 page)) (\<lambda>p.
     bindR (ok_or (u32_try_from slot) OVERFLOW) (\<lambda>s. Ok \<lparr>page_id = p, slot_id = s\<rparr>))"

definition write_common_header :: "BufWriter \<Rightarrow> byte \<Rightarrow> (PageCodecError, BufWriter) result" where
  "write_common_header w kind = map_err CodecBuffer
     (bindR (write_bytes w MAGIC) (\<lambda>w. bindR (write_u16_le w VERSION) (\<lambda>w. bindR (write_u8 w kind) (\<lambda>w. write_u8 w 0))))"

definition read_common_header :: "BufReader \<Rightarrow> (PageCodecError, byte \<times> BufReader) result" where
  "read_common_header r =
     bindR (map_err CodecBuffer (read_bytes r (length MAGIC))) (\<lambda>(m, r).
     if m \<noteq> MAGIC then Err BadMagic else
     bindR (map_err CodecBuffer (read_u16_le r)) (\<lambda>(version, r).
     if version \<noteq> VERSION then Err (UnsupportedVersion version) else
     bindR (map_err CodecBuffer (read_u8 r)) (\<lambda>(kind, r).
     bindR (map_err CodecBuffer (read_u8 r)) (\<lambda>(_, r). Ok (kind, r)))))"

definition read_common_header_of_kind :: "BufReader \<Rightarrow> byte \<Rightarrow> (PageCodecError, BufReader) result" where
  "read_common_header_of_kind r expected =
     bindR (read_common_header r) (\<lambda>(kind, r). if kind \<noteq> expected then Err (WrongPageKind expected kind) else Ok r)"

definition peek_common_header :: "bytes \<Rightarrow> (PageCodecError, byte) result" where
  "peek_common_header buf =
     (if length buf < COMMON_HEADER_BYTES then Err (CodecBuffer (BufferTooSmall COMMON_HEADER_BYTES (length buf)))
      else bindR (slice_get buf 0 4) (\<lambda>m.
        if m \<noteq> MAGIC then Err BadMagic
        else bindR (index_get buf 4) (\<lambda>b4. bindR (index_get buf 5) (\<lambda>b5.
          let version = from_le_bytes [b4, b5] :: u16 in
          if version \<noteq> VERSION then Err (UnsupportedVersion version) else index_get buf KIND_OFFSET))))"

definition expect_common_header :: "bytes \<Rightarrow> byte \<Rightarrow> (PageCodecError, unit) result" where
  "expect_common_header buf expected =
     bindR (peek_common_header buf) (\<lambda>kind. if kind \<noteq> expected then Err (WrongPageKind expected kind) else Ok ())"

definition put_common_header :: "bytes \<Rightarrow> byte \<Rightarrow> ('e, bytes) result" where
  "put_common_header buf kind =
     bindR (copy_from_slice buf 0 4 MAGIC) (\<lambda>buf.
     bindR (copy_from_slice buf 4 6 (to_le_bytes VERSION)) (\<lambda>buf.
     bindR (index_put buf KIND_OFFSET kind) (\<lambda>buf.
     index_put buf 7 0)))"

section \<open>Laws\<close>

text \<open>The header bytes of a page of a kind, and a page that starts with them.\<close>

definition header_bytes :: "byte \<Rightarrow> bytes" where
  "header_bytes kind = MAGIC @ to_le_bytes VERSION @ [kind, 0]"

lemma header_bytes_length [simp]: "length (header_bytes kind) = 8"
  by (simp add: header_bytes_def MAGIC_def)

lemma patch_append: "length b = length b' \<Longrightarrow> off = length a \<Longrightarrow> patch (a @ b @ c) off b' = a @ b' @ c"
  by (simp add: patch_def)

lemma sub_append: "off = length a \<Longrightarrow> n = length b \<Longrightarrow> sub (a @ b @ c) off n = b"
  by (simp add: sub_def)

lemma length_MAGIC [simp]: "length MAGIC = 4"
  by (simp add: MAGIC_def)

lemma header_consts [simp]: "KIND_OFFSET = 6" "COMMON_HEADER_BYTES = 8"
  by (simp_all add: codec_consts)

lemma header_split:
  assumes "8 \<le> length buf"
  obtains a b c d where "buf = a @ b @ [c] @ [d] @ drop 8 buf" "length a = 4" "length b = 2"
proof -
  have "length (take 4 buf) = 4" "length (take 2 (drop 4 buf)) = 2" using assms by simp_all
  moreover have "buf = take 4 buf @ take 2 (drop 4 buf) @ [buf ! 6] @ [buf ! 7] @ drop 8 buf"
  proof -
    have "drop 6 buf = buf ! 6 # drop 7 buf" "drop 7 buf = buf ! 7 # drop 8 buf" using assms
      by (simp_all add: Cons_nth_drop_Suc [symmetric])
    moreover have "buf = take 4 buf @ take 2 (drop 4 buf) @ drop 6 buf"
      by (metis append_take_drop_id drop_drop add_numeral_special(2) numeral_Bit0 numeral_plus_numeral add.commute semiring_norm(2,3,6))
    ultimately show ?thesis by simp
  qed
  ultimately show thesis by (rule that [rotated])
qed

lemma put_common_header_ok:
  assumes "8 \<le> length buf"
  shows "put_common_header buf kind = Ok (header_bytes kind @ drop 8 buf)"
proof -
  from header_split [OF assms] obtain a b c d where s: "buf = a @ b @ [c] @ [d] @ drop 8 buf" "length a = 4" "length b = 2" .
  obtain rest where r: "drop 8 buf = rest" by simp
  show ?thesis unfolding put_common_header_def
    by (subst (1) s(1)) (simp add: r s(2,3) copy_from_slice_def index_put_def patch_def header_bytes_def list_update_append)
qed

lemma from_le_VERSION: "from_le_bytes (to_le_bytes VERSION) = VERSION"
  by simp

lemma peek_header_bytes:
  assumes "buf = header_bytes kind @ rest"
  shows "peek_common_header buf = Ok kind"
proof -
  obtain x y where v: "to_le_bytes VERSION = [x, y]" by (simp add: to_le_bytes_def numeral_2_eq_2)
  then have "from_le_bytes [x, y] = VERSION" using from_le_VERSION by simp
  then show ?thesis
    by (simp add: assms peek_common_header_def header_bytes_def slice_get_def index_get_def sub_def v nth_append)
qed

lemma peek_not_Panic [simp]: "peek_common_header buf \<noteq> Panic"
  by (auto simp: peek_common_header_def slice_get_def index_get_def Let_def)

lemma expect_header_bytes: "expect_common_header (header_bytes kind @ rest) kind' = (if kind = kind' then Ok () else Err (WrongPageKind kind' kind))"
  by (simp add: expect_common_header_def peek_header_bytes [OF refl])

lemma read_header_bytes:
  assumes "r_buf r = header_bytes kind @ rest" "r_pos r = 0" "length (r_buf r) < 2 ^ 64"
  shows "read_common_header r = Ok (kind, r\<lparr>r_pos := 8\<rparr>)"
  using assms
  by (simp add: read_common_header_def read_u16_le_def read_u8_def read_bytes_def checked_add_usize_def slice_get_def index_get_def
      sub_def header_bytes_def)

lemma decode_encode_page_id: "pred_option valid_page_id p \<Longrightarrow> decode_page_id (encode_page_id p) = Ok p"
  by (simp add: decode_page_id_def encode_page_id_def decode_encode_u64)

lemma decode_encode_child: "valid_page_id p \<Longrightarrow> decode_child_page_id (encode_page_id (Some p)) = Ok p"
  by (simp add: decode_child_page_id_def decode_encode_page_id)

lemma decode_page_id_not_Panic [simp]: "decode_page_id raw \<noteq> Panic" "decode_child_page_id raw \<noteq> Panic" "decode_record_id a b \<noteq> Panic"
proof -
  have "mapR Some (try_from_u64 x) \<noteq> Panic" for x by (cases "try_from_u64 x") simp_all
  then show "decode_page_id raw \<noteq> Panic" by (simp add: decode_page_id_def decode_u64_def)
  then show "decode_child_page_id raw \<noteq> Panic" by (simp add: decode_child_page_id_def bindR_Panic_iff)
  show "decode_record_id a b \<noteq> Panic" by (simp add: decode_record_id_def bindR_Panic_iff)
qed

lemma decode_encode_record_id:
  "valid_page_id (page_id rid) \<Longrightarrow> encode_record_id rid = Ok (a, b) \<Longrightarrow> decode_record_id a b = Ok rid"
  by (auto simp: encode_record_id_def decode_record_id_def try_from_u64_ucast PageId_get_def)

end
