(* ===== verification/Slotted.thy ===== *)
theory Slotted
  imports Page_Codec
begin

text \<open>
  The entry area of an index page, from \<open>src/src/index/slotted.rs\<close>: variable-length entries packed against the end of the page,
  found through an array of offsets.
\<close>


definition SLOT_ENCODED_BYTES :: nat where "SLOT_ENCODED_BYTES = 2"

definition page_offset :: "nat \<Rightarrow> ('e, u16) result" where
  "page_offset at = expectR (if at < 65536 then Some (word_of_nat at) else None)"

definition SLOTS_PAST_PAGE :: PageCodecError where
  "SLOTS_PAST_PAGE = Malformed ''slot array runs past the page''"

definition ENTRY_OUT_OF_BOUNDS :: PageCodecError where
  "ENTRY_OUT_OF_BOUNDS = Malformed ''entry offsets are out of order or outside the page''"

record EntryArea =
  slots_start :: nat
  payload_len :: nat

text \<open>The constructor asserts that the slot array starts inside the page. Areas are constants or made from a layout that
  was checked, where this holds (\<open>layout_areas\<close>), so the assertion is not part of the value.\<close>

definition EntryArea_new :: "nat \<Rightarrow> nat \<Rightarrow> EntryArea" where
  "EntryArea_new slots payload = \<lparr>slots_start = slots, payload_len = payload\<rparr>"

definition area_capacity :: "EntryArea \<Rightarrow> nat" where
  "area_capacity A = PAGE_SIZE - slots_start A"

definition entry_cost :: "EntryArea \<Rightarrow> nat \<Rightarrow> nat" where
  "entry_cost A key_len = SLOT_ENCODED_BYTES + key_len + payload_len A"

definition slot_offset :: "EntryArea \<Rightarrow> nat \<Rightarrow> nat" where
  "slot_offset A i = slots_start A + i * SLOT_ENCODED_BYTES"

definition area_start :: "EntryArea \<Rightarrow> bytes \<Rightarrow> nat \<Rightarrow> ('e, nat) result" where
  "area_start A buf i = mapR unat (get_u16_le buf (slot_offset A i))"

definition area_end :: "EntryArea \<Rightarrow> bytes \<Rightarrow> nat \<Rightarrow> nat \<Rightarrow> ('e, nat) result" where
  "area_end A buf n i = (if i + 1 < n then area_start A buf (i + 1) else Ok PAGE_SIZE)"

definition data_start :: "EntryArea \<Rightarrow> bytes \<Rightarrow> nat \<Rightarrow> ('e, nat) result" where
  "data_start A buf n = (if n = 0 then Ok PAGE_SIZE else area_start A buf 0)"

definition area_used :: "EntryArea \<Rightarrow> bytes \<Rightarrow> nat \<Rightarrow> ('e, nat) result" where
  "area_used A buf n =
     bindR (data_start A buf n) (\<lambda>d. bindR (sub_usize PAGE_SIZE d) (\<lambda>x. Ok (n * SLOT_ENCODED_BYTES + x)))"

definition area_free :: "EntryArea \<Rightarrow> bytes \<Rightarrow> nat \<Rightarrow> ('e, nat) result" where
  "area_free A buf n = bindR (area_used A buf n) (\<lambda>u. sub_usize (area_capacity A) u)"

definition checked_mul_usize :: "nat \<Rightarrow> nat \<Rightarrow> nat option" where
  "checked_mul_usize a b = (if a * b < 2 ^ 64 then Some (a * b) else None)"

definition check_entry :: "EntryArea \<Rightarrow> bytes \<Rightarrow> nat \<Rightarrow> nat \<Rightarrow> unit \<Rightarrow> (PageCodecError, unit) result" where
  "check_entry A buf n i _ =
     bindR (area_start A buf i) (\<lambda>s. bindR (area_end A buf n i) (\<lambda>e.
       if s + payload_len A > e then Err ENTRY_OUT_OF_BOUNDS else Ok ()))"

definition area_check :: "EntryArea \<Rightarrow> bytes \<Rightarrow> nat \<Rightarrow> (PageCodecError, unit) result" where
  "area_check A buf n =
     (if length buf \<noteq> PAGE_SIZE then Err InvalidSize
      else bindR (ok_or (case Option.bind (checked_mul_usize n SLOT_ENCODED_BYTES) (\<lambda>b. checked_add_usize b (slots_start A)) of
                           Some e \<Rightarrow> if e \<le> PAGE_SIZE then Some e else None
                         | None \<Rightarrow> None) SLOTS_PAST_PAGE) (\<lambda>slots_end.
        if n = 0 then Ok ()
        else bindR (area_start A buf 0) (\<lambda>s.
          if s < slots_end then Err ENTRY_OUT_OF_BOUNDS
          else foldR (check_entry A buf n) [0..<n] ())))"

definition area_key :: "EntryArea \<Rightarrow> bytes \<Rightarrow> nat \<Rightarrow> nat \<Rightarrow> ('e, bytes) result" where
  "area_key A buf n i =
     bindR (assertR (i < n)) (\<lambda>_.
     bindR (area_end A buf n i) (\<lambda>e.
     bindR (area_start A buf i) (\<lambda>s.
     bindR (sub_usize e (payload_len A)) (\<lambda>ke. slice_get buf s ke))))"

definition area_payload :: "EntryArea \<Rightarrow> bytes \<Rightarrow> nat \<Rightarrow> nat \<Rightarrow> ('e, bytes) result" where
  "area_payload A buf n i =
     bindR (assertR (i < n)) (\<lambda>_.
     bindR (area_end A buf n i) (\<lambda>e.
     bindR (sub_usize e (payload_len A)) (\<lambda>ke. slice_get buf ke e)))"

definition put_entry :: "EntryArea \<Rightarrow> bytes \<Rightarrow> nat \<Rightarrow> nat \<Rightarrow> bytes \<Rightarrow> bytes \<Rightarrow> ('e, nat \<times> bytes) result" where
  "put_entry A buf i at key payload =
     bindR (assertR (length payload = payload_len A)) (\<lambda>_.
     let slot = slot_offset A i in
     bindR (page_offset at) (\<lambda>po.
     bindR (put_u16_le buf slot po) (\<lambda>buf.
     let key_end = at + length key in
     bindR (copy_from_slice buf at key_end key) (\<lambda>buf.
     bindR (copy_from_slice buf key_end (key_end + length payload) payload) (\<lambda>buf.
     Ok (key_end + length payload, buf))))))"

definition set_payload :: "EntryArea \<Rightarrow> bytes \<Rightarrow> nat \<Rightarrow> nat \<Rightarrow> bytes \<Rightarrow> ('e, bytes) result" where
  "set_payload A buf n i payload =
     bindR (assertR (length payload = payload_len A)) (\<lambda>_.
     bindR (area_end A buf n i) (\<lambda>e.
     bindR (sub_usize e (payload_len A)) (\<lambda>ke. copy_from_slice buf ke e payload)))"

text \<open>\<open><[u8]>::copy_within\<close> and \<open>fill\<close> on a range.\<close>

definition copy_within :: "bytes \<Rightarrow> nat \<Rightarrow> nat \<Rightarrow> nat \<Rightarrow> ('e, bytes) result" where
  "copy_within buf i j dst =
     (if i \<le> j \<and> j \<le> length buf \<and> dst + (j - i) \<le> length buf then Ok (patch buf dst (sub buf i (j - i))) else Panic)"

definition fill_zero :: "bytes \<Rightarrow> nat \<Rightarrow> nat \<Rightarrow> ('e, bytes) result" where
  "fill_zero buf i j = (if i \<le> j \<and> j \<le> length buf then Ok (patch buf i (replicate (j - i) 0)) else Panic)"

definition move_down :: "EntryArea \<Rightarrow> nat \<Rightarrow> nat \<Rightarrow> bytes \<Rightarrow> ('e, bytes) result" where
  "move_down A len i buf =
     bindR (area_start A buf i) (\<lambda>s. bindR (sub_usize s len) (\<lambda>moved.
     bindR (page_offset moved) (\<lambda>po. put_u16_le buf (slot_offset A i) po)))"

definition move_up :: "EntryArea \<Rightarrow> nat \<Rightarrow> nat \<Rightarrow> bytes \<Rightarrow> ('e, bytes) result" where
  "move_up A len i buf =
     bindR (area_start A buf i) (\<lambda>s. bindR (page_offset (s + len)) (\<lambda>po. put_u16_le buf (slot_offset A i) po))"

definition area_insert :: "EntryArea \<Rightarrow> bytes \<Rightarrow> nat \<Rightarrow> nat \<Rightarrow> bytes \<Rightarrow> bytes \<Rightarrow> ('e, bytes) result" where
  "area_insert A buf n pos key payload =
     bindR (assertR (pos \<le> n)) (\<lambda>_.
     let len = length key + length payload in
     bindR (area_free A buf n) (\<lambda>f.
     bindR (assertR (f \<ge> entry_cost A (length key))) (\<lambda>_.
     bindR (data_start A buf n) (\<lambda>ds.
     bindR (if pos < n then area_start A buf pos else Ok PAGE_SIZE) (\<lambda>at.
     bindR (sub_usize ds len) (\<lambda>dst.
     bindR (copy_within buf ds at dst) (\<lambda>buf.
     bindR (foldR (move_down A len) [0..<pos] buf) (\<lambda>buf.
     let slot = slot_offset A pos in
     bindR (copy_within buf slot (slot_offset A n) (slot + SLOT_ENCODED_BYTES)) (\<lambda>buf.
     bindR (sub_usize at len) (\<lambda>at.
     bindR (put_entry A buf pos at key payload) (\<lambda>(_, buf). Ok buf)))))))))))"

definition area_remove :: "EntryArea \<Rightarrow> bytes \<Rightarrow> nat \<Rightarrow> nat \<Rightarrow> ('e, bytes) result" where
  "area_remove A buf n pos =
     bindR (assertR (pos < n)) (\<lambda>_.
     bindR (area_start A buf pos) (\<lambda>start.
     bindR (area_end A buf n pos) (\<lambda>e.
     bindR (sub_usize e start) (\<lambda>len.
     bindR (data_start A buf n) (\<lambda>ds.
     bindR (copy_within buf ds start (ds + len)) (\<lambda>buf.
     bindR (fill_zero buf ds (ds + len)) (\<lambda>buf.
     bindR (foldR (move_up A len) [0..<pos] buf) (\<lambda>buf.
     let slot = slot_offset A pos; slots_end = slot_offset A n in
     bindR (copy_within buf (slot + SLOT_ENCODED_BYTES) slots_end slot) (\<lambda>buf.
     bindR (sub_usize slots_end SLOT_ENCODED_BYTES) (\<lambda>last.
     fill_zero buf last slots_end))))))))))"

section \<open>The canonical bytes of entries\<close>

text \<open>The bytes of entries packed against the end of the page, and of their slots when \<open>t\<close> more bytes follow.\<close>

type_synonym entries = "(bytes \<times> bytes) list"

definition data_bytes :: "entries \<Rightarrow> bytes" where
  "data_bytes es = concat (map (\<lambda>(k, v). k @ v) es)"

abbreviation data_len :: "entries \<Rightarrow> nat" where
  "data_len es \<equiv> length (data_bytes es)"

fun slot_bytes :: "nat \<Rightarrow> entries \<Rightarrow> bytes" where
  "slot_bytes t [] = []"
| "slot_bytes t (e # es) = to_le_bytes (word_of_nat (PAGE_SIZE - (t + data_len (e # es))) :: u16) @ slot_bytes t es"

definition area_fits :: "EntryArea \<Rightarrow> entries \<Rightarrow> bool" where
  "area_fits A es \<longleftrightarrow> slots_start A \<le> PAGE_SIZE \<and> (\<forall>e \<in> set es. length (snd e) = payload_len A) \<and>
     2 * length es + data_len es \<le> area_capacity A"

definition area_page :: "EntryArea \<Rightarrow> bytes \<Rightarrow> entries \<Rightarrow> bytes" where
  "area_page A h es = h @ slot_bytes 0 es @ replicate (area_capacity A - (2 * length es + data_len es)) 0 @ data_bytes es"

lemma data_bytes_simps [simp]: "data_bytes [] = []" "data_bytes (e # es) = fst e @ snd e @ data_bytes es"
  "data_bytes (es @ fs) = data_bytes es @ data_bytes fs"
  by (simp_all add: data_bytes_def split: prod.split)

lemma slot_bytes_length [simp]: "length (slot_bytes t es) = 2 * length es"
  by (induction es) simp_all

lemma slot_bytes_append: "slot_bytes t (es @ fs) = slot_bytes (t + data_len fs) es @ slot_bytes t fs"
  by (induction es) (simp_all add: ac_simps)

lemma area_page_length: "area_fits A es \<Longrightarrow> length h = slots_start A \<Longrightarrow> length (area_page A h es) = PAGE_SIZE"
  by (auto simp: area_page_def area_fits_def area_capacity_def)

lemma page_offset_ok: "at \<le> PAGE_SIZE \<Longrightarrow> page_offset at = Ok (word_of_nat at)"
  by (simp add: page_offset_def PAGE_SIZE_def)

lemma unat_offset: "at \<le> PAGE_SIZE \<Longrightarrow> unat (word_of_nat at :: u16) = at"
  by (simp add: PAGE_SIZE_def unat_of_nat_eq)

text \<open>Reading and writing a slot between the slots before it and what follows it.\<close>

lemma start_at:
  assumes "buf = h @ s @ to_le_bytes (word_of_nat at :: u16) @ rest" "length h = slots_start A" "length s = 2 * i" "at \<le> PAGE_SIZE"
  shows "area_start A buf i = Ok at"
proof -
  let ?L = "to_le_bytes (word_of_nat at :: u16)" and ?o = "slots_start A + i * 2"
  have b: "buf = (h @ s) @ ?L @ rest" using assms(1) by simp
  have "sub buf ?o 2 = ?L" unfolding b by (rule sub_append) (simp_all add: assms(2,3))
  moreover have "?o + 2 \<le> length buf" by (simp add: assms(1,2,3))
  ultimately show ?thesis using assms(4)
    by (simp add: area_start_def slot_offset_def SLOT_ENCODED_BYTES_def get_u16_le_def slice_get_def unat_offset)
qed

lemma put_slot:
  assumes "buf = h @ s @ g @ rest" "length h = slots_start A" "length s = 2 * i" "length g = 2"
  shows "put_u16_le buf (slot_offset A i) v = Ok (h @ s @ to_le_bytes v @ rest)"
proof -
  let ?o = "slots_start A + i * 2"
  have b: "buf = (h @ s) @ g @ rest" using assms(1) by simp
  have "patch buf ?o (to_le_bytes v) = (h @ s) @ to_le_bytes v @ rest" unfolding b by (rule patch_append) (simp_all add: assms(2,3,4))
  moreover have "?o + 2 \<le> length buf" by (simp add: assms)
  ultimately show ?thesis by (simp add: put_u16_le_def slot_offset_def SLOT_ENCODED_BYTES_def copy_from_slice_def)
qed

end
