(* ===== verification/Slotted_Correct.thy ===== *)
theory Slotted_Correct
  imports Slotted
begin

text \<open>
  Reading, inserting, replacing and removing entries of a page in canonical form: each write gives the canonical bytes of the
  updated entry list.
\<close>


section \<open>Reading a canonical page\<close>

lemma patch_front: "length d \<le> length m \<Longrightarrow> off = length a \<Longrightarrow> patch (a @ m @ c) off d = a @ d @ drop (length d) m @ c"
  by (simp add: patch_def)

lemma patch_back: "j + length d = length m \<Longrightarrow> off = length a + j \<Longrightarrow> patch (a @ m @ c) off d = a @ take j m @ d @ c"
  by (simp add: patch_def)

lemma split_nth: "i < length es \<Longrightarrow> \<exists>xs ys. es = xs @ es ! i # ys \<and> length xs = i \<and> drop i es = es ! i # ys \<and> drop (Suc i) es = ys"
  by (rule exI [of _ "take i es"]) (simp add: id_take_nth_drop Cons_nth_drop_Suc)

lemma fits_parts:
  assumes "area_fits A (xs @ ys)"
  shows "data_len ys \<le> PAGE_SIZE" "slots_start A + 2 * length (xs @ ys) + data_len (xs @ ys) \<le> PAGE_SIZE" "slots_start A \<le> PAGE_SIZE"
  using assms by (auto simp: area_fits_def area_capacity_def)

lemma area_start_page:
  assumes fits: "area_fits A es" and h: "length h = slots_start A" and i: "i < length es"
  shows "area_start A (area_page A h es) i = Ok (PAGE_SIZE - data_len (drop i es))"
proof -
  from split_nth [OF i] obtain xs ys where s: "es = xs @ es ! i # ys" "length xs = i" "drop i es = es ! i # ys" by blast
  let ?g = "replicate (area_capacity A - (2 * length es + data_len es)) 0 @ data_bytes es"
  have sb: "slot_bytes 0 es = slot_bytes (data_len (es ! i # ys)) xs @ slot_bytes 0 (es ! i # ys)"
    by (subst s(1)) (simp add: slot_bytes_append)
  have b: "area_page A h es = h @ slot_bytes (data_len (es ! i # ys)) xs @
      to_le_bytes (word_of_nat (PAGE_SIZE - data_len (es ! i # ys)) :: u16) @ (slot_bytes 0 ys @ ?g)"
    unfolding area_page_def sb by simp
  show ?thesis unfolding s(3) by (rule start_at [OF b h]) (simp_all add: s(2))
qed

lemma area_end_page:
  assumes "area_fits A es" "length h = slots_start A" "i < length es"
  shows "area_end A (area_page A h es) (length es) i = Ok (PAGE_SIZE - data_len (drop (Suc i) es))"
  using area_start_page [OF assms(1,2), of "Suc i"] assms(3) by (auto simp: area_end_def)

lemma data_start_page:
  assumes "area_fits A es" "length h = slots_start A"
  shows "data_start A (area_page A h es) (length es) = Ok (PAGE_SIZE - data_len es)"
  using area_start_page [OF assms, of 0] by (auto simp: data_start_def)

lemma area_used_page:
  assumes "area_fits A es" "length h = slots_start A"
  shows "area_used A (area_page A h es) (length es) = Ok (2 * length es + data_len es)"
  using fits_parts(1) [of A "[]" es] assms(1)
  by (simp add: area_used_def SLOT_ENCODED_BYTES_def data_start_page [OF assms])

lemma area_free_page:
  assumes "area_fits A es" "length h = slots_start A"
  shows "area_free A (area_page A h es) (length es) = Ok (area_capacity A - (2 * length es + data_len es))"
  using assms(1) by (simp add: area_free_def area_used_page [OF assms]) (simp add: area_fits_def)

lemma page_at_entry:
  assumes fits: "area_fits A (xs @ e # ys)" and h: "length h = slots_start A"
  shows "\<exists>P. area_page A h (xs @ e # ys) = P @ fst e @ snd e @ data_bytes ys \<and> length P = PAGE_SIZE - data_len (e # ys)"
proof -
  let ?es = "xs @ e # ys"
  let ?P = "h @ slot_bytes 0 ?es @ replicate (area_capacity A - (2 * length ?es + data_len ?es)) 0 @ data_bytes xs"
  have "area_page A h ?es = ?P @ fst e @ snd e @ data_bytes ys" by (simp add: area_page_def)
  moreover have "length (area_page A h ?es) = PAGE_SIZE" by (rule area_page_length [OF fits h])
  ultimately have "length ?P + data_len (e # ys) = PAGE_SIZE" by simp
  then show ?thesis using \<open>area_page A h ?es = _\<close> by (intro exI [of _ ?P]) simp
qed

lemma area_entry_page:
  assumes fits: "area_fits A es" and h: "length h = slots_start A" and i: "i < length es"
  shows "area_key A (area_page A h es) (length es) i = Ok (fst (es ! i))"
    "area_payload A (area_page A h es) (length es) i = Ok (snd (es ! i))"
proof -
  let ?b = "area_page A h es"
  from split_nth [OF i] obtain xs ys where s: "es = xs @ es ! i # ys" "drop i es = es ! i # ys" "drop (Suc i) es = ys" by blast
  from page_at_entry [of A xs "es ! i" ys h] fits h s(1) obtain P where
    P: "?b = P @ fst (es ! i) @ snd (es ! i) @ data_bytes ys" "length P = PAGE_SIZE - data_len (es ! i # ys)" by metis
  have len: "length ?b = PAGE_SIZE" by (rule area_page_length [OF fits h])
  have pl: "length (snd (es ! i)) = payload_len A" using fits i by (simp add: area_fits_def)
  have tot: "length P + (length (fst (es ! i)) + (payload_len A + data_len ys)) = PAGE_SIZE" using len pl unfolding P(1) by simp
  have e: "PAGE_SIZE - data_len ys - payload_len A = length P + length (fst (es ! i))"
    "PAGE_SIZE - data_len (es ! i # ys) = length P" "payload_len A \<le> PAGE_SIZE - data_len ys" "PAGE_SIZE - data_len ys \<le> PAGE_SIZE"
    "PAGE_SIZE - data_len ys - (PAGE_SIZE - data_len ys - payload_len A) = payload_len A"
    using tot pl by simp_all
  have k: "sub ?b (length P) (length (fst (es ! i))) = fst (es ! i)" unfolding P(1) by (rule sub_append) simp_all
  have "?b = (P @ fst (es ! i)) @ snd (es ! i) @ data_bytes ys" using P(1) by simp
  then have v: "sub ?b (length P + length (fst (es ! i))) (payload_len A) = snd (es ! i)"
    by (simp only:) (rule sub_append, simp_all add: pl)
  note r = area_start_page [OF fits h i] area_end_page [OF fits h i]
  show "area_key A ?b (length es) i = Ok (fst (es ! i))"
    using i e k len by (simp add: area_key_def r s(2,3) slice_get_def)
  show "area_payload A ?b (length es) i = Ok (snd (es ! i))"
    using i e v len by (simp add: area_payload_def r s(3) slice_get_def)
qed

lemma area_check_page:
  assumes fits: "area_fits A es" and h: "length h = slots_start A"
  shows "area_check A (area_page A h es) (length es) = Ok ()"
proof -
  let ?b = "area_page A h es" and ?n = "length es"
  have len: "length ?b = PAGE_SIZE" by (rule area_page_length [OF fits h])
  have b: "slots_start A + 2 * ?n + data_len es \<le> PAGE_SIZE" using fits_parts(2) [of A "[]" es] fits by simp
  then have "?n * 2 < 2 ^ 64" "?n * 2 + slots_start A < 2 ^ 64" by (simp_all add: PAGE_SIZE_def)
  then have slots: "Option.bind (checked_mul_usize ?n SLOT_ENCODED_BYTES) (\<lambda>b. checked_add_usize b (slots_start A)) = Some (?n * 2 + slots_start A)"
    by (simp add: checked_mul_usize_def checked_add_usize_def SLOT_ENCODED_BYTES_def)
  have step: "check_entry A ?b ?n i u = Ok ()" if "i \<in> set [0..<?n]" for i u
  proof -
    have i: "i < ?n" using that by simp
    have "drop i es = es ! i # drop (Suc i) es" using i by (simp add: Cons_nth_drop_Suc)
    moreover have "length (snd (es ! i)) = payload_len A" using fits i by (simp add: area_fits_def)
    moreover have "data_len (drop i es) \<le> PAGE_SIZE"
      using fits_parts(1) [of A "take i es" "drop i es"] fits by simp
    ultimately have "PAGE_SIZE - data_len (drop i es) + payload_len A \<le> PAGE_SIZE - data_len (drop (Suc i) es)" by simp
    then show ?thesis by (simp add: check_entry_def area_start_page [OF fits h i] area_end_page [OF fits h i])
  qed
  have "foldR (check_entry A ?b ?n) xs () = Ok ()" if "set xs \<subseteq> set [0..<?n]" for xs
    using that by (induction xs) (simp_all add: step)
  then have loop: "foldR (check_entry A ?b ?n) [0..<?n] () = Ok ()" by blast
  show ?thesis
  proof (cases "?n = 0")
    case True
    then show ?thesis using b slots len by (simp add: area_check_def)
  next
    case False
    then have n: "0 < length es" by simp
    moreover have "?n * 2 + slots_start A \<le> PAGE_SIZE - data_len es" using b by simp
    ultimately show ?thesis using b slots len loop by (simp add: area_check_def area_start_page [OF fits h n])
  qed
qed


section \<open>Writing a canonical page\<close>

lemma copy_within_split:
  assumes "buf = a @ d @ c" "i = length a" "j = length a + length d" "dst + length d \<le> length buf"
  shows "copy_within buf i j dst = Ok (patch buf dst d)"
proof -
  have "sub buf i (j - i) = d" unfolding assms(1) using assms(2,3) by (intro sub_append) simp_all
  moreover have "i \<le> j" "j \<le> length buf" "dst + (j - i) \<le> length buf" using assms by simp_all
  ultimately show ?thesis by (simp add: copy_within_def)
qed

lemma fill_zero_split:
  assumes "buf = a @ d @ c" "i = length a" "j = length a + length d"
  shows "fill_zero buf i j = Ok (a @ replicate (length d) 0 @ c)"
proof -
  have "patch buf i (replicate (j - i) 0) = a @ replicate (length d) 0 @ c"
    unfolding assms(1) using assms(2,3) by (simp add: patch_append)
  then show ?thesis using assms by (simp add: fill_zero_def)
qed

lemma copy_from_split:
  assumes "buf = a @ d @ c" "i = length a" "j = length a + length d" "length d' = length d"
  shows "copy_from_slice buf i j d' = Ok (a @ d' @ c)"
proof -
  have "patch buf i d' = a @ d' @ c" unfolding assms(1) using assms by (simp add: patch_append)
  then show ?thesis using assms by (simp add: copy_from_slice_def)
qed

lemma move_down_slots:
  assumes "length h = slots_start A" "length s = 2 * i" "t + len + data_len xs \<le> PAGE_SIZE"
  shows "foldR (move_down A len) [i..<i + length xs] (h @ s @ slot_bytes t xs @ rest) = Ok (h @ s @ slot_bytes (t + len) xs @ rest)"
  using assms
proof (induction xs arbitrary: i s)
  case (Cons e xs)
  let ?L = "\<lambda>t. to_le_bytes (word_of_nat (PAGE_SIZE - (t + data_len (e # xs))) :: u16)"
  have b: "h @ s @ slot_bytes t (e # xs) @ rest = h @ s @ ?L t @ (slot_bytes t xs @ rest)" by simp
  have st: "area_start A (h @ s @ slot_bytes t (e # xs) @ rest) i = Ok (PAGE_SIZE - (t + data_len (e # xs)))"
    by (rule start_at [OF b Cons(2,3)]) simp
  have po: "page_offset (PAGE_SIZE - (t + len + data_len (e # xs))) = Ok (word_of_nat (PAGE_SIZE - (t + len + data_len (e # xs))))"
    by (rule page_offset_ok) simp
  have put: "put_u16_le (h @ s @ slot_bytes t (e # xs) @ rest) (slot_offset A i) v = Ok (h @ s @ to_le_bytes v @ (slot_bytes t xs @ rest))" for v
    by (rule put_slot [OF b Cons(2,3)]) simp
  have su: "PAGE_SIZE - (t + data_len (e # xs)) - len = PAGE_SIZE - (t + len + data_len (e # xs))" "len \<le> PAGE_SIZE - (t + data_len (e # xs))"
    using Cons(4) by simp_all
  have step: "move_down A len i (h @ s @ slot_bytes t (e # xs) @ rest) = Ok (h @ (s @ ?L (t + len)) @ slot_bytes t xs @ rest)"
    using su by (simp add: move_down_def st po put del: slot_bytes.simps data_bytes_simps(2))
  have r: "[i..<i + length (e # xs)] = i # [Suc i..<Suc i + length xs]" by (subst upt_conv_Cons) simp_all
  have side: "length h = slots_start A" "length (s @ ?L (t + len)) = 2 * Suc i" "t + len + data_len xs \<le> PAGE_SIZE"
    using Cons(2,3,4) by simp_all
  show ?case unfolding r using Cons(1) [OF side] by (simp add: step del: data_bytes_simps(2) slot_bytes.simps) simp
qed simp

lemma move_up_slots:
  assumes "length h = slots_start A" "length s = 2 * i" "t + len + data_len xs \<le> PAGE_SIZE"
  shows "foldR (move_up A len) [i..<i + length xs] (h @ s @ slot_bytes (t + len) xs @ rest) = Ok (h @ s @ slot_bytes t xs @ rest)"
  using assms
proof (induction xs arbitrary: i s)
  case (Cons e xs)
  let ?L = "\<lambda>t. to_le_bytes (word_of_nat (PAGE_SIZE - (t + data_len (e # xs))) :: u16)"
  have b: "h @ s @ slot_bytes (t + len) (e # xs) @ rest = h @ s @ ?L (t + len) @ (slot_bytes (t + len) xs @ rest)" by simp
  have st: "area_start A (h @ s @ slot_bytes (t + len) (e # xs) @ rest) i = Ok (PAGE_SIZE - (t + len + data_len (e # xs)))"
    by (rule start_at [OF b Cons(2,3)]) simp
  have po: "page_offset (PAGE_SIZE - (t + data_len (e # xs))) = Ok (word_of_nat (PAGE_SIZE - (t + data_len (e # xs))))"
    by (rule page_offset_ok) simp
  have put: "put_u16_le (h @ s @ slot_bytes (t + len) (e # xs) @ rest) (slot_offset A i) v = Ok (h @ s @ to_le_bytes v @ (slot_bytes (t + len) xs @ rest))" for v
    by (rule put_slot [OF b Cons(2,3)]) simp
  have su: "PAGE_SIZE - (t + len + data_len (e # xs)) + len = PAGE_SIZE - (t + data_len (e # xs))"
    using Cons(4) by simp
  have step: "move_up A len i (h @ s @ slot_bytes (t + len) (e # xs) @ rest) = Ok (h @ (s @ ?L t) @ slot_bytes (t + len) xs @ rest)"
    using su by (simp add: move_up_def st po put del: slot_bytes.simps data_bytes_simps(2))
  have r: "[i..<i + length (e # xs)] = i # [Suc i..<Suc i + length xs]" by (subst upt_conv_Cons) simp_all
  have side: "length h = slots_start A" "length (s @ ?L t) = 2 * Suc i" "t + len + data_len xs \<le> PAGE_SIZE"
    using Cons(2,3,4) by simp_all
  show ?case unfolding r using Cons(1) [OF side] by (simp add: step del: data_bytes_simps(2) slot_bytes.simps) simp
qed simp

lemma put_entry_split:
  assumes buf: "buf = h @ s @ g @ r @ x @ d" and h: "length h = slots_start A" "length s = 2 * i" "length g = 2"
    and at: "at = length (h @ s @ g @ r)" "at \<le> PAGE_SIZE" and x: "length x = length k + length v" "length v = payload_len A"
  shows "put_entry A buf i at k v = Ok (at + length x, h @ s @ to_le_bytes (word_of_nat at :: u16) @ r @ k @ v @ d)"
proof -
  let ?L = "to_le_bytes (word_of_nat at :: u16)"
  have x': "x = take (length k) x @ drop (length k) x" by simp
  have b1: "put_u16_le buf (slot_offset A i) (word_of_nat at) = Ok (h @ s @ ?L @ r @ x @ d)"
    using put_slot [of buf h s g "r @ x @ d" A i "word_of_nat at"] buf h by simp
  have b2: "copy_from_slice (h @ s @ ?L @ r @ x @ d) at (at + length k) k = Ok ((h @ s @ ?L @ r) @ k @ (drop (length k) x @ d))"
    using x(1) at h by (intro copy_from_split [where d = "take (length k) x"]) (simp_all add: x' [symmetric] flip: append_assoc)
  have b3: "copy_from_slice (h @ s @ ?L @ r @ k @ drop (length k) x @ d) (at + length k) (at + length k + length v) v =
      Ok ((h @ s @ ?L @ r @ k) @ v @ d)"
    using x(1) at h by (intro copy_from_split [where d = "drop (length k) x"]) simp_all
  show ?thesis unfolding put_entry_def using x(2) at(2) by (simp add: page_offset_ok b1 b2 Let_def b3 [unfolded x(2)] x(1))
qed


abbreviation zeros :: "nat \<Rightarrow> bytes" where
  "zeros n \<equiv> replicate n 0"

text \<open>The three moves of an insertion: the entries before it go down by its length, their slots follow, and the slots behind it make
  room for one more.\<close>

lemma shift_data_down:
  assumes "length a + len + length (dx @ dy) = PAGE_SIZE"
  shows "copy_within (a @ zeros len @ dx @ dy) (PAGE_SIZE - length (dx @ dy)) (PAGE_SIZE - length dy)
    (PAGE_SIZE - length (dx @ dy) - len) = Ok (a @ dx @ drop (length dx) (zeros len @ dx) @ dy)"
proof -
  let ?b = "a @ (zeros len @ dx) @ dy"
  have "copy_within ?b (PAGE_SIZE - length (dx @ dy)) (PAGE_SIZE - length dy) (PAGE_SIZE - length (dx @ dy) - len) =
      Ok (patch ?b (PAGE_SIZE - length (dx @ dy) - len) dx)"
    using assms by (intro copy_within_split [where a = "a @ zeros len" and c = dy]) simp_all
  moreover have "patch ?b (PAGE_SIZE - length (dx @ dy) - len) dx = a @ dx @ drop (length dx) (zeros len @ dx) @ dy"
    using assms by (intro patch_front) simp_all
  ultimately show ?thesis by (simp del: drop_append)
qed

lemma shift_slots_back:
  assumes "length h = slots_start A" "length s = 2 * i" "length t = 2 * j"
  shows "copy_within (h @ s @ t @ zeros (G + 2) @ rest) (slot_offset A i) (slot_offset A (i + j)) (slot_offset A i + SLOT_ENCODED_BYTES) =
    Ok (h @ s @ take 2 (t @ zeros 2) @ t @ zeros G @ rest)"
proof -
  let ?b = "(h @ s) @ (t @ zeros 2) @ (zeros G @ rest)"
  have z: "zeros (G + 2) = zeros 2 @ zeros G" by (metis add.commute replicate_add)
  have "copy_within ?b (slot_offset A i) (slot_offset A (i + j)) (slot_offset A i + SLOT_ENCODED_BYTES) =
      Ok (patch ?b (slot_offset A i + SLOT_ENCODED_BYTES) t)"
    using assms by (intro copy_within_split [where a = "h @ s" and c = "zeros 2 @ zeros G @ rest"])
      (simp_all add: slot_offset_def SLOT_ENCODED_BYTES_def)
  moreover have "patch ?b (slot_offset A i + SLOT_ENCODED_BYTES) t = (h @ s) @ take 2 (t @ zeros 2) @ t @ (zeros G @ rest)"
    using assms by (intro patch_back) (simp_all add: slot_offset_def SLOT_ENCODED_BYTES_def)
  ultimately show ?thesis unfolding z by (simp del: take_append)
qed

lemma area_insert_page:
  assumes fits: "area_fits A (xs @ (k, v) # ys)" and h: "length h = slots_start A"
  shows "area_insert A (area_page A h (xs @ ys)) (length (xs @ ys)) (length xs) k v = Ok (area_page A h (xs @ (k, v) # ys))"
proof -
  let ?len = "length k + length v" and ?es = "xs @ ys" and ?S = slot_bytes
  let ?dx = "data_bytes xs" and ?dy = "data_bytes ys"
  let ?t = "data_len ys + ?len"
  define G where "G = area_capacity A - (2 * length (xs @ (k, v) # ys) + data_len (xs @ (k, v) # ys))"
  have v: "length v = payload_len A" and fits': "area_fits A ?es" using fits by (auto simp: area_fits_def)
  have cap: "slots_start A + 2 * length ?es + 2 + G + data_len ?es + ?len = PAGE_SIZE"
    and G: "area_capacity A - (2 * length ?es + data_len ?es) = G + 2 + ?len"
    using fits_parts(2,3) [OF fits] by (simp_all add: G_def area_capacity_def)
  define x g where "x = drop (length ?dx) (zeros ?len @ ?dx)" and "g = take 2 (?S 0 ys @ zeros 2)"
  have x: "length x = ?len" and g: "length g = 2" by (simp_all add: x_def g_def)
  have p0: "area_page A h ?es = (h @ ?S (data_len ys) xs @ ?S 0 ys @ zeros (G + 2)) @ zeros ?len @ ?dx @ ?dy"
    unfolding area_page_def G replicate_add by (simp add: slot_bytes_append)
  have "length (h @ ?S (data_len ys) xs @ ?S 0 ys @ zeros (G + 2)) + ?len + length (?dx @ ?dy) = PAGE_SIZE"
    using cap h by simp
  note s1 = shift_data_down [OF this, folded x_def data_bytes_simps(3) p0, unfolded append_assoc]
  have s2: "foldR (move_down A ?len) [0..<length xs] (h @ ?S (data_len ys) xs @ rest) = Ok (h @ ?S ?t xs @ rest)" for rest
    using move_down_slots [OF h, of "[]" 0 "data_len ys" ?len xs rest] cap by simp
  have s3: "copy_within (h @ ?S ?t xs @ ?S 0 ys @ zeros (G + 2) @ rest) (slot_offset A (length xs)) (slot_offset A (length ?es))
      (slot_offset A (length xs) + SLOT_ENCODED_BYTES) = Ok (h @ ?S ?t xs @ g @ ?S 0 ys @ zeros G @ rest)" for rest
    unfolding g_def length_append by (rule shift_slots_back [OF h]) simp_all
  have s4: "put_entry A (h @ ?S ?t xs @ g @ ?S 0 ys @ zeros G @ ?dx @ x @ ?dy) (length xs) (PAGE_SIZE - data_len ys - ?len) k v =
      Ok (PAGE_SIZE - data_len ys - ?len + length x, area_page A h (xs @ (k, v) # ys))"
  proof -
    have p: "area_page A h (xs @ (k, v) # ys) =
        h @ ?S ?t xs @ to_le_bytes (word_of_nat (PAGE_SIZE - data_len ys - ?len) :: u16) @ (?S 0 ys @ zeros G @ ?dx) @ k @ v @ ?dy"
      unfolding area_page_def G_def [symmetric] by (simp add: slot_bytes_append ac_simps)
    show ?thesis unfolding p using cap h x g v by (intro put_entry_split [where g = g and x = x]) simp_all
  qed
  have at: "(if length xs < length ?es then area_start A (area_page A h ?es) (length xs) else Ok PAGE_SIZE) = Ok (PAGE_SIZE - data_len ys)"
    using area_start_page [OF fits' h, of "length xs"] by auto
  have le: "?len \<le> PAGE_SIZE - data_len ?es" "?len \<le> PAGE_SIZE - data_len ys" "entry_cost A (length k) \<le> G + 2 + ?len" "length xs \<le> length ?es"
    using cap by (simp_all add: entry_cost_def SLOT_ENCODED_BYTES_def v)
  show ?thesis
    unfolding area_insert_def Let_def area_free_page [OF fits' h] data_start_page [OF fits' h] at G
    using le by (simp add: s1 s2 s3 s4 del: length_append data_bytes_simps diff_diff_left replicate_Suc add_2_eq_Suc')
qed

text \<open>The moves of a removal: the entries before it go up over it, their slots follow, and the slots behind it close the gap; the
  freed bytes are zeroed.\<close>

lemma shift_data_up:
  assumes "length a + length (dx @ e @ dy) = PAGE_SIZE"
  shows "copy_within (a @ dx @ e @ dy) (PAGE_SIZE - length (dx @ e @ dy)) (PAGE_SIZE - length (e @ dy)) (PAGE_SIZE - length (dx @ e @ dy) + length e) =
      Ok (a @ take (length e) (dx @ e) @ dx @ dy)"
    "fill_zero (a @ take (length e) (dx @ e) @ dx @ dy) (PAGE_SIZE - length (dx @ e @ dy)) (PAGE_SIZE - length (dx @ e @ dy) + length e) =
      Ok (a @ zeros (length e) @ dx @ dy)"
proof -
  let ?b = "a @ (dx @ e) @ dy" and ?ds = "PAGE_SIZE - length (dx @ e @ dy)"
  have "copy_within ?b ?ds (PAGE_SIZE - length (e @ dy)) (?ds + length e) = Ok (patch ?b (?ds + length e) dx)"
    using assms by (intro copy_within_split [where a = a and c = "e @ dy"]) simp_all
  moreover have "patch ?b (?ds + length e) dx = a @ take (length e) (dx @ e) @ dx @ dy"
    using assms by (intro patch_back) simp_all
  ultimately show "copy_within (a @ dx @ e @ dy) ?ds (PAGE_SIZE - length (e @ dy)) (?ds + length e) =
      Ok (a @ take (length e) (dx @ e) @ dx @ dy)" by (simp del: take_append)
  have "length (take (length e) (dx @ e)) = length e" by simp
  then show "fill_zero (a @ take (length e) (dx @ e) @ dx @ dy) ?ds (?ds + length e) = Ok (a @ zeros (length e) @ dx @ dy)"
    using assms fill_zero_split [OF refl, of "length a" a "length a + length e" "take (length e) (dx @ e)" "dx @ dy"]
    by (simp del: take_append flip: assms)
qed

lemma shift_slots_front:
  assumes "length h = slots_start A" "length s = 2 * i" "length g = 2" "length t = 2 * j"
  shows "copy_within (h @ s @ g @ t @ rest) (slot_offset A i + SLOT_ENCODED_BYTES) (slot_offset A (i + Suc j)) (slot_offset A i) =
      Ok (h @ s @ t @ drop (length t) (g @ t) @ rest)"
    "fill_zero (h @ s @ t @ drop (length t) (g @ t) @ rest) (slot_offset A (i + Suc j) - SLOT_ENCODED_BYTES) (slot_offset A (i + Suc j)) =
      Ok (h @ s @ t @ zeros 2 @ rest)"
proof -
  let ?b = "(h @ s) @ (g @ t) @ rest"
  have "copy_within ?b (slot_offset A i + SLOT_ENCODED_BYTES) (slot_offset A (i + Suc j)) (slot_offset A i) = Ok (patch ?b (slot_offset A i) t)"
    using assms by (intro copy_within_split [where a = "h @ s @ g" and c = rest]) (simp_all add: slot_offset_def SLOT_ENCODED_BYTES_def)
  moreover have "patch ?b (slot_offset A i) t = (h @ s) @ t @ drop (length t) (g @ t) @ rest"
    using assms by (intro patch_front) (simp_all add: slot_offset_def SLOT_ENCODED_BYTES_def)
  ultimately show "copy_within (h @ s @ g @ t @ rest) (slot_offset A i + SLOT_ENCODED_BYTES) (slot_offset A (i + Suc j)) (slot_offset A i) =
      Ok (h @ s @ t @ drop (length t) (g @ t) @ rest)" by (simp del: drop_append)
  have "length (drop (length t) (g @ t)) = 2" using assms(3) by simp
  then show "fill_zero (h @ s @ t @ drop (length t) (g @ t) @ rest) (slot_offset A (i + Suc j) - SLOT_ENCODED_BYTES) (slot_offset A (i + Suc j)) =
      Ok (h @ s @ t @ zeros 2 @ rest)"
    using assms fill_zero_split [OF refl, of "slot_offset A (i + Suc j) - SLOT_ENCODED_BYTES" "h @ s @ t" "slot_offset A (i + Suc j)" "drop (length t) (g @ t)" rest]
    by (simp add: slot_offset_def SLOT_ENCODED_BYTES_def del: drop_append)
qed

lemma area_remove_page:
  assumes fits: "area_fits A (xs @ e # ys)" and h: "length h = slots_start A"
  shows "area_remove A (area_page A h (xs @ e # ys)) (length (xs @ e # ys)) (length xs) = Ok (area_page A h (xs @ ys))"
proof -
  let ?es = "xs @ e # ys" and ?S = slot_bytes and ?dx = "data_bytes xs" and ?dy = "data_bytes ys" and ?e = "fst e @ snd e"
  let ?L = "to_le_bytes (word_of_nat (PAGE_SIZE - data_len (e # ys)) :: u16)"
  define G where "G = area_capacity A - (2 * length ?es + data_len ?es)"
  have cap: "slots_start A + 2 * length ?es + G + data_len ?es = PAGE_SIZE"
    and G: "area_capacity A - (2 * length (xs @ ys) + data_len (xs @ ys)) = 2 + G + length ?e"
    using fits_parts(2,3) [OF fits] by (simp_all add: G_def area_capacity_def)
  let ?a = "h @ ?S (data_len ys + length ?e) xs @ ?L @ ?S 0 ys @ zeros G"
  have d: "data_bytes ?es = ?dx @ ?e @ ?dy" "data_bytes (e # ys) = ?e @ ?dy" by simp_all
  have p0: "area_page A h ?es = ?a @ ?dx @ ?e @ ?dy"
    unfolding area_page_def G_def [symmetric] by (simp add: slot_bytes_append ac_simps)
  have p1: "area_page A h (xs @ ys) = h @ ?S (data_len ys) xs @ ?S 0 ys @ zeros 2 @ zeros G @ zeros (length ?e) @ ?dx @ ?dy"
    unfolding area_page_def G replicate_add by (simp add: slot_bytes_append)
  have "length ?a + length (?dx @ ?e @ ?dy) = PAGE_SIZE" using cap h by simp
  note s1 = shift_data_up [OF this]
  have s2: "foldR (move_up A (length ?e)) [0..<length xs] (h @ ?S (data_len ys + length ?e) xs @ rest) = Ok (h @ ?S (data_len ys) xs @ rest)" for rest
    using move_up_slots [OF h, of "[]" 0 "data_len ys" "length ?e" xs rest] cap by simp
  note s3 = shift_slots_front [OF h, of "?S (data_len ys) xs" "length xs" ?L "?S 0 ys" "length ys" "zeros G @ zeros (length ?e) @ ?dx @ ?dy"]
  have ends: "PAGE_SIZE - length ?dy - (PAGE_SIZE - length (?e @ ?dy)) = length ?e" "PAGE_SIZE - length (?e @ ?dy) \<le> PAGE_SIZE - length ?dy"
    "length xs < length ?es" "length ?es = length xs + Suc (length ys)" "SLOT_ENCODED_BYTES \<le> slot_offset A (length xs + Suc (length ys))"
    using cap by (simp_all add: slot_offset_def)
  have "drop (length xs) ?es = e # ys" "drop (Suc (length xs)) ?es = ys" by simp_all
  note r = area_start_page [OF fits h ends(3), unfolded this] area_end_page [OF fits h ends(3), unfolded this]
  show ?thesis
    unfolding area_remove_def Let_def r data_start_page [OF fits h] d
    using ends by (simp add: p0 p1 s1 [unfolded append_assoc] s2 s3 [unfolded add_Suc_right slot_bytes_length] del: length_append data_bytes_simps diff_diff_left replicate_Suc take_append drop_append)
qed

lemma set_payload_page:
  assumes fits: "area_fits A (xs @ (k, v) # ys)" and h: "length h = slots_start A" and w: "length w = payload_len A"
  shows "set_payload A (area_page A h (xs @ (k, v) # ys)) (length (xs @ (k, v) # ys)) (length xs) w = Ok (area_page A h (xs @ (k, w) # ys))"
proof -
  let ?es = "xs @ (k, v) # ys" and ?fs = "xs @ (k, w) # ys"
  have v: "length v = length w" using fits w by (simp add: area_fits_def)
  let ?P = "h @ slot_bytes 0 ?es @ zeros (area_capacity A - (2 * length ?es + data_len ?es)) @ data_bytes xs @ k"
  have p: "area_page A h ?es = ?P @ v @ data_bytes ys" by (simp add: area_page_def)
  have q: "area_page A h ?fs = ?P @ w @ data_bytes ys" by (simp add: area_page_def slot_bytes_append v)
  have len: "length ?P + length v + data_len ys = PAGE_SIZE"
    using area_page_length [OF fits h] unfolding p by simp
  have "drop (Suc (length xs)) ?es = ys" "length xs < length ?es" by simp_all
  note e = area_end_page [OF fits h this(2), unfolded this(1)]
  have c: "copy_from_slice (?P @ v @ data_bytes ys) (PAGE_SIZE - data_len ys - payload_len A) (PAGE_SIZE - data_len ys) w = Ok (?P @ w @ data_bytes ys)"
    using len v w by (intro copy_from_split [where d = v]) simp_all
  have "payload_len A \<le> PAGE_SIZE - data_len ys" using len v w by simp
  then show ?thesis unfolding set_payload_def e using w by (simp add: c [folded p q] del: diff_diff_left)
qed

text \<open>An encoder's loop: it writes the entries one behind the other into the zeroed page, with their slots.\<close>

fun put_entries :: "EntryArea \<Rightarrow> nat \<Rightarrow> nat \<Rightarrow> bytes \<Rightarrow> entries \<Rightarrow> ('e, nat \<times> bytes) result" where
  "put_entries A i at buf [] = Ok (at, buf)"
| "put_entries A i at buf ((k, v) # es) = bindR (put_entry A buf i at k v) (\<lambda>(at, buf). put_entries A (Suc i) at buf es)"

lemma put_entries_from:
  assumes "area_fits A (xs @ ys)" "length h = slots_start A" "G = area_capacity A - (2 * length (xs @ ys) + data_len (xs @ ys))"
  shows "put_entries A (length xs) (PAGE_SIZE - data_len ys)
      (h @ slot_bytes (data_len ys) xs @ zeros (2 * length ys + G) @ data_bytes xs @ zeros (data_len ys)) ys =
    Ok (PAGE_SIZE, area_page A h (xs @ ys))"
  using assms
proof (induction ys arbitrary: xs)
  case Nil
  then show ?case by (simp add: area_page_def)
next
  case (Cons e ys)
  obtain k v where e: "e = (k, v)" by force
  let ?S = "slot_bytes (data_len (e # ys)) xs" and ?at = "PAGE_SIZE - data_len (e # ys)"
  let ?r = "zeros (2 * length ys + G) @ data_bytes xs"
  have v: "length v = payload_len A" using Cons(2) e by (simp add: area_fits_def)
  have cap: "slots_start A + 2 * length (xs @ e # ys) + G + data_len (xs @ e # ys) = PAGE_SIZE"
    using fits_parts(2,3) [OF Cons(2)] Cons(4) by (simp add: area_capacity_def)
  have b: "h @ ?S @ zeros (2 * length (e # ys) + G) @ data_bytes xs @ zeros (data_len (e # ys)) =
      h @ ?S @ zeros 2 @ ?r @ zeros (length k + length v) @ zeros (data_len ys)"
  proof -
    have "zeros (2 * length (e # ys) + G) = zeros 2 @ zeros (2 * length ys + G)" by (simp add: numeral_2_eq_2)
    moreover have "zeros (data_len (e # ys)) = zeros (length k + length v) @ zeros (data_len ys)" by (simp add: e flip: replicate_add)
    ultimately show ?thesis by simp
  qed
  have at: "?at = length (h @ ?S @ zeros 2 @ ?r)" "?at + (length k + length v) = PAGE_SIZE - data_len ys" using cap Cons(3) by (simp_all add: e)
  have p: "put_entry A (h @ ?S @ zeros (2 * length (e # ys) + G) @ data_bytes xs @ zeros (data_len (e # ys))) (length xs) ?at k v =
      Ok (?at + length (zeros (length k + length v)), h @ ?S @ to_le_bytes (word_of_nat ?at :: u16) @ ?r @ k @ v @ zeros (data_len ys))"
    unfolding b by (rule put_entry_split [OF refl Cons(3)]) (use at(1) v in simp_all)
  note p = p [unfolded length_replicate at(2)]
  have "xs @ e # ys = (xs @ [e]) @ ys" by simp
  then have side: "area_fits A ((xs @ [e]) @ ys)" "G = area_capacity A - (2 * length ((xs @ [e]) @ ys) + data_len ((xs @ [e]) @ ys))"
    using Cons.prems(1,3) by metis+
  show ?case using Cons.IH [OF side(1) Cons.prems(2) side(2)] unfolding e put_entries.simps p [unfolded e]
    by (simp add: slot_bytes_append ac_simps)
qed

lemma put_entries_page:
  assumes "area_fits A es" "length h = slots_start A"
  shows "put_entries A 0 (PAGE_SIZE - data_len es) (h @ zeros (area_capacity A)) es = Ok (PAGE_SIZE, area_page A h es)"
proof -
  have "zeros (area_capacity A) = zeros (2 * length es + (area_capacity A - (2 * length es + data_len es))) @ zeros (data_len es)"
    using assms(1) by (simp add: area_fits_def flip: replicate_add)
  then show ?thesis using put_entries_from [of A "[]" es h] assms by simp
qed

end
