(* ===== verification/BPlus_Page.thy ===== *)
theory BPlus_Page
  imports Slotted_Correct "HOL-Library.List_Lexorder"
begin

text \<open>
  The byte layout of a tree of keys and its internal pages, from \<open>src/src/index/b_plus_page.rs\<close>: constants, \<open>Layout\<close>, \<open>balanced_split\<close> and
  \<open>InternalPage\<close>. A failed assertion, of debug builds too, is a \<open>Panic\<close>.
\<close>


section \<open>Vectors\<close>

text \<open>\<open>Vec::insert\<close>, \<open>Vec::remove\<close> and \<open>Vec::split_off\<close>, which panic out of range, and \<open>slice::partition_point\<close> on a slice that starts with
  the elements the predicate holds of.\<close>

definition vec_insert :: "'a list \<Rightarrow> nat \<Rightarrow> 'a \<Rightarrow> ('e, 'a list) result" where
  "vec_insert xs i x = (if i \<le> length xs then Ok (take i xs @ x # drop i xs) else Panic)"

definition vec_remove :: "'a list \<Rightarrow> nat \<Rightarrow> ('e, 'a \<times> 'a list) result" where
  "vec_remove xs i = (if i < length xs then Ok (xs ! i, take i xs @ drop (Suc i) xs) else Panic)"

definition vec_split_off :: "'a list \<Rightarrow> nat \<Rightarrow> ('e, 'a list \<times> 'a list) result" where
  "vec_split_off xs i = (if i \<le> length xs then Ok (take i xs, drop i xs) else Panic)"

definition vec_pop :: "'a list \<Rightarrow> ('a \<times> 'a list) option" where
  "vec_pop xs = (if xs = [] then None else Some (last xs, butlast xs))"

definition vec_first :: "'a list \<Rightarrow> 'a option" where
  "vec_first xs = (if xs = [] then None else Some (hd xs))"

definition vec_last :: "'a list \<Rightarrow> 'a option" where
  "vec_last xs = (if xs = [] then None else Some (last xs))"

definition slice_partition_point :: "('a \<Rightarrow> bool) \<Rightarrow> 'a list \<Rightarrow> nat" where
  "slice_partition_point pred xs = length (takeWhile pred xs)"

section \<open>Layout\<close>

text \<open>\<open>IndexKey\<close> wraps its bytes and orders them lexicographically.\<close>

type_synonym IndexKey = bytes

definition LEAF_TOMBSTONE_CAPACITY :: u32 where "LEAF_TOMBSTONE_CAPACITY = 16"
definition PAGE_ID_ENCODED_BYTES :: nat where "PAGE_ID_ENCODED_BYTES = U64_BYTES"
definition RECORD_ID_ENCODED_BYTES :: nat where "RECORD_ID_ENCODED_BYTES = 2 * U64_BYTES"
definition TOMBSTONE_COUNT_ENCODED_BYTES :: nat where "TOMBSTONE_COUNT_ENCODED_BYTES = U32_BYTES"
definition TOMBSTONE_SLOT_ENCODED_BYTES :: nat where "TOMBSTONE_SLOT_ENCODED_BYTES = U32_BYTES"
definition SIZE_FIELD_BYTES :: nat where "SIZE_FIELD_BYTES = U32_BYTES"
definition RESERVED_FIELD_BYTES :: nat where "RESERVED_FIELD_BYTES = U32_BYTES"
definition KEY_LEN_FIELD_BYTES :: nat where "KEY_LEN_FIELD_BYTES = U32_BYTES"
definition NODE_SIZE_OFFSET :: nat where "NODE_SIZE_OFFSET = COMMON_HEADER_BYTES"
definition NODE_PAGE_ID_OFFSET :: nat where "NODE_PAGE_ID_OFFSET = COMMON_HEADER_BYTES + SIZE_FIELD_BYTES + RESERVED_FIELD_BYTES"
definition INTERNAL_FIXED_HEADER_BYTES :: nat where "INTERNAL_FIXED_HEADER_BYTES = NODE_PAGE_ID_OFFSET + PAGE_ID_ENCODED_BYTES"
definition LEAF_FIXED_HEADER_BYTES :: nat where "LEAF_FIXED_HEADER_BYTES = NODE_PAGE_ID_OFFSET + PAGE_ID_ENCODED_BYTES"
definition HEADER_FIXED_HEADER_BYTES :: nat where
  "HEADER_FIXED_HEADER_BYTES = COMMON_HEADER_BYTES + KEY_LEN_FIELD_BYTES + RESERVED_FIELD_BYTES + PAGE_ID_ENCODED_BYTES + PAGE_ID_ENCODED_BYTES"
definition MIN_ENTRIES_PER_PAGE :: nat where "MIN_ENTRIES_PER_PAGE = 4"

definition leaf_slots_start :: "nat \<Rightarrow> nat" where
  "leaf_slots_start tombstones = LEAF_FIXED_HEADER_BYTES + TOMBSTONE_COUNT_ENCODED_BYTES + tombstones * TOMBSTONE_SLOT_ENCODED_BYTES"

definition INTERNAL_AREA :: EntryArea where
  "INTERNAL_AREA = EntryArea_new INTERNAL_FIXED_HEADER_BYTES PAGE_ID_ENCODED_BYTES"

definition longest_key_for :: "EntryArea \<Rightarrow> ('e, nat) result" where
  "longest_key_for A = sub_usize (area_capacity A div MIN_ENTRIES_PER_PAGE) (entry_cost A 0)"

definition MAX_KEY_LEN :: "('e, nat) result" where
  "MAX_KEY_LEN =
     bindR (longest_key_for (EntryArea_new (leaf_slots_start (unat LEAF_TOMBSTONE_CAPACITY)) RECORD_ID_ENCODED_BYTES)) (\<lambda>leaf.
     bindR (longest_key_for INTERNAL_AREA) (\<lambda>internal. Ok (if leaf < internal then leaf else internal)))"

definition ensure_fits_page :: "nat \<Rightarrow> (PageCodecError, unit) result" where
  "ensure_fits_page nd = (if nd > PAGE_SIZE then Err (CodecBuffer (BufferTooSmall nd PAGE_SIZE)) else Ok ())"

datatype Edge = First | Last

record Layout =
  max_key_len :: nat
  tombstone_capacity :: nat

definition Layout_build :: "u32 \<Rightarrow> u32 \<Rightarrow> (PageCodecError, Layout) result" where
  "Layout_build key_len tombstones =
     bindR (ok_or (if unat key_len = 0 then None else Some (unat key_len)) (Malformed ''key_len must be > 0'')) (\<lambda>max_key.
     let capacity = unat tombstones in
     bindR (ok_or (case Option.bind (checked_mul_usize TOMBSTONE_SLOT_ENCODED_BYTES capacity) (\<lambda>b. checked_add_usize b (leaf_slots_start 0)) of
                     Some start \<Rightarrow> if start < PAGE_SIZE then Some start else None
                   | None \<Rightarrow> None) (Malformed ''tombstones do not fit in a leaf'')) (\<lambda>leaf_slots.
     bindR (longest_key_for (EntryArea_new leaf_slots RECORD_ID_ENCODED_BYTES)) (\<lambda>leaf.
     bindR (longest_key_for INTERNAL_AREA) (\<lambda>internal.
     if max_key > min leaf internal then Err (Malformed ''keys that long do not fit four to a page'')
     else Ok \<lparr>max_key_len = max_key, tombstone_capacity = capacity\<rparr>))))"

definition Layout_new :: "u32 \<Rightarrow> (PageCodecError, Layout) result" where
  "Layout_new key_len = Layout_build key_len LEAF_TOMBSTONE_CAPACITY"

definition leaf_area :: "Layout \<Rightarrow> EntryArea" where
  "leaf_area L = EntryArea_new (leaf_slots_start (tombstone_capacity L)) RECORD_ID_ENCODED_BYTES"

definition internal_area :: "Layout \<Rightarrow> EntryArea" where
  "internal_area L = INTERNAL_AREA"

definition leaf_tombstone_count_offset :: "Layout \<Rightarrow> nat" where
  "leaf_tombstone_count_offset L = LEAF_FIXED_HEADER_BYTES"

definition leaf_tombstone_offset :: "Layout \<Rightarrow> nat \<Rightarrow> nat" where
  "leaf_tombstone_offset L i = LEAF_FIXED_HEADER_BYTES + TOMBSTONE_COUNT_ENCODED_BYTES + i * TOMBSTONE_SLOT_ENCODED_BYTES"

definition leaf_max_entry_bytes :: "Layout \<Rightarrow> nat" where
  "leaf_max_entry_bytes L = entry_cost (leaf_area L) (max_key_len L)"

definition internal_max_entry_bytes :: "Layout \<Rightarrow> nat" where
  "internal_max_entry_bytes L = entry_cost INTERNAL_AREA (max_key_len L)"

definition leaf_min_used :: "Layout \<Rightarrow> nat" where
  "leaf_min_used L = (area_capacity (leaf_area L) - leaf_max_entry_bytes L) div 2"

definition internal_min_used :: "Layout \<Rightarrow> nat" where
  "internal_min_used L = (area_capacity INTERNAL_AREA - 2 * internal_max_entry_bytes L) div 2"

definition check_key :: "Layout \<Rightarrow> IndexKey \<Rightarrow> (PageCodecError, unit) result" where
  "check_key L key = (if length key > max_key_len L then Err (KeyTooLong (max_key_len L) (length key)) else Ok ())"

text \<open>The loop of \<open>balanced_split\<close>: the index, the bytes to its left and the best split so far.\<close>

fun split_loop :: "nat \<Rightarrow> bool \<Rightarrow> nat \<Rightarrow> nat \<Rightarrow> nat \<times> nat \<Rightarrow> nat list \<Rightarrow> nat \<times> nat" where
  "split_loop tot drop_middle split left best [] = best"
| "split_loop tot drop_middle split left best (cost # costs) =
     (let right = tot - left - (if drop_middle then cost else 0);
          gap = (if left < right then right - left else left - right);
          best = (if split > 0 \<and> gap < fst best then (gap, split) else best)
      in split_loop tot drop_middle (split + 1) (left + cost) best costs)"

definition balanced_split :: "nat list \<Rightarrow> bool \<Rightarrow> nat" where
  "balanced_split costs drop_middle = snd (split_loop (sum_list costs) drop_middle 0 0 (2 ^ 64 - 1, 1) costs)"

datatype PageKind = KindInternal | KindLeaf

definition page_kind :: "bytes \<Rightarrow> (PageCodecError, PageKind) result" where
  "page_kind buf =
     bindR (peek_common_header buf) (\<lambda>k.
       if k = KIND_INTERNAL then Ok KindInternal else if k = KIND_LEAF then Ok KindLeaf else Err (InvalidPageKind k))"

section \<open>Internal pages\<close>

record InternalPage =
  ip_layout :: Layout
  ip_children :: "PageId list"
  ip_keys :: "IndexKey list"

definition InternalPage_new :: "Layout \<Rightarrow> InternalPage" where
  "InternalPage_new L = \<lparr>ip_layout = L, ip_children = [], ip_keys = []\<rparr>"

definition get_child :: "InternalPage \<Rightarrow> nat \<Rightarrow> PageId option" where
  "get_child p idx = (if idx < length (ip_children p) then Some (ip_children p ! idx) else None)"

definition ip_cost :: "IndexKey \<Rightarrow> nat" where
  "ip_cost key = entry_cost INTERNAL_AREA (length key)"

definition ip_used_bytes :: "InternalPage \<Rightarrow> nat" where
  "ip_used_bytes p = sum_list (map ip_cost (ip_keys p))"

definition ip_check :: "InternalPage \<Rightarrow> (PageCodecError, unit) result" where
  "ip_check p =
     (if ip_children p = [] \<and> ip_keys p = [] then Ok ()
      else if length (ip_children p) \<noteq> length (ip_keys p) + 1 then Err (Malformed ''internal invariant violated: child_count != size + 1'')
      else if \<not> sorted (ip_keys p) then Err (Malformed ''internal keys out of order'')
      else foldR (\<lambda>key _. check_key (ip_layout p) key) (ip_keys p) ())"

definition ip_debug_check :: "InternalPage \<Rightarrow> ('e, unit) result" where
  "ip_debug_check p = assertR (ip_check p = Ok ())"

definition new_root :: "Layout \<Rightarrow> PageId \<Rightarrow> IndexKey \<Rightarrow> PageId \<Rightarrow> ('e, InternalPage) result" where
  "new_root L left separator right =
     (let root = \<lparr>ip_layout = L, ip_children = [left, right], ip_keys = [separator]\<rparr>
      in bindR (ip_debug_check root) (\<lambda>_. Ok root))"

definition find_child_index :: "InternalPage \<Rightarrow> IndexKey \<Rightarrow> nat" where
  "find_child_index p key = slice_partition_point (\<lambda>k. k \<le> key) (ip_keys p)"

definition insert_separator :: "InternalPage \<Rightarrow> IndexKey \<Rightarrow> PageId \<Rightarrow> ('e, InternalPage) result" where
  "insert_separator p sep_key right_child =
     (let i = find_child_index p sep_key in
      bindR (assertR (i < length (ip_children p))) (\<lambda>_.
      bindR (vec_insert (ip_keys p) i sep_key) (\<lambda>keys.
      bindR (vec_insert (ip_children p) (i + 1) right_child) (\<lambda>children.
      let p = p\<lparr>ip_children := children, ip_keys := keys\<rparr>
      in bindR (ip_debug_check p) (\<lambda>_. Ok p)))))"

definition ip_split_into :: "InternalPage \<Rightarrow> InternalPage \<Rightarrow> ('e, IndexKey \<times> InternalPage \<times> InternalPage) result" where
  "ip_split_into p right =
     bindR (assertR (ip_children right = [] \<and> ip_keys right = [])) (\<lambda>_.
     bindR (assertR (length (ip_keys p) \<ge> 3)) (\<lambda>_.
     bindR (ip_debug_check p) (\<lambda>_.
     let mid = min (balanced_split (map ip_cost (ip_keys p)) True) (length (ip_keys p) - 2) in
     bindR (vec_split_off (ip_keys p) (mid + 1)) (\<lambda>(keys, right_keys).
     bindR (expectR (vec_pop keys)) (\<lambda>(sep_key, keys).
     bindR (vec_split_off (ip_children p) (mid + 1)) (\<lambda>(children, right_children).
     let p = p\<lparr>ip_children := children, ip_keys := keys\<rparr>;
         right = right\<lparr>ip_children := right_children, ip_keys := right_keys\<rparr>
     in bindR (ip_debug_check p) (\<lambda>_. bindR (ip_debug_check right) (\<lambda>_. Ok (sep_key, p, right)))))))))"

definition ip_absorb_right :: "InternalPage \<Rightarrow> IndexKey \<Rightarrow> InternalPage \<Rightarrow> ('e, InternalPage \<times> InternalPage) result" where
  "ip_absorb_right p sep_key right =
     bindR (ip_debug_check p) (\<lambda>_.
     bindR (ip_debug_check right) (\<lambda>_.
     let p = p\<lparr>ip_children := ip_children p @ ip_children right, ip_keys := (ip_keys p @ [sep_key]) @ ip_keys right\<rparr>;
         right = right\<lparr>ip_children := [], ip_keys := []\<rparr>
     in bindR (ip_debug_check p) (\<lambda>_. Ok (p, right))))"

definition try_u32 :: "nat \<Rightarrow> (PageCodecError, u32) result" where
  "try_u32 n = ok_or (if n < 2 ^ 32 then Some (word_of_nat n) else None) OVERFLOW"

fun ip_put_entries :: "nat \<Rightarrow> nat \<Rightarrow> bytes \<Rightarrow> (IndexKey \<times> PageId) list \<Rightarrow> ('e, nat \<times> bytes) result" where
  "ip_put_entries i at buf [] = Ok (at, buf)"
| "ip_put_entries i at buf ((key, child) # es) =
     bindR (put_entry INTERNAL_AREA buf i at key (to_le_bytes (encode_page_id (Some child)))) (\<lambda>(at, buf). ip_put_entries (i + 1) at buf es)"

definition ip_encode :: "InternalPage \<Rightarrow> bytes \<Rightarrow> (PageCodecError, bytes) result" where
  "ip_encode p buf =
     bindR (ip_check p) (\<lambda>_.
     bindR (ok_or (vec_first (ip_children p)) (Malformed ''internal page has no children'')) (\<lambda>leftmost.
     bindR (ensure_fits_page (INTERNAL_FIXED_HEADER_BYTES + ip_used_bytes p)) (\<lambda>_.
     if length buf \<noteq> PAGE_SIZE then Err InvalidSize else
     bindR (put_common_header (replicate (length buf) 0) KIND_INTERNAL) (\<lambda>buf.
     bindR (try_u32 (length (ip_keys p))) (\<lambda>n.
     bindR (put_u32_le buf NODE_SIZE_OFFSET n) (\<lambda>buf.
     bindR (put_u64_le buf NODE_PAGE_ID_OFFSET (encode_page_id (Some leftmost))) (\<lambda>buf.
     let key_bytes = sum_list (map length (ip_keys p)) in
     bindR (sub_usize PAGE_SIZE key_bytes) (\<lambda>at.
     bindR (sub_usize at (length (ip_keys p) * PAGE_ID_ENCODED_BYTES)) (\<lambda>at.
     bindR (slice_get (ip_children p) 1 (length (ip_children p))) (\<lambda>rest.
     bindR (ip_put_entries 0 at buf (zip (ip_keys p) rest)) (\<lambda>(at, buf).
     bindR (assertR (at = PAGE_SIZE)) (\<lambda>_. Ok buf))))))))))))"

definition ip_decode_entry :: "bytes \<Rightarrow> nat \<Rightarrow> nat \<Rightarrow> (PageCodecError, IndexKey \<times> PageId) result" where
  "ip_decode_entry buf n i =
     bindR (area_key INTERNAL_AREA buf n i) (\<lambda>key.
     bindR (area_payload INTERNAL_AREA buf n i) (\<lambda>child.
     if length child \<noteq> 8 then Err InvalidSize else
     bindR (decode_child_page_id (from_le_bytes child)) (\<lambda>child. Ok (key, child))))"

definition ip_decode :: "bytes \<Rightarrow> Layout \<Rightarrow> (PageCodecError, InternalPage) result" where
  "ip_decode buf L =
     bindR (map_err CodecBuffer (BufReader_new buf)) (\<lambda>r.
     bindR (read_common_header_of_kind r KIND_INTERNAL) (\<lambda>r.
     bindR (map_err CodecBuffer (read_u32_le r)) (\<lambda>(n, r).
     bindR (map_err CodecBuffer (read_u32_le r)) (\<lambda>(_, r).
     bindR (map_err CodecBuffer (read_u64_le r)) (\<lambda>(raw, r).
     bindR (decode_child_page_id raw) (\<lambda>leftmost.
     let n = unat n in
     bindR (area_check INTERNAL_AREA buf n) (\<lambda>_.
     bindR (traverseR (ip_decode_entry buf n) [0..<n]) (\<lambda>es.
     let p = \<lparr>ip_layout = L, ip_children = leftmost # map snd es, ip_keys = map fst es\<rparr>
     in bindR (ip_check p) (\<lambda>_. Ok p)))))))))"

definition ip_is_overfull :: "InternalPage \<Rightarrow> bool" where
  "ip_is_overfull p \<longleftrightarrow> ip_used_bytes p > area_capacity INTERNAL_AREA"

definition ip_is_underfull :: "InternalPage \<Rightarrow> bool" where
  "ip_is_underfull p \<longleftrightarrow> ip_used_bytes p < internal_min_used (ip_layout p)"

definition ip_can_lend :: "InternalPage \<Rightarrow> Edge \<Rightarrow> bool" where
  "ip_can_lend p edge =
     (case (case edge of First \<Rightarrow> vec_first (ip_keys p) | Last \<Rightarrow> vec_last (ip_keys p)) of
        None \<Rightarrow> False
      | Some k \<Rightarrow> ip_used_bytes p - ip_cost k \<ge> internal_min_used (ip_layout p))"

definition fits_replacing :: "InternalPage \<Rightarrow> nat \<Rightarrow> IndexKey \<Rightarrow> ('e, bool) result" where
  "fits_replacing p idx new_key =
     bindR (index_get (ip_keys p) idx) (\<lambda>old.
     Ok (ip_used_bytes p - ip_cost old + ip_cost new_key \<le> area_capacity INTERNAL_AREA))"

definition remove_separator :: "InternalPage \<Rightarrow> nat \<Rightarrow> ('e, (IndexKey \<times> PageId) \<times> InternalPage) result" where
  "remove_separator p i =
     bindR (assertR (i < length (ip_keys p))) (\<lambda>_.
     bindR (assertR (i + 1 < length (ip_children p))) (\<lambda>_.
     bindR (vec_remove (ip_keys p) i) (\<lambda>(sep_key, keys).
     bindR (vec_remove (ip_children p) (i + 1)) (\<lambda>(right_child, children).
     let p = p\<lparr>ip_children := children, ip_keys := keys\<rparr>
     in bindR (ip_debug_check p) (\<lambda>_. Ok ((sep_key, right_child), p))))))"

definition pop_last_child_and_key :: "InternalPage \<Rightarrow> ('e, (IndexKey \<times> PageId) \<times> InternalPage) result" where
  "pop_last_child_and_key p =
     bindR (expectR (vec_pop (ip_children p))) (\<lambda>(child, children).
     bindR (expectR (vec_pop (ip_keys p))) (\<lambda>(key, keys).
     let p = p\<lparr>ip_children := children, ip_keys := keys\<rparr>
     in bindR (ip_debug_check p) (\<lambda>_. Ok ((key, child), p))))"

definition pop_first_child_and_key :: "InternalPage \<Rightarrow> ('e, (IndexKey \<times> PageId) \<times> InternalPage) result" where
  "pop_first_child_and_key p =
     bindR (vec_remove (ip_children p) 0) (\<lambda>(child, children).
     bindR (vec_remove (ip_keys p) 0) (\<lambda>(key, keys).
     let p = p\<lparr>ip_children := children, ip_keys := keys\<rparr>
     in bindR (ip_debug_check p) (\<lambda>_. Ok ((key, child), p))))"

definition replace_key :: "InternalPage \<Rightarrow> nat \<Rightarrow> IndexKey \<Rightarrow> ('e, IndexKey \<times> InternalPage) result" where
  "replace_key p idx new_key =
     bindR (assertR (idx < length (ip_keys p))) (\<lambda>_.
     bindR (index_get (ip_keys p) idx) (\<lambda>old.
     let p = p\<lparr>ip_keys := (ip_keys p)[idx := new_key]\<rparr>
     in bindR (ip_debug_check p) (\<lambda>_. Ok (old, p))))"

definition prepend_child_and_key :: "InternalPage \<Rightarrow> IndexKey \<Rightarrow> PageId \<Rightarrow> ('e, InternalPage) result" where
  "prepend_child_and_key p key child =
     (let p = p\<lparr>ip_children := child # ip_children p, ip_keys := key # ip_keys p\<rparr>
      in bindR (ip_debug_check p) (\<lambda>_. Ok p))"

definition append_key_and_child :: "InternalPage \<Rightarrow> IndexKey \<Rightarrow> PageId \<Rightarrow> ('e, InternalPage) result" where
  "append_key_and_child p key child =
     (let p = p\<lparr>ip_children := ip_children p @ [child], ip_keys := ip_keys p @ [key]\<rparr>
      in bindR (ip_debug_check p) (\<lambda>_. Ok p))"

end
