(* ===== verification/BPlus_Leaf.thy ===== *)
theory BPlus_Leaf
  imports BPlus_Page
begin

text \<open>
  Leaf pages and the header page of a tree, from \<open>src/src/index/b_plus_page.rs\<close>. A leaf keeps its latest deletions as tombstones, the slots
  of entries that are no longer live.
\<close>


datatype InsertError = DuplicateKey

datatype RemoveError = KeyNotFound

record LeafPage =
  lp_layout :: Layout
  lp_entries :: "(IndexKey \<times> RecordId) list"
  lp_next_leaf_id :: "PageId option"
  lp_tombstones :: "u32 list"

definition LeafPage_new :: "Layout \<Rightarrow> LeafPage" where
  "LeafPage_new L = \<lparr>lp_layout = L, lp_entries = [], lp_next_leaf_id = None, lp_tombstones = []\<rparr>"

definition first_key :: "LeafPage \<Rightarrow> IndexKey option" where
  "first_key p = map_option fst (vec_first (lp_entries p))"

definition lp_keys :: "LeafPage \<Rightarrow> IndexKey list" where
  "lp_keys p = map fst (lp_entries p)"

definition tombstones_full :: "LeafPage \<Rightarrow> bool" where
  "tombstones_full p \<longleftrightarrow> length (lp_tombstones p) \<ge> tombstone_capacity (lp_layout p)"

definition lp_cost :: "LeafPage \<Rightarrow> IndexKey \<Rightarrow> nat" where
  "lp_cost p key = entry_cost (leaf_area (lp_layout p)) (length key)"

definition lp_used_bytes :: "LeafPage \<Rightarrow> nat" where
  "lp_used_bytes p = sum_list (map (lp_cost p) (lp_keys p))"

definition lp_check :: "LeafPage \<Rightarrow> (PageCodecError, unit) result" where
  "lp_check p =
     (if \<not> sorted (lp_keys p) then Err (Malformed ''leaf keys out of order'')
      else if length (lp_tombstones p) > tombstone_capacity (lp_layout p) then Err (Malformed ''leaf tombstones count exceeds tombstone capacity'')
      else if list_ex (\<lambda>slot. unat slot \<ge> length (lp_entries p)) (lp_tombstones p) then Err (Malformed ''leaf tombstones index out of bounds'')
      else foldR (\<lambda>key _. check_key (lp_layout p) key) (lp_keys p) ())"

definition lp_debug_check :: "LeafPage \<Rightarrow> ('e, unit) result" where
  "lp_debug_check p = assertR (lp_check p = Ok ())"

text \<open>\<open>binary_search_by\<close> on keys in strict order: the position of the key, or where it belongs.\<close>

definition lp_search :: "LeafPage \<Rightarrow> IndexKey \<Rightarrow> (nat, nat) result" where
  "lp_search p key =
     (let pos = slice_partition_point (\<lambda>(k, _). k < key) (lp_entries p)
      in if pos < length (lp_entries p) \<and> fst (lp_entries p ! pos) = key then Ok pos else Err pos)"

definition lp_lower_bound :: "LeafPage \<Rightarrow> IndexKey \<Rightarrow> nat" where
  "lp_lower_bound p key = slice_partition_point (\<lambda>(k, _). k < key) (lp_entries p)"

definition lp_upper_bound :: "LeafPage \<Rightarrow> IndexKey \<Rightarrow> nat" where
  "lp_upper_bound p key = slice_partition_point (\<lambda>(k, _). k \<le> key) (lp_entries p)"

definition leaf_slot :: "nat \<Rightarrow> ('e, u32) result" where
  "leaf_slot index = expectR (if index < 2 ^ 32 then Some (word_of_nat index) else None)"

definition lp_is_tombstoned :: "LeafPage \<Rightarrow> u32 \<Rightarrow> bool" where
  "lp_is_tombstoned p slot = list_ex (\<lambda>s. s = slot) (lp_tombstones p)"

definition lp_get :: "LeafPage \<Rightarrow> IndexKey \<Rightarrow> ('e, RecordId option) result" where
  "lp_get p key =
     (case lp_search p key of
        Ok pos \<Rightarrow>
          bindR (leaf_slot pos) (\<lambda>slot.
          if lp_is_tombstoned p slot then Ok None
          else bindR (index_get (lp_entries p) pos) (\<lambda>e. Ok (Some (snd e))))
      | _ \<Rightarrow> Ok None)"

definition remove_tombstone :: "LeafPage \<Rightarrow> u32 \<Rightarrow> bool \<times> LeafPage" where
  "remove_tombstone p slot =
     (if list_ex (\<lambda>s. s = slot) (lp_tombstones p) then (True, p\<lparr>lp_tombstones := remove1 slot (lp_tombstones p)\<rparr>) else (False, p))"

definition adjust_tombstones_after_insert :: "LeafPage \<Rightarrow> u32 \<Rightarrow> ('e, LeafPage) result" where
  "adjust_tombstones_after_insert p insert_at =
     bindR (traverseR (\<lambda>s. if s \<ge> insert_at then expectR (checked_add s 1) else Ok s) (lp_tombstones p)) (\<lambda>ts.
     Ok (p\<lparr>lp_tombstones := ts\<rparr>))"

definition adjust_tombstones_after_remove :: "LeafPage \<Rightarrow> u32 \<Rightarrow> LeafPage" where
  "adjust_tombstones_after_remove p removed_at =
     p\<lparr>lp_tombstones := map (\<lambda>s. if s > removed_at then s - 1 else s) (filter (\<lambda>s. s \<noteq> removed_at) (lp_tombstones p))\<rparr>"

definition lp_physical_remove_at :: "LeafPage \<Rightarrow> u32 \<Rightarrow> ('e, LeafPage) result" where
  "lp_physical_remove_at p slot =
     bindR (vec_remove (lp_entries p) (unat slot)) (\<lambda>(_, es).
     Ok (adjust_tombstones_after_remove (p\<lparr>lp_entries := es\<rparr>) slot))"

section \<open>Encoding\<close>

definition encode_record_id_bytes :: "RecordId \<Rightarrow> ('e, bytes) result" where
  "encode_record_id_bytes rid =
     bindR (encode_record_id rid) (\<lambda>(page, slot).
     let out = replicate RECORD_ID_ENCODED_BYTES 0 in
     bindR (copy_from_slice out 0 U64_BYTES (to_le_bytes page)) (\<lambda>out.
     copy_from_slice out U64_BYTES (length out) (to_le_bytes slot)))"

definition decode_half :: "bytes \<Rightarrow> nat \<Rightarrow> nat \<Rightarrow> (PageCodecError, u64) result" where
  "decode_half payload i j =
     bindR (ok_or (if i \<le> j \<and> j \<le> length payload then Some (sub payload i (j - i)) else None) InvalidSize) (\<lambda>b.
     if length b \<noteq> 8 then Err InvalidSize else Ok (from_le_bytes b))"

definition decode_record_id_bytes :: "bytes \<Rightarrow> (PageCodecError, RecordId) result" where
  "decode_record_id_bytes payload =
     bindR (decode_half payload 0 U64_BYTES) (\<lambda>page.
     bindR (decode_half payload U64_BYTES RECORD_ID_ENCODED_BYTES) (\<lambda>slot. decode_record_id page slot))"

fun put_tombstones :: "Layout \<Rightarrow> nat \<Rightarrow> bytes \<Rightarrow> u32 list \<Rightarrow> ('e, bytes) result" where
  "put_tombstones L i buf [] = Ok buf"
| "put_tombstones L i buf (slot # ts) = bindR (put_u32_le buf (leaf_tombstone_offset L i) slot) (\<lambda>buf. put_tombstones L (i + 1) buf ts)"

fun lp_put_entries :: "EntryArea \<Rightarrow> nat \<Rightarrow> nat \<Rightarrow> bytes \<Rightarrow> (IndexKey \<times> RecordId) list \<Rightarrow> ('e, nat \<times> bytes) result" where
  "lp_put_entries A i at buf [] = Ok (at, buf)"
| "lp_put_entries A i at buf ((key, rid) # es) =
     bindR (encode_record_id_bytes rid) (\<lambda>payload.
     bindR (put_entry A buf i at key payload) (\<lambda>(at, buf). lp_put_entries A (i + 1) at buf es))"

definition lp_encode :: "LeafPage \<Rightarrow> bytes \<Rightarrow> (PageCodecError, bytes) result" where
  "lp_encode p buf =
     bindR (lp_check p) (\<lambda>_.
     let area = leaf_area (lp_layout p); used = lp_used_bytes p in
     bindR (ensure_fits_page (PAGE_SIZE - area_capacity area + used)) (\<lambda>_.
     if length buf \<noteq> PAGE_SIZE then Err InvalidSize else
     bindR (put_common_header (replicate (length buf) 0) KIND_LEAF) (\<lambda>buf.
     bindR (try_u32 (length (lp_entries p))) (\<lambda>n.
     bindR (put_u32_le buf NODE_SIZE_OFFSET n) (\<lambda>buf.
     bindR (put_u64_le buf NODE_PAGE_ID_OFFSET (encode_page_id (lp_next_leaf_id p))) (\<lambda>buf.
     bindR (try_u32 (length (lp_tombstones p))) (\<lambda>count.
     bindR (put_u32_le buf (leaf_tombstone_count_offset (lp_layout p)) count) (\<lambda>buf.
     bindR (put_tombstones (lp_layout p) 0 buf (lp_tombstones p)) (\<lambda>buf.
     bindR (sub_usize used (length (lp_entries p) * SLOT_ENCODED_BYTES)) (\<lambda>data.
     bindR (sub_usize PAGE_SIZE data) (\<lambda>at.
     bindR (lp_put_entries area 0 at buf (lp_entries p)) (\<lambda>(at, buf).
     bindR (assertR (at = PAGE_SIZE)) (\<lambda>_. Ok buf)))))))))))))"

definition lp_decode_entry :: "EntryArea \<Rightarrow> bytes \<Rightarrow> nat \<Rightarrow> nat \<Rightarrow> (PageCodecError, IndexKey \<times> RecordId) result" where
  "lp_decode_entry A buf n i =
     bindR (area_key A buf n i) (\<lambda>key.
     bindR (area_payload A buf n i) (\<lambda>payload.
     bindR (decode_record_id_bytes payload) (\<lambda>rid. Ok (key, rid))))"

fun read_tombstones :: "nat \<Rightarrow> BufReader \<Rightarrow> (PageCodecError, u32 list \<times> BufReader) result" where
  "read_tombstones 0 r = Ok ([], r)"
| "read_tombstones (Suc n) r =
     bindR (map_err CodecBuffer (read_u32_le r)) (\<lambda>(s, r).
     bindR (read_tombstones n r) (\<lambda>(ts, r). Ok (s # ts, r)))"

definition lp_decode :: "bytes \<Rightarrow> Layout \<Rightarrow> (PageCodecError, LeafPage) result" where
  "lp_decode buf L =
     bindR (map_err CodecBuffer (BufReader_new buf)) (\<lambda>r.
     bindR (read_common_header_of_kind r KIND_LEAF) (\<lambda>r.
     bindR (map_err CodecBuffer (read_u32_le r)) (\<lambda>(n, r).
     bindR (map_err CodecBuffer (read_u32_le r)) (\<lambda>(_, r).
     bindR (map_err CodecBuffer (read_u64_le r)) (\<lambda>(raw, r).
     bindR (decode_page_id raw) (\<lambda>next.
     let n = unat n; area = leaf_area L in
     bindR (area_check area buf n) (\<lambda>_.
     bindR (map_err CodecBuffer (read_u32_le r)) (\<lambda>(count, r).
     if unat count > tombstone_capacity L then Err (Malformed ''leaf tombstones count exceeds tombstone capacity'') else
     bindR (read_tombstones (unat count) r) (\<lambda>(ts, r).
     bindR (traverseR (lp_decode_entry area buf n) [0..<n]) (\<lambda>es.
     let p = \<lparr>lp_layout = L, lp_entries = es, lp_next_leaf_id = next, lp_tombstones = ts\<rparr>
     in bindR (lp_check p) (\<lambda>_. Ok p)))))))))))"

section \<open>Operations\<close>

definition lp_insert :: "LeafPage \<Rightarrow> IndexKey \<Rightarrow> RecordId \<Rightarrow> (InsertError, LeafPage) result" where
  "lp_insert p key rid =
     (case lp_search p key of
        Ok pos \<Rightarrow>
          bindR (leaf_slot pos) (\<lambda>slot.
          if \<not> lp_is_tombstoned p slot then Err DuplicateKey
          else bindR (index_get (lp_entries p) pos) (\<lambda>(k, _).
            let p = p\<lparr>lp_entries := (lp_entries p)[pos := (k, rid)]\<rparr>;
                p = snd (remove_tombstone p slot)
            in bindR (lp_debug_check p) (\<lambda>_. Ok p)))
      | Err pos \<Rightarrow>
          bindR (leaf_slot pos) (\<lambda>insert_at.
          bindR (vec_insert (lp_entries p) pos (key, rid)) (\<lambda>es.
          bindR (adjust_tombstones_after_insert (p\<lparr>lp_entries := es\<rparr>) insert_at) (\<lambda>p.
          bindR (lp_debug_check p) (\<lambda>_. Ok p))))
      | Panic \<Rightarrow> Panic)"

definition lp_split_into :: "LeafPage \<Rightarrow> LeafPage \<Rightarrow> PageId \<Rightarrow> ('e, IndexKey \<times> LeafPage \<times> LeafPage) result" where
  "lp_split_into p right right_page_id =
     bindR (assertR (lp_entries right = [])) (\<lambda>_.
     bindR (lp_debug_check p) (\<lambda>_.
     bindR (assertR (length (lp_entries p) \<ge> 2)) (\<lambda>_.
     let mid = balanced_split (map (lp_cost p) (lp_keys p)) False in
     bindR (leaf_slot mid) (\<lambda>mid_u32.
     bindR (vec_split_off (lp_entries p) mid) (\<lambda>(left_entries, right_entries).
     let left_tombstones = filter (\<lambda>s. s < mid_u32) (lp_tombstones p);
         right_tombstones = map (\<lambda>s. s - mid_u32) (filter (\<lambda>s. \<not> s < mid_u32) (lp_tombstones p));
         right = right\<lparr>lp_entries := right_entries, lp_tombstones := right_tombstones, lp_next_leaf_id := lp_next_leaf_id p\<rparr>;
         p = p\<lparr>lp_entries := left_entries, lp_tombstones := left_tombstones, lp_next_leaf_id := Some right_page_id\<rparr>
     in bindR (lp_debug_check p) (\<lambda>_.
        bindR (lp_debug_check right) (\<lambda>_.
        bindR (index_get (lp_entries right) 0) (\<lambda>e. Ok (fst e, p, right)))))))))"

definition purge_oldest_tombstone :: "LeafPage \<Rightarrow> ('e, u32 \<times> LeafPage) result" where
  "purge_oldest_tombstone p =
     (case lp_tombstones p of
        [] \<Rightarrow> Panic
      | oldest # ts \<Rightarrow> bindR (lp_physical_remove_at (p\<lparr>lp_tombstones := ts\<rparr>) oldest) (\<lambda>p. Ok (oldest, p)))"

lemma purge_oldest_shrinks: "purge_oldest_tombstone p = Ok (s, q) \<Longrightarrow> length (lp_tombstones q) < length (lp_tombstones p)"
proof -
  assume "purge_oldest_tombstone p = Ok (s, q)"
  then obtain ts where "lp_tombstones p = s # ts" "lp_tombstones q = map (\<lambda>x. if x > s then x - 1 else x) (filter (\<lambda>x. x \<noteq> s) ts)"
    by (auto simp: purge_oldest_tombstone_def lp_physical_remove_at_def vec_remove_def adjust_tombstones_after_remove_def
        split: list.splits if_splits)
  then show ?thesis by (simp add: le_imp_less_Suc)
qed

text \<open>The loop that ends \<open>absorb_right\<close>.\<close>

function purge_excess :: "LeafPage \<Rightarrow> ('e, LeafPage) result" where
  "purge_excess p =
     (if length (lp_tombstones p) > tombstone_capacity (lp_layout p)
      then case purge_oldest_tombstone p of Ok (_, p) \<Rightarrow> purge_excess p | Err e \<Rightarrow> Err e | Panic \<Rightarrow> Panic
      else Ok p)"
  by pat_completeness auto

termination
  by (relation "measure (\<lambda>p. length (lp_tombstones p))") (auto dest: purge_oldest_shrinks)

declare purge_excess.simps [simp del]

definition lp_absorb_right :: "LeafPage \<Rightarrow> LeafPage \<Rightarrow> ('e, LeafPage \<times> LeafPage) result" where
  "lp_absorb_right p right =
     bindR (lp_debug_check p) (\<lambda>_.
     bindR (lp_debug_check right) (\<lambda>_.
     bindR (leaf_slot (length (lp_entries p))) (\<lambda>left_len.
     bindR (traverseR (\<lambda>s. expectR (checked_add s left_len)) (lp_tombstones right)) (\<lambda>ts.
     let p = p\<lparr>lp_entries := lp_entries p @ lp_entries right, lp_next_leaf_id := lp_next_leaf_id right,
               lp_tombstones := lp_tombstones p @ ts\<rparr>;
         right = right\<lparr>lp_entries := [], lp_tombstones := []\<rparr>
     in bindR (purge_excess p) (\<lambda>p.
        bindR (lp_debug_check p) (\<lambda>_. Ok (p, right)))))))"

definition lp_is_overfull :: "LeafPage \<Rightarrow> bool" where
  "lp_is_overfull p \<longleftrightarrow> lp_used_bytes p > area_capacity (leaf_area (lp_layout p))"

definition lp_is_underfull :: "LeafPage \<Rightarrow> bool" where
  "lp_is_underfull p \<longleftrightarrow> lp_used_bytes p < leaf_min_used (lp_layout p)"

definition lp_can_lend :: "LeafPage \<Rightarrow> Edge \<Rightarrow> bool" where
  "lp_can_lend p edge =
     (case (case edge of First \<Rightarrow> vec_first (lp_entries p) | Last \<Rightarrow> vec_last (lp_entries p)) of
        None \<Rightarrow> False
      | Some (k, _) \<Rightarrow> lp_used_bytes p - lp_cost p k \<ge> leaf_min_used (lp_layout p))"

definition lp_key_exists :: "LeafPage \<Rightarrow> IndexKey \<Rightarrow> bool" where
  "lp_key_exists p key = is_ok (lp_search p key)"

definition lp_remove_key :: "LeafPage \<Rightarrow> IndexKey \<Rightarrow> (RemoveError, LeafPage) result" where
  "lp_remove_key p key =
     (case lp_search p key of
        Ok pos \<Rightarrow>
          bindR (leaf_slot pos) (\<lambda>slot.
          if lp_is_tombstoned p slot then Err KeyNotFound
          else if tombstone_capacity (lp_layout p) = 0 then
            bindR (lp_physical_remove_at p slot) (\<lambda>p. bindR (lp_debug_check p) (\<lambda>_. Ok p))
          else
            bindR (if tombstones_full p
                   then bindR (purge_oldest_tombstone p) (\<lambda>(purged, p). Ok (if purged < slot then slot - 1 else slot, p))
                   else Ok (slot, p)) (\<lambda>(slot, p).
            let p = p\<lparr>lp_tombstones := lp_tombstones p @ [slot]\<rparr>
            in bindR (lp_debug_check p) (\<lambda>_. Ok p)))
      | _ \<Rightarrow> Err KeyNotFound)"

definition pop_first :: "LeafPage \<Rightarrow> ('e, (IndexKey \<times> RecordId \<times> bool) option \<times> LeafPage) result" where
  "pop_first p =
     (if lp_entries p = [] then Ok (None, p)
      else bindR (vec_remove (lp_entries p) 0) (\<lambda>((key, rid), es).
        let was_tombstoned = lp_is_tombstoned p 0;
            p = adjust_tombstones_after_remove (p\<lparr>lp_entries := es\<rparr>) 0
        in bindR (lp_debug_check p) (\<lambda>_. Ok (Some (key, rid, was_tombstoned), p))))"

definition pop_last :: "LeafPage \<Rightarrow> ('e, (IndexKey \<times> RecordId \<times> bool) option \<times> LeafPage) result" where
  "pop_last p =
     (let last_index = length (lp_entries p) - 1 in
      if \<not> last_index < 2 ^ 32 then Ok (None, p)
      else let slot = word_of_nat last_index; was_tombstoned = lp_is_tombstoned p slot in
        case vec_pop (lp_entries p) of
          None \<Rightarrow> Ok (None, p)
        | Some ((key, rid), es) \<Rightarrow>
            let p = snd (remove_tombstone (p\<lparr>lp_entries := es\<rparr>) slot)
            in bindR (lp_debug_check p) (\<lambda>_. Ok (Some (key, rid, was_tombstoned), p)))"

definition push_front :: "LeafPage \<Rightarrow> IndexKey \<Rightarrow> RecordId \<Rightarrow> bool \<Rightarrow> ('e, LeafPage) result" where
  "push_front p key rid tombstoned =
     bindR (adjust_tombstones_after_insert p 0) (\<lambda>p.
     let p = p\<lparr>lp_entries := (key, rid) # lp_entries p\<rparr>;
         p = (if tombstoned then p\<lparr>lp_tombstones := lp_tombstones p @ [0]\<rparr> else p)
     in bindR (lp_debug_check p) (\<lambda>_. Ok p))"

definition push_back :: "LeafPage \<Rightarrow> IndexKey \<Rightarrow> RecordId \<Rightarrow> bool \<Rightarrow> ('e, LeafPage) result" where
  "push_back p key rid tombstoned =
     bindR (leaf_slot (length (lp_entries p))) (\<lambda>slot.
     let p = p\<lparr>lp_entries := lp_entries p @ [(key, rid)]\<rparr>;
         p = (if tombstoned then p\<lparr>lp_tombstones := lp_tombstones p @ [slot]\<rparr> else p)
     in bindR (lp_debug_check p) (\<lambda>_. Ok p))"

definition lp_iter :: "LeafPage \<Rightarrow> ('e, (IndexKey \<times> RecordId) list) result" where
  "lp_iter p =
     bindR (traverseR (\<lambda>(i, e). bindR (leaf_slot i) (\<lambda>slot. Ok (\<not> lp_is_tombstoned p slot, e))) (enumerate 0 (lp_entries p))) (\<lambda>es.
     Ok (map snd (filter fst es)))"

section \<open>Either kind of page, and the header page\<close>

datatype Page = PInternal InternalPage | PLeaf LeafPage

definition page_decode :: "bytes \<Rightarrow> Layout \<Rightarrow> (PageCodecError, Page) result" where
  "page_decode buf L =
     bindR (page_kind buf) (\<lambda>kind. case kind of
       KindInternal \<Rightarrow> mapR PInternal (ip_decode buf L)
     | KindLeaf \<Rightarrow> mapR PLeaf (lp_decode buf L))"

record HeaderPage =
  hp_root_page_id :: "PageId option"
  hp_first_leaf_id :: "PageId option"
  hp_max_key_len :: u32

definition hp_encode :: "HeaderPage \<Rightarrow> bytes \<Rightarrow> (PageCodecError, bytes) result" where
  "hp_encode h buf =
     bindR (Layout_new (hp_max_key_len h)) (\<lambda>_.
     bindR (map_err CodecBuffer (BufWriter_new (replicate (length buf) 0))) (\<lambda>w.
     bindR (write_common_header w KIND_HEADER) (\<lambda>w.
     bindR (map_err CodecBuffer (write_u32_le w (hp_max_key_len h))) (\<lambda>w.
     bindR (map_err CodecBuffer (write_u32_le w 0)) (\<lambda>w.
     bindR (map_err CodecBuffer (write_u64_le w (encode_page_id (hp_root_page_id h)))) (\<lambda>w.
     bindR (map_err CodecBuffer (write_u64_le w (encode_page_id (hp_first_leaf_id h)))) (\<lambda>w.
     bindR (assertR (w_pos w = HEADER_FIXED_HEADER_BYTES)) (\<lambda>_. Ok (w_buf w)))))))))"

definition hp_decode :: "bytes \<Rightarrow> (PageCodecError, HeaderPage) result" where
  "hp_decode buf =
     bindR (map_err CodecBuffer (BufReader_new buf)) (\<lambda>r.
     bindR (read_common_header_of_kind r KIND_HEADER) (\<lambda>r.
     bindR (map_err CodecBuffer (read_u32_le r)) (\<lambda>(max_key, r).
     bindR (map_err CodecBuffer (read_u32_le r)) (\<lambda>(_, r).
     bindR (map_err CodecBuffer (read_u64_le r)) (\<lambda>(root, r).
     bindR (decode_page_id root) (\<lambda>root.
     bindR (map_err CodecBuffer (read_u64_le r)) (\<lambda>(leaf, r).
     bindR (decode_page_id leaf) (\<lambda>leaf.
     if max_key = 0 then Err (Malformed ''header key_len must be > 0'')
     else Ok \<lparr>hp_root_page_id = root, hp_first_leaf_id = leaf, hp_max_key_len = max_key\<rparr>))))))))"

end
