(* ===== verification/Page_View.thy ===== *)
theory Page_View
  imports BPlus_Leaf
begin

text \<open>
  Views that read and change index pages in place, from \<open>src/src/index/page_view.rs\<close>.
\<close>


definition check_len :: "bytes \<Rightarrow> (PageCodecError, unit) result" where
  "check_len buf = (if length buf \<noteq> PAGE_SIZE then Err InvalidSize else Ok ())"

text \<open>The binary search. The predicate reads the page, so it may panic.\<close>

function partition_loop :: "(nat \<Rightarrow> ('e, bool) result) \<Rightarrow> nat \<Rightarrow> nat \<Rightarrow> ('e, nat) result" where
  "partition_loop pred lo hi =
     (if lo < hi
      then let mid = lo + (hi - lo) div 2 in
        bindR (pred mid) (\<lambda>b. if b then partition_loop pred (mid + 1) hi else partition_loop pred lo mid)
      else Ok lo)"
  by pat_completeness auto

termination
  by (relation "measure (\<lambda>(pred, lo, hi). hi - lo)") auto

declare partition_loop.simps [simp del]

definition partition_point :: "nat \<Rightarrow> (nat \<Rightarrow> ('e, bool) result) \<Rightarrow> ('e, nat) result" where
  "partition_point n pred = partition_loop pred 0 n"

section \<open>The header page\<close>

definition HDR_KEY_LEN_OFF :: nat where "HDR_KEY_LEN_OFF = COMMON_HEADER_BYTES"
definition HDR_ROOT_OFF :: nat where "HDR_ROOT_OFF = COMMON_HEADER_BYTES + 8"
definition HDR_FIRST_LEAF_OFF :: nat where "HDR_FIRST_LEAF_OFF = COMMON_HEADER_BYTES + 16"

text \<open>A view is the bytes it reads; \<open>hv_new\<close> returns them when it accepts them.\<close>

definition hv_new :: "bytes \<Rightarrow> (PageCodecError, bytes) result" where
  "hv_new buf =
     bindR (check_len buf) (\<lambda>_.
     bindR (expect_common_header buf KIND_HEADER) (\<lambda>_.
     bindR (get_u32_le buf HDR_KEY_LEN_OFF) (\<lambda>k.
     if k = 0 then Err (Malformed ''header key_len must be > 0'') else Ok buf)))"

definition hv_max_key_len :: "bytes \<Rightarrow> ('e, u32) result" where
  "hv_max_key_len buf = get_u32_le buf HDR_KEY_LEN_OFF"

definition hv_root_page_id :: "bytes \<Rightarrow> (PageCodecError, PageId option) result" where
  "hv_root_page_id buf = bindR (get_u64_le buf HDR_ROOT_OFF) decode_page_id"

definition hv_first_leaf_id :: "bytes \<Rightarrow> (PageCodecError, PageId option) result" where
  "hv_first_leaf_id buf = bindR (get_u64_le buf HDR_FIRST_LEAF_OFF) decode_page_id"

definition hv_init :: "bytes \<Rightarrow> u32 \<Rightarrow> (PageCodecError, bytes) result" where
  "hv_init buf key_len =
     bindR (Layout_new key_len) (\<lambda>_.
     bindR (check_len buf) (\<lambda>_.
     bindR (fill_zero buf 0 HEADER_FIXED_HEADER_BYTES) (\<lambda>buf.
     bindR (put_common_header buf KIND_HEADER) (\<lambda>buf.
     bindR (put_u32_le buf HDR_KEY_LEN_OFF key_len) (\<lambda>buf.
     bindR (put_u64_le buf HDR_ROOT_OFF (encode_page_id None)) (\<lambda>buf.
     put_u64_le buf HDR_FIRST_LEAF_OFF (encode_page_id None)))))))"

definition set_root_page_id :: "bytes \<Rightarrow> PageId option \<Rightarrow> ('e, bytes) result" where
  "set_root_page_id buf p = put_u64_le buf HDR_ROOT_OFF (encode_page_id p)"

definition set_first_leaf_id :: "bytes \<Rightarrow> PageId option \<Rightarrow> ('e, bytes) result" where
  "set_first_leaf_id buf p = put_u64_le buf HDR_FIRST_LEAF_OFF (encode_page_id p)"

definition node_size :: "bytes \<Rightarrow> ('e, nat) result" where
  "node_size buf = mapR unat (get_u32_le buf NODE_SIZE_OFFSET)"

section \<open>Internal pages\<close>

record PageView =
  v_buf :: bytes
  v_layout :: Layout

definition iv_new :: "bytes \<Rightarrow> Layout \<Rightarrow> (PageCodecError, PageView) result" where
  "iv_new buf L =
     bindR (check_len buf) (\<lambda>_.
     bindR (expect_common_header buf KIND_INTERNAL) (\<lambda>_.
     bindR (node_size buf) (\<lambda>n.
     bindR (area_check (internal_area L) buf n) (\<lambda>_. Ok \<lparr>v_buf = buf, v_layout = L\<rparr>))))"

definition v_size :: "PageView \<Rightarrow> ('e, u32) result" where
  "v_size v = get_u32_le (v_buf v) NODE_SIZE_OFFSET"

definition v_len :: "PageView \<Rightarrow> ('e, nat) result" where
  "v_len v = mapR unat (v_size v)"

definition child_count :: "PageView \<Rightarrow> ('e, nat) result" where
  "child_count v = bindR (v_len v) (\<lambda>n. Ok (n + 1))"

definition iv_child :: "PageView \<Rightarrow> nat \<Rightarrow> (PageCodecError, PageId option) result" where
  "iv_child v idx =
     bindR (child_count v) (\<lambda>count.
     if idx \<ge> count then Ok None else
     bindR (if idx = 0 then get_u64_le (v_buf v) NODE_PAGE_ID_OFFSET
            else bindR (v_len v) (\<lambda>n.
              bindR (area_payload (internal_area (v_layout v)) (v_buf v) n (idx - 1)) (\<lambda>payload.
              expectR (if length payload = 8 then Some (from_le_bytes payload) else None)))) (\<lambda>raw.
     mapR Some (decode_child_page_id raw)))"

definition iv_key :: "PageView \<Rightarrow> nat \<Rightarrow> ('e, bytes) result" where
  "iv_key v idx = bindR (v_len v) (\<lambda>n. area_key (internal_area (v_layout v)) (v_buf v) n idx)"

definition iv_used_bytes :: "PageView \<Rightarrow> ('e, nat) result" where
  "iv_used_bytes v = bindR (v_len v) (\<lambda>n. area_used (internal_area (v_layout v)) (v_buf v) n)"

definition iv_find_child_index :: "PageView \<Rightarrow> bytes \<Rightarrow> ('e, nat) result" where
  "iv_find_child_index v key =
     bindR (v_len v) (\<lambda>n. partition_point n (\<lambda>i. bindR (iv_key v i) (\<lambda>k. Ok (k \<le> key))))"

definition child_for :: "PageView \<Rightarrow> bytes \<Rightarrow> (PageCodecError, PageId option) result" where
  "child_for v key = bindR (iv_find_child_index v key) (iv_child v)"

definition iv_may_split_on_insert :: "PageView \<Rightarrow> ('e, bool) result" where
  "iv_may_split_on_insert v =
     bindR (v_len v) (\<lambda>n. bindR (area_free (internal_area (v_layout v)) (v_buf v) n) (\<lambda>f.
     Ok (f < internal_max_entry_bytes (v_layout v))))"

definition iv_may_underflow_on_remove :: "PageView \<Rightarrow> ('e, bool) result" where
  "iv_may_underflow_on_remove v =
     bindR (iv_used_bytes v) (\<lambda>u. Ok (u - internal_max_entry_bytes (v_layout v) < internal_min_used (v_layout v)))"

section \<open>Leaf pages\<close>

datatype LeafInsertError = LeafDuplicateKey | Full

definition lv_tombstone :: "PageView \<Rightarrow> nat \<Rightarrow> ('e, u32) result" where
  "lv_tombstone v i =
     bindR (assertR (i < tombstone_capacity (v_layout v))) (\<lambda>_. get_u32_le (v_buf v) (leaf_tombstone_offset (v_layout v) i))"

text \<open>\<open>Iterator::any\<close> over \<open>0..n\<close>, which stops at the first hit.\<close>

fun any_up :: "(nat \<Rightarrow> ('e, bool) result) \<Rightarrow> nat list \<Rightarrow> ('e, bool) result" where
  "any_up f [] = Ok False"
| "any_up f (i # is) = bindR (f i) (\<lambda>b. if b then Ok True else any_up f is)"

definition lv_new :: "bytes \<Rightarrow> Layout \<Rightarrow> (PageCodecError, PageView) result" where
  "lv_new buf L =
     (let view = \<lparr>v_buf = buf, v_layout = L\<rparr> in
      bindR (check_len buf) (\<lambda>_.
      bindR (expect_common_header buf KIND_LEAF) (\<lambda>_.
      bindR (node_size buf) (\<lambda>n.
      bindR (area_check (leaf_area L) buf n) (\<lambda>_.
      bindR (get_u32_le buf (leaf_tombstone_count_offset L)) (\<lambda>count.
      if unat count > tombstone_capacity L then Err (Malformed ''leaf tombstones count exceeds tombstone capacity'') else
      bindR (any_up (\<lambda>i. bindR (lv_tombstone view i) (\<lambda>s. Ok (unat s \<ge> n))) [0..<unat count]) (\<lambda>bad.
      if bad then Err (Malformed ''leaf tombstones index out of bounds'') else Ok view)))))))"

definition lv_next_leaf_id :: "PageView \<Rightarrow> (PageCodecError, PageId option) result" where
  "lv_next_leaf_id v = bindR (get_u64_le (v_buf v) NODE_PAGE_ID_OFFSET) decode_page_id"

definition lv_used_bytes :: "PageView \<Rightarrow> ('e, nat) result" where
  "lv_used_bytes v = bindR (v_len v) (\<lambda>n. area_used (leaf_area (v_layout v)) (v_buf v) n)"

definition lv_may_split_on_insert :: "PageView \<Rightarrow> ('e, bool) result" where
  "lv_may_split_on_insert v =
     bindR (v_len v) (\<lambda>n. bindR (area_free (leaf_area (v_layout v)) (v_buf v) n) (\<lambda>f.
     Ok (f < leaf_max_entry_bytes (v_layout v))))"

definition lv_may_underflow_on_remove :: "PageView \<Rightarrow> ('e, bool) result" where
  "lv_may_underflow_on_remove v =
     bindR (lv_used_bytes v) (\<lambda>u. Ok (u - leaf_max_entry_bytes (v_layout v) < leaf_min_used (v_layout v)))"

definition lv_key :: "PageView \<Rightarrow> nat \<Rightarrow> ('e, bytes) result" where
  "lv_key v idx = bindR (v_len v) (\<lambda>n. area_key (leaf_area (v_layout v)) (v_buf v) n idx)"

definition lv_record_id :: "PageView \<Rightarrow> nat \<Rightarrow> (PageCodecError, RecordId) result" where
  "lv_record_id v idx = bindR (v_len v) (\<lambda>n. bindR (area_payload (leaf_area (v_layout v)) (v_buf v) n idx) decode_record_id_bytes)"

definition lv_tombstone_count :: "PageView \<Rightarrow> ('e, nat) result" where
  "lv_tombstone_count v = mapR unat (get_u32_le (v_buf v) (leaf_tombstone_count_offset (v_layout v)))"

definition lv_is_tombstoned :: "PageView \<Rightarrow> u32 \<Rightarrow> ('e, bool) result" where
  "lv_is_tombstoned v slot =
     bindR (lv_tombstone_count v) (\<lambda>n. any_up (\<lambda>i. bindR (lv_tombstone v i) (\<lambda>s. Ok (s = slot))) [0..<n])"

text \<open>The result of a search: \<open>Ok\<close> the position of the key, \<open>Err\<close> where it belongs.\<close>

definition lv_search :: "PageView \<Rightarrow> bytes \<Rightarrow> (nat, nat) result" where
  "lv_search v key =
     bindR (v_len v) (\<lambda>n.
     bindR (partition_point n (\<lambda>i. bindR (lv_key v i) (\<lambda>k. Ok (k < key)))) (\<lambda>pos.
     if pos < n then bindR (lv_key v pos) (\<lambda>k. if k = key then Ok pos else Err pos) else Err pos))"

definition lv_lower_bound :: "PageView \<Rightarrow> bytes \<Rightarrow> ('e, nat) result" where
  "lv_lower_bound v key = bindR (v_len v) (\<lambda>n. partition_point n (\<lambda>i. bindR (lv_key v i) (\<lambda>k. Ok (k < key))))"

definition lv_upper_bound :: "PageView \<Rightarrow> bytes \<Rightarrow> ('e, nat) result" where
  "lv_upper_bound v key = bindR (v_len v) (\<lambda>n. partition_point n (\<lambda>i. bindR (lv_key v i) (\<lambda>k. Ok (k \<le> key))))"

definition lv_key_exists :: "PageView \<Rightarrow> bytes \<Rightarrow> ('e, bool) result" where
  "lv_key_exists v key = (case lv_search v key of Ok _ \<Rightarrow> Ok True | Err _ \<Rightarrow> Ok False | Panic \<Rightarrow> Panic)"

definition lv_get :: "PageView \<Rightarrow> bytes \<Rightarrow> (PageCodecError, RecordId option) result" where
  "lv_get v key =
     (case lv_search v key of
        Ok pos \<Rightarrow>
          bindR (lv_is_tombstoned v (word_of_nat pos)) (\<lambda>dead.
          if dead then Ok None else mapR Some (lv_record_id v pos))
      | Err _ \<Rightarrow> Ok None
      | Panic \<Rightarrow> Panic)"

definition with_buf :: "PageView \<Rightarrow> ('e, bytes) result \<Rightarrow> ('e, PageView) result" where
  "with_buf v r = mapR (\<lambda>b. v\<lparr>v_buf := b\<rparr>) r"

definition set_size :: "PageView \<Rightarrow> nat \<Rightarrow> ('e, PageView) result" where
  "set_size v n = with_buf v (put_u32_le (v_buf v) NODE_SIZE_OFFSET (word_of_nat n))"

definition set_tombstone_count :: "PageView \<Rightarrow> nat \<Rightarrow> ('e, PageView) result" where
  "set_tombstone_count v count = with_buf v (put_u32_le (v_buf v) (leaf_tombstone_count_offset (v_layout v)) (word_of_nat count))"

definition set_tombstone :: "PageView \<Rightarrow> nat \<Rightarrow> u32 \<Rightarrow> ('e, PageView) result" where
  "set_tombstone v i slot = with_buf v (put_u32_le (v_buf v) (leaf_tombstone_offset (v_layout v) i) slot)"

text \<open>\<open>rewrite_tombstones\<close> takes a closure with a state of its own, \<open>FnMut\<close>: \<open>f\<close> maps its state and a slot to its next state and
  what to keep.\<close>

definition rewrite_one :: "('s \<Rightarrow> u32 \<Rightarrow> ('e, 's \<times> u32 option) result) \<Rightarrow> nat \<Rightarrow> 's \<times> nat \<times> PageView \<Rightarrow> ('e, 's \<times> nat \<times> PageView) result" where
  "rewrite_one f i = (\<lambda>(s, kept, v).
     bindR (lv_tombstone v i) (\<lambda>slot.
     bindR (f s slot) (\<lambda>(s, out). case out of
       Some slot \<Rightarrow> bindR (set_tombstone v kept slot) (\<lambda>v. Ok (s, kept + 1, v))
     | None \<Rightarrow> Ok (s, kept, v))))"

definition rewrite_tombstones :: "PageView \<Rightarrow> ('s \<Rightarrow> u32 \<Rightarrow> ('e, 's \<times> u32 option) result) \<Rightarrow> 's \<Rightarrow> ('e, PageView) result" where
  "rewrite_tombstones v f s =
     bindR (lv_tombstone_count v) (\<lambda>count.
     bindR (foldR (rewrite_one f) [0..<count] (s, 0, v)) (\<lambda>(_, kept, v).
     bindR (foldR (\<lambda>i v. set_tombstone v i 0) [kept..<count] v) (\<lambda>v.
     set_tombstone_count v kept)))"

definition keep_other :: "u32 \<Rightarrow> unit \<Rightarrow> u32 \<Rightarrow> ('e, unit \<times> u32 option) result" where
  "keep_other slot _ s = Ok ((), if s \<noteq> slot then Some s else None)"

definition shift_from :: "u32 \<Rightarrow> unit \<Rightarrow> u32 \<Rightarrow> ('e, unit \<times> u32 option) result" where
  "shift_from insert_at _ s =
     (if s \<ge> insert_at then bindR (expectR (checked_add s 1)) (\<lambda>s. Ok ((), Some s)) else Ok ((), Some s))"

definition close_gap :: "u32 \<Rightarrow> unit \<Rightarrow> u32 \<Rightarrow> ('e, unit \<times> u32 option) result" where
  "close_gap slot _ s = Ok ((), if s = slot then None else if s > slot then Some (s - 1) else Some s)"

definition skip_first :: "bool \<Rightarrow> u32 \<Rightarrow> ('e, bool \<times> u32 option) result" where
  "skip_first first s = (if first then Ok (False, None) else Ok (first, Some s))"

definition lv_insert :: "PageView \<Rightarrow> bytes \<Rightarrow> RecordId \<Rightarrow> (LeafInsertError, PageView) result" where
  "lv_insert v key rid =
     bindR (encode_record_id_bytes rid) (\<lambda>payload.
     case lv_search v key of
       Ok pos \<Rightarrow>
         (let slot = word_of_nat pos in
          bindR (lv_is_tombstoned v slot) (\<lambda>dead.
          if \<not> dead then Err LeafDuplicateKey else
          bindR (v_len v) (\<lambda>n.
          bindR (with_buf v (set_payload (leaf_area (v_layout v)) (v_buf v) n pos payload)) (\<lambda>v.
          rewrite_tombstones v (keep_other slot) ()))))
     | Err pos \<Rightarrow>
         bindR (v_len v) (\<lambda>n.
         let area = leaf_area (v_layout v) in
         bindR (area_free area (v_buf v) n) (\<lambda>f.
         if f < entry_cost area (length key) then Err Full else
         bindR (with_buf v (area_insert area (v_buf v) n pos key payload)) (\<lambda>v.
         bindR (set_size v (n + 1)) (\<lambda>v.
         rewrite_tombstones v (shift_from (word_of_nat pos)) ()))))
     | Panic \<Rightarrow> Panic)"

definition lv_physical_remove_at :: "PageView \<Rightarrow> u32 \<Rightarrow> ('e, PageView) result" where
  "lv_physical_remove_at v slot =
     bindR (v_len v) (\<lambda>n.
     bindR (with_buf v (area_remove (leaf_area (v_layout v)) (v_buf v) n (unat slot))) (\<lambda>v.
     bindR (sub_usize n 1) (\<lambda>m.
     bindR (set_size v m) (\<lambda>v.
     rewrite_tombstones v (close_gap slot) ()))))"

definition lv_remove_key :: "PageView \<Rightarrow> bytes \<Rightarrow> (RemoveError, PageView) result" where
  "lv_remove_key v key =
     (case lv_search v key of
        Ok pos \<Rightarrow>
          (let slot = word_of_nat pos in
           bindR (lv_is_tombstoned v slot) (\<lambda>dead.
           if dead then Err KeyNotFound
           else if tombstone_capacity (v_layout v) = 0 then lv_physical_remove_at v slot
           else
             bindR (lv_tombstone_count v) (\<lambda>count.
             bindR (if count \<ge> tombstone_capacity (v_layout v) then
                      bindR (lv_tombstone v 0) (\<lambda>evicted.
                      bindR (rewrite_tombstones v skip_first True) (\<lambda>v.
                      bindR (lv_physical_remove_at v evicted) (\<lambda>v.
                      Ok (if evicted < slot then slot - 1 else slot, v))))
                    else Ok (slot, v)) (\<lambda>(slot, v).
             bindR (lv_tombstone_count v) (\<lambda>count.
             bindR (set_tombstone_count v (count + 1)) (\<lambda>v.
             set_tombstone v count slot))))))
      | Err _ \<Rightarrow> Err KeyNotFound
      | Panic \<Rightarrow> Panic)"

section \<open>Either kind of node\<close>

datatype NodeView = NInternal PageView | NLeaf PageView

definition NodeView_new :: "bytes \<Rightarrow> Layout \<Rightarrow> (PageCodecError, NodeView) result" where
  "NodeView_new buf L =
     bindR (peek_common_header buf) (\<lambda>k.
     if k = KIND_INTERNAL then mapR NInternal (iv_new buf L)
     else if k = KIND_LEAF then mapR NLeaf (lv_new buf L)
     else Err (InvalidPageKind k))"

fun may_split_on_insert :: "NodeView \<Rightarrow> ('e, bool) result" where
  "may_split_on_insert (NInternal n) = iv_may_split_on_insert n"
| "may_split_on_insert (NLeaf n) = lv_may_split_on_insert n"

fun may_underflow_on_remove :: "NodeView \<Rightarrow> ('e, bool) result" where
  "may_underflow_on_remove (NInternal n) = iv_may_underflow_on_remove n"
| "may_underflow_on_remove (NLeaf n) = lv_may_underflow_on_remove n"

end
