(* ===== verification/BPlus_Split.thy ===== *)
theory BPlus_Split
  imports Page_View
begin

text \<open>
  Layouts and balanced splits: what a layout guarantees, and how even a split is.
\<close>


section \<open>Layouts\<close>

text \<open>What \<open>Layout::build\<close> checks: the slot array starts inside the page and four entries of the longest key fit in either kind of page.\<close>

definition layout_ok :: "Layout \<Rightarrow> bool" where
  "layout_ok L \<longleftrightarrow> 0 < max_key_len L \<and> slots_start (leaf_area L) < PAGE_SIZE \<and>
     4 * leaf_max_entry_bytes L \<le> area_capacity (leaf_area L) \<and> 4 * internal_max_entry_bytes L \<le> area_capacity INTERNAL_AREA"

lemmas layout_consts = LEAF_TOMBSTONE_CAPACITY_def PAGE_ID_ENCODED_BYTES_def RECORD_ID_ENCODED_BYTES_def TOMBSTONE_COUNT_ENCODED_BYTES_def
  TOMBSTONE_SLOT_ENCODED_BYTES_def SIZE_FIELD_BYTES_def RESERVED_FIELD_BYTES_def KEY_LEN_FIELD_BYTES_def NODE_SIZE_OFFSET_def
  NODE_PAGE_ID_OFFSET_def INTERNAL_FIXED_HEADER_BYTES_def LEAF_FIXED_HEADER_BYTES_def HEADER_FIXED_HEADER_BYTES_def MIN_ENTRIES_PER_PAGE_def
  U32_BYTES_def U64_BYTES_def

lemma layout_values [simp]:
  "NODE_SIZE_OFFSET = 8" "NODE_PAGE_ID_OFFSET = 16" "INTERNAL_FIXED_HEADER_BYTES = 24" "LEAF_FIXED_HEADER_BYTES = 24" "HEADER_FIXED_HEADER_BYTES = 32"
  "RECORD_ID_ENCODED_BYTES = 16" "PAGE_ID_ENCODED_BYTES = 8" "leaf_slots_start t = 28 + 4 * t" "leaf_tombstone_offset L i = 28 + 4 * i"
  "leaf_tombstone_count_offset L = 24"
  by (simp_all add: layout_consts leaf_slots_start_def leaf_tombstone_offset_def leaf_tombstone_count_offset_def)

lemma leaf_area_simps [simp]: "slots_start (leaf_area L) = 28 + 4 * tombstone_capacity L" "payload_len (leaf_area L) = 16"
  by (simp_all add: leaf_area_def EntryArea_new_def)

lemma INTERNAL_AREA_simps [simp]: "slots_start INTERNAL_AREA = 24" "payload_len INTERNAL_AREA = 8" "internal_area L = INTERNAL_AREA"
  by (simp_all add: INTERNAL_AREA_def EntryArea_new_def internal_area_def)

lemma entry_costs: "entry_cost (leaf_area L) n = n + 18" "entry_cost INTERNAL_AREA n = n + 10"
  by (simp_all add: entry_cost_def SLOT_ENCODED_BYTES_def)

lemma capacities: "area_capacity (leaf_area L) = PAGE_SIZE - (28 + 4 * tombstone_capacity L)" "area_capacity INTERNAL_AREA = 8168"
  by (simp_all add: area_capacity_def PAGE_SIZE_def)

lemma layout_areas:
  assumes "Layout_build k t = Ok L"
  shows "layout_ok L"
proof -
  let ?A = "EntryArea_new (TOMBSTONE_SLOT_ENCODED_BYTES * unat t + leaf_slots_start 0) RECORD_ID_ENCODED_BYTES"
  have u: "unat k = max_key_len L" "unat t = tombstone_capacity L" "0 < unat k" "28 + 4 * unat t < PAGE_SIZE" and
    A: "\<exists>a b. longest_key_for ?A = (Ok a :: (PageCodecError, nat) result) \<and> longest_key_for INTERNAL_AREA = (Ok b :: (PageCodecError, nat) result) \<and> unat k \<le> min a b"
    using assms
    by (auto simp: Layout_build_def Let_def bindR_Ok_iff checked_mul_usize_def checked_add_usize_def layout_consts
        split: if_splits option.splits)
  have "?A = leaf_area L" by (simp add: leaf_area_def u(2) layout_consts add.commute)
  with A obtain a b where ab: "longest_key_for (leaf_area L) = (Ok a :: (PageCodecError, nat) result)" "longest_key_for INTERNAL_AREA = (Ok b :: (PageCodecError, nat) result)" "unat k \<le> min a b"
    by metis
  then have "unat k + 18 \<le> area_capacity (leaf_area L) div 4" "unat k + 10 \<le> area_capacity INTERNAL_AREA div 4"
    by (auto simp: longest_key_for_def sub_usize_def entry_costs MIN_ENTRIES_PER_PAGE_def split: if_splits)
  then show ?thesis using u by (auto simp: layout_ok_def leaf_max_entry_bytes_def internal_max_entry_bytes_def entry_costs)
qed

lemma max_key_len_value: "MAX_KEY_LEN = Ok 2007"
  by (simp add: MAX_KEY_LEN_def longest_key_for_def sub_usize_def EntryArea_new_def area_capacity_def PAGE_SIZE_def MIN_ENTRIES_PER_PAGE_def
      entry_cost_def SLOT_ENCODED_BYTES_def LEAF_TOMBSTONE_CAPACITY_def)

section \<open>Balanced splits\<close>

text \<open>The bytes on the two sides of a split, and how far apart they are.\<close>

definition left_bytes :: "nat list \<Rightarrow> nat \<Rightarrow> nat" where
  "left_bytes costs s = sum_list (take s costs)"

definition right_bytes :: "nat list \<Rightarrow> bool \<Rightarrow> nat \<Rightarrow> nat" where
  "right_bytes costs drop_middle s = sum_list (drop (if drop_middle then Suc s else s) costs)"

definition split_gap :: "nat list \<Rightarrow> bool \<Rightarrow> nat \<Rightarrow> nat" where
  "split_gap costs dm s = (if left_bytes costs s < right_bytes costs dm s then right_bytes costs dm s - left_bytes costs s
     else left_bytes costs s - right_bytes costs dm s)"

lemma split_bytes: "s < length costs \<Longrightarrow> left_bytes costs s + (if dm then costs ! s else 0) + right_bytes costs dm s = sum_list costs"
proof -
  assume s: "s < length costs"
  have "sum_list costs = sum_list (take s costs) + sum_list (drop s costs)" by (metis append_take_drop_id sum_list_append)
  moreover have "drop s costs = costs ! s # drop (Suc s) costs" using s by (simp add: Cons_nth_drop_Suc)
  ultimately show ?thesis by (simp add: left_bytes_def right_bytes_def)
qed

lemma split_loop_min:
  assumes "split_loop (sum_list (pre @ rest)) dm (length pre) (sum_list pre) best rest = (g, b)"
  shows "g \<le> fst best \<and> (\<forall>s. length pre \<le> s \<and> s < length (pre @ rest) \<and> 0 < s \<longrightarrow> g \<le> split_gap (pre @ rest) dm s) \<and>
    ((g, b) = best \<or> length pre \<le> b \<and> b < length (pre @ rest) \<and> 0 < b \<and> g = split_gap (pre @ rest) dm b)"
  using assms
proof (induction rest arbitrary: pre best)
  case (Cons c rest)
  let ?cs = "pre @ c # rest"
  let ?gap = "split_gap ?cs dm (length pre)"
  let ?best = "if 0 < length pre \<and> ?gap < fst best then (?gap, length pre) else best"
  have step: "split_loop (sum_list ?cs) dm (length pre) (sum_list pre) best (c # rest) =
      split_loop (sum_list ?cs) dm (length pre + 1) (sum_list pre + c) ?best rest"
    by (simp add: Let_def split_gap_def left_bytes_def right_bytes_def)
  have "split_loop (sum_list ((pre @ [c]) @ rest)) dm (length (pre @ [c])) (sum_list (pre @ [c])) ?best rest = (g, b)"
    using Cons.prems unfolding step by simp
  from Cons.IH [OF this] have r: "g \<le> fst ?best" "\<And>s. length pre < s \<Longrightarrow> s < length ?cs \<Longrightarrow> g \<le> split_gap ?cs dm s"
    "(g, b) = ?best \<or> length pre < b \<and> b < length ?cs \<and> 0 < b \<and> g = split_gap ?cs dm b"
    by (auto simp: Suc_le_eq)
  have "g \<le> split_gap ?cs dm s" if "length pre \<le> s" "s < length ?cs" "0 < s" for s
    using that r(1,2) by (cases "s = length pre") (auto split: if_splits)
  moreover have "fst ?best \<le> fst best" by simp
  then have "g \<le> fst best" using r(1) by linarith
  ultimately show ?case using r(3) by (auto split: if_splits)
qed simp

lemma balanced_split_min:
  assumes "2 \<le> length costs" "sum_list costs < 2 ^ 64 - 1"
  shows "0 < balanced_split costs dm \<and> balanced_split costs dm < length costs \<and>
    (\<forall>s. 0 < s \<and> s < length costs \<longrightarrow> split_gap costs dm (balanced_split costs dm) \<le> split_gap costs dm s)"
proof -
  obtain g b where gb: "split_loop (sum_list costs) dm 0 0 (2 ^ 64 - 1, 1) costs = (g, b)" by force
  have r: "g \<le> 2 ^ 64 - 1" "\<And>s. s < length costs \<Longrightarrow> 0 < s \<Longrightarrow> g \<le> split_gap costs dm s"
    "(g, b) = (2 ^ 64 - 1, 1) \<or> b < length costs \<and> 0 < b \<and> g = split_gap costs dm b"
    using split_loop_min [of "[]" costs dm "(2 ^ 64 - 1, 1)" g b] gb by auto
  have "split_gap costs dm 1 \<le> sum_list costs"
    using split_bytes [of 1 costs dm] assms(1) by (auto simp: split_gap_def)
  then have "g < 2 ^ 64 - 1" using r(2) [of 1] assms by simp
  then have "0 < b" "b < length costs" "g = split_gap costs dm b" using r(3) by auto
  then show ?thesis using gb r(2) by (simp add: balanced_split_def)
qed

text \<open>Some split leaves the two sides at most one entry apart: going right, the difference grows by at most two entries at a time.\<close>

lemma small_gap_exists:
  assumes "2 \<le> length costs" and le: "\<And>c. c \<in> set costs \<Longrightarrow> c \<le> m"
  shows "\<exists>s. 0 < s \<and> s < length costs \<and> split_gap costs dm s \<le> m"
proof -
  let ?n = "length costs"
  define D where "D s = int (left_bytes costs s) - int (right_bytes costs dm s)" for s
  have nth: "costs ! i \<le> m" if "i < ?n" for i using le [OF nth_mem [OF that]] .
  have left: "left_bytes costs (Suc s) = left_bytes costs s + costs ! s" if "s < ?n" for s
    using that by (simp add: left_bytes_def take_Suc_conv_app_nth)
  have right: "right_bytes costs dm s = right_bytes costs dm (Suc s) + (if dm then costs ! Suc s else costs ! s)" if "Suc s < ?n" for s
    using that by (simp add: right_bytes_def Cons_nth_drop_Suc [symmetric])
  have step: "D (Suc s) \<le> D s + 2 * int m" if "Suc s < ?n" for s
    using left [of s] right [OF that] nth [of s] nth [of "Suc s"] that by (auto simp: D_def)
  have last: "- int m \<le> D (?n - 1)"
  proof -
    have "drop (?n - 1) costs = [costs ! (?n - 1)]" using assms(1) by (simp add: Cons_nth_drop_Suc [symmetric])
    then have "right_bytes costs dm (?n - 1) \<le> m" using nth [of "?n - 1"] assms(1) by (auto simp: right_bytes_def)
    then show ?thesis by (simp add: D_def)
  qed
  define s where "s = (LEAST s. 0 < s \<and> - int m \<le> D s)"
  have ex: "0 < ?n - 1 \<and> - int m \<le> D (?n - 1)" using last assms(1) by simp
  have s: "0 < s" "- int m \<le> D s" using LeastI [of "\<lambda>s. 0 < s \<and> - int m \<le> D s", OF ex] by (simp_all add: s_def)
  have "s \<le> ?n - 1" using Least_le [of "\<lambda>s. 0 < s \<and> - int m \<le> D s", OF ex] by (simp add: s_def)
  then have sn: "s < ?n" using assms(1) by simp
  have "D s \<le> int m"
  proof (cases "s = 1")
    case True
    moreover have "0 < ?n" using assms(1) by linarith
    ultimately show ?thesis using left [of 0] nth [of 0] by (simp add: D_def left_bytes_def)
  next
    case False
    then obtain t where t: "s = Suc t" "0 < t" using s(1) by (cases s) auto
    have "\<not> (0 < t \<and> - int m \<le> D t)" using not_less_Least [of t "\<lambda>s. 0 < s \<and> - int m \<le> D s"] t(1) by (simp add: s_def)
    then show ?thesis using t step [of t] sn by simp
  qed
  then have "split_gap costs dm s \<le> m" using s(2) by (simp add: D_def split_gap_def) linarith
  then show ?thesis using s(1) sn by blast
qed

lemma balanced_split_gap:
  assumes "2 \<le> length costs" "sum_list costs < 2 ^ 64 - 1" "\<And>c. c \<in> set costs \<Longrightarrow> c \<le> m"
  shows "split_gap costs dm (balanced_split costs dm) \<le> m"
  using small_gap_exists [OF assms(1,3), of dm] balanced_split_min [OF assms(1,2), of dm] by (meson le_trans)

text \<open>A leaf split takes the balanced split as it is, an internal split leaves at least one key to the right of the middle one.\<close>

lemma balanced_split_sides:
  assumes "2 \<le> length costs" "sum_list costs < 2 ^ 64 - 1" "\<And>c. c \<in> set costs \<Longrightarrow> c \<le> m" "s = balanced_split costs False"
  shows "0 < s" "s < length costs" "2 * left_bytes costs s \<le> sum_list costs + m" "2 * sum_list (drop s costs) \<le> sum_list costs + m"
    "left_bytes costs s + sum_list (drop s costs) = sum_list costs"
  using balanced_split_min [OF assms(1,2), of False] balanced_split_gap [OF assms(1,2,3), of False] split_bytes [of s costs False]
  by (auto simp: assms(4) split_gap_def right_bytes_def split: if_splits)

lemma balanced_split_middle:
  assumes "3 \<le> length costs" "sum_list costs < 2 ^ 64 - 1" and le: "\<And>c. c \<in> set costs \<Longrightarrow> 0 < c \<and> c \<le> m" and big: "2 * m < sum_list costs"
    and s: "s = balanced_split costs True"
  shows "0 < s" "s \<le> length costs - 2" "2 * left_bytes costs s \<le> sum_list costs + m" "2 * right_bytes costs True s \<le> sum_list costs + m"
    "sum_list costs \<le> 2 * left_bytes costs s + 2 * m" "sum_list costs \<le> 2 * right_bytes costs True s + 2 * m"
proof -
  let ?n = "length costs"
  have n: "2 \<le> ?n" using assms(1) by simp
  have min: "0 < s" "s < ?n" "\<And>t. 0 < t \<Longrightarrow> t < ?n \<Longrightarrow> split_gap costs True s \<le> split_gap costs True t"
    using balanced_split_min [OF n assms(2), of True] s by auto
  have gap: "split_gap costs True s \<le> m" using balanced_split_gap [OF n assms(2), of m True] le s by simp
  have b: "left_bytes costs s + costs ! s + right_bytes costs True s = sum_list costs" using split_bytes [OF min(2), of True] by simp
  have c: "costs ! s \<le> m" using le min(2) by simp
  show "0 < s" by (rule min(1))
  show "2 * left_bytes costs s \<le> sum_list costs + m" "2 * right_bytes costs True s \<le> sum_list costs + m"
    "sum_list costs \<le> 2 * left_bytes costs s + 2 * m" "sum_list costs \<le> 2 * right_bytes costs True s + 2 * m"
    using gap b c by (auto simp: split_gap_def split: if_splits)
  show "s \<le> ?n - 2"
  proof (rule ccontr)
    assume "\<not> s \<le> ?n - 2"
    then have "s = ?n - 1" using min(2) by simp
    then have "right_bytes costs True s = 0" using min(2) by (simp add: right_bytes_def)
    then show False using gap b c big by (simp add: split_gap_def)
  qed
qed

end
