(* ===== verification/Internal_Correct.thy ===== *)
theory Internal_Correct
  imports BPlus_Split
begin

text \<open>
  Internal pages: splits, merges, encoding and the view that reads them in place.
\<close>


section \<open>Checked internal pages\<close>

lemma fold_check_key: "foldR (\<lambda>key _. check_key L key) ks () = Ok () \<longleftrightarrow> (\<forall>k \<in> set ks. length k \<le> max_key_len L)"
  by (induction ks) (auto simp: check_key_def)

definition ip_shape :: "Layout \<Rightarrow> PageId list \<Rightarrow> IndexKey list \<Rightarrow> bool" where
  "ip_shape L cs ks \<longleftrightarrow> length cs = length ks + 1 \<and> sorted ks \<and> (\<forall>k \<in> set ks. length k \<le> max_key_len L)"

lemma ip_check_iff: "ip_check p = Ok () \<longleftrightarrow> ip_children p = [] \<and> ip_keys p = [] \<or> ip_shape (ip_layout p) (ip_children p) (ip_keys p)"
  by (auto simp: ip_check_def ip_shape_def fold_check_key)

lemma ip_debug_check_ok: "ip_shape (ip_layout p) (ip_children p) (ip_keys p) \<Longrightarrow> ip_debug_check p = Ok ()"
  by (simp add: ip_debug_check_def ip_check_iff assertR_def)

lemma ip_costs:
  assumes "ip_shape L cs ks" "c \<in> set (map ip_cost ks)"
  shows "0 < c \<and> c \<le> internal_max_entry_bytes L"
  using assms by (auto simp: ip_shape_def ip_cost_def internal_max_entry_bytes_def entry_costs)

lemma ip_shape_parts:
  assumes "ip_shape L (cs @ ds) (ks @ s # ls)" "length cs = length ks + 1"
  shows "ip_shape L cs ks" "ip_shape L ds ls"
  using assms by (auto simp: ip_shape_def sorted_append)

text \<open>An overfull internal page splits around its middle key into two pages that are neither overfull nor underfull.\<close>

lemma ip_split_parts:
  assumes shape: "ip_shape L cs ks" and L: "layout_ok L" and used: "area_capacity INTERNAL_AREA < sum_list (map ip_cost ks)"
    "sum_list (map ip_cost ks) \<le> area_capacity INTERNAL_AREA + internal_max_entry_bytes L"
    and mid: "mid = min (balanced_split (map ip_cost ks) True) (length ks - 2)"
  shows "0 < mid" "mid + 2 \<le> length ks" "sum_list (map ip_cost (take mid ks)) \<le> area_capacity INTERNAL_AREA"
    "sum_list (map ip_cost (drop (Suc mid) ks)) \<le> area_capacity INTERNAL_AREA"
    "internal_min_used L \<le> sum_list (map ip_cost (take mid ks))" "internal_min_used L \<le> sum_list (map ip_cost (drop (Suc mid) ks))"
proof -
  let ?cs = "map ip_cost ks" and ?m = "internal_max_entry_bytes L" and ?cap = "area_capacity INTERNAL_AREA"
  have m: "4 * ?m \<le> ?cap" "?cap = 8168" using L by (simp_all add: layout_ok_def capacities)
  have bound: "\<And>c. c \<in> set ?cs \<Longrightarrow> 0 < c \<and> c \<le> ?m" by (rule ip_costs [OF shape])
  have "sum_list ?cs \<le> length ks * ?m" using sum_list_mono [of ks ip_cost "\<lambda>_. ?m"] bound by (simp add: sum_list_triv)
  then have "3 * ?m < length ks * ?m" using used(1) m(1) by linarith
  then have n: "3 < length ks" by (rule mult_less_cancel2 [THEN iffD1, THEN conjunct2])
  have small: "sum_list ?cs < 2 ^ 64 - 1" using used(2) m by simp
  have big: "2 * ?m < sum_list ?cs" using used(1) m(1) by linarith
  let ?s = "balanced_split ?cs True"
  have n3: "3 \<le> length ?cs" using n by simp
  note sides = balanced_split_middle [OF n3 small bound big refl]
  have s: "mid = ?s" "mid + 2 \<le> length ks" using sides(2) n by (simp_all add: mid)
  show "0 < mid" "mid + 2 \<le> length ks" using sides(1) s by simp_all
  have l: "left_bytes ?cs mid = sum_list (map ip_cost (take mid ks))" "right_bytes ?cs True mid = sum_list (map ip_cost (drop (Suc mid) ks))"
    by (simp_all add: left_bytes_def right_bytes_def take_map drop_map)
  show "sum_list (map ip_cost (take mid ks)) \<le> ?cap" "sum_list (map ip_cost (drop (Suc mid) ks)) \<le> ?cap"
    "internal_min_used L \<le> sum_list (map ip_cost (take mid ks))" "internal_min_used L \<le> sum_list (map ip_cost (drop (Suc mid) ks))"
    using sides(3-6) used m unfolding s(1) [symmetric] l internal_min_used_def by linarith+
qed

lemma ip_split_ok:
  assumes shape: "ip_shape (ip_layout p) (ip_children p) (ip_keys p)" and L: "layout_ok (ip_layout p)" and over: "ip_is_overfull p"
    and used: "ip_used_bytes p \<le> area_capacity INTERNAL_AREA + internal_max_entry_bytes (ip_layout p)"
    and r: "right = InternalPage_new (ip_layout p)"
  shows "\<exists>sep l q. ip_split_into p right = Ok (sep, l, q) \<and> ip_layout l = ip_layout p \<and> ip_layout q = ip_layout p \<and>
    ip_children p = ip_children l @ ip_children q \<and> ip_keys p = ip_keys l @ sep # ip_keys q \<and>
    ip_shape (ip_layout p) (ip_children l) (ip_keys l) \<and> ip_shape (ip_layout p) (ip_children q) (ip_keys q) \<and>
    \<not> ip_is_overfull l \<and> \<not> ip_is_overfull q \<and> \<not> ip_is_underfull l \<and> \<not> ip_is_underfull q"
proof -
  let ?ks = "ip_keys p" and ?cs = "ip_children p" and ?L = "ip_layout p"
  let ?mid = "min (balanced_split (map ip_cost ?ks) True) (length ?ks - 2)"
  have parts: "0 < ?mid" "?mid + 2 \<le> length ?ks" "sum_list (map ip_cost (take ?mid ?ks)) \<le> area_capacity INTERNAL_AREA"
    "sum_list (map ip_cost (drop (Suc ?mid) ?ks)) \<le> area_capacity INTERNAL_AREA"
    "internal_min_used ?L \<le> sum_list (map ip_cost (take ?mid ?ks))" "internal_min_used ?L \<le> sum_list (map ip_cost (drop (Suc ?mid) ?ks))"
    using ip_split_parts [OF shape L _ _ refl] over used by (simp_all add: ip_is_overfull_def ip_used_bytes_def)
  define mid where "mid = ?mid"
  note parts = parts [folded mid_def]
  have ks: "?ks = take mid ?ks @ ?ks ! mid # drop (Suc mid) ?ks" using parts(2) by (simp add: id_take_nth_drop)
  have t: "take (Suc mid) ?ks = take mid ?ks @ [?ks ! mid]" using parts(2) by (simp add: take_Suc_conv_app_nth)
  have len: "length ?cs = length ?ks + 1" "mid + 1 \<le> length ?cs" using shape parts(2) by (simp_all add: ip_shape_def)
  let ?l = "p\<lparr>ip_children := take (Suc mid) ?cs, ip_keys := take mid ?ks\<rparr>"
  let ?q = "right\<lparr>ip_children := drop (Suc mid) ?cs, ip_keys := drop (Suc mid) ?ks\<rparr>"
  have rl: "ip_layout right = ?L" "ip_children right = []" "ip_keys right = []" by (simp_all add: r InternalPage_new_def)
  have sh: "ip_shape ?L (take (Suc mid) ?cs) (take mid ?ks)" "ip_shape ?L (drop (Suc mid) ?cs) (drop (Suc mid) ?ks)"
    using ip_shape_parts [of ?L "take (Suc mid) ?cs" "drop (Suc mid) ?cs" "take mid ?ks" "?ks ! mid" "drop (Suc mid) ?ks"] shape len ks parts(2)
    by simp_all
  have "ip_split_into p right = Ok (?ks ! mid, ?l, ?q)"
    unfolding ip_split_into_def mid_def [symmetric] Let_def
    using parts(1,2) len shape sh rl
    by (simp add: ip_debug_check_ok assertR_def vec_split_off_def vec_pop_def t)
  then show ?thesis using parts(3-6) sh ks rl
    by (intro exI conjI) (assumption | simp add: ip_is_overfull_def ip_is_underfull_def ip_used_bytes_def)+
qed

text \<open>A page that cannot lend an edge key holds less than one entry above the minimum.\<close>

lemma ip_cannot_lend:
  assumes "\<not> ip_can_lend p edge" "ip_shape (ip_layout p) (ip_children p) (ip_keys p)" "layout_ok (ip_layout p)"
  shows "ip_used_bytes p < internal_min_used (ip_layout p) + internal_max_entry_bytes (ip_layout p)"
proof (cases "ip_keys p = []")
  case True
  then show ?thesis by (simp add: ip_used_bytes_def internal_max_entry_bytes_def entry_costs)
next
  case False
  obtain k where k: "k \<in> set (ip_keys p)" "ip_used_bytes p - ip_cost k < internal_min_used (ip_layout p)"
    using assms(1) False hd_in_set [OF False] last_in_set [OF False] by (cases edge) (fastforce simp: ip_can_lend_def vec_first_def vec_last_def not_le)+
  have "ip_cost k \<le> internal_max_entry_bytes (ip_layout p)" using ip_costs [OF assms(2), of "ip_cost k"] k(1) by simp
  then show ?thesis using k(2) by simp
qed

lemma ip_absorb_ok:
  assumes shape: "ip_shape L (ip_children p) (ip_keys p)" "ip_shape L (ip_children right) (ip_keys right)"
    and L: "ip_layout p = L" "ip_layout right = L" and key: "length sep \<le> max_key_len L" "sorted (ip_keys p @ sep # ip_keys right)"
  shows "ip_absorb_right p sep right = Ok (p\<lparr>ip_children := ip_children p @ ip_children right, ip_keys := ip_keys p @ sep # ip_keys right\<rparr>,
      right\<lparr>ip_children := [], ip_keys := []\<rparr>)"
    and "ip_shape L (ip_children p @ ip_children right) (ip_keys p @ sep # ip_keys right)"
proof -
  show sh: "ip_shape L (ip_children p @ ip_children right) (ip_keys p @ sep # ip_keys right)"
    using shape key by (auto simp: ip_shape_def)
  show "ip_absorb_right p sep right = Ok (p\<lparr>ip_children := ip_children p @ ip_children right, ip_keys := ip_keys p @ sep # ip_keys right\<rparr>,
      right\<lparr>ip_children := [], ip_keys := []\<rparr>)"
    using shape sh L by (simp add: ip_absorb_right_def Let_def ip_debug_check_ok)
qed

section \<open>Splitting and merging internal pages\<close>

text \<open>C23. An internal page with one entry too many, at most, splits into two pages that are neither overfull nor underfull, with the
  same keys and children in order around the key moved up; merging them around that key gives the page back.\<close>

theorem internal_split:
  assumes "ip_check p = Ok ()" "layout_ok (ip_layout p)" "ip_is_overfull p"
    and "ip_used_bytes p \<le> area_capacity INTERNAL_AREA + internal_max_entry_bytes (ip_layout p)"
  shows "\<exists>sep l r. ip_split_into p (InternalPage_new (ip_layout p)) = (Ok (sep, l, r) :: ('e, _) result) \<and>
    ip_children p = ip_children l @ ip_children r \<and> ip_keys p = ip_keys l @ sep # ip_keys r \<and> ip_check l = Ok () \<and> ip_check r = Ok () \<and>
    \<not> ip_is_overfull l \<and> \<not> ip_is_overfull r \<and> \<not> ip_is_underfull l \<and> \<not> ip_is_underfull r \<and>
    ip_absorb_right l sep r = Ok (p, InternalPage_new (ip_layout p))"
proof -
  have ne: "ip_keys p \<noteq> []" using assms(3) by (auto simp: ip_is_overfull_def ip_used_bytes_def)
  then have shape: "ip_shape (ip_layout p) (ip_children p) (ip_keys p)" using assms(1) by (simp add: ip_check_iff)
  from ip_split_ok [OF shape assms(2-4) refl] obtain sep l r where
    s: "ip_split_into p (InternalPage_new (ip_layout p)) = (Ok (sep, l, r) :: ('e, _) result)" "ip_layout l = ip_layout p" "ip_layout r = ip_layout p"
      "ip_children p = ip_children l @ ip_children r" "ip_keys p = ip_keys l @ sep # ip_keys r"
      "ip_shape (ip_layout p) (ip_children l) (ip_keys l)" "ip_shape (ip_layout p) (ip_children r) (ip_keys r)"
      "\<not> ip_is_overfull l" "\<not> ip_is_overfull r" "\<not> ip_is_underfull l" "\<not> ip_is_underfull r" by metis
  have "length sep \<le> max_key_len (ip_layout p)" "sorted (ip_keys l @ sep # ip_keys r)"
    using shape s(5) by (auto simp: ip_shape_def)
  note ab = ip_absorb_ok(1) [OF s(6,7) s(2,3) this]
  have "l\<lparr>ip_children := ip_children l @ ip_children r, ip_keys := ip_keys l @ sep # ip_keys r\<rparr> = p"
    "r\<lparr>ip_children := [], ip_keys := []\<rparr> = InternalPage_new (ip_layout p)"
    using s(2-5) by (simp_all add: InternalPage_new_def)
  note ab = ab [unfolded this]
  show ?thesis by (rule exI [of _ sep], rule exI [of _ l], rule exI [of _ r]) (use s in \<open>simp add: ip_check_iff ab\<close>)
qed

lemma replicate_order [simp]: "0 < n \<Longrightarrow> replicate n x \<le> replicate n (y::'a::linorder) \<longleftrightarrow> x \<le> y"
  "0 < n \<Longrightarrow> replicate n x < replicate n y \<longleftrightarrow> x < y"
proof -
  have same: "x # replicate m x < y # replicate m y \<longleftrightarrow> x < y" for m and x y :: 'a by (cases "x = y") simp_all
  show less: "replicate n x < replicate n y \<longleftrightarrow> x < y" if "0 < n" for x y :: 'a
    using that same by (cases n) simp_all
  show "replicate n x \<le> replicate n y \<longleftrightarrow> x \<le> y" if "0 < n"
    using less [OF that, of y x] by (simp add: linorder_not_less [symmetric])
qed

theorem internal_split_witness:
  "\<exists>sep l r. ip_split_into \<lparr>ip_layout = \<lparr>max_key_len = 2007, tombstone_capacity = 16\<rparr>, ip_children = map PageId [1, 2, 3, 4, 5, 6],
      ip_keys = map (replicate 2007) [1, 2, 3, 4, 5]\<rparr> (InternalPage_new \<lparr>max_key_len = 2007, tombstone_capacity = 16\<rparr>) =
      (Ok (sep, l, r) :: (unit, _) result) \<and> \<not> ip_is_overfull l \<and> \<not> ip_is_overfull r"
proof -
  let ?L = "\<lparr>max_key_len = 2007, tombstone_capacity = 16\<rparr>"
  let ?p = "\<lparr>ip_layout = ?L, ip_children = map PageId [1, 2, 3, 4, 5, 6], ip_keys = map (replicate 2007) [1, 2, 3, 4, 5]\<rparr>"
  have u: "ip_used_bytes ?p = 10085" by (simp add: ip_used_bytes_def ip_cost_def entry_costs)
  have 1: "ip_check ?p = Ok ()" by (simp add: ip_check_iff ip_shape_def)
  have 2: "layout_ok (ip_layout ?p)"
    by (simp add: layout_ok_def leaf_max_entry_bytes_def internal_max_entry_bytes_def entry_costs capacities PAGE_SIZE_def)
  have 3: "ip_is_overfull ?p" "ip_used_bytes ?p \<le> area_capacity INTERNAL_AREA + internal_max_entry_bytes (ip_layout ?p)"
    unfolding ip_is_overfull_def u by (simp_all add: capacities internal_max_entry_bytes_def entry_costs)
  have "\<exists>sep l r. ip_split_into ?p (InternalPage_new (ip_layout ?p)) = (Ok (sep, l, r) :: (unit, _) result) \<and> \<not> ip_is_overfull l \<and> \<not> ip_is_overfull r"
    using internal_split [where 'e = unit, OF 1 2 3] by (elim exE conjE) (intro exI conjI)
  then show ?thesis by (simp only: InternalPage.select_convs)
qed

text \<open>C24. When an internal page is underfull and its sibling cannot lend it a key, the two merge with their separator into a page that is
  not overfull and holds their keys and children in order.\<close>

theorem internal_merge_fits:
  assumes "ip_check p = Ok ()" "ip_check right = Ok ()" "ip_children p \<noteq> []" "ip_children right \<noteq> []"
    and "ip_layout right = ip_layout p" "layout_ok (ip_layout p)"
    and "length sep \<le> max_key_len (ip_layout p)" "sorted (ip_keys p @ sep # ip_keys right)"
    and "ip_is_underfull p \<and> \<not> ip_can_lend right First \<or> ip_is_underfull right \<and> \<not> ip_can_lend p Last"
  shows "\<exists>q. ip_absorb_right p sep right = Ok (q, InternalPage_new (ip_layout p)) \<and> ip_check q = Ok () \<and> \<not> ip_is_overfull q \<and>
    ip_keys q = ip_keys p @ sep # ip_keys right \<and> ip_children q = ip_children p @ ip_children right"
proof -
  let ?L = "ip_layout p" and ?m = "internal_max_entry_bytes (ip_layout p)"
  let ?q = "p\<lparr>ip_children := ip_children p @ ip_children right, ip_keys := ip_keys p @ sep # ip_keys right\<rparr>"
  have shape: "ip_shape ?L (ip_children p) (ip_keys p)" "ip_shape ?L (ip_children right) (ip_keys right)"
    using assms(1-5) by (simp_all add: ip_check_iff)
  note a = ip_absorb_ok [OF shape refl assms(5,7,8)]
  have "ip_used_bytes p + ip_used_bytes right < 2 * internal_min_used ?L + ?m"
    using assms(5,6,9) shape ip_cannot_lend [of right First] ip_cannot_lend [of p Last] by (auto simp: ip_is_underfull_def)
  moreover have "ip_cost sep \<le> ?m" using assms(7) by (simp add: ip_cost_def internal_max_entry_bytes_def entry_costs)
  moreover have "2 * internal_min_used ?L + 2 * ?m \<le> area_capacity INTERNAL_AREA" using assms(6) unfolding internal_min_used_def layout_ok_def by linarith
  ultimately have "\<not> ip_is_overfull ?q" by (simp add: ip_is_overfull_def ip_used_bytes_def)
  moreover have "right\<lparr>ip_children := [], ip_keys := []\<rparr> = InternalPage_new ?L" using assms(5) by (simp add: InternalPage_new_def)
  ultimately show ?thesis using a by (intro exI [of _ ?q]) (simp add: ip_check_iff)
qed

theorem internal_merge_fits_witness:
  "\<exists>q. ip_absorb_right \<lparr>ip_layout = \<lparr>max_key_len = 2007, tombstone_capacity = 16\<rparr>, ip_children = [PageId 1], ip_keys = []\<rparr> [7]
      \<lparr>ip_layout = \<lparr>max_key_len = 2007, tombstone_capacity = 16\<rparr>, ip_children = [PageId 2], ip_keys = []\<rparr> =
      (Ok (q, InternalPage_new \<lparr>max_key_len = 2007, tombstone_capacity = 16\<rparr>) :: (unit, _) result) \<and> ip_keys q = [[7]]"
proof -
  let ?L = "\<lparr>max_key_len = 2007, tombstone_capacity = 16\<rparr>"
  let ?p = "\<lparr>ip_layout = ?L, ip_children = [PageId 1], ip_keys = []\<rparr>" and ?r = "\<lparr>ip_layout = ?L, ip_children = [PageId 2], ip_keys = []\<rparr>"
  have "layout_ok ?L" by (simp add: layout_ok_def leaf_max_entry_bytes_def internal_max_entry_bytes_def entry_costs capacities PAGE_SIZE_def)
  moreover have "ip_is_underfull ?p" "\<not> ip_can_lend ?r First"
    by (simp_all add: ip_is_underfull_def ip_used_bytes_def internal_min_used_def capacities internal_max_entry_bytes_def entry_costs ip_can_lend_def vec_first_def)
  ultimately have "\<exists>q. ip_absorb_right ?p [7] ?r = (Ok (q, InternalPage_new (ip_layout ?p)) :: (unit, _) result) \<and> ip_check q = Ok () \<and> \<not> ip_is_overfull q \<and>
      ip_keys q = ip_keys ?p @ [7] # ip_keys ?r \<and> ip_children q = ip_children ?p @ ip_children ?r"
    by (intro internal_merge_fits) (simp_all add: ip_check_iff ip_shape_def)
  then show ?thesis by (elim exE conjE) (intro exI conjI, simp_all)
qed


section \<open>Binary search\<close>

lemma partition_loop_ok:
  assumes "\<And>i. lo \<le> i \<Longrightarrow> i < hi \<Longrightarrow> pred i = Ok (i < m)" "lo \<le> m" "m \<le> hi"
  shows "partition_loop pred lo hi = Ok m"
  using assms
proof (induction pred lo hi rule: partition_loop.induct)
  case (1 pred lo hi)
  show ?case
  proof (cases "lo < hi")
    case True
    let ?mid = "lo + (hi - lo) div 2"
    have mid: "lo \<le> ?mid" "?mid < hi" using True by auto
    then have p: "pred ?mid = Ok (?mid < m)" using "1.prems"(1) by blast
    show ?thesis
    proof (cases "?mid < m")
      case T: True
      have "partition_loop pred (?mid + 1) hi = Ok m" using True T "1.prems" mid by (intro "1.IH"(1)) auto
      then show ?thesis using True T p by (subst partition_loop.simps) (simp add: Let_def)
    next
      case False
      have "partition_loop pred lo ?mid = Ok m" using True False "1.prems" mid by (intro "1.IH"(2)) auto
      then show ?thesis using True False p by (subst partition_loop.simps) (simp add: Let_def)
    qed
  next
    case False
    then show ?thesis using "1.prems" by (subst partition_loop.simps) simp
  qed
qed

lemma takeWhile_sorted:
  assumes "sorted xs" "\<And>x y. x \<le> y \<Longrightarrow> P y \<Longrightarrow> P x" "i < length xs"
  shows "P (xs ! i) \<longleftrightarrow> i < length (takeWhile P xs)"
proof
  assume p: "P (xs ! i)"
  show "i < length (takeWhile P xs)"
  proof (rule ccontr)
    assume "\<not> i < length (takeWhile P xs)"
    then have l: "length (takeWhile P xs) \<le> i" by simp
    then have "xs ! length (takeWhile P xs) \<le> xs ! i" using assms(1,3) by (simp add: sorted_nth_mono)
    then show False using assms(2,3) p l nth_length_takeWhile [of P xs] by (meson le_less_trans)
  qed
next
  assume "i < length (takeWhile P xs)"
  then show "P (xs ! i)" using nth_mem [of i "takeWhile P xs"] set_takeWhileD [of "xs ! i" P xs] by (simp add: takeWhile_nth)
qed

lemma partition_point_sorted:
  assumes "sorted xs" "\<And>x y. x \<le> y \<Longrightarrow> P y \<Longrightarrow> P x" "\<And>i. i < length xs \<Longrightarrow> pred i = Ok (P (xs ! i))"
  shows "partition_point (length xs) pred = Ok (slice_partition_point P xs)"
  unfolding partition_point_def slice_partition_point_def
proof (rule partition_loop_ok)
  show "pred i = Ok (i < length (takeWhile P xs))" if "0 \<le> i" "i < length xs" for i
    using assms(3) [OF that(2)] takeWhile_sorted [of xs P i] assms(1,2) that(2) by simp
qed (simp_all add: length_takeWhile_le)

section \<open>Fields of a page\<close>

lemma put_u32_split: "buf = a @ g @ c \<Longrightarrow> off = length a \<Longrightarrow> length g = 4 \<Longrightarrow> put_u32_le buf off v = Ok (a @ to_le_bytes v @ c)"
  by (simp add: put_u32_le_def copy_from_slice_def patch_def)

lemma put_u64_split: "buf = a @ g @ c \<Longrightarrow> off = length a \<Longrightarrow> length g = 8 \<Longrightarrow> put_u64_le buf off v = Ok (a @ to_le_bytes v @ c)"
  by (simp add: put_u64_le_def copy_from_slice_def patch_def)

lemma get_u32_split: "buf = a @ to_le_bytes v @ c \<Longrightarrow> off = length a \<Longrightarrow> get_u32_le buf off = Ok v"
  by (simp add: get_u32_le_def slice_get_def sub_def)

lemma get_u64_split: "buf = a @ to_le_bytes v @ c \<Longrightarrow> off = length a \<Longrightarrow> get_u64_le buf off = Ok v"
  by (simp add: get_u64_le_def slice_get_def sub_def)

lemma read_u32_split:
  assumes "r_buf r = a @ to_le_bytes v @ c" "r_pos r = length a" "length (r_buf r) < 2 ^ 64"
  shows "read_u32_le r = Ok (v, r\<lparr>r_pos := length a + 4\<rparr>)"
  using assms by (simp add: read_u32_le_def read_bytes_def checked_add_usize_def slice_get_def sub_def)

lemma read_u64_split:
  assumes "r_buf r = a @ to_le_bytes v @ c" "r_pos r = length a" "length (r_buf r) < 2 ^ 64"
  shows "read_u64_le r = Ok (v, r\<lparr>r_pos := length a + 8\<rparr>)"
  using assms by (simp add: read_u64_le_def read_bytes_def checked_add_usize_def slice_get_def sub_def)

text \<open>The header both kinds of node share: kind, entry count, a reserved field and a page id.\<close>

definition node_hdr :: "byte \<Rightarrow> nat \<Rightarrow> PageId option \<Rightarrow> bytes" where
  "node_hdr kind n link = header_bytes kind @ to_le_bytes (word_of_nat n :: u32) @ to_le_bytes (0 :: u32) @ to_le_bytes (encode_page_id link)"

lemma node_hdr_length [simp]: "length (node_hdr kind n link) = 24"
  by (simp add: node_hdr_def)

lemma node_hdr_split:
  "node_hdr kind n link @ rest = header_bytes kind @ to_le_bytes (word_of_nat n :: u32) @ (to_le_bytes (0 :: u32) @ to_le_bytes (encode_page_id link) @ rest)"
  "node_hdr kind n link @ rest = (header_bytes kind @ to_le_bytes (word_of_nat n :: u32)) @ to_le_bytes (0 :: u32) @ (to_le_bytes (encode_page_id link) @ rest)"
  "node_hdr kind n link @ rest =
    (header_bytes kind @ to_le_bytes (word_of_nat n :: u32) @ to_le_bytes (0 :: u32)) @ to_le_bytes (encode_page_id link) @ rest"
  by (simp_all add: node_hdr_def)

lemma node_hdr_get:
  "get_u32_le (node_hdr kind n link @ rest) 8 = Ok (word_of_nat n)"
  "get_u64_le (node_hdr kind n link @ rest) 16 = Ok (encode_page_id link)"
  by (rule get_u32_split [OF node_hdr_split(1)], simp) (rule get_u64_split [OF node_hdr_split(3)], simp)

lemma node_hdr_put:
  "put_u32_le (node_hdr kind n link @ rest) 8 (word_of_nat m) = Ok (node_hdr kind m link @ rest)"
  unfolding node_hdr_split(1) by (rule put_u32_split [OF refl]) simp_all

lemma to_le_zero: "to_le_bytes (0 :: u32) = zeros 4"
proof -
  have "le_bytes n 0 = zeros n" for n by (induction n) simp_all
  then show ?thesis by (simp add: to_le_bytes_def)
qed

lemma node_hdr_init:
  "bindR (put_common_header (zeros PAGE_SIZE) kind) (\<lambda>buf. bindR (put_u32_le buf 8 (word_of_nat n)) (\<lambda>buf.
      bindR (put_u64_le buf 16 (encode_page_id link)) f)) = f (node_hdr kind n link @ zeros (PAGE_SIZE - 24))"
proof -
  have z: "zeros 8184 = zeros 4 @ (zeros 4 @ zeros 8 @ zeros 8168)" by (simp flip: replicate_add)
  have 1: "put_common_header (zeros PAGE_SIZE) kind = Ok (header_bytes kind @ zeros 4 @ (zeros 4 @ zeros 8 @ zeros 8168))"
    by (subst put_common_header_ok) (simp_all add: PAGE_SIZE_def z)
  have 2: "put_u32_le (header_bytes kind @ zeros 4 @ (zeros 4 @ zeros 8 @ zeros 8168)) 8 (word_of_nat n) =
      Ok (header_bytes kind @ to_le_bytes (word_of_nat n :: u32) @ (zeros 4 @ zeros 8 @ zeros 8168))"
    by (rule put_u32_split [OF refl]) simp_all
  have 3: "put_u64_le (header_bytes kind @ to_le_bytes (word_of_nat n :: u32) @ (zeros 4 @ zeros 8 @ zeros 8168)) 16 (encode_page_id link) =
      Ok ((header_bytes kind @ to_le_bytes (word_of_nat n :: u32) @ zeros 4) @ to_le_bytes (encode_page_id link) @ zeros 8168)"
    by (rule put_u64_split [where g = "zeros 8"]) simp_all
  show ?thesis unfolding 1 bindR.simps 2 3 by (simp add: node_hdr_def to_le_zero PAGE_SIZE_def)
qed


section \<open>The bytes of an internal page\<close>

definition child_payload :: "PageId \<Rightarrow> bytes" where
  "child_payload c = to_le_bytes (encode_page_id (Some c))"

lemma child_payload_length [simp]: "length (child_payload c) = 8"
  by (simp add: child_payload_def)

definition ip_entries :: "IndexKey list \<Rightarrow> PageId list \<Rightarrow> entries" where
  "ip_entries ks cs = zip ks (map child_payload cs)"

definition internal_page :: "PageId list \<Rightarrow> IndexKey list \<Rightarrow> bytes" where
  "internal_page cs ks = area_page INTERNAL_AREA (node_hdr KIND_INTERNAL (length ks) (Some (hd cs))) (ip_entries ks (tl cs))"

text \<open>An internal page as the tree keeps it: checked, not overfull, its children on the disk.\<close>

definition ip_stored :: "InternalPage \<Rightarrow> bool" where
  "ip_stored p \<longleftrightarrow> ip_shape (ip_layout p) (ip_children p) (ip_keys p) \<and> \<not> ip_is_overfull p \<and> list_all valid_page_id (ip_children p)"

lemma ip_entries_length [simp]: "length ks = length cs \<Longrightarrow> length (ip_entries ks cs) = length ks"
  by (simp add: ip_entries_def)

lemma ip_entries_bytes: "length ks = length cs \<Longrightarrow> data_len (ip_entries ks cs) = sum_list (map length ks) + 8 * length ks"
  by (induction ks cs rule: list_induct2) (simp_all add: ip_entries_def)

lemma ip_cost_sum: "sum_list (map ip_cost ks) = 2 * length ks + (sum_list (map length ks) + 8 * length ks)"
  by (induction ks) (simp_all add: ip_cost_def entry_costs)

lemma ip_fits:
  assumes "length ks = length cs" "sum_list (map ip_cost ks) \<le> area_capacity INTERNAL_AREA"
  shows "area_fits INTERNAL_AREA (ip_entries ks cs)"
proof -
  have "length (snd e) = 8" if "e \<in> set (ip_entries ks cs)" for e
    using that set_zip_rightD [of "fst e" "snd e" ks "map child_payload cs"] by (auto simp: ip_entries_def)
  then show ?thesis using assms by (simp add: area_fits_def ip_entries_bytes ip_cost_sum PAGE_SIZE_def)
qed

lemma ip_put_entries_eq: "length ks = length cs \<Longrightarrow> ip_put_entries i at buf (zip ks cs) = put_entries INTERNAL_AREA i at buf (ip_entries ks cs)"
  by (induction ks cs arbitrary: i at buf rule: list_induct2)
    (simp_all add: ip_entries_def child_payload_def)

lemma area_page_zero: "area_capacity INTERNAL_AREA = PAGE_SIZE - 24"
  by (simp add: area_capacity_def)

lemma ip_encode_page:
  assumes "ip_shape (ip_layout p) (ip_children p) (ip_keys p)" "\<not> ip_is_overfull p" "length buf = PAGE_SIZE"
  shows "ip_encode p buf = Ok (internal_page (ip_children p) (ip_keys p))"
proof -
  let ?ks = "ip_keys p" and ?cs = "ip_children p"
  obtain c cs where c: "?cs = c # cs" using assms(1) by (cases ?cs) (auto simp: ip_shape_def)
  have len: "length ?ks = length cs" using assms(1) c by (simp add: ip_shape_def)
  have used: "sum_list (map ip_cost ?ks) \<le> area_capacity INTERNAL_AREA" using assms(2) by (simp add: ip_is_overfull_def ip_used_bytes_def)
  let ?d = "sum_list (map length ?ks)" and ?n = "length ?ks"
  have cap: "2 * ?n + (?d + 8 * ?n) \<le> 8168" using used by (simp add: ip_cost_sum capacities)
  note fits = ip_fits [OF len used]
  have pe: "put_entries INTERNAL_AREA 0 (PAGE_SIZE - (?d + 8 * ?n)) (node_hdr KIND_INTERNAL ?n (Some c) @ zeros (PAGE_SIZE - 24)) (ip_entries ?ks cs) =
      Ok (PAGE_SIZE, internal_page ?cs ?ks)"
    using put_entries_page [OF fits, of "node_hdr KIND_INTERNAL ?n (Some c)"]
    by (simp add: internal_page_def c ip_entries_bytes [OF len] area_page_zero)
  have chk: "ip_check p = Ok ()" "vec_first ?cs = Some c" "slice_get ?cs 1 (length ?cs) = Ok cs" "try_u32 ?n = Ok (word_of_nat ?n)"
    "ensure_fits_page (24 + ip_used_bytes p) = Ok ()" "sub_usize PAGE_SIZE ?d = Ok (PAGE_SIZE - ?d)"
    "sub_usize (PAGE_SIZE - ?d) (?n * 8) = Ok (PAGE_SIZE - (?d + 8 * ?n))"
    using assms(1) c cap used
    by (simp_all add: ip_check_iff vec_first_def slice_get_def sub_def try_u32_def ensure_fits_page_def ip_used_bytes_def capacities PAGE_SIZE_def
        sub_usize_def mult.commute)
  show ?thesis
    unfolding ip_encode_def chk bindR.simps ok_or.simps layout_values Let_def
    using assms(3)
    by (simp add: chk node_hdr_init ip_put_entries_eq [OF len] pe)
qed


lemma traverse_upt:
  assumes "\<And>i. i < length xs \<Longrightarrow> f i = Ok (xs ! i)"
  shows "traverseR f [0..<length xs] = Ok xs"
proof -
  have "traverseR f [j..<j + length ys] = Ok ys" if "\<And>i. i < length ys \<Longrightarrow> f (j + i) = Ok (ys ! i)" for ys j
    using that
  proof (induction ys arbitrary: j)
    case (Cons y ys)
    have u: "[j..<j + length (y # ys)] = j # [Suc j..<Suc j + length ys]" by (subst upt_conv_Cons) simp_all
    have "f j = Ok y" using Cons.prems [of 0] by simp
    moreover have "traverseR f [Suc j..<Suc j + length ys] = Ok ys"
      using Cons.prems [of "Suc i" for i] by (intro Cons.IH) force
    ultimately show ?case unfolding u by simp
  qed simp
  from this [of xs 0] show ?thesis using assms by simp
qed

lemma node_hdr_read:
  assumes "buf = node_hdr kind n link @ rest" "length buf = PAGE_SIZE"
  shows "bindR (map_err CodecBuffer (BufReader_new buf)) (\<lambda>r. bindR (read_common_header_of_kind r kind) (\<lambda>r.
      bindR (map_err CodecBuffer (read_u32_le r)) (\<lambda>(n, r). bindR (map_err CodecBuffer (read_u32_le r)) (\<lambda>(z, r).
      bindR (map_err CodecBuffer (read_u64_le r)) (\<lambda>(raw, r). f n z raw r))))) =
    f (word_of_nat n) 0 (encode_page_id link) \<lparr>r_buf = buf, r_pos = 24\<rparr>"
proof -
  let ?r = "\<lambda>i. \<lparr>r_buf = buf, r_pos = i\<rparr>"
  have len: "length buf < 2 ^ 64" by (simp add: assms(2) PAGE_SIZE_def)
  have 0: "BufReader_new buf = Ok (?r 0)" by (simp add: BufReader_new_def assms(2))
  have 1: "read_common_header_of_kind (?r 0) kind = Ok (?r 8)"
    using read_header_bytes [of "?r 0" kind] len assms(1) by (simp add: read_common_header_of_kind_def node_hdr_split(1))
  have 2: "read_u32_le (?r 8) = Ok (word_of_nat n, ?r 12)"
    using read_u32_split [of "?r 8" "header_bytes kind" "word_of_nat n"] len assms(1) by (simp add: node_hdr_split(1))
  have 3: "read_u32_le (?r 12) = Ok (0, ?r 16)"
    using read_u32_split [of "?r 12" "header_bytes kind @ to_le_bytes (word_of_nat n :: u32)" 0] len assms(1) by (simp add: node_hdr_split(2))
  have 4: "read_u64_le (?r 16) = Ok (encode_page_id link, ?r 24)"
    using read_u64_split [of "?r 16" "header_bytes kind @ to_le_bytes (word_of_nat n :: u32) @ to_le_bytes (0 :: u32)" "encode_page_id link"] len assms(1)
    by (simp add: node_hdr_split(3))
  show ?thesis by (simp add: 0 1 2 3 4)
qed

text \<open>What a stored internal page reads as: the facts its decoder and its view share.\<close>

lemma internal_page_facts:
  assumes "ip_stored p"
  obtains c cs rest where "ip_children p = c # cs" "length cs = length (ip_keys p)" "length (ip_keys p) < 2 ^ 32"
    "internal_page (ip_children p) (ip_keys p) = node_hdr KIND_INTERNAL (length (ip_keys p)) (Some c) @ rest"
    "length (internal_page (ip_children p) (ip_keys p)) = PAGE_SIZE" "area_fits INTERNAL_AREA (ip_entries (ip_keys p) cs)"
    "internal_page (ip_children p) (ip_keys p) = area_page INTERNAL_AREA (node_hdr KIND_INTERNAL (length (ip_keys p)) (Some c)) (ip_entries (ip_keys p) cs)"
proof -
  let ?ks = "ip_keys p"
  have shape: "ip_shape (ip_layout p) (ip_children p) ?ks" using assms by (simp add: ip_stored_def)
  then obtain c cs where c: "ip_children p = c # cs" by (cases "ip_children p") (auto simp: ip_shape_def)
  have len: "length ?ks = length cs" using shape c by (simp add: ip_shape_def)
  have used: "sum_list (map ip_cost ?ks) \<le> area_capacity INTERNAL_AREA" using assms by (simp add: ip_stored_def ip_is_overfull_def ip_used_bytes_def)
  note fits = ip_fits [OF len used]
  have n: "length ?ks < 2 ^ 32" using used by (simp add: ip_cost_sum capacities)
  have page: "internal_page (ip_children p) ?ks = area_page INTERNAL_AREA (node_hdr KIND_INTERNAL (length ?ks) (Some c)) (ip_entries ?ks cs)"
    by (simp add: internal_page_def c)
  have l: "length (internal_page (ip_children p) ?ks) = PAGE_SIZE" unfolding page by (rule area_page_length [OF fits]) simp
  show thesis by (rule that [OF c len [symmetric] n _ l fits page]) (simp add: page area_page_def)
qed

lemma ip_page_entry:
  assumes "ip_stored p" "i < length (ip_keys p)"
  shows "area_key INTERNAL_AREA (internal_page (ip_children p) (ip_keys p)) (length (ip_keys p)) i = Ok (ip_keys p ! i)"
    "area_payload INTERNAL_AREA (internal_page (ip_children p) (ip_keys p)) (length (ip_keys p)) i = Ok (child_payload (ip_children p ! Suc i))"
proof -
  from internal_page_facts [OF assms(1)] obtain c cs where f: "ip_children p = c # cs" "length cs = length (ip_keys p)"
    "area_fits INTERNAL_AREA (ip_entries (ip_keys p) cs)"
    "internal_page (ip_children p) (ip_keys p) = area_page INTERNAL_AREA (node_hdr KIND_INTERNAL (length (ip_keys p)) (Some c)) (ip_entries (ip_keys p) cs)"
    by metis
  have len: "length (ip_entries (ip_keys p) cs) = length (ip_keys p)" "i < length (ip_entries (ip_keys p) cs)" using f(2) assms(2) by simp_all
  have nth: "ip_entries (ip_keys p) cs ! i = (ip_keys p ! i, child_payload (ip_children p ! Suc i))"
    using assms(2) f(1,2) by (simp add: ip_entries_def)
  note e = area_entry_page [OF f(3) _ len(2), of "node_hdr KIND_INTERNAL (length (ip_keys p)) (Some c)", unfolded len(1), folded f(4)]
  show "area_key INTERNAL_AREA (internal_page (ip_children p) (ip_keys p)) (length (ip_keys p)) i = Ok (ip_keys p ! i)"
    "area_payload INTERNAL_AREA (internal_page (ip_children p) (ip_keys p)) (length (ip_keys p)) i = Ok (child_payload (ip_children p ! Suc i))"
    by (simp_all add: e nth)
qed

lemma ip_page_check:
  assumes "ip_stored p"
  shows "area_check INTERNAL_AREA (internal_page (ip_children p) (ip_keys p)) (length (ip_keys p)) = Ok ()"
proof -
  from internal_page_facts [OF assms(1)] obtain c cs where f: "length cs = length (ip_keys p)" "area_fits INTERNAL_AREA (ip_entries (ip_keys p) cs)"
    "internal_page (ip_children p) (ip_keys p) = area_page INTERNAL_AREA (node_hdr KIND_INTERNAL (length (ip_keys p)) (Some c)) (ip_entries (ip_keys p) cs)"
    by metis
  show ?thesis using area_check_page [OF f(2), of "node_hdr KIND_INTERNAL (length (ip_keys p)) (Some c)"] f(1) by (simp add: f(3))
qed

lemma ip_decode_page:
  assumes "ip_stored p"
  shows "ip_decode (internal_page (ip_children p) (ip_keys p)) (ip_layout p) = Ok p"
proof -
  let ?ks = "ip_keys p" and ?b = "internal_page (ip_children p) (ip_keys p)"
  from internal_page_facts [OF assms] obtain c cs rest where f: "ip_children p = c # cs" "length cs = length ?ks" "length ?ks < 2 ^ 32"
    "?b = node_hdr KIND_INTERNAL (length ?ks) (Some c) @ rest" "length ?b = PAGE_SIZE" by metis
  have valid: "valid_page_id c" "\<And>i. i < length cs \<Longrightarrow> valid_page_id (cs ! i)" using assms f(1) by (simp_all add: ip_stored_def list_all_iff)
  have n: "unat (word_of_nat (length ?ks) :: u32) = length ?ks" using f(3) by (simp add: unat_of_nat_eq)
  have e: "ip_decode_entry ?b (length ?ks) i = Ok (zip ?ks cs ! i)" if "i < length ?ks" for i
    unfolding ip_decode_entry_def ip_page_entry [OF assms that] bindR.simps
    using valid(2) [of i] that f(1,2) by (simp add: child_payload_def decode_encode_child)
  have t: "traverseR (ip_decode_entry ?b (length ?ks)) [0..<length ?ks] = Ok (zip ?ks cs)"
    using traverse_upt [of "zip ?ks cs" "ip_decode_entry ?b (length ?ks)"] e f(2) by simp
  have p: "\<lparr>ip_layout = ip_layout p, ip_children = c # map snd (zip ?ks cs), ip_keys = map fst (zip ?ks cs)\<rparr> = p"
    using f(1,2) by simp
  have chk: "ip_check p = Ok ()" using assms by (simp add: ip_stored_def ip_check_iff)
  show ?thesis
    unfolding ip_decode_def node_hdr_read [OF f(4,5)]
    by (simp add: decode_encode_child valid(1) n ip_page_check [OF assms] t p [simplified] chk Let_def)
qed

section \<open>The view of an internal page\<close>

lemma iv_new_page:
  assumes "ip_stored p"
  shows "iv_new (internal_page (ip_children p) (ip_keys p)) (ip_layout p) = Ok \<lparr>v_buf = internal_page (ip_children p) (ip_keys p), v_layout = ip_layout p\<rparr>"
    "v_len \<lparr>v_buf = internal_page (ip_children p) (ip_keys p), v_layout = ip_layout p\<rparr> = Ok (length (ip_keys p))"
proof -
  let ?ks = "ip_keys p" and ?b = "internal_page (ip_children p) (ip_keys p)"
  from internal_page_facts [OF assms] obtain c rest where f: "length ?ks < 2 ^ 32"
    "?b = node_hdr KIND_INTERNAL (length ?ks) (Some c) @ rest" "length ?b = PAGE_SIZE" by metis
  have n: "unat (word_of_nat (length ?ks) :: u32) = length ?ks" using f(1) by (simp add: unat_of_nat_eq)
  have g: "get_u32_le ?b 8 = Ok (word_of_nat (length ?ks))" unfolding f(2) by (rule node_hdr_get)
  have "expect_common_header ?b KIND_INTERNAL = Ok ()" unfolding f(2) node_hdr_split(1) by (simp add: expect_header_bytes)
  then show "iv_new ?b (ip_layout p) = Ok \<lparr>v_buf = ?b, v_layout = ip_layout p\<rparr>"
    by (simp add: iv_new_def check_len_def f(3) node_size_def g n ip_page_check [OF assms])
  show "v_len \<lparr>v_buf = ?b, v_layout = ip_layout p\<rparr> = Ok (length ?ks)" by (simp add: v_len_def v_size_def g n)
qed

lemma iv_find_child_page:
  assumes "ip_stored p"
  shows "iv_find_child_index \<lparr>v_buf = internal_page (ip_children p) (ip_keys p), v_layout = ip_layout p\<rparr> key = Ok (find_child_index p key)"
proof -
  let ?v = "\<lparr>v_buf = internal_page (ip_children p) (ip_keys p), v_layout = ip_layout p\<rparr>"
  have k: "bindR (iv_key ?v i) (\<lambda>k. Ok (k \<le> key)) = Ok (ip_keys p ! i \<le> key)" if "i < length (ip_keys p)" for i
    by (simp add: iv_key_def iv_new_page(2) [OF assms] ip_page_entry [OF assms that])
  have "sorted (ip_keys p)" using assms by (simp add: ip_stored_def ip_shape_def)
  then show ?thesis unfolding iv_find_child_index_def iv_new_page(2) [OF assms] bindR.simps find_child_index_def
    by (rule partition_point_sorted) (auto simp: k)
qed

lemma iv_child_page:
  assumes "ip_stored p"
  shows "iv_child \<lparr>v_buf = internal_page (ip_children p) (ip_keys p), v_layout = ip_layout p\<rparr> i = Ok (get_child p i)"
proof -
  let ?ks = "ip_keys p" and ?b = "internal_page (ip_children p) (ip_keys p)" and ?v = "\<lparr>v_buf = internal_page (ip_children p) (ip_keys p), v_layout = ip_layout p\<rparr>"
  from internal_page_facts [OF assms] obtain c cs rest where f: "ip_children p = c # cs" "length cs = length ?ks"
    "?b = node_hdr KIND_INTERNAL (length ?ks) (Some c) @ rest" by metis
  have valid: "valid_page_id c" "\<And>i. i < length cs \<Longrightarrow> valid_page_id (cs ! i)" using assms f(1) by (simp_all add: ip_stored_def list_all_iff)
  have g: "get_u64_le ?b 16 = Ok (encode_page_id (Some c))" unfolding f(3) by (rule node_hdr_get)
  have cnt: "child_count ?v = Ok (length (ip_children p))" unfolding child_count_def iv_new_page(2) [OF assms] by (simp add: f(1,2))
  have lc: "length (ip_children p) = Suc (length ?ks)" using f(1,2) by simp
  consider "i \<ge> length (ip_children p)" | "i = 0" | j where "i = Suc j" "j < length ?ks" using f(1,2) by (cases i) fastforce+
  then show ?thesis
  proof cases
    case 1
    then show ?thesis by (simp add: iv_child_def cnt get_child_def)
  next
    case 2
    then show ?thesis by (simp add: iv_child_def cnt get_child_def g f(1) [symmetric]) (simp add: f(1) decode_encode_child valid(1))
  next
    case 3
    have "iv_child ?v i = bindR (area_payload INTERNAL_AREA ?b (length ?ks) j) (\<lambda>payload.
        bindR (expectR (if length payload = 8 then Some (from_le_bytes payload) else None)) (\<lambda>raw. mapR Some (decode_child_page_id raw)))"
      using 3 lc by (simp add: iv_child_def cnt iv_new_page(2) [OF assms] bindR_assoc)
    then show ?thesis unfolding ip_page_entry [OF assms 3(2)] using 3 f(1,2) valid(2) [of j]
      by (simp add: child_payload_def decode_encode_child get_child_def)
  qed
qed

text \<open>C25. Decoding the bytes an internal page is encoded to gives the page back, and the view that reads those bytes in place finds the
  same child for every key as the decoded page.\<close>

theorem internal_codec:
  assumes "ip_stored p" "length buf = PAGE_SIZE"
  shows "\<exists>b v. ip_encode p buf = Ok b \<and> length b = PAGE_SIZE \<and> ip_decode b (ip_layout p) = Ok p \<and> iv_new b (ip_layout p) = Ok v \<and>
    (\<forall>key. child_for v key = Ok (get_child p (find_child_index p key)))"
proof -
  let ?b = "internal_page (ip_children p) (ip_keys p)"
  have "ip_encode p buf = Ok ?b" using assms by (intro ip_encode_page) (simp_all add: ip_stored_def)
  moreover have "length ?b = PAGE_SIZE" using internal_page_facts [OF assms(1)] by metis
  ultimately show ?thesis
    using ip_decode_page [OF assms(1)] iv_new_page(1) [OF assms(1)]
    by (intro exI [of _ ?b] exI [of _ "\<lparr>v_buf = ?b, v_layout = ip_layout p\<rparr>"])
      (simp add: child_for_def iv_find_child_page [OF assms(1)] iv_child_page [OF assms(1)])
qed

theorem internal_codec_witness:
  "\<exists>b v. ip_encode \<lparr>ip_layout = \<lparr>max_key_len = 8, tombstone_capacity = 16\<rparr>, ip_children = [PageId 1, PageId 2], ip_keys = [[7]]\<rparr> (replicate PAGE_SIZE 0) = Ok b \<and>
    iv_new b \<lparr>max_key_len = 8, tombstone_capacity = 16\<rparr> = Ok v \<and> child_for v [7] = Ok (Some (PageId 2)) \<and> child_for v [6] = Ok (Some (PageId 1))"
proof -
  let ?p = "\<lparr>ip_layout = \<lparr>max_key_len = 8, tombstone_capacity = 16\<rparr>, ip_children = [PageId 1, PageId 2], ip_keys = [[7]]\<rparr>"
  have "ip_stored ?p" by (simp add: ip_stored_def ip_shape_def ip_is_overfull_def ip_used_bytes_def ip_cost_def entry_costs capacities
      valid_page_id_def less_eq_PageId_def PageId_MAX_def)
  from internal_codec [OF this, of "replicate PAGE_SIZE 0"] obtain b v where
    r: "ip_encode ?p (replicate PAGE_SIZE 0) = Ok b" "iv_new b (ip_layout ?p) = Ok v" "\<And>key. child_for v key = Ok (get_child ?p (find_child_index ?p key))"
    by auto
  have "find_child_index ?p [7] = 1" "find_child_index ?p [6] = 0" by (simp_all add: find_child_index_def slice_partition_point_def)
  then show ?thesis using r by (intro exI [of _ b] exI [of _ v]) (simp add: get_child_def)
qed

end
