(* ===== verification/Leaf_Correct.thy ===== *)
theory Leaf_Correct
  imports Internal_Correct
begin

text \<open>
  Leaves keep a map of live keys: the invariant of leaf pages and what every operation does to the map.
\<close>


section \<open>Live entries\<close>

text \<open>The entries of a list whose index is not dead, counting from \<open>i\<close>.\<close>

fun alive :: "nat set \<Rightarrow> nat \<Rightarrow> 'a list \<Rightarrow> 'a list" where
  "alive D i [] = []"
| "alive D i (x # xs) = (if i \<in> D then alive D (Suc i) xs else x # alive D (Suc i) xs)"

lemma alive_append: "alive D i (xs @ ys) = alive D i xs @ alive D (i + length xs) ys"
  by (induction xs arbitrary: i) simp_all

lemma alive_cong: "(\<And>j. j < length xs \<Longrightarrow> i + j \<in> D \<longleftrightarrow> k + j \<in> E) \<Longrightarrow> alive D i xs = alive E k xs"
proof (induction xs arbitrary: i k)
  case (Cons x xs)
  have "i \<in> D \<longleftrightarrow> k \<in> E" using Cons.prems [of 0] by simp
  moreover have "alive D (Suc i) xs = alive E (Suc k) xs" using Cons.prems [of "Suc j" for j] by (intro Cons.IH) simp
  ultimately show ?case by simp
qed simp

lemma alive_subset: "set (alive D i xs) \<subseteq> set xs"
  by (induction xs arbitrary: i) auto

lemma alive_nth: "x \<in> set (alive D i xs) \<longleftrightarrow> (\<exists>j < length xs. x = xs ! j \<and> i + j \<notin> D)"
proof (induction xs arbitrary: i)
  case (Cons y ys)
  have "(\<exists>j < length (y # ys). x = (y # ys) ! j \<and> i + j \<notin> D) \<longleftrightarrow> x = y \<and> i \<notin> D \<or> (\<exists>j < length ys. x = ys ! j \<and> Suc i + j \<notin> D)"
    by (auto simp: less_Suc_eq_0_disj)
  then show ?case using Cons by auto
qed simp

lemma sorted_map_alive: "sorted_wrt P (map f xs) \<Longrightarrow> sorted_wrt P (map f (alive D i xs))"
  by (induction xs arbitrary: i) (use alive_subset in fastforce)+

section \<open>Leaves in order\<close>

definition dead_slots :: "LeafPage \<Rightarrow> nat set" where
  "dead_slots p = unat ` set (lp_tombstones p)"

definition live_list :: "LeafPage \<Rightarrow> (IndexKey \<times> RecordId) list" where
  "live_list p = alive (dead_slots p) 0 (lp_entries p)"

definition leaf_map :: "LeafPage \<Rightarrow> IndexKey \<rightharpoonup> RecordId" where
  "leaf_map p = map_of (live_list p)"

text \<open>The invariant of leaves: keys strictly in order and short enough, distinct tombstones on entries of the page, no more than the layout keeps,
  and record ids that name pages of the disk.\<close>

definition leaf_ok :: "LeafPage \<Rightarrow> bool" where
  "leaf_ok p \<longleftrightarrow> sorted_wrt (<) (lp_keys p) \<and> (\<forall>k \<in> set (lp_keys p). length k \<le> max_key_len (lp_layout p)) \<and>
     distinct (lp_tombstones p) \<and> length (lp_tombstones p) \<le> tombstone_capacity (lp_layout p) \<and>
     (\<forall>s \<in> set (lp_tombstones p). unat s < length (lp_entries p)) \<and> length (lp_entries p) < 2 ^ 32 \<and>
     (\<forall>e \<in> set (lp_entries p). valid_page_id (page_id (snd e)))"

lemma lp_check_iff: "lp_check p = Ok () \<longleftrightarrow> sorted (lp_keys p) \<and> length (lp_tombstones p) \<le> tombstone_capacity (lp_layout p) \<and>
    (\<forall>s \<in> set (lp_tombstones p). unat s < length (lp_entries p)) \<and> (\<forall>k \<in> set (lp_keys p). length k \<le> max_key_len (lp_layout p))"
proof -
  have "list_ex (\<lambda>s. length (lp_entries p) \<le> unat s) (lp_tombstones p) \<longleftrightarrow> \<not> (\<forall>s \<in> set (lp_tombstones p). unat s < length (lp_entries p))"
    by (meson list_ex_iff not_le)
  then show ?thesis by (auto simp: lp_check_def fold_check_key)
qed

lemma strict_sorted: "sorted_wrt (<) (xs :: 'a::linorder list) \<Longrightarrow> sorted xs"
  by (simp add: strict_sorted_imp_sorted)

lemma leaf_ok_check: "leaf_ok p \<Longrightarrow> lp_check p = Ok ()"
  by (simp add: leaf_ok_def lp_check_iff strict_sorted)

lemma leaf_ok_debug: "leaf_ok p \<Longrightarrow> lp_debug_check p = Ok ()"
  by (simp add: lp_debug_check_def leaf_ok_check assertR_def)

lemma leaf_slot_ok: "i < 2 ^ 32 \<Longrightarrow> leaf_slot i = Ok (word_of_nat i)"
  by (simp add: leaf_slot_def)

lemma unat_slot: "i < 2 ^ 32 \<Longrightarrow> unat (word_of_nat i :: u32) = i"
  by (simp add: unat_of_nat_eq)

lemma tombstoned_iff: "i < 2 ^ 32 \<Longrightarrow> lp_is_tombstoned p (word_of_nat i) \<longleftrightarrow> i \<in> dead_slots p"
proof -
  assume i: "i < 2 ^ 32"
  have "i \<in> unat ` set (lp_tombstones p) \<longleftrightarrow> word_of_nat i \<in> set (lp_tombstones p)"
  proof
    assume "word_of_nat i \<in> set (lp_tombstones p)"
    then have "unat (word_of_nat i :: u32) \<in> unat ` set (lp_tombstones p)" by (rule imageI)
    then show "i \<in> unat ` set (lp_tombstones p)" by (simp add: unat_slot [OF i])
  qed auto
  then show ?thesis by (simp add: lp_is_tombstoned_def list_ex_iff dead_slots_def)
qed

text \<open>Where a key is, or belongs.\<close>

lemma search_split:
  fixes key :: "'a::linorder"
  assumes "sorted_wrt (<) (map fst es)"
  obtains (found) xs r ys where "es = xs @ (key, r) # ys" "\<forall>e \<in> set xs. fst e < key" "\<forall>e \<in> set ys. key < fst e"
      "slice_partition_point (\<lambda>(k, _). k < key) es = length xs"
    | (absent) xs ys where "es = xs @ ys" "\<forall>e \<in> set xs. fst e < key" "\<forall>e \<in> set ys. key < fst e"
      "slice_partition_point (\<lambda>(k, _). k < key) es = length xs"
proof -
  let ?P = "\<lambda>(k, _). k < key"
  define xs ys where "xs = takeWhile ?P es" and "ys = dropWhile ?P es"
  have es: "es = xs @ ys" by (simp add: xs_def ys_def)
  have x: "\<forall>e \<in> set xs. fst e < key" by (auto simp: xs_def dest: set_takeWhileD)
  have pos: "slice_partition_point ?P es = length xs" by (simp add: slice_partition_point_def xs_def)
  have sy: "sorted_wrt (<) (map fst ys)" using assms unfolding es by (simp add: sorted_wrt_append)
  show thesis
  proof (cases ys)
    case Nil
    then show thesis using es x pos by (intro absent [of xs ys]) simp_all
  next
    case (Cons y ys')
    have ny: "\<not> fst y < key" using Cons hd_dropWhile [of ?P es] by (auto simp: ys_def split: prod.splits)
    have gt: "\<forall>e \<in> set ys'. fst y < fst e" using sy Cons by auto
    show thesis
    proof (cases "fst y = key")
      case True
      then show thesis using es x pos Cons gt by (intro found [of xs "snd y" ys']) auto
    next
      case False
      then have "key < fst y" using ny by (meson linorder_neqE)
      then show thesis using es x pos Cons gt by (intro absent [of xs ys]) (auto intro: less_trans)
    qed
  qed
qed

lemma lp_search_found: "lp_entries p = xs @ (key, r) # ys \<Longrightarrow> slice_partition_point (\<lambda>(k, _). k < key) (lp_entries p) = length xs \<Longrightarrow> lp_search p key = Ok (length xs)"
  by (simp add: lp_search_def Let_def)

lemma lp_search_absent:
  assumes "lp_entries p = xs @ ys" "\<forall>e \<in> set ys. key < fst e" "slice_partition_point (\<lambda>(k, _). k < key) (lp_entries p) = length xs"
  shows "lp_search p key = Err (length xs)"
  using assms by (cases ys) (auto simp: lp_search_def Let_def)


section \<open>Tombstones move with their entries\<close>

definition shift_up :: "nat \<Rightarrow> nat \<Rightarrow> nat" where
  "shift_up pos j = (if pos \<le> j then Suc j else j)"

definition shift_down :: "nat \<Rightarrow> nat \<Rightarrow> nat" where
  "shift_down pos j = (if pos < j then j - 1 else j)"

lemma alive_insert: "alive (shift_up (length xs) ` D) 0 (xs @ e # ys) = alive D 0 xs @ e # alive D (length xs) ys"
proof -
  have up: "j \<in> shift_up n ` D \<longleftrightarrow> (if j < n then j \<in> D else j \<noteq> n \<and> j - 1 \<in> D)" for j n
    by (auto simp: shift_up_def image_iff split: if_splits intro: bexI [of _ "j - 1"] bexI [of _ j])
  have "alive (shift_up (length xs) ` D) 0 xs = alive D 0 xs" by (rule alive_cong) (simp add: up)
  moreover have "alive (shift_up (length xs) ` D) (Suc (length xs)) ys = alive D (length xs) ys" by (rule alive_cong) (simp add: up)
  ultimately show ?thesis by (simp add: alive_append up)
qed

lemma alive_remove:
  "alive (shift_down (length xs) ` (D - {length xs})) 0 (xs @ ys) = alive D 0 xs @ alive D (Suc (length xs)) ys"
proof -
  have dn: "j \<in> shift_down n ` (D - {n}) \<longleftrightarrow> (if j < n then j \<in> D else Suc j \<in> D)" for j n
    by (auto simp: shift_down_def image_iff split: if_splits intro: bexI [of _ "Suc j"] bexI [of _ j])
  have "alive (shift_down (length xs) ` (D - {length xs})) 0 xs = alive D 0 xs" by (rule alive_cong) (simp add: dn)
  moreover have "alive (shift_down (length xs) ` (D - {length xs})) (length xs) ys = alive D (Suc (length xs)) ys"
    by (rule alive_cong) (simp add: dn)
  ultimately show ?thesis by (simp add: alive_append)
qed

lemma unat_shift_up:
  assumes "unat (s :: u32) < n" "n < 2 ^ 32" "pos \<le> n"
  shows "(if word_of_nat pos \<le> s then expectR (checked_add s 1) else Ok s) = Ok (if word_of_nat pos \<le> s then s + 1 else s)"
    "unat (if word_of_nat pos \<le> s then s + 1 else s) = shift_up pos (unat s)"
proof -
  have le: "word_of_nat pos \<le> s \<longleftrightarrow> pos \<le> unat s" using assms by (simp add: word_le_nat_alt unat_slot)
  have one: "unat s + 1 < 2 ^ 32" using assms by simp
  then show "(if word_of_nat pos \<le> s then expectR (checked_add s 1) else Ok s) = Ok (if word_of_nat pos \<le> s then s + 1 else s)"
    by (simp add: checked_add_def)
  have "unat (s + 1) = unat s + 1" using one by (subst unat_add_lem [THEN iffD1]) simp_all
  then show "unat (if word_of_nat pos \<le> s then s + 1 else s) = shift_up pos (unat s)" by (simp add: le shift_up_def)
qed

lemma unat_shift_down: "unat (if r < s then s - 1 else s :: u32) = shift_down (unat r) (unat s)"
proof -
  have "unat (s - 1) = unat s - 1" if "r < s"
  proof -
    have "1 \<le> s" using that by (simp add: word_le_nat_alt word_less_nat_alt)
    then show ?thesis by (simp add: unat_sub)
  qed
  then show ?thesis by (auto simp: shift_down_def word_less_nat_alt)
qed

definition tomb_up :: "nat \<Rightarrow> u32 \<Rightarrow> u32" where
  "tomb_up pos s = (if word_of_nat pos \<le> s then s + 1 else s)"

lemma adjust_insert_ok:
  assumes "\<forall>s \<in> set (lp_tombstones p). unat s < n" "n < 2 ^ 32" "pos \<le> n"
  shows "adjust_tombstones_after_insert p (word_of_nat pos) = Ok (p\<lparr>lp_tombstones := map (tomb_up pos) (lp_tombstones p)\<rparr>)"
    "map unat (map (tomb_up pos) (lp_tombstones p)) = map (shift_up pos) (map unat (lp_tombstones p))"
proof -
  have t: "traverseR (\<lambda>s. if word_of_nat pos \<le> s then expectR (checked_add s 1) else Ok s) (lp_tombstones p) = Ok (map (tomb_up pos) (lp_tombstones p))"
    using assms unat_shift_up(1) unfolding tomb_up_def by (intro traverseR_all_Ok) blast
  show "adjust_tombstones_after_insert p (word_of_nat pos) = Ok (p\<lparr>lp_tombstones := map (tomb_up pos) (lp_tombstones p)\<rparr>)"
    by (simp add: adjust_tombstones_after_insert_def t)
  show "map unat (map (tomb_up pos) (lp_tombstones p)) = map (shift_up pos) (map unat (lp_tombstones p))"
    using assms unat_shift_up(2) [OF _ assms(2,3)] by (simp add: tomb_up_def)
qed

lemma unat_inj: "unat (a :: 'a::len word) = unat b \<longleftrightarrow> a = b"
  by (metis unsigned_word_eqI)

lemma adjust_remove_unat:
  "map unat (lp_tombstones (adjust_tombstones_after_remove p r)) = map (shift_down (unat r)) (filter (\<lambda>j. j \<noteq> unat r) (map unat (lp_tombstones p)))"
  by (simp add: adjust_tombstones_after_remove_def unat_shift_down filter_map comp_def unat_inj)

text \<open>The invariant over natural slots.\<close>

definition slots_ok :: "nat \<Rightarrow> nat \<Rightarrow> nat list \<Rightarrow> bool" where
  "slots_ok capacity n js \<longleftrightarrow> distinct js \<and> length js \<le> capacity \<and> (\<forall>j \<in> set js. j < n)"

definition entries_ok :: "Layout \<Rightarrow> (IndexKey \<times> RecordId) list \<Rightarrow> bool" where
  "entries_ok L es \<longleftrightarrow> sorted_wrt (<) (map fst es) \<and> (\<forall>e \<in> set es. length (fst e) \<le> max_key_len L \<and> valid_page_id (page_id (snd e))) \<and> length es < 2 ^ 32"

lemma leaf_ok_iff: "leaf_ok p \<longleftrightarrow> entries_ok (lp_layout p) (lp_entries p) \<and>
    slots_ok (tombstone_capacity (lp_layout p)) (length (lp_entries p)) (map unat (lp_tombstones p))"
  by (auto simp: leaf_ok_def entries_ok_def slots_ok_def lp_keys_def distinct_map inj_on_def unat_inj)

lemma slots_ok_up: "slots_ok c n js \<Longrightarrow> slots_ok c (Suc n) (map (shift_up pos) js)"
  by (auto simp: slots_ok_def distinct_map inj_on_def shift_up_def)

lemma slots_ok_down:
  assumes "slots_ok c (Suc n) js" "r \<le> n"
  shows "slots_ok c n (map (shift_down r) (filter (\<lambda>j. j \<noteq> r) js))"
proof -
  have "inj_on (shift_down r) {j. j \<noteq> r}" by (auto simp: inj_on_def shift_down_def)
  then have "inj_on (shift_down r) (set (filter (\<lambda>j. j \<noteq> r) js))" by (rule inj_on_subset) auto
  moreover have "length (filter (\<lambda>j. j \<noteq> r) js) \<le> c" using assms(1) length_filter_le [of "\<lambda>j. j \<noteq> r" js] unfolding slots_ok_def by linarith
  ultimately show ?thesis using assms by (auto simp: slots_ok_def distinct_map shift_down_def less_Suc_eq)
qed

lemma entries_ok_parts: "entries_ok L (xs @ e # ys) \<Longrightarrow> entries_ok L (xs @ ys)"
  by (simp add: entries_ok_def sorted_wrt_append)

lemma entries_ok_insert:
  assumes "entries_ok L (xs @ ys)" "\<forall>e \<in> set xs. fst e < key" "\<forall>e \<in> set ys. key < fst e" "length key \<le> max_key_len L"
    "valid_page_id (page_id rid)" "length (xs @ ys) + 1 < 2 ^ 32"
  shows "entries_ok L (xs @ (key, rid) # ys)"
  using assms by (auto simp: entries_ok_def sorted_wrt_append)

lemma dead_slots_set: "dead_slots p = set (map unat (lp_tombstones p))"
  by (simp add: dead_slots_def)


section \<open>Lookups\<close>

lemma map_of_parts:
  assumes "\<forall>e \<in> set xs. fst e < (key :: 'a::linorder)" "\<forall>e \<in> set ys. key < fst e"
  shows "map_of (xs @ ys) key = None" "map_of (xs @ (key, r) # ys) = (map_of (xs @ ys))(key \<mapsto> r)"
proof -
  have x: "map_of xs key = None" "map_of ys key = None" using assms by (auto simp: map_of_eq_None_iff)
  then show "map_of (xs @ ys) key = None" by (simp add: map_add_def)
  show "map_of (xs @ (key, r) # ys) = (map_of (xs @ ys))(key \<mapsto> r)" using x by (auto simp: map_add_def fun_eq_iff split: option.splits)
qed

lemma map_of_removed:
  assumes "\<forall>e \<in> set xs. fst e < (key :: 'a::linorder)" "\<forall>e \<in> set ys. key < fst e"
  shows "(map_of (xs @ (key, r) # ys))(key := None) = map_of (xs @ ys)"
  using map_of_parts(1) [OF assms] unfolding map_of_parts(2) [OF assms] by (simp add: fun_upd_idem)

lemma alive_bounds:
  "\<forall>e \<in> set xs. P e \<Longrightarrow> \<forall>e \<in> set (alive D i xs). P e"
  using alive_subset by fastforce

lemma live_found:
  assumes "lp_entries p = xs @ (key, r) # ys" "\<forall>e \<in> set xs. fst e < key" "\<forall>e \<in> set ys. key < fst e"
  shows "leaf_map p key = (if length xs \<in> dead_slots p then None else Some r)"
  using map_of_parts [OF alive_bounds [OF assms(2)] alive_bounds [OF assms(3)]]
  by (simp add: leaf_map_def live_list_def assms(1) alive_append)

lemma live_absent:
  assumes "lp_entries p = xs @ ys" "\<forall>e \<in> set xs. fst e < key" "\<forall>e \<in> set ys. key < fst e"
  shows "leaf_map p key = None"
  using map_of_parts(1) [OF alive_bounds [OF assms(2)] alive_bounds [OF assms(3)]]
  by (simp add: leaf_map_def live_list_def assms(1) alive_append)

lemma leaf_cases:
  assumes "leaf_ok p"
  obtains (found) xs r ys where "lp_entries p = xs @ (key, r) # ys" "\<forall>e \<in> set xs. fst e < key" "\<forall>e \<in> set ys. key < fst e"
      "lp_search p key = Ok (length xs)" "leaf_slot (length xs) = (Ok (word_of_nat (length xs)) :: ('e, u32) result)"
      "lp_is_tombstoned p (word_of_nat (length xs)) \<longleftrightarrow> length xs \<in> dead_slots p" "length xs < 2 ^ 32"
    | (absent) xs ys where "lp_entries p = xs @ ys" "\<forall>e \<in> set xs. fst e < key" "\<forall>e \<in> set ys. key < fst e"
      "lp_search p key = Err (length xs)" "leaf_slot (length xs) = (Ok (word_of_nat (length xs)) :: ('e, u32) result)" "length xs < 2 ^ 32"
proof -
  have "sorted_wrt (<) (map fst (lp_entries p))" and n: "length (lp_entries p) < 2 ^ 32"
    using assms by (simp_all add: leaf_ok_def lp_keys_def)
  then show thesis
  proof (cases rule: search_split [where key = key])
    case (found xs r ys)
    then show thesis using n tombstoned_iff [of "length xs" p]
      by (intro that(1) [of xs r ys]) (simp_all add: lp_search_found leaf_slot_ok)
  next
    case (absent xs ys)
    then show thesis using n by (intro that(2) [of xs ys]) (simp_all add: lp_search_absent leaf_slot_ok)
  qed
qed

lemma lp_get_live:
  assumes "leaf_ok p"
  shows "lp_get p key = Ok (leaf_map p key)"
  using assms
proof (cases rule: leaf_cases [where key = key and 'e = 'a])
  case (found xs r ys)
  then show ?thesis using live_found [OF found(1-3)] by (simp add: lp_get_def index_get_def)
next
  case (absent xs ys)
  then show ?thesis using live_absent [OF absent(1-3)] by (simp add: lp_get_def)
qed

section \<open>Insertion\<close>

definition revived :: "LeafPage \<Rightarrow> (IndexKey \<times> RecordId) list \<Rightarrow> nat \<Rightarrow> LeafPage" where
  "revived p es i = p\<lparr>lp_entries := es, lp_tombstones := remove1 (word_of_nat i) (lp_tombstones p)\<rparr>"

definition added :: "LeafPage \<Rightarrow> (IndexKey \<times> RecordId) list \<Rightarrow> nat \<Rightarrow> LeafPage" where
  "added p es i = p\<lparr>lp_entries := es, lp_tombstones := map (tomb_up i) (lp_tombstones p)\<rparr>"

lemma remove1_unat: "map unat (remove1 s ts) = remove1 (unat s) (map unat (ts :: 'a::len word list))"
  by (induction ts) (auto simp: unat_inj)

lemma revived_ok:
  assumes ok: "leaf_ok p" and es: "lp_entries p = xs @ (key, r) # ys" and valid: "valid_page_id (page_id rid)"
  shows "leaf_ok (revived p (xs @ (key, rid) # ys) (length xs))"
    "live_list (revived p (xs @ (key, rid) # ys) (length xs)) = alive (dead_slots p) 0 xs @ (key, rid) # alive (dead_slots p) (Suc (length xs)) ys"
proof -
  let ?q = "revived p (xs @ (key, rid) # ys) (length xs)"
  have len: "length xs < 2 ^ 32" using ok es by (simp add: leaf_ok_def)
  have ts: "map unat (lp_tombstones ?q) = remove1 (length xs) (map unat (lp_tombstones p))"
    using remove1_unat [of "word_of_nat (length xs)" "lp_tombstones p"] unat_slot [OF len] by (simp add: revived_def)
  have slots: "slots_ok (tombstone_capacity (lp_layout p)) (length (lp_entries p)) (map unat (lp_tombstones p))" using ok by (simp add: leaf_ok_iff)
  then have "slots_ok (tombstone_capacity (lp_layout p)) (length (lp_entries p)) (map unat (lp_tombstones ?q))"
    unfolding ts by (auto simp: slots_ok_def length_remove1)
  moreover have "entries_ok (lp_layout p) (xs @ (key, rid) # ys)" using ok es valid by (auto simp: leaf_ok_iff entries_ok_def)
  ultimately show "leaf_ok ?q" by (simp add: leaf_ok_iff revived_def es)
  have d: "dead_slots ?q = dead_slots p - {length xs}" using slots ts by (simp add: dead_slots_set slots_ok_def)
  have "alive (dead_slots p - {length xs}) 0 xs = alive (dead_slots p) 0 xs"
    "alive (dead_slots p - {length xs}) (Suc (length xs)) ys = alive (dead_slots p) (Suc (length xs)) ys"
    by (rule alive_cong, simp)+
  then show "live_list ?q = alive (dead_slots p) 0 xs @ (key, rid) # alive (dead_slots p) (Suc (length xs)) ys"
    by (simp add: live_list_def d) (simp add: revived_def alive_append)
qed

lemma added_ok:
  assumes ok: "leaf_ok p" and es: "lp_entries p = xs @ ys" "\<forall>e \<in> set xs. fst e < key" "\<forall>e \<in> set ys. key < fst e"
    and key: "length key \<le> max_key_len (lp_layout p)" "valid_page_id (page_id rid)" and room: "length (lp_entries p) + 1 < 2 ^ 32"
  shows "leaf_ok (added p (xs @ (key, rid) # ys) (length xs))"
    "live_list (added p (xs @ (key, rid) # ys) (length xs)) = alive (dead_slots p) 0 xs @ (key, rid) # alive (dead_slots p) (length xs) ys"
    "adjust_tombstones_after_insert (p\<lparr>lp_entries := xs @ (key, rid) # ys\<rparr>) (word_of_nat (length xs)) = Ok (added p (xs @ (key, rid) # ys) (length xs))"
proof -
  let ?q = "added p (xs @ (key, rid) # ys) (length xs)" and ?p = "p\<lparr>lp_entries := xs @ (key, rid) # ys\<rparr>"
  have b: "\<forall>s \<in> set (lp_tombstones p). unat s < length (lp_entries p)" using ok by (simp add: leaf_ok_def)
  show "adjust_tombstones_after_insert ?p (word_of_nat (length xs)) = Ok ?q"
    using adjust_insert_ok(1) [of ?p "length (lp_entries p)" "length xs"] b room es(1) by (simp add: added_def)
  have ts: "map unat (lp_tombstones ?q) = map (shift_up (length xs)) (map unat (lp_tombstones p))"
    using adjust_insert_ok(2) [of ?p "length (lp_entries p)" "length xs"] b room es(1) by (simp add: added_def)
  have "slots_ok (tombstone_capacity (lp_layout p)) (Suc (length (lp_entries p))) (map unat (lp_tombstones ?q))"
    unfolding ts using ok by (intro slots_ok_up) (simp add: leaf_ok_iff)
  moreover have "entries_ok (lp_layout p) (xs @ (key, rid) # ys)"
    using ok es key room by (intro entries_ok_insert) (simp_all add: leaf_ok_iff)
  ultimately show "leaf_ok ?q" using es(1) by (simp add: leaf_ok_iff added_def)
  have "dead_slots ?q = shift_up (length xs) ` dead_slots p" unfolding dead_slots_set ts by (simp add: image_image)
  then show "live_list ?q = alive (dead_slots p) 0 xs @ (key, rid) # alive (dead_slots p) (length xs) ys"
    using alive_insert [of xs "dead_slots p" "(key, rid)" ys] by (simp add: live_list_def) (simp add: added_def)
qed

text \<open>Inserting gives the entry to a key that is not live, and refuses a live one.\<close>

lemma lp_insert_live:
  assumes ok: "leaf_ok p" and key: "length key \<le> max_key_len (lp_layout p)" "valid_page_id (page_id rid)" and room: "length (lp_entries p) + 1 < 2 ^ 32"
  shows "leaf_map p key \<noteq> None \<and> lp_insert p key rid = Err DuplicateKey \<or>
    leaf_map p key = None \<and> (\<exists>q. lp_insert p key rid = Ok q \<and> leaf_ok q \<and> leaf_map q = (leaf_map p)(key \<mapsto> rid))"
  using ok
proof (cases rule: leaf_cases [where key = key and 'e = InsertError])
  case (found xs r ys)
  note lv = live_found [OF found(1-3)]
  show ?thesis
  proof (cases "length xs \<in> dead_slots p")
    case False
    then show ?thesis using found lv by (simp add: lp_insert_def)
  next
    case True
    let ?q = "revived p (xs @ (key, rid) # ys) (length xs)"
    note q = revived_ok [OF ok found(1) key(2)]
    have "live_list p = alive (dead_slots p) 0 xs @ alive (dead_slots p) (Suc (length xs)) ys"
      using True by (simp add: live_list_def found(1) alive_append)
    then have "leaf_map ?q = (leaf_map p)(key \<mapsto> rid)"
      using map_of_parts(2) [OF alive_bounds [OF found(2)] alive_bounds [OF found(3)]] q(2) by (simp add: leaf_map_def)
    moreover have "lp_insert p key rid = Ok ?q"
      using found True
      by (simp add: lp_insert_def index_get_def remove_tombstone_def lp_is_tombstoned_def revived_def Let_def leaf_ok_debug [OF q(1), unfolded revived_def])
    ultimately show ?thesis using lv True q(1) by auto
  qed
next
  case (absent xs ys)
  let ?q = "added p (xs @ (key, rid) # ys) (length xs)"
  note q = added_ok [OF ok absent(1-3) key room]
  have "live_list p = alive (dead_slots p) 0 xs @ alive (dead_slots p) (length xs) ys" by (simp add: live_list_def absent(1) alive_append)
  then have "leaf_map ?q = (leaf_map p)(key \<mapsto> rid)"
    using map_of_parts(2) [OF alive_bounds [OF absent(2)] alive_bounds [OF absent(3)]] q(2) by (simp add: leaf_map_def)
  moreover have "lp_insert p key rid = Ok ?q"
    using absent q(1) by (simp add: lp_insert_def vec_insert_def leaf_ok_debug q(3))
  ultimately show ?thesis using live_absent [OF absent(1-3)] q(1) by auto
qed

section \<open>Removal\<close>

lemma physical_remove_ok:
  assumes ok: "leaf_ok p" and es: "lp_entries p = xs @ e # ys" and s: "unat s = length xs"
  shows "lp_physical_remove_at p s = Ok (adjust_tombstones_after_remove (p\<lparr>lp_entries := xs @ ys\<rparr>) s)"
    "leaf_ok (adjust_tombstones_after_remove (p\<lparr>lp_entries := xs @ ys\<rparr>) s)"
    "dead_slots (adjust_tombstones_after_remove (p\<lparr>lp_entries := xs @ ys\<rparr>) s) = shift_down (length xs) ` (dead_slots p - {length xs})"
    "live_list (adjust_tombstones_after_remove (p\<lparr>lp_entries := xs @ ys\<rparr>) s) =
      alive (dead_slots p) 0 xs @ alive (dead_slots p) (Suc (length xs)) ys"
proof -
  let ?q = "adjust_tombstones_after_remove (p\<lparr>lp_entries := xs @ ys\<rparr>) s"
  show "lp_physical_remove_at p s = Ok ?q" by (simp add: lp_physical_remove_at_def vec_remove_def es s)
  have ts: "map unat (lp_tombstones ?q) = map (shift_down (length xs)) (filter (\<lambda>j. j \<noteq> length xs) (map unat (lp_tombstones p)))"
    using adjust_remove_unat [of "p\<lparr>lp_entries := xs @ ys\<rparr>" s] by (simp add: s)
  have f: "lp_entries ?q = xs @ ys" "lp_layout ?q = lp_layout p" by (simp_all add: adjust_tombstones_after_remove_def)
  have "slots_ok (tombstone_capacity (lp_layout p)) (length (xs @ ys)) (map unat (lp_tombstones ?q))"
    unfolding ts using ok es by (intro slots_ok_down) (simp_all add: leaf_ok_iff)
  moreover have "entries_ok (lp_layout p) (xs @ ys)" by (rule entries_ok_parts [of _ xs e]) (use ok es in \<open>simp add: leaf_ok_iff\<close>)
  ultimately show "leaf_ok ?q" by (simp add: leaf_ok_iff f)
  show d: "dead_slots ?q = shift_down (length xs) ` (dead_slots p - {length xs})" unfolding dead_slots_set ts by auto
  show "live_list ?q = alive (dead_slots p) 0 xs @ alive (dead_slots p) (Suc (length xs)) ys"
    unfolding live_list_def d f by (rule alive_remove)
qed

lemma bury_ok:
  assumes ok: "leaf_ok p" and es: "lp_entries p = xs @ (key, r) # ys" and d: "length xs \<notin> dead_slots p"
    and room: "length (lp_tombstones p) < tombstone_capacity (lp_layout p)"
  shows "leaf_ok (p\<lparr>lp_tombstones := lp_tombstones p @ [word_of_nat (length xs)]\<rparr>)"
    "live_list (p\<lparr>lp_tombstones := lp_tombstones p @ [word_of_nat (length xs)]\<rparr>) = alive (dead_slots p) 0 xs @ alive (dead_slots p) (Suc (length xs)) ys"
proof -
  let ?q = "p\<lparr>lp_tombstones := lp_tombstones p @ [word_of_nat (length xs)]\<rparr>"
  have len: "length xs < 2 ^ 32" using ok es by (simp add: leaf_ok_def)
  have ts: "map unat (lp_tombstones ?q) = map unat (lp_tombstones p) @ [length xs]" by (simp add: unat_slot [OF len])
  have "slots_ok (tombstone_capacity (lp_layout p)) (length (lp_entries p)) (map unat (lp_tombstones ?q))"
    unfolding ts using ok es d room by (auto simp: leaf_ok_iff slots_ok_def dead_slots_def)
  then show "leaf_ok ?q" using ok by (simp add: leaf_ok_iff)
  have dq: "dead_slots ?q = insert (length xs) (dead_slots p)" unfolding dead_slots_set ts by auto
  have "alive (insert (length xs) (dead_slots p)) 0 xs = alive (dead_slots p) 0 xs"
    "alive (insert (length xs) (dead_slots p)) (Suc (length xs)) ys = alive (dead_slots p) (Suc (length xs)) ys"
    by (rule alive_cong, simp)+
  then show "live_list ?q = alive (dead_slots p) 0 xs @ alive (dead_slots p) (Suc (length xs)) ys"
    by (simp add: live_list_def dq) (simp add: es alive_append)
qed

text \<open>Dropping the oldest tombstone with its entry: the live entries stay, and a live entry keeps its place up to the one entry before it that
  may have gone.\<close>

lemma unat_eq_word: "unat w = n \<Longrightarrow> word_of_nat n = w"
  by auto

lemma purge_ok:
  assumes ok: "leaf_ok p" and es: "lp_entries p = xs @ (key, r) # ys" and d: "length xs \<notin> dead_slots p" and ts: "lp_tombstones p = o1 # ts"
  shows "\<exists>q xs' ys'. purge_oldest_tombstone p = (Ok (o1, q) :: ('e, u32 \<times> LeafPage) result) \<and> leaf_ok q \<and> live_list q = live_list p \<and> lp_layout q = lp_layout p \<and>
    lp_next_leaf_id q = lp_next_leaf_id p \<and> lp_entries q = xs' @ (key, r) # ys' \<and> length xs' \<notin> dead_slots q \<and> length (lp_tombstones q) < length (lp_tombstones p) \<and>
    word_of_nat (length xs') = (if o1 < word_of_nat (length xs) then word_of_nat (length xs) - 1 else word_of_nat (length xs) :: u32)"
proof -
  let ?o = "unat o1" and ?es = "lp_entries p" and ?p = "p\<lparr>lp_tombstones := ts\<rparr>"
  have o: "?o < length ?es" "?o \<in> dead_slots p" "?o \<noteq> length xs" using ok ts d by (auto simp: leaf_ok_def dead_slots_def)
  have p1: "leaf_ok ?p" using ok ts by (auto simp: leaf_ok_iff slots_ok_def)
  have dp: "dead_slots ?p = dead_slots p - {?o}" using ok ts by (auto simp: dead_slots_def leaf_ok_def unat_inj)
  define us e vs where "us = take ?o ?es" and "e = ?es ! ?o" and "vs = drop (Suc ?o) ?es"
  have split: "?es = us @ e # vs" "length us = ?o" using id_take_nth_drop [OF o(1)] o(1) by (simp_all add: us_def e_def vs_def)
  have s1: "lp_entries ?p = us @ e # vs" "?o = length us" using split by simp_all
  define q where "q = adjust_tombstones_after_remove (?p\<lparr>lp_entries := us @ vs\<rparr>) o1"
  note r = physical_remove_ok [OF p1 s1, folded q_def]
  have "purge_oldest_tombstone p = (Ok (o1, q) :: ('e, u32 \<times> LeafPage) result)" by (simp add: purge_oldest_tombstone_def ts r(1))
  moreover have "live_list q = live_list p"
  proof -
    have "live_list p = alive (dead_slots p) 0 us @ alive (dead_slots p) (Suc (length us)) vs"
      using o(2) split(2) by (simp add: live_list_def split(1) alive_append)
    moreover have "alive (dead_slots p - {?o}) 0 us = alive (dead_slots p) 0 us"
      "alive (dead_slots p - {?o}) (Suc (length us)) vs = alive (dead_slots p) (Suc (length us)) vs"
      by (rule alive_cong, simp add: split(2))+
    ultimately show ?thesis using r(4) by (simp add: dp)
  qed
  moreover have "lp_layout q = lp_layout p" "lp_next_leaf_id q = lp_next_leaf_id p" "length (lp_tombstones q) < length (lp_tombstones p)"
    by (simp_all add: q_def adjust_tombstones_after_remove_def ts le_imp_less_Suc)
  moreover define xs' where "xs' = (if ?o < length xs then take ?o xs @ drop (Suc ?o) xs else xs)"
  moreover define ys' where "ys' = (if ?o < length xs then ys else take (?o - Suc (length xs)) ys @ drop (Suc ?o - Suc (length xs)) ys)"
  moreover have "lp_entries q = xs' @ (key, r) # ys'"
    using o(3) by (simp add: q_def adjust_tombstones_after_remove_def xs'_def ys'_def us_def vs_def es take_Cons' drop_Cons')
  moreover have len: "length xs' = shift_down ?o (length xs)" using o(3) by (auto simp: xs'_def shift_down_def)
  moreover have "length xs' \<notin> dead_slots q"
  proof -
    have "x = y" if "shift_down ?o x = shift_down ?o y" "x \<noteq> ?o" "y \<noteq> ?o" for x y using that by (auto simp: shift_down_def split: if_splits)
    note inj = this
    show ?thesis
    proof
      assume "length xs' \<in> dead_slots q"
      then have "shift_down ?o (length xs) \<in> shift_down ?o ` (dead_slots p - {?o} - {?o})" by (simp only: r(3) len dp split(2))
      then obtain x where x: "shift_down ?o (length xs) = shift_down ?o x" "x \<in> dead_slots p - {?o} - {?o}" by (rule imageE)
      then have "length xs = x" using inj [OF x(1)] o(3) by simp
      then show False using d x(2) by simp
    qed
  qed
  moreover have "word_of_nat (length xs') = (if o1 < word_of_nat (length xs) then word_of_nat (length xs) - 1 else word_of_nat (length xs) :: u32)"
  proof -
    have "length xs < 2 ^ 32" using ok es by (simp add: leaf_ok_def)
    then have "unat (if o1 < word_of_nat (length xs) then word_of_nat (length xs) - 1 else word_of_nat (length xs) :: u32) = length xs'"
      unfolding unat_shift_down len by (simp add: unat_slot)
    then show ?thesis by (rule unat_eq_word)
  qed
  ultimately show ?thesis using r(2) by (intro exI [of _ q] exI [of _ xs'] exI [of _ ys'] conjI)
qed

text \<open>Removing takes the entry from a live key, and refuses one that is not.\<close>

lemma lp_remove_live:
  assumes ok: "leaf_ok p"
  shows "leaf_map p key = None \<and> lp_remove_key p key = Err KeyNotFound \<or>
    leaf_map p key \<noteq> None \<and> (\<exists>q. lp_remove_key p key = Ok q \<and> leaf_ok q \<and> leaf_map q = (leaf_map p)(key := None) \<and> lp_layout q = lp_layout p \<and> lp_next_leaf_id q = lp_next_leaf_id p)"
  using ok
proof (cases rule: leaf_cases [where key = key and 'e = RemoveError])
  case (absent xs ys)
  then show ?thesis using live_absent [OF absent(1-3)] by (simp add: lp_remove_key_def)
next
  case (found xs r ys)
  note lv = live_found [OF found(1-3)]
  let ?s = "word_of_nat (length xs) :: u32" and ?D = "dead_slots p"
  have gone: "map_of (alive ?D 0 xs @ alive ?D (Suc (length xs)) ys) = (leaf_map p)(key := None)" if "length xs \<notin> ?D"
    using that map_of_removed [OF alive_bounds [OF found(2)] alive_bounds [OF found(3)], of ?D 0 r ?D "Suc (length xs)"]
    by (simp add: leaf_map_def live_list_def found(1) alive_append)
  consider "length xs \<in> ?D" | "length xs \<notin> ?D" "tombstone_capacity (lp_layout p) = 0"
    | "length xs \<notin> ?D" "0 < tombstone_capacity (lp_layout p)" "\<not> tombstones_full p"
    | "length xs \<notin> ?D" "0 < tombstone_capacity (lp_layout p)" "tombstones_full p" by blast
  then show ?thesis
  proof cases
    case 1
    then show ?thesis using found lv by (simp add: lp_remove_key_def)
  next
    case 2
    have s: "unat ?s = length xs" using unat_slot [OF found(7)] .
    let ?q = "adjust_tombstones_after_remove (p\<lparr>lp_entries := xs @ ys\<rparr>) ?s"
    note q = physical_remove_ok [OF ok found(1) s]
    have "lp_remove_key p key = Ok ?q" using found 2 by (simp add: lp_remove_key_def q(1) leaf_ok_debug [OF q(2)])
    moreover have "leaf_map ?q = (leaf_map p)(key := None)" using gone [OF 2(1)] q(4) by (simp add: leaf_map_def)
    ultimately show ?thesis using lv 2 q(2) by (auto simp: adjust_tombstones_after_remove_def)
  next
    case 3
    let ?q = "p\<lparr>lp_tombstones := lp_tombstones p @ [?s]\<rparr>"
    have "length (lp_tombstones p) < tombstone_capacity (lp_layout p)" using 3(3) by (simp add: tombstones_full_def)
    note q = bury_ok [OF ok found(1) 3(1) this]
    have "lp_remove_key p key = Ok ?q" using found 3 by (simp add: lp_remove_key_def leaf_ok_debug [OF q(1)] Let_def)
    moreover have "leaf_map ?q = (leaf_map p)(key := None)" using gone [OF 3(1)] q(2) by (simp add: leaf_map_def)
    ultimately show ?thesis using lv 3 q(1) by auto
  next
    case 4
    then obtain o1 ts where ts: "lp_tombstones p = o1 # ts" by (cases "lp_tombstones p") (auto simp: tombstones_full_def)
    from purge_ok [OF ok found(1) 4(1) ts, where 'e = RemoveError] obtain q xs' ys' where
      q: "purge_oldest_tombstone p = (Ok (o1, q) :: (RemoveError, u32 \<times> LeafPage) result)" "leaf_ok q" "live_list q = live_list p"
        "lp_layout q = lp_layout p" "lp_next_leaf_id q = lp_next_leaf_id p" "lp_entries q = xs' @ (key, r) # ys'" "length xs' \<notin> dead_slots q"
        "length (lp_tombstones q) < length (lp_tombstones p)"
        "word_of_nat (length xs') = (if o1 < ?s then ?s - 1 else ?s)" by blast
    let ?q = "q\<lparr>lp_tombstones := lp_tombstones q @ [word_of_nat (length xs')]\<rparr>"
    have "length (lp_tombstones p) \<le> tombstone_capacity (lp_layout p)" using ok by (simp add: leaf_ok_def)
    then have "length (lp_tombstones q) < tombstone_capacity (lp_layout q)" using q(4,8) by simp
    note b = bury_ok [OF q(2,6,7) this]
    have "lp_remove_key p key = Ok ?q" using found 4 by (simp add: lp_remove_key_def q(1) leaf_ok_debug [OF b(1)] Let_def flip: q(9))
    moreover have "leaf_map ?q = (leaf_map p)(key := None)"
    proof -
      have "sorted_wrt (<) (map fst (xs' @ (key, r) # ys'))" using q(2,6) by (simp add: leaf_ok_iff entries_ok_def)
      then have "\<forall>e \<in> set xs'. fst e < key" "\<forall>e \<in> set ys'. key < fst e" by (auto simp: sorted_wrt_append)
      from map_of_removed [OF alive_bounds [OF this(1)] alive_bounds [OF this(2)], of "dead_slots q" 0 r "dead_slots q" "Suc (length xs')"]
      have "map_of (alive (dead_slots q) 0 xs' @ alive (dead_slots q) (Suc (length xs')) ys') = (map_of (live_list q))(key := None)"
        using q(7) by (simp add: live_list_def q(6) alive_append)
      then show ?thesis using b(2) q(3) by (simp add: leaf_map_def)
    qed
    ultimately show ?thesis using lv 4(1) b(1) q(4,5) by auto
  qed
qed

end
