(* ===== verification/Leaf_Codec.thy ===== *)
theory Leaf_Codec
  imports Leaf_Correct
begin

text \<open>
  The bytes of leaf pages: encoding, decoding, and the view that changes them in place.
\<close>


section \<open>The bytes of a leaf\<close>

definition rid_bytes :: "RecordId \<Rightarrow> bytes" where
  "rid_bytes rid = to_le_bytes (ucast (PageId_get (page_id rid)) :: u64) @ to_le_bytes (ucast (slot_id rid) :: u64)"

lemma rid_bytes_length [simp]: "length (rid_bytes rid) = 16"
  by (simp add: rid_bytes_def)

lemma encode_rid: "encode_record_id_bytes rid = Ok (rid_bytes rid)"
  by (simp add: encode_record_id_bytes_def encode_record_id_def U64_BYTES_def Let_def copy_from_slice_def patch_def rid_bytes_def)

lemma decode_rid: "valid_page_id (page_id rid) \<Longrightarrow> decode_record_id_bytes (rid_bytes rid) = Ok rid"
  by (simp add: decode_record_id_bytes_def decode_half_def U64_BYTES_def rid_bytes_def sub_def decode_encode_record_id encode_record_id_def)

definition slot_words :: "u32 list \<Rightarrow> bytes" where
  "slot_words slots = concat (map to_le_bytes slots)"

lemma slot_words_simps [simp]: "slot_words [] = []" "slot_words (s # ss) = to_le_bytes s @ slot_words ss" "slot_words (ss @ ts) = slot_words ss @ slot_words ts"
  by (simp_all add: slot_words_def)

lemma slot_words_length [simp]: "length (slot_words ss) = 4 * length ss"
  by (induction ss) simp_all

lemma slot_words_zero: "slot_words (replicate n 0) = zeros (4 * n)"
  by (induction n) (simp_all add: to_le_zero flip: replicate_add)

text \<open>The bytes before the entries: node header, tombstone count and the tombstone slots, of which the page has a fixed number.\<close>

definition leaf_head :: "nat \<Rightarrow> PageId option \<Rightarrow> nat \<Rightarrow> u32 list \<Rightarrow> bytes" where
  "leaf_head n link c slots = node_hdr KIND_LEAF n link @ to_le_bytes (word_of_nat c :: u32) @ slot_words slots"

lemma leaf_head_length [simp]: "length (leaf_head n link c slots) = 28 + 4 * length slots"
  by (simp add: leaf_head_def)

lemma leaf_head_split:
  "leaf_head n link c slots @ rest = node_hdr KIND_LEAF n link @ (to_le_bytes (word_of_nat c :: u32) @ slot_words slots @ rest)"
  "leaf_head n link c slots @ rest = node_hdr KIND_LEAF n link @ to_le_bytes (word_of_nat c :: u32) @ (slot_words slots @ rest)"
  by (simp_all add: leaf_head_def)

lemma leaf_head_slot:
  assumes "i < length slots"
  shows "leaf_head n link c slots @ rest = (node_hdr KIND_LEAF n link @ to_le_bytes (word_of_nat c :: u32) @ slot_words (take i slots)) @
      to_le_bytes (slots ! i) @ (slot_words (drop (Suc i) slots) @ rest)"
    "leaf_head n link c (slots[i := s]) @ rest = (node_hdr KIND_LEAF n link @ to_le_bytes (word_of_nat c :: u32) @ slot_words (take i slots)) @
      to_le_bytes s @ (slot_words (drop (Suc i) slots) @ rest)"
proof -
  have "slot_words slots = slot_words (take i slots) @ to_le_bytes (slots ! i) @ slot_words (drop (Suc i) slots)"
    by (subst id_take_nth_drop [OF assms]) simp
  then show "leaf_head n link c slots @ rest = (node_hdr KIND_LEAF n link @ to_le_bytes (word_of_nat c :: u32) @ slot_words (take i slots)) @
      to_le_bytes (slots ! i) @ (slot_words (drop (Suc i) slots) @ rest)" by (simp add: leaf_head_def)
  show "leaf_head n link c (slots[i := s]) @ rest = (node_hdr KIND_LEAF n link @ to_le_bytes (word_of_nat c :: u32) @ slot_words (take i slots)) @
      to_le_bytes s @ (slot_words (drop (Suc i) slots) @ rest)" using assms by (simp add: leaf_head_def upd_conv_take_nth_drop)
qed

lemma leaf_head_get:
  "get_u32_le (leaf_head n link c slots @ rest) 8 = Ok (word_of_nat n)"
  "get_u64_le (leaf_head n link c slots @ rest) 16 = Ok (encode_page_id link)"
  "get_u32_le (leaf_head n link c slots @ rest) 24 = Ok (word_of_nat c)"
  "i < length slots \<Longrightarrow> get_u32_le (leaf_head n link c slots @ rest) (28 + 4 * i) = Ok (slots ! i)"
proof -
  show "get_u32_le (leaf_head n link c slots @ rest) 8 = Ok (word_of_nat n)" "get_u64_le (leaf_head n link c slots @ rest) 16 = Ok (encode_page_id link)"
    unfolding leaf_head_split(1) by (rule node_hdr_get)+
  show "get_u32_le (leaf_head n link c slots @ rest) 24 = Ok (word_of_nat c)" by (rule get_u32_split [OF leaf_head_split(2)]) simp
  show "get_u32_le (leaf_head n link c slots @ rest) (28 + 4 * i) = Ok (slots ! i)" if "i < length slots"
    by (rule get_u32_split [OF leaf_head_slot(1) [OF that]]) (use that in simp)
qed

lemma leaf_head_put:
  "put_u32_le (leaf_head n link c slots @ rest) 8 (word_of_nat m) = Ok (leaf_head m link c slots @ rest)"
  "put_u32_le (leaf_head n link c slots @ rest) 24 (word_of_nat d) = Ok (leaf_head n link d slots @ rest)"
  "i < length slots \<Longrightarrow> put_u32_le (leaf_head n link c slots @ rest) (28 + 4 * i) s = Ok (leaf_head n link c (slots[i := s]) @ rest)"
proof -
  show "put_u32_le (leaf_head n link c slots @ rest) 8 (word_of_nat m) = Ok (leaf_head m link c slots @ rest)"
    unfolding leaf_head_split(1) by (rule node_hdr_put)
  show "put_u32_le (leaf_head n link c slots @ rest) 24 (word_of_nat d) = Ok (leaf_head n link d slots @ rest)"
    unfolding leaf_head_split(2) by (rule put_u32_split [OF refl]) simp_all
  show "put_u32_le (leaf_head n link c slots @ rest) (28 + 4 * i) s = Ok (leaf_head n link c (slots[i := s]) @ rest)" if "i < length slots"
    unfolding leaf_head_slot [OF that] by (rule put_u32_split [OF refl]) (use that in simp_all)
qed

definition pad_slots :: "nat \<Rightarrow> u32 list \<Rightarrow> u32 list" where
  "pad_slots capacity ts = ts @ replicate (capacity - length ts) 0"

lemma pad_slots_length [simp]: "length ts \<le> capacity \<Longrightarrow> length (pad_slots capacity ts) = capacity"
  by (simp add: pad_slots_def)

definition leaf_entry :: "IndexKey \<times> RecordId \<Rightarrow> bytes \<times> bytes" where
  "leaf_entry e = (fst e, rid_bytes (snd e))"

definition leaf_bytes :: "LeafPage \<Rightarrow> bytes" where
  "leaf_bytes p = area_page (leaf_area (lp_layout p))
     (leaf_head (length (lp_entries p)) (lp_next_leaf_id p) (length (lp_tombstones p)) (pad_slots (tombstone_capacity (lp_layout p)) (lp_tombstones p)))
     (map leaf_entry (lp_entries p))"

text \<open>A leaf as the tree keeps it.\<close>

definition leaf_stored :: "LeafPage \<Rightarrow> bool" where
  "leaf_stored p \<longleftrightarrow> leaf_ok p \<and> layout_ok (lp_layout p) \<and> \<not> lp_is_overfull p \<and> pred_option valid_page_id (lp_next_leaf_id p)"

lemma leaf_cost_sum: "lp_used_bytes p = 2 * length (lp_entries p) + data_len (map leaf_entry (lp_entries p))"
proof -
  have "sum_list (map (\<lambda>k. length k + 18) (map fst es)) = 2 * length es + data_len (map leaf_entry es)" for es :: "(IndexKey \<times> RecordId) list"
    by (induction es) (simp_all add: leaf_entry_def)
  then show ?thesis by (simp add: lp_used_bytes_def lp_cost_def [abs_def] entry_costs lp_keys_def)
qed

lemma leaf_fits: "leaf_stored p \<Longrightarrow> area_fits (leaf_area (lp_layout p)) (map leaf_entry (lp_entries p))"
  by (auto simp: leaf_stored_def area_fits_def lp_is_overfull_def leaf_cost_sum leaf_entry_def layout_ok_def)

lemma leaf_counts: "leaf_stored p \<Longrightarrow> length (lp_tombstones p) \<le> tombstone_capacity (lp_layout p)"
  "leaf_stored p \<Longrightarrow> tombstone_capacity (lp_layout p) < 2 ^ 32" "leaf_stored p \<Longrightarrow> length (lp_entries p) + 1 < 2 ^ 32"
  by (auto simp: leaf_stored_def leaf_ok_def layout_ok_def PAGE_SIZE_def lp_is_overfull_def leaf_cost_sum capacities)


section \<open>Encoding and decoding a leaf\<close>

lemma put_tombstones_ok:
  assumes "i + length ts \<le> length slots"
  shows "put_tombstones L i (leaf_head n link c slots @ rest) ts = Ok (leaf_head n link c (take i slots @ ts @ drop (i + length ts) slots) @ rest)"
  using assms
proof (induction ts arbitrary: i slots)
  case (Cons t ts)
  have i: "i < length slots" using Cons.prems by simp
  have s: "take (i + 1) (slots[i := t]) @ ts @ drop (i + 1 + length ts) (slots[i := t]) = take i slots @ (t # ts) @ drop (i + length (t # ts)) slots"
    using i by (simp add: take_Suc_conv_app_nth)
  show ?case using Cons.IH [of "i + 1" "slots[i := t]"] Cons.prems unfolding s by (simp add: leaf_head_put(3) [OF i] del: append_Cons)
qed simp

lemma lp_put_entries_eq: "lp_put_entries A i at buf es = put_entries A i at buf (map leaf_entry es)"
proof (induction es arbitrary: i at buf)
  case (Cons e es)
  obtain k r where e: "e = (k, r)" by force
  show ?case by (simp add: e encode_rid leaf_entry_def) (simp add: Cons.IH flip: leaf_entry_def)
qed simp

lemma lp_encode_page:
  assumes st: "leaf_stored p" and len: "length buf = PAGE_SIZE"
  shows "lp_encode p buf = Ok (leaf_bytes p)"
proof -
  let ?A = "leaf_area (lp_layout p)" and ?n = "length (lp_entries p)" and ?ts = "lp_tombstones p" and ?cap = "tombstone_capacity (lp_layout p)"
  let ?es = "map leaf_entry (lp_entries p)" and ?link = "lp_next_leaf_id p"
  note fits = leaf_fits [OF st] and cnt = leaf_counts [OF st]
  have used: "lp_used_bytes p = 2 * ?n + data_len ?es" "2 * ?n + data_len ?es \<le> area_capacity ?A" "28 + 4 * ?cap < PAGE_SIZE"
    using st by (simp_all add: leaf_cost_sum leaf_stored_def lp_is_overfull_def layout_ok_def)
  have cap: "area_capacity ?A = PAGE_SIZE - (28 + 4 * ?cap)" by (rule capacities)
  have z: "zeros (PAGE_SIZE - 24) = to_le_bytes (word_of_nat 0 :: u32) @ slot_words (replicate ?cap 0) @ zeros (area_capacity ?A)"
  proof -
    have "PAGE_SIZE - 24 = 4 + (4 * ?cap + area_capacity ?A)" using used(3) cap by linarith
    moreover have "to_le_bytes (word_of_nat 0 :: u32) = zeros 4" by (simp add: to_le_zero)
    ultimately show ?thesis by (simp only: slot_words_zero replicate_add)
  qed
  have h: "node_hdr KIND_LEAF ?n ?link @ zeros (PAGE_SIZE - 24) = leaf_head ?n ?link 0 (replicate ?cap 0) @ zeros (area_capacity ?A)"
    by (simp add: leaf_head_def z)
  have chk: "lp_check p = Ok ()" "try_u32 ?n = Ok (word_of_nat ?n)" "try_u32 (length ?ts) = Ok (word_of_nat (length ?ts))"
    "ensure_fits_page (PAGE_SIZE - area_capacity ?A + lp_used_bytes p) = Ok ()"
    using st cnt used cap by (simp_all add: leaf_stored_def leaf_ok_check try_u32_def ensure_fits_page_def)
  have sub: "sub_usize (lp_used_bytes p) (?n * SLOT_ENCODED_BYTES) = Ok (data_len ?es)" "sub_usize PAGE_SIZE (data_len ?es) = Ok (PAGE_SIZE - data_len ?es)"
    using used cap by (simp_all add: sub_usize_def SLOT_ENCODED_BYTES_def)
  have t: "put_tombstones (lp_layout p) 0 (leaf_head ?n ?link c (replicate ?cap 0) @ rest) ?ts = Ok (leaf_head ?n ?link c (pad_slots ?cap ?ts) @ rest)" for c rest
    using put_tombstones_ok [of 0 ?ts "replicate ?cap 0"] cnt(1) by (simp add: pad_slots_def)
  have pe: "put_entries ?A 0 (PAGE_SIZE - data_len ?es) (leaf_head ?n ?link (length ?ts) (pad_slots ?cap ?ts) @ zeros (area_capacity ?A)) ?es = Ok (PAGE_SIZE, leaf_bytes p)"
    unfolding leaf_bytes_def by (rule put_entries_page [OF fits]) (simp add: cnt)
  show ?thesis
    unfolding lp_encode_def chk bindR.simps Let_def layout_values len
    by (simp add: chk node_hdr_init h leaf_head_put(2) t sub lp_put_entries_eq pe)
qed

lemma read_tombstones_ok:
  assumes "i + m \<le> length slots" "length (leaf_head n link c slots @ rest) < 2 ^ 64"
  shows "read_tombstones m \<lparr>r_buf = leaf_head n link c slots @ rest, r_pos = 28 + 4 * i\<rparr> =
    Ok (take m (drop i slots), \<lparr>r_buf = leaf_head n link c slots @ rest, r_pos = 28 + 4 * (i + m)\<rparr>)"
  using assms
proof (induction m arbitrary: i)
  case (Suc m)
  have i: "i < length slots" using Suc.prems by simp
  let ?b = "leaf_head n link c slots @ rest"
  have "read_u32_le \<lparr>r_buf = ?b, r_pos = 28 + 4 * i\<rparr> = Ok (slots ! i, \<lparr>r_buf = ?b, r_pos = 28 + 4 * (i + 1)\<rparr>)"
    using read_u32_split [OF _ _ , of "\<lparr>r_buf = ?b, r_pos = 28 + 4 * i\<rparr>", simplified, OF leaf_head_slot(1) [OF i]] i Suc.prems(2) by simp
  moreover have "take (Suc m) (drop i slots) = slots ! i # take m (drop (Suc i) slots)" using i by (simp flip: Cons_nth_drop_Suc)
  ultimately show ?case using Suc.IH [of "i + 1"] Suc.prems by simp
qed simp

text \<open>What the bytes of a stored leaf read as.\<close>

definition leaf_rest :: "LeafPage \<Rightarrow> bytes" where
  "leaf_rest p = drop (28 + 4 * tombstone_capacity (lp_layout p)) (leaf_bytes p)"

lemma leaf_bytes_head:
  assumes "leaf_stored p"
  shows "leaf_bytes p = leaf_head (length (lp_entries p)) (lp_next_leaf_id p) (length (lp_tombstones p))
      (pad_slots (tombstone_capacity (lp_layout p)) (lp_tombstones p)) @ leaf_rest p"
    "length (leaf_bytes p) = PAGE_SIZE"
    "length (pad_slots (tombstone_capacity (lp_layout p)) (lp_tombstones p)) = tombstone_capacity (lp_layout p)"
proof -
  show l: "length (pad_slots (tombstone_capacity (lp_layout p)) (lp_tombstones p)) = tombstone_capacity (lp_layout p)"
    using leaf_counts(1) [OF assms] by simp
  then show "leaf_bytes p = leaf_head (length (lp_entries p)) (lp_next_leaf_id p) (length (lp_tombstones p))
      (pad_slots (tombstone_capacity (lp_layout p)) (lp_tombstones p)) @ leaf_rest p"
    by (simp add: leaf_bytes_def leaf_rest_def area_page_def)
  show "length (leaf_bytes p) = PAGE_SIZE" unfolding leaf_bytes_def by (rule area_page_length [OF leaf_fits [OF assms]]) (simp add: l)
qed

lemma leaf_page_entry:
  assumes "leaf_stored p"
  shows "area_check (leaf_area (lp_layout p)) (leaf_bytes p) (length (lp_entries p)) = Ok ()"
    "area_free (leaf_area (lp_layout p)) (leaf_bytes p) (length (lp_entries p)) = Ok (area_capacity (leaf_area (lp_layout p)) - lp_used_bytes p)"
    "area_used (leaf_area (lp_layout p)) (leaf_bytes p) (length (lp_entries p)) = Ok (lp_used_bytes p)"
    "i < length (lp_entries p) \<Longrightarrow> area_key (leaf_area (lp_layout p)) (leaf_bytes p) (length (lp_entries p)) i = Ok (fst (lp_entries p ! i))"
    "i < length (lp_entries p) \<Longrightarrow> area_payload (leaf_area (lp_layout p)) (leaf_bytes p) (length (lp_entries p)) i = Ok (rid_bytes (snd (lp_entries p ! i)))"
proof -
  let ?h = "leaf_head (length (lp_entries p)) (lp_next_leaf_id p) (length (lp_tombstones p)) (pad_slots (tombstone_capacity (lp_layout p)) (lp_tombstones p))"
  have h: "length ?h = slots_start (leaf_area (lp_layout p))" using leaf_bytes_head(3) [OF assms] by simp
  note fits = leaf_fits [OF assms]
  have n: "length (lp_entries p) = length (map leaf_entry (lp_entries p))" by simp
  show "area_check (leaf_area (lp_layout p)) (leaf_bytes p) (length (lp_entries p)) = Ok ()"
    unfolding leaf_bytes_def n by (rule area_check_page [OF fits]) (use h in simp)
  show "area_free (leaf_area (lp_layout p)) (leaf_bytes p) (length (lp_entries p)) = Ok (area_capacity (leaf_area (lp_layout p)) - lp_used_bytes p)"
    using area_free_page [OF fits h] by (simp add: leaf_bytes_def leaf_cost_sum)
  show "area_used (leaf_area (lp_layout p)) (leaf_bytes p) (length (lp_entries p)) = Ok (lp_used_bytes p)"
    using area_used_page [OF fits h] by (simp add: leaf_bytes_def leaf_cost_sum)
  show "area_key (leaf_area (lp_layout p)) (leaf_bytes p) (length (lp_entries p)) i = Ok (fst (lp_entries p ! i))"
    "area_payload (leaf_area (lp_layout p)) (leaf_bytes p) (length (lp_entries p)) i = Ok (rid_bytes (snd (lp_entries p ! i)))" if "i < length (lp_entries p)"
    using area_entry_page [OF fits h, of i] that by (simp_all add: leaf_bytes_def leaf_entry_def)
qed

lemma lp_decode_page:
  assumes "leaf_stored p"
  shows "lp_decode (leaf_bytes p) (lp_layout p) = Ok p"
proof -
  let ?b = "leaf_bytes p" and ?n = "length (lp_entries p)" and ?ts = "lp_tombstones p" and ?cap = "tombstone_capacity (lp_layout p)"
  note b = leaf_bytes_head [OF assms] and cnt = leaf_counts [OF assms] and e = leaf_page_entry [OF assms]
  have un: "unat (word_of_nat ?n :: u32) = ?n" "unat (word_of_nat (length ?ts) :: u32) = length ?ts" using cnt by (simp_all add: unat_slot)
  have hd: "?b = node_hdr KIND_LEAF ?n (lp_next_leaf_id p) @ (to_le_bytes (word_of_nat (length ?ts) :: u32) @ slot_words (pad_slots ?cap ?ts) @ leaf_rest p)"
    using b(1) by (simp add: leaf_head_def)
  have lt: "length ?b < 2 ^ 64" by (simp add: b(2) PAGE_SIZE_def)
  have c: "read_u32_le \<lparr>r_buf = ?b, r_pos = 24\<rparr> = Ok (word_of_nat (length ?ts), \<lparr>r_buf = ?b, r_pos = 28\<rparr>)"
    using read_u32_split [of "\<lparr>r_buf = ?b, r_pos = 24\<rparr>" "node_hdr KIND_LEAF ?n (lp_next_leaf_id p)" "word_of_nat (length ?ts)"] hd lt by simp
  have t: "read_tombstones (length ?ts) \<lparr>r_buf = ?b, r_pos = 28\<rparr> = Ok (?ts, \<lparr>r_buf = ?b, r_pos = 28 + 4 * length ?ts\<rparr>)"
    using read_tombstones_ok [of 0 "length ?ts" "pad_slots ?cap ?ts" ?n "lp_next_leaf_id p" "length ?ts" "leaf_rest p"] lt cnt(1) b(3)
    by (simp add: b(1) [symmetric]) (simp add: pad_slots_def)
  have d: "lp_decode_entry (leaf_area (lp_layout p)) ?b ?n i = Ok (lp_entries p ! i)" if "i < ?n" for i
  proof -
    have "lp_entries p ! i \<in> set (lp_entries p)" using that by simp
    then have "valid_page_id (page_id (snd (lp_entries p ! i)))" using assms by (simp add: leaf_stored_def leaf_ok_def)
    then show ?thesis by (simp add: lp_decode_entry_def e(4,5) [OF that] decode_rid)
  qed
  have tr: "traverseR (lp_decode_entry (leaf_area (lp_layout p)) ?b ?n) [0..<?n] = Ok (lp_entries p)"
    using d by (rule traverse_upt)
  have link: "decode_page_id (encode_page_id (lp_next_leaf_id p)) = Ok (lp_next_leaf_id p)"
    using assms by (intro decode_encode_page_id) (simp add: leaf_stored_def)
  have chk: "lp_check p = Ok ()" using assms by (simp add: leaf_stored_def leaf_ok_check)
  have eta: "\<lparr>lp_layout = lp_layout p, lp_entries = lp_entries p, lp_next_leaf_id = lp_next_leaf_id p, lp_tombstones = ?ts\<rparr> = p" by simp
  show ?thesis unfolding lp_decode_def node_hdr_read [OF hd b(2)] using cnt(1)
    by (simp add: link un e(1) c t tr Let_def eta chk)
qed

end
