(* ===== verification/Leaf_View.thy ===== *)
theory Leaf_View
  imports Leaf_Codec
begin

text \<open>
  The view of a leaf page reads and changes its bytes exactly as the leaf page it decodes to would have it.
\<close>


section \<open>Views on the bytes of a leaf\<close>

text \<open>The view of a leaf with the given size, link, tombstones and entries, and the view of a leaf page.\<close>

definition leaf_view :: "Layout \<Rightarrow> nat \<Rightarrow> PageId option \<Rightarrow> nat \<Rightarrow> u32 list \<Rightarrow> (bytes \<times> bytes) list \<Rightarrow> PageView" where
  "leaf_view L n link c slots es = \<lparr>v_buf = area_page (leaf_area L) (leaf_head n link c slots) es, v_layout = L\<rparr>"

definition lview :: "LeafPage \<Rightarrow> PageView" where
  "lview p = \<lparr>v_buf = leaf_bytes p, v_layout = lp_layout p\<rparr>"

lemma lview_eq: "lview p = leaf_view (lp_layout p) (length (lp_entries p)) (lp_next_leaf_id p) (length (lp_tombstones p))
    (pad_slots (tombstone_capacity (lp_layout p)) (lp_tombstones p)) (map leaf_entry (lp_entries p))"
  by (simp add: lview_def leaf_view_def leaf_bytes_def)

lemma area_page_split: "area_page A h es = h @ area_page A [] es"
  by (simp add: area_page_def)

lemma leaf_view_simps [simp]:
  "v_layout (leaf_view L n link c slots es) = L"
  "v_buf (leaf_view L n link c slots es) = area_page (leaf_area L) (leaf_head n link c slots) es"
  "leaf_view L n link c slots es\<lparr>v_buf := area_page (leaf_area L) (leaf_head m link d slots') es'\<rparr> = leaf_view L m link d slots' es'"
  by (simp_all add: leaf_view_def)

lemma leaf_view_fields:
  "n < 2 ^ 32 \<Longrightarrow> v_len (leaf_view L n link c slots es) = Ok n"
  "c < 2 ^ 32 \<Longrightarrow> lv_tombstone_count (leaf_view L n link c slots es) = Ok c"
  "i < length slots \<Longrightarrow> length slots = tombstone_capacity L \<Longrightarrow> lv_tombstone (leaf_view L n link c slots es) i = Ok (slots ! i)"
  "set_size (leaf_view L n link c slots es) m = Ok (leaf_view L m link c slots es)"
  "set_tombstone_count (leaf_view L n link c slots es) d = Ok (leaf_view L n link d slots es)"
  "i < length slots \<Longrightarrow> set_tombstone (leaf_view L n link c slots es) i s = Ok (leaf_view L n link c (slots[i := s]) es)"
proof -
  let ?v = "leaf_view L n link c slots es" and ?r = "area_page (leaf_area L) [] es"
  have b: "v_buf ?v = leaf_head n link c slots @ ?r" by (simp add: area_page_split [of _ "leaf_head n link c slots"])
  have u: "?v\<lparr>v_buf := leaf_head m link d slots' @ ?r\<rparr> = leaf_view L m link d slots' es" for m d slots'
    by (simp add: area_page_split [of _ "leaf_head m link d slots'"] flip: leaf_view_simps(3))
  show "n < 2 ^ 32 \<Longrightarrow> v_len ?v = Ok n" "c < 2 ^ 32 \<Longrightarrow> lv_tombstone_count ?v = Ok c"
    unfolding v_len_def v_size_def lv_tombstone_count_def b by (simp_all add: leaf_head_get unat_slot)
  show "lv_tombstone ?v i = Ok (slots ! i)" if "i < length slots" "length slots = tombstone_capacity L"
    unfolding lv_tombstone_def b layout_values using that by (simp only: leaf_head_get(4) [OF that(1)]) simp
  show "set_size ?v m = Ok (leaf_view L m link c slots es)" "set_tombstone_count ?v d = Ok (leaf_view L n link d slots es)"
    unfolding set_size_def set_tombstone_count_def with_buf_def b by (simp_all add: leaf_head_put u)
  show "set_tombstone ?v i s = Ok (leaf_view L n link c (slots[i := s]) es)" if "i < length slots"
    unfolding set_tombstone_def with_buf_def b layout_values by (simp only: leaf_head_put(3) [OF that]) (simp add: u)
qed

section \<open>Rewriting tombstones in place\<close>

text \<open>What a closure keeps of a list of slots.\<close>

fun kept_slots :: "('s \<Rightarrow> u32 \<Rightarrow> ('e, 's \<times> u32 option) result) \<Rightarrow> 's \<Rightarrow> u32 list \<Rightarrow> ('e, u32 list) result" where
  "kept_slots f s [] = Ok []"
| "kept_slots f s (t # ts) = bindR (f s t) (\<lambda>(s', out). bindR (kept_slots f s' ts) (\<lambda>r. Ok (case out of None \<Rightarrow> r | Some x \<Rightarrow> x # r)))"

lemma kept_slots_length: "kept_slots f s ts = Ok kept \<Longrightarrow> length kept \<le> length ts"
proof (induction ts arbitrary: s kept)
  case (Cons t ts)
  then show ?case by (fastforce elim!: bindR_OkE split: option.splits)
qed simp

lemma rewrite_loop:
  assumes "kept_slots f s ts = Ok kept" "drop i slots = ts @ z" "k \<le> i" "length slots = tombstone_capacity L"
  shows "\<exists>s'. foldR (rewrite_one f) [i..<i + length ts] (s, k, leaf_view L n link c slots es) =
    Ok (s', k + length kept, leaf_view L n link c (take k slots @ kept @ drop (k + length kept) slots) es)"
  using assms
proof (induction ts arbitrary: s kept i slots k)
  case (Cons t ts)
  from Cons.prems(1) obtain s' out r where f: "f s t = Ok (s', out)" "kept_slots f s' ts = Ok r" "kept = (case out of None \<Rightarrow> r | Some x \<Rightarrow> x # r)"
    by (auto elim!: bindR_OkE)
  have i: "i < length slots" "slots ! i = t" using Cons.prems(2) by (auto simp: nth_via_drop intro: leI ccontr)
  have u: "[i..<i + length (t # ts)] = i # [Suc i..<Suc i + length ts]" by (simp add: upt_conv_Cons del: upt_Suc)
  have d: "drop (Suc i) slots = ts @ z" using Cons.prems(2) by (metis append_Cons drop_Suc list.sel(3) tl_drop)
  have k: "k < length slots" using i Cons.prems(3) by simp
  have st: "rewrite_one f i (s, k, leaf_view L n link c slots es) =
      (case out of None \<Rightarrow> Ok (s', k, leaf_view L n link c slots es) | Some x \<Rightarrow> Ok (s', Suc k, leaf_view L n link c (slots[k := x]) es))"
    using i k f(1) Cons.prems(4) by (simp add: rewrite_one_def leaf_view_fields split: option.split)
  show ?case
  proof (cases out)
    case None
    then show ?thesis using Cons.IH [OF f(2) d, of k] Cons.prems(3,4) f(3) unfolding u foldR.simps st by simp
  next
    case (Some x)
    have "drop (Suc i) (slots[k := x]) = ts @ z" using d Cons.prems(3) by simp
    from Cons.IH [OF f(2) this, of "Suc k"] Cons.prems(3,4) obtain s'' where
      "foldR (rewrite_one f) [Suc i..<Suc i + length ts] (s', Suc k, leaf_view L n link c (slots[k := x]) es) =
        Ok (s'', Suc k + length r, leaf_view L n link c (take (Suc k) (slots[k := x]) @ r @ drop (Suc k + length r) (slots[k := x])) es)" by auto
    moreover have "take (Suc k) (slots[k := x]) = take k slots @ [x]" using k by (simp add: take_Suc_conv_app_nth)
    ultimately show ?thesis using f(3) Some unfolding u foldR.simps st by simp
  qed
qed simp

lemma clear_loop:
  assumes "k \<le> c" "c \<le> length slots" "take k slots @ replicate (c - k) 0 @ drop c slots = slots'"
  shows "foldR (\<lambda>i v. set_tombstone v i 0) [k..<c] (leaf_view L n link d slots es) = Ok (leaf_view L n link d slots' es)"
  using assms(1,2) unfolding assms(3) [symmetric]
proof (induction "c - k" arbitrary: k slots)
  case (Suc m)
  then have k: "k < length slots" "[k..<c] = k # [Suc k..<c]" "c - k = Suc (c - Suc k)" by (simp_all add: upt_conv_Cons)
  have "take (Suc k) (slots[k := 0]) = take k slots @ [0]" using k by (simp add: take_Suc_conv_app_nth)
  then show ?case using Suc.hyps(1) [of "Suc k" "slots[k := 0]"] Suc.hyps(2) Suc.prems k by (simp add: leaf_view_fields del: upt_Suc)
qed simp

lemma rewrite_tombstones_page:
  assumes kept: "kept_slots f s ts = Ok kept" and c: "length ts \<le> tombstone_capacity L" "tombstone_capacity L < 2 ^ 32"
  shows "rewrite_tombstones (leaf_view L n link (length ts) (pad_slots (tombstone_capacity L) ts) es) f s =
    Ok (leaf_view L n link (length kept) (pad_slots (tombstone_capacity L) kept) es)"
proof -
  let ?cap = "tombstone_capacity L" and ?slots = "pad_slots (tombstone_capacity L) ts"
  have len: "length kept \<le> length ts" by (rule kept_slots_length [OF kept])
  have "drop 0 ?slots = ts @ replicate (?cap - length ts) 0" by (simp add: pad_slots_def)
  from rewrite_loop [OF kept this, of 0 L n link "length ts" es] c obtain s' where
    l: "foldR (rewrite_one f) [0..<length ts] (s, 0, leaf_view L n link (length ts) ?slots es) =
      Ok (s', length kept, leaf_view L n link (length ts) (kept @ drop (length kept) ?slots) es)" by auto
  let ?m = "kept @ drop (length kept) ?slots"
  have z: "take (length kept) ?m @ replicate (length ts - length kept) 0 @ drop (length ts) ?m = pad_slots ?cap kept"
    using len c by (simp add: pad_slots_def flip: replicate_add)
  have m: "length ts \<le> length ?m" using len c by simp
  show ?thesis using c by (simp add: rewrite_tombstones_def leaf_view_fields l clear_loop [OF len m z])
qed

lemma kept_closures:
  "kept_slots (keep_other slot) () ts = Ok (filter (\<lambda>s. s \<noteq> slot) ts)"
  "kept_slots (close_gap slot) () ts = Ok (map (\<lambda>s. if slot < s then s - 1 else s) (filter (\<lambda>s. s \<noteq> slot) ts))"
  "kept_slots skip_first False ts = Ok ts"
  "kept_slots skip_first True (t # ts) = Ok ts"
proof -
  show "kept_slots (keep_other slot) () ts = Ok (filter (\<lambda>s. s \<noteq> slot) ts)" by (induction ts) (simp_all add: keep_other_def)
  show "kept_slots (close_gap slot) () ts = Ok (map (\<lambda>s. if slot < s then s - 1 else s) (filter (\<lambda>s. s \<noteq> slot) ts))"
    by (induction ts) (simp_all add: close_gap_def)
  show *: "kept_slots skip_first False ts = Ok ts" for ts by (induction ts) (simp_all add: skip_first_def)
  show "kept_slots skip_first True (t # ts) = Ok ts" by (simp add: skip_first_def *)
qed

lemma kept_shift:
  assumes "\<forall>s \<in> set ts. unat s < n" "n < 2 ^ 32" "pos \<le> n"
  shows "kept_slots (shift_from (word_of_nat pos)) () ts = (Ok (map (tomb_up pos) ts) :: ('e, u32 list) result)"
  using assms(1)
proof (induction ts)
  case (Cons t ts)
  have "shift_from (word_of_nat pos) () t = (Ok ((), Some (tomb_up pos t)) :: ('e, unit \<times> u32 option) result)"
  proof (cases "word_of_nat pos \<le> t")
    case True
    have "unat t < n" using Cons.prems by simp
    note up = unat_shift_up(1) [OF this assms(2,3)]
    show ?thesis using True by (simp add: shift_from_def tomb_up_def up [simplified True if_True])
  qed (simp add: shift_from_def tomb_up_def)
  then show ?case using Cons by simp
qed simp


section \<open>Reading\<close>

lemma any_up_ok: "(\<And>i. i \<in> set is \<Longrightarrow> f i = Ok (P i)) \<Longrightarrow> any_up f is = Ok (\<exists>i \<in> set is. P i)"
  by (induction "is") auto

lemma lview_fields:
  assumes "leaf_stored p"
  shows "v_len (lview p) = Ok (length (lp_entries p))" "lv_tombstone_count (lview p) = Ok (length (lp_tombstones p))"
    "i < length (lp_tombstones p) \<Longrightarrow> lv_tombstone (lview p) i = Ok (lp_tombstones p ! i)"
    "v_layout (lview p) = lp_layout p" "v_buf (lview p) = leaf_bytes p"
proof -
  note c = leaf_counts [OF assms] and len = leaf_bytes_head(3) [OF assms]
  show "v_len (lview p) = Ok (length (lp_entries p))" "lv_tombstone_count (lview p) = Ok (length (lp_tombstones p))"
    using c unfolding lview_eq by (intro leaf_view_fields; simp)+
  show "lv_tombstone (lview p) i = Ok (lp_tombstones p ! i)" if "i < length (lp_tombstones p)"
  proof -
    have "pad_slots (tombstone_capacity (lp_layout p)) (lp_tombstones p) ! i = lp_tombstones p ! i" using that by (simp add: pad_slots_def nth_append)
    moreover have "i < length (pad_slots (tombstone_capacity (lp_layout p)) (lp_tombstones p))" using that len c(1) by simp
    ultimately show ?thesis unfolding lview_eq by (simp only: leaf_view_fields(3) [OF _ len])
  qed
qed (simp_all add: lview_def)

lemma lv_key_page: "leaf_stored p \<Longrightarrow> i < length (lp_entries p) \<Longrightarrow> lv_key (lview p) i = Ok (fst (lp_entries p ! i))"
  by (simp add: lv_key_def lview_fields leaf_page_entry)

lemma lv_is_tombstoned_page: "leaf_stored p \<Longrightarrow> lv_is_tombstoned (lview p) s = Ok (lp_is_tombstoned p s)"
proof -
  assume st: "leaf_stored p"
  note a = any_up_ok [of "[0..<length (lp_tombstones p)]" "\<lambda>i. bindR (lv_tombstone (lview p) i) (\<lambda>t. Ok (t = s))" "\<lambda>i. lp_tombstones p ! i = s"]
  show ?thesis unfolding lv_is_tombstoned_def lview_fields(2) [OF st] bindR.simps
    by (subst a) (auto simp: lview_fields [OF st] lp_is_tombstoned_def list_ex_iff in_set_conv_nth)
qed

lemma lv_new_page:
  assumes "leaf_stored p"
  shows "lv_new (leaf_bytes p) (lp_layout p) = Ok (lview p)"
proof -
  let ?b = "leaf_bytes p"
  note b = leaf_bytes_head [OF assms] and c = leaf_counts [OF assms]
  have "expect_common_header ?b KIND_LEAF = Ok ()" unfolding b(1) leaf_head_split(1) node_hdr_split(1) by (simp add: expect_header_bytes)
  moreover have "node_size ?b = (Ok (length (lp_entries p)) :: (PageCodecError, _) result)"
    "get_u32_le ?b 24 = (Ok (word_of_nat (length (lp_tombstones p))) :: (PageCodecError, u32) result)"
    using c by (simp_all add: node_size_def b(1) leaf_head_get unat_slot)
  moreover have "unat (word_of_nat (length (lp_tombstones p)) :: u32) = length (lp_tombstones p)" using c by (intro unat_slot) simp
  moreover have "any_up (\<lambda>i. bindR (lv_tombstone (lview p) i) (\<lambda>s. Ok (unat s \<ge> length (lp_entries p)))) [0..<length (lp_tombstones p)] =
      (Ok (\<exists>i \<in> set [0..<length (lp_tombstones p)]. unat (lp_tombstones p ! i) \<ge> length (lp_entries p)) :: (PageCodecError, bool) result)"
    by (rule any_up_ok) (simp add: lview_fields [OF assms])
  moreover have "\<not> (\<exists>i \<in> set [0..<length (lp_tombstones p)]. unat (lp_tombstones p ! i) \<ge> length (lp_entries p))"
    using assms by (auto simp: leaf_stored_def leaf_ok_def not_le)
  ultimately show ?thesis using c(1) b(2) unfolding lv_new_def Let_def lview_def [symmetric]
    by (simp add: check_len_def leaf_page_entry [OF assms])
qed

lemma partition_page:
  assumes "leaf_stored p" "\<And>x y :: bytes. x \<le> y \<Longrightarrow> P y \<Longrightarrow> P x"
  shows "partition_point (length (lp_entries p)) (\<lambda>i. bindR (lv_key (lview p) i) (\<lambda>k. Ok (P k))) = Ok (slice_partition_point (\<lambda>(k, _). P k) (lp_entries p))"
proof -
  have "sorted (lp_keys p)" using assms(1) by (simp add: leaf_stored_def leaf_ok_def strict_sorted)
  then have "partition_point (length (lp_keys p)) (\<lambda>i. bindR (lv_key (lview p) i) (\<lambda>k. Ok (P k))) = Ok (slice_partition_point P (lp_keys p))"
    by (rule partition_point_sorted) (simp_all add: assms(2) lp_keys_def lv_key_page [OF assms(1)])
  moreover have "slice_partition_point P (lp_keys p) = slice_partition_point (\<lambda>(k, _). P k) (lp_entries p)"
    by (simp add: slice_partition_point_def lp_keys_def takeWhile_map comp_def case_prod_beta')
  ultimately show ?thesis by (simp add: lp_keys_def)
qed

lemma lv_bounds_page:
  assumes "leaf_stored p"
  shows "lv_lower_bound (lview p) key = Ok (lp_lower_bound p key)" "lv_upper_bound (lview p) key = Ok (lp_upper_bound p key)"
  unfolding lv_lower_bound_def lv_upper_bound_def lview_fields(1) [OF assms] bindR.simps lp_lower_bound_def lp_upper_bound_def
  by (rule partition_page [OF assms]; auto)+

lemma lv_search_page:
  assumes "leaf_stored p"
  shows "lv_search (lview p) key = lp_search p key"
proof -
  have "partition_point (length (lp_entries p)) (\<lambda>i. bindR (lv_key (lview p) i) (\<lambda>k. Ok (k < key))) = Ok (slice_partition_point (\<lambda>(k, _). k < key) (lp_entries p))"
    by (rule partition_page [OF assms]) auto
  note r = this
  show ?thesis unfolding lv_search_def lview_fields(1) [OF assms] bindR.simps r lp_search_def Let_def
    by (simp add: lv_key_page [OF assms])
qed

lemma lv_get_page:
  assumes "leaf_stored p"
  shows "lv_get (lview p) key = lp_get p key"
proof -
  have ok: "leaf_ok p" using assms by (simp add: leaf_stored_def)
  then show ?thesis
  proof (cases rule: leaf_cases [where key = key and 'e = PageCodecError])
    case (found xs r ys)
    have "lv_record_id (lview p) (length xs) = Ok r"
    proof -
      have i: "length xs < length (lp_entries p)" "lp_entries p ! length xs = (key, r)" using found(1) by simp_all
      have "valid_page_id (page_id r)" using ok found(1) by (simp add: leaf_ok_def)
      then show ?thesis by (simp add: lv_record_id_def lview_fields [OF assms] leaf_page_entry(5) [OF assms i(1)] i(2) decode_rid)
    qed
    then show ?thesis using found(1,4-6) by (simp add: lv_get_def lp_get_def lv_search_page [OF assms] lv_is_tombstoned_page [OF assms] index_get_def)
  next
    case (absent xs ys)
    then show ?thesis by (simp add: lv_get_def lp_get_def lv_search_page [OF assms])
  qed
qed

lemma lp_insert_dead:
  assumes "leaf_ok p" "lp_entries p = xs @ (key, r) # ys" "lp_search p key = Ok (length xs) \<and> length xs < 2 ^ 32 \<and> length xs \<in> dead_slots p"
    "valid_page_id (page_id rid)"
  shows "lp_insert p key rid = Ok (revived p (xs @ (key, rid) # ys) (length xs))"
  using assms(2,3) tombstoned_iff [of "length xs" p]
  by (simp add: lp_insert_def leaf_slot_ok index_get_def remove_tombstone_def lp_is_tombstoned_def revived_def Let_def
      leaf_ok_debug [OF revived_ok(1) [OF assms(1,2,4)], unfolded revived_def])

lemma lp_insert_absent:
  assumes "leaf_ok p" "lp_entries p = xs @ ys" "\<forall>e \<in> set xs. fst e < key" "\<forall>e \<in> set ys. key < fst e" "lp_search p key = Err (length xs)"
    "length key \<le> max_key_len (lp_layout p)" "valid_page_id (page_id rid)" "length (lp_entries p) + 1 < 2 ^ 32"
  shows "leaf_ok (added p (xs @ (key, rid) # ys) (length xs)) \<and> lp_insert p key rid = Ok (added p (xs @ (key, rid) # ys) (length xs))"
proof -
  note q = added_ok [OF assms(1-4,6-8)]
  have "length xs < 2 ^ 32" using assms(1,2) by (simp add: leaf_ok_def)
  then show ?thesis using assms(2,5) q(1) by (simp add: lp_insert_def leaf_slot_ok vec_insert_def leaf_ok_debug q(3))
qed

section \<open>Changing the bytes\<close>

lemma leaf_head_stored:
  assumes "leaf_stored p"
  shows "length (leaf_head (length (lp_entries p)) (lp_next_leaf_id p) (length (lp_tombstones p))
    (pad_slots (tombstone_capacity (lp_layout p)) (lp_tombstones p))) = slots_start (leaf_area (lp_layout p))"
  using leaf_bytes_head(3) [OF assms] by simp

lemma lview_entries:
  assumes st: "leaf_stored p"
  shows "lp_entries p = xs @ ys \<Longrightarrow> area_fits (leaf_area (lp_layout p)) (map leaf_entry (xs @ (key, rid) # ys)) \<Longrightarrow>
      with_buf (lview p) (area_insert (leaf_area (lp_layout p)) (leaf_bytes p) (length (lp_entries p)) (length xs) key (rid_bytes rid)) =
      Ok (leaf_view (lp_layout p) (length (lp_entries p)) (lp_next_leaf_id p) (length (lp_tombstones p))
        (pad_slots (tombstone_capacity (lp_layout p)) (lp_tombstones p)) (map leaf_entry (xs @ (key, rid) # ys)))"
    "lp_entries p = xs @ e # ys \<Longrightarrow>
      with_buf (lview p) (area_remove (leaf_area (lp_layout p)) (leaf_bytes p) (length (lp_entries p)) (length xs)) =
      Ok (leaf_view (lp_layout p) (length (lp_entries p)) (lp_next_leaf_id p) (length (lp_tombstones p))
        (pad_slots (tombstone_capacity (lp_layout p)) (lp_tombstones p)) (map leaf_entry (xs @ ys)))"
    "lp_entries p = xs @ (key, r) # ys \<Longrightarrow>
      with_buf (lview p) (set_payload (leaf_area (lp_layout p)) (leaf_bytes p) (length (lp_entries p)) (length xs) (rid_bytes rid)) =
      Ok (leaf_view (lp_layout p) (length (lp_entries p)) (lp_next_leaf_id p) (length (lp_tombstones p))
        (pad_slots (tombstone_capacity (lp_layout p)) (lp_tombstones p)) (map leaf_entry (xs @ (key, rid) # ys)))"
proof -
  let ?A = "leaf_area (lp_layout p)" and ?n = "length (lp_entries p)" and ?E = "map leaf_entry"
  let ?h = "leaf_head ?n (lp_next_leaf_id p) (length (lp_tombstones p)) (pad_slots (tombstone_capacity (lp_layout p)) (lp_tombstones p))"
  note h = leaf_head_stored [OF st] and fits = leaf_fits [OF st]
  have w: "with_buf (lview p) (Ok (area_page ?A ?h es)) = Ok (leaf_view (lp_layout p) ?n (lp_next_leaf_id p) (length (lp_tombstones p))
        (pad_slots (tombstone_capacity (lp_layout p)) (lp_tombstones p)) es)" for es
    by (simp add: with_buf_def lview_def leaf_view_def)
  have b: "leaf_bytes p = area_page ?A ?h (?E (lp_entries p))" by (simp add: leaf_bytes_def)
  show "with_buf (lview p) (area_insert ?A (leaf_bytes p) ?n (length xs) key (rid_bytes rid)) =
      Ok (leaf_view (lp_layout p) ?n (lp_next_leaf_id p) (length (lp_tombstones p))
        (pad_slots (tombstone_capacity (lp_layout p)) (lp_tombstones p)) (?E (xs @ (key, rid) # ys)))"
    if "lp_entries p = xs @ ys" "area_fits ?A (?E (xs @ (key, rid) # ys))"
  proof -
    have "area_fits ?A (?E xs @ (key, rid_bytes rid) # ?E ys)" using that(2) by (simp add: leaf_entry_def)
    note r = area_insert_page [OF this h, unfolded that(1), simplified]
    show ?thesis unfolding w [symmetric] b by (simp add: that(1) leaf_entry_def [of "(key, rid)"] r)
  qed
  show "with_buf (lview p) (area_remove ?A (leaf_bytes p) ?n (length xs)) = Ok (leaf_view (lp_layout p) ?n (lp_next_leaf_id p) (length (lp_tombstones p))
        (pad_slots (tombstone_capacity (lp_layout p)) (lp_tombstones p)) (?E (xs @ ys)))" if "lp_entries p = xs @ e # ys"
  proof -
    have "area_fits ?A (?E xs @ leaf_entry e # ?E ys)" using fits that by simp
    note r = area_remove_page [OF this h, unfolded that, simplified]
    show ?thesis unfolding w [symmetric] b by (simp add: that r)
  qed
  show "with_buf (lview p) (set_payload ?A (leaf_bytes p) ?n (length xs) (rid_bytes rid)) = Ok (leaf_view (lp_layout p) ?n (lp_next_leaf_id p)
        (length (lp_tombstones p)) (pad_slots (tombstone_capacity (lp_layout p)) (lp_tombstones p)) (?E (xs @ (key, rid) # ys)))"
    if "lp_entries p = xs @ (key, r) # ys"
  proof -
    have "area_fits ?A (?E xs @ (key, rid_bytes r) # ?E ys)" using fits that by (simp add: leaf_entry_def)
    note r = set_payload_page [OF this h, of "rid_bytes rid", unfolded that, simplified]
    show ?thesis unfolding w [symmetric] b by (simp add: that leaf_entry_def [of "(key, r)" for r] r)
  qed
qed

lemma lv_insert_page:
  assumes st: "leaf_stored p" and key: "length key \<le> max_key_len (lp_layout p)" "valid_page_id (page_id rid)"
  shows "lv_insert (lview p) key rid = (case lp_insert p key rid of Ok q \<Rightarrow> if lp_is_overfull q then Err Full else Ok (lview q)
    | Err _ \<Rightarrow> Err LeafDuplicateKey | Panic \<Rightarrow> Panic)"
proof -
  have ok: "leaf_ok p" using st by (simp add: leaf_stored_def)
  note c = leaf_counts [OF st] and f = lview_fields [OF st]
  from ok show ?thesis
  proof (cases rule: leaf_cases [where key = key and 'e = InsertError])
    case (found xs r ys)
    note s = lv_search_page [OF st, of key, unfolded found(4)]
    show ?thesis
    proof (cases "length xs \<in> dead_slots p")
      case False
      then show ?thesis using found by (simp add: lv_insert_def lp_insert_def encode_rid s lv_is_tombstoned_page [OF st])
    next
      case True
      let ?q = "revived p (xs @ (key, rid) # ys) (length xs)"
      have i: "lp_insert p key rid = Ok ?q" by (rule lp_insert_dead [OF ok found(1) _ key(2)]) (use found True in simp_all)
      have "lp_used_bytes ?q = lp_used_bytes p" by (simp add: lp_used_bytes_def lp_cost_def [abs_def] lp_keys_def revived_def found(1))
      then have "\<not> lp_is_overfull ?q" using st by (simp add: leaf_stored_def lp_is_overfull_def revived_def)
      moreover have "filter (\<lambda>s. s \<noteq> word_of_nat (length xs)) (lp_tombstones p) = remove1 (word_of_nat (length xs)) (lp_tombstones p)"
        using ok by (auto simp: leaf_ok_def distinct_remove1_removeAll removeAll_filter_not_eq intro!: filter_cong)
      moreover note rw = rewrite_tombstones_page [OF kept_closures(1) c(1,2)]
      ultimately show ?thesis using True found(6)
        by (simp add: lv_insert_def encode_rid s lv_is_tombstoned_page [OF st] Let_def f lview_entries(3) [OF st found(1)] i rw)
          (simp add: lview_eq revived_def found(1))
    qed
  next
    case (absent xs ys)
    note s = lv_search_page [OF st, of key, unfolded absent(4)]
    let ?q = "added p (xs @ (key, rid) # ys) (length xs)"
    have q: "leaf_ok ?q" "lp_insert p key rid = Ok ?q" using lp_insert_absent [OF ok absent(1-4) key c(3)] by simp_all
    have u: "lp_used_bytes ?q = lp_used_bytes p + entry_cost (leaf_area (lp_layout p)) (length key)"
      by (simp add: lp_used_bytes_def lp_cost_def [abs_def] lp_keys_def added_def absent(1))
    have cap: "lp_used_bytes p \<le> area_capacity (leaf_area (lp_layout p))" using st by (simp add: leaf_stored_def lp_is_overfull_def)
    show ?thesis
    proof (cases "lp_is_overfull ?q")
      case True
      then have "area_capacity (leaf_area (lp_layout p)) - lp_used_bytes p < entry_cost (leaf_area (lp_layout p)) (length key)"
        using u cap by (simp add: lp_is_overfull_def added_def)
      then show ?thesis using True by (simp add: lv_insert_def encode_rid s f Let_def leaf_page_entry [OF st] q)
    next
      case False
      have "leaf_stored ?q" using q(1) False st by (simp add: leaf_stored_def added_def)
      from leaf_fits [OF this] have fits: "area_fits (leaf_area (lp_layout p)) (map leaf_entry (xs @ (key, rid) # ys))" by (simp add: added_def)
      have free: "\<not> area_capacity (leaf_area (lp_layout p)) - lp_used_bytes p < entry_cost (leaf_area (lp_layout p)) (length key)"
        using u False by (simp add: lp_is_overfull_def added_def)
      have t: "\<forall>s \<in> set (lp_tombstones p). unat s < length (lp_entries p)" "length (lp_entries p) < 2 ^ 32" "length xs \<le> length (lp_entries p)"
        using ok absent(1) by (simp_all add: leaf_ok_def)
      note rewrite_tombstones_page [OF kept_shift [OF t] c(1,2)]
      then show ?thesis using False
        by (simp add: lv_insert_def encode_rid s f Let_def leaf_page_entry [OF st] q free lview_entries(1) [OF st absent(1) fits] leaf_view_fields
            lview_eq [of ?q] del: map_append) (simp add: added_def absent(1))
    qed
  qed
qed

lemma lv_physical_remove_page:
  assumes st: "leaf_stored p" and s: "unat s < length (lp_entries p)"
  shows "lv_physical_remove_at (lview p) s = mapR lview (lp_physical_remove_at p s)"
proof -
  let ?xs = "take (unat s) (lp_entries p)" and ?ys = "drop (Suc (unat s)) (lp_entries p)"
  note c = leaf_counts [OF st] and f = lview_fields [OF st]
  have es: "lp_entries p = ?xs @ lp_entries p ! unat s # ?ys" by (rule id_take_nth_drop [OF s])
  have l: "length ?xs = unat s" using s by simp
  note r = lview_entries(2) [OF st es, unfolded l]
  have n: "length (lp_entries p) - 1 = length (?xs @ ?ys)" using s by simp
  note rw = rewrite_tombstones_page [OF kept_closures(2) c(1,2)]
  show ?thesis using s
    by (simp add: lv_physical_remove_at_def f r sub_usize_def leaf_view_fields rw lp_physical_remove_at_def vec_remove_def n
        adjust_tombstones_after_remove_def del: map_append length_append) (simp add: lview_eq)
qed

lemma lv_bury_page:
  assumes st: "leaf_stored p" and room: "length (lp_tombstones p) < tombstone_capacity (lp_layout p)"
  shows "bindR (lv_tombstone_count (lview p)) (\<lambda>count. bindR (set_tombstone_count (lview p) (count + 1)) (\<lambda>v. set_tombstone v count s)) =
    Ok (lview (p\<lparr>lp_tombstones := lp_tombstones p @ [s]\<rparr>))"
proof -
  let ?cap = "tombstone_capacity (lp_layout p)" and ?ts = "lp_tombstones p"
  have "(pad_slots ?cap ?ts)[length ?ts := s] = pad_slots ?cap (?ts @ [s])"
  proof -
    have "?cap - length ?ts = Suc (?cap - Suc (length ?ts))" using room by simp
    then show ?thesis by (simp add: pad_slots_def list_update_append)
  qed
  then show ?thesis using room leaf_bytes_head(3) [OF st]
    by (simp add: lview_fields [OF st]) (simp add: lview_eq leaf_view_fields)
qed

lemma lv_skip_page:
  assumes st: "leaf_stored p" and ts: "lp_tombstones p = o1 # ts"
  shows "rewrite_tombstones (lview p) skip_first True = Ok (lview (p\<lparr>lp_tombstones := ts\<rparr>))"
  using rewrite_tombstones_page [OF kept_closures(4) [of o1 ts], of "lp_layout p"] leaf_counts [OF st] ts
  by (simp add: lview_eq)

lemma stored_fewer:
  assumes st: "leaf_stored p" and q: "leaf_ok q" "lp_layout q = lp_layout p" "lp_next_leaf_id q = lp_next_leaf_id p" "lp_used_bytes q \<le> lp_used_bytes p"
  shows "leaf_stored q"
  using assms by (simp add: leaf_stored_def lp_is_overfull_def)

lemma sum_list_less_one: "sum_list (map (f :: 'a \<Rightarrow> nat) (take i xs @ drop (Suc i) xs)) \<le> sum_list (map f xs)"
proof (cases "i < length xs")
  case True
  then show ?thesis by (subst (3) id_take_nth_drop [OF True]) simp
qed simp

lemma purge_used: "purge_oldest_tombstone p = Ok (s, q) \<Longrightarrow> lp_used_bytes q \<le> lp_used_bytes p"
  using sum_list_less_one [of "\<lambda>e. lp_cost p (fst e)" "unat s" "lp_entries p"]
  by (auto simp: purge_oldest_tombstone_def lp_physical_remove_at_def vec_remove_def adjust_tombstones_after_remove_def lp_used_bytes_def
      lp_keys_def lp_cost_def [abs_def] comp_def simp del: map_append sum_list_append split: list.splits if_splits)

lemma lv_evict_page:
  assumes st: "leaf_stored p" and ts: "lp_tombstones p = o1 # ts"
  shows "bindR (lv_tombstone (lview p) 0) (\<lambda>ev. bindR (rewrite_tombstones (lview p) skip_first True) (\<lambda>v.
      bindR (lv_physical_remove_at v ev) (\<lambda>v. Ok (g ev, v)))) = mapR (\<lambda>(w, q). (g w, lview q)) (purge_oldest_tombstone p)"
proof -
  let ?p = "p\<lparr>lp_tombstones := ts\<rparr>"
  have ok: "leaf_ok ?p" "unat o1 < length (lp_entries ?p)" using st ts by (auto simp: leaf_stored_def leaf_ok_iff slots_ok_def)
  have "leaf_stored ?p" by (rule stored_fewer [OF st ok(1)]) (simp_all add: lp_used_bytes_def lp_keys_def lp_cost_def [abs_def])
  note r = lv_physical_remove_page [OF this ok(2)]
  have "lv_tombstone (lview p) 0 = (Ok o1 :: ('a, u32) result)" using lview_fields(3) [OF st, of 0] ts by simp
  then show ?thesis
    by (cases "lp_physical_remove_at ?p o1 :: ('a, LeafPage) result") (simp_all add: lv_skip_page [OF st ts] purge_oldest_tombstone_def ts r)
qed

lemma lv_remove_page:
  assumes st: "leaf_stored p"
  shows "lv_remove_key (lview p) key = mapR lview (lp_remove_key p key)"
proof -
  have ok: "leaf_ok p" using st by (simp add: leaf_stored_def)
  note f = lview_fields [OF st]
  from ok show ?thesis
  proof (cases rule: leaf_cases [where key = key and 'e = RemoveError])
    case (absent xs ys)
    then show ?thesis by (simp add: lv_remove_key_def lp_remove_key_def lv_search_page [OF st])
  next
    case (found xs r ys)
    let ?s = "word_of_nat (length xs) :: u32" and ?cap = "tombstone_capacity (lp_layout p)" and ?ts = "lp_tombstones p"
    note s = lv_search_page [OF st, of key, unfolded found(4)]
    have u: "unat ?s = length xs" by (rule unat_slot [OF found(7)])
    note simps = lv_remove_key_def lp_remove_key_def s found(4,5,6) lv_is_tombstoned_page [OF st] f Let_def
    consider "length xs \<in> dead_slots p" | "length xs \<notin> dead_slots p" "?cap = 0"
      | "length xs \<notin> dead_slots p" "0 < ?cap" "\<not> tombstones_full p" | "length xs \<notin> dead_slots p" "0 < ?cap" "tombstones_full p" by blast
    then show ?thesis
    proof cases
      case 1
      then show ?thesis by (simp add: simps)
    next
      case 2
      note q = physical_remove_ok(1,2) [OF ok found(1) u]
      have "lv_physical_remove_at (lview p) ?s = mapR lview (lp_physical_remove_at p ?s)"
        by (rule lv_physical_remove_page [OF st]) (simp add: u found(1))
      note pr = this [unfolded q(1)]
      show ?thesis using 2 lv_physical_remove_page [OF st, of ?s] u found(1) by (simp add: simps pr q(1) leaf_ok_debug [OF q(2)])
    next
      case 3
      then have room: "length ?ts < ?cap" by (simp add: tombstones_full_def)
      note b = bury_ok(1) [OF ok found(1) 3(1) room]
      show ?thesis using 3 room lv_bury_page [OF st room, of ?s, unfolded f bindR.simps] by (simp add: simps leaf_ok_debug [OF b])
    next
      case 4
      then obtain o1 ts where ts: "?ts = o1 # ts" by (cases ?ts) (auto simp: tombstones_full_def)
      from purge_ok [OF ok found(1) 4(1) ts, where 'e = RemoveError] obtain q xs' ys' where
        q: "purge_oldest_tombstone p = (Ok (o1, q) :: (RemoveError, u32 \<times> LeafPage) result)" "leaf_ok q" "lp_layout q = lp_layout p"
          "lp_next_leaf_id q = lp_next_leaf_id p" "lp_entries q = xs' @ (key, r) # ys'" "length xs' \<notin> dead_slots q"
          "length (lp_tombstones q) < length ?ts" "word_of_nat (length xs') = (if o1 < ?s then ?s - 1 else ?s)" by blast
      have st': "leaf_stored q" by (rule stored_fewer [OF st q(2-4) purge_used [OF q(1)]])
      have room: "length (lp_tombstones q) < tombstone_capacity (lp_layout q)" using q(3,7) ok by (simp add: leaf_ok_def)
      note b = bury_ok(1) [OF q(2,5,6) room]
      note ev = lv_evict_page [OF st ts, where g = "\<lambda>w. if w < ?s then ?s - 1 else ?s", unfolded q(1) mapR.simps prod.case q(8) [symmetric]]
      have "?cap \<le> length ?ts" using 4(3) by (simp add: tombstones_full_def)
      then show ?thesis using 4 lv_bury_page [OF st' room, of "word_of_nat (length xs')"]
        by (simp add: simps q(1) ev leaf_ok_debug [OF b] flip: q(8))
    qed
  qed
qed

end
