(* ===== verification/Leaf_Map.thy ===== *)
theory Leaf_Map
  imports Leaf_View
begin

text \<open>
  The contract of a page of keys, kept by decoded leaves and by views on their bytes, and what follows for both.
\<close>


section \<open>The contract of a page of keys\<close>

text \<open>
  What the tree relies on of a page that holds keys, whether it is a decoded page or a view on the bytes in a frame of the pool:
  \<open>get\<close>, \<open>put\<close> and \<open>del\<close> act on a map. A page that \<open>put\<close> returns keeps the invariant when it fits.
\<close>

locale key_map =
  fixes inv :: "'p \<Rightarrow> bool" and allowed :: "'p \<Rightarrow> 'k \<Rightarrow> 'v \<Rightarrow> bool" and fits :: "'p \<Rightarrow> bool" and contents :: "'p \<Rightarrow> 'k \<rightharpoonup> 'v"
    and get :: "'p \<Rightarrow> 'k \<Rightarrow> ('g, 'v option) result" and put :: "'p \<Rightarrow> 'k \<Rightarrow> 'v \<Rightarrow> ('i, 'p) result" and del :: "'p \<Rightarrow> 'k \<Rightarrow> ('r, 'p) result"
    and duplicate :: 'i and missing :: 'r
  assumes get_contents: "inv p \<Longrightarrow> get p k = Ok (contents p k)"
    and put_fresh: "inv p \<Longrightarrow> allowed p k v \<Longrightarrow> contents p k = None \<Longrightarrow> put p k v = Ok q \<Longrightarrow>
      contents q = (contents p)(k \<mapsto> v) \<and> (fits q \<longrightarrow> inv q \<and> allowed q = allowed p)"
    and put_present: "inv p \<Longrightarrow> allowed p k v \<Longrightarrow> contents p k = Some w \<Longrightarrow> put p k v = Err duplicate"
    and del_present: "inv p \<Longrightarrow> contents p k = Some w \<Longrightarrow> \<exists>q. del p k = Ok q \<and> inv q \<and> allowed q = allowed p \<and> contents q = (contents p)(k := None)"
    and del_absent: "inv p \<Longrightarrow> contents p k = None \<Longrightarrow> del p k = Err missing"
begin

lemma put_Ok:
  assumes "inv p" "allowed p k v" "put p k v = Ok q"
  shows "contents p k = None" "contents q = (contents p)(k \<mapsto> v)" "fits q \<Longrightarrow> inv q" "fits q \<Longrightarrow> allowed q = allowed p"
proof -
  show n: "contents p k = None" using put_present [OF assms(1,2)] assms(3) by (cases "contents p k") auto
  show "contents q = (contents p)(k \<mapsto> v)" "fits q \<Longrightarrow> inv q" "fits q \<Longrightarrow> allowed q = allowed p"
    using put_fresh [OF assms(1,2) n assms(3)] by auto
qed

lemma del_Ok:
  assumes "inv p" "del p k = Ok q"
  shows "contents p k \<noteq> None" "contents q = (contents p)(k := None)" "inv q" "allowed q = allowed p"
  using del_absent [OF assms(1), of k] del_present [OF assms(1), of k] assms(2) by (cases "contents p k"; auto)+

lemma get_after_put:
  assumes "inv p" "allowed p k v" "put p k v = Ok q" "fits q"
  shows "get q k' = (if k' = k then Ok (Some v) else get p k')"
  using get_contents [OF put_Ok(3) [OF assms], of k'] get_contents [OF assms(1), of k'] put_Ok(2) [OF assms(1-3)] by simp

lemma put_after_put:
  assumes "inv p" "allowed p k v" "put p k v = Ok q" "fits q" "allowed p k w"
  shows "put q k w = Err duplicate"
  using put_present [OF put_Ok(3) [OF assms(1-4)], of k w v] put_Ok(2,4) [OF assms(1-3)] assms(4,5) by simp

lemma del_after_put:
  assumes "inv p" "allowed p k v" "put p k v = Ok q" "fits q"
  shows "\<exists>r. del q k = Ok r \<and> inv r \<and> (\<forall>k'. get r k' = get p k')"
proof -
  have q: "inv q" "contents q k = Some v" using put_Ok [OF assms(1-3)] assms(4) by simp_all
  from del_present [OF this] obtain r where r: "del q k = Ok r" "inv r" "contents r = (contents q)(k := None)" by blast
  have "contents r = contents p" using r(3) put_Ok(1,2) [OF assms(1-3)] by auto
  then show ?thesis using r get_contents [OF assms(1)] get_contents [OF r(2)] by auto
qed

lemma get_after_del:
  assumes "inv p" "del p k = Ok q"
  shows "get q k' = (if k' = k then Ok None else get p k')" "del q k = Err missing"
  using del_Ok [OF assms] get_contents [OF assms(1)] get_contents [of q] del_absent [of q k] by simp_all

end

section \<open>Decoded leaves keep the contract\<close>

definition leaf_allowed :: "LeafPage \<Rightarrow> IndexKey \<Rightarrow> RecordId \<Rightarrow> bool" where
  "leaf_allowed p key rid \<longleftrightarrow> length key \<le> max_key_len (lp_layout p) \<and> valid_page_id (page_id rid)"

definition leaf_fit :: "LeafPage \<Rightarrow> bool" where
  "leaf_fit p \<longleftrightarrow> \<not> lp_is_overfull p"

lemma lp_insert_keeps: "lp_insert p key rid = Ok q \<Longrightarrow> lp_layout q = lp_layout p \<and> lp_next_leaf_id q = lp_next_leaf_id p"
  by (auto simp: lp_insert_def adjust_tombstones_after_insert_def remove_tombstone_def Let_def elim!: bindR_OkE split: result.splits if_splits)

lemma lp_remove_used:
  assumes "leaf_stored p" "lp_remove_key p key = Ok q"
  shows "leaf_stored q \<and> lp_layout q = lp_layout p"
proof -
  have ok: "leaf_ok p" using assms(1) by (simp add: leaf_stored_def)
  from lp_remove_live [OF ok, of key] assms(2) have q: "leaf_ok q" "lp_layout q = lp_layout p" "lp_next_leaf_id q = lp_next_leaf_id p" by auto
  have "lp_used_bytes q \<le> lp_used_bytes p"
    using assms(2) sum_list_less_one [of "\<lambda>e. lp_cost p (fst e)" i "lp_entries p" for i]
    by (auto simp: lp_remove_key_def lp_physical_remove_at_def vec_remove_def Let_def lp_used_bytes_def lp_keys_def comp_def lp_cost_def [abs_def]
        adjust_tombstones_after_remove_def simp del: map_append sum_list_append elim!: bindR_OkE dest!: purge_used split: result.splits if_splits)
  then show ?thesis using stored_fewer [OF assms(1) q] q(2) by simp
qed

interpretation lm: key_map leaf_stored leaf_allowed leaf_fit leaf_map lp_get lp_insert lp_remove_key DuplicateKey KeyNotFound
proof
  fix p :: LeafPage and k :: IndexKey and v w :: RecordId and q
  assume st: "leaf_stored p"
  then have ok: "leaf_ok p" by (simp add: leaf_stored_def)
  note c = leaf_counts(3) [OF st]
  show "lp_get p k = Ok (leaf_map p k)" by (rule lp_get_live [OF ok])
  show "leaf_map q = (leaf_map p)(k \<mapsto> v) \<and> (leaf_fit q \<longrightarrow> leaf_stored q \<and> leaf_allowed q = leaf_allowed p)"
    if "leaf_allowed p k v" "leaf_map p k = None" "lp_insert p k v = Ok q"
  proof -
    have "leaf_ok q" "leaf_map q = (leaf_map p)(k \<mapsto> v)" using lp_insert_live [OF ok _ _ c, of k v] that by (auto simp: leaf_allowed_def)
    then show ?thesis using lp_insert_keeps [OF that(3)] st by (auto simp: leaf_stored_def leaf_fit_def leaf_allowed_def [abs_def])
  qed
  show "lp_insert p k v = Err DuplicateKey" if "leaf_allowed p k v" "leaf_map p k = Some w"
    using lp_insert_live [OF ok _ _ c, of k v] that by (auto simp: leaf_allowed_def)
  show "lp_remove_key p k = Err KeyNotFound" if "leaf_map p k = None" using lp_remove_live [OF ok, of k] that by auto
  show "\<exists>q. lp_remove_key p k = Ok q \<and> leaf_stored q \<and> leaf_allowed q = leaf_allowed p \<and> leaf_map q = (leaf_map p)(k := None)" if "leaf_map p k = Some w"
  proof -
    from lp_remove_live [OF ok, of k] that obtain q where q: "lp_remove_key p k = Ok q" "leaf_map q = (leaf_map p)(k := None)" by auto
    then show ?thesis using lp_remove_used [OF st q(1)] by (auto simp: leaf_allowed_def [abs_def])
  qed
qed

section \<open>Views keep the contract\<close>

text \<open>The page a view decodes to; a view is sound when it is the view of that page.\<close>

definition view_ok :: "PageView \<Rightarrow> bool" where
  "view_ok v \<longleftrightarrow> (case lp_decode (v_buf v) (v_layout v) of Ok p \<Rightarrow> leaf_stored p \<and> v = lview p | _ \<Rightarrow> False)"

definition view_map :: "PageView \<Rightarrow> IndexKey \<rightharpoonup> RecordId" where
  "view_map v = (case lp_decode (v_buf v) (v_layout v) of Ok p \<Rightarrow> leaf_map p | _ \<Rightarrow> Map.empty)"

definition view_allowed :: "PageView \<Rightarrow> IndexKey \<Rightarrow> RecordId \<Rightarrow> bool" where
  "view_allowed v key rid \<longleftrightarrow> length key \<le> max_key_len (v_layout v) \<and> valid_page_id (page_id rid)"

lemma lview_decode: "leaf_stored p \<Longrightarrow> lp_decode (v_buf (lview p)) (v_layout (lview p)) = Ok p"
  by (simp add: lview_def lp_decode_page)

lemma view_ok_lview: "leaf_stored p \<Longrightarrow> view_ok (lview p)" "leaf_stored p \<Longrightarrow> view_map (lview p) = leaf_map p"
  by (simp_all add: view_ok_def view_map_def lview_decode)

lemma view_okE: "view_ok v \<Longrightarrow> (\<And>p. leaf_stored p \<Longrightarrow> v = lview p \<Longrightarrow> thesis) \<Longrightarrow> thesis"
  by (auto simp: view_ok_def split: result.splits)

lemma view_allowed_lview: "view_allowed (lview p) = leaf_allowed p"
  by (simp add: view_allowed_def [abs_def] leaf_allowed_def [abs_def] lview_def)

interpretation vm: key_map view_ok view_allowed "\<lambda>_. True" view_map lv_get lv_insert lv_remove_key LeafDuplicateKey KeyNotFound
proof
  fix u :: PageView and k :: IndexKey and v w :: RecordId and t
  assume "view_ok u"
  then obtain p where st: "leaf_stored p" and u: "u = lview p" by (rule view_okE)
  note m = view_ok_lview(2) [OF st] and a = view_allowed_lview [of p]
  show "lv_get u k = Ok (view_map u k)" using lm.get_contents [OF st, of k] by (simp add: u m lv_get_page [OF st])
  have ins: "view_allowed u k v \<Longrightarrow> lv_insert u k v = (case lp_insert p k v of Ok q \<Rightarrow> if lp_is_overfull q then Err Full else Ok (lview q)
    | Err _ \<Rightarrow> Err LeafDuplicateKey | Panic \<Rightarrow> Panic)" using lv_insert_page [OF st, of k v] by (simp add: u a leaf_allowed_def)
  show "view_map t = (view_map u)(k \<mapsto> v) \<and> (True \<longrightarrow> view_ok t \<and> view_allowed t = view_allowed u)"
    if "view_allowed u k v" "view_map u k = None" "lv_insert u k v = Ok t"
  proof -
    from that(3) ins [OF that(1)] obtain q where q: "lp_insert p k v = Ok q" "\<not> lp_is_overfull q" "t = lview q" by (auto split: result.splits if_splits)
    from lm.put_fresh [OF st _ _ q(1)] that(1,2) q(2) have "leaf_map q = (leaf_map p)(k \<mapsto> v)" "leaf_stored q" "leaf_allowed q = leaf_allowed p"
      by (auto simp: u m a leaf_fit_def)
    then show ?thesis by (simp add: q(3) u m a view_ok_lview view_allowed_lview)
  qed
  show "lv_insert u k v = Err LeafDuplicateKey" if "view_allowed u k v" "view_map u k = Some w"
    using lm.put_present [OF st, of k v w] that ins [OF that(1)] by (simp add: u m a)
  show "lv_remove_key u k = Err KeyNotFound" if "view_map u k = None"
    using lm.del_absent [OF st, of k] that by (simp add: u m lv_remove_page [OF st])
  show "\<exists>q. lv_remove_key u k = Ok q \<and> view_ok q \<and> view_allowed q = view_allowed u \<and> view_map q = (view_map u)(k := None)" if "view_map u k = Some w"
  proof -
    from lm.del_present [OF st, of k w] that obtain q where
      "lp_remove_key p k = Ok q" "leaf_stored q" "leaf_allowed q = leaf_allowed p" "leaf_map q = (leaf_map p)(k := None)" by (auto simp: u m)
    then show ?thesis by (intro exI [of _ "lview q"]) (simp add: u m a lv_remove_page [OF st] view_ok_lview view_allowed_lview)
  qed
qed

section \<open>Properties\<close>

text \<open>C26. A leaf page is a map from its live keys to record ids, whatever its tombstones: \<open>get\<close> reads the map, \<open>insert\<close> refuses a live key
  and else adds the key (reviving a tombstoned entry), and \<open>remove_key\<close> takes a live key out and refuses any other, purging the oldest
  tombstone when there is no room for one more; the invariant of the page is kept.\<close>

theorem leaf_is_map:
  assumes "leaf_ok p" "length key \<le> max_key_len (lp_layout p)" "valid_page_id (page_id rid)" "length (lp_entries p) + 1 < 2 ^ 32"
  shows "lp_get p key = Ok (leaf_map p key) \<and>
    (case leaf_map p key of
       None \<Rightarrow> lp_remove_key p key = Err KeyNotFound \<and>
         (\<exists>q. lp_insert p key rid = Ok q \<and> leaf_ok q \<and> leaf_map q = (leaf_map p)(key \<mapsto> rid))
     | Some _ \<Rightarrow> lp_insert p key rid = Err DuplicateKey \<and>
         (\<exists>q. lp_remove_key p key = Ok q \<and> leaf_ok q \<and> leaf_map q = (leaf_map p)(key := None)))"
  using lp_insert_live [OF assms] lp_remove_live [OF assms(1), of key] by (auto simp: lp_get_live [OF assms(1)] split: option.splits)

text \<open>A leaf with one tombstone and no room for another.\<close>

definition sample_leaf :: LeafPage where
  "sample_leaf = \<lparr>lp_layout = \<lparr>max_key_len = 8, tombstone_capacity = 1\<rparr>,
     lp_entries = [([1], \<lparr>page_id = PageId 3, slot_id = 4\<rparr>), ([2], \<lparr>page_id = PageId 5, slot_id = 6\<rparr>)],
     lp_next_leaf_id = Some (PageId 9), lp_tombstones = [0]\<rparr>"

lemma sample_leaf_stored: "leaf_stored sample_leaf" "leaf_ok sample_leaf"
  "lp_layout sample_leaf = \<lparr>max_key_len = 8, tombstone_capacity = 1\<rparr>" "length (lp_entries sample_leaf) = 2"
  by (simp_all add: sample_leaf_def leaf_stored_def leaf_ok_def layout_ok_def lp_keys_def lp_is_overfull_def lp_used_bytes_def lp_cost_def
      entry_costs capacities PAGE_SIZE_def leaf_max_entry_bytes_def internal_max_entry_bytes_def valid_page_id_def less_eq_PageId_def PageId_MAX_def)

lemma sample_leaf_map: "leaf_map sample_leaf = [[2] \<mapsto> \<lparr>page_id = PageId 5, slot_id = 6\<rparr>]"
  by (simp add: sample_leaf_def leaf_map_def live_list_def dead_slots_def)

lemma sample_leaf_revive:
  "lp_insert sample_leaf [1] \<lparr>page_id = PageId 7, slot_id = 8\<rparr> = Ok (revived sample_leaf [([1], \<lparr>page_id = PageId 7, slot_id = 8\<rparr>), ([2], \<lparr>page_id = PageId 5, slot_id = 6\<rparr>)] 0)"
  "\<not> lp_is_overfull (revived sample_leaf [([1], \<lparr>page_id = PageId 7, slot_id = 8\<rparr>), ([2], \<lparr>page_id = PageId 5, slot_id = 6\<rparr>)] 0)"
proof -
  show "lp_insert sample_leaf [1] \<lparr>page_id = PageId 7, slot_id = 8\<rparr> = Ok (revived sample_leaf [([1], \<lparr>page_id = PageId 7, slot_id = 8\<rparr>), ([2], \<lparr>page_id = PageId 5, slot_id = 6\<rparr>)] 0)"
    by (rule lp_insert_dead [of sample_leaf "[]" _ _ "[([2], \<lparr>page_id = PageId 5, slot_id = 6\<rparr>)]", simplified])
      (simp_all add: sample_leaf_stored(2), simp_all add: sample_leaf_def lp_search_def slice_partition_point_def dead_slots_def
        valid_page_id_def less_eq_PageId_def PageId_MAX_def)
  show "\<not> lp_is_overfull (revived sample_leaf [([1], \<lparr>page_id = PageId 7, slot_id = 8\<rparr>), ([2], \<lparr>page_id = PageId 5, slot_id = 6\<rparr>)] 0)"
    by (simp add: revived_def sample_leaf_def lp_is_overfull_def lp_used_bytes_def lp_cost_def lp_keys_def entry_costs capacities PAGE_SIZE_def)
qed

theorem leaf_is_map_witness:
  "lp_get sample_leaf [2] = Ok (Some \<lparr>page_id = PageId 5, slot_id = 6\<rparr>) \<and> lp_insert sample_leaf [2] \<lparr>page_id = PageId 7, slot_id = 8\<rparr> = Err DuplicateKey \<and>
    (\<exists>q. lp_remove_key sample_leaf [2] = Ok q \<and> leaf_map q = Map.empty)"
proof -
  have "valid_page_id (PageId 7)" by (simp add: valid_page_id_def less_eq_PageId_def PageId_MAX_def)
  from leaf_is_map [OF sample_leaf_stored(2), of "[2]" "\<lparr>page_id = PageId 7, slot_id = 8\<rparr>"] this show ?thesis
    by (auto simp: sample_leaf_stored sample_leaf_map)
qed

text \<open>C27. Decoding the bytes a leaf page is encoded to gives the page back, its link and its tombstones in the order they were made included.\<close>

theorem leaf_codec:
  assumes "leaf_stored p" "length buf = PAGE_SIZE"
  shows "\<exists>b. lp_encode p buf = Ok b \<and> length b = PAGE_SIZE \<and> lp_decode b (lp_layout p) = Ok p"
  using lp_encode_page [OF assms] leaf_bytes_head(2) [OF assms(1)] lp_decode_page [OF assms(1)] by auto

theorem leaf_codec_witness:
  "\<exists>b. lp_encode sample_leaf (replicate PAGE_SIZE 255) = Ok b \<and> lp_decode b \<lparr>max_key_len = 8, tombstone_capacity = 1\<rparr> = Ok sample_leaf"
  using leaf_codec [OF sample_leaf_stored(1), of "replicate PAGE_SIZE 255"] by (auto simp: sample_leaf_stored)

text \<open>C28. The view of a leaf's bytes answers as the decoded page does, and when it changes the bytes in place they become, byte for byte, the
  encoding of the page the operation on the decoded page returns; it reports \<open>Full\<close> exactly when that page would not fit.\<close>

theorem leaf_view_exact:
  assumes "leaf_stored p" "length key \<le> max_key_len (lp_layout p)" "valid_page_id (page_id rid)" "length buf = PAGE_SIZE"
  shows "\<exists>v. bindR (lp_encode p buf) (\<lambda>b. lv_new b (lp_layout p)) = Ok v \<and> lv_get v key = lp_get p key \<and>
    lv_insert v key rid =
      (case lp_insert p key rid of
         Ok q \<Rightarrow> (if lp_is_overfull q then Err Full else mapR (\<lambda>b. v\<lparr>v_buf := b\<rparr>) (map_err (\<lambda>_. Full) (lp_encode q buf)))
       | Err _ \<Rightarrow> Err LeafDuplicateKey | Panic \<Rightarrow> Panic) \<and>
    lv_remove_key v key =
      (case lp_remove_key p key of
         Ok q \<Rightarrow> mapR (\<lambda>b. v\<lparr>v_buf := b\<rparr>) (map_err (\<lambda>_. KeyNotFound) (lp_encode q buf)) | Err e \<Rightarrow> Err e | Panic \<Rightarrow> Panic)"
proof -
  note st = assms(1)
  have up: "mapR (\<lambda>b. lview p\<lparr>v_buf := b\<rparr>) (map_err f (lp_encode q buf)) = Ok (lview q)" if "leaf_stored q" "lp_layout q = lp_layout p" for q f
    using that by (simp add: lp_encode_page [OF that(1) assms(4)]) (simp add: lview_def)
  have ins: "leaf_stored q \<and> lp_layout q = lp_layout p" if "lp_insert p key rid = Ok q" "\<not> lp_is_overfull q" for q
    using lm.put_Ok(3) [OF st _ that(1)] lp_insert_keeps [OF that(1)] that(2) assms(2,3) by (simp add: leaf_allowed_def leaf_fit_def)
  have rem: "leaf_stored q \<and> lp_layout q = lp_layout p" if "lp_remove_key p key = Ok q" for q
    by (rule lp_remove_used [OF st that])
  show ?thesis
    by (rule exI [of _ "lview p"])
      (auto simp: lp_encode_page [OF st assms(4)] lv_new_page [OF st] lv_get_page [OF st] lv_insert_page [OF st assms(2,3)] lv_remove_page [OF st] up
        dest: ins rem split: result.splits)
qed

theorem leaf_view_exact_witness:
  "\<exists>v w. bindR (lp_encode sample_leaf (replicate PAGE_SIZE 0)) (\<lambda>b. lv_new b \<lparr>max_key_len = 8, tombstone_capacity = 1\<rparr>) = Ok v \<and>
    lv_get v [1] = Ok None \<and> lv_insert v [1] \<lparr>page_id = PageId 7, slot_id = 8\<rparr> = Ok w"
proof -
  let ?rid = "\<lparr>page_id = PageId 7, slot_id = 8\<rparr>"
  have v: "valid_page_id (page_id ?rid)" by (simp add: valid_page_id_def less_eq_PageId_def PageId_MAX_def)
  have k: "length [1 :: byte] \<le> max_key_len (lp_layout sample_leaf)" by (simp add: sample_leaf_stored)
  let ?q = "revived sample_leaf [([1], ?rid), ([2], \<lparr>page_id = PageId 5, slot_id = 6\<rparr>)] 0"
  note i = sample_leaf_revive(1)
  have "leaf_stored ?q" using lm.put_Ok(3) [OF sample_leaf_stored(1) _ i] sample_leaf_revive(2) v k by (simp add: leaf_allowed_def leaf_fit_def)
  moreover have "lp_get sample_leaf [1] = (Ok None :: (PageCodecError, _) result)" by (simp add: lm.get_contents [OF sample_leaf_stored(1)] sample_leaf_map)
  ultimately show ?thesis
    using leaf_view_exact [OF sample_leaf_stored(1) k v, of "replicate PAGE_SIZE 0"] lp_encode_page [of ?q "replicate PAGE_SIZE 0"]
    by (auto simp: sample_leaf_stored i sample_leaf_revive(2))
qed

text \<open>C29. A view that was opened on a sound leaf stays one whatever is inserted and removed in place. After an insert the key is found with its
  record id and every other key as before, the key is refused a second time, and removing it makes every lookup answer as before the insert.\<close>

theorem leaf_view_map:
  assumes "view_ok v" "view_allowed v key rid" "lv_insert v key rid = Ok w"
  shows "view_ok w \<and> (\<forall>k. lv_get w k = (if k = key then Ok (Some rid) else lv_get v k)) \<and> lv_insert w key rid = Err LeafDuplicateKey \<and>
    (\<exists>u. lv_remove_key w key = Ok u \<and> view_ok u \<and> (\<forall>k. lv_get u k = lv_get v k))"
  using vm.put_Ok(3) [OF assms] vm.get_after_put [OF assms] vm.put_after_put [OF assms _ assms(2)] vm.del_after_put [OF assms] by simp

theorem leaf_view_map_witness:
  "\<exists>w u. lv_insert (lview sample_leaf) [1] \<lparr>page_id = PageId 7, slot_id = 8\<rparr> = Ok w \<and> lv_get w [1] = Ok (Some \<lparr>page_id = PageId 7, slot_id = 8\<rparr>) \<and>
    lv_remove_key w [1] = Ok u \<and> lv_get u [1] = Ok None"
proof -
  let ?rid = "\<lparr>page_id = PageId 7, slot_id = 8\<rparr>" and ?v = "lview sample_leaf"
  have v: "valid_page_id (page_id ?rid)" by (simp add: valid_page_id_def less_eq_PageId_def PageId_MAX_def)
  let ?q = "revived sample_leaf [([1], ?rid), ([2], \<lparr>page_id = PageId 5, slot_id = 6\<rparr>)] 0"
  have i: "lv_insert ?v [1] ?rid = Ok (lview ?q)"
    using lv_insert_page [OF sample_leaf_stored(1), of "[1]" ?rid] v by (simp add: sample_leaf_stored sample_leaf_revive)
  have "lv_get ?v [1] = Ok None" by (simp add: lm.get_contents [OF sample_leaf_stored(1)] lv_get_page [OF sample_leaf_stored(1)] sample_leaf_map)
  with leaf_view_map [OF view_ok_lview(1) [OF sample_leaf_stored(1)] _ i] v i show ?thesis
    by (auto simp: view_allowed_lview leaf_allowed_def sample_leaf_stored)
qed

end
