(* ===== verification/Leaf_Split.thy ===== *)
theory Leaf_Split
  imports Leaf_Map
begin

text \<open>
  Splitting and merging leaves: nothing is lost, and the pages that result are neither overfull nor underfull.
\<close>


section \<open>Splitting a leaf\<close>

abbreviation leaf_costs :: "(IndexKey \<times> RecordId) list \<Rightarrow> nat list" where
  "leaf_costs es \<equiv> map (\<lambda>e. length (fst e) + 18) es"

lemma lp_costs: "map (lp_cost p) (lp_keys p) = leaf_costs (lp_entries p)" "lp_used_bytes p = sum_list (leaf_costs (lp_entries p))"
  by (simp_all add: lp_used_bytes_def lp_cost_def [abs_def] entry_costs lp_keys_def comp_def)

lemma leaf_split_parts:
  assumes ok: "entries_ok L es" and L: "layout_ok L" and used: "area_capacity (leaf_area L) < sum_list (leaf_costs es)"
    "sum_list (leaf_costs es) \<le> area_capacity (leaf_area L) + leaf_max_entry_bytes L" and mid: "mid = balanced_split (leaf_costs es) False"
  shows "0 < mid" "mid < length es" "2 \<le> length es" "sum_list (leaf_costs (take mid es)) \<le> area_capacity (leaf_area L)"
    "sum_list (leaf_costs (drop mid es)) \<le> area_capacity (leaf_area L)"
    "leaf_min_used L \<le> sum_list (leaf_costs (take mid es))" "leaf_min_used L \<le> sum_list (leaf_costs (drop mid es))"
proof -
  let ?cs = "leaf_costs es" and ?m = "leaf_max_entry_bytes L" and ?cap = "area_capacity (leaf_area L)"
  have m: "4 * ?m \<le> ?cap" "?cap \<le> 8192" using L by (simp_all add: layout_ok_def capacities PAGE_SIZE_def)
  have bound: "\<And>c. c \<in> set ?cs \<Longrightarrow> c \<le> ?m" using ok by (auto simp: entries_ok_def leaf_max_entry_bytes_def entry_costs)
  have "sum_list ?cs \<le> length es * ?m" using sum_list_mono [of es "\<lambda>e. length (fst e) + 18" "\<lambda>_. ?m"] bound by (simp add: sum_list_triv)
  then have "3 * ?m < length es * ?m" using used(1) m(1) by linarith
  then have "3 < length es" by (rule mult_less_cancel2 [THEN iffD1, THEN conjunct2])
  then show n: "2 \<le> length es" by simp
  have small: "sum_list ?cs < 2 ^ 64 - 1" using used(2) m by simp
  have n2: "2 \<le> length ?cs" using n by simp
  note sides = balanced_split_sides [OF n2 small bound mid]
  show "0 < mid" "mid < length es" using sides(1,2) by simp_all
  have l: "left_bytes ?cs mid = sum_list (leaf_costs (take mid es))" "sum_list (drop mid ?cs) = sum_list (leaf_costs (drop mid es))"
    by (simp_all add: left_bytes_def take_map drop_map)
  show "sum_list (leaf_costs (take mid es)) \<le> ?cap" "sum_list (leaf_costs (drop mid es)) \<le> ?cap"
    "leaf_min_used L \<le> sum_list (leaf_costs (take mid es))" "leaf_min_used L \<le> sum_list (leaf_costs (drop mid es))"
    using sides(3-5) used m unfolding l leaf_min_used_def by linarith+
qed

lemma split_tombstones:
  assumes "slots_ok c n (map unat ts)" "mid \<le> n" "n < 2 ^ 32"
  shows "slots_ok c mid (map unat (filter (\<lambda>s :: u32. s < word_of_nat mid) ts))"
    "slots_ok c (n - mid) (map unat (map (\<lambda>s. s - word_of_nat mid) (filter (\<lambda>s :: u32. \<not> s < word_of_nat mid) ts)))"
    "unat ` set (filter (\<lambda>s :: u32. s < word_of_nat mid) ts) = {j \<in> unat ` set ts. j < mid}"
    "unat ` set (map (\<lambda>s. s - word_of_nat mid) (filter (\<lambda>s :: u32. \<not> s < word_of_nat mid) ts)) = (\<lambda>j. j - mid) ` {j \<in> unat ` set ts. mid \<le> j}"
proof -
  have m: "unat (word_of_nat mid :: u32) = mid" using assms(2,3) by (intro unat_slot) simp
  have lt: "s < word_of_nat mid \<longleftrightarrow> unat s < mid" for s :: u32 by (simp add: word_less_nat_alt m)
  have sub: "unat (s - word_of_nat mid) = unat s - mid" if "\<not> unat s < mid" for s :: u32
    using that by (subst unat_sub) (simp_all add: word_le_nat_alt m)
  have r: "map unat (map (\<lambda>s. s - word_of_nat mid) (filter (\<lambda>s :: u32. \<not> s < word_of_nat mid) ts)) = map (\<lambda>j. j - mid) (filter (\<lambda>j. mid \<le> j) (map unat ts))"
    by (induction ts) (auto simp: lt sub)
  have l: "map unat (filter (\<lambda>s :: u32. s < word_of_nat mid) ts) = filter (\<lambda>j. j < mid) (map unat ts)"
    by (induction ts) (auto simp: lt)
  have flen: "length (filter P (map unat ts)) \<le> c" for P using assms(1) le_trans [OF length_filter_le [of P "map unat ts"], of c] by (simp add: slots_ok_def)
  show "slots_ok c mid (map unat (filter (\<lambda>s :: u32. s < word_of_nat mid) ts))"
    using assms(1) flen unfolding l by (simp add: slots_ok_def)
  show "slots_ok c (n - mid) (map unat (map (\<lambda>s. s - word_of_nat mid) (filter (\<lambda>s :: u32. \<not> s < word_of_nat mid) ts)))"
    using assms(1,2) flen unfolding r by (auto simp: slots_ok_def distinct_map inj_on_def)
  show "unat ` set (filter (\<lambda>s :: u32. s < word_of_nat mid) ts) = {j \<in> unat ` set ts. j < mid}" by (auto simp: lt)
  show "unat ` set (map (\<lambda>s. s - word_of_nat mid) (filter (\<lambda>s :: u32. \<not> s < word_of_nat mid) ts)) = (\<lambda>j. j - mid) ` {j \<in> unat ` set ts. mid \<le> j}"
    using arg_cong [OF r, of set] by (auto simp: image_image)
qed

lemma alive_split:
  assumes "mid \<le> length es"
  shows "alive D 0 es = alive {j \<in> D. j < mid} 0 (take mid es) @ alive ((\<lambda>j. j - mid) ` {j \<in> D. mid \<le> j}) 0 (drop mid es)"
proof -
  have "alive D 0 es = alive D 0 (take mid es) @ alive D mid (drop mid es)"
    using alive_append [of D 0 "take mid es" "drop mid es"] assms by simp
  moreover have "alive D 0 (take mid es) = alive {j \<in> D. j < mid} 0 (take mid es)" by (rule alive_cong) auto
  moreover have "alive D mid (drop mid es) = alive ((\<lambda>j. j - mid) ` {j \<in> D. mid \<le> j}) 0 (drop mid es)"
    by (rule alive_cong) (auto simp: image_iff intro!: bexI [of _ "mid + j" for j])
  ultimately show ?thesis by simp
qed

lemma entries_ok_split: "entries_ok L es \<Longrightarrow> entries_ok L (take n es) \<and> entries_ok L (drop n es)"
  by (auto simp: entries_ok_def sorted_wrt_take sorted_wrt_drop simp flip: take_map drop_map dest: in_set_takeD in_set_dropD)

lemma lp_split_ok:
  assumes ok: "leaf_ok p" and L: "layout_ok (lp_layout p)" and over: "lp_is_overfull p"
    and used: "lp_used_bytes p \<le> area_capacity (leaf_area (lp_layout p)) + leaf_max_entry_bytes (lp_layout p)"
  shows "\<exists>sep l r. lp_split_into p (LeafPage_new (lp_layout p)) pid = (Ok (sep, l, r) :: ('e, _) result) \<and> leaf_ok l \<and> leaf_ok r \<and>
    lp_entries p = lp_entries l @ lp_entries r \<and> live_list p = live_list l @ live_list r \<and> first_key r = Some sep \<and>
    lp_next_leaf_id l = Some pid \<and> lp_next_leaf_id r = lp_next_leaf_id p \<and>
    \<not> lp_is_overfull l \<and> \<not> lp_is_overfull r \<and> \<not> lp_is_underfull l \<and> \<not> lp_is_underfull r"
proof -
  let ?es = "lp_entries p" and ?L = "lp_layout p" and ?ts = "lp_tombstones p"
  define mid where "mid = balanced_split (leaf_costs ?es) False"
  have e: "entries_ok ?L ?es" "slots_ok (tombstone_capacity ?L) (length ?es) (map unat ?ts)" using ok by (simp_all add: leaf_ok_iff)
  have parts: "0 < mid" "mid < length ?es" "2 \<le> length ?es" "sum_list (leaf_costs (take mid ?es)) \<le> area_capacity (leaf_area ?L)"
    "sum_list (leaf_costs (drop mid ?es)) \<le> area_capacity (leaf_area ?L)"
    "leaf_min_used ?L \<le> sum_list (leaf_costs (take mid ?es))" "leaf_min_used ?L \<le> sum_list (leaf_costs (drop mid ?es))"
    using leaf_split_parts [OF e(1) L _ _ mid_def] over used by (simp_all add: lp_is_overfull_def lp_costs)
  have n: "length ?es < 2 ^ 32" using e(1) by (simp add: entries_ok_def)
  define lt rt where "lt = filter (\<lambda>s. s < word_of_nat mid) ?ts" and "rt = map (\<lambda>s. s - word_of_nat mid) (filter (\<lambda>s. \<not> s < word_of_nat mid) ?ts)"
  define l r where "l = p\<lparr>lp_entries := take mid ?es, lp_tombstones := lt, lp_next_leaf_id := Some pid\<rparr>"
    and "r = LeafPage_new ?L\<lparr>lp_entries := drop mid ?es, lp_tombstones := rt, lp_next_leaf_id := lp_next_leaf_id p\<rparr>"
  note t = split_tombstones [OF e(2) less_imp_le [OF parts(2)] n, folded lt_def rt_def]
  have oks: "leaf_ok l" "leaf_ok r" using t(1,2) entries_ok_split [OF e(1), of mid] parts(2) by (simp_all add: leaf_ok_iff l_def r_def LeafPage_new_def)
  have live: "live_list p = live_list l @ live_list r"
    using alive_split [OF less_imp_le [OF parts(2)], of "dead_slots p"] t(3,4) by (simp add: live_list_def dead_slots_def l_def r_def)
  have costs: "balanced_split (map (lp_cost p) (lp_keys p)) False = mid" by (simp add: lp_costs mid_def)
  have slot: "leaf_slot mid = (Ok (word_of_nat mid) :: ('e, _) result)" using n parts(2) by (intro leaf_slot_ok) simp
  have "lp_split_into p (LeafPage_new ?L) pid = (Ok (fst (hd (drop mid ?es)), l, r) :: ('e, _) result)"
    unfolding lp_split_into_def costs Let_def slot using parts(2,3)
    by (simp add: assertR_def leaf_ok_debug [OF ok] vec_split_off_def index_get_def hd_drop_conv_nth LeafPage_new_def)
      (simp add: leaf_ok_debug [OF oks(1)] leaf_ok_debug [OF oks(2)] flip: lt_def rt_def l_def r_def [unfolded LeafPage_new_def, simplified])
  moreover have "first_key r = Some (fst (hd (drop mid ?es)))" using parts(2) by (simp add: first_key_def vec_first_def r_def)
  ultimately show ?thesis using oks live parts(4-7)
    by (intro exI conjI) (assumption | simp add: l_def r_def lp_is_overfull_def lp_is_underfull_def lp_costs LeafPage_new_def)+
qed

section \<open>Merging leaves\<close>

text \<open>While leaves merge, the page may hold more tombstones than it keeps: the invariant for a larger capacity.\<close>

definition leaf_ok_upto :: "nat \<Rightarrow> LeafPage \<Rightarrow> bool" where
  "leaf_ok_upto c p \<longleftrightarrow> leaf_ok (p\<lparr>lp_layout := lp_layout p\<lparr>tombstone_capacity := c\<rparr>\<rparr>)"

lemma leaf_ok_upto_iff: "leaf_ok_upto c p \<longleftrightarrow> entries_ok (lp_layout p) (lp_entries p) \<and> slots_ok c (length (lp_entries p)) (map unat (lp_tombstones p))"
  by (simp add: leaf_ok_upto_def leaf_ok_iff entries_ok_def)

lemma live_list_cong: "lp_entries p = lp_entries q \<Longrightarrow> lp_tombstones p = lp_tombstones q \<Longrightarrow> live_list p = live_list q"
  by (simp add: live_list_def dead_slots_def)

lemma purge_upto:
  assumes ok: "leaf_ok_upto c p" and ts: "lp_tombstones p = o1 # ts"
  shows "\<exists>q. purge_oldest_tombstone p = (Ok (o1, q) :: ('e, _) result) \<and> leaf_ok_upto c q \<and> live_list q = live_list p \<and> lp_layout q = lp_layout p \<and>
    lp_next_leaf_id q = lp_next_leaf_id p"
proof -
  let ?p = "p\<lparr>lp_layout := lp_layout p\<lparr>tombstone_capacity := c\<rparr>, lp_tombstones := ts\<rparr>" and ?o = "unat o1" and ?es = "lp_entries p"
  have o: "?o < length ?es" "?o \<in> dead_slots p" using ok ts by (auto simp: leaf_ok_upto_iff slots_ok_def dead_slots_def)
  have p1: "leaf_ok ?p" using ok ts by (auto simp: leaf_ok_upto_iff leaf_ok_iff slots_ok_def entries_ok_def)
  have dp: "dead_slots ?p = dead_slots p - {?o}" using ok ts by (auto simp: dead_slots_def leaf_ok_upto_iff slots_ok_def unat_inj)
  define us e vs where "us = take ?o ?es" and "e = ?es ! ?o" and "vs = drop (Suc ?o) ?es"
  have split: "?es = us @ e # vs" "length us = ?o" using id_take_nth_drop [OF o(1)] o(1) by (simp_all add: us_def e_def vs_def)
  have s1: "lp_entries ?p = us @ e # vs" "?o = length us" using split by simp_all
  let ?q' = "adjust_tombstones_after_remove (?p\<lparr>lp_entries := us @ vs\<rparr>) o1"
  define q where "q = adjust_tombstones_after_remove (p\<lparr>lp_tombstones := ts, lp_entries := us @ vs\<rparr>) o1"
  note r = physical_remove_ok [OF p1 s1]
  have "lp_physical_remove_at (p\<lparr>lp_tombstones := ts\<rparr>) o1 = (Ok q :: ('e, _) result)"
    using o(1) by (simp add: lp_physical_remove_at_def vec_remove_def us_def vs_def q_def)
  then have "purge_oldest_tombstone p = (Ok (o1, q) :: ('e, _) result)" by (simp add: purge_oldest_tombstone_def ts)
  moreover have "leaf_ok_upto c q" using r(2) by (simp add: leaf_ok_upto_iff leaf_ok_iff entries_ok_def q_def adjust_tombstones_after_remove_def)
  moreover have "live_list q = live_list p"
  proof -
    have "live_list q = live_list ?q'" by (rule live_list_cong) (simp_all add: q_def adjust_tombstones_after_remove_def)
    moreover have "live_list p = alive (dead_slots p) 0 us @ alive (dead_slots p) (Suc (length us)) vs"
      using o(2) split(2) by (simp add: live_list_def split(1) alive_append)
    moreover have "alive (dead_slots p - {?o}) 0 us = alive (dead_slots p) 0 us"
      "alive (dead_slots p - {?o}) (Suc (length us)) vs = alive (dead_slots p) (Suc (length us)) vs"
      by (rule alive_cong, simp add: split(2))+
    ultimately show ?thesis using r(4) by (simp add: dp)
  qed
  moreover have "lp_layout q = lp_layout p" "lp_next_leaf_id q = lp_next_leaf_id p" by (simp_all add: q_def adjust_tombstones_after_remove_def)
  ultimately show ?thesis by (intro exI [of _ q] conjI)
qed

lemma purge_excess_ok:
  assumes "leaf_ok_upto c p"
  shows "\<exists>q. purge_excess p = (Ok q :: ('e, _) result) \<and> leaf_ok q \<and> live_list q = live_list p \<and> lp_layout q = lp_layout p \<and>
    lp_next_leaf_id q = lp_next_leaf_id p \<and> lp_used_bytes q \<le> lp_used_bytes p"
  using assms
proof (induction "length (lp_tombstones p)" arbitrary: p rule: less_induct)
  case less
  show ?case
  proof (cases "length (lp_tombstones p) > tombstone_capacity (lp_layout p)")
    case False
    then have "leaf_ok p" using less.prems by (simp add: leaf_ok_upto_iff leaf_ok_iff slots_ok_def)
    then show ?thesis using False by (subst purge_excess.simps) simp
  next
    case True
    then obtain o1 ts where ts: "lp_tombstones p = o1 # ts" by (cases "lp_tombstones p") auto
    from purge_upto [OF less.prems ts, where 'e = 'e] obtain p' where
      p': "purge_oldest_tombstone p = (Ok (o1, p') :: ('e, _) result)" "leaf_ok_upto c p'" "live_list p' = live_list p" "lp_layout p' = lp_layout p"
        "lp_next_leaf_id p' = lp_next_leaf_id p" by blast
    from less.hyps [OF purge_oldest_shrinks [OF p'(1)] p'(2)] obtain q where
      q: "purge_excess p' = (Ok q :: ('e, _) result)" "leaf_ok q" "live_list q = live_list p'" "lp_layout q = lp_layout p'"
        "lp_next_leaf_id q = lp_next_leaf_id p'" "lp_used_bytes q \<le> lp_used_bytes p'" by blast
    have "purge_excess p = (Ok q :: ('e, _) result)" using True by (subst purge_excess.simps) (simp add: p'(1) q(1))
    then show ?thesis using q p' purge_used [OF p'(1)] by auto
  qed
qed

lemma shift_tombstones:
  assumes "\<forall>s \<in> set ts. unat (s :: u32) < m" "n + m < 2 ^ 32"
  shows "traverseR (\<lambda>s. expectR (checked_add s (word_of_nat n))) ts = Ok (map (\<lambda>s. s + word_of_nat n) ts)"
    "map unat (map (\<lambda>s. s + word_of_nat n) ts) = map (\<lambda>j. j + n) (map unat ts)"
proof -
  have u: "unat (word_of_nat n :: u32) = n" using assms(2) by (intro unat_slot) simp
  have b: "unat s + unat (word_of_nat n :: u32) < 2 ^ 32" if "s \<in> set ts" for s using assms that unfolding u by fastforce
  show "traverseR (\<lambda>s. expectR (checked_add s (word_of_nat n))) ts = Ok (map (\<lambda>s. s + word_of_nat n) ts)"
    using b by (induction ts) (simp_all add: checked_add_def)
  show "map unat (map (\<lambda>s. s + word_of_nat n) ts) = map (\<lambda>j. j + n) (map unat ts)"
    using b u by (simp add: unat_add_lem [THEN iffD1])
qed

lemma slots_ok_merge:
  assumes "slots_ok c n js" "slots_ok d m ks"
  shows "slots_ok (length js + length ks) (n + m) (js @ map (\<lambda>j. j + n) ks)"
proof -
  have "inj_on (\<lambda>j. j + n) (set ks)" by simp
  then show ?thesis using assms by (fastforce simp: slots_ok_def distinct_map)
qed

lemma lp_absorb_ok:
  assumes ok: "leaf_ok p" "leaf_ok right" and L: "lp_layout right = lp_layout p" and keys: "sorted_wrt (<) (lp_keys p @ lp_keys right)"
    and n: "length (lp_entries p) + length (lp_entries right) < 2 ^ 32"
  shows "\<exists>q. lp_absorb_right p right = (Ok (q, right\<lparr>lp_entries := [], lp_tombstones := []\<rparr>) :: ('e, _) result) \<and> leaf_ok q \<and>
    live_list q = live_list p @ live_list right \<and> lp_layout q = lp_layout p \<and> lp_next_leaf_id q = lp_next_leaf_id right \<and>
    lp_used_bytes q \<le> lp_used_bytes p + lp_used_bytes right"
proof -
  let ?n = "length (lp_entries p)" and ?ts = "lp_tombstones right"
  have tr: "\<forall>s \<in> set ?ts. unat s < length (lp_entries right)" using ok(2) by (simp add: leaf_ok_def)
  note sh = shift_tombstones [OF tr n]
  define ts where "ts = map (\<lambda>s. s + word_of_nat ?n) ?ts"
  define m where "m = p\<lparr>lp_entries := lp_entries p @ lp_entries right, lp_next_leaf_id := lp_next_leaf_id right, lp_tombstones := lp_tombstones p @ ts\<rparr>"
  have u: "map unat ts = map (\<lambda>j. j + ?n) (map unat ?ts)" unfolding ts_def by (rule sh(2))
  have up: "leaf_ok_upto (length (lp_tombstones p) + length ts) m"
  proof -
    have "entries_ok (lp_layout p) (lp_entries m)"
      using ok keys n by (auto simp: leaf_ok_iff entries_ok_def m_def L lp_keys_def)
    moreover have "slots_ok (length (lp_tombstones p) + length ts) (length (lp_entries m)) (map unat (lp_tombstones m))"
    proof -
      have "slots_ok (tombstone_capacity (lp_layout p)) ?n (map unat (lp_tombstones p))"
        "slots_ok (tombstone_capacity (lp_layout p)) (length (lp_entries right)) (map unat ?ts)" using ok L by (simp_all add: leaf_ok_iff)
      from slots_ok_merge [OF this] show ?thesis unfolding u [symmetric] by (simp add: m_def ts_def)
    qed
    ultimately show ?thesis by (simp add: leaf_ok_upto_iff m_def)
  qed
  have live: "live_list m = live_list p @ live_list right"
  proof -
    have d: "dead_slots m = dead_slots p \<union> (\<lambda>j. j + ?n) ` dead_slots right"
      using arg_cong [OF u, of set] by (auto simp: dead_slots_def m_def image_Un image_image)
    have "alive (dead_slots m) 0 (lp_entries p) = live_list p" unfolding live_list_def by (rule alive_cong) (auto simp: d)
    moreover have "alive (dead_slots m) ?n (lp_entries right) = live_list right"
    proof -
      have "\<forall>j \<in> dead_slots p. j < ?n" using ok(1) by (auto simp: dead_slots_def leaf_ok_def)
      then show ?thesis unfolding live_list_def by (intro alive_cong) (auto simp: d)
    qed
    moreover have "lp_entries m = lp_entries p @ lp_entries right" by (simp add: m_def)
    ultimately show ?thesis by (simp add: live_list_def [of m] alive_append)
  qed
  from purge_excess_ok [OF up, where 'e = 'e] obtain q where
    q: "purge_excess m = (Ok q :: ('e, _) result)" "leaf_ok q" "live_list q = live_list m" "lp_layout q = lp_layout m"
      "lp_next_leaf_id q = lp_next_leaf_id m" "lp_used_bytes q \<le> lp_used_bytes m" by blast
  have "leaf_slot ?n = (Ok (word_of_nat ?n) :: ('e, _) result)" using n by (intro leaf_slot_ok) simp
  then have "lp_absorb_right p right = (Ok (q, right\<lparr>lp_entries := [], lp_tombstones := []\<rparr>) :: ('e, _) result)"
    unfolding lp_absorb_right_def Let_def using q(1,2)
    by (simp add: leaf_ok_debug [OF ok(1)] leaf_ok_debug [OF ok(2)] sh(1) leaf_ok_debug flip: ts_def m_def)
  moreover have "lp_used_bytes m = lp_used_bytes p + lp_used_bytes right" by (simp add: lp_costs m_def)
  ultimately show ?thesis using q live by (intro exI [of _ q]) (simp add: m_def)
qed

lemma lp_cannot_lend:
  assumes "\<not> lp_can_lend p edge" "leaf_ok p"
  shows "lp_used_bytes p < leaf_min_used (lp_layout p) + leaf_max_entry_bytes (lp_layout p)"
proof (cases "lp_entries p = []")
  case True
  then show ?thesis by (simp add: lp_costs leaf_max_entry_bytes_def entry_costs)
next
  case False
  obtain e where e: "e \<in> set (lp_entries p)" "lp_used_bytes p - lp_cost p (fst e) < leaf_min_used (lp_layout p)"
    using assms(1) False hd_in_set [OF False] last_in_set [OF False]
    by (cases edge) (fastforce simp: lp_can_lend_def vec_first_def vec_last_def not_le split: prod.splits)+
  have "lp_cost p (fst e) \<le> leaf_max_entry_bytes (lp_layout p)"
    using assms(2) e(1) by (auto simp: leaf_ok_iff entries_ok_def lp_cost_def leaf_max_entry_bytes_def entry_costs)
  then show ?thesis using e(2) by simp
qed

section \<open>Properties\<close>

text \<open>C30. A leaf with one entry too many, at most, splits into two leaves that are neither overfull nor underfull; together they hold its
  entries, and its live entries, in order, the separator is the first key of the right leaf, and the leaves are linked left to right.\<close>

theorem leaf_split:
  assumes "leaf_ok p" "layout_ok (lp_layout p)" "lp_is_overfull p"
    and "lp_used_bytes p \<le> area_capacity (leaf_area (lp_layout p)) + leaf_max_entry_bytes (lp_layout p)"
  shows "\<exists>sep l r. lp_split_into p (LeafPage_new (lp_layout p)) pid = (Ok (sep, l, r) :: ('e, _) result) \<and> leaf_ok l \<and> leaf_ok r \<and>
    lp_entries p = lp_entries l @ lp_entries r \<and> live_list p = live_list l @ live_list r \<and> first_key r = Some sep \<and>
    lp_next_leaf_id l = Some pid \<and> lp_next_leaf_id r = lp_next_leaf_id p \<and>
    \<not> lp_is_overfull l \<and> \<not> lp_is_overfull r \<and> \<not> lp_is_underfull l \<and> \<not> lp_is_underfull r"
  by (rule lp_split_ok [OF assms])

definition full_leaf :: LeafPage where
  "full_leaf = \<lparr>lp_layout = \<lparr>max_key_len = 2007, tombstone_capacity = 16\<rparr>,
     lp_entries = map (\<lambda>b. (replicate 2000 b, \<lparr>page_id = PageId 3, slot_id = 4\<rparr>)) [1, 2, 3, 4, 5], lp_next_leaf_id = None, lp_tombstones = [3]\<rparr>"

theorem leaf_split_witness:
  "\<exists>sep l r. lp_split_into full_leaf (LeafPage_new \<lparr>max_key_len = 2007, tombstone_capacity = 16\<rparr>) (PageId 9) = (Ok (sep, l, r) :: (unit, _) result) \<and>
    live_list full_leaf = live_list l @ live_list r \<and> \<not> lp_is_overfull l"
proof -
  have u: "lp_used_bytes full_leaf = 10090" by (simp add: full_leaf_def lp_costs)
  have L: "lp_layout full_leaf = \<lparr>max_key_len = 2007, tombstone_capacity = 16\<rparr>" by (simp add: full_leaf_def)
  have 1: "leaf_ok full_leaf"
    by (simp add: full_leaf_def leaf_ok_def lp_keys_def valid_page_id_def less_eq_PageId_def PageId_MAX_def)
  have 2: "layout_ok (lp_layout full_leaf)"
    by (simp add: L layout_ok_def leaf_max_entry_bytes_def internal_max_entry_bytes_def entry_costs capacities PAGE_SIZE_def)
  have 3: "lp_is_overfull full_leaf" "lp_used_bytes full_leaf \<le> area_capacity (leaf_area (lp_layout full_leaf)) + leaf_max_entry_bytes (lp_layout full_leaf)"
    unfolding lp_is_overfull_def u L by (simp_all add: capacities leaf_max_entry_bytes_def entry_costs PAGE_SIZE_def)
  have "\<exists>sep l r. lp_split_into full_leaf (LeafPage_new (lp_layout full_leaf)) (PageId 9) = (Ok (sep, l, r) :: (unit, _) result) \<and>
      live_list full_leaf = live_list l @ live_list r \<and> \<not> lp_is_overfull l"
    using leaf_split [where 'e = unit, OF 1 2 3, of "PageId 9"] by (elim exE conjE) (intro exI conjI)
  then show ?thesis by (simp only: L)
qed

text \<open>C31. When a leaf is underfull and its sibling cannot lend it an entry, the two merge into one leaf that is not overfull, keeps no more
  tombstones than its layout allows, holds the live entries of both in order, and takes the place of both in the chain of leaves.\<close>

theorem leaf_merge_fits:
  assumes "leaf_ok p" "leaf_ok right" "lp_layout right = lp_layout p" "layout_ok (lp_layout p)"
    and "sorted_wrt (<) (lp_keys p @ lp_keys right)"
    and "lp_is_underfull p \<and> \<not> lp_can_lend right First \<or> lp_is_underfull right \<and> \<not> lp_can_lend p Last"
  shows "\<exists>q. lp_absorb_right p right = (Ok (q, right\<lparr>lp_entries := [], lp_tombstones := []\<rparr>) :: ('e, _) result) \<and> leaf_ok q \<and>
    live_list q = live_list p @ live_list right \<and> lp_next_leaf_id q = lp_next_leaf_id right \<and> \<not> lp_is_overfull q"
proof -
  let ?L = "lp_layout p" and ?m = "leaf_max_entry_bytes (lp_layout p)" and ?cap = "area_capacity (leaf_area (lp_layout p))"
  have "lp_used_bytes p + lp_used_bytes right < 2 * leaf_min_used ?L + ?m"
    using assms(3,6) lp_cannot_lend [of right First] lp_cannot_lend [of p Last] assms(1,2) by (auto simp: lp_is_underfull_def)
  then have fit: "lp_used_bytes p + lp_used_bytes right \<le> ?cap" using assms(4) unfolding leaf_min_used_def layout_ok_def by linarith
  have "length es \<le> sum_list (leaf_costs es)" for es :: "(IndexKey \<times> RecordId) list" by (induction es) simp_all
  then have "length (lp_entries p) + length (lp_entries right) \<le> ?cap" using fit unfolding lp_costs by (meson add_mono le_trans)
  then have n: "length (lp_entries p) + length (lp_entries right) < 2 ^ 32" by (simp add: capacities PAGE_SIZE_def)
  from lp_absorb_ok [OF assms(1-3,5) n, where 'e = 'e] obtain q where
    "lp_absorb_right p right = (Ok (q, right\<lparr>lp_entries := [], lp_tombstones := []\<rparr>) :: ('e, _) result)" "leaf_ok q"
    "live_list q = live_list p @ live_list right" "lp_layout q = lp_layout p" "lp_next_leaf_id q = lp_next_leaf_id right"
    "lp_used_bytes q \<le> lp_used_bytes p + lp_used_bytes right" by blast
  then show ?thesis using fit by (intro exI [of _ q]) (simp add: lp_is_overfull_def)
qed

theorem leaf_merge_fits_witness:
  "\<exists>q. lp_absorb_right sample_leaf (LeafPage_new \<lparr>max_key_len = 8, tombstone_capacity = 1\<rparr>) =
      (Ok (q, LeafPage_new \<lparr>max_key_len = 8, tombstone_capacity = 1\<rparr>) :: (unit, _) result) \<and>
    live_list q = [([2], \<lparr>page_id = PageId 5, slot_id = 6\<rparr>)] \<and> lp_next_leaf_id q = None"
proof -
  let ?r = "LeafPage_new (lp_layout sample_leaf)"
  have "leaf_ok ?r" "lp_layout ?r = lp_layout sample_leaf" "lp_keys ?r = []" "sorted_wrt (<) (lp_keys sample_leaf)" "lp_next_leaf_id ?r = None"
    "?r\<lparr>lp_entries := [], lp_tombstones := []\<rparr> = ?r" "live_list ?r = []"
    by (simp_all add: LeafPage_new_def leaf_ok_def lp_keys_def sample_leaf_def live_list_def)
  moreover have "lp_is_underfull sample_leaf" "\<not> lp_can_lend ?r First" "layout_ok (lp_layout sample_leaf)"
    using sample_leaf_stored(1) by (simp_all add: lp_is_underfull_def lp_costs leaf_min_used_def capacities leaf_max_entry_bytes_def entry_costs
      PAGE_SIZE_def lp_can_lend_def LeafPage_new_def vec_first_def leaf_stored_def sample_leaf_def)
  moreover have "live_list sample_leaf = [([2], \<lparr>page_id = PageId 5, slot_id = 6\<rparr>)]" by (simp add: sample_leaf_def live_list_def dead_slots_def)
  ultimately have "\<exists>q. lp_absorb_right sample_leaf ?r = (Ok (q, ?r) :: (unit, _) result) \<and>
      live_list q = [([2], \<lparr>page_id = PageId 5, slot_id = 6\<rparr>)] \<and> lp_next_leaf_id q = None"
    using leaf_merge_fits [OF sample_leaf_stored(2), of ?r, where 'e = unit] by auto
  then show ?thesis by (simp only: sample_leaf_stored(3))
qed

end
