(* ===== verification/View_Safe.thy ===== *)
theory View_Safe
  imports Leaf_Split
begin

text \<open>
  Pages of any bytes: what the checks of a view guarantee, and that reading through an accepted view never panics.
\<close>


section \<open>What the check of an entry area guarantees\<close>

abbreviation slot_at :: "EntryArea \<Rightarrow> bytes \<Rightarrow> nat \<Rightarrow> nat" where
  "slot_at A buf i \<equiv> unat (u16_at buf (slot_offset A i))"

definition end_at :: "EntryArea \<Rightarrow> bytes \<Rightarrow> nat \<Rightarrow> nat \<Rightarrow> nat" where
  "end_at A buf n i = (if i + 1 < n then slot_at A buf (i + 1) else PAGE_SIZE)"

definition area_sound :: "EntryArea \<Rightarrow> bytes \<Rightarrow> nat \<Rightarrow> bool" where
  "area_sound A buf n \<longleftrightarrow> length buf = PAGE_SIZE \<and> slots_start A + 2 * n \<le> PAGE_SIZE \<and> (n > 0 \<longrightarrow> slots_start A + 2 * n \<le> slot_at A buf 0) \<and>
     (\<forall>i < n. slot_at A buf i + payload_len A \<le> end_at A buf n i \<and> end_at A buf n i \<le> PAGE_SIZE)"

lemma area_start_at: "length buf = PAGE_SIZE \<Longrightarrow> slots_start A + 2 * n \<le> PAGE_SIZE \<Longrightarrow> i < n \<Longrightarrow> area_start A buf i = Ok (slot_at A buf i)"
  by (simp add: area_start_def slot_offset_def SLOT_ENCODED_BYTES_def)

lemma area_end_at: "length buf = PAGE_SIZE \<Longrightarrow> slots_start A + 2 * n \<le> PAGE_SIZE \<Longrightarrow> area_end A buf n i = Ok (end_at A buf n i)"
  by (simp add: area_end_def end_at_def area_start_at)

lemma foldR_unit_Ok: "foldR f xs () = Ok () \<longleftrightarrow> (\<forall>x \<in> set xs. f x () = Ok ())"
  by (induction xs) (auto simp: bindR_Ok_iff)

lemma area_check_sound:
  assumes "area_check A buf n = Ok ()"
  shows "area_sound A buf n"
proof -
  have len: "length buf = PAGE_SIZE" and slots: "slots_start A + 2 * n \<le> PAGE_SIZE"
    using assms by (auto simp: area_check_def checked_mul_usize_def checked_add_usize_def SLOT_ENCODED_BYTES_def bindR_Ok_iff
        split: if_splits option.splits)
  note at = area_start_at [OF len slots] area_end_at [OF len slots]
  have ends: "slot_at A buf i + payload_len A \<le> end_at A buf n i" if "i < n" for i
  proof -
    have "foldR (check_entry A buf n) [0..<n] () = Ok ()"
      using assms that by (auto simp: area_check_def bindR_Ok_iff split: if_splits)
    then have "check_entry A buf n i () = Ok ()" using that by (simp add: foldR_unit_Ok)
    then show ?thesis using that by (simp add: check_entry_def at split: if_splits)
  qed
  have "end_at A buf n i \<le> PAGE_SIZE" if "i < n" for i
    using that
  proof (induction "n - i" arbitrary: i)
    case (Suc d)
    show ?case
    proof (cases "i + 1 < n")
      case True
      then have "end_at A buf n (i + 1) \<le> PAGE_SIZE" using Suc by (intro Suc.hyps) simp_all
      then show ?thesis using ends [OF True] True by (simp add: end_at_def)
    qed (simp add: end_at_def)
  qed simp
  moreover have "slots_start A + 2 * n \<le> slot_at A buf 0" if "n > 0"
    using assms that by (auto simp: area_check_def bindR_Ok_iff at checked_mul_usize_def checked_add_usize_def SLOT_ENCODED_BYTES_def
        split: if_splits option.splits)
  ultimately show ?thesis using len slots ends by (simp add: area_sound_def)
qed

lemma area_sound_reads:
  assumes "area_sound A buf n"
  shows "i < n \<Longrightarrow> area_key A buf n i = Ok (sub buf (slot_at A buf i) (end_at A buf n i - payload_len A - slot_at A buf i))"
    "i < n \<Longrightarrow> area_payload A buf n i = Ok (sub buf (end_at A buf n i - payload_len A) (payload_len A))"
    "area_used A buf n \<noteq> Panic" "area_free A buf n \<noteq> Panic"
proof -
  have len: "length buf = PAGE_SIZE" "slots_start A + 2 * n \<le> PAGE_SIZE" and ends: "\<And>i. i < n \<Longrightarrow> slot_at A buf i + payload_len A \<le> end_at A buf n i"
    "\<And>i. i < n \<Longrightarrow> end_at A buf n i \<le> PAGE_SIZE" and d: "n > 0 \<Longrightarrow> slots_start A + 2 * n \<le> slot_at A buf 0"
    using assms by (auto simp: area_sound_def)
  note at = area_start_at [OF len] area_end_at [OF len]
  show "area_key A buf n i = Ok (sub buf (slot_at A buf i) (end_at A buf n i - payload_len A - slot_at A buf i))"
    "area_payload A buf n i = Ok (sub buf (end_at A buf n i - payload_len A) (payload_len A))" if "i < n"
    using ends [OF that] that len le_trans [OF diff_le_self [of "end_at A buf n i" "payload_len A"]]
    by (simp_all add: area_key_def area_payload_def at sub_usize_def slice_get_def)
  have u: "area_used A buf n = Ok (2 * n + (PAGE_SIZE - (if n = 0 then PAGE_SIZE else slot_at A buf 0)))"
    using le_trans [OF add_leD1 [OF ends(1) [of 0]] ends(2) [of 0]] len by (auto simp: area_used_def data_start_def at sub_usize_def SLOT_ENCODED_BYTES_def)
  show "area_used A buf n \<noteq> Panic" by (simp add: u)
  have "2 * n + (PAGE_SIZE - (if n = 0 then PAGE_SIZE else slot_at A buf 0)) \<le> area_capacity A" using d len by (auto simp: area_capacity_def)
  then show "area_free A buf n \<noteq> Panic" by (simp add: area_free_def u sub_usize_def)
qed

lemma partition_loop_total: "hi \<le> n \<Longrightarrow> lo \<le> hi \<Longrightarrow> (\<And>i. i < n \<Longrightarrow> pred i = Ok (P i)) \<Longrightarrow> \<exists>r \<le> n. partition_loop pred lo hi = Ok r"
proof (induction "hi - lo" arbitrary: lo hi rule: less_induct)
  case less
  show ?case
  proof (cases "lo < hi")
    case True
    let ?m = "lo + (hi - lo) div 2"
    have m: "?m < hi" "lo \<le> ?m" using True by linarith+
    have "\<exists>r \<le> n. partition_loop pred (?m + 1) hi = Ok r" "\<exists>r \<le> n. partition_loop pred lo ?m = Ok r"
      using less m by auto
    moreover have "pred ?m = Ok (P ?m)" using less.prems(1) m(1) by (intro less.prems(3)) simp
    ultimately show ?thesis using True by (subst partition_loop.simps) (simp add: Let_def)
  next
    case False
    then show ?thesis using less.prems by (subst partition_loop.simps) auto
  qed
qed

lemma partition_point_total: "(\<And>i. i < n \<Longrightarrow> pred i = Ok (P i)) \<Longrightarrow> \<exists>r \<le> n. partition_point n pred = Ok r"
  unfolding partition_point_def by (rule partition_loop_total) auto

lemma decode_rid_no_panic: "decode_record_id_bytes bs \<noteq> Panic"
  by (auto simp: decode_record_id_bytes_def decode_half_def bindR_Panic_iff split: if_splits)

section \<open>Views that were accepted\<close>

lemma lv_new_sound:
  assumes "lv_new buf L = Ok v"
  shows "v = \<lparr>v_buf = buf, v_layout = L\<rparr>" "length buf = PAGE_SIZE" "area_sound (leaf_area L) buf (unat (u32_at buf 8))"
    "unat (u32_at buf 24) \<le> tombstone_capacity L"
proof -
  have len: "length buf = PAGE_SIZE" using assms by (auto simp: lv_new_def check_len_def Let_def bindR_Ok_iff split: if_splits)
  show "v = \<lparr>v_buf = buf, v_layout = L\<rparr>" "length buf = PAGE_SIZE" "unat (u32_at buf 24) \<le> tombstone_capacity L"
    using assms len by (auto simp: lv_new_def Let_def bindR_Ok_iff PAGE_SIZE_def split: if_splits)
  have "area_check (leaf_area L) buf (unat (u32_at buf 8)) = Ok ()"
    using assms len by (auto simp: lv_new_def Let_def bindR_Ok_iff node_size_def PAGE_SIZE_def)
  then show "area_sound (leaf_area L) buf (unat (u32_at buf 8))" by (rule area_check_sound)
qed

lemma iv_new_sound:
  assumes "iv_new buf L = Ok v"
  shows "v = \<lparr>v_buf = buf, v_layout = L\<rparr>" "length buf = PAGE_SIZE" "area_sound INTERNAL_AREA buf (unat (u32_at buf 8))"
proof -
  show len: "length buf = PAGE_SIZE" using assms by (auto simp: iv_new_def check_len_def bindR_Ok_iff split: if_splits)
  show "v = \<lparr>v_buf = buf, v_layout = L\<rparr>" using assms by (auto simp: iv_new_def bindR_Ok_iff)
  have "area_check INTERNAL_AREA buf (unat (u32_at buf 8)) = Ok ()"
    using assms len by (auto simp: iv_new_def bindR_Ok_iff node_size_def PAGE_SIZE_def)
  then show "area_sound INTERNAL_AREA buf (unat (u32_at buf 8))" by (rule area_check_sound)
qed

lemma mapR_iffs: "mapR f r = Panic \<longleftrightarrow> r = Panic" "mapR f r = Ok y \<longleftrightarrow> (\<exists>x. r = Ok x \<and> y = f x)"
  by (cases r; auto)+

lemma lv_reads_safe:
  assumes "lv_new buf L = Ok v"
  shows "\<exists>pos. pos \<le> unat (u32_at buf 8) \<and> lv_lower_bound v key = (Ok pos :: ('e, nat) result)"
    "\<exists>pos. pos \<le> unat (u32_at buf 8) \<and> lv_upper_bound v key = (Ok pos :: ('e, nat) result)"
    "lv_search v key = Ok pos \<Longrightarrow> pos < unat (u32_at buf 8)" "lv_search v key \<noteq> Panic"
    "\<exists>b. lv_is_tombstoned v s = Ok b" "pos < unat (u32_at buf 8) \<Longrightarrow> lv_record_id v pos \<noteq> Panic"
proof -
  let ?n = "unat (u32_at buf 8)" and ?A = "leaf_area L" and ?c = "unat (u32_at buf 24)"
  note v = lv_new_sound [OF assms] and r = area_sound_reads [OF lv_new_sound(3) [OF assms]]
  have n: "v_len v = Ok ?n" and c: "lv_tombstone_count v = Ok ?c" using v(1,2) by (simp_all add: v_len_def v_size_def lv_tombstone_count_def PAGE_SIZE_def)
  define k where "k i = sub buf (slot_at ?A buf i) (end_at ?A buf ?n i - payload_len ?A - slot_at ?A buf i)" for i
  have key: "lv_key v i = Ok (k i)" if "i < ?n" for i using that by (simp add: lv_key_def n) (simp add: v(1) r(1) k_def)
  have p: "\<exists>pos \<le> ?n. partition_point ?n (\<lambda>i. bindR (lv_key v i) (\<lambda>x. Ok (P x))) = (Ok pos :: ('e, nat) result)" for P
    by (rule partition_point_total [where P = "\<lambda>i. P (k i)"]) (simp add: key)
  show "\<exists>pos. pos \<le> ?n \<and> lv_lower_bound v key = (Ok pos :: ('e, nat) result)" using p [of "\<lambda>x. x < key"] by (simp add: lv_lower_bound_def n)
  show "\<exists>pos. pos \<le> ?n \<and> lv_upper_bound v key = (Ok pos :: ('e, nat) result)" using p [of "\<lambda>x. x \<le> key"] by (simp add: lv_upper_bound_def n)
  have "\<exists>pos \<le> ?n. partition_point ?n (\<lambda>i. bindR (lv_key v i) (\<lambda>x. Ok (x < key))) = (Ok pos :: (nat, nat) result)"
    by (rule partition_point_total [where P = "\<lambda>i. k i < key"]) (simp add: key)
  then obtain q where q: "q \<le> ?n" "partition_point ?n (\<lambda>i. bindR (lv_key v i) (\<lambda>x. Ok (x < key))) = (Ok q :: (nat, nat) result)" by (elim exE conjE)
  show "lv_search v key = Ok pos \<Longrightarrow> pos < ?n" "lv_search v key \<noteq> Panic" using q(1) by (auto simp: lv_search_def n q(2) key split: if_splits)
  have t: "lv_tombstone v i = Ok (u32_at buf (28 + 4 * i))" if "i < ?c" for i
    using that v(2,4) lv_new_sound(3) [OF assms] by (simp add: v(1) lv_tombstone_def area_sound_def)
  note a = any_up_ok [of "[0..<?c]" "\<lambda>i. bindR (lv_tombstone v i) (\<lambda>x. Ok (x = s))" "\<lambda>i. u32_at buf (28 + 4 * i) = s"]
  show "\<exists>b. lv_is_tombstoned v s = Ok b" unfolding lv_is_tombstoned_def c bindR.simps by (subst a) (simp_all add: t)
  show "lv_record_id v pos \<noteq> Panic" if "pos < ?n"
    using that by (simp add: lv_record_id_def n) (simp add: v(1) r(2) decode_rid_no_panic)
qed

lemma iv_reads_safe:
  assumes "iv_new buf L = Ok v"
  shows "child_for v key \<noteq> Panic" "child_for v key \<noteq> Ok None"
proof -
  let ?n = "unat (u32_at buf 8)" and ?A = INTERNAL_AREA
  note v = iv_new_sound [OF assms] and r = area_sound_reads [OF iv_new_sound(3) [OF assms]]
  have n: "v_len v = Ok ?n" using v(1,2) by (simp add: v_len_def v_size_def PAGE_SIZE_def)
  define k where "k i = sub buf (slot_at ?A buf i) (end_at ?A buf ?n i - payload_len ?A - slot_at ?A buf i)" for i
  have key: "iv_key v i = Ok (k i)" if "i < ?n" for i using that by (simp add: iv_key_def n) (simp add: v(1) r(1) k_def)
  have "\<exists>pos \<le> ?n. partition_point ?n (\<lambda>i. bindR (iv_key v i) (\<lambda>x. Ok (x \<le> key))) = (Ok pos :: (PageCodecError, nat) result)"
    by (rule partition_point_total [where P = "\<lambda>i. k i \<le> key"]) (simp add: key)
  then obtain pos where pos: "pos \<le> ?n" "iv_find_child_index v key = (Ok pos :: (PageCodecError, nat) result)" by (auto simp: iv_find_child_index_def n)
  have "\<exists>raw. iv_child v pos = mapR Some (decode_child_page_id raw)"
  proof (cases "pos = 0")
    case True
    then show ?thesis using v(2) by (intro exI [of _ "u64_at buf 16"]) (simp add: iv_child_def child_count_def n, simp add: v(1) PAGE_SIZE_def)
  next
    case False
    have "length (sub buf (end_at ?A buf ?n (pos - 1) - payload_len ?A) (payload_len ?A)) = 8"
    proof -
      have "pos - 1 < ?n" using False pos(1) by simp
      then have "slot_at ?A buf (pos - 1) + 8 \<le> end_at ?A buf ?n (pos - 1)" "end_at ?A buf ?n (pos - 1) \<le> length buf"
        using iv_new_sound(3) [OF assms] v(2) by (auto simp: area_sound_def)
      then show ?thesis by simp
    qed
    moreover have "pos - 1 < ?n" using False pos(1) by simp
    note pl = r(2) [OF this]
    ultimately show ?thesis using False pos(1)
      by (intro exI [of _ "from_le_bytes (sub buf (end_at ?A buf ?n (pos - 1) - 8) 8)"])
        (simp add: iv_child_def child_count_def n, simp add: v(1) pl [simplified])
  qed
  then obtain raw where c: "iv_child v pos = mapR Some (decode_child_page_id raw)" by blast
  show "child_for v key \<noteq> Panic" "child_for v key \<noteq> Ok None" by (cases "decode_child_page_id raw"; simp add: child_for_def pos(2) c)+
qed

lemma may_split_safe:
  assumes "NodeView_new buf L = Ok node"
  shows "may_split_on_insert node \<noteq> Panic \<and> may_underflow_on_remove node \<noteq> Panic"
proof -
  consider (internal) v where "node = NInternal v" "iv_new buf L = Ok v" | (leaf) v where "node = NLeaf v" "lv_new buf L = Ok v"
    using assms by (auto simp: NodeView_new_def bindR_Ok_iff mapR_iffs split: if_splits)
  then show ?thesis
  proof cases
    case (internal v)
    note v = iv_new_sound [OF internal(2)] and r = area_sound_reads(3,4) [OF iv_new_sound(3) [OF internal(2)]]
    have n: "v_len v = Ok (unat (u32_at buf 8))" using v(1,2) by (simp add: v_len_def v_size_def PAGE_SIZE_def)
    show ?thesis
      by (simp_all add: internal(1) iv_may_split_on_insert_def iv_may_underflow_on_remove_def iv_used_bytes_def n [unfolded v(1)] v(1) r bindR_Panic_iff)
  next
    case (leaf v)
    note v = lv_new_sound [OF leaf(2)] and r = area_sound_reads(3,4) [OF lv_new_sound(3) [OF leaf(2)]]
    have n: "v_len v = Ok (unat (u32_at buf 8))" using v(1,2) by (simp add: v_len_def v_size_def PAGE_SIZE_def)
    show ?thesis
      by (simp_all add: leaf(1) lv_may_split_on_insert_def lv_may_underflow_on_remove_def lv_used_bytes_def n [unfolded v(1)] v(1) r bindR_Panic_iff)
  qed
qed



end
