(* ===== verification/Frame_Tracker.thy ===== *)
theory Frame_Tracker
  imports Replacer_Correct
begin

text \<open>
  The contract between the buffer pool and its replacer, and the proof that the ARC replacer keeps it.
\<close>


section \<open>The contract of a frame tracker\<close>

text \<open>
  What the buffer pool relies on of its replacer: which frame holds which page, which of them may be evicted, and that an eviction
  picks such a frame and can be undone.
\<close>

locale frame_tracker =
  fixes tr_ok :: "'r \<Rightarrow> bool" and holds :: "'r \<Rightarrow> 'f \<rightharpoonup> 'p" and free_to_go :: "'r \<Rightarrow> 'f \<Rightarrow> bool" and cap :: "'r \<Rightarrow> nat"
    and access :: "'r \<Rightarrow> 'f \<Rightarrow> 'p \<Rightarrow> ('e, 'r) result" and mark :: "'r \<Rightarrow> 'f \<Rightarrow> bool \<Rightarrow> ('e, 'r) result"
    and start :: "'r \<Rightarrow> ('e, 'u option \<times> 'r) result" and undo :: "'r \<Rightarrow> 'u \<Rightarrow> ('e, 'r) result" and victim :: "'u \<Rightarrow> 'f"
    and forget :: "'r \<Rightarrow> 'p \<Rightarrow> ('e, 'f option \<times> 'r) result"
  assumes holds_inj: "tr_ok r \<Longrightarrow> holds r f = Some p \<Longrightarrow> holds r g = Some p \<Longrightarrow> f = g"
    and access_held: "tr_ok r \<Longrightarrow> holds r f = Some p \<Longrightarrow>
      \<exists>r'. access r f p = Ok r' \<and> tr_ok r' \<and> holds r' = holds r \<and> free_to_go r' = free_to_go r \<and> cap r' = cap r"
    and access_fresh: "tr_ok r \<Longrightarrow> holds r f = None \<Longrightarrow> p \<notin> ran (holds r) \<Longrightarrow> card (dom (holds r)) < cap r \<Longrightarrow>
      \<exists>r'. access r f p = Ok r' \<and> tr_ok r' \<and> holds r' = (holds r)(f \<mapsto> p) \<and> free_to_go r' = (free_to_go r)(f := False) \<and> cap r' = cap r"
    and mark_ok: "tr_ok r \<Longrightarrow>
      \<exists>r'. mark r f v = Ok r' \<and> tr_ok r' \<and> holds r' = holds r \<and> free_to_go r' = (free_to_go r)(f := v \<and> holds r f \<noteq> None) \<and> cap r' = cap r"
    and start_ok: "tr_ok r \<Longrightarrow> start r = Ok (None, r) \<and> (\<forall>f. \<not> free_to_go r f) \<or>
      (\<exists>u r'. start r = Ok (Some u, r') \<and> free_to_go r (victim u) \<and> tr_ok r' \<and> holds r' = (holds r)(victim u := None) \<and>
        free_to_go r' = (free_to_go r)(victim u := False) \<and> cap r' = cap r \<and> undo r' u = Ok r)"
    and forget_ok: "tr_ok r \<Longrightarrow> \<exists>x r'. forget r p = Ok (x, r') \<and> tr_ok r' \<and> holds r' = (\<lambda>f. if holds r f = Some p then None else holds r f) \<and>
      free_to_go r' = (\<lambda>f. free_to_go r f \<and> holds r f \<noteq> Some p) \<and> cap r' = cap r"
    and free_holds: "tr_ok r \<Longrightarrow> free_to_go r f \<Longrightarrow> holds r f \<noteq> None"
begin

lemma admit:
  assumes "tr_ok r" "holds r f = None" "p \<notin> ran (holds r)" "card (dom (holds r)) < cap r"
  shows "\<exists>r'. bindR (access r f p) (\<lambda>r. mark r f v) = Ok r' \<and> tr_ok r' \<and> holds r' = (holds r)(f \<mapsto> p) \<and>
    free_to_go r' = (free_to_go r)(f := v) \<and> cap r' = cap r"
  using access_fresh [OF assms] mark_ok [where f = f and v = v] by fastforce

lemma touch:
  assumes "tr_ok r" "holds r f = Some p"
  shows "\<exists>r'. bindR (access r f p) (\<lambda>r. mark r f v) = Ok r' \<and> tr_ok r' \<and> holds r' = holds r \<and>
    free_to_go r' = (free_to_go r)(f := v) \<and> cap r' = cap r"
  using access_held [OF assms] mark_ok [where f = f and v = v] assms(2) by fastforce

end

section \<open>The replacer keeps the contract\<close>

definition tracked_page :: "ArcReplacer \<Rightarrow> FrameId \<rightharpoonup> PageId" where
  "tracked_page r f = map_option (\<lambda>i. n_page_id (nodes r ! i)) (frame_indices r f)"

definition may_go :: "ArcReplacer \<Rightarrow> FrameId \<Rightarrow> bool" where
  "may_go r f \<longleftrightarrow> (case frame_indices r f of None \<Rightarrow> False | Some i \<Rightarrow> n_evictable (nodes r ! i))"

definition replacer_ok :: "ArcReplacer \<Rightarrow> bool" where
  "replacer_ok r \<longleftrightarrow> (\<exists>a. refines r a)"

definition arc_has :: "arc \<Rightarrow> PageId \<Rightarrow> FrameId \<Rightarrow> bool \<Rightarrow> bool" where
  "arc_has a p f e \<longleftrightarrow> (\<exists>l. (p, Some f, e) \<in> set (arc_lists a l))"

lemma arc_has_abs:
  assumes "arc_inv r L"
  shows "arc_has (abs_arc r L) p f e \<longleftrightarrow> (\<exists>i. frame_indices r f = Some i \<and> page_of r i = p \<and> flag_of r i = e)"
proof
  assume "arc_has (abs_arc r L) p f e"
  then show "\<exists>i. frame_indices r f = Some i \<and> page_of r i = p \<and> flag_of r i = e"
    by (auto simp: arc_has_def payload_split frames_okD [OF assms] tracked_def)
next
  assume "\<exists>i. frame_indices r f = Some i \<and> page_of r i = p \<and> flag_of r i = e"
  then obtain i l where "i \<in> set (L l)" "frame_of r i = Some f" "page_of r i = p" "flag_of r i = e"
    by (auto simp: frames_okD [OF assms] tracked_def)
  then show "arc_has (abs_arc r L) p f e" by (auto simp: arc_has_def payload_split image_iff intro!: exI [of _ l] bexI [of _ i])
qed

lemma tracked_abs:
  assumes "refines r a"
  shows "tracked_page r f = Some p \<longleftrightarrow> (\<exists>e. arc_has a p f e)" "may_go r f \<longleftrightarrow> (\<exists>p. arc_has a p f True)"
proof -
  obtain L where L: "arc_inv r L" "a = abs_arc r L" using assms by (rule refinesE)
  note fr = frames_okD [OF L(1)]
  note h = arc_has_abs [OF L(1), folded L(2)]
  show "tracked_page r f = Some p \<longleftrightarrow> (\<exists>e. arc_has a p f e)" by (auto simp: h tracked_page_def payload_fields)
  show "may_go r f \<longleftrightarrow> (\<exists>p. arc_has a p f True)" by (auto simp: h may_go_def payload_fields split: option.splits)
qed

lemma tracked_unique:
  assumes "refines r a" "arc_has a p f e"
  shows "arc_has a q f d \<longleftrightarrow> q = p \<and> d = e" "arc_has a p g d \<longleftrightarrow> g = f \<and> d = e"
    "(p, None, d) \<notin> set (arc_lists a l)"
proof -
  obtain L where L: "arc_inv r L" "a = abs_arc r L" using assms(1) by (rule refinesE)
  note fr = frames_okD [OF L(1)] and pg = pages_okD [OF L(1)]
  note h = arc_has_abs [OF L(1), folded L(2)]
  obtain i where i: "frame_indices r f = Some i" "page_of r i = p" "flag_of r i = e" using assms(2) h by blast
  have ti: "i \<in> tracked L" "frame_of r i = Some f" using i(1) by (auto simp: fr)
  then have pi: "page_indices r p = Some i" using i(2) by (simp add: pg)
  show "arc_has a q f d \<longleftrightarrow> q = p \<and> d = e" using i by (auto simp: h)
  have one: "j = i" if "j \<in> tracked L" "page_of r j = p" for j
  proof -
    have "page_indices r p = Some j" using that by (simp add: pg)
    then show ?thesis using pi by simp
  qed
  show "arc_has a p g d \<longleftrightarrow> g = f \<and> d = e"
  proof
    assume "arc_has a p g d"
    then obtain j where j: "frame_indices r g = Some j" "page_of r j = p" "flag_of r j = d" using h by blast
    then have "j \<in> tracked L" "frame_of r j = Some g" by (auto simp: fr)
    then show "g = f \<and> d = e" using one [of j] j i ti by auto
  qed (use assms(2) in simp)
  show "(p, None, d) \<notin> set (arc_lists a l)"
  proof
    assume "(p, None, d) \<in> set (arc_lists a l)"
    then obtain j where "j \<in> set (L l)" "page_of r j = p" "frame_of r j = None" by (auto simp: L(2) payload_split)
    moreover have "j \<in> tracked L" using calculation(1) by (auto simp: tracked_def)
    ultimately show False using one [of j] ti by simp
  qed
qed

lemma arc_has_ops [simp]:
  "arc_has (arc_put l (q, g, d) a) p f e \<longleftrightarrow> (p = q \<and> g = Some f \<and> e = d) \<or> arc_has a p f e"
  "arc_has (arc_drop q a) p f e \<longleftrightarrow> arc_has a p f e \<and> p \<noteq> q"
  "arc_has (spec_retarget l a) p f e \<longleftrightarrow> arc_has a p f e"
  by (auto simp: arc_has_def arc_put_def arc_drop_def spec_retarget_def Let_def split: if_splits)

lemma entries_iff: "(l, x) \<in> set (entries a) \<longleftrightarrow> x \<in> set (arc_lists a l)"
  by (cases l) (auto simp: entries_def)

lemma demote_absent: "(\<And>p e. \<not> arc_has a p f e) \<Longrightarrow> spec_demote f a = a"
proof -
  assume "\<And>p e. \<not> arc_has a p f e"
  then have "find (\<lambda>(l, x). entry_frame x = Some f) (entries a) = None"
    by (auto simp: find_None_iff entries_iff arc_has_def)
  then show ?thesis by (simp add: spec_demote_def)
qed

lemma ghost_no_frame: "refines r a \<Longrightarrow> \<not> is_resident l \<Longrightarrow> x \<in> set (arc_lists a l) \<Longrightarrow> entry_frame x = None"
proof -
  assume "refines r a" "\<not> is_resident l" "x \<in> set (arc_lists a l)"
  then obtain L i where "arc_inv r L" "i \<in> set (L l)" "x = payload r i" by (auto elim!: refinesE)
  then show ?thesis using roles_okD [of r L i l] \<open>\<not> is_resident l\<close> by (simp add: payload_split)
qed

lemma arc_has_trim:
  assumes "refines r a"
  shows "arc_has (spec_trim a) p f e \<longleftrightarrow> arc_has a p f e"
proof -
  have keep: "arc_lists (spec_trim a) l = arc_lists a l" if "is_resident l" for l
    using that by (auto simp: spec_trim_def Let_def is_resident_def)
  have sub: "x \<in> set (arc_lists (spec_trim a) l) \<Longrightarrow> x \<in> set (arc_lists a l)" for x l
    by (simp add: spec_trim_def Let_def split: if_splits) (erule in_set_butlastD)+
  have res: "is_resident l" if "(p, Some f, e) \<in> set (arc_lists a l)" for l using ghost_no_frame [OF assms _ that] by auto
  show ?thesis
  proof
    assume "arc_has (spec_trim a) p f e"
    then show "arc_has a p f e" using sub unfolding arc_has_def by blast
  next
    assume "arc_has a p f e"
    then obtain l where l: "(p, Some f, e) \<in> set (arc_lists a l)" by (auto simp: arc_has_def)
    then show "arc_has (spec_trim a) p f e" using keep [OF res [OF l]] unfolding arc_has_def by metis
  qed
qed

lemma spec_access_held:
  assumes "refines r a" "arc_has a p f e"
  shows "arc_has (spec_access f p a) q g d \<longleftrightarrow> arc_has a q g d"
proof -
  from assms(2) obtain l where l: "(p, Some f, e) \<in> set (arc_lists a l)" by (auto simp: arc_has_def)
  then have "find (\<lambda>(l, x). entry_page x = p) (entries a) \<noteq> None" by (auto simp: find_None_iff entries_iff)
  then obtain y where y: "find (\<lambda>(l, x). entry_page x = p) (entries a) = Some y" by blast
  obtain m g' e' where "y = (m, p, g', e')" using find_SomeD [OF y] by (cases y) auto
  note m = y [unfolded this]
  then have x: "(p, g', e') \<in> set (arc_lists a m)" using find_SomeD [OF m] by (simp add: entries_iff)
  obtain h where h: "g' = Some h" using tracked_unique(3) [OF assms] x by (cases g') auto
  then have "arc_has a p h e'" using x by (auto simp: arc_has_def)
  then have e: "h = f" "e' = e" using tracked_unique(2) [OF assms] by auto
  have "is_resident m" using ghost_no_frame [OF assms(1) _ x] h by auto
  then have "spec_access f p a = arc_put Mfu (p, Some f, e) (arc_drop p a)" by (simp add: spec_access_def m h e)
  then show ?thesis using tracked_unique(2) [OF assms] assms(2) by (cases "q = p") auto
qed

lemma spec_access_fresh:
  assumes "refines r a" "\<And>q e. \<not> arc_has a q f e" "\<And>g e. \<not> arc_has a p g e"
  shows "arc_has (spec_access f p a) q g d \<longleftrightarrow> q = p \<and> g = f \<and> \<not> d \<or> arc_has a q g d"
proof (cases "find (\<lambda>(l, x). entry_page x = p) (entries a)")
  case None
  then show ?thesis using arc_has_trim [OF assms(1)] by (auto simp: spec_access_def demote_absent [OF assms(2)])
next
  case (Some y)
  then obtain l g' e' where y: "y = (l, p, g', e')" "(p, g', e') \<in> set (arc_lists a l)"
    using find_SomeD [OF Some] by (cases y) (auto simp: entries_iff)
  have "g' = None" using y(2) assms(3) by (cases g') (auto simp: arc_has_def)
  then have "spec_access f p a = arc_put Mfu (p, Some f, False) (arc_drop p (spec_demote f (spec_retarget l a)))"
    using Some y by (simp add: spec_access_def)
  moreover have "spec_demote f (spec_retarget l a) = spec_retarget l a" by (rule demote_absent) (simp add: assms(2))
  ultimately show ?thesis using assms(3) by auto
qed

lemma arc_has_evictable: "arc_has (spec_set_evictable f v a) p g e \<longleftrightarrow> (if g = f then e = v \<and> (\<exists>d. arc_has a p g d) else arc_has a p g e)"
proof -
  have "(p, Some g, e) \<in> set (map (\<lambda>(p, g, e). (p, g, if g = Some f then v else e)) xs) \<longleftrightarrow>
      (if g = f then e = v \<and> (\<exists>d. (p, Some g, d) \<in> set xs) else (p, Some g, e) \<in> set xs)" for xs
    by (induction xs) auto
  then show ?thesis unfolding arc_has_def spec_set_evictable_def by auto
qed

text \<open>What an operation does to the relation gives what it does to the maps.\<close>

lemma tracked_eqI:
  assumes "refines r a" "\<And>f p. (\<exists>e. arc_has a p f e) \<longleftrightarrow> m f = Some p" "\<And>f. (\<exists>p. arc_has a p f True) \<longleftrightarrow> g f"
  shows "tracked_page r = m" "may_go r = g"
proof -
  have "tracked_page r f = m f" for f using tracked_abs(1) [OF assms(1), of f] assms(2) [of _ f] by (cases "m f"; cases "tracked_page r f") auto
  then show "tracked_page r = m" ..
  show "may_go r = g" using tracked_abs(2) [OF assms(1)] assms(3) by (auto simp: fun_eq_iff)
qed

lemma tracked_same:
  assumes "refines r a" "refines r' a'" "\<And>p f e. arc_has a' p f e \<longleftrightarrow> arc_has a p f e"
  shows "tracked_page r' = tracked_page r" "may_go r' = may_go r"
  by (rule tracked_eqI [OF assms(2), where m = "tracked_page r" and g = "may_go r"]; simp add: assms(3) tracked_abs [OF assms(1)])+

lemma refines_cap: "refines r a \<Longrightarrow> arc_cap a = r_capacity r"
  by (auto elim!: refinesE)

lemma tracked_none: "refines r a \<Longrightarrow> tracked_page r f = None \<Longrightarrow> \<not> arc_has a q f e"
  using tracked_abs(1) [of r a f q] by auto

lemma tracked_ran: "refines r a \<Longrightarrow> p \<notin> ran (tracked_page r) \<Longrightarrow> \<not> arc_has a p g e"
  using tracked_abs(1) [of r a g p] by (auto simp: ran_def)

lemma resident_count:
  assumes inv: "arc_inv r L"
  shows "finite (dom (tracked_page r))" "length (L Mru) + length (L Mfu) = card (dom (tracked_page r))"
proof -
  let ?is = "L Mru @ L Mfu"
  note lk = arc_inv_links [OF inv]
  have res: "frame_of r i \<noteq> None" if "i \<in> set ?is" for i using that roles_okD [OF inv, of i] by (fastforce simp: is_resident_def)
  have dist: "distinct ?is" using links_ok_distinct [OF lk] links_ok_disjoint [OF lk, of _ Mru Mfu] by fastforce
  have inj: "inj_on (\<lambda>i. the (frame_of r i)) (set ?is)"
  proof (rule inj_onI)
    fix i j assume ij: "i \<in> set ?is" "j \<in> set ?is" "the (frame_of r i) = the (frame_of r j)"
    then obtain f where f: "frame_of r i = Some f" "frame_of r j = Some f" using res [OF ij(1)] res [OF ij(2)] by auto
    have "i \<in> tracked L" "j \<in> tracked L" using ij by (auto simp: tracked_def)
    then have "frame_indices r f = Some i" "frame_indices r f = Some j" using f by (simp_all add: frames_okD [OF inv])
    then show "i = j" by simp
  qed
  have "dom (tracked_page r) = (\<lambda>i. the (frame_of r i)) ` set ?is"
  proof (intro equalityI subsetI)
    fix f assume "f \<in> dom (tracked_page r)"
    then obtain i where i: "frame_indices r f = Some i" by (auto simp: tracked_page_def)
    then obtain l where l: "i \<in> set (L l)" "frame_of r i = Some f" by (auto simp: frames_okD [OF inv] tracked_def)
    then have "is_resident l" using roles_okD [OF inv l(1)] by (auto split: if_splits)
    then have "i \<in> set ?is" using l by (auto simp: is_resident_def)
    then show "f \<in> (\<lambda>i. the (frame_of r i)) ` set ?is" using l(2) by (intro image_eqI [of _ _ i]) simp_all
  next
    fix f assume "f \<in> (\<lambda>i. the (frame_of r i)) ` set ?is"
    then obtain i where i: "i \<in> set ?is" "frame_of r i = Some f" using res by fastforce
    then have "i \<in> tracked L" by (auto simp: tracked_def)
    then have "frame_indices r f = Some i" using i(2) by (simp add: frames_okD [OF inv])
    then show "f \<in> dom (tracked_page r)" by (auto simp: tracked_page_def)
  qed
  then show "finite (dom (tracked_page r))" "length (L Mru) + length (L Mfu) = card (dom (tracked_page r))"
    using card_image [OF inj] distinct_card [OF dist] by simp_all
qed

lemma tracker_access_held:
  assumes "refines r a" "tracked_page r f = Some p"
  shows "\<exists>r'. record_access r f p = (Ok r' :: ('e, ArcReplacer) result) \<and> replacer_ok r' \<and> tracked_page r' = tracked_page r \<and>
    may_go r' = may_go r \<and> r_capacity r' = r_capacity r"
proof -
  obtain e where e: "arc_has a p f e" using tracked_abs(1) [OF assms(1)] assms(2) by blast
  have "admissible r f" using assms(2) by (auto simp: admissible_def tracked_page_def)
  then obtain r' where r': "record_access r f p = (Ok r' :: ('e, ArcReplacer) result)" "refines r' (spec_access f p a)"
    using record_access_ok [OF assms(1), where 'e = 'e] by blast
  have "r_capacity r' = r_capacity r" using refines_cap [OF r'(2)] refines_cap [OF assms(1)] by simp
  then show ?thesis using r' tracked_same [OF assms(1) r'(2) spec_access_held [OF assms(1) e]] by (auto simp: replacer_ok_def)
qed

lemma tracker_access_fresh:
  assumes "refines r a" "tracked_page r f = None" "p \<notin> ran (tracked_page r)" "card (dom (tracked_page r)) < r_capacity r"
  shows "\<exists>r'. record_access r f p = (Ok r' :: ('e, ArcReplacer) result) \<and> replacer_ok r' \<and> tracked_page r' = (tracked_page r)(f \<mapsto> p) \<and>
    may_go r' = (may_go r)(f := False) \<and> r_capacity r' = r_capacity r"
proof -
  obtain L where L: "arc_inv r L" "a = abs_arc r L" using assms(1) by (rule refinesE)
  have "\<not> is_full r" using is_full_iff [OF L(1)] resident_count(2) [OF L(1)] assms(4) by simp
  then have "admissible r f" by (simp add: admissible_def)
  then obtain r' where r': "record_access r f p = (Ok r' :: ('e, ArcReplacer) result)" "refines r' (spec_access f p a)"
    using record_access_ok [OF assms(1), where 'e = 'e] by blast
  note h = spec_access_fresh [OF assms(1) tracked_none [OF assms(1,2)] tracked_ran [OF assms(1,3)]]
  note abs = tracked_abs [OF assms(1)] and no = tracked_none [OF assms(1,2)]
  have "tracked_page r' = (tracked_page r)(f \<mapsto> p)" "may_go r' = (may_go r)(f := False)"
    by (rule tracked_eqI [OF r'(2), where m = "(tracked_page r)(f \<mapsto> p)" and g = "(may_go r)(f := False)"]; use h no in \<open>auto simp: abs\<close>)+
  moreover have "r_capacity r' = r_capacity r" using refines_cap [OF r'(2)] refines_cap [OF assms(1)] by simp
  ultimately show ?thesis using r' by (auto simp: replacer_ok_def)
qed

lemma tracker_mark:
  assumes "refines r a"
  shows "\<exists>r'. set_evictable r f v = (Ok r' :: ('e, ArcReplacer) result) \<and> replacer_ok r' \<and> tracked_page r' = tracked_page r \<and>
    may_go r' = (may_go r)(f := v \<and> tracked_page r f \<noteq> None) \<and> r_capacity r' = r_capacity r"
proof -
  obtain r' where r': "set_evictable r f v = (Ok r' :: ('e, ArcReplacer) result)" "refines r' (spec_set_evictable f v a)"
    using set_evictable_refined [OF assms, where 'e = 'e] by blast
  note abs = tracked_abs [OF assms] and h = arc_has_evictable [of f v a]
  have "tracked_page r' = tracked_page r" "may_go r' = (may_go r)(f := v \<and> tracked_page r f \<noteq> None)"
    by (rule tracked_eqI [OF r'(2), where m = "tracked_page r" and g = "(may_go r)(f := v \<and> tracked_page r f \<noteq> None)"]; auto simp: abs h)+
  moreover have "r_capacity r' = r_capacity r" using refines_cap [OF r'(2)] refines_cap [OF assms] by (simp add: spec_set_evictable_def)
  ultimately show ?thesis using r' by (auto simp: replacer_ok_def)
qed

lemma tracker_forget:
  assumes "refines r a"
  shows "\<exists>x r'. replacer_remove r p = (Ok (x, r') :: ('e, FrameId option \<times> ArcReplacer) result) \<and> replacer_ok r' \<and>
    tracked_page r' = (\<lambda>f. if tracked_page r f = Some p then None else tracked_page r f) \<and>
    may_go r' = (\<lambda>f. may_go r f \<and> tracked_page r f \<noteq> Some p) \<and> r_capacity r' = r_capacity r"
proof -
  obtain x r' where r': "replacer_remove r p = (Ok (x, r') :: ('e, FrameId option \<times> ArcReplacer) result)" "refines r' (snd (spec_remove p a))"
    using remove_refined [OF assms, of p, where 'e = 'e] by blast
  have h: "arc_has (snd (spec_remove p a)) q f e \<longleftrightarrow> arc_has a q f e \<and> q \<noteq> p" for q f e
  proof (cases "find (\<lambda>(l, x). entry_page x = p) (entries a)")
    case None
    then have "\<not> arc_has a p f e" by (auto simp: find_None_iff entries_iff arc_has_def)
    then show ?thesis using None by (auto simp: spec_remove_def)
  next
    case (Some y)
    then show ?thesis by (cases y) (simp add: spec_remove_def)
  qed
  note abs = tracked_abs [OF assms]
  have one: "arc_has a q f e \<Longrightarrow> arc_has a q' f e' \<Longrightarrow> q' = q" for q q' f e e' using tracked_unique(1) [OF assms] by blast
  have "tracked_page r' = (\<lambda>f. if tracked_page r f = Some p then None else tracked_page r f)"
    "may_go r' = (\<lambda>f. may_go r f \<and> tracked_page r f \<noteq> Some p)"
    by (rule tracked_eqI [OF r'(2), where m = "\<lambda>f. if tracked_page r f = Some p then None else tracked_page r f"
          and g = "\<lambda>f. may_go r f \<and> tracked_page r f \<noteq> Some p"]; use one in \<open>auto simp: abs h\<close>)+
  moreover have "r_capacity r' = r_capacity r" using refines_cap [OF r'(2)] refines_cap [OF assms]
    by (simp add: spec_remove_def arc_drop_def split: option.splits prod.splits)
  ultimately show ?thesis using r' by (auto simp: replacer_ok_def)
qed

lemma tracker_start:
  assumes "refines r a"
  shows "begin_eviction r = (Ok (None, r) :: ('e, EvictionUndo option \<times> ArcReplacer) result) \<and> (\<forall>f. \<not> may_go r f) \<or>
    (\<exists>u r'. begin_eviction r = (Ok (Some u, r') :: ('e, EvictionUndo option \<times> ArcReplacer) result) \<and> may_go r (eu_frame_id u) \<and> replacer_ok r' \<and>
      tracked_page r' = (tracked_page r)(eu_frame_id u := None) \<and> may_go r' = (may_go r)(eu_frame_id u := False) \<and>
      r_capacity r' = r_capacity r \<and> undo_eviction r' u = (Ok r :: ('e, ArcReplacer) result))"
proof -
  obtain L where L: "arc_inv r L" "a = abs_arc r L" using assms by (rule refinesE)
  note abs = tracked_abs [OF assms]
  show ?thesis
  proof (cases "victim_in r L")
    case None
    have "\<not> may_go r f" for f
    proof
      assume "may_go r f"
      then obtain i where i: "frame_indices r f = Some i" "flag_of r i" by (auto simp: may_go_def payload_fields split: option.splits)
      then obtain l where l: "i \<in> set (L l)" by (auto simp: frames_okD [OF L(1)] tracked_def)
      then have "is_resident l" using roles_okD [OF L(1) l] i(2) by (auto split: if_splits)
      then show False using None l i(2) by (auto simp: victim_in_def Let_def is_resident_def find_None_iff split: if_splits option.splits)
    qed
    then show ?thesis using begin_eviction_ok(1) [OF L(1) None, where 'e = 'e] by blast
  next
    case (Some v)
    obtain res i where v: "v = (res, i)" by (cases v)
    from begin_eviction_ok(2) [OF L(1) Some [unfolded v], where 'e = 'e] obtain r' f where
      r': "begin_eviction r = (Ok (Some \<lparr>eu_node_idx = i, eu_frame_id = f, eu_list = res, eu_more_recent = n_prev (nodes r ! i)\<rparr>, r')
        :: ('e, EvictionUndo option \<times> ArcReplacer) result)" "evicted r L (ResidentList_list res) i f r'" by blast
    let ?a = "arc_put (ghost_of (ResidentList_list res)) (page_of r i, None, False) (arc_drop (page_of r i) a)"
    have ref: "refines r' ?a" using abs_evicted [OF L(1) r'(2)] r'(2) L(2) by (auto simp: refines_def evicted_def)
    have fi: "frame_indices r f = Some i" "flag_of r i" using r'(2) by (auto simp: evicted_def frames_okD [OF L(1)] tracked_def)
    then have has: "arc_has a (page_of r i) f True" using arc_has_abs [OF L(1)] L(2) by auto
    note one = tracked_unique(1,2) [OF assms has]
    have "tracked_page r' = (tracked_page r)(f := None)" "may_go r' = (may_go r)(f := False)"
      by (rule tracked_eqI [OF ref, where m = "(tracked_page r)(f := None)" and g = "(may_go r)(f := False)"]; use one in \<open>auto simp: abs\<close>)+
    moreover have "r_capacity r' = r_capacity r" using refines_cap [OF ref] refines_cap [OF assms] by (simp add: arc_put_def arc_drop_def)
    moreover have "may_go r f" using has abs(2) by blast
    ultimately show ?thesis using r'(1) undo_eviction_restores [OF L(1) r'(2), where 'e = 'e] ref by (auto simp: replacer_ok_def)
  qed
qed

lemma replacer_okE: "replacer_ok r \<Longrightarrow> (\<And>a. refines r a \<Longrightarrow> P) \<Longrightarrow> P"
  by (auto simp: replacer_ok_def)

lemma tracked_inj: "refines r a \<Longrightarrow> tracked_page r f = Some p \<Longrightarrow> tracked_page r g = Some p \<Longrightarrow> f = g"
  using tracked_abs(1) tracked_unique(2) by metis

lemma may_go_tracked: "refines r a \<Longrightarrow> may_go r f \<Longrightarrow> tracked_page r f \<noteq> None"
  using tracked_abs by fastforce

interpretation ft: frame_tracker replacer_ok tracked_page may_go r_capacity record_access set_evictable begin_eviction undo_eviction eu_frame_id replacer_remove
  by (unfold_locales; erule replacer_okE)
    (erule (2) tracked_inj, erule (1) tracker_access_held, erule (3) tracker_access_fresh, erule tracker_mark, erule tracker_start,
      erule tracker_forget, erule (1) may_go_tracked)

end
