(* ===== verification/Buffer_Pool.thy ===== *)
theory Buffer_Pool
  imports Frame_Tracker Disk_Correct
begin

text \<open>
  The buffer pool (buffer_pool.rs): frames, the page table, pins, page-id allocation, eviction with write-back, and flushing. One operation runs at a time, under the latch of the tables; the disk worker answers each request before the operation goes on.
\<close>


datatype BpmError =
    NoFreeFrame
  | FrameOutOfRange FrameId
  | PageNotCached PageId
  | PoolChannelClosed
  | BpmIo IoError
  | FrameInUse
  | PagePinned PageId
  | NoSuchPage PageId
  | PoolInUse
  | PageIdsExhausted PageIdOutOfRange

record FrameHeader =
  fh_page_id :: "PageId option"
  fh_buf :: bytes
  fh_dirty :: bool

record BufferPoolManager =
  frames :: "FrameHeader list"
  replacer :: ArcReplacer
  free_list :: "FrameId list"
  page_table :: "PageId \<rightharpoonup> FrameId"
  pins :: "u32 list"
  bp_next_page_id :: nat
  free_page_ids :: "PageId set"
  scheduler :: DiskScheduler

type_synonym 'a pool_op = "(BufferPoolManager, BpmError, 'a) sm"

text \<open>A frame taken for a page, and the page that was evicted from it.\<close>

record EvictedPage =
  ev_page_id :: PageId
  ev_data :: bytes

record FrameReservation =
  fr_frame_id :: FrameId
  fr_evicted :: "EvictedPage option"

record PageAllocation =
  pa_next_page_id :: nat
  pa_free_page_ids :: "PageId list"

definition FrameHeader_clear :: "FrameHeader \<Rightarrow> FrameHeader" where
  "FrameHeader_clear f = f\<lparr>fh_dirty := False, fh_page_id := None\<rparr>"

definition BufferPoolManager_new :: "nat \<Rightarrow> ArcReplacer \<Rightarrow> DiskScheduler \<Rightarrow> ('e, BufferPoolManager) result" where
  "BufferPoolManager_new num_frames r s =
     bindR (assertR (r_capacity r = num_frames)) (\<lambda>_.
     Ok \<lparr>frames = replicate num_frames \<lparr>fh_page_id = None, fh_buf = replicate PAGE_SIZE 0, fh_dirty = False\<rparr>,
         replacer = r, free_list = map FrameId [0..<num_frames], page_table = Map.empty, pins = replicate num_frames 0,
         bp_next_page_id = 0, free_page_ids = {}, scheduler = s\<rparr>)"

section \<open>Parts of the pool\<close>

definition upd_replacer :: "(ArcReplacer \<Rightarrow> (BpmError, ArcReplacer) result) \<Rightarrow> unit pool_op" where
  "upd_replacer g = bindS (getS replacer) (\<lambda>r. bindS (liftS (g r)) (\<lambda>r. modS (\<lambda>b. b\<lparr>replacer := r\<rparr>)))"

definition bpm_frame :: "FrameId \<Rightarrow> FrameHeader pool_op" where
  "bpm_frame fid =
     bindS (getS frames) (\<lambda>fs. if frame_raw fid < length fs then returnS (fs ! frame_raw fid) else raiseS (FrameOutOfRange fid))"

definition upd_frame :: "FrameId \<Rightarrow> (FrameHeader \<Rightarrow> FrameHeader) \<Rightarrow> unit pool_op" where
  "upd_frame fid g = modS (\<lambda>b. b\<lparr>frames := (frames b)[frame_raw fid := g (frames b ! frame_raw fid)]\<rparr>)"

definition pins_of :: "FrameId \<Rightarrow> u32 pool_op" where
  "pins_of fid = bindS (getS pins) (\<lambda>ps. liftS (index_get ps (frame_raw fid)))"

definition set_pins :: "FrameId \<Rightarrow> u32 \<Rightarrow> unit pool_op" where
  "set_pins fid n = bindS (getS pins) (\<lambda>ps. bindS (liftS (index_put ps (frame_raw fid) n)) (\<lambda>ps. modS (\<lambda>b. b\<lparr>pins := ps\<rparr>)))"

definition allocate_page_id :: "PageId pool_op" where
  "allocate_page_id =
     bindS (getS free_page_ids) (\<lambda>ids.
     if ids \<noteq> {} then bindS (modS (\<lambda>b. b\<lparr>free_page_ids := ids - {Min ids}\<rparr>)) (\<lambda>_. returnS (Min ids))
     else bindS (getS bp_next_page_id) (\<lambda>n.
       bindS (liftS (map_err PageIdsExhausted (try_from_usize n))) (\<lambda>pid.
       bindS (modS (\<lambda>b. b\<lparr>bp_next_page_id := n + 1\<rparr>)) (\<lambda>_. returnS pid))))"

text \<open>One request to the disk worker and its answer.\<close>

definition run_disk_request :: "PageId \<Rightarrow> bool \<Rightarrow> bytes \<Rightarrow> bytes pool_op" where
  "run_disk_request pid w data =
     (\<lambda>b. let req = \<lparr>rq_page_id = pid, is_write = w, rq_data = data, promise = length (answers (scheduler b))\<rparr> in
        case schedule [req] (scheduler b) of
          (Ok _, s) \<Rightarrow>
            (let s = run_worker s; b = b\<lparr>scheduler := s\<rparr> in
             case map_of (rev (answers s)) (promise req) of
               Some (Ok d) \<Rightarrow> (Ok d, b)
             | Some (Err e) \<Rightarrow> (Err (BpmIo e), b)
             | _ \<Rightarrow> (Err PoolChannelClosed, b))
        | (_, s) \<Rightarrow> (Err PoolChannelClosed, b\<lparr>scheduler := s\<rparr>))"

definition read_from_disk :: "PageId \<Rightarrow> bytes pool_op" where
  "read_from_disk pid = run_disk_request pid False (replicate PAGE_SIZE 0)"

definition write_to_disk :: "PageId \<Rightarrow> bytes \<Rightarrow> unit pool_op" where
  "write_to_disk pid b = bindS (run_disk_request pid True b) (\<lambda>_. returnS ())"

section \<open>Frames\<close>

text \<open>Leaving while an eviction is not committed drops it, which undoes it.\<close>

definition dropping :: "EvictionUndo \<Rightarrow> 'a pool_op \<Rightarrow> 'a pool_op" where
  "dropping u m = (\<lambda>b. case m b of
     (Err e, b) \<Rightarrow> (case undo_eviction (replacer b) u of Ok r \<Rightarrow> (Err e, b\<lparr>replacer := r\<rparr>) | Err e \<Rightarrow> (Err e, b) | Panic \<Rightarrow> (Panic, b))
   | r \<Rightarrow> r)"

definition get_free_frame :: "FrameReservation pool_op" where
  "get_free_frame =
     bindS (getS free_list) (\<lambda>fl.
     if fl \<noteq> [] then
       bindS (modS (\<lambda>b. b\<lparr>free_list := butlast fl\<rparr>)) (\<lambda>_. returnS \<lparr>fr_frame_id = last fl, fr_evicted = None\<rparr>)
     else
       bindS (getS replacer) (\<lambda>r.
       bindS (liftS (begin_eviction r)) (\<lambda>(eviction, r).
       bindS (modS (\<lambda>b. b\<lparr>replacer := r\<rparr>)) (\<lambda>_.
       case eviction of
         None \<Rightarrow> raiseS NoFreeFrame
       | Some u \<Rightarrow>
           let fid = eu_frame_id u in
           bindS (pins_of fid) (\<lambda>n.
           if n > 0 then
             bindS (upd_replacer (\<lambda>r. undo_eviction r u)) (\<lambda>_.
             bindS (upd_replacer (\<lambda>r. set_evictable r fid False)) (\<lambda>_. raiseS FrameInUse))
           else
             bindS (dropping u (bpm_frame fid)) (\<lambda>frame.
             case fh_page_id frame of
               None \<Rightarrow> returnS \<lparr>fr_frame_id = fid, fr_evicted = None\<rparr>
             | Some pid \<Rightarrow>
                 bindS (if fh_dirty frame then dropping u (write_to_disk pid (fh_buf frame)) else returnS ()) (\<lambda>_.
                 bindS (modS (\<lambda>b. b\<lparr>page_table := (page_table b)(pid := None)\<rparr>)) (\<lambda>_.
                 bindS (upd_frame fid FrameHeader_clear) (\<lambda>_.
                 returnS \<lparr>fr_frame_id = fid, fr_evicted = Some \<lparr>ev_page_id = pid, ev_data = fh_buf frame\<rparr>\<rparr>)))))))))"

definition push_free :: "FrameId \<Rightarrow> unit pool_op" where
  "push_free fid = modS (\<lambda>b. b\<lparr>free_list := free_list b @ [fid]\<rparr>)"

definition restore_frame :: "FrameReservation \<Rightarrow> unit pool_op" where
  "restore_frame res =
     (let fid = fr_frame_id res in
      case fr_evicted res of
        None \<Rightarrow> push_free fid
      | Some ev \<Rightarrow>
          let pid = ev_page_id ev; data = ev_data ev in
          bindS (getS (\<lambda>b. page_table b pid \<noteq> None)) (\<lambda>reloaded.
          if reloaded then push_free fid
          else bindS (getS (\<lambda>b. frame_raw fid < length (frames b))) (\<lambda>exists.
            if \<not> exists then push_free fid
            else
              bindS (upd_frame fid (\<lambda>f. f\<lparr>fh_page_id := Some pid, fh_buf := data\<rparr>)) (\<lambda>_.
              bindS (modS (\<lambda>b. b\<lparr>page_table := (page_table b)(pid \<mapsto> fid)\<rparr>)) (\<lambda>_.
              bindS (upd_replacer (\<lambda>r. record_access r fid pid)) (\<lambda>_.
              upd_replacer (\<lambda>r. set_evictable r fid True)))))))"

definition restoring :: "FrameReservation \<Rightarrow> 'a pool_op \<Rightarrow> 'a pool_op" where
  "restoring res m = (\<lambda>b. case m b of
     (Err e, b) \<Rightarrow> (case restore_frame res b of (Ok _, b) \<Rightarrow> (Err e, b) | (Err e, b) \<Rightarrow> (Err e, b) | (Panic, b) \<Rightarrow> (Panic, b))
   | r \<Rightarrow> r)"

text \<open>What pins a page to a frame in the tables, when it enters the pool.\<close>

definition enter_page :: "FrameId \<Rightarrow> PageId \<Rightarrow> unit pool_op" where
  "enter_page fid pid =
     bindS (modS (\<lambda>b. b\<lparr>page_table := (page_table b)(pid \<mapsto> fid)\<rparr>)) (\<lambda>_.
     bindS (upd_replacer (\<lambda>r. record_access r fid pid)) (\<lambda>_.
     upd_replacer (\<lambda>r. set_evictable r fid False)))"

definition load_into_free_frame :: "PageId \<Rightarrow> bool \<Rightarrow> FrameId pool_op" where
  "load_into_free_frame pid dirty =
     bindS get_free_frame (\<lambda>res.
     let fid = fr_frame_id res in
     bindS (bpm_frame fid) (\<lambda>_.
     bindS (restoring res (read_from_disk pid)) (\<lambda>data.
     bindS (upd_frame fid (\<lambda>f. f\<lparr>fh_buf := data, fh_page_id := Some pid\<rparr>)) (\<lambda>_.
     bindS (set_pins fid 1) (\<lambda>_.
     bindS (upd_frame fid (\<lambda>f. f\<lparr>fh_dirty := dirty\<rparr>)) (\<lambda>_.
     bindS (enter_page fid pid) (\<lambda>_. returnS fid)))))))"

definition release_pin :: "FrameId \<Rightarrow> unit pool_op" where
  "release_pin fid =
     bindS (pins_of fid) (\<lambda>n.
     case checked_sub n 1 of
       Some m \<Rightarrow>
         bindS (set_pins fid m) (\<lambda>_. if m = 0 then upd_replacer (\<lambda>r. set_evictable r fid True) else returnS ())
     | None \<Rightarrow> returnS ())"

section \<open>Operations\<close>

text \<open>A hit pins the frame under the lock of the tables and then waits for the latch of the frame; when the frame was given to another page
  meanwhile, the lookup starts over. The first argument bounds how often.\<close>

fun pin_page :: "nat \<Rightarrow> PageId \<Rightarrow> bool \<Rightarrow> FrameId pool_op" where
  "pin_page 0 pid dirty = liftS Panic"
| "pin_page (Suc n) pid dirty =
     bindS (getS (\<lambda>b. page_table b pid)) (\<lambda>found. case found of
       None \<Rightarrow> load_into_free_frame pid dirty
     | Some fid \<Rightarrow>
         bindS (upd_replacer (\<lambda>r. record_access r fid pid)) (\<lambda>_.
         bindS (pins_of fid) (\<lambda>k.
         bindS (liftS (expectR (checked_add k 1))) (\<lambda>k.
         bindS (set_pins fid k) (\<lambda>_.
         bindS (upd_replacer (\<lambda>r. set_evictable r fid False)) (\<lambda>_.
         bindS (bpm_frame fid) (\<lambda>frame.
         if fh_page_id frame \<noteq> Some pid then bindS (release_pin fid) (\<lambda>_. pin_page n pid dirty)
         else if dirty then bindS (upd_frame fid (\<lambda>f. f\<lparr>fh_dirty := True\<rparr>)) (\<lambda>_. returnS fid)
         else returnS fid)))))))"

definition bpm_read_page :: "PageId \<Rightarrow> FrameId pool_op" where
  "bpm_read_page pid = pin_page 1 pid False"

definition bpm_write_page :: "PageId \<Rightarrow> FrameId pool_op" where
  "bpm_write_page pid = pin_page 1 pid True"

definition new_page :: "(PageId \<times> FrameId) pool_op" where
  "new_page =
     bindS get_free_frame (\<lambda>res.
     let fid = fr_frame_id res in
     bindS (restoring res allocate_page_id) (\<lambda>pid.
     bindS (bpm_frame fid) (\<lambda>_.
     bindS (upd_frame fid (\<lambda>f. (FrameHeader_clear f)\<lparr>fh_page_id := Some pid, fh_dirty := True\<rparr>)) (\<lambda>_.
     bindS (set_pins fid 1) (\<lambda>_.
     bindS (enter_page fid pid) (\<lambda>_. returnS (pid, fid)))))))"

definition bpm_deallocate :: "PageId \<Rightarrow> bool pool_op" where
  "bpm_deallocate pid =
     (\<lambda>b. case deallocate_page pid (dm (scheduler b)) of
        (r, d) \<Rightarrow> (map_err BpmIo r, b\<lparr>scheduler := (scheduler b)\<lparr>dm := d\<rparr>\<rparr>))"

definition delete_page :: "PageId \<Rightarrow> unit pool_op" where
  "delete_page pid =
     bindS (getS (\<lambda>b. page_table b pid)) (\<lambda>found.
     bindS (case found of
         None \<Rightarrow> returnS False
       | Some fid \<Rightarrow>
           bindS (pins_of fid) (\<lambda>n.
           if n > 0 then raiseS (PagePinned pid)
           else bindS (bpm_frame fid) (\<lambda>_.
             bindS (upd_frame fid FrameHeader_clear) (\<lambda>_.
             bindS (modS (\<lambda>b. b\<lparr>page_table := (page_table b)(pid := None)\<rparr>)) (\<lambda>_.
             bindS (push_free fid) (\<lambda>_. returnS True)))))) (\<lambda>resident.
     bindS (bpm_deallocate pid) (\<lambda>on_disk.
     if \<not> resident \<and> \<not> on_disk then raiseS (NoSuchPage pid)
     else bindS (getS replacer) (\<lambda>r.
       bindS (liftS (replacer_remove r pid)) (\<lambda>(_, r).
       modS (\<lambda>b. b\<lparr>replacer := r, free_page_ids := insert pid (free_page_ids b)\<rparr>))))))"

definition live_page_count :: "(BufferPoolManager, 'e, nat) sm" where
  "live_page_count = bindS (getS (\<lambda>b. (bp_next_page_id b, card (free_page_ids b)))) (\<lambda>(n, k). liftS (sub_usize n k))"

definition page_is_allocated :: "BufferPoolManager \<Rightarrow> PageId \<Rightarrow> bool" where
  "page_is_allocated b pid \<longleftrightarrow> as_usize pid < bp_next_page_id b \<and> pid \<notin> free_page_ids b"

definition bpm_allocation :: "BufferPoolManager \<Rightarrow> PageAllocation" where
  "bpm_allocation b = \<lparr>pa_next_page_id = bp_next_page_id b, pa_free_page_ids = sorted_list_of_set (free_page_ids b)\<rparr>"

definition resume_allocation :: "PageAllocation \<Rightarrow> unit pool_op" where
  "resume_allocation a =
     bindS (getS (\<lambda>b. bp_next_page_id b \<noteq> 0 \<or> free_page_ids b \<noteq> {})) (\<lambda>used.
     if used then raiseS PoolInUse
     else bindS (forS (\<lambda>pid. bindS (bpm_deallocate pid) (\<lambda>_. returnS ())) (pa_free_page_ids a)) (\<lambda>_.
       modS (\<lambda>b. b\<lparr>bp_next_page_id := pa_next_page_id a, free_page_ids := set (pa_free_page_ids a)\<rparr>)))"

definition flush_frame :: "nat \<Rightarrow> nat pool_op" where
  "flush_frame i =
     bindS (getS (\<lambda>b. frames b ! i)) (\<lambda>frame.
     case fh_page_id frame of
       Some pid \<Rightarrow>
         (if fh_dirty frame
          then bindS (write_to_disk pid (fh_buf frame)) (\<lambda>_. bindS (upd_frame (FrameId i) (\<lambda>f. f\<lparr>fh_dirty := False\<rparr>)) (\<lambda>_. returnS 1))
          else returnS 0)
     | None \<Rightarrow> returnS 0)"

fun flush_frames :: "nat list \<Rightarrow> nat pool_op" where
  "flush_frames [] = returnS 0"
| "flush_frames (i # is) = bindS (flush_frame i) (\<lambda>n. bindS (flush_frames is) (\<lambda>m. returnS (n + m)))"

definition flush_all :: "nat pool_op" where
  "flush_all =
     bindS (getS (\<lambda>b. length (frames b))) (\<lambda>n.
     bindS (flush_frames [0..<n]) (\<lambda>written.
     if written > 0 then
       bindS (\<lambda>b. case dm_sync (dm (scheduler b)) of (r, d) \<Rightarrow> (map_err BpmIo r, b\<lparr>scheduler := (scheduler b)\<lparr>dm := d\<rparr>\<rparr>)) (\<lambda>_. returnS written)
     else returnS written))"

definition flush_page :: "PageId \<Rightarrow> unit pool_op" where
  "flush_page pid =
     bindS (getS (\<lambda>b. page_table b pid)) (\<lambda>found. case found of
       None \<Rightarrow> raiseS (PageNotCached pid)
     | Some fid \<Rightarrow>
         bindS (bpm_frame fid) (\<lambda>frame.
         if fh_page_id frame \<noteq> Some pid then raiseS (PageNotCached pid)
         else bindS (write_to_disk pid (fh_buf frame)) (\<lambda>_. upd_frame fid (\<lambda>f. f\<lparr>fh_dirty := False\<rparr>))))"

section \<open>Guards in use\<close>

definition page_data :: "FrameId \<Rightarrow> BufferPoolManager \<Rightarrow> bytes" where
  "page_data fid b = fh_buf (frames b ! frame_raw fid)"

definition set_page_data :: "FrameId \<Rightarrow> bytes \<Rightarrow> unit pool_op" where
  "set_page_data fid data = upd_frame fid (\<lambda>f. f\<lparr>fh_buf := data\<rparr>)"

text \<open>Code that works on one page under a guard and drops the guard when it is done, whether it succeeds or not. What the code does to
  the bytes of the page is the argument \<open>g\<close>; errors of the pool are wrapped in the errors of the caller.\<close>

definition reading :: "PageId \<Rightarrow> (BpmError \<Rightarrow> 'e) \<Rightarrow> (bytes \<Rightarrow> ('e, 'a) result) \<Rightarrow> (BufferPoolManager, 'e, 'a) sm" where
  "reading pid wrap g = (\<lambda>b. case bpm_read_page pid b of
     (Ok fid, b) \<Rightarrow> (case release_pin fid b of (Panic, b') \<Rightarrow> (Panic, b') | (_, b') \<Rightarrow> (g (page_data fid b), b'))
   | (Err e, b) \<Rightarrow> (Err (wrap e), b) | (Panic, b) \<Rightarrow> (Panic, b))"

definition under_guard :: "FrameId \<Rightarrow> (bytes, 'e, 'a) sm \<Rightarrow> (BufferPoolManager, 'e, 'a) sm" where
  "under_guard fid g = (\<lambda>b. case g (page_data fid b) of
     (r, data) \<Rightarrow> (case bindS (set_page_data fid data) (\<lambda>_. release_pin fid) b of (Panic, b') \<Rightarrow> (Panic, b') | (_, b') \<Rightarrow> (r, b')))"

definition writing :: "PageId \<Rightarrow> (BpmError \<Rightarrow> 'e) \<Rightarrow> (bytes, 'e, 'a) sm \<Rightarrow> (BufferPoolManager, 'e, 'a) sm" where
  "writing pid wrap g = (\<lambda>b. case bpm_write_page pid b of
     (Ok fid, b) \<Rightarrow> under_guard fid g b | (Err e, b) \<Rightarrow> (Err (wrap e), b) | (Panic, b) \<Rightarrow> (Panic, b))"

definition adding :: "(BpmError \<Rightarrow> 'e) \<Rightarrow> (PageId \<Rightarrow> (bytes, 'e, 'a) sm) \<Rightarrow> (BufferPoolManager, 'e, 'a) sm" where
  "adding wrap g = (\<lambda>b. case new_page b of
     (Ok (pid, fid), b) \<Rightarrow> under_guard fid (g pid) b | (Err e, b) \<Rightarrow> (Err (wrap e), b) | (Panic, b) \<Rightarrow> (Panic, b))"

end
