(* ===== verification/Buffer_Pool_Correct.thy ===== *)
theory Buffer_Pool_Correct
  imports Buffer_Pool
begin

text \<open>
  Correctness of the buffer pool: whatever is cached, evicted or written back, the pool is a map from page ids to bytes.
\<close>

section \<open>What the pool keeps\<close>

definition held :: "FrameHeader list \<Rightarrow> FrameId \<rightharpoonup> PageId" where
  "held fs f = (if frame_raw f < length fs then fh_page_id (fs ! frame_raw f) else None)"

definition pinned :: "u32 list \<Rightarrow> FrameId \<Rightarrow> bool" where
  "pinned ps f \<longleftrightarrow> frame_raw f < length ps \<and> 0 < ps ! frame_raw f"

text \<open>The tables agree with each other; the frames \<open>R\<close> are taken from the free list and not yet used.\<close>

definition tables_ok :: "FrameId set \<Rightarrow> BufferPoolManager \<Rightarrow> bool" where
  "tables_ok R b \<longleftrightarrow>
     replacer_ok (replacer b) \<and> r_capacity (replacer b) = length (frames b) \<and> length (pins b) = length (frames b) \<and>
     (\<forall>p f. page_table b p = Some f \<longleftrightarrow> held (frames b) f = Some p) \<and>
     tracked_page (replacer b) = held (frames b) \<and>
     (\<forall>f. may_go (replacer b) f \<longleftrightarrow> held (frames b) f \<noteq> None \<and> \<not> pinned (pins b) f) \<and>
     (\<forall>f. pinned (pins b) f \<longrightarrow> held (frames b) f \<noteq> None) \<and>
     distinct (free_list b) \<and> R \<inter> set (free_list b) = {} \<and>
     set (free_list b) \<union> R = {f. frame_raw f < length (frames b) \<and> held (frames b) f = None}"

definition store_ok :: "BufferPoolManager \<Rightarrow> (PageId \<rightharpoonup> bytes) \<Rightarrow> bool" where
  "store_ok b D \<longleftrightarrow>
     tx (scheduler b) \<and> requests (scheduler b) = [] \<and> disk_rel (dm (scheduler b)) D \<and>
     (\<forall>i < length (frames b). length (fh_buf (frames b ! i)) = PAGE_SIZE \<and>
       (\<forall>p. fh_page_id (frames b ! i) = Some p \<and> \<not> fh_dirty (frames b ! i) \<longrightarrow> D p = Some (fh_buf (frames b ! i))))"

definition contents :: "BufferPoolManager \<Rightarrow> (PageId \<rightharpoonup> bytes) \<Rightarrow> PageId \<rightharpoonup> bytes" where
  "contents b D p = (case page_table b p of Some f \<Rightarrow> Some (fh_buf (frames b ! frame_raw f)) | None \<Rightarrow> D p)"

definition alloc_ok :: "BufferPoolManager \<Rightarrow> PageId set \<Rightarrow> bool" where
  "alloc_ok b ps \<longleftrightarrow> finite (free_page_ids b) \<and> (\<forall>p \<in> free_page_ids b. as_usize p < bp_next_page_id b) \<and>
     bp_next_page_id b \<le> 4294967295 \<and> (\<forall>p \<in> ps. page_is_allocated b p)"

definition pool_ok :: "FrameId set \<Rightarrow> BufferPoolManager \<Rightarrow> (PageId \<rightharpoonup> bytes) \<Rightarrow> bool" where
  "pool_ok R b C \<longleftrightarrow> tables_ok R b \<and> alloc_ok b (dom C) \<and> (\<exists>D. store_ok b D \<and> C = contents b D)"

lemma frame_eqI: "frame_raw f = frame_raw g \<longleftrightarrow> f = g"
  by (cases f; cases g) simp

lemma held_update: "frame_raw f < length fs \<Longrightarrow> held (fs[frame_raw f := x]) = (held fs)(f := fh_page_id x)"
  by (auto simp: held_def fun_eq_iff nth_list_update frame_eqI)

lemma pinned_update: "frame_raw f < length ps \<Longrightarrow> pinned (ps[frame_raw f := n]) = (pinned ps)(f := 0 < n)"
  by (auto simp: pinned_def fun_eq_iff nth_list_update frame_eqI)

lemma held_Some: "held fs f = Some p \<longleftrightarrow> frame_raw f < length fs \<and> fh_page_id (fs ! frame_raw f) = Some p"
  by (simp add: held_def)

lemmas tables_okD = tables_ok_def [THEN iffD1]

lemma held_card: "finite (dom (held fs))" "frame_raw f < length fs \<Longrightarrow> held fs f = None \<Longrightarrow> card (dom (held fs)) < length fs"
proof -
  have sub: "dom (held fs) \<subseteq> FrameId ` {..<length fs}"
  proof
    fix g assume "g \<in> dom (held fs)"
    then have "frame_raw g < length fs" by (auto simp: held_def split: if_splits)
    then show "g \<in> FrameId ` {..<length fs}" by (cases g) auto
  qed
  then show "finite (dom (held fs))" by (rule finite_subset) simp
  assume f: "frame_raw f < length fs" "held fs f = None"
  have "card (dom (held fs)) < card (FrameId ` {..<length fs})"
  proof (rule psubset_card_mono)
    have "f \<in> FrameId ` {..<length fs}" using f(1) by (cases f) auto
    moreover have "f \<notin> dom (held fs)" using f(2) by auto
    ultimately show "dom (held fs) \<subset> FrameId ` {..<length fs}" using sub by blast
  qed simp
  also have "... = length fs" by (simp add: card_image inj_on_def)
  finally show "card (dom (held fs)) < length fs" .
qed

section \<open>Steps of the tables\<close>

lemma tables_take:
  assumes "tables_ok {} b" "free_list b \<noteq> []"
  shows "tables_ok {last (free_list b)} (b\<lparr>free_list := butlast (free_list b)\<rparr>)"
proof -
  obtain fl f where fl: "free_list b = fl @ [f]" using assms(2) by (cases "free_list b" rule: rev_cases) auto
  then show ?thesis using assms(1) by (auto simp: tables_ok_def)
qed

lemma tables_put:
  assumes "tables_ok {f} b"
  shows "tables_ok {} (b\<lparr>free_list := free_list b @ [f]\<rparr>)"
  using assms by (simp add: tables_ok_def)

lemma tables_evict:
  assumes ok: "tables_ok {} b" and f: "held (frames b) f = Some p" "\<not> pinned (pins b) f" and x: "fh_page_id x = None"
    and r: "replacer_ok r" "tracked_page r = (tracked_page (replacer b))(f := None)" "may_go r = (may_go (replacer b))(f := False)"
      "r_capacity r = r_capacity (replacer b)"
  shows "tables_ok {f} (b\<lparr>replacer := r, page_table := (page_table b)(p := None), frames := (frames b)[frame_raw f := x]\<rparr>)"
proof -
  have l: "frame_raw f < length (frames b)" using f(1) by (simp add: held_Some)
  have pt: "page_table b p = Some g \<longleftrightarrow> held (frames b) g = Some p" for p g using ok by (simp add: tables_ok_def)
  then have inj: "held (frames b) g = Some p \<Longrightarrow> g = f" for g using f(1) by (metis option.inject)
  have pt': "((page_table b)(p := None)) q = Some g \<longleftrightarrow> ((held (frames b))(f := None)) g = Some q" for q g
  proof (cases "g = f")
    case True
    then show ?thesis using pt [of q f] f(1) by (auto simp: fun_upd_def)
  next
    case False
    then have "held (frames b) g \<noteq> Some p" using inj by blast
    then show ?thesis using pt [of q g] False by (simp add: fun_upd_def)
  qed
  have fl: "set (free_list b) = {g. frame_raw g < length (frames b) \<and> held (frames b) g = None}" using ok by (simp add: tables_ok_def)
  have "set (free_list b) \<union> {f} = {g. frame_raw g < length (frames b) \<and> ((held (frames b))(f := None)) g = None}"
    using l unfolding fl by (auto simp: set_eq_iff)
  then show ?thesis using ok f x r l pt' by (simp add: tables_ok_def held_update fl) 
qed

lemma tables_install:
  assumes ok: "tables_ok {f} b" and p: "page_table b p = None" and x: "fh_page_id x = Some p"
    and r: "replacer_ok r" "tracked_page r = (tracked_page (replacer b))(f \<mapsto> p)" "may_go r = (may_go (replacer b))(f := n = 0)"
      "r_capacity r = r_capacity (replacer b)"
  shows "tables_ok {} (b\<lparr>frames := (frames b)[frame_raw f := x], pins := (pins b)[frame_raw f := n],
    page_table := (page_table b)(p \<mapsto> f), replacer := r\<rparr>)"
proof -
  have fl: "set (free_list b) \<union> {f} = {g. frame_raw g < length (frames b) \<and> held (frames b) g = None}" "f \<notin> set (free_list b)"
    using ok by (auto simp: tables_ok_def)
  then have l: "frame_raw f < length (frames b)" "held (frames b) f = None" by auto
  have n: "length (pins b) = length (frames b)" using ok by (simp add: tables_ok_def)
  have pt: "page_table b p = Some g \<longleftrightarrow> held (frames b) g = Some p" for p g using ok by (simp add: tables_ok_def)
  have no: "held (frames b) g \<noteq> Some p" for g using p pt [of p g] by auto
  have pt': "((page_table b)(p \<mapsto> f)) q = Some g \<longleftrightarrow> ((held (frames b))(f \<mapsto> p)) g = Some q" for q g
    using no l(2) by (auto simp: pt)
  have "set (free_list b) = {g. frame_raw g < length (frames b) \<and> ((held (frames b))(f \<mapsto> p)) g = None}"
    using fl by (auto simp: set_eq_iff)
  moreover have "may_go r g \<longleftrightarrow> ((held (frames b))(f \<mapsto> p)) g \<noteq> None \<and> \<not> ((pinned (pins b))(f := 0 < n)) g" for g
    using ok r(3) by (simp add: tables_ok_def word_gt_0)
  ultimately show ?thesis using ok x r l n pt' by (simp add: tables_ok_def held_update pinned_update)
qed

lemma tables_same:
  assumes "tables_ok R b" "map fh_page_id fs = map fh_page_id (frames b)"
  shows "tables_ok R (b\<lparr>frames := fs\<rparr>)"
proof -
  have "length fs = length (frames b)" using assms(2) map_eq_imp_length_eq by blast
  moreover have "held fs = held (frames b)" using assms(2) \<open>length fs = _\<close>
    by (auto simp: held_def fun_eq_iff) (metis nth_map)
  ultimately show ?thesis using assms(1) by (simp add: tables_ok_def)
qed

lemma tables_pin:
  assumes ok: "tables_ok R b" and f: "held (frames b) f = Some p"
    and r: "replacer_ok r" "tracked_page r = tracked_page (replacer b)" "may_go r = (may_go (replacer b))(f := n = 0)"
      "r_capacity r = r_capacity (replacer b)"
  shows "tables_ok R (b\<lparr>pins := (pins b)[frame_raw f := n], replacer := r\<rparr>)"
proof -
  have l: "frame_raw f < length (pins b)" using ok f by (simp add: tables_ok_def held_Some)
  have m: "may_go (replacer b) g \<longleftrightarrow> held (frames b) g \<noteq> None \<and> \<not> pinned (pins b) g" for g using ok by (simp add: tables_ok_def)
  have "may_go r g \<longleftrightarrow> held (frames b) g \<noteq> None \<and> \<not> ((pinned (pins b))(f := 0 < n)) g" for g
    using r(3) f by (auto simp: word_gt_0 m)
  then show ?thesis using ok f r l by (simp add: tables_ok_def pinned_update)
qed

lemma tables_free:
  assumes ok: "tables_ok {} b" and f: "held (frames b) f = Some p" "\<not> pinned (pins b) f" and x: "fh_page_id x = None"
    and r: "replacer_ok r" "tracked_page r = (\<lambda>f. if tracked_page (replacer b) f = Some p then None else tracked_page (replacer b) f)"
      "may_go r = (\<lambda>f. may_go (replacer b) f \<and> tracked_page (replacer b) f \<noteq> Some p)" "r_capacity r = r_capacity (replacer b)"
  shows "tables_ok {} (b\<lparr>replacer := r, page_table := (page_table b)(p := None), frames := (frames b)[frame_raw f := x],
    free_list := free_list b @ [f]\<rparr>)"
proof -
  have tr: "tracked_page (replacer b) = held (frames b)" using ok by (simp add: tables_ok_def)
  have pt: "page_table b p = Some g \<longleftrightarrow> held (frames b) g = Some p" for p g using ok by (simp add: tables_ok_def)
  then have inj: "tracked_page (replacer b) g = Some p \<longleftrightarrow> g = f" for g using f(1) tr by (metis option.inject)
  have "tables_ok {f} (b\<lparr>replacer := r, page_table := (page_table b)(p := None), frames := (frames b)[frame_raw f := x]\<rparr>)"
    by (rule tables_evict [OF ok f x]) (use r inj in \<open>auto simp: fun_eq_iff\<close>)
  from tables_put [OF this] show ?thesis by simp
qed

lemma tables_forget:
  assumes ok: "tables_ok {} b" and p: "page_table b p = None"
    and r: "replacer_ok r" "tracked_page r = (\<lambda>f. if tracked_page (replacer b) f = Some p then None else tracked_page (replacer b) f)"
      "may_go r = (\<lambda>f. may_go (replacer b) f \<and> tracked_page (replacer b) f \<noteq> Some p)" "r_capacity r = r_capacity (replacer b)"
  shows "tables_ok {} (b\<lparr>replacer := r\<rparr>)"
proof -
  have "tracked_page (replacer b) f \<noteq> Some p" for f using ok p by (simp add: tables_ok_def) (metis option.simps(3))
  then have "tracked_page r = tracked_page (replacer b)" "may_go r = may_go (replacer b)" using r(2,3) by auto
  then show ?thesis using ok r(1,4) by (simp add: tables_ok_def)
qed

section \<open>Requests to the disk\<close>

text \<open>A disk on which no file operation fails any more, with a log that takes records.\<close>

definition healthy :: "DiskManager \<Rightarrow> bool" where
  "healthy d \<longleftrightarrow> ios d = [] \<and> (case wal (store d) of None \<Rightarrow> True | Some w \<Rightarrow> \<not> wal_broken w)"

lemma disk_write:
  assumes rel: "disk_rel d M" and p: "valid_page_id p" "length b = PAGE_SIZE" and r: "dm_write_page p b d = (r, d')"
  obtains M' where "disk_rel d' M'" "\<forall>q. q \<noteq> p \<longrightarrow> M' q = M q" "r = Ok b \<and> M' p = Some b \<or> (\<exists>e. r = Err e) \<and> dom M' = dom M"
proof (cases "wal (store d)")
  case None
  from write_unlogged [OF rel None p(2) r] that [of "M(p \<mapsto> b)"] show thesis using that by force
next
  case (Some w)
  from p have "wf_entry (EPage p b)" by simp
  from write_logged [OF rel Some this r] that [of "M(p \<mapsto> b)"] show thesis using that [of M] by auto
qed

lemma healthy_write:
  assumes rel: "disk_rel d M" and p: "valid_page_id p" "length b = PAGE_SIZE" and r: "dm_write_page p b d = (r, d')" and h: "healthy d"
  shows "r = Ok b \<and> healthy d'"
proof (cases "wal (store d)")
  case None
  then show ?thesis using r h by (auto simp: healthy_def dm_write_page_def data_write_def disk_io_def count_write_def upd_store_def effects Let_def)
next
  case (Some w)
  obtain dur cur where "log_holds (log_env d w) dur cur" using disk_log_holds [OF rel Some] by blast
  then obtain es bs where es: "wal_rel (the_wal (log_env d w)) es bs" by (auto simp: log_holds_def)
  have wf: "wf_entry (EPage p b)" using p by simp
  have nb: "\<not> wal_broken (the_wal (log_env d w))" "outcomes (log_env d w) = []" using h Some by (simp_all add: healthy_def log_env_def)
  from log_page_ok [OF es wf nb(1)] nb(2) obtain w' where
    "log_page p b (log_env d w) = (Ok (), (log_env d w)\<lparr>the_wal := w', outcomes := []\<rparr>)" "\<not> wal_broken w'" by auto
  then show ?thesis using r h Some
    by (auto simp: healthy_def dm_write_page_def on_wal_def count_write_def upd_store_def effects Let_def log_env_def)
qed

lemma healthy_read:
  assumes "dm_read_page p d = (r, d')" "healthy d"
  shows "healthy d'"
proof -
  have data: "read_data n x = (q, y) \<Longrightarrow> healthy x \<Longrightarrow> healthy y" for n x q y
    by (auto simp: read_data_def disk_step_def disk_io_def healthy_def effects split: if_splits)
  show ?thesis
  proof (cases "p \<in> live (store d)")
    case False
    then show ?thesis using assms by (simp add: dm_read_page_def live_offset_def effects)
  next
    case True
    show ?thesis
    proof (cases "wal (store d)")
      case None
      then have "read_data (offset_of p) d = (r, d')" using assms(1) True by (simp add: dm_read_page_def live_offset_def effects)
      then show ?thesis using data assms(2) by blast
    next
      case (Some w)
      obtain q e where q: "wal_read_page p (log_env d w) = (q, e)" by force
      let ?d = "d\<lparr>store := (store d)\<lparr>db_file := data_file e, wal := Some (the_wal e)\<rparr>, ios := outcomes e\<rparr>"
      from read_page_env [OF q] have h: "healthy ?d" "q \<noteq> Panic" using assms(2) Some by (auto simp: healthy_def log_env_def)
      have "dm_read_page p d = (case q of Ok None \<Rightarrow> read_data (offset_of p) ?d | Ok (Some b) \<Rightarrow> (Ok b, ?d) | Err x \<Rightarrow> (Err x, ?d) | Panic \<Rightarrow> (Panic, ?d))"
        using q Some True by (auto simp: dm_read_page_def live_offset_def on_wal_def effects split: result.split option.split)
      then show ?thesis using assms(1) h data [of "offset_of p" ?d r d'] by (auto split: result.splits option.splits)
    qed
  qed
qed

lemma disk_page_length:
  assumes "disk_rel d M" "M p = Some x"
  shows "length x = PAGE_SIZE"
proof (cases "wal (store d)")
  case None
  have "p \<in> live (store d)" using assms by (auto simp: disk_rel_def)
  then show ?thesis using assms None by (auto simp: disk_rel_def)
next
  case (Some w)
  obtain dur cur where h: "log_holds (log_env d w) dur cur" and dom: "dom M = live (store d)"
    and pages: "\<forall>p \<in> live (store d). stored (log_env d w) p \<and> M p = Some (snd cur p)" by (rule disk_rel_logE [OF assms(1) Some])
  obtain es bs where es: "wal_rel w es bs" "snd cur = view_page es (db_file (store d))"
    using h by (auto simp: log_holds_def log_env_def db_view_def)
  have "length img = PAGE_SIZE" if "\<forall>e \<in> set es. wf_entry e" "image_of es p = Some img" for es :: "entry list" and img
    using that by (induction es p rule: image_of.induct) (auto split: option.splits if_splits)
  moreover have "\<forall>e \<in> set es. wf_entry e" using es(1) by (simp add: wal_rel_def)
  moreover have "x = view_page es (db_file (store d)) p" using bspec [OF pages, of p] domI [of M, OF assms(2)] dom assms(2) es(2) by simp
  ultimately show ?thesis by (auto simp: view_page_def split: option.splits)
qed

lemma request_served:
  assumes "tx (scheduler b)" "requests (scheduler b) = []"
    "serve \<lparr>rq_page_id = p, is_write = w, rq_data = x, promise = length (answers (scheduler b))\<rparr> (dm (scheduler b)) = (q, d)"
  shows "\<exists>s. run_disk_request p w x b =
      (case q of Ok y \<Rightarrow> Ok y | Err e \<Rightarrow> Err (BpmIo e) | Panic \<Rightarrow> Err PoolChannelClosed, b\<lparr>scheduler := s\<rparr>) \<and>
    tx s \<and> requests s = [] \<and> dm s = d"
  by (rule exI [of _ "(scheduler b)\<lparr>requests := [], dm := d, answers := answers (scheduler b) @ [(length (answers (scheduler b)), q)]\<rparr>"])
    (use assms in \<open>simp add: run_disk_request_def schedule_def effects run_worker_all Let_def split: result.split\<close>)

text \<open>What an operation leaves as it was: page ids and the frames that are pinned. A healthy disk stays healthy.\<close>

definition kept :: "BufferPoolManager \<Rightarrow> BufferPoolManager \<Rightarrow> bool" where
  "kept b b' \<longleftrightarrow> length (frames b') = length (frames b) \<and>
     (\<forall>f. pinned (pins b) f \<longrightarrow> fh_page_id (frames b' ! frame_raw f) = fh_page_id (frames b ! frame_raw f) \<and>
       fh_buf (frames b' ! frame_raw f) = fh_buf (frames b ! frame_raw f)) \<and>
     (healthy (dm (scheduler b)) \<longrightarrow> healthy (dm (scheduler b')))"

lemma pool_read_disk:
  assumes "store_ok b D" "read_from_disk p b = (r, b')"
  obtains s where "b' = b\<lparr>scheduler := s\<rparr>" "store_ok b' D" "healthy (dm (scheduler b)) \<Longrightarrow> healthy (dm s)"
    "r = Ok (the (D p)) \<and> D p \<noteq> None \<or> r = Err (BpmIo (PageMissing p)) \<and> D p = None \<or> (\<exists>x. r = Err (BpmIo x)) \<and> \<not> healthy (dm (scheduler b))"
proof -
  obtain q d where q: "dm_read_page p (dm (scheduler b)) = (q, d)" by force
  have st: "tx (scheduler b)" "requests (scheduler b) = []" "disk_rel (dm (scheduler b)) D" using assms(1) by (simp_all add: store_ok_def)
  have "serve \<lparr>rq_page_id = p, is_write = False, rq_data = replicate PAGE_SIZE 0, promise = length (answers (scheduler b))\<rparr> (dm (scheduler b)) = (q, d)"
    using q by (simp add: serve_def)
  from request_served [OF st(1,2) this] obtain s where s: "read_from_disk p b =
      (case q of Ok y \<Rightarrow> Ok y | Err e \<Rightarrow> Err (BpmIo e) | Panic \<Rightarrow> Err PoolChannelClosed, b\<lparr>scheduler := s\<rparr>)"
    "tx s" "requests s = []" "dm s = d" by (auto simp: read_from_disk_def)
  note rd = disk_read [OF st(3) q]
  have b': "b' = b\<lparr>scheduler := s\<rparr>" using s(1) assms(2) by simp
  then have "store_ok b' D" using assms(1) s rd by (simp add: store_ok_def)
  moreover have "healthy (dm (scheduler b)) \<Longrightarrow> healthy (dm s)" using healthy_read [OF q] s(4) by simp
  moreover have "r = Ok (the (D p)) \<and> D p \<noteq> None \<or> r = Err (BpmIo (PageMissing p)) \<and> D p = None \<or> (\<exists>x. r = Err (BpmIo x)) \<and> \<not> healthy (dm (scheduler b))"
    using rd s(1) assms(2) by (cases "D p") (auto simp: healthy_def domIff)
  ultimately show thesis using that [of s] b' by blast
qed

lemma pool_write_disk:
  assumes "store_ok b D" "valid_page_id p" "length x = PAGE_SIZE" "write_to_disk p x b = (r, b')"
  obtains s D' where "b' = b\<lparr>scheduler := s\<rparr>" "tx s" "requests s = []" "disk_rel (dm s) D'" "\<forall>q. q \<noteq> p \<longrightarrow> D' q = D q"
    "healthy (dm (scheduler b)) \<Longrightarrow> healthy (dm s)"
    "r = Ok () \<and> D' p = Some x \<or> (\<exists>e. r = Err (BpmIo e)) \<and> dom D' = dom D \<and> \<not> healthy (dm (scheduler b))"
proof -
  obtain q d where q: "dm_write_page p x (dm (scheduler b)) = (q, d)" by force
  have st: "tx (scheduler b)" "requests (scheduler b) = []" "disk_rel (dm (scheduler b)) D" using assms(1) by (simp_all add: store_ok_def)
  have "serve \<lparr>rq_page_id = p, is_write = True, rq_data = x, promise = length (answers (scheduler b))\<rparr> (dm (scheduler b)) = (q, d)"
    using q by (simp add: serve_def)
  from request_served [OF st(1,2) this] obtain s where s: "run_disk_request p True x b =
      (case q of Ok y \<Rightarrow> Ok y | Err e \<Rightarrow> Err (BpmIo e) | Panic \<Rightarrow> Err PoolChannelClosed, b\<lparr>scheduler := s\<rparr>)"
    "tx s" "requests s = []" "dm s = d" by blast
  from disk_write [OF st(3) assms(2,3) q] obtain D' where D': "disk_rel d D'" "\<forall>q. q \<noteq> p \<longrightarrow> D' q = D q"
    "q = Ok x \<and> D' p = Some x \<or> (\<exists>e. q = Err e) \<and> dom D' = dom D" .
  note h = healthy_write [OF st(3) assms(2,3) q]
  have "r = Ok () \<and> D' p = Some x \<or> (\<exists>e. r = Err (BpmIo e)) \<and> dom D' = dom D \<and> \<not> healthy (dm (scheduler b))"
    using D'(3) s(1) assms(4) h by (auto simp: write_to_disk_def effects)
  moreover have "b' = b\<lparr>scheduler := s\<rparr>" using D'(3) s(1) assms(4) by (auto simp: write_to_disk_def effects)
  ultimately show thesis using that [of s D'] s D' h by blast
qed

section \<open>Steps of the contents\<close>

lemma tables_held: "tables_ok R b \<Longrightarrow> page_table b p = Some f \<longleftrightarrow> held (frames b) f = Some p"
  by (simp add: tables_ok_def)

lemma tables_unique: "tables_ok R b \<Longrightarrow> held (frames b) f = Some p \<Longrightarrow> held (frames b) g = Some p \<Longrightarrow> g = f"
  using tables_held [of R b p] by (metis option.inject)

lemma contents_step:
  assumes ok: "tables_ok R b" and f: "frame_raw f < length (frames b)" "held (frames b) f = None \<or> held (frames b) f = Some p"
    and b': "frames b' = (frames b)[frame_raw f := x]" "\<forall>q. q \<noteq> p \<longrightarrow> page_table b' q = page_table b q" "\<forall>q. q \<noteq> p \<longrightarrow> D' q = D q"
  shows "contents b' D' = (contents b D)(p := contents b' D' p)"
proof
  fix q
  show "contents b' D' q = ((contents b D)(p := contents b' D' p)) q"
  proof (cases "q = p")
    case False
    have "g \<noteq> f" if "page_table b q = Some g" for g using that tables_held [OF ok] f(2) False by auto
    then show ?thesis using False b' f(1) by (auto simp: contents_def frame_eqI split: option.splits)
  qed simp
qed

lemma contents_held: "tables_ok R b \<Longrightarrow> held (frames b) f = Some p \<Longrightarrow> contents b D p = Some (fh_buf (frames b ! frame_raw f))"
  using tables_held [of R b p f] by (simp add: contents_def)

lemma contents_evict:
  assumes "tables_ok R b" "held (frames b) f = Some p" "D' p = Some (fh_buf (frames b ! frame_raw f))" "\<forall>q. q \<noteq> p \<longrightarrow> D' q = D q"
    "frames b' = (frames b)[frame_raw f := x]" "page_table b' = (page_table b)(p := None)"
  shows "contents b' D' = contents b D"
proof -
  have l: "frame_raw f < length (frames b)" using assms(2) by (simp add: held_Some)
  have "contents b' D' p = contents b D p" using assms(3,6) contents_held [OF assms(1,2)] by (simp add: contents_def)
  then show ?thesis using contents_step [OF assms(1) l, of p b' x D' D] assms by (simp add: fun_upd_idem)
qed

lemma contents_install:
  assumes "tables_ok R b" "frame_raw f < length (frames b)" "held (frames b) f = None \<or> held (frames b) f = Some p"
    "frames b' = (frames b)[frame_raw f := x]" "page_table b' = (page_table b)(p \<mapsto> f)" "\<forall>q. q \<noteq> p \<longrightarrow> D' q = D q"
  shows "contents b' D' = (contents b D)(p \<mapsto> fh_buf x)"
  using contents_step [OF assms(1-3), of b' x D' D] assms by (simp add: contents_def)

lemma contents_frame:
  assumes "tables_ok R b" "held (frames b) f = Some p" "frames b' = (frames b)[frame_raw f := x]" "page_table b' = page_table b"
    "\<forall>q. q \<noteq> p \<longrightarrow> D' q = D q"
  shows "contents b' D' = (contents b D)(p \<mapsto> fh_buf x)"
  by (rule contents_install [OF assms(1)]) (use assms tables_held [OF assms(1), of p f] in \<open>auto simp: held_Some fun_upd_idem\<close>)

lemma store_update:
  assumes "store_ok b D" "length (fh_buf x) = PAGE_SIZE" "\<forall>p. fh_page_id x = Some p \<and> \<not> fh_dirty x \<longrightarrow> D p = Some (fh_buf x)"
    "frames b' = (frames b)[i := x]" "scheduler b' = scheduler b"
  shows "store_ok b' D"
  using assms by (cases "i < length (frames b)") (auto simp: store_ok_def nth_list_update)

lemma store_frame: "store_ok b D \<Longrightarrow> i < length (frames b) \<Longrightarrow> length (fh_buf (frames b ! i)) = PAGE_SIZE"
  by (simp add: store_ok_def)

lemma store_clean: "store_ok b D \<Longrightarrow> held (frames b) f = Some p \<Longrightarrow> \<not> fh_dirty (frames b ! frame_raw f) \<Longrightarrow> D p = Some (fh_buf (frames b ! frame_raw f))"
  by (simp add: store_ok_def held_Some)

lemma store_disk:
  assumes ok: "tables_ok R b" and st: "store_ok b D" and f: "held (frames b) f = Some p"
    and s: "tx s" "requests s = []" "disk_rel (dm s) D'" "\<forall>q. q \<noteq> p \<longrightarrow> D' q = D q"
    and d: "fh_dirty (frames b ! frame_raw f) \<or> D' p = Some (fh_buf (frames b ! frame_raw f))"
  shows "store_ok (b\<lparr>scheduler := s\<rparr>) D'"
proof -
  have "D' q = Some (fh_buf (frames b ! i))" if i: "i < length (frames b)" "fh_page_id (frames b ! i) = Some q" "\<not> fh_dirty (frames b ! i)" for i q
  proof (cases "q = p")
    case True
    have "held (frames b) (FrameId i) = Some p" using i True by (simp add: held_def)
    then have "f = FrameId i" using tables_unique [OF ok _ f] by blast
    then show ?thesis using d i True by simp
  next
    case False
    then show ?thesis using st i s(4) by (simp add: store_ok_def)
  qed
  then show ?thesis using st s by (auto simp: store_ok_def)
qed

lemma tables_unused: "tables_ok R b \<Longrightarrow> f \<in> set (free_list b) \<union> R \<longleftrightarrow> frame_raw f < length (frames b) \<and> held (frames b) f = None"
  by (simp add: tables_ok_def)

lemma tables_pinned: "tables_ok R b \<Longrightarrow> pinned (pins b) f \<Longrightarrow> held (frames b) f \<noteq> None"
  by (simp add: tables_ok_def)

lemma tables_may_go: "tables_ok R b \<Longrightarrow> may_go (replacer b) f \<longleftrightarrow> held (frames b) f \<noteq> None \<and> \<not> pinned (pins b) f"
  by (simp add: tables_ok_def)

lemma free_frame: "tables_ok {f} b \<Longrightarrow> frame_raw f < length (frames b) \<and> held (frames b) f = None \<and> \<not> pinned (pins b) f"
  using tables_unused [of "{f}" b f] tables_pinned [of "{f}" b f] by auto

lemma pinned_range: "tables_ok R b \<Longrightarrow> frame_raw f < length (frames b) \<Longrightarrow> pinned (pins b) f \<longleftrightarrow> 0 < pins b ! frame_raw f"
  by (simp add: tables_ok_def pinned_def)

lemma pinned_other: "\<not> pinned ps f \<Longrightarrow> pinned ps g \<Longrightarrow> fs[frame_raw f := x] ! frame_raw g = fs ! frame_raw g"
  by (cases "f = g") (auto simp: frame_eqI)

lemma kept_refl: "kept b b"
  by (simp add: kept_def)

lemma kept_trans: "kept a b \<Longrightarrow> kept b c \<Longrightarrow> pins b = pins a \<Longrightarrow> kept a c"
  by (simp add: kept_def)

section \<open>Taking a frame\<close>

definition got_frame :: "BufferPoolManager \<Rightarrow> (PageId \<rightharpoonup> bytes) \<Rightarrow> FrameReservation \<Rightarrow> BufferPoolManager \<Rightarrow> (PageId \<rightharpoonup> bytes) \<Rightarrow> bool" where
  "got_frame b C res b' D \<longleftrightarrow> tables_ok {fr_frame_id res} b' \<and> store_ok b' D \<and> contents b' D = C \<and>
     (case fr_evicted res of None \<Rightarrow> True | Some ev \<Rightarrow> page_table b' (ev_page_id ev) = None \<and> D (ev_page_id ev) = Some (ev_data ev) \<and>
        length (ev_data ev) = PAGE_SIZE) \<and>
     pins b' = pins b \<and> bp_next_page_id b' = bp_next_page_id b \<and> free_page_ids b' = free_page_ids b \<and>
     (\<forall>q. page_table b q = None \<longrightarrow> page_table b' q = None) \<and> kept b b'"

definition refused :: "BufferPoolManager \<Rightarrow> BpmError \<Rightarrow> bool" where
  "refused b e \<longleftrightarrow> e = NoFreeFrame \<and> (\<forall>f. frame_raw f < length (frames b) \<longrightarrow> pinned (pins b) f) \<or>
     (\<exists>x. e = BpmIo x) \<and> \<not> healthy (dm (scheduler b))"

definition untouched :: "BufferPoolManager \<Rightarrow> BufferPoolManager \<Rightarrow> bool" where
  "untouched b b' \<longleftrightarrow> pins b' = pins b \<and> bp_next_page_id b' = bp_next_page_id b \<and> free_page_ids b' = free_page_ids b \<and> kept b b'"

lemma take_free_frame:
  assumes "tables_ok {} b" "store_ok b D" "free_list b \<noteq> []"
  shows "\<exists>res b'. get_free_frame b = (Ok res, b') \<and> got_frame b (contents b D) res b' D"
proof -
  let ?b = "b\<lparr>free_list := butlast (free_list b)\<rparr>"
  have "tables_ok {last (free_list b)} ?b" using tables_take [OF assms(1,3)] .
  moreover have "store_ok ?b D" "contents ?b D = contents b D" using assms(2) by (simp_all add: store_ok_def contents_def fun_eq_iff split: option.split)
  ultimately show ?thesis using assms(3) by (auto simp: get_free_frame_def effects got_frame_def kept_def)
qed

lemma evicted_frame:
  assumes ok: "tables_ok {} b" and st: "store_ok b D" and f: "held (frames b) f = Some p" "\<not> pinned (pins b) f"
    and r': "replacer_ok r'" "tracked_page r' = (tracked_page (replacer b))(f := None)" "may_go r' = (may_go (replacer b))(f := False)"
      "r_capacity r' = r_capacity (replacer b)"
    and s: "tx s" "requests s = []" "disk_rel (dm s) D'" "\<forall>q. q \<noteq> p \<longrightarrow> D' q = D q" "D' p = Some (fh_buf (frames b ! frame_raw f))"
      "healthy (dm (scheduler b)) \<longrightarrow> healthy (dm s)"
  shows "got_frame b (contents b D) \<lparr>fr_frame_id = f, fr_evicted = Some \<lparr>ev_page_id = p, ev_data = fh_buf (frames b ! frame_raw f)\<rparr>\<rparr>
    (b\<lparr>replacer := r', scheduler := s, page_table := (page_table b)(p := None),
       frames := (frames b)[frame_raw f := FrameHeader_clear (frames b ! frame_raw f)]\<rparr>) D'"
    (is "got_frame b _ ?res ?c D'")
proof -
  let ?x = "frames b ! frame_raw f"
  have l: "frame_raw f < length (frames b)" using f(1) by (simp add: held_Some)
  have "tables_ok {f} (b\<lparr>replacer := r', page_table := (page_table b)(p := None), frames := (frames b)[frame_raw f := FrameHeader_clear ?x]\<rparr>)"
    by (rule tables_evict [OF ok f]) (use r' in \<open>simp_all add: FrameHeader_clear_def\<close>)
  then have "tables_ok {f} ?c" by (simp add: tables_ok_def)
  moreover have "store_ok (b\<lparr>scheduler := s\<rparr>) D'" by (rule store_disk [OF ok st f(1) s(1-4)]) (use s(5) in simp)
  then have "store_ok ?c D'"
    by (rule store_update [where x = "FrameHeader_clear ?x"]) (use store_frame [OF st l] in \<open>simp_all add: FrameHeader_clear_def\<close>)
  moreover have "contents ?c D' = contents b D" by (rule contents_evict [OF ok f(1) s(5,4)]) simp_all
  moreover have "kept b ?c" using f(2) s(6) by (simp add: kept_def pinned_other)
  ultimately show ?thesis using s(5) store_frame [OF st l] by (auto simp: got_frame_def)
qed

lemma evict_frame:
  assumes ok: "tables_ok {} b" and st: "store_ok b D" and fl: "free_list b = []" and valid: "\<forall>p \<in> dom (contents b D). valid_page_id p"
    and r: "get_free_frame b = (r, b')"
  shows "(\<exists>res D'. r = Ok res \<and> got_frame b (contents b D) res b' D') \<or>
    (\<exists>e D'. r = Err e \<and> refused b e \<and> tables_ok {} b' \<and> store_ok b' D' \<and> contents b' D' = contents b D \<and> untouched b b')"
proof -
  have rp: "replacer_ok (replacer b)" using ok by (simp add: tables_ok_def)
  consider (none) "begin_eviction (replacer b) = (Ok (None, replacer b) :: (BpmError, _) result)" "\<forall>f. \<not> may_go (replacer b) f"
    | (some) u r' where "begin_eviction (replacer b) = (Ok (Some u, r') :: (BpmError, _) result)" "may_go (replacer b) (eu_frame_id u)" "replacer_ok r'"
      "tracked_page r' = (tracked_page (replacer b))(eu_frame_id u := None)" "may_go r' = (may_go (replacer b))(eu_frame_id u := False)"
      "r_capacity r' = r_capacity (replacer b)" "undo_eviction r' u = (Ok (replacer b) :: (BpmError, _) result)"
    using ft.start_ok [OF rp] by metis
  then show ?thesis
  proof cases
    case none
    have "pinned (pins b) f" if "frame_raw f < length (frames b)" for f
      using that none(2) fl tables_unused [OF ok, of f] tables_may_go [OF ok, of f] by simp
    then have "refused b NoFreeFrame" by (simp add: refused_def)
    moreover have "r = Err NoFreeFrame" "b' = b" using r fl none(1) by (simp_all add: get_free_frame_def effects)
    ultimately show ?thesis using ok st by (auto simp: untouched_def kept_refl)
  next
    case some
    let ?f = "eu_frame_id u" and ?b1 = "b\<lparr>replacer := r'\<rparr>"
    have f: "held (frames b) ?f \<noteq> None" "\<not> pinned (pins b) ?f" using some(2) ok by (simp_all add: tables_ok_def)
    then obtain p where p: "held (frames b) ?f = Some p" by blast
    have l: "frame_raw ?f < length (frames b)" "frame_raw ?f < length (pins b)" using p ok by (simp_all add: held_Some tables_ok_def)
    let ?x = "frames b ! frame_raw ?f"
    have pg: "fh_page_id ?x = Some p" using p by (simp add: held_Some)
    have n: "\<not> 0 < pins b ! frame_raw ?f" using f(2) l(2) by (simp add: pinned_def)
    let ?ev = "\<lambda>b. b\<lparr>page_table := (page_table b)(p := None), frames := (frames b)[frame_raw ?f := FrameHeader_clear (frames b ! frame_raw ?f)]\<rparr>"
    let ?res = "\<lparr>fr_frame_id = ?f, fr_evicted = Some \<lparr>ev_page_id = p, ev_data = fh_buf ?x\<rparr>\<rparr>"
    have step: "get_free_frame b = (if fh_dirty ?x then (case write_to_disk p (fh_buf ?x) ?b1 of (Ok _, c) \<Rightarrow> (Ok ?res, ?ev c)
        | (Err e, c) \<Rightarrow> (case undo_eviction (replacer c) u of Ok r \<Rightarrow> (Err e, c\<lparr>replacer := r\<rparr>) | Err e \<Rightarrow> (Err e, c) | Panic \<Rightarrow> (Panic, c))
        | (Panic, c) \<Rightarrow> (Panic, c)) else (Ok ?res, ?ev ?b1))"
      using fl some(1) n l pg
      by (auto simp: get_free_frame_def pins_of_def index_get_def bpm_frame_def dropping_def upd_frame_def effects Let_def
          split: result.splits prod.splits)
    note fin = evicted_frame [OF ok st p f(2) some(3-6)]
    show ?thesis
    proof (cases "fh_dirty ?x")
      case False
      have "got_frame b (contents b D) ?res (b\<lparr>replacer := r', scheduler := scheduler b, page_table := (page_table b)(p := None),
          frames := (frames b)[frame_raw ?f := FrameHeader_clear ?x]\<rparr>) D"
        by (rule fin) (use st store_clean [OF st p False] in \<open>simp_all add: store_ok_def\<close>)
      then show ?thesis using r step False by auto
    next
      case True
      obtain q c where q: "write_to_disk p (fh_buf ?x) ?b1 = (q, c)" by force
      have st1: "store_ok ?b1 D" using st by (simp add: store_ok_def)
      have v: "valid_page_id p" using valid contents_held [OF ok p, of D] by auto
      from pool_write_disk [OF st1 v store_frame [OF st l(1)] q] obtain s D' where
        s: "c = ?b1\<lparr>scheduler := s\<rparr>" "tx s" "requests s = []" "disk_rel (dm s) D'" "\<forall>q. q \<noteq> p \<longrightarrow> D' q = D q"
          "healthy (dm (scheduler ?b1)) \<longrightarrow> healthy (dm s)" and
        cases: "q = Ok () \<and> D' p = Some (fh_buf ?x) \<or> (\<exists>e. q = Err (BpmIo e)) \<and> dom D' = dom D \<and> \<not> healthy (dm (scheduler ?b1))" by metis
      from cases show ?thesis
      proof (elim disjE conjE exE)
        assume ok': "q = Ok ()" "D' p = Some (fh_buf ?x)"
        then have "got_frame b (contents b D) ?res (?ev c) D'" using fin [OF s(2-5) ok'(2)] s(1,6) by (simp add: FrameHeader_clear_def)
        then show ?thesis using r step True q ok'(1) by auto
      next
        fix e assume err: "q = Err (BpmIo e)" "\<not> healthy (dm (scheduler ?b1))"
        have b': "r = Err (BpmIo e)" "b' = b\<lparr>scheduler := s\<rparr>" using r step True q err(1) s(1) some(7) by simp_all
        have "tables_ok {} b'" using ok b'(2) by (simp add: tables_ok_def)
        moreover have "store_ok b' D'" using store_disk [OF ok st p s(2-5)] True b'(2) by simp
        moreover have "contents b' D' = contents b D"
          using contents_frame [OF ok p, of b' "frames b ! frame_raw ?f" D' D] s(5) b'(2) contents_held [OF ok p, of D] by (simp add: fun_upd_idem)
        moreover have "refused b (BpmIo e)" using err(2) by (simp add: refused_def)
        moreover have "untouched b b'" using b'(2) s(6) by (simp add: untouched_def kept_def)
        ultimately show ?thesis using b'(1) by blast
      qed
    qed
  qed
qed

section \<open>Reading a page in\<close>

lemma get_free_frame_ok:
  assumes ok: "tables_ok {} b" and st: "store_ok b D" and valid: "\<forall>p \<in> dom (contents b D). valid_page_id p" and r: "get_free_frame b = (r, b')"
  shows "(\<exists>res D'. r = Ok res \<and> got_frame b (contents b D) res b' D') \<or>
    (\<exists>e D'. r = Err e \<and> refused b e \<and> tables_ok {} b' \<and> store_ok b' D' \<and> contents b' D' = contents b D \<and> untouched b b')"
proof (cases "free_list b = []")
  case True
  from evict_frame [OF ok st True valid r] show ?thesis .
next
  case False
  from take_free_frame [OF ok st False] r show ?thesis by auto
qed

lemma pool_fields [simp]:
  "contents (b\<lparr>free_list := fl\<rparr>) D = contents b D" "store_ok (b\<lparr>free_list := fl\<rparr>) D = store_ok b D"
  "contents (b\<lparr>pins := ps\<rparr>) D = contents b D" "store_ok (b\<lparr>pins := ps\<rparr>) D = store_ok b D"
  "contents (b\<lparr>replacer := r\<rparr>) D = contents b D" "store_ok (b\<lparr>replacer := r\<rparr>) D = store_ok b D"
  "contents (b\<lparr>scheduler := s\<rparr>) D = contents b D"
  "contents (b\<lparr>bp_next_page_id := n\<rparr>) D = contents b D" "store_ok (b\<lparr>bp_next_page_id := n\<rparr>) D = store_ok b D"
  "contents (b\<lparr>free_page_ids := ids\<rparr>) D = contents b D" "store_ok (b\<lparr>free_page_ids := ids\<rparr>) D = store_ok b D"
  "tables_ok R (b\<lparr>scheduler := s\<rparr>) = tables_ok R b" "tables_ok R (b\<lparr>bp_next_page_id := n\<rparr>) = tables_ok R b"
  "tables_ok R (b\<lparr>free_page_ids := ids\<rparr>) = tables_ok R b"
  by (simp_all add: store_ok_def contents_def fun_eq_iff tables_ok_def split: option.split)

lemma alloc_valid: "alloc_ok b ps \<Longrightarrow> p \<in> ps \<Longrightarrow> valid_page_id p"
proof -
  assume "alloc_ok b ps" "p \<in> ps"
  then have "as_usize p < 4294967295" by (force simp: alloc_ok_def page_is_allocated_def)
  then show "valid_page_id p" by (auto simp: valid_page_id_iff as_usize_def NO_PAGE_U32_def)
qed

lemma alloc_same: "bp_next_page_id b' = bp_next_page_id b \<Longrightarrow> free_page_ids b' = free_page_ids b \<Longrightarrow> alloc_ok b' ps = alloc_ok b ps"
  by (simp add: alloc_ok_def page_is_allocated_def)

lemma admit_page:
  assumes ok: "tables_ok {f} b" and p: "page_table b p = None"
  shows "\<exists>r. bindR (record_access (replacer b) f p) (\<lambda>r. set_evictable r f v) = (Ok r :: (BpmError, _) result) \<and> replacer_ok r \<and>
    tracked_page r = (tracked_page (replacer b))(f \<mapsto> p) \<and> may_go r = (may_go (replacer b))(f := v) \<and> r_capacity r = r_capacity (replacer b)"
proof -
  have tr: "replacer_ok (replacer b)" "tracked_page (replacer b) = held (frames b)" "r_capacity (replacer b) = length (frames b)"
    using ok by (simp_all add: tables_ok_def)
  note f = free_frame [OF ok]
  have "p \<notin> ran (held (frames b))" using tables_held [OF ok, of p] p by (auto simp: ran_def)
  then show ?thesis using ft.admit [OF tr(1), of f p v] f held_card(2) [of f "frames b"] tr(2,3) by simp
qed

lemma upd_replacer_twice:
  "bindR (g (replacer b)) h = Ok r \<Longrightarrow> bindS (upd_replacer g) (\<lambda>_. upd_replacer h) b = (Ok (), b\<lparr>replacer := r\<rparr>)"
  by (cases "g (replacer b)") (simp_all add: upd_replacer_def effects)

lemma got_frame_disk:
  "got_frame b C res b1 D \<Longrightarrow> store_ok (b1\<lparr>scheduler := s\<rparr>) D \<Longrightarrow> (healthy (dm (scheduler b1)) \<longrightarrow> healthy (dm s)) \<Longrightarrow>
    got_frame b C res (b1\<lparr>scheduler := s\<rparr>) D"
  by (cases "fr_evicted res") (auto simp: got_frame_def kept_def)

lemma pins_unpinned: "tables_ok R b \<Longrightarrow> frame_raw f < length (frames b) \<Longrightarrow> \<not> pinned (pins b) f \<Longrightarrow> pins b ! frame_raw f = 0"
  by (simp add: pinned_range word_gt_0)

text \<open>The frame \<open>f\<close>, taken before, gets the page \<open>p\<close>.\<close>

lemma fill_frame:
  assumes ok: "tables_ok {f} b" and st: "store_ok b D" and p: "page_table b p = None" and x: "fh_page_id x = Some p" "length (fh_buf x) = PAGE_SIZE"
      "\<not> fh_dirty x \<longrightarrow> D p = Some (fh_buf x)"
    and r: "replacer_ok r" "tracked_page r = (tracked_page (replacer b))(f \<mapsto> p)" "may_go r = (may_go (replacer b))(f := n = 0)"
      "r_capacity r = r_capacity (replacer b)"
    and b': "b' = b\<lparr>frames := (frames b)[frame_raw f := x], pins := (pins b)[frame_raw f := n], page_table := (page_table b)(p \<mapsto> f), replacer := r\<rparr>"
  shows "tables_ok {} b'" "store_ok b' D" "contents b' D = (contents b D)(p \<mapsto> fh_buf x)" "held (frames b') f = Some p" "kept b b'"
proof -
  note f = free_frame [OF ok]
  show "tables_ok {} b'" unfolding b' by (rule tables_install [OF ok p x(1) r])
  show "store_ok b' D" by (rule store_update [OF st x(2)]) (use x b' in auto)
  show "contents b' D = (contents b D)(p \<mapsto> fh_buf x)" by (rule contents_install [OF ok, of f p b' x D D]) (use f b' in simp_all)
  show "held (frames b') f = Some p" using f x(1) b' by (simp add: held_Some)
  show "kept b b'" using f b' by (simp add: kept_def pinned_other [of "pins b" f])
qed

lemma restore_frame_ok:
  assumes g: "got_frame b C res b1 D"
  shows "\<exists>b2. restore_frame res b1 = (Ok (), b2) \<and> tables_ok {} b2 \<and> store_ok b2 D \<and> contents b2 D = C \<and> untouched b b2"
proof (cases "fr_evicted res")
  case None
  let ?b = "b1\<lparr>free_list := free_list b1 @ [fr_frame_id res]\<rparr>"
  have "restore_frame res b1 = (Ok (), ?b)" using None by (simp add: restore_frame_def push_free_def effects)
  moreover have "tables_ok {} ?b" using g tables_put by (simp add: got_frame_def)
  ultimately show ?thesis using g by (auto simp: got_frame_def untouched_def kept_def)
next
  case (Some ev)
  let ?f = "fr_frame_id res" and ?p = "ev_page_id ev"
  let ?x = "(frames b1 ! frame_raw ?f)\<lparr>fh_page_id := Some ?p, fh_buf := ev_data ev\<rparr>"
  have ok: "tables_ok {?f} b1" and st: "store_ok b1 D" and p: "page_table b1 ?p = None" and D: "D ?p = Some (ev_data ev)"
    and len: "length (ev_data ev) = PAGE_SIZE" and un: "contents b1 D = C" "pins b1 = pins b" "kept b b1"
      "bp_next_page_id b1 = bp_next_page_id b" "free_page_ids b1 = free_page_ids b" using g Some by (simp_all add: got_frame_def)
  note f = free_frame [OF ok]
  from admit_page [OF ok p, of True] obtain r where r: "bindR (record_access (replacer b1) ?f ?p) (\<lambda>r. set_evictable r ?f True) = (Ok r :: (BpmError, _) result)"
    "replacer_ok r" "tracked_page r = (tracked_page (replacer b1))(?f \<mapsto> ?p)" "may_go r = (may_go (replacer b1))(?f := True)"
    "r_capacity r = r_capacity (replacer b1)" by blast
  let ?b = "b1\<lparr>frames := (frames b1)[frame_raw ?f := ?x], page_table := (page_table b1)(?p \<mapsto> ?f), replacer := r\<rparr>"
  have "restore_frame res b1 = bindS (upd_replacer (\<lambda>r. record_access r ?f ?p)) (\<lambda>_. upd_replacer (\<lambda>r. set_evictable r ?f True))
      (b1\<lparr>frames := (frames b1)[frame_raw ?f := ?x], page_table := (page_table b1)(?p \<mapsto> ?f)\<rparr>)"
    using Some p f by (simp add: restore_frame_def upd_frame_def effects Let_def)
  also have "... = (Ok (), ?b)" using r(1) by (subst upd_replacer_twice [where r = r]) simp_all
  finally have run: "restore_frame res b1 = (Ok (), ?b)" .
  have "(pins b1)[frame_raw ?f := 0] = pins b1" using pins_unpinned [OF ok] f by (metis list_update_id)
  then have b': "?b = b1\<lparr>frames := (frames b1)[frame_raw ?f := ?x], pins := (pins b1)[frame_raw ?f := 0], page_table := (page_table b1)(?p \<mapsto> ?f), replacer := r\<rparr>"
    by simp
  have goes: "may_go r = (may_go (replacer b1))(?f := (0 :: u32) = 0)" using r(4) by simp
  note fill = fill_frame [OF ok st p _ _ _ r(2,3) goes r(5) b']
  have "C ?p = Some (ev_data ev)" using p D by (simp add: contents_def flip: un(1))
  then have "contents ?b D = C" using fill(3) D len un(1) by (simp add: fun_upd_idem)
  moreover have "untouched b ?b" using un kept_trans [OF un(3) fill(5)] D len by (simp add: untouched_def)
  ultimately show ?thesis using run fill(1,2) D len by auto
qed

text \<open>What a guard on the page \<open>p\<close> means: its frame \<open>f\<close> holds the bytes of the page and one more pin.\<close>

definition guarded :: "BufferPoolManager \<Rightarrow> (PageId \<rightharpoonup> bytes) \<Rightarrow> PageId \<Rightarrow> bool \<Rightarrow> FrameId \<Rightarrow> BufferPoolManager \<Rightarrow> bool" where
  "guarded b C p dirty f b' \<longleftrightarrow> pool_ok {} b' C \<and> held (frames b') f = Some p \<and> C p = Some (fh_buf (frames b' ! frame_raw f)) \<and>
     (dirty \<longrightarrow> fh_dirty (frames b' ! frame_raw f)) \<and> pins b' = (pins b)[frame_raw f := pins b ! frame_raw f + 1] \<and> kept b b' \<and>
     length (frames b') = length (frames b)"

lemma pool_okE:
  assumes "pool_ok R b C"
  obtains D where "tables_ok R b" "alloc_ok b (dom C)" "store_ok b D" "C = contents b D" "\<forall>p \<in> dom (contents b D). valid_page_id p"
  using assms alloc_valid by (auto simp: pool_ok_def)

lemma pool_okI: "tables_ok R b \<Longrightarrow> store_ok b D \<Longrightarrow> contents b D = C \<Longrightarrow> alloc_ok b (dom C) \<Longrightarrow> pool_ok R b C"
  by (auto simp: pool_ok_def)

lemma enter_page_ok:
  assumes "bindR (record_access (replacer b) f p) (\<lambda>r. set_evictable r f False) = (Ok r :: (BpmError, _) result)"
  shows "enter_page f p b = (Ok (), b\<lparr>page_table := (page_table b)(p \<mapsto> f), replacer := r\<rparr>)"
proof -
  have "enter_page f p b = bindS (upd_replacer (\<lambda>r. record_access r f p)) (\<lambda>_. upd_replacer (\<lambda>r. set_evictable r f False))
      (b\<lparr>page_table := (page_table b)(p \<mapsto> f)\<rparr>)" by (simp add: enter_page_def effects)
  also have "... = (Ok (), b\<lparr>page_table := (page_table b)(p \<mapsto> f), replacer := r\<rparr>)"
    using assms by (subst upd_replacer_twice [where r = r]) simp_all
  finally show ?thesis .
qed

text \<open>A frame that was taken gets the header \<open>x\<close>, its page and a pin.\<close>

lemma admit_guarded:
  assumes ok: "tables_ok {f} b1" and st: "store_ok b1 D" and C: "contents b1 D = C" and p: "page_table b1 p = None" and un: "pins b1 = pins b" "kept b b1"
    and x: "fh_page_id x = Some p" "length (fh_buf x) = PAGE_SIZE" "\<not> fh_dirty x \<longrightarrow> D p = Some (fh_buf x)"
    and al: "alloc_ok b1 (dom (C(p \<mapsto> fh_buf x)))"
    and b2: "b2 = b1\<lparr>frames := (frames b1)[frame_raw f := x], pins := (pins b1)[frame_raw f := 1]\<rparr>"
  shows "\<exists>c. enter_page f p b2 = (Ok (), c) \<and> guarded b (C(p \<mapsto> fh_buf x)) p (fh_dirty x) f c \<and> \<not> pinned (pins b) f \<and>
    bp_next_page_id c = bp_next_page_id b1 \<and> free_page_ids c = free_page_ids b1"
proof -
  note fr = free_frame [OF ok]
  have l: "frame_raw f < length (pins b1)" using ok fr by (simp add: tables_ok_def)
  from admit_page [OF ok p, of False] obtain r where r: "bindR (record_access (replacer b1) f p) (\<lambda>r. set_evictable r f False) = (Ok r :: (BpmError, _) result)"
    "replacer_ok r" "tracked_page r = (tracked_page (replacer b1))(f \<mapsto> p)" "may_go r = (may_go (replacer b1))(f := False)"
    "r_capacity r = r_capacity (replacer b1)" by blast
  define c where "c = b1\<lparr>frames := (frames b1)[frame_raw f := x], pins := (pins b1)[frame_raw f := 1], page_table := (page_table b1)(p \<mapsto> f), replacer := r\<rparr>"
  have run: "enter_page f p b2 = (Ok (), c)" using enter_page_ok [of b2 f p r] r(1) by (simp add: b2 c_def)
  have goes: "may_go r = (may_go (replacer b1))(f := (1 :: u32) = 0)" using r(4) by simp
  note fill = fill_frame [OF ok st p x r(2,3) goes r(5) c_def]
  have "alloc_ok c (dom (C(p \<mapsto> fh_buf x)))" using al alloc_same [of c b1] by (simp add: c_def)
  then have "pool_ok {} c (C(p \<mapsto> fh_buf x))" using fill(3) C by (intro pool_okI [OF fill(1,2)]) simp_all
  moreover have "pins b1 ! frame_raw f = 0" using pins_unpinned [OF ok] fr by blast
  ultimately have "guarded b (C(p \<mapsto> fh_buf x)) p (fh_dirty x) f c" using fill(4) un kept_trans [OF un(2) fill(5) un(1)] fr
    by (auto simp: guarded_def kept_def c_def)
  then show ?thesis using run fr un(1) by (simp add: c_def)
qed

lemma take_frame:
  assumes ok: "pool_ok {} b C" and q: "get_free_frame b = (q, b1)"
  obtains (got) res D where "q = Ok res" "got_frame b C res b1 D"
  | (none) e where "q = Err e" "refused b e" "pool_ok {} b1 C" "untouched b b1"
proof -
  obtain D where D: "tables_ok {} b" "alloc_ok b (dom C)" "store_ok b D" "C = contents b D" "\<forall>p \<in> dom (contents b D). valid_page_id p"
    using ok by (rule pool_okE)
  from get_free_frame_ok [OF D(1,3,5) q] show thesis
  proof (elim disjE exE conjE)
    fix e D' assume e: "q = Err e" "refused b e" "tables_ok {} b1" "store_ok b1 D'" "contents b1 D' = contents b D" "untouched b b1"
    then have "pool_ok {} b1 C" using D(2,4) alloc_same [of b1 b] by (intro pool_okI [of _ _ D']) (simp_all add: untouched_def)
    then show thesis using e none by blast
  qed (use got D(4) in blast)
qed

lemma put_back:
  assumes "pool_ok {} b C" "got_frame b C res b1 D"
  shows "\<exists>c. restore_frame res b1 = (Ok (), c) \<and> pool_ok {} c C \<and> untouched b c"
proof -
  obtain D0 where al: "alloc_ok b (dom C)" using assms(1) by (rule pool_okE)
  from restore_frame_ok [OF assms(2)] obtain c where c: "restore_frame res b1 = (Ok (), c)" "tables_ok {} c" "store_ok c D" "contents c D = C" "untouched b c"
    by blast
  then have "pool_ok {} c C" using al alloc_same [of c b] by (intro pool_okI [of _ _ D]) (simp_all add: untouched_def)
  then show ?thesis using c by blast
qed

lemma load_ok:
  assumes ok: "pool_ok {} b C" and p: "page_table b p = None" and r: "load_into_free_frame p dirty b = (r, b')"
  shows "(\<exists>f. r = Ok f \<and> guarded b C p dirty f b' \<and> \<not> pinned (pins b) f) \<or>
    (\<exists>e. r = Err e \<and> pool_ok {} b' C \<and> untouched b b' \<and> (refused b e \<or> e = BpmIo (PageMissing p) \<and> C p = None))"
proof -
  obtain q b1 where q: "get_free_frame b = (q, b1)" by force
  from ok q show ?thesis
  proof (cases rule: take_frame)
    case none
    then show ?thesis using r q by (auto simp: load_into_free_frame_def effects)
  next
    case (got res D)
    let ?f = "fr_frame_id res"
    have g: "tables_ok {?f} b1" "store_ok b1 D" "contents b1 D = C" "page_table b1 p = None" "kept b b1" "pins b1 = pins b"
      "bp_next_page_id b1 = bp_next_page_id b" "free_page_ids b1 = free_page_ids b" using got(2) p by (simp_all add: got_frame_def)
    have l: "frame_raw ?f < length (frames b1)" "frame_raw ?f < length (pins b1)" using free_frame [OF g(1)] g(1) by (simp_all add: tables_ok_def)
    obtain x b2 where x: "read_from_disk p b1 = (x, b2)" by force
    from pool_read_disk [OF g(2) x] obtain s where s: "b2 = b1\<lparr>scheduler := s\<rparr>" "store_ok b2 D" "healthy (dm (scheduler b1)) \<longrightarrow> healthy (dm s)"
      and cs: "x = Ok (the (D p)) \<and> D p \<noteq> None \<or> x = Err (BpmIo (PageMissing p)) \<and> D p = None \<or> (\<exists>z. x = Err (BpmIo z)) \<and> \<not> healthy (dm (scheduler b1))"
      by metis
    have g2: "got_frame b C res b2 D" using got_frame_disk [OF got(2), of s] s by simp
    have Cp: "C p = D p" using g(3,4) by (auto simp: contents_def)
    show ?thesis
    proof (cases "\<exists>d. x = Ok d")
      case True
      then obtain d where d: "x = Ok d" "D p = Some d" using cs by auto
      let ?x = "(frames b2 ! frame_raw ?f)\<lparr>fh_buf := d, fh_page_id := Some p, fh_dirty := dirty\<rparr>"
      have upd: "C(p \<mapsto> fh_buf ?x) = C" using Cp d by (simp add: fun_upd_idem)
      have len: "length (fh_buf ?x) = PAGE_SIZE" using disk_page_length g(2) d(2) by (auto simp: store_ok_def)
      obtain D0 where al: "alloc_ok b (dom C)" using ok by (rule pool_okE)
      then have al2: "alloc_ok b2 (dom (C(p \<mapsto> fh_buf ?x)))" using upd alloc_same [of b2 b] s(1) g(7,8) by simp
      have "tables_ok {?f} b2" "contents b2 D = C" "page_table b2 p = None" "pins b2 = pins b" "kept b b2"
        using g2 p by (simp_all add: got_frame_def)
      from admit_guarded [OF this(1) s(2) this(2-5) _ len _ al2, of "b2\<lparr>pins := (pins b2)[frame_raw ?f := 1], frames := (frames b2)[frame_raw ?f := ?x]\<rparr>"]
        upd d(2) obtain c where
        c: "enter_page ?f p (b2\<lparr>pins := (pins b2)[frame_raw ?f := 1], frames := (frames b2)[frame_raw ?f := ?x]\<rparr>) = (Ok (), c)"
          "guarded b C p dirty ?f c" "\<not> pinned (pins b) ?f" by auto
      then have "load_into_free_frame p dirty b = (Ok ?f, c)" using q got(1) x d(1) l s(1)
        by (simp add: load_into_free_frame_def bpm_frame_def restoring_def upd_frame_def set_pins_def index_put_def Let_def effects)
      then show ?thesis using c r by auto
    next
      case False
      then obtain e where e: "x = Err e" "refused b e \<or> e = BpmIo (PageMissing p) \<and> C p = None"
        using cs Cp g(5) by (auto simp: refused_def kept_def)
      from put_back [OF ok g2] obtain c where c: "restore_frame res b2 = (Ok (), c)" "pool_ok {} c C" "untouched b c" by blast
      have "load_into_free_frame p dirty b = (Err e, c)" using q got(1) x e(1) l c(1)
        by (simp add: load_into_free_frame_def bpm_frame_def restoring_def Let_def bindS_apply effect_apply)
      then show ?thesis using r e(2) c by auto
    qed
  qed
qed

section \<open>Guards\<close>

lemma touch_page:
  assumes ok: "tables_ok R b" and f: "held (frames b) f = Some p"
  shows "\<exists>r1 r. record_access (replacer b) f p = (Ok r1 :: (BpmError, _) result) \<and> set_evictable r1 f v = (Ok r :: (BpmError, _) result) \<and> replacer_ok r \<and>
    tracked_page r = tracked_page (replacer b) \<and> may_go r = (may_go (replacer b))(f := v) \<and> r_capacity r = r_capacity (replacer b)"
proof -
  have tr: "replacer_ok (replacer b)" "tracked_page (replacer b) f = Some p" using ok f by (simp_all add: tables_ok_def)
  from ft.access_held [OF tr] obtain r1 where r1: "record_access (replacer b) f p = (Ok r1 :: (BpmError, _) result)" "replacer_ok r1"
    "tracked_page r1 = tracked_page (replacer b)" "may_go r1 = may_go (replacer b)" "r_capacity r1 = r_capacity (replacer b)" by blast
  from ft.mark_ok [OF r1(2), of f v] obtain r where "set_evictable r1 f v = (Ok r :: (BpmError, _) result)" "replacer_ok r"
    "tracked_page r = tracked_page r1" "may_go r = (may_go r1)(f := v \<and> tracked_page r1 f \<noteq> None)" "r_capacity r = r_capacity r1" by blast
  then show ?thesis using r1 tr(2) by auto
qed

text \<open>Marking a frame dirty, or replacing its bytes while it is dirty.\<close>

lemma frame_bytes:
  assumes ok: "pool_ok R b C" and f: "held (frames b) f = Some p" and x: "fh_page_id x = Some p" "length (fh_buf x) = PAGE_SIZE" "fh_dirty x"
  shows "pool_ok R (b\<lparr>frames := (frames b)[frame_raw f := x]\<rparr>) (C(p \<mapsto> fh_buf x))"
proof -
  obtain D where D: "tables_ok R b" "alloc_ok b (dom C)" "store_ok b D" "C = contents b D" using ok by (rule pool_okE)
  define c where "c = b\<lparr>frames := (frames b)[frame_raw f := x]\<rparr>"
  have "tables_ok R c" using tables_same [OF D(1), of "(frames b)[frame_raw f := x]"] f x(1)
    by (simp add: c_def held_Some map_update list_update_same_conv)
  moreover have "store_ok c D" by (rule store_update [OF D(3) x(2)]) (use x(3) in \<open>simp_all add: c_def\<close>)
  moreover have "contents c D = C(p \<mapsto> fh_buf x)" using contents_frame [OF D(1) f, of c x D D] D(4) by (simp add: c_def)
  moreover have "p \<in> dom C" using contents_held [OF D(1) f] D(4) by auto
  then have "alloc_ok c (dom (C(p \<mapsto> fh_buf x)))" using D(2) alloc_same [of c b] by (simp add: c_def insert_absorb)
  ultimately show ?thesis unfolding c_def by (intro pool_okI)
qed

lemma repin:
  assumes ok: "pool_ok R b C" and f: "held (frames b) f = Some p"
    and r: "replacer_ok r" "tracked_page r = tracked_page (replacer b)" "may_go r = (may_go (replacer b))(f := n = 0)"
      "r_capacity r = r_capacity (replacer b)"
  shows "pool_ok R (b\<lparr>pins := (pins b)[frame_raw f := n], replacer := r\<rparr>) C"
proof -
  obtain D where D: "tables_ok R b" "alloc_ok b (dom C)" "store_ok b D" "C = contents b D" using ok by (rule pool_okE)
  let ?c = "b\<lparr>pins := (pins b)[frame_raw f := n], replacer := r\<rparr>"
  have "alloc_ok ?c (dom C)" using D(2) alloc_same [of ?c b] by simp
  then show ?thesis using tables_pin [OF D(1) f r] D(3,4) by (intro pool_okI [of R ?c D]) simp_all
qed

lemma hit_page:
  assumes ok: "pool_ok {} b C" and f: "page_table b p = Some f" and n: "unat (pins b ! frame_raw f) + 1 < 2 ^ 32"
  shows "\<exists>b'. pin_page (Suc k) p dirty b = (Ok f, b') \<and> guarded b C p dirty f b'"
proof -
  obtain D where D: "tables_ok {} b" "store_ok b D" "C = contents b D" using ok by (rule pool_okE)
  have h: "held (frames b) f = Some p" using tables_held [OF D(1)] f by blast
  have l: "frame_raw f < length (frames b)" "frame_raw f < length (pins b)" "fh_page_id (frames b ! frame_raw f) = Some p"
    using h D(1) by (simp_all add: held_Some tables_ok_def)
  let ?k = "pins b ! frame_raw f + 1"
  have k: "checked_add (pins b ! frame_raw f) 1 = Some ?k" using n by (simp add: checked_add_def)
  have "unat ?k = unat (pins b ! frame_raw f) + 1" using checked_add_Some [OF k] by simp
  then have k0: "(?k = 0) = False" by (metis add_is_0 one_neq_zero unat_0)
  from touch_page [OF D(1) h, of False] obtain r1 r where r: "record_access (replacer b) f p = (Ok r1 :: (BpmError, _) result)"
    "set_evictable r1 f False = (Ok r :: (BpmError, _) result)" "replacer_ok r"
    "tracked_page r = tracked_page (replacer b)" "may_go r = (may_go (replacer b))(f := False)" "r_capacity r = r_capacity (replacer b)" by blast
  let ?b = "b\<lparr>pins := (pins b)[frame_raw f := ?k], replacer := r\<rparr>" and ?x = "(frames b ! frame_raw f)\<lparr>fh_dirty := True\<rparr>"
  let ?c = "if dirty then ?b\<lparr>frames := (frames b)[frame_raw f := ?x]\<rparr> else ?b"
  have run: "pin_page (Suc k) p dirty b = (Ok f, ?c)"
    using f r(1,2) l k by (simp add: upd_replacer_def pins_of_def set_pins_def index_get_def index_put_def bpm_frame_def upd_frame_def effects)
  have pb: "pool_ok {} ?b C" by (rule repin [OF ok h r(3,4) _ r(6)]) (use r(5) k0 in simp)
  have Cp: "C p = Some (fh_buf (frames b ! frame_raw f))" using contents_held [OF D(1) h] D(3) by simp
  have "pool_ok {} (?b\<lparr>frames := (frames ?b)[frame_raw f := ?x]\<rparr>) (C(p \<mapsto> fh_buf ?x))"
    by (rule frame_bytes [OF pb]) (use h l store_frame [OF D(2) l(1)] in simp_all)
  then have pc: "pool_ok {} ?c C" using pb Cp by (simp add: fun_upd_idem)
  have "held (frames ?c) f = Some p" using l by (simp add: held_Some)
  moreover have "kept b ?c" using l(1) by (auto simp: kept_def nth_list_update frame_eqI)
  ultimately have "guarded b C p dirty f ?c" using pc Cp l by (simp add: guarded_def)
  then show ?thesis using run by blast
qed

lemma release_pin_ok:
  assumes ok: "pool_ok R b C" and f: "pinned (pins b) f"
  shows "\<exists>b'. release_pin f b = (Ok (), b') \<and> pool_ok R b' C \<and> pins b' = (pins b)[frame_raw f := pins b ! frame_raw f - 1] \<and>
    frames b' = frames b \<and> page_table b' = page_table b \<and> scheduler b' = scheduler b"
proof -
  obtain D where D: "tables_ok R b" using ok by (rule pool_okE)
  then obtain p where p: "held (frames b) f = Some p" using tables_pinned [OF D f] by auto
  let ?n = "pins b ! frame_raw f"
  have l: "frame_raw f < length (pins b)" "0 < ?n" using f by (simp_all add: pinned_def)
  then have sub: "checked_sub ?n 1 = Some (?n - 1)" by (simp add: checked_sub_def) (metis inc_le word_gt_0 add_0)
  have rp: "replacer_ok (replacer b)" "tracked_page (replacer b) f = Some p" using D p by (simp_all add: tables_ok_def)
  show ?thesis
  proof (cases "?n - 1 = 0")
    case True
    from ft.mark_ok [OF rp(1), of f True] obtain r where r: "set_evictable (replacer b) f True = (Ok r :: (BpmError, _) result)" "replacer_ok r"
      "tracked_page r = tracked_page (replacer b)" "may_go r = (may_go (replacer b))(f := True \<and> tracked_page (replacer b) f \<noteq> None)"
      "r_capacity r = r_capacity (replacer b)" by blast
    let ?b = "b\<lparr>pins := (pins b)[frame_raw f := ?n - 1], replacer := r\<rparr>"
    have "release_pin f b = (Ok (), ?b)" using l sub True r(1)
      by (simp add: release_pin_def pins_of_def set_pins_def index_get_def index_put_def upd_replacer_def effects)
    moreover have "pool_ok R ?b C" by (rule repin [OF ok p r(2,3) _ r(5)]) (use r(4) rp(2) True in simp)
    ultimately show ?thesis by auto
  next
    case False
    let ?b = "b\<lparr>pins := (pins b)[frame_raw f := ?n - 1]\<rparr>"
    have "release_pin f b = (Ok (), ?b)" using l sub False
      by (simp add: release_pin_def pins_of_def set_pins_def index_get_def index_put_def effects)
    moreover have "\<not> may_go (replacer b) f" using tables_may_go [OF D] f by blast
    then have "pool_ok R (b\<lparr>pins := (pins b)[frame_raw f := ?n - 1], replacer := replacer b\<rparr>) C"
      using False by (intro repin [OF ok p rp(1)]) (auto simp: fun_eq_iff)
    then have "pool_ok R ?b C" by simp
    ultimately show ?thesis by auto
  qed
qed

lemma pin_page_cases:
  assumes ok: "pool_ok {} b C" and n: "\<forall>i < length (pins b). unat (pins b ! i) + 1 < 2 ^ 32" and r: "pin_page (Suc k) p dirty b = (r, b')"
  shows "(\<exists>f. r = Ok f \<and> guarded b C p dirty f b') \<or>
    (\<exists>e. r = Err e \<and> pool_ok {} b' C \<and> untouched b b' \<and> (refused b e \<or> e = BpmIo (PageMissing p) \<and> C p = None))"
proof (cases "page_table b p")
  case None
  then have "load_into_free_frame p dirty b = (r, b')" using r by (simp add: effects)
  from load_ok [OF ok None this] show ?thesis by blast
next
  case (Some f)
  obtain D where "tables_ok {} b" using ok by (rule pool_okE)
  then have "frame_raw f < length (pins b)" using Some by (simp add: tables_ok_def held_Some)
  then show ?thesis using hit_page [OF ok Some, of k dirty] n r by auto
qed

section \<open>Page ids\<close>

lemma allocate_cases:
  assumes al: "alloc_ok b ps" and r: "allocate_page_id b = (r, b')"
  shows "(\<exists>p. r = Ok p \<and> p \<notin> ps \<and> \<not> page_is_allocated b p \<and> alloc_ok b' (insert p ps) \<and>
      b' = b\<lparr>bp_next_page_id := bp_next_page_id b', free_page_ids := free_page_ids b'\<rparr>) \<or>
    (\<exists>e. r = Err (PageIdsExhausted e) \<and> b' = b \<and> bp_next_page_id b = 4294967295 \<and> free_page_ids b = {})"
proof (cases "free_page_ids b = {}")
  case False
  let ?p = "Min (free_page_ids b)"
  have p: "?p \<in> free_page_ids b" "as_usize ?p < bp_next_page_id b" using al False by (simp_all add: alloc_ok_def)
  have r': "r = Ok ?p" "b' = b\<lparr>free_page_ids := free_page_ids b - {?p}\<rparr>" using r False by (simp_all add: allocate_page_id_def effects)
  have "?p \<notin> ps" "\<not> page_is_allocated b ?p" using al p by (auto simp: alloc_ok_def page_is_allocated_def)
  then show ?thesis using r' al p by (auto simp: alloc_ok_def page_is_allocated_def)
next
  case True
  let ?n = "bp_next_page_id b"
  show ?thesis
  proof (cases "?n < 4294967295")
    case l: True
    let ?p = "PageId (word_of_nat ?n)"
    have t: "try_from_usize ?n = Ok ?p" using l by (simp add: try_from_usize_Ok_iff)
    have u: "as_usize ?p = ?n" using l by (simp add: as_usize_def unat_of_nat_eq)
    have r': "r = Ok ?p" "b' = b\<lparr>bp_next_page_id := ?n + 1\<rparr>" using r True t by (simp_all add: allocate_page_id_def effects)
    have "?p \<notin> ps" "\<not> page_is_allocated b ?p" using al u by (auto simp: alloc_ok_def page_is_allocated_def)
    then show ?thesis using r' al u l True by (auto simp: alloc_ok_def page_is_allocated_def)
  next
    case False
    have "try_from_usize ?n \<noteq> Ok q" for q using False by (simp add: try_from_usize_Ok_iff)
    then obtain e where "try_from_usize ?n = Err e"
      by (cases "try_from_usize ?n") (auto simp: try_from_usize_def try_from_u64_def u32_try_from_def split: if_splits)
    then show ?thesis using r True False al by (auto simp: allocate_page_id_def effects alloc_ok_def)
  qed
qed

lemma new_page_cases:
  assumes ok: "pool_ok {} b C" and r: "new_page b = (r, b')"
  shows "(\<exists>p f d. r = Ok (p, f) \<and> C p = None \<and> \<not> page_is_allocated b p \<and> page_is_allocated b' p \<and> guarded b (C(p \<mapsto> d)) p True f b' \<and> \<not> pinned (pins b) f) \<or>
    (\<exists>e. r = Err e \<and> pool_ok {} b' C \<and> untouched b b' \<and>
      (refused b e \<or> (\<exists>x. e = PageIdsExhausted x) \<and> bp_next_page_id b = 4294967295 \<and> free_page_ids b = {}))"
proof -
  obtain q b1 where q: "get_free_frame b = (q, b1)" by force
  from ok q show ?thesis
  proof (cases rule: take_frame)
    case none
    then show ?thesis using r q by (auto simp: new_page_def effects)
  next
    case (got res D)
    let ?f = "fr_frame_id res"
    have g: "tables_ok {?f} b1" "store_ok b1 D" "contents b1 D = C" "kept b b1" "pins b1 = pins b"
      "bp_next_page_id b1 = bp_next_page_id b" "free_page_ids b1 = free_page_ids b" using got(2) by (simp_all add: got_frame_def)
    have l: "frame_raw ?f < length (frames b1)" "frame_raw ?f < length (pins b1)" using free_frame [OF g(1)] g(1) by (simp_all add: tables_ok_def)
    obtain D0 where "alloc_ok b (dom C)" using ok by (rule pool_okE)
    then have al: "alloc_ok b1 (dom C)" using alloc_same [of b1 b] g by simp
    obtain x b2 where x: "allocate_page_id b1 = (x, b2)" by force
    from allocate_cases [OF al x] consider
      (new) p where "x = Ok p" "p \<notin> dom C" "\<not> page_is_allocated b1 p" "alloc_ok b2 (insert p (dom C))"
        "b2 = b1\<lparr>bp_next_page_id := bp_next_page_id b2, free_page_ids := free_page_ids b2\<rparr>"
      | (full) e where "x = Err (PageIdsExhausted e)" "b2 = b1" "bp_next_page_id b1 = 4294967295" "free_page_ids b1 = {}" by blast
    then show ?thesis
    proof cases
      case new
      let ?x = "(FrameHeader_clear (frames b2 ! frame_raw ?f))\<lparr>fh_page_id := Some p, fh_dirty := True\<rparr>"
      have b2: "frames b2 = frames b1" "pins b2 = pins b1" "page_table b2 = page_table b1" "tables_ok {?f} b2" "store_ok b2 D" "contents b2 D = C" "kept b b2"
        using g(1-4) by (subst new(5), simp add: kept_def)+
      have p: "page_table b2 p = None" using new(2) g(3) b2(3) by (auto simp: contents_def split: option.splits)
      have len: "length (fh_buf ?x) = PAGE_SIZE" using store_frame [OF g(2) l(1)] b2(1) by (simp add: FrameHeader_clear_def)
      have al2: "alloc_ok b2 (dom (C(p \<mapsto> fh_buf ?x)))" using new(4) by simp
      have pn: "pins b2 = pins b" using b2(2) g(5) by simp
      from admit_guarded [OF b2(4-6) p pn b2(7) _ len _ al2 refl] obtain c where
        c: "enter_page ?f p (b2\<lparr>frames := (frames b2)[frame_raw ?f := ?x], pins := (pins b2)[frame_raw ?f := 1]\<rparr>) = (Ok (), c)"
          "guarded b (C(p \<mapsto> fh_buf ?x)) p True ?f c" "\<not> pinned (pins b) ?f" "bp_next_page_id c = bp_next_page_id b2" "free_page_ids c = free_page_ids b2"
        by auto
      then have "new_page b = (Ok (p, ?f), c)" using q got(1) x new(1) l b2(1,2)
        by (simp add: new_page_def restoring_def bpm_frame_def upd_frame_def set_pins_def index_put_def Let_def effects)
      moreover have "\<not> page_is_allocated b p" "page_is_allocated c p"
        using new(3,4) g(6,7) c(4,5) by (simp_all add: page_is_allocated_def alloc_ok_def)
      moreover have "C p = None" using new(2) by blast
      ultimately show ?thesis using r c(2,3) by (metis prod.inject)
    next
      case full
      from put_back [OF ok got(2)] obtain c where c: "restore_frame res b1 = (Ok (), c)" "pool_ok {} c C" "untouched b c" by blast
      have "new_page b = (Err (PageIdsExhausted e), c)" using q got(1) x full(1,2) l c(1)
        by (simp add: new_page_def restoring_def Let_def bindS_apply effect_apply)
      then show ?thesis using r c full(3,4) g(6,7) by auto
    qed
  qed
qed

end
