(* ===== verification/Buffer_Pool_Map.thy ===== *)
theory Buffer_Pool_Map
  imports Buffer_Pool_Correct
begin

text \<open>
  The buffer pool as its callers see it: deleting, flushing, work under one guard, reopening, and the properties of the pool.
\<close>

section \<open>Deleting a page\<close>

lemma deallocate_ok:
  assumes "disk_rel (dm (scheduler b)) D"
  shows "\<exists>d. bpm_deallocate p b = (Ok (p \<in> dom D), b\<lparr>scheduler := (scheduler b)\<lparr>dm := d\<rparr>\<rparr>) \<and> disk_rel d (D(p := None)) \<and>
    healthy d = healthy (dm (scheduler b))"
proof -
  from disk_deallocate [OF assms, of p] obtain d where d: "deallocate_page p (dm (scheduler b)) = (Ok (p \<in> dom D), d)" "disk_rel d (D(p := None))" by blast
  moreover have "healthy d = healthy (dm (scheduler b))" using d(1) by (auto simp: deallocate_page_def upd_store_def effects healthy_def)
  ultimately show ?thesis by (auto simp: bpm_deallocate_def)
qed

lemma alloc_delete:
  assumes "alloc_ok b (dom C)" "C p \<noteq> None" "bp_next_page_id b' = bp_next_page_id b" "free_page_ids b' = insert p (free_page_ids b)"
  shows "alloc_ok b' (dom (C(p := None)))"
  using assms by (auto simp: alloc_ok_def page_is_allocated_def)

lemma delete_cached:
  assumes ok: "pool_ok {} b C" and f: "page_table b p = Some f" "\<not> pinned (pins b) f"
  shows "\<exists>b'. delete_page p b = (Ok (), b') \<and> pool_ok {} b' (C(p := None)) \<and> pins b' = pins b \<and> kept b b' \<and>
    bp_next_page_id b' = bp_next_page_id b \<and> free_page_ids b' = insert p (free_page_ids b)"
proof -
  obtain D where D: "tables_ok {} b" "alloc_ok b (dom C)" "store_ok b D" "C = contents b D" using ok by (rule pool_okE)
  have h: "held (frames b) f = Some p" using tables_held [OF D(1)] f(1) by blast
  have l: "frame_raw f < length (frames b)" "frame_raw f < length (pins b)" using h D(1) by (simp_all add: held_Some tables_ok_def)
  have n: "\<not> 0 < pins b ! frame_raw f" using f(2) l(2) by (simp add: pinned_def)
  have rp: "replacer_ok (replacer b)" "disk_rel (dm (scheduler b)) D" using D(1,3) by (simp_all add: tables_ok_def store_ok_def)
  from ft.forget_ok [OF rp(1), of p] obtain z r where r: "replacer_remove (replacer b) p = (Ok (z, r) :: (BpmError, _) result)" "replacer_ok r"
    "tracked_page r = (\<lambda>f. if tracked_page (replacer b) f = Some p then None else tracked_page (replacer b) f)"
    "may_go r = (\<lambda>f. may_go (replacer b) f \<and> tracked_page (replacer b) f \<noteq> Some p)" "r_capacity r = r_capacity (replacer b)" by blast
  let ?x = "FrameHeader_clear (frames b ! frame_raw f)"
  let ?b1 = "b\<lparr>frames := (frames b)[frame_raw f := ?x], page_table := (page_table b)(p := None), free_list := free_list b @ [f]\<rparr>"
  from deallocate_ok [of ?b1 D p] rp(2) obtain d where d: "bpm_deallocate p ?b1 = (Ok (p \<in> dom D), ?b1\<lparr>scheduler := (scheduler b)\<lparr>dm := d\<rparr>\<rparr>)"
    "disk_rel d (D(p := None))" "healthy d = healthy (dm (scheduler b))" by auto
  define c where "c = b\<lparr>replacer := r, page_table := (page_table b)(p := None), frames := (frames b)[frame_raw f := ?x], free_list := free_list b @ [f],
    scheduler := (scheduler b)\<lparr>dm := d\<rparr>, free_page_ids := insert p (free_page_ids b)\<rparr>"
  have run: "delete_page p b = (Ok (), c)" using f(1) n l d(1) r(1)
    by (simp add: delete_page_def pins_of_def index_get_def bpm_frame_def upd_frame_def push_free_def effects c_def)
  have "tables_ok {} c" using tables_free [OF D(1) h f(2) _ r(2-5), of ?x] by (simp add: c_def FrameHeader_clear_def)
  moreover have "store_ok c (D(p := None))"
  proof -
    have "fh_page_id (frames b ! i) \<noteq> Some p" if "i < length (frames b)" "i \<noteq> frame_raw f" for i
      using tables_unique [OF D(1) h, of "FrameId i"] that by (auto simp: held_def)
    then show ?thesis using D(3) d(2) l(1) by (auto simp: store_ok_def c_def nth_list_update FrameHeader_clear_def split: if_splits)
  qed
  moreover have "contents c (D(p := None)) = C(p := None)"
    using contents_step [OF D(1) l(1), of p c ?x "D(p := None)" D] h D(4) by (simp add: c_def contents_def)
  moreover have "alloc_ok c (dom (C(p := None)))" using alloc_delete [OF D(2), of p c] contents_held [OF D(1) h] D(4) by (simp add: c_def)
  ultimately have "pool_ok {} c (C(p := None))" by (intro pool_okI)
  moreover have "kept b c" using f(2) d(3) by (simp add: kept_def c_def pinned_other [of "pins b" f])
  ultimately show ?thesis using run by (simp add: c_def)
qed

lemma delete_uncached:
  assumes ok: "pool_ok {} b C" and p: "page_table b p = None"
  shows "\<exists>b'. delete_page p b = (if C p = None then Err (NoSuchPage p) else Ok (), b') \<and> pool_ok {} b' (C(p := None)) \<and> pins b' = pins b \<and> kept b b' \<and>
    bp_next_page_id b' = bp_next_page_id b \<and> free_page_ids b' = (if C p = None then free_page_ids b else insert p (free_page_ids b))"
proof -
  obtain D where D: "tables_ok {} b" "alloc_ok b (dom C)" "store_ok b D" "C = contents b D" using ok by (rule pool_okE)
  have rp: "replacer_ok (replacer b)" "disk_rel (dm (scheduler b)) D" using D(1,3) by (simp_all add: tables_ok_def store_ok_def)
  have Cp: "C p = D p" using D(4) p by (simp add: contents_def)
  from deallocate_ok [OF rp(2), of p] obtain d where d: "bpm_deallocate p b = (Ok (p \<in> dom D), b\<lparr>scheduler := (scheduler b)\<lparr>dm := d\<rparr>\<rparr>)"
    "disk_rel d (D(p := None))" "healthy d = healthy (dm (scheduler b))" by auto
  have no: "fh_page_id (frames b ! i) \<noteq> Some p" if "i < length (frames b)" for i
    using tables_held [OF D(1), of p "FrameId i"] that p by (auto simp: held_def)
  let ?b = "b\<lparr>scheduler := (scheduler b)\<lparr>dm := d\<rparr>\<rparr>"
  have st: "store_ok ?b (D(p := None))" using D(3) d(2) no by (auto simp: store_ok_def)
  have ct: "contents ?b (D(p := None)) = C(p := None)" using D(4) p by (auto simp: contents_def fun_eq_iff split: option.splits)
  show ?thesis
  proof (cases "C p = None")
    case True
    have "delete_page p b = (Err (NoSuchPage p), ?b)" using p d(1) Cp True by (simp add: delete_page_def effects domIff)
    moreover have "pool_ok {} ?b (C(p := None))" using D(1,2) st ct True alloc_same [of ?b b]
      by (intro pool_okI [of _ _ "D(p := None)"]) (simp_all add: fun_upd_idem)
    ultimately show ?thesis using True d(3) by (simp add: kept_def)
  next
    case False
    from ft.forget_ok [OF rp(1), of p] obtain z r where r: "replacer_remove (replacer b) p = (Ok (z, r) :: (BpmError, _) result)" "replacer_ok r"
      "tracked_page r = (\<lambda>f. if tracked_page (replacer b) f = Some p then None else tracked_page (replacer b) f)"
      "may_go r = (\<lambda>f. may_go (replacer b) f \<and> tracked_page (replacer b) f \<noteq> Some p)" "r_capacity r = r_capacity (replacer b)" by blast
    define c where "c = ?b\<lparr>replacer := r, free_page_ids := insert p (free_page_ids b)\<rparr>"
    have "delete_page p b = (Ok (), c)" using p d(1) Cp False r(1) by (simp add: delete_page_def effects domIff c_def)
    moreover have "tables_ok {} c" using tables_forget [OF D(1) p r(2-5)] by (simp add: c_def tables_ok_def)
    moreover have "alloc_ok c (dom (C(p := None)))" using alloc_delete [OF D(2) False, of c] by (simp add: c_def)
    moreover have "store_ok c (D(p := None))" "contents c (D(p := None)) = C(p := None)" using st ct by (simp_all add: c_def)
    ultimately show ?thesis using False d(3) pool_okI [of "{}" c "D(p := None)"] by (auto simp: kept_def c_def)
  qed
qed

section \<open>Flushing\<close>

definition clean :: "FrameHeader \<Rightarrow> bool" where
  "clean h \<longleftrightarrow> fh_page_id h = None \<or> \<not> fh_dirty h"

text \<open>Only dirty flags are reset, and only the disk changes.\<close>

definition cleaner :: "BufferPoolManager \<Rightarrow> BufferPoolManager \<Rightarrow> bool" where
  "cleaner b b' \<longleftrightarrow> pins b' = pins b \<and> kept b b' \<and> bp_next_page_id b' = bp_next_page_id b \<and> free_page_ids b' = free_page_ids b \<and>
     page_table b' = page_table b \<and> (\<forall>i < length (frames b). clean (frames b ! i) \<longrightarrow> clean (frames b' ! i))"

lemma cleaner_refl: "cleaner b b"
  by (simp add: cleaner_def kept_refl)

lemma cleaner_trans: "cleaner a b \<Longrightarrow> cleaner b c \<Longrightarrow> cleaner a c"
  using kept_trans [of a b c] by (auto simp: cleaner_def kept_def)

lemma flush_one:
  assumes ok: "pool_ok {} b C" and f: "held (frames b) f = Some p" and r: "write_to_disk p (fh_buf (frames b ! frame_raw f)) b = (r, b1)"
  defines "b' \<equiv> b1\<lparr>frames := (frames b1)[frame_raw f := (frames b1 ! frame_raw f)\<lparr>fh_dirty := False\<rparr>]\<rparr>"
  assumes d: "fh_dirty (frames b ! frame_raw f) \<or> r = Ok ()"
  shows "r = Ok () \<and> pool_ok {} b' C \<and> cleaner b b' \<and> clean (frames b' ! frame_raw f) \<and> length (frames b') = length (frames b) \<or>
    (\<exists>e. r = Err (BpmIo e)) \<and> \<not> healthy (dm (scheduler b)) \<and> pool_ok {} b1 C \<and> untouched b b1"
proof -
  obtain D where D: "tables_ok {} b" "alloc_ok b (dom C)" "store_ok b D" "C = contents b D" "\<forall>p \<in> dom (contents b D). valid_page_id p" using ok by (rule pool_okE)
  let ?x = "frames b ! frame_raw f"
  have l: "frame_raw f < length (frames b)" "fh_page_id ?x = Some p" using f by (simp_all add: held_Some)
  have Cp: "C p = Some (fh_buf ?x)" using contents_held [OF D(1) f] D(4) by simp
  have v: "valid_page_id p" using D(4,5) Cp by blast
  from pool_write_disk [OF D(3) v store_frame [OF D(3) l(1)] r] obtain s D' where
    s: "b1 = b\<lparr>scheduler := s\<rparr>" "tx s" "requests s = []" "disk_rel (dm s) D'" "\<forall>q. q \<noteq> p \<longrightarrow> D' q = D q" "healthy (dm (scheduler b)) \<longrightarrow> healthy (dm s)"
    and cs: "r = Ok () \<and> D' p = Some (fh_buf ?x) \<or> (\<exists>e. r = Err (BpmIo e)) \<and> dom D' = dom D \<and> \<not> healthy (dm (scheduler b))" by metis
  have st: "store_ok b1 D'" using store_disk [OF D(1,3) f s(2-5)] d cs s(1) by auto
  have al: "alloc_ok b1 (dom C)" "alloc_ok b' (dom C)" using D(2) alloc_same [of b1 b] alloc_same [of b' b] s(1) by (simp_all add: b'_def)
  have t: "tables_ok {} b1" using D(1) s(1) by simp
  have ct: "contents b1 D' = C" using contents_frame [OF D(1) f, of b1 ?x D' D] s(1,5) Cp D(4) by (simp add: fun_upd_idem)
  from cs show ?thesis
  proof (elim disjE conjE)
    assume ok': "r = Ok ()" "D' p = Some (fh_buf ?x)"
    have f1: "held (frames b1) f = Some p" "frames b1 = frames b" using f s(1) by simp_all
    have "tables_ok {} b'" unfolding b'_def by (rule tables_same [OF t]) (use f1 l in \<open>simp add: map_update list_update_same_conv\<close>)
    moreover have "store_ok b' D'"
      by (rule store_update [OF st, of "?x\<lparr>fh_dirty := False\<rparr>" _ "frame_raw f"]) (use l ok' f1 store_frame [OF D(3) l(1)] in \<open>simp_all add: b'_def\<close>)
    moreover have "contents b' D' = C" using contents_frame [OF t f1(1), of b' "?x\<lparr>fh_dirty := False\<rparr>" D' D'] ct Cp f1 by (simp add: b'_def fun_upd_idem)
    ultimately have "pool_ok {} b' C" using al(2) by (intro pool_okI)
    moreover have "cleaner b b'" using s(1,6) l by (auto simp: cleaner_def kept_def b'_def nth_list_update frame_eqI clean_def)
    moreover have "clean (frames b' ! frame_raw f)" "length (frames b') = length (frames b)" using f1 l by (simp_all add: b'_def clean_def)
    ultimately show ?thesis using ok' by blast
  next
    assume er: "\<exists>e. r = Err (BpmIo e)" "\<not> healthy (dm (scheduler b))"
    have "pool_ok {} b1 C" using t st ct al(1) by (intro pool_okI)
    moreover have "untouched b b1" using s(1,6) by (simp add: untouched_def kept_def)
    ultimately show ?thesis using er by blast
  qed
qed

lemma flush_frame_ok:
  assumes ok: "pool_ok {} b C" and i: "i < length (frames b)" and r: "flush_frame i b = (r, b')"
  shows "(\<exists>n. r = Ok n) \<and> pool_ok {} b' C \<and> cleaner b b' \<and> clean (frames b' ! i) \<or>
    (\<exists>e. r = Err (BpmIo e)) \<and> \<not> healthy (dm (scheduler b)) \<and> pool_ok {} b' C \<and> untouched b b'"
proof (cases "clean (frames b ! i)")
  case True
  then have "r = Ok 0" "b' = b" using r by (auto simp: flush_frame_def clean_def effects split: option.splits)
  then show ?thesis using ok True cleaner_refl by simp
next
  case False
  then obtain p where p: "held (frames b) (FrameId i) = Some p" "fh_page_id (frames b ! i) = Some p" "fh_dirty (frames b ! i)"
    using i by (auto simp: clean_def held_def)
  obtain q b1 where q: "write_to_disk p (fh_buf (frames b ! frame_raw (FrameId i))) b = (q, b1)" by force
  show ?thesis using flush_one [OF ok p(1) q] p(2,3) r q
    by (cases q) (auto simp: flush_frame_def upd_frame_def effects)
qed

lemma flush_frames_ok:
  assumes "pool_ok {} b C" "\<forall>i \<in> set is. i < length (frames b)" "flush_frames is b = (r, b')"
  shows "(\<exists>n. r = Ok n) \<and> pool_ok {} b' C \<and> cleaner b b' \<and> (\<forall>i \<in> set is. clean (frames b' ! i)) \<or>
    (\<exists>e. r = Err (BpmIo e)) \<and> \<not> healthy (dm (scheduler b)) \<and> pool_ok {} b' C \<and> pins b' = pins b \<and> kept b b'"
  using assms
proof (induction "is" arbitrary: b r b')
  case Nil
  then show ?case by (auto simp: effects cleaner_refl)
next
  case (Cons i js)
  obtain q b1 where q: "flush_frame i b = (q, b1)" by force
  from Cons(3) have i: "i < length (frames b)" "\<forall>i \<in> set js. i < length (frames b)" by simp_all
  from flush_frame_ok [OF Cons(2) i(1) q] show ?case
  proof (elim disjE conjE exE)
    fix n assume a: "q = Ok n" "pool_ok {} b1 C" "cleaner b b1" "clean (frames b1 ! i)"
    have len: "length (frames b1) = length (frames b)" using a(3) by (simp add: cleaner_def kept_def)
    obtain z b2 where z: "flush_frames js b1 = (z, b2)" by force
    have r': "b' = b2" "r = (case z of Ok m \<Rightarrow> Ok (n + m) | Err e \<Rightarrow> Err e | Panic \<Rightarrow> Panic)"
      using Cons(4) q a(1) z by (auto simp: effects split: result.splits)
    have js: "\<forall>i \<in> set js. i < length (frames b1)" using i(2) len by simp
    from Cons.IH [OF a(2) js z] show ?thesis
    proof (elim disjE conjE exE)
      fix m assume m: "z = Ok m" "pool_ok {} b2 C" "cleaner b1 b2" "\<forall>i \<in> set js. clean (frames b2 ! i)"
      moreover have "clean (frames b2 ! i)" using m(3) a(4) i(1) len by (simp add: cleaner_def)
      ultimately show ?thesis using r' cleaner_trans [OF a(3)] by auto
    next
      fix e assume e: "z = Err (BpmIo e)" "\<not> healthy (dm (scheduler b1))" "pool_ok {} b2 C" "pins b2 = pins b1" "kept b1 b2"
      then show ?thesis using r' a(3) kept_trans [of b b1 b2] by (auto simp: cleaner_def kept_def)
    qed
  next
    fix e assume "q = Err (BpmIo e)" "\<not> healthy (dm (scheduler b))" "pool_ok {} b1 C" "untouched b b1"
    then show ?thesis using Cons(4) q by (auto simp: effects untouched_def)
  qed
qed

lemma all_clean:
  assumes ok: "pool_ok {} b C" and cl: "\<forall>i < length (frames b). clean (frames b ! i)"
  shows "disk_rel (dm (scheduler b)) C"
proof -
  obtain D where D: "tables_ok {} b" "store_ok b D" "C = contents b D" using ok by (rule pool_okE)
  have "contents b D p = D p" for p
  proof (cases "page_table b p")
    case (Some f)
    then have f: "held (frames b) f = Some p" using tables_held [OF D(1)] by blast
    then have "\<not> fh_dirty (frames b ! frame_raw f)" using cl by (auto simp: held_Some clean_def)
    then show ?thesis using store_clean [OF D(2) f] contents_held [OF D(1) f] by simp
  qed (simp add: contents_def)
  then have "contents b D = D" by blast
  then show ?thesis using D(2,3) by (simp add: store_ok_def)
qed

section \<open>Work on one page\<close>

text \<open>Between operations no guard is held, and pages can be used again.\<close>

definition pool_map :: "BufferPoolManager \<Rightarrow> (PageId \<rightharpoonup> bytes) \<Rightarrow> bool" where
  "pool_map b C \<longleftrightarrow> pool_ok {} b C \<and> (\<forall>i < length (pins b). unat (pins b ! i) + 1 < 2 ^ 32)"

lemma pins_back: "i < length ps \<Longrightarrow> (ps[i := ps ! i + 1])[i := ps[i := ps ! i + 1] ! i - 1] = (ps :: u32 list)"
  by simp

lemma guarded_pinned:
  assumes "guarded b C p dirty f b'" "\<forall>i < length (pins b). unat (pins b ! i) + 1 < 2 ^ 32"
  shows "pinned (pins b') f" "frame_raw f < length (pins b)"
proof -
  obtain D where "tables_ok {} b'" using assms(1) by (auto simp: guarded_def elim: pool_okE)
  then have l: "frame_raw f < length (pins b')" "frame_raw f < length (pins b)" using assms(1) by (auto simp: guarded_def tables_ok_def held_Some)
  let ?k = "pins b ! frame_raw f"
  have "unat (?k + 1) = unat ?k + 1" using assms(2) l(2) by (simp add: unat_word_ariths)
  then have "0 < ?k + 1" by (metis add_is_0 one_neq_zero unat_0 word_gt_0)
  then show "pinned (pins b') f" using assms(1) l by (simp add: guarded_def pinned_def)
  show "frame_raw f < length (pins b)" by (rule l(2))
qed

lemma release_guard:
  assumes "pool_ok {} b' C" "pinned (pins b') f" "pins b' = (pins b)[frame_raw f := pins b ! frame_raw f + 1]"
  shows "\<exists>b''. release_pin f b' = (Ok (), b'') \<and> pool_ok {} b'' C \<and> pins b'' = pins b \<and> frames b'' = frames b' \<and> scheduler b'' = scheduler b'"
proof -
  have l: "frame_raw f < length (pins b)" using assms(2,3) by (simp add: pinned_def)
  from release_pin_ok [OF assms(1,2)] obtain b'' where b'': "release_pin f b' = (Ok (), b'')" "pool_ok {} b'' C"
    "pins b'' = (pins b')[frame_raw f := pins b' ! frame_raw f - 1]" "frames b'' = frames b'" "scheduler b'' = scheduler b'" by blast
  have "pins b'' = pins b" using b''(3) assms(3) pins_back [OF l] by simp
  then show ?thesis using b'' by blast
qed

text \<open>What stays when work on a page is done: no pin is left behind, and a healthy disk is still healthy.\<close>

definition settled :: "BufferPoolManager \<Rightarrow> BufferPoolManager \<Rightarrow> bool" where
  "settled b b' \<longleftrightarrow> pins b' = pins b \<and> length (frames b') = length (frames b) \<and> (healthy (dm (scheduler b)) \<longrightarrow> healthy (dm (scheduler b')))"

lemma settled_map: "pool_map b C \<Longrightarrow> settled b b' \<Longrightarrow> pool_ok {} b' C' \<Longrightarrow> pool_map b' C'"
  by (simp add: pool_map_def settled_def)

lemma untouched_settled: "untouched b b' \<Longrightarrow> settled b b'"
  by (simp add: untouched_def kept_def settled_def)

lemma under_guard_ok:
  assumes m: "\<forall>i < length (pins b). unat (pins b ! i) + 1 < 2 ^ 32" and g: "guarded b C p True f b'"
    and w: "g (the (C p)) = (r, d)" and len: "length d = PAGE_SIZE"
  shows "\<exists>b''. under_guard f g b' = (r, b'') \<and> pool_ok {} b'' (C(p \<mapsto> d)) \<and> settled b b''"
proof -
  have g': "pool_ok {} b' C" "held (frames b') f = Some p" "fh_dirty (frames b' ! frame_raw f)" "C p = Some (page_data f b')"
    "pins b' = (pins b)[frame_raw f := pins b ! frame_raw f + 1]" "kept b b'" using g by (simp_all add: guarded_def page_data_def)
  then have l: "frame_raw f < length (frames b')" "fh_page_id (frames b' ! frame_raw f) = Some p" by (simp_all add: held_Some)
  let ?x = "(frames b' ! frame_raw f)\<lparr>fh_buf := d\<rparr>"
  let ?c = "b'\<lparr>frames := (frames b')[frame_raw f := ?x]\<rparr>"
  have "pool_ok {} ?c (C(p \<mapsto> fh_buf ?x))" by (rule frame_bytes [OF g'(1,2)]) (use l g'(3) len in simp_all)
  then have "pool_ok {} ?c (C(p \<mapsto> d))" by simp
  from release_guard [OF this, of f b] guarded_pinned(1) [OF g m] g'(5) obtain b'' where
    b'': "release_pin f ?c = (Ok (), b'')" "pool_ok {} b'' (C(p \<mapsto> d))" "pins b'' = pins b" "frames b'' = frames ?c" "scheduler b'' = scheduler b'" by auto
  have "under_guard f g b' = (r, b'')" using w g'(4) b''(1) by (simp add: under_guard_def set_page_data_def upd_frame_def effects)
  moreover have "settled b b''" using b''(3-5) g'(6) by (simp add: settled_def kept_def)
  ultimately show ?thesis using b''(2) by blast
qed

lemma writing_ok:
  assumes m: "pool_map b C" and len: "\<And>d. C p = Some d \<Longrightarrow> length (snd (g d)) = PAGE_SIZE" and r: "writing p wrap g b = (r, b')"
  shows "settled b b' \<and> ((\<exists>d. C p = Some d \<and> r = fst (g d) \<and> pool_map b' (C(p \<mapsto> snd (g d)))) \<or>
    (\<exists>e. r = Err (wrap e) \<and> pool_map b' C \<and> (refused b e \<or> e = BpmIo (PageMissing p) \<and> C p = None)))"
proof -
  obtain q b1 where q: "bpm_write_page p b = (q, b1)" by force
  have ok: "pool_ok {} b C" "\<forall>i < length (pins b). unat (pins b ! i) + 1 < 2 ^ 32" using m by (simp_all add: pool_map_def)
  have "pin_page (Suc 0) p True b = (q, b1)" using q by (simp add: bpm_write_page_def)
  from pin_page_cases [OF ok this] consider (ok) f where "q = Ok f" "guarded b C p True f b1"
    | (er) e where "q = Err e" "pool_ok {} b1 C" "untouched b b1" "refused b e \<or> e = BpmIo (PageMissing p) \<and> C p = None" by blast
  then show ?thesis
  proof cases
    case f: ok
    then obtain d where d: "C p = Some d" by (auto simp: guarded_def)
    obtain x y where xy: "g d = (x, y)" by force
    from under_guard_ok [OF ok(2) f(2), of g x y] len [OF d] xy d obtain b'' where
      "under_guard f g b1 = (x, b'')" "pool_ok {} b'' (C(p \<mapsto> y))" "settled b b''" by auto
    moreover from this have "pool_map b'' (C(p \<mapsto> y))" using settled_map [OF m] by blast
    ultimately show ?thesis using r q f(1) d xy by (auto simp: writing_def)
  next
    case er
    then show ?thesis using r q untouched_settled settled_map [OF m] by (auto simp: writing_def)
  qed
qed

lemma reading_ok:
  assumes m: "pool_map b C" and r: "reading p wrap g b = (r, b')"
  shows "settled b b' \<and> pool_map b' C \<and> ((\<exists>d. C p = Some d \<and> r = g d \<and> length d = PAGE_SIZE) \<or>
    (\<exists>e. r = Err (wrap e) \<and> (refused b e \<or> e = BpmIo (PageMissing p) \<and> C p = None)))"
proof -
  obtain q b1 where q: "bpm_read_page p b = (q, b1)" by force
  have ok: "pool_ok {} b C" "\<forall>i < length (pins b). unat (pins b ! i) + 1 < 2 ^ 32" using m by (simp_all add: pool_map_def)
  have "pin_page (Suc 0) p False b = (q, b1)" using q by (simp add: bpm_read_page_def)
  from pin_page_cases [OF ok this] consider (ok) f where "q = Ok f" "guarded b C p False f b1"
    | (er) e where "q = Err e" "pool_ok {} b1 C" "untouched b b1" "refused b e \<or> e = BpmIo (PageMissing p) \<and> C p = None" by blast
  then show ?thesis
  proof cases
    case f: ok
    then have g: "pool_ok {} b1 C" "C p = Some (page_data f b1)" "pins b1 = (pins b)[frame_raw f := pins b ! frame_raw f + 1]" "kept b b1"
      by (simp_all add: guarded_def page_data_def)
    have len: "length (page_data f b1) = PAGE_SIZE" using f(2) by (auto simp: guarded_def held_Some page_data_def elim!: pool_okE intro: store_frame)
    from release_guard [OF g(1) guarded_pinned(1) [OF f(2) ok(2)] g(3)] obtain b'' where
      b'': "release_pin f b1 = (Ok (), b'')" "pool_ok {} b'' C" "pins b'' = pins b" "frames b'' = frames b1" "scheduler b'' = scheduler b1" by blast
    have "settled b b''" using b''(3-5) g(4) by (simp add: settled_def kept_def)
    then show ?thesis using r q f(1) g(2) b'' len settled_map [OF m] by (auto simp: reading_def)
  next
    case er
    then show ?thesis using r q untouched_settled settled_map [OF m] by (auto simp: reading_def)
  qed
qed

lemma adding_ok:
  assumes m: "pool_map b C" and len: "\<And>p d. length d = PAGE_SIZE \<Longrightarrow> length (snd (g p d)) = PAGE_SIZE" and r: "adding wrap g b = (r, b')"
  shows "settled b b' \<and> ((\<exists>p d. C p = None \<and> valid_page_id p \<and> \<not> page_is_allocated b p \<and> length d = PAGE_SIZE \<and> r = fst (g p d) \<and> pool_map b' (C(p \<mapsto> snd (g p d)))) \<or>
    (\<exists>e. r = Err (wrap e) \<and> pool_map b' C \<and> (refused b e \<or> (\<exists>x. e = PageIdsExhausted x) \<and> bp_next_page_id b = 4294967295 \<and> free_page_ids b = {})))"
proof -
  obtain q b1 where q: "new_page b = (q, b1)" by force
  have ok: "pool_ok {} b C" "\<forall>i < length (pins b). unat (pins b ! i) + 1 < 2 ^ 32" using m by (simp_all add: pool_map_def)
  from new_page_cases [OF ok(1) q] show ?thesis
  proof (elim disjE exE conjE)
    fix p f d assume f: "q = Ok (p, f)" "C p = None" "\<not> page_is_allocated b p" "guarded b (C(p \<mapsto> d)) p True f b1"
    then have d: "length d = PAGE_SIZE" by (auto simp: guarded_def held_Some elim!: pool_okE intro: store_frame)
    have "pool_ok {} b1 (C(p \<mapsto> d))" using f(4) unfolding guarded_def by blast
    then have "alloc_ok b1 (dom (C(p \<mapsto> d)))" by (rule pool_okE)
    from alloc_valid [OF this] have v: "valid_page_id p" by simp
    obtain x y where xy: "g p d = (x, y)" by force
    from under_guard_ok [OF ok(2) f(4), of "g p" x y] len [OF d, of p] xy obtain b'' where
      b'': "under_guard f (g p) b1 = (x, b'')" "pool_ok {} b'' (C(p \<mapsto> y))" "settled b b''" by auto
    moreover from this have "pool_map b'' (C(p \<mapsto> y))" using settled_map [OF m] by blast
    ultimately show ?thesis using r q f(1-3) d v xy by (auto simp: adding_def intro!: exI [of _ p] exI [of _ d])
  next
    fix e x assume "q = Err e" "pool_ok {} b1 C" "untouched b b1" "e = PageIdsExhausted x" "bp_next_page_id b = 4294967295" "free_page_ids b = {}"
    then show ?thesis using r q untouched_settled settled_map [OF m] by (auto simp: adding_def)
  next
    fix e assume "q = Err e" "pool_ok {} b1 C" "untouched b b1" "refused b e"
    then show ?thesis using r q untouched_settled settled_map [OF m] by (auto simp: adding_def)
  qed
qed

lemma delete_page_cases:
  assumes ok: "pool_ok {} b C" and r: "delete_page p b = (r, b')"
  shows "r = Err (PagePinned p) \<and> b' = b \<and> (\<exists>f. pinned (pins b) f \<and> held (frames b) f = Some p) \<or>
    (pool_ok {} b' (C(p := None)) \<and> pins b' = pins b \<and> kept b b' \<and> (r = Ok () \<and> C p \<noteq> None \<or> r = Err (NoSuchPage p) \<and> C p = None))"
proof (cases "page_table b p")
  case None
  from delete_uncached [OF ok None] r show ?thesis by auto
next
  case (Some f)
  obtain D where D: "tables_ok {} b" "C = contents b D" using ok by (rule pool_okE)
  have h: "held (frames b) f = Some p" using tables_held [OF D(1)] Some by blast
  then have l: "frame_raw f < length (pins b)" using D(1) by (simp add: held_Some tables_ok_def)
  show ?thesis
  proof (cases "pinned (pins b) f")
    case True
    then have "r = Err (PagePinned p)" "b' = b" using r Some l by (auto simp: delete_page_def pins_of_def index_get_def pinned_def effects)
    then show ?thesis using True h by blast
  next
    case False
    from delete_cached [OF ok Some False] r contents_held [OF D(1) h] D(2) show ?thesis by auto
  qed
qed

lemma sync_ok:
  assumes "disk_rel d D" "dm_sync d = (r, d')"
  shows "disk_rel d' D \<and> (r = Ok () \<or> (\<exists>e. r = Err e) \<and> \<not> healthy d) \<and> (healthy d \<longrightarrow> healthy d')"
proof -
  have "disk_rel d' D" using disk_sync [OF assms] by blast
  moreover have "(r = Ok () \<or> (\<exists>e. r = Err e) \<and> \<not> healthy d) \<and> (healthy d \<longrightarrow> healthy d')"
    using assms(2) by (auto simp: dm_sync_def disk_step_def disk_io_def healthy_def effects split: option.splits list.splits io.splits)
  ultimately show ?thesis by blast
qed

lemma flush_all_ok:
  assumes ok: "pool_ok {} b C" and r: "flush_all b = (r, b')"
  shows "pool_ok {} b' C \<and> pins b' = pins b \<and> kept b b' \<and>
    ((\<exists>n. r = Ok n) \<and> disk_rel (dm (scheduler b')) C \<or> (\<exists>e. r = Err (BpmIo e)) \<and> \<not> healthy (dm (scheduler b)))"
proof -
  obtain q b1 where q: "flush_frames [0..<length (frames b)] b = (q, b1)" by force
  from flush_frames_ok [OF ok _ q] consider
    (ok) n where "q = Ok n" "pool_ok {} b1 C" "cleaner b b1" "\<forall>i < length (frames b). clean (frames b1 ! i)"
    | (er) e where "q = Err (BpmIo e)" "\<not> healthy (dm (scheduler b))" "pool_ok {} b1 C" "pins b1 = pins b" "kept b b1" by auto
  then show ?thesis
  proof cases
    case ok
    have len: "length (frames b1) = length (frames b)" and k: "kept b b1" and pn: "pins b1 = pins b" using ok(3) by (simp_all add: cleaner_def kept_def)
    have dr: "disk_rel (dm (scheduler b1)) C" using all_clean [OF ok(2)] ok(4) len by simp
    show ?thesis
    proof (cases "n > 0")
      case False
      then have "r = Ok n" "b' = b1" using r q ok(1) by (simp_all add: flush_all_def effects)
      then show ?thesis using ok(2) k pn dr by blast
    next
      case True
      obtain x d where x: "dm_sync (dm (scheduler b1)) = (x, d)" by force
      let ?c = "b1\<lparr>scheduler := (scheduler b1)\<lparr>dm := d\<rparr>\<rparr>"
      have r': "b' = ?c" "r = (case x of Ok _ \<Rightarrow> Ok n | Err e \<Rightarrow> Err (BpmIo e) | Panic \<Rightarrow> Panic)"
        using r q ok(1) True x by (auto simp: flush_all_def effects split: result.splits)
      note s = sync_ok [OF dr x]
      obtain D where D: "tables_ok {} b1" "alloc_ok b1 (dom C)" "store_ok b1 D" "C = contents b1 D" using ok(2) by (rule pool_okE)
      have "disk_rel d D" using sync_ok [OF _ x] D(3) by (simp add: store_ok_def)
      then have "pool_ok {} ?c C" using D alloc_same [of ?c b1] by (intro pool_okI [of _ _ D]) (simp_all add: store_ok_def)
      moreover have "kept b ?c" using k s by (auto simp: kept_def)
      moreover have "(\<exists>n. r = Ok n) \<or> (\<exists>e. r = Err (BpmIo e)) \<and> \<not> healthy (dm (scheduler b))" using s r'(2) k by (auto simp: kept_def)
      ultimately show ?thesis using r'(1) pn s by auto
    qed
  next
    case er
    then have "r = Err (BpmIo e)" "b' = b1" using r q by (simp_all add: flush_all_def effects)
    then show ?thesis using er by blast
  qed
qed

lemma flush_page_ok:
  assumes ok: "pool_ok {} b C" and r: "flush_page p b = (r, b')"
    and d: "healthy (dm (scheduler b)) \<or> (\<forall>f. page_table b p = Some f \<longrightarrow> fh_dirty (frames b ! frame_raw f))"
  shows "pool_ok {} b' C \<and> pins b' = pins b \<and> kept b b' \<and>
    (r = Ok () \<and> page_table b p \<noteq> None \<or> r = Err (PageNotCached p) \<and> page_table b p = None \<or> (\<exists>e. r = Err (BpmIo e)) \<and> \<not> healthy (dm (scheduler b)))"
proof (cases "page_table b p")
  case None
  then show ?thesis using r ok by (auto simp: flush_page_def effects kept_refl)
next
  case (Some f)
  obtain D where D: "tables_ok {} b" "alloc_ok b (dom C)" "store_ok b D" "C = contents b D" "\<forall>p \<in> dom (contents b D). valid_page_id p" using ok by (rule pool_okE)
  have h: "held (frames b) f = Some p" using tables_held [OF D(1)] Some by blast
  obtain q b1 where q: "write_to_disk p (fh_buf (frames b ! frame_raw f)) b = (q, b1)" by force
  have run: "flush_page p b = (case q of Ok _ \<Rightarrow> (Ok (), b1\<lparr>frames := (frames b1)[frame_raw f := (frames b1 ! frame_raw f)\<lparr>fh_dirty := False\<rparr>]\<rparr>)
      | Err e \<Rightarrow> (Err e, b1) | Panic \<Rightarrow> (Panic, b1))"
    using Some h q by (auto simp: flush_page_def bpm_frame_def upd_frame_def held_Some effects split: result.splits)
  have v: "valid_page_id p" using D(2,5,4) contents_held [OF D(1) h] by blast
  have "frame_raw f < length (frames b)" using h by (simp add: held_Some)
  from pool_write_disk [OF D(3) v store_frame [OF D(3) this] q] d Some have "fh_dirty (frames b ! frame_raw f) \<or> q = Ok ()" by blast
  from flush_one [OF ok h q this] show ?thesis using r run Some by (cases q) (auto simp: cleaner_def untouched_def)
qed

section \<open>Opening a pool\<close>

lemma new_pool:
  assumes "disk_rel d D"
  shows "\<exists>b. BufferPoolManager_new n (ArcReplacer_new n) (DiskScheduler_new d) = (Ok b :: ('e, BufferPoolManager) result) \<and>
    tables_ok {} b \<and> store_ok b D \<and> contents b D = D \<and> bp_next_page_id b = 0 \<and> free_page_ids b = {} \<and> page_table b = Map.empty \<and>
    pins b = replicate n 0 \<and> dm (scheduler b) = d"
proof -
  let ?h = "\<lparr>fh_page_id = None, fh_buf = replicate PAGE_SIZE 0, fh_dirty = False\<rparr>"
  define b where "b = \<lparr>frames = replicate n ?h, replacer = ArcReplacer_new n, free_list = map FrameId [0..<n], page_table = Map.empty, pins = replicate n 0,
         bp_next_page_id = 0, free_page_ids = {}, scheduler = DiskScheduler_new d\<rparr>"
  have e: "held (frames b) = Map.empty" by (auto simp: b_def held_def fun_eq_iff)
  have t: "tracked_page (ArcReplacer_new n) = Map.empty" "\<not> may_go (ArcReplacer_new n) f" "r_capacity (ArcReplacer_new n) = n" for f
    by (auto simp: tracked_page_def may_go_def ArcReplacer_new_def)
  have "replacer_ok (ArcReplacer_new n)" using new_refined by (auto simp: replacer_ok_def)
  moreover have "\<not> pinned (pins b) f" for f by (simp add: pinned_def b_def)
  moreover have "g \<in> FrameId ` {0..<n} \<longleftrightarrow> g \<in> {f. frame_raw f < n}" for g by (cases g) auto
  then have "FrameId ` {0..<n} = {f. frame_raw f < n}" by blast
  ultimately have "tables_ok {} b" unfolding tables_ok_def e using t by (simp add: b_def distinct_map inj_on_def)
  moreover have "store_ok b D" using assms by (simp add: store_ok_def b_def DiskScheduler_new_def)
  moreover have "contents b D = D" by (simp add: contents_def b_def fun_eq_iff)
  ultimately show ?thesis using t(3) by (intro exI [of _ b]) (simp add: BufferPoolManager_new_def b_def DiskScheduler_new_def)
qed

lemma deallocate_all:
  assumes "store_ok b D" "page_table b = Map.empty" "tables_ok {} b"
  shows "\<exists>s. forS (\<lambda>pid. bindS (bpm_deallocate pid) (\<lambda>_. returnS ())) ps b = (Ok (), b\<lparr>scheduler := s\<rparr>) \<and>
    store_ok (b\<lparr>scheduler := s\<rparr>) (D |` (- set ps)) \<and> (healthy (dm (scheduler b)) \<longrightarrow> healthy (dm s))"
  using assms
proof (induction ps arbitrary: b D)
  case Nil
  then show ?case by (intro exI [of _ "scheduler b"]) (simp add: effects)
next
  case (Cons p ps)
  have rel: "disk_rel (dm (scheduler b)) D" using Cons(2) by (simp add: store_ok_def)
  from deallocate_ok [OF rel, of p] obtain d where d: "bpm_deallocate p b = (Ok (p \<in> dom D), b\<lparr>scheduler := (scheduler b)\<lparr>dm := d\<rparr>\<rparr>)"
    "disk_rel d (D(p := None))" "healthy d = healthy (dm (scheduler b))" by blast
  let ?b = "b\<lparr>scheduler := (scheduler b)\<lparr>dm := d\<rparr>\<rparr>"
  have "fh_page_id (frames b ! i) = None" if "i < length (frames b)" for i
    using tables_held [OF Cons(4), of _ "FrameId i"] Cons(3) that by (cases "fh_page_id (frames b ! i)") (auto simp: held_def)
  then have st: "store_ok ?b (D(p := None))" using Cons(2) d(2) by (simp add: store_ok_def)
  have e: "page_table ?b = Map.empty" "tables_ok {} ?b" using Cons(3,4) by simp_all
  from Cons.IH [OF st e] obtain s where s: "forS (\<lambda>pid. bindS (bpm_deallocate pid) (\<lambda>_. returnS ())) ps ?b = (Ok (), ?b\<lparr>scheduler := s\<rparr>)"
    "store_ok (?b\<lparr>scheduler := s\<rparr>) ((D(p := None)) |` (- set ps))" "healthy (dm (scheduler ?b)) \<longrightarrow> healthy (dm s)" by blast
  have "(D(p := None)) |` (- set ps) = D |` (- set (p # ps))" by (auto simp: restrict_map_def fun_eq_iff)
  moreover have "forS (\<lambda>pid. bindS (bpm_deallocate pid) (\<lambda>_. returnS ())) (p # ps) b = forS (\<lambda>pid. bindS (bpm_deallocate pid) (\<lambda>_. returnS ())) ps ?b"
    by (simp only: forS.simps bindS_apply d(1) effect_apply prod.case result.case)
  ultimately show ?case using s d(3) by (intro exI [of _ s]) simp
qed

lemma resumed_pool:
  assumes rel: "disk_rel d D" and a: "pa_next_page_id a \<le> 4294967295" "\<forall>p \<in> set (pa_free_page_ids a). as_usize p < pa_next_page_id a"
    "\<forall>p \<in> dom D - set (pa_free_page_ids a). as_usize p < pa_next_page_id a"
  shows "\<exists>b0 b. BufferPoolManager_new n (ArcReplacer_new n) (DiskScheduler_new d) = (Ok b0 :: ('e, BufferPoolManager) result) \<and>
    resume_allocation a b0 = (Ok (), b) \<and> pool_map b (D |` (- set (pa_free_page_ids a))) \<and>
    bp_next_page_id b = pa_next_page_id a \<and> free_page_ids b = set (pa_free_page_ids a) \<and> pins b = replicate n 0"
proof -
  from new_pool [OF rel, of n, where 'e = 'e] obtain b0 where b0: "BufferPoolManager_new n (ArcReplacer_new n) (DiskScheduler_new d) = (Ok b0 :: ('e, BufferPoolManager) result)"
    "tables_ok {} b0" "store_ok b0 D" "contents b0 D = D" "bp_next_page_id b0 = 0" "free_page_ids b0 = {}" "page_table b0 = Map.empty" "pins b0 = replicate n 0" by blast
  let ?D = "D |` (- set (pa_free_page_ids a))"
  from deallocate_all [OF b0(3,7,2), of "pa_free_page_ids a"] obtain s where
    s: "forS (\<lambda>pid. bindS (bpm_deallocate pid) (\<lambda>_. returnS ())) (pa_free_page_ids a) b0 = (Ok (), b0\<lparr>scheduler := s\<rparr>)" "store_ok (b0\<lparr>scheduler := s\<rparr>) ?D" by blast
  let ?b = "b0\<lparr>scheduler := s, bp_next_page_id := pa_next_page_id a, free_page_ids := set (pa_free_page_ids a)\<rparr>"
  have "resume_allocation a b0 = (Ok (), ?b)" using b0(5,6) s(1) by (simp add: resume_allocation_def effects)
  moreover have "contents ?b ?D = ?D" using b0(7) by (simp add: contents_def fun_eq_iff)
  moreover have "alloc_ok ?b (dom ?D)" using a by (auto simp: alloc_ok_def page_is_allocated_def)
  ultimately have "pool_ok {} ?b ?D" using b0(2) s(2) by (intro pool_okI [of _ _ ?D]) simp_all
  then have "pool_map ?b ?D" using b0(8) by (simp add: pool_map_def)
  then show ?thesis using b0(1,8) \<open>resume_allocation a b0 = _\<close> by auto
qed

text \<open>A new pool over a flushed disk, resumed from the allocation the old pool reports.\<close>

lemma reopened_pool:
  assumes m: "pool_map b C" and rel: "disk_rel (dm (scheduler b)) C"
  shows "\<exists>b0 b2. BufferPoolManager_new n (ArcReplacer_new n) (DiskScheduler_new (dm (scheduler b))) = (Ok b0 :: ('e, BufferPoolManager) result) \<and>
    resume_allocation (bpm_allocation b) b0 = (Ok (), b2) \<and> pool_map b2 C \<and> bpm_allocation b2 = bpm_allocation b \<and> pins b2 = replicate n 0"
proof -
  have "pool_ok {} b C" using m by (simp add: pool_map_def)
  then obtain D where al: "alloc_ok b (dom C)" by (rule pool_okE)
  let ?a = "bpm_allocation b"
  have "p \<in> free_page_ids b \<Longrightarrow> C p = None" for p
    using al by (cases "C p") (fastforce simp: alloc_ok_def page_is_allocated_def)+
  then have a: "pa_next_page_id ?a \<le> 4294967295" "\<forall>p \<in> set (pa_free_page_ids ?a). as_usize p < pa_next_page_id ?a"
    "\<forall>p \<in> dom C - set (pa_free_page_ids ?a). as_usize p < pa_next_page_id ?a" "C |` (- set (pa_free_page_ids ?a)) = C"
    using al by (auto simp: alloc_ok_def bpm_allocation_def page_is_allocated_def restrict_map_def fun_eq_iff)
  from resumed_pool [OF rel a(1-3), of n, where 'e = 'e, unfolded a(4)] obtain b0 b2 where
    "BufferPoolManager_new n (ArcReplacer_new n) (DiskScheduler_new (dm (scheduler b))) = (Ok b0 :: ('e, BufferPoolManager) result)"
    "resume_allocation ?a b0 = (Ok (), b2)" "pool_map b2 C" "bp_next_page_id b2 = pa_next_page_id ?a" "free_page_ids b2 = set (pa_free_page_ids ?a)"
    "pins b2 = replicate n 0" by blast
  moreover from this have "bpm_allocation b2 = ?a" using al by (simp add: bpm_allocation_def alloc_ok_def)
  ultimately show ?thesis by blast
qed

section \<open>Properties\<close>


text \<open>C34. A page that a guard pins stays in its frame with its bytes: reading or writing other pages, allocating, deleting and flushing
  never evict, move or change it.\<close>

theorem pinned_pages_stay:
  assumes "pool_map b C" "pinned (pins b) f"
    "op \<in> {snd \<circ> bpm_read_page p, snd \<circ> bpm_write_page p, snd \<circ> new_page, snd \<circ> delete_page p, snd \<circ> flush_all}"
  shows "fh_page_id (frames (op b) ! frame_raw f) = fh_page_id (frames b ! frame_raw f) \<and>
    page_data f (op b) = page_data f b \<and> C (the (fh_page_id (frames b ! frame_raw f))) = Some (page_data f b)"
proof -
  have ok: "pool_ok {} b C" "\<forall>i < length (pins b). unat (pins b ! i) + 1 < 2 ^ 32" using assms(1) by (simp_all add: pool_map_def)
  have pin: "kept b (snd (pin_page (Suc 0) p w b))" for w
    using pin_page_cases [OF ok, of 0 p w "fst (pin_page (Suc 0) p w b)" "snd (pin_page (Suc 0) p w b)"] by (auto simp del: pin_page.simps simp: guarded_def untouched_def)
  have new: "kept b (snd (new_page b))"
    using new_page_cases [OF ok(1), of "fst (new_page b)" "snd (new_page b)"] by (auto simp: guarded_def untouched_def)
  have del: "kept b (snd (delete_page p b))"
    using delete_page_cases [OF ok(1), of p "fst (delete_page p b)" "snd (delete_page p b)"] by (auto simp: kept_refl)
  have flush: "kept b (snd (flush_all b))" using flush_all_ok [OF ok(1), of "fst (flush_all b)" "snd (flush_all b)"] by simp
  have "kept b (op b)" using assms(3) pin new del flush by (auto simp: bpm_read_page_def bpm_write_page_def simp del: pin_page.simps)
  moreover obtain D where D: "tables_ok {} b" "C = contents b D" using ok(1) by (rule pool_okE)
  moreover obtain q where q: "held (frames b) f = Some q" using tables_pinned [OF D(1) assms(2)] by auto
  ultimately show ?thesis using assms(2) contents_held [OF D(1) q] by (simp add: kept_def page_data_def held_Some)
qed

text \<open>C35. Flushing the pool writes back all of it. When \<open>flush_all\<close> succeeds, the disk holds the bytes of every page, and a new pool of any
  size over that disk, resumed from the allocation the old pool reports, has the same pages and goes on with the same page
  ids. When it fails, a file operation failed, and the pool still has every page.\<close>

theorem flush_and_reopen:
  assumes "pool_map b C"
  shows "case flush_all b of
    (Ok written, b') \<Rightarrow> pool_map b' C \<and> disk_rel (dm (scheduler b')) C \<and>
      (case BufferPoolManager_new n (ArcReplacer_new n) (DiskScheduler_new (dm (scheduler b'))) of
         Ok fresh \<Rightarrow> (case resume_allocation (bpm_allocation b') fresh of
           (r, b2) \<Rightarrow> r = Ok () \<and> pool_map b2 C \<and> bpm_allocation b2 = bpm_allocation b')
       | Err e \<Rightarrow> False | Panic \<Rightarrow> False)
  | (Err e, b') \<Rightarrow> pool_map b' C \<and> \<not> healthy (dm (scheduler b))
  | (Panic, b') \<Rightarrow> False"
proof -
  obtain r b' where r: "flush_all b = (r, b')" by force
  have ok: "pool_ok {} b C" using assms by (simp add: pool_map_def)
  note fl = flush_all_ok [OF ok r]
  have m: "pool_map b' C" using fl assms by (simp add: pool_map_def)
  show ?thesis
  proof (cases r)
    case (Ok k)
    have rel: "disk_rel (dm (scheduler b')) C" using fl Ok by auto
    from reopened_pool [OF m rel, of n, where 'e = 'a] obtain b0 b2 where
      "BufferPoolManager_new n (ArcReplacer_new n) (DiskScheduler_new (dm (scheduler b'))) = (Ok b0 :: ('a, BufferPoolManager) result)"
      "resume_allocation (bpm_allocation b') b0 = (Ok (), b2)" "pool_map b2 C" "bpm_allocation b2 = bpm_allocation b'" by blast
    then show ?thesis using m rel r Ok by simp
  qed (use r fl m in auto)
qed

definition empty_disk :: DiskManager where
  "empty_disk = with_store \<lparr>db_file = [], live = {}, wal = None\<rparr> []"

lemma empty_pool:
  "\<exists>b. BufferPoolManager_new 2 (ArcReplacer_new 2) (DiskScheduler_new empty_disk) = (Ok b :: (unit, _) result) \<and> pool_map b Map.empty \<and>
    healthy (dm (scheduler b)) \<and> pins b = [0, 0] \<and> bp_next_page_id b = 0"
proof -
  have d: "disk_rel empty_disk Map.empty" by (simp add: empty_disk_def disk_rel_def with_store_def)
  from new_pool [OF d, of 2, where 'e = unit] obtain b where b: "BufferPoolManager_new 2 (ArcReplacer_new 2) (DiskScheduler_new empty_disk) = (Ok b :: (unit, _) result)"
    "tables_ok {} b" "store_ok b Map.empty" "contents b Map.empty = Map.empty" "bp_next_page_id b = 0" "free_page_ids b = {}"
    "pins b = replicate 2 0" "dm (scheduler b) = empty_disk" by blast
  have "pool_map b Map.empty" using b by (auto simp: pool_map_def alloc_ok_def intro!: pool_okI)
  then show ?thesis using b by (simp add: healthy_def empty_disk_def with_store_def numeral_2_eq_2)
qed

text \<open>A pool with one page, which a guard pins.\<close>

lemma pinned_pool: "\<exists>b p f d. pool_map b [p \<mapsto> d] \<and> pinned (pins b) f \<and> held (frames b) f = Some p"
proof -
  from empty_pool obtain b where b: "pool_map b Map.empty" "healthy (dm (scheduler b))" "pins b = [0, 0]" "bp_next_page_id b = 0" by blast
  obtain r b' where r: "new_page b = (r, b')" by force
  have ok: "pool_ok {} b Map.empty" using b(1) by (simp add: pool_map_def)
  then have n: "length (frames b) = 2" using b(3) by (auto simp: tables_ok_def elim!: pool_okE)
  have "\<not> pinned (pins b) (FrameId 0)" "frame_raw (FrameId 0) < length (frames b)" using b(3) n by (simp_all add: pinned_def)
  then have "\<not> refused b e" for e using b(2) unfolding refused_def by blast
  from new_page_cases [OF ok r] this b(4) obtain p f d where g: "guarded b [p \<mapsto> d] p True f b'" "\<not> pinned (pins b) f" by auto
  have s: "\<forall>i < length (pins b). unat (pins b ! i) + 1 < 2 ^ 32" using b(1) by (simp add: pool_map_def)
  note pn = guarded_pinned [OF g(1) s]
  have "pins b' = [0, 0][frame_raw f := [0, 0] ! frame_raw f + 1]" using g(1) b(3) by (simp add: guarded_def)
  moreover have "frame_raw f = 0 \<or> frame_raw f = 1" using pn(2) b(3) by auto
  ultimately have "pins b' = [1, 0] \<or> pins b' = [0, 1]" by auto
  then have "\<forall>i < length (pins b'). unat (pins b' ! i) + 1 < 2 ^ 32" by (auto simp: less_Suc_eq)
  then have "pool_map b' [p \<mapsto> d]" "held (frames b') f = Some p" using g(1) unfolding pool_map_def guarded_def by blast+
  then show ?thesis using pn(1) by blast
qed


theorem pinned_pages_stay_witness:
  "\<exists>b p d f. pool_map b [p \<mapsto> d] \<and> pinned (pins b) f \<and> page_data f ((snd \<circ> flush_all) b) = page_data f b"
proof -
  from pinned_pool obtain b p d f where b: "pool_map b [p \<mapsto> d]" "pinned (pins b) f" by blast
  from pinned_pages_stay [OF b, of "snd \<circ> flush_all"] b show ?thesis by blast
qed

theorem flush_and_reopen_witness:
  "\<exists>b p d. pool_map b [p \<mapsto> d] \<and> (case flush_all b of (Ok n, b') \<Rightarrow> disk_rel (dm (scheduler b')) [p \<mapsto> d] | (Err e, b') \<Rightarrow> pool_map b' [p \<mapsto> d] | (Panic, b') \<Rightarrow> False)"
proof -
  from pinned_pool obtain b p d where b: "pool_map b [p \<mapsto> d]" by blast
  have "case flush_all b of (Ok n, b') \<Rightarrow> disk_rel (dm (scheduler b')) [p \<mapsto> d] | (Err e, b') \<Rightarrow> pool_map b' [p \<mapsto> d] | (Panic, b') \<Rightarrow> False"
    using flush_and_reopen [OF b, of 3] by (auto split: prod.splits result.splits)
  then show ?thesis using b by (intro exI [of _ b] exI [of _ p] exI [of _ d] conjI)
qed

end
