(* ===== verification/Table_Heap.thy ===== *)
theory Table_Heap
  imports Buffer_Pool Table_Page
begin

text \<open>
  Models \<open>src/src/table_heap.rs\<close>: a table as a chain of table pages in the buffer pool, its slots read and written under one page guard, appended rows, scans and freeing.
\<close>


section \<open>Data\<close>

datatype TableHeapError =
    HeapSlotMissing RecordId u16
  | Deleted RecordId
  | TooLarge (too_large_size: nat) (too_large_max: nat)
  | HeapBpm BpmError
  | HeapPage PageId TablePageError
  | PageChainCycle PageId
  | UnallocatedPageLink (link_from: PageId) (link_to: PageId)

record TableHeap =
  first_page_id :: PageId
  tail_page_id :: PageId
  tail_num_tuples :: u32
  update_reserve :: nat

record TableHeapIterator =
  current_page_id :: PageId
  current_slot_id :: u32
  last_page_id :: PageId
  last_page_slots :: u32
  finished :: bool

record SlotWrite =
  sw_meta :: TupleMeta
  sw_data :: "bytes option"

definition on_page :: "PageId \<Rightarrow> (TablePageError, 'a) result \<Rightarrow> (TableHeapError, 'a) result" where
  "on_page pid r = map_err (HeapPage pid) r"

section \<open>Slots\<close>

definition find_slot :: "RecordId \<Rightarrow> bytes \<Rightarrow> (TableHeapError, Slot) result" where
  "find_slot rid b =
     bindR (slot_get b (slot_id rid)) (\<lambda>found. case found of
       Some slot \<Rightarrow> Ok slot
     | None \<Rightarrow> bindR (num_tuples b) (\<lambda>n. Err (HeapSlotMissing rid n)))"

definition read_slot :: "RecordId \<Rightarrow> (TupleMeta \<Rightarrow> bytes \<Rightarrow> 'r) \<Rightarrow> (BufferPoolManager, TableHeapError, 'r) sm" where
  "read_slot rid f =
     reading (page_id rid) HeapBpm (\<lambda>b.
     bindR (on_page (page_id rid) (TablePage_new b)) (\<lambda>page.
     bindR (find_slot rid page) (\<lambda>slot.
     bindR (on_page (page_id rid) (tuple_bytes page slot)) (\<lambda>data. Ok (f (s_meta slot) data)))))"

text \<open>A page is written in place; a step that fails does so before it writes.\<close>

definition editing :: "(bytes \<Rightarrow> ('e, 'a \<times> bytes) result) \<Rightarrow> (bytes, 'e, 'a) sm" where
  "editing f = (\<lambda>b. case f b of Ok (x, b') \<Rightarrow> (Ok x, b') | Err e \<Rightarrow> (Err e, b) | Panic \<Rightarrow> (Panic, b))"

definition slot_edit ::
  "(TableHeapError \<Rightarrow> 'e) \<Rightarrow> RecordId \<Rightarrow> (TupleMeta \<Rightarrow> bytes \<Rightarrow> ('e, SlotWrite \<times> 't) result) \<Rightarrow> ('t \<Rightarrow> 'r) \<Rightarrow> bytes \<Rightarrow> ('e, 'r \<times> bytes) result" where
  "slot_edit from rid f then_do b =
     bindR (map_err from (on_page (page_id rid) (TablePage_new b))) (\<lambda>page.
     bindR (map_err from (find_slot rid page)) (\<lambda>slot.
     bindR (map_err from (on_page (page_id rid) (tuple_bytes page slot))) (\<lambda>data.
     bindR (f (s_meta slot) data) (\<lambda>(w, planned).
     bindR (map_err from (on_page (page_id rid)
       (case sw_data w of Some d \<Rightarrow> update_in_place page (slot_id rid) (sw_meta w) d | None \<Rightarrow> update_meta page (slot_id rid) (sw_meta w)))) (\<lambda>page.
     Ok (then_do planned, page))))))"

definition write_slot_then ::
  "(TableHeapError \<Rightarrow> 'e) \<Rightarrow> RecordId \<Rightarrow> (TupleMeta \<Rightarrow> bytes \<Rightarrow> ('e, SlotWrite \<times> 't) result) \<Rightarrow> ('t \<Rightarrow> 'r) \<Rightarrow> (BufferPoolManager, 'e, 'r) sm" where
  "write_slot_then from rid f then_do = writing (page_id rid) (\<lambda>e. from (HeapBpm e)) (editing (slot_edit from rid f then_do))"

definition write_slot :: "(TableHeapError \<Rightarrow> 'e) \<Rightarrow> RecordId \<Rightarrow> (TupleMeta \<Rightarrow> bytes \<Rightarrow> ('e, SlotWrite) result) \<Rightarrow> (BufferPoolManager, 'e, unit) sm" where
  "write_slot from rid f = write_slot_then from rid (\<lambda>m b. bindR (f m b) (\<lambda>w. Ok (w, ()))) (\<lambda>_. ())"

definition heap_delete :: "RecordId \<Rightarrow> (BufferPoolManager, TableHeapError, unit) sm" where
  "heap_delete rid =
     write_slot (\<lambda>e. e) rid (\<lambda>meta _.
       if meta_is_deleted meta then Err (Deleted rid) else Ok \<lparr>sw_meta = meta\<lparr>meta_is_deleted := True\<rparr>, sw_data = None\<rparr>)"

definition get_with_meta :: "RecordId \<Rightarrow> (BufferPoolManager, TableHeapError, TupleMeta \<times> bytes) sm" where
  "get_with_meta rid = read_slot rid (\<lambda>meta data. (meta, data))"

definition heap_get :: "RecordId \<Rightarrow> (BufferPoolManager, TableHeapError, RecordId \<times> bytes) sm" where
  "heap_get rid = bindS (get_with_meta rid) (\<lambda>(meta, data). if meta_is_deleted meta then raiseS (Deleted rid) else returnS (rid, data))"

definition heap_update_meta :: "RecordId \<Rightarrow> TupleMeta \<Rightarrow> (BufferPoolManager, TableHeapError, unit) sm" where
  "heap_update_meta rid meta = write_slot (\<lambda>e. e) rid (\<lambda>_ _. Ok \<lparr>sw_meta = meta, sw_data = None\<rparr>)"

definition heap_update_in_place :: "RecordId \<Rightarrow> TupleMeta \<Rightarrow> bytes \<Rightarrow> (BufferPoolManager, TableHeapError, unit) sm" where
  "heap_update_in_place rid meta new = write_slot (\<lambda>e. e) rid (\<lambda>_ _. Ok \<lparr>sw_meta = meta, sw_data = Some new\<rparr>)"

section \<open>The heap\<close>

definition TableHeap_new :: "(BufferPoolManager, TableHeapError, TableHeap) sm" where
  "TableHeap_new =
     bindS (adding HeapBpm (\<lambda>pid. editing (\<lambda>b. bindR (TablePage_init b) (\<lambda>b. Ok (pid, b))))) (\<lambda>pid.
     returnS \<lparr>first_page_id = pid, tail_page_id = pid, tail_num_tuples = 0, update_reserve = 0\<rparr>)"

definition with_update_reserve :: "TableHeap \<Rightarrow> nat \<Rightarrow> TableHeap" where
  "with_update_reserve h n = h\<lparr>update_reserve := n\<rparr>"

text \<open>The first attempt of an insert, on the last page of the heap.\<close>

definition tail_insert :: "TableHeap \<Rightarrow> TupleMeta \<Rightarrow> bytes \<Rightarrow> bytes \<Rightarrow> (TableHeapError, u32 option \<times> bytes) result" where
  "tail_insert h meta data b =
     bindR (on_page (tail_page_id h) (TablePage_new b)) (\<lambda>page.
     bindR (num_tuples page) (\<lambda>n.
     let reserve = if n = 0 then 0 else update_reserve h in
     bindR (can_insert page (min (length data + reserve) (2 ^ 64 - 1))) (\<lambda>fits.
     if fits then bindR (on_page (tail_page_id h) (insert_with_meta page meta data)) (\<lambda>(slot, page). Ok (Some slot, page))
     else Ok (None, page))))"

text \<open>The second attempt, on a new page that the last page is then linked to.\<close>

definition first_row :: "TupleMeta \<Rightarrow> bytes \<Rightarrow> PageId \<Rightarrow> (bytes, TableHeapError, PageId \<times> u32) sm" where
  "first_row meta data pid =
     bindS (editing (\<lambda>b. bindR (TablePage_init b) (\<lambda>page. Ok ((), page)))) (\<lambda>_.
     editing (\<lambda>page. bindR (on_page pid (insert_with_meta page meta data)) (\<lambda>(slot, page). Ok ((pid, slot), page))))"

definition link_page :: "PageId \<Rightarrow> PageId \<Rightarrow> bytes \<Rightarrow> (TableHeapError, unit \<times> bytes) result" where
  "link_page tail new_id b =
     bindR (on_page tail (TablePage_new b)) (\<lambda>page. bindR (set_next_page_id page new_id) (\<lambda>page. Ok ((), page)))"

definition insert_new_page :: "PageId \<Rightarrow> TupleMeta \<Rightarrow> bytes \<Rightarrow> (BufferPoolManager, TableHeapError, PageId \<times> u32) sm" where
  "insert_new_page tail meta data =
     bindS (adding HeapBpm (first_row meta data)) (\<lambda>(new_id, slot).
     bindS (writing tail HeapBpm (editing (link_page tail new_id))) (\<lambda>_. returnS (new_id, slot)))"

definition insert_locked :: "TableHeap \<Rightarrow> TupleMeta \<Rightarrow> bytes \<Rightarrow> (BufferPoolManager, TableHeapError, RecordId \<times> TableHeap) sm" where
  "insert_locked h meta data =
     (if length data > MAX_TUPLE_SIZE then raiseS (TooLarge (length data) MAX_TUPLE_SIZE)
      else let tail = tail_page_id h in
        bindS (writing tail HeapBpm (editing (tail_insert h meta data))) (\<lambda>placed.
        bindS (case placed of
            Some slot \<Rightarrow> returnS (tail, slot)
          | None \<Rightarrow> insert_new_page tail meta data) (\<lambda>(pid, slot).
        bindS (liftS (expectR (checked_add slot 1))) (\<lambda>n.
        returnS (\<lparr>page_id = pid, slot_id = slot\<rparr>, h\<lparr>tail_page_id := pid, tail_num_tuples := n\<rparr>)))))"

definition heap_insert_with_meta :: "TableHeap \<Rightarrow> TupleMeta \<Rightarrow> bytes \<Rightarrow> (BufferPoolManager, TableHeapError, RecordId \<times> TableHeap) sm" where
  "heap_insert_with_meta h meta data = insert_locked h meta data"

definition heap_insert :: "TableHeap \<Rightarrow> bytes \<Rightarrow> (BufferPoolManager, TableHeapError, RecordId \<times> TableHeap) sm" where
  "heap_insert h data = heap_insert_with_meta h TupleMeta_default data"

text \<open>Follows the page links to the last page, which knows how many tuples it has.\<close>

lemma finite_PageId: "finite (UNIV :: PageId set)"
proof -
  have "UNIV = range PageId" by (metis PageId.exhaust rangeI UNIV_eq_I)
  then show ?thesis by (metis finite_imageI finite_class.finite_UNIV)
qed

function open_from :: "PageId set \<Rightarrow> PageId \<Rightarrow> BufferPoolManager \<Rightarrow> (TableHeapError, PageId \<times> u32) result \<times> BufferPoolManager" where
  "open_from seen pid b =
     (if pid \<in> seen then (Err (PageChainCycle pid), b)
      else case reading pid HeapBpm (\<lambda>d.
             bindR (on_page pid (TablePage_new d)) (\<lambda>page.
             bindR (next_page_id page) (\<lambda>next. bindR (num_tuples page) (\<lambda>n. Ok (next, n))))) b of
          (Ok (Some next, _), b) \<Rightarrow>
            (if \<not> page_is_allocated b next then (Err (UnallocatedPageLink pid next), b) else open_from (insert pid seen) next b)
        | (Ok (None, n), b) \<Rightarrow> (Ok (pid, ucast n), b)
        | (Err e, b) \<Rightarrow> (Err e, b)
        | (Panic, b) \<Rightarrow> (Panic, b))"
  by auto
termination
proof (relation "measure (\<lambda>(seen, _). card (UNIV - seen))", goal_cases)
  case (2 seen pid)
  then have "UNIV - insert pid seen \<subset> UNIV - seen" by blast
  then show ?case using psubset_card_mono [OF finite_subset [OF subset_UNIV finite_PageId]] by simp
qed simp

declare open_from.simps [simp del]

definition heap_open :: "PageId \<Rightarrow> (BufferPoolManager, TableHeapError, TableHeap) sm" where
  "heap_open first =
     bindS (open_from {} first) (\<lambda>(pid, n).
     returnS \<lparr>first_page_id = first, tail_page_id = pid, tail_num_tuples = n, update_reserve = 0\<rparr>)"

section \<open>Scanning\<close>

definition heap_iter :: "TableHeap \<Rightarrow> TableHeapIterator" where
  "heap_iter h = \<lparr>current_page_id = first_page_id h, current_slot_id = 0, last_page_id = tail_page_id h,
     last_page_slots = tail_num_tuples h, finished = False\<rparr>"

definition at_end :: "TableHeapIterator \<Rightarrow> bool" where
  "at_end it \<longleftrightarrow> current_page_id it = last_page_id it \<and> current_slot_id it \<ge> last_page_slots it"

text \<open>How the visit of one page ends: with a value, at the end of the scan, or with the link to the next page.\<close>

datatype 'r visit = Yield 'r | ScanEnd | TurnPage

function scan_page :: "(RecordId \<Rightarrow> TupleMeta \<Rightarrow> bytes \<Rightarrow> 'r option) \<Rightarrow> bytes \<Rightarrow> TableHeapIterator \<Rightarrow> (TableHeapError, 'r visit) result \<times> TableHeapIterator" where
  "scan_page f page it =
     (if at_end it then (Ok ScanEnd, it\<lparr>finished := True\<rparr>)
      else case slot_get page (current_slot_id it) of
          Ok None \<Rightarrow>
            (case next_page_id page of
               Ok (Some next) \<Rightarrow>
                 (if current_page_id it \<noteq> last_page_id it then (Ok TurnPage, it\<lparr>current_page_id := next, current_slot_id := 0\<rparr>)
                  else (Ok ScanEnd, it\<lparr>finished := True\<rparr>))
             | Ok None \<Rightarrow> (Ok ScanEnd, it\<lparr>finished := True\<rparr>)
             | Err e \<Rightarrow> (Err e, it)
             | Panic \<Rightarrow> (Panic, it))
        | Ok (Some slot) \<Rightarrow>
            (case checked_add (current_slot_id it) 1 of
               None \<Rightarrow> (Panic, it)
             | Some n \<Rightarrow>
                 let it' = it\<lparr>current_slot_id := n\<rparr> in
                 (case on_page (current_page_id it) (tuple_bytes page slot) of
                    Ok data \<Rightarrow>
                      (case f \<lparr>page_id = current_page_id it, slot_id = current_slot_id it\<rparr> (s_meta slot) data of
                         Some out \<Rightarrow> (Ok (Yield out), it')
                       | None \<Rightarrow> scan_page f page it')
                  | Err e \<Rightarrow> (Err e, it'\<lparr>finished := True\<rparr>)
                  | Panic \<Rightarrow> (Panic, it')))
        | Err e \<Rightarrow> (Err e, it)
        | Panic \<Rightarrow> (Panic, it))"
  by pat_completeness auto
termination
proof (relation "measure (\<lambda>(f, page, it). 2 ^ 32 - unat (current_slot_id it))", goal_cases)
  case (2 f page it found slot n it')
  have "unat n = unat (current_slot_id it) + 1" using checked_add_Some [OF 2(4)] by simp
  moreover have "unat n < 2 ^ 32" using unat_u32_less [of n] by simp
  ultimately show ?case using 2(5) by simp
qed simp

declare scan_page.simps [simp del]

text \<open>The next value of a scan. Every page but the last is turned at most once when the links do not loop; the first argument bounds
  the pages visited.\<close>

fun next_with :: "nat \<Rightarrow> (RecordId \<Rightarrow> TupleMeta \<Rightarrow> bytes \<Rightarrow> 'r option) \<Rightarrow> TableHeapIterator \<Rightarrow> BufferPoolManager \<Rightarrow>
    (TableHeapError, 'r option) result \<times> TableHeapIterator \<times> BufferPoolManager" where
  "next_with 0 f it b = (Panic, it, b)"
| "next_with (Suc k) f it b =
     (if finished it \<or> at_end it then (Ok None, it\<lparr>finished := True\<rparr>, b)
      else case reading (current_page_id it) HeapBpm Ok b of
          (Ok data, b) \<Rightarrow>
            (case on_page (current_page_id it) (TablePage_new data) of
               Ok page \<Rightarrow>
                 (case scan_page f page it of
                    (Ok (Yield out), it) \<Rightarrow> (Ok (Some out), it, b)
                  | (Ok ScanEnd, it) \<Rightarrow> (Ok None, it, b)
                  | (Ok TurnPage, it) \<Rightarrow> next_with k f it b
                  | (Err e, it) \<Rightarrow> (Err e, it, b)
                  | (Panic, it) \<Rightarrow> (Panic, it, b))
             | Err e \<Rightarrow> (Err e, it\<lparr>finished := True\<rparr>, b)
             | Panic \<Rightarrow> (Panic, it, b))
        | (Err e, b) \<Rightarrow> (Err e, it\<lparr>finished := True\<rparr>, b)
        | (Panic, b) \<Rightarrow> (Panic, it, b))"

definition iterator_next :: "nat \<Rightarrow> TableHeapIterator \<Rightarrow> BufferPoolManager \<Rightarrow>
    (TableHeapError, (bytes \<times> RecordId) option) result \<times> TableHeapIterator \<times> BufferPoolManager" where
  "iterator_next k = next_with k (\<lambda>rid meta data. if \<not> meta_is_deleted meta then Some (data, rid) else None)"

section \<open>Freeing\<close>

definition free_first_page :: "TableHeap \<Rightarrow> (BufferPoolManager, TableHeapError, PageId option) sm" where
  "free_first_page h =
     (let pid = first_page_id h in
      bindS (reading pid HeapBpm (\<lambda>d. bindR (on_page pid (TablePage_new d)) (\<lambda>page. next_page_id page))) (\<lambda>next.
      bindS (\<lambda>b. case delete_page pid b of (r, b) \<Rightarrow> (map_err HeapBpm r, b)) (\<lambda>_. returnS next)))"

text \<open>Frees page after page; on failure the heap of the pages that are left comes back. The first argument bounds the pages.\<close>

fun heap_free :: "nat \<Rightarrow> TableHeap \<Rightarrow> (BufferPoolManager, TableHeapError \<times> TableHeap, unit) sm" where
  "heap_free 0 h b = (Panic, b)"
| "heap_free (Suc k) h b =
     (case free_first_page h b of
        (Ok (Some next), b) \<Rightarrow> heap_free k (h\<lparr>first_page_id := next\<rparr>) b
      | (Ok None, b) \<Rightarrow> (Ok (), b)
      | (Err e, b) \<Rightarrow> (Err (e, h), b)
      | (Panic, b) \<Rightarrow> (Panic, b))"

end
