(* ===== verification/Table_Heap_Rows.thy ===== *)
theory Table_Heap_Rows
  imports Buffer_Pool_Map Table_Page_Correct Table_Heap
begin

text \<open>
  A table heap as its rows: the chain of pages in the pool, one row read and written, adding a row, opening and freeing.
\<close>


section \<open>Rows\<close>

definition row_at :: "(PageId \<rightharpoonup> bytes) \<Rightarrow> RecordId \<rightharpoonup> TupleMeta \<times> bytes" where
  "row_at C rid = (case C (page_id rid) of
     Some d \<Rightarrow> if unat (slot_id rid) < count_of d then Some (tuples d ! unat (slot_id rid)) else None | None \<Rightarrow> None)"

lemma tuples_nth: "i < count_of d \<Longrightarrow> tuples d ! i = (meta_at d i, data_at d i)"
  by (simp add: tuples_def)

lemma page_new_ok [simp]: "wf_page d \<Longrightarrow> TablePage_new d = Ok d"
  by (simp add: TablePage_new_Ok_iff)

lemma on_page_ok [simp]: "on_page p (Ok x) = Ok x"
  by (simp add: on_page_def)

lemma find_slot_ok:
  assumes "wf_page d"
  shows "find_slot rid d = (if unat (slot_id rid) < count_of d then Ok (slot_at d (unat (slot_id rid))) else Err (HeapSlotMissing rid (u16_at d NUM_TUPLES_OFF)))"
  using assms by (simp add: find_slot_def slot_get_ok)

lemma slot_bytes_ok: "wf_page d \<Longrightarrow> i < count_of d \<Longrightarrow> tuple_bytes d (slot_at d i) = Ok (data_at d i)"
  using wf_page_slot by (auto intro: tuple_bytes_ok)

lemma read_slot_ok:
  assumes m: "pool_map b C" and d: "C (page_id rid) = Some d" "wf_page d" and r: "read_slot rid f b = (r, b')"
  shows "settled b b' \<and> pool_map b' C \<and>
    (r = (case row_at C rid of Some (m, x) \<Rightarrow> Ok (f m x) | None \<Rightarrow> Err (HeapSlotMissing rid (u16_at d NUM_TUPLES_OFF))) \<or>
     (\<exists>e. r = Err (HeapBpm e) \<and> refused b e))"
proof -
  note rd = reading_ok [OF m r [unfolded read_slot_def]]
  let ?g = "\<lambda>b. bindR (on_page (page_id rid) (TablePage_new b)) (\<lambda>page. bindR (find_slot rid page) (\<lambda>slot.
     bindR (on_page (page_id rid) (tuple_bytes page slot)) (\<lambda>data. Ok (f (s_meta slot) data))))"
  have "?g d = (case row_at C rid of Some (m, x) \<Rightarrow> Ok (f m x) | None \<Rightarrow> Err (HeapSlotMissing rid (u16_at d NUM_TUPLES_OFF)))"
    using d by (simp add: find_slot_ok row_at_def slot_bytes_ok tuples_nth)
  then show ?thesis using rd d(1) by auto
qed

text \<open>The bytes a slot has after a write.\<close>

definition new_data :: "SlotWrite \<Rightarrow> bytes \<Rightarrow> bytes" where
  "new_data w old = (case sw_data w of Some d \<Rightarrow> d | None \<Rightarrow> old)"

definition put_slot :: "bytes \<Rightarrow> u32 \<Rightarrow> SlotWrite \<Rightarrow> (TablePageError, bytes) result" where
  "put_slot d w sw = (case sw_data sw of Some x \<Rightarrow> update_in_place d w (sw_meta sw) x | None \<Rightarrow> update_meta d w (sw_meta sw))"

lemma put_slot_cases:
  assumes wf: "wf_page d" and i: "unat w < count_of d"
  shows "(\<exists>d'. put_slot d w sw = Ok d' \<and> wf_page d' \<and> link_of d' = link_of d \<and>
      tuples d' = (tuples d)[unat w := (sw_meta sw, new_data sw (data_at d (unat w)))] \<and>
      (\<forall>j<count_of d. cap_at d' j = (if j = unat w then max (cap_at d j) (length (new_data sw (data_at d j))) else cap_at d j))) \<or>
    (\<exists>x e. put_slot d w sw = Err e \<and> sw_data sw = Some x \<and> room d (unat w) < length x)"
proof (cases "sw_data sw")
  case None
  have "length (data_at d (unat w)) \<le> cap_at d (unat w)" using length_data_at [OF wf i] wf_page_slot [OF wf i] by (simp add: slot_ok_def)
  then show ?thesis using update_meta_cases(1) [OF wf i, of "sw_meta sw"] None by (auto simp: put_slot_def new_data_def max_def)
next
  case (Some x)
  show ?thesis
  proof (cases "room d (unat w) < length x")
    case True
    then show ?thesis using update_in_place_cases(2) [OF wf i True, of "sw_meta sw"] Some by (simp add: put_slot_def)
  next
    case False
    then show ?thesis using update_in_place_ok [OF wf i, of x "sw_meta sw"] Some by (auto simp: put_slot_def new_data_def updated_def)
  qed
qed

lemma wf_page_length: "wf_page d \<Longrightarrow> length d = PAGE_SIZE"
  using wf_page_header by (auto simp: header_ok_def)

lemma editing_Ok: "f d = Ok (x, d') \<Longrightarrow> editing f d = (Ok x, d')"
  by (simp add: editing_def)

lemma editing_Err: "f d = Err e \<Longrightarrow> editing f d = (Err e, d)"
  by (simp add: editing_def)

lemma refused_settled: "settled b b' \<Longrightarrow> refused b' e \<Longrightarrow> refused b e"
  by (auto simp: refused_def settled_def)

lemma settled_trans: "settled a b \<Longrightarrow> settled b c \<Longrightarrow> settled a c"
  by (simp add: settled_def)

text \<open>Work on a page that is there: the page changes as the work says, or the pool refuses.\<close>

lemma writing_page:
  assumes m: "pool_map b C" and d: "C p = Some d" and g: "g d = (q, d')" "length d' = PAGE_SIZE" and r: "writing p wrap g b = (r, b')"
  shows "settled b b' \<and> (r = q \<and> pool_map b' (C(p \<mapsto> d')) \<or> (\<exists>e. r = Err (wrap e) \<and> refused b e \<and> pool_map b' C))"
proof -
  have "length (snd (g x)) = PAGE_SIZE" if "C p = Some x" for x using that d g by simp
  from writing_ok [OF m this r] show ?thesis unfolding d by (simp add: g(1)) blast
qed

lemma slot_edit_run:
  assumes wf: "wf_page d" and i: "unat (slot_id rid) < count_of d"
  shows "slot_edit from rid f then_do d =
    bindR (f (meta_at d (unat (slot_id rid))) (data_at d (unat (slot_id rid)))) (\<lambda>(w, planned).
      bindR (map_err from (on_page (page_id rid) (put_slot d (slot_id rid) w))) (\<lambda>page. Ok (then_do planned, page)))"
  using assms by (simp add: slot_edit_def find_slot_ok slot_bytes_ok put_slot_def)

lemma slot_edit_missing:
  "wf_page d \<Longrightarrow> \<not> unat (slot_id rid) < count_of d \<Longrightarrow> slot_edit from rid f then_do d = Err (from (HeapSlotMissing rid (u16_at d NUM_TUPLES_OFF)))"
  by (simp add: slot_edit_def find_slot_ok)

lemma write_slot_ok:
  assumes m: "pool_map b C" and d: "C (page_id rid) = Some d" "wf_page d" and i: "unat (slot_id rid) < count_of d"
    and f: "f (meta_at d (unat (slot_id rid))) (data_at d (unat (slot_id rid))) = Ok (w, z)" and r: "write_slot_then from rid f then_do b = (r, b')"
  shows "settled b b' \<and>
    ((\<exists>d'. r = Ok (then_do z) \<and> pool_map b' (C(page_id rid \<mapsto> d')) \<and> wf_page d' \<and> link_of d' = link_of d \<and>
        tuples d' = (tuples d)[unat (slot_id rid) := (sw_meta w, new_data w (data_at d (unat (slot_id rid))))] \<and>
        (\<forall>j<count_of d. cap_at d' j = (if j = unat (slot_id rid) then max (cap_at d j) (length (new_data w (data_at d j))) else cap_at d j))) \<or>
     (\<exists>x e. r = Err (from (HeapPage (page_id rid) e)) \<and> pool_map b' C \<and> sw_data w = Some x \<and> room d (unat (slot_id rid)) < length x) \<or>
     (\<exists>e. r = Err (from (HeapBpm e)) \<and> refused b e \<and> pool_map b' C))"
proof -
  let ?i = "unat (slot_id rid)"
  note r' = r [unfolded write_slot_then_def]
  from put_slot_cases [OF d(2) i, of w] show ?thesis
  proof (elim disjE exE conjE)
    fix d' assume p: "put_slot d (slot_id rid) w = Ok d'" "wf_page d'" "link_of d' = link_of d"
      "tuples d' = (tuples d)[?i := (sw_meta w, new_data w (data_at d ?i))]"
      "\<forall>j<count_of d. cap_at d' j = (if j = ?i then max (cap_at d j) (length (new_data w (data_at d j))) else cap_at d j)"
    have "slot_edit from rid f then_do d = Ok (then_do z, d')" by (simp add: slot_edit_run [OF d(2) i] f p(1))
    from writing_page [OF m d(1) editing_Ok [where f = "slot_edit from rid f then_do", OF this] wf_page_length [OF p(2)] r'] show ?thesis
      using p by blast
  next
    fix x e assume p: "put_slot d (slot_id rid) w = Err e" "sw_data w = Some x" "room d ?i < length x"
    have "slot_edit from rid f then_do d = Err (from (HeapPage (page_id rid) e))" by (simp add: slot_edit_run [OF d(2) i] f p(1) on_page_def)
    from writing_page [OF m d(1) editing_Err [where f = "slot_edit from rid f then_do", OF this] wf_page_length [OF d(2)] r'] show ?thesis
      using p fun_upd_idem [of C "page_id rid" "Some d", OF d(1)] by auto
  qed
qed

lemma write_slot_refused:
  assumes m: "pool_map b C" and d: "C (page_id rid) = Some d" "wf_page d" and r: "write_slot_then from rid f then_do b = (r, b')"
    and e: "slot_edit from rid f then_do d = Err e"
  shows "settled b b' \<and> pool_map b' C \<and> (r = Err e \<or> (\<exists>e. r = Err (from (HeapBpm e)) \<and> refused b e))"
  using writing_page [OF m d(1) editing_Err [where f = "slot_edit from rid f then_do", OF e] wf_page_length [OF d(2)] r [unfolded write_slot_then_def]]
    fun_upd_idem [of C "page_id rid" "Some d", OF d(1)] by auto


section \<open>The chain of pages\<close>

definition chain_ok :: "(PageId \<rightharpoonup> bytes) \<Rightarrow> PageId list \<Rightarrow> bool" where
  "chain_ok C ps \<longleftrightarrow> ps \<noteq> [] \<and> distinct ps \<and>
     (\<forall>i<length ps. \<exists>d. C (ps ! i) = Some d \<and> wf_page d \<and> link_of d = (if Suc i < length ps then Some (ps ! Suc i) else None))"

definition heap_rel :: "TableHeap \<Rightarrow> (PageId \<rightharpoonup> bytes) \<Rightarrow> PageId list \<Rightarrow> bool" where
  "heap_rel h C ps \<longleftrightarrow> chain_ok C ps \<and> first_page_id h = hd ps \<and> tail_page_id h = last ps \<and>
     unat (tail_num_tuples h) = count_of (the (C (last ps)))"

text \<open>The rows of a page and of a heap, in the order they were added.\<close>

definition page_rows :: "PageId \<Rightarrow> bytes \<Rightarrow> (RecordId \<times> TupleMeta \<times> bytes) list" where
  "page_rows p d = map (\<lambda>i. (\<lparr>page_id = p, slot_id = word_of_nat i\<rparr>, tuples d ! i)) [0..<count_of d]"

definition heap_rows :: "(PageId \<rightharpoonup> bytes) \<Rightarrow> PageId list \<Rightarrow> (RecordId \<times> TupleMeta \<times> bytes) list" where
  "heap_rows C ps = concat (map (\<lambda>p. page_rows p (the (C p))) ps)"

lemma chain_page: "chain_ok C ps \<Longrightarrow> p \<in> set ps \<Longrightarrow> \<exists>d. C p = Some d \<and> wf_page d"
  by (auto simp: chain_ok_def in_set_conv_nth)

lemma chain_last: "chain_ok C ps \<Longrightarrow> \<exists>d. C (last ps) = Some d \<and> wf_page d \<and> link_of d = None"
proof -
  assume c: "chain_ok C ps"
  then have "ps \<noteq> []" by (simp add: chain_ok_def)
  then show ?thesis using c by (auto simp: chain_ok_def last_conv_nth dest!: spec [of _ "length ps - 1"])
qed

lemma chain_same:
  assumes "chain_ok C ps" "\<forall>p \<in> set ps. C' p = C p"
  shows "chain_ok C' ps" "heap_rows C' ps = heap_rows C ps"
  using assms by (auto simp: chain_ok_def heap_rows_def intro!: arg_cong [of _ _ concat])

text \<open>A page of the chain changes and keeps its link.\<close>

lemma chain_update:
  assumes c: "chain_ok C ps" and d: "C p = Some d" "wf_page d'" "link_of d' = link_of d"
  shows "chain_ok (C(p \<mapsto> d')) ps"
proof -
  have "\<exists>x. (C(p \<mapsto> d')) (ps ! i) = Some x \<and> wf_page x \<and> link_of x = (if Suc i < length ps then Some (ps ! Suc i) else None)" if "i < length ps" for i
    using c that d by (cases "ps ! i = p") (auto simp: chain_ok_def)
  then show ?thesis using c by (simp add: chain_ok_def)
qed

lemma butlast_last: "ps \<noteq> [] \<Longrightarrow> heap_rows C ps = heap_rows C (butlast ps) @ page_rows (last ps) (the (C (last ps)))"
  by (cases ps rule: rev_cases) (simp_all add: heap_rows_def)

lemma last_not_before: "chain_ok C ps \<Longrightarrow> last ps \<notin> set (butlast ps)"
  by (cases ps rule: rev_cases) (auto simp: chain_ok_def)

lemma heap_rows_last:
  assumes c: "chain_ok C ps"
  shows "heap_rows (C(last ps \<mapsto> d')) ps = heap_rows C (butlast ps) @ page_rows (last ps) d'"
proof -
  have "heap_rows (C(last ps \<mapsto> d')) (butlast ps) = heap_rows C (butlast ps)"
    using last_not_before [OF c] by (auto simp: heap_rows_def intro!: arg_cong [of _ _ concat])
  then show ?thesis using c butlast_last [of ps "C(last ps \<mapsto> d')"] by (simp add: chain_ok_def)
qed

lemma page_rows_snoc:
  assumes "tuples d' = tuples d @ [x]"
  shows "page_rows p d' = page_rows p d @ [(\<lparr>page_id = p, slot_id = word_of_nat (count_of d)\<rparr>, x)]"
proof -
  have l: "length (tuples d) = count_of d" "count_of d' = Suc (count_of d)" using arg_cong [OF assms, of length] by (simp_all add: tuples_def)
  then show ?thesis using assms by (simp add: page_rows_def nth_append)
qed

lemma page_rows_same: "tuples d' = tuples d \<Longrightarrow> page_rows p d' = page_rows p d"
  using length_tuples [of d'] length_tuples [of d] by (simp add: page_rows_def)

lemma slot_of_count: "wf_page d \<Longrightarrow> unat (word_of_nat (count_of d) :: u32) = count_of d"
  using header_okD(4) [OF wf_page_header, of d] by (simp add: unat_of_nat_eq)

lemma count_snoc: "tuples d' = tuples d @ [x] \<Longrightarrow> count_of d' = Suc (count_of d)"
  using length_tuples [of d'] length_tuples [of d] by simp

lemma next_count: "wf_page d \<Longrightarrow> checked_add (word_of_nat (count_of d) :: u32) 1 = Some (word_of_nat (Suc (count_of d)))"
  using header_okD(4) [OF wf_page_header, of d] slot_of_count [of d] by (simp add: checked_add_def)

section \<open>Adding a row\<close>

lemma tail_insert_cases:
  assumes wf: "wf_page d"
  shows "(\<exists>d'. tail_insert h m x d = Ok (Some (word_of_nat (count_of d)), d') \<and> wf_page d' \<and> tuples d' = tuples d @ [(m, x)] \<and> link_of d' = link_of d) \<or>
    tail_insert h m x d = Ok (None, d)"
proof -
  let ?n = "min (length x + (if u16_at d NUM_TUPLES_OFF = 0 then 0 else update_reserve h)) (2 ^ 64 - 1)"
  have "free_of d \<le> 8192" using header_okD(3) [OF wf_page_header [OF wf]] .
  then have fits: "dir_end d + 17 + length x \<le> free_of d" if "dir_end d + SLOT_SIZE + ?n \<le> free_of d"
    using that by (auto simp: page_consts min_def split: if_splits)
  show ?thesis
  proof (cases "dir_end d + SLOT_SIZE + ?n \<le> free_of d")
    case True
    have "tail_insert h m x d = Ok (Some (word_of_nat (count_of d)), inserted d m x)"
      using wf True insert_with_meta_run [OF wf fits [OF True], of m] by (simp add: tail_insert_def Let_def)
    then show ?thesis using insert_ok [OF wf fits [OF True], of m] inserted_view(3) [OF wf fits [OF True], of m] by blast
  next
    case False
    then show ?thesis using wf by (simp add: tail_insert_def Let_def)
  qed
qed

lemma first_row_ok:
  assumes "length d = PAGE_SIZE" "length x \<le> MAX_TUPLE_SIZE"
  shows "\<exists>d'. first_row m x p d = (Ok (p, 0), d') \<and> wf_page d' \<and> tuples d' = [(m, x)] \<and> link_of d' = None"
proof -
  from TablePage_init_ok [OF assms(1), where 'e = TableHeapError] obtain d1 where d1: "TablePage_init d = (Ok d1 :: (TableHeapError, bytes) result)"
    "wf_page d1" "tuples d1 = []" "link_of d1 = None" "dir_end d1 = 12" "free_of d1 = 8192" by blast
  have fits: "dir_end d1 + 17 + length x \<le> free_of d1" using assms(2) d1 by (simp add: page_consts)
  have "count_of d1 = 0" using arg_cong [OF d1(3), of length] by simp
  then have "insert_with_meta d1 m x = Ok (0, inserted d1 m x)" using insert_with_meta_run [OF d1(2) fits, of m] by simp
  moreover have "wf_page (inserted d1 m x)" "tuples (inserted d1 m x) = [(m, x)]" "link_of (inserted d1 m x) = None"
    using insert_ok [OF d1(2) fits, of m] inserted_view(3) [OF d1(2) fits, of m] d1(3,4) by simp_all
  ultimately show ?thesis using d1(1) by (intro exI [of _ "inserted d1 m x"]) (simp add: first_row_def editing_def effects)
qed

lemma link_page_ok:
  assumes "wf_page t" "valid_page_id p"
  shows "\<exists>t'. link_page q p t = Ok ((), t') \<and> wf_page t' \<and> tuples t' = tuples t \<and> link_of t' = Some p"
proof -
  from set_next_page_id_ok [OF assms, where 'e = TableHeapError] obtain t' where
    "set_next_page_id t p = (Ok t' :: (TableHeapError, bytes) result)" "wf_page t'" "tuples t' = tuples t" "link_of t' = Some p" by blast
  then show ?thesis using assms(1) by (simp add: link_page_def)
qed

lemma chain_extend:
  assumes c: "chain_ok C ps" and p: "p \<notin> set ps" and t: "wf_page t'" "tuples t' = tuples (the (C (last ps)))" "link_of t' = Some p"
    and d: "wf_page d" "tuples d = [x]" "link_of d = None"
  shows "chain_ok (C(p \<mapsto> d, last ps \<mapsto> t')) (ps @ [p])"
    "heap_rows (C(p \<mapsto> d, last ps \<mapsto> t')) (ps @ [p]) = heap_rows C ps @ [(\<lparr>page_id = p, slot_id = 0\<rparr>, x)]"
proof -
  let ?C = "C(p \<mapsto> d, last ps \<mapsto> t')"
  have ne: "ps \<noteq> []" "distinct ps" "last ps \<in> set ps" using c by (auto simp: chain_ok_def)
  have "\<exists>y. ?C ((ps @ [p]) ! i) = Some y \<and> wf_page y \<and> link_of y = (if Suc i < length (ps @ [p]) then Some ((ps @ [p]) ! Suc i) else None)"
    if i: "i < length (ps @ [p])" for i
  proof -
    consider (new) "i = length ps" | (last) "Suc i = length ps" | (mid) "Suc i < length ps" using i by force
    then show ?thesis
    proof cases
      case new
      then show ?thesis using p ne d by (auto simp: nth_append)
    next
      case last
      then have "ps ! i = last ps" using ne(1) by (metis diff_Suc_1 last_conv_nth)
      then show ?thesis using last t by (auto simp: nth_append)
    next
      case mid
      then have "ps ! i \<noteq> last ps" using ne(1,2) by (simp add: last_conv_nth nth_eq_iff_index_eq)
      moreover have "ps ! i \<noteq> p" using p mid by (metis Suc_lessD nth_mem)
      moreover have "\<exists>y. C (ps ! i) = Some y \<and> wf_page y \<and> link_of y = Some (ps ! Suc i)" using c mid by (auto simp: chain_ok_def dest!: spec [of _ i])
      ultimately show ?thesis using mid by (auto simp: nth_append)
    qed
  qed
  then show "chain_ok ?C (ps @ [p])" using ne p by (simp add: chain_ok_def)
  have np: "p \<noteq> last ps" using p ne by auto
  have c1: "chain_ok (C(p \<mapsto> d)) ps" "heap_rows (C(p \<mapsto> d)) ps = heap_rows C ps" using chain_same [OF c, of "C(p \<mapsto> d)"] p by auto
  have lp: "the ((C(p \<mapsto> d)) (last ps)) = the (C (last ps))" using np by simp
  have "heap_rows ?C ps = heap_rows C ps"
    using heap_rows_last [OF c1(1), of t'] butlast_last [OF ne(1), of "C(p \<mapsto> d)"] page_rows_same [OF t(2)] c1(2) unfolding lp by simp
  moreover have "count_of d = 1" using arg_cong [OF d(2), of length] by simp
  then have "page_rows p d = [(\<lparr>page_id = p, slot_id = 0\<rparr>, x)]" using d(2) by (simp add: page_rows_def)
  ultimately show "heap_rows ?C (ps @ [p]) = heap_rows C ps @ [(\<lparr>page_id = p, slot_id = 0\<rparr>, x)]"
    using np by (simp add: heap_rows_def)
qed

text \<open>What an insert leaves.\<close>

definition row_added :: "TableHeap \<Rightarrow> (PageId \<rightharpoonup> bytes) \<Rightarrow> PageId list \<Rightarrow> TupleMeta \<times> bytes \<Rightarrow> RecordId \<Rightarrow> TableHeap \<Rightarrow> (PageId \<rightharpoonup> bytes) \<Rightarrow> PageId list \<Rightarrow> bool" where
  "row_added h C ps x rid h' C' ps' \<longleftrightarrow> heap_rel h' C' ps' \<and> heap_rows C' ps' = heap_rows C ps @ [(rid, x)] \<and>
     (\<exists>qs. ps' = ps @ qs \<and> (\<forall>q \<in> set qs. C q = None)) \<and> (\<forall>q. q \<notin> set ps' \<longrightarrow> C' q = C q) \<and>
     page_id rid = last ps' \<and> update_reserve h' = update_reserve h"

lemma added_in_tail:
  assumes h: "heap_rel h C ps" and d: "C (last ps) = Some d" "wf_page d" and d': "wf_page d'" "tuples d' = tuples d @ [x]" "link_of d' = link_of d"
  shows "row_added h C ps x \<lparr>page_id = last ps, slot_id = word_of_nat (count_of d)\<rparr>
    (h\<lparr>tail_page_id := last ps, tail_num_tuples := word_of_nat (Suc (count_of d))\<rparr>) (C(last ps \<mapsto> d')) ps"
proof -
  have c: "chain_ok C ps" "first_page_id h = hd ps" using h by (simp_all add: heap_rel_def)
  have ne: "ps \<noteq> []" using c(1) by (simp add: chain_ok_def)
  have "unat (word_of_nat (Suc (count_of d)) :: u32) = count_of d'" using slot_of_count [OF d'(1)] count_snoc [OF d'(2)] by simp
  then have "heap_rel (h\<lparr>tail_page_id := last ps, tail_num_tuples := word_of_nat (Suc (count_of d))\<rparr>) (C(last ps \<mapsto> d')) ps"
    using chain_update [OF c(1) d(1) d'(1,3)] c(2) by (simp add: heap_rel_def)
  moreover have "heap_rows (C(last ps \<mapsto> d')) ps = heap_rows C ps @ [(\<lparr>page_id = last ps, slot_id = word_of_nat (count_of d)\<rparr>, x)]"
    using heap_rows_last [OF c(1), of d'] butlast_last [OF ne, of C] page_rows_snoc [OF d'(2)] d(1) by simp
  ultimately show ?thesis using ne by (simp add: row_added_def)
qed

lemma added_in_new:
  assumes h: "heap_rel h C ps" and p: "C p = None" and t: "wf_page t'" "tuples t' = tuples (the (C (last ps)))" "link_of t' = Some p"
    and d: "wf_page d" "tuples d = [x]" "link_of d = None"
  shows "row_added h C ps x \<lparr>page_id = p, slot_id = 0\<rparr> (h\<lparr>tail_page_id := p, tail_num_tuples := 1\<rparr>) (C(p \<mapsto> d, last ps \<mapsto> t')) (ps @ [p])"
proof -
  have c: "chain_ok C ps" "first_page_id h = hd ps" using h by (simp_all add: heap_rel_def)
  have np: "p \<notin> set ps" using chain_page [OF c(1), of p] p by auto
  note e = chain_extend [OF c(1) np t d]
  have ne: "ps \<noteq> []" "last ps \<in> set ps" "last ps \<noteq> p" using c(1) np by (auto simp: chain_ok_def)
  have "heap_rel (h\<lparr>tail_page_id := p, tail_num_tuples := 1\<rparr>) (C(p \<mapsto> d, last ps \<mapsto> t')) (ps @ [p])"
    using e(1) c(2) ne d(2) length_tuples [of d] by (simp add: heap_rel_def)
  then show ?thesis using e(2) p ne by (auto simp: row_added_def)
qed

text \<open>When the link cannot be written the new page is left over, outside the heap.\<close>

definition cannot_grow :: "BufferPoolManager \<Rightarrow> BpmError \<Rightarrow> bool" where
  "cannot_grow b e \<longleftrightarrow> refused b e \<or> (\<exists>x. e = PageIdsExhausted x)"

lemma insert_new_page_ok:
  assumes m: "pool_map b C" and h: "heap_rel h C ps" and x: "length x \<le> MAX_TUPLE_SIZE"
    and r: "insert_new_page (last ps) meta x b = (r, b')"
  shows "settled b b' \<and>
    ((\<exists>p C'. r = Ok (p, 0) \<and> pool_map b' C' \<and>
        row_added h C ps (meta, x) \<lparr>page_id = p, slot_id = 0\<rparr> (h\<lparr>tail_page_id := p, tail_num_tuples := 1\<rparr>) C' (ps @ [p])) \<or>
     (\<exists>e C'. r = Err (HeapBpm e) \<and> pool_map b' C' \<and> (\<forall>q \<in> dom C. C' q = C q) \<and> cannot_grow b e))"
proof -
  obtain q b1 where q: "adding HeapBpm (first_row meta x) b = (q, b1)" by force
  have len: "length (snd (first_row meta x p d)) = PAGE_SIZE" if "length d = PAGE_SIZE" for p d
  proof -
    from first_row_ok [OF that x, of meta p] obtain d' where "first_row meta x p d = (Ok (p, 0), d')" "wf_page d'" by blast
    then show ?thesis using wf_page_length by simp
  qed
  have c: "chain_ok C ps" using h by (simp add: heap_rel_def)
  from adding_ok [OF m len q] consider
    (new) p d where "settled b b1" "C p = None" "valid_page_id p" "length d = PAGE_SIZE" "q = fst (first_row meta x p d)"
      "pool_map b1 (C(p \<mapsto> snd (first_row meta x p d)))"
    | (er) e where "settled b b1" "q = Err (HeapBpm e)" "pool_map b1 C" "cannot_grow b e" unfolding cannot_grow_def by blast
  then show ?thesis
  proof cases
    case er
    then have "r = Err (HeapBpm e)" "b' = b1" using r q by (simp_all add: insert_new_page_def bindS_apply)
    then show ?thesis using er by blast
  next
    case new
    from first_row_ok [OF new(4) x, of meta p] obtain d' where d': "first_row meta x p d = (Ok (p, 0), d')" "wf_page d'" "tuples d' = [(meta, x)]" "link_of d' = None" by blast
    have m1: "pool_map b1 (C(p \<mapsto> d'))" and q': "q = Ok (p, 0)" using new(5,6) d'(1) by simp_all
    obtain t where t: "C (last ps) = Some t" "wf_page t" using chain_last [OF c] by blast
    have C1: "(C(p \<mapsto> d')) (last ps) = Some t" using t(1) new(2) by auto
    from link_page_ok [OF t(2) new(3), of "last ps"] obtain t' where
      t': "link_page (last ps) p t = Ok ((), t')" "wf_page t'" "tuples t' = tuples t" "link_of t' = Some p" by blast
    obtain z b2 where z: "writing (last ps) HeapBpm (editing (link_page (last ps) p)) b1 = (z, b2)" by force
    note w = writing_page [OF m1 C1 editing_Ok [where f = "link_page (last ps) p", OF t'(1)] wf_page_length [OF t'(2)] z]
    have b': "insert_new_page (last ps) meta x b = (case z of Ok _ \<Rightarrow> Ok (p, 0) | Err e \<Rightarrow> Err e | Panic \<Rightarrow> Panic, b2)"
      using q q' z by (simp add: insert_new_page_def bindS_apply effect_apply split: result.split)
    have st: "settled b b2" using settled_trans [OF new(1)] w by blast
    from w consider (ok) "z = Ok ()" "pool_map b2 (C(p \<mapsto> d', last ps \<mapsto> t'))" | (no) e where "z = Err (HeapBpm e)" "refused b1 e" "pool_map b2 (C(p \<mapsto> d'))" by blast
    then show ?thesis
    proof cases
      case ok
      have "tuples t' = tuples (the (C (last ps)))" using t'(3) t(1) by simp
      note added = added_in_new [OF h new(2) t'(2) this t'(4) d'(2-4)]
      have "r = Ok (p, 0)" "b' = b2" using r b' ok(1) by simp_all
      then show ?thesis using added ok(2) st by blast
    next
      case no
      have "\<forall>q \<in> dom C. (C(p \<mapsto> d')) q = C q" using new(2) by auto
      moreover have "r = Err (HeapBpm e)" "b' = b2" using r b' no(1) by simp_all
      ultimately show ?thesis using no(3) st refused_settled [OF new(1) no(2)] unfolding cannot_grow_def by blast
    qed
  qed
qed

text \<open>An insert, by what its attempts return.\<close>

lemma insert_locked_run:
  assumes "\<not> MAX_TUPLE_SIZE < length x" "writing (tail_page_id h) HeapBpm (editing (tail_insert h meta x)) b = (q, b1)"
  shows "q = Err e \<Longrightarrow> insert_locked h meta x b = (Err e, b1)"
    "q = Ok (Some s) \<Longrightarrow> checked_add s 1 = Some n \<Longrightarrow>
       insert_locked h meta x b = (Ok (\<lparr>page_id = tail_page_id h, slot_id = s\<rparr>, h\<lparr>tail_page_id := tail_page_id h, tail_num_tuples := n\<rparr>), b1)"
    "q = Ok None \<Longrightarrow> insert_new_page (tail_page_id h) meta x b1 = (Err e, b2) \<Longrightarrow> insert_locked h meta x b = (Err e, b2)"
    "q = Ok None \<Longrightarrow> insert_new_page (tail_page_id h) meta x b1 = (Ok (p, s), b2) \<Longrightarrow> checked_add s 1 = Some n \<Longrightarrow>
       insert_locked h meta x b = (Ok (\<lparr>page_id = p, slot_id = s\<rparr>, h\<lparr>tail_page_id := p, tail_num_tuples := n\<rparr>), b2)"
  using assms by (simp_all add: insert_locked_def Let_def bindS_apply effect_apply)

lemma insert_locked_ok:
  assumes m: "pool_map b C" and h: "heap_rel h C ps" and r: "insert_locked h meta x b = (r, b')"
  shows "settled b b' \<and>
    ((\<exists>rid h' C' ps'. r = Ok (rid, h') \<and> pool_map b' C' \<and> row_added h C ps (meta, x) rid h' C' ps') \<or>
     (\<exists>e C'. r = Err e \<and> pool_map b' C' \<and> (\<forall>q \<in> dom C. C' q = C q) \<and>
        (e = TooLarge (length x) MAX_TUPLE_SIZE \<and> MAX_TUPLE_SIZE < length x \<or> (\<exists>y. e = HeapBpm y \<and> cannot_grow b y))))"
proof (cases "MAX_TUPLE_SIZE < length x")
  case True
  then have "r = Err (TooLarge (length x) MAX_TUPLE_SIZE)" "b' = b" using r by (simp_all add: insert_locked_def effect_apply)
  then show ?thesis using True m by (auto simp: settled_def)
next
  case False
  have tl: "tail_page_id h = last ps" "chain_ok C ps" using h by (simp_all add: heap_rel_def)
  obtain t where t: "C (last ps) = Some t" "wf_page t" using chain_last [OF tl(2)] by blast
  obtain q b1 where q: "writing (last ps) HeapBpm (editing (tail_insert h meta x)) b = (q, b1)" by force
  note run = insert_locked_run [OF False q [folded tl(1)], unfolded tl(1)]
  have no: ?thesis if "q = Err (HeapBpm e)" "refused b e" "pool_map b1 C" "settled b b1" for e
  proof -
    have "r = Err (HeapBpm e)" "b' = b1" using run(1) [OF that(1)] r by simp_all
    then show ?thesis using that unfolding cannot_grow_def by blast
  qed
  from tail_insert_cases [OF t(2), of h meta x] show ?thesis
  proof (elim disjE exE conjE)
    fix t' assume t': "tail_insert h meta x t = Ok (Some (word_of_nat (count_of t)), t')" "wf_page t'" "tuples t' = tuples t @ [(meta, x)]" "link_of t' = link_of t"
    from writing_page [OF m t(1) editing_Ok [where f = "tail_insert h meta x", OF t'(1)] wf_page_length [OF t'(2)] q] consider
      (ok) "settled b b1" "q = Ok (Some (word_of_nat (count_of t)))" "pool_map b1 (C(last ps \<mapsto> t'))"
      | (er) e where "q = Err (HeapBpm e)" "refused b e" "pool_map b1 C" "settled b b1" by blast
    then show ?thesis
    proof cases
      case ok
      note added = added_in_tail [OF h t t'(2-4)]
      show ?thesis using run(2) [OF ok(2) next_count [OF t(2)]] r ok(1,3) added by auto
    qed (use no in blast)
  next
    assume n: "tail_insert h meta x t = Ok (None, t)"
    have same: "C(last ps \<mapsto> t) = C" using t(1) by (simp add: fun_upd_idem)
    from writing_page [OF m t(1) editing_Ok [where f = "tail_insert h meta x", OF n] wf_page_length [OF t(2)] q, unfolded same] consider
      (full) "q = Ok None" "pool_map b1 C" "settled b b1" | (er) e where "q = Err (HeapBpm e)" "refused b e" "pool_map b1 C" "settled b b1" by blast
    then show ?thesis
    proof cases
      case full
      obtain z b2 where z: "insert_new_page (last ps) meta x b1 = (z, b2)" by force
      have l: "length x \<le> MAX_TUPLE_SIZE" using False by simp
      have one: "checked_add (0 :: u32) 1 = Some 1" by (simp add: checked_add_def)
      from insert_new_page_ok [OF full(2) h l z] consider
        (ok) p C' where "settled b1 b2" "z = Ok (p, 0)" "pool_map b2 C'"
          "row_added h C ps (meta, x) \<lparr>page_id = p, slot_id = 0\<rparr> (h\<lparr>tail_page_id := p, tail_num_tuples := 1\<rparr>) C' (ps @ [p])"
        | (bad) e C' where "settled b1 b2" "z = Err (HeapBpm e)" "pool_map b2 C'" "\<forall>q \<in> dom C. C' q = C q" "cannot_grow b1 e" by blast
      then show ?thesis
      proof cases
        case ok
        have "settled b b2" using settled_trans [OF full(3) ok(1)] .
        then show ?thesis using run(4) [OF full(1) z [unfolded ok(2)] one] r ok(3,4) by auto
      next
        case bad
        have "cannot_grow b e" using bad(5) refused_settled [OF full(3)] unfolding cannot_grow_def by blast
        moreover have "settled b b2" using settled_trans [OF full(3) bad(1)] .
        moreover have "r = Err (HeapBpm e)" "b' = b2" using run(3) [OF full(1) z [unfolded bad(2)]] r by simp_all
        ultimately show ?thesis using bad(3,4) by blast
      qed
    qed (use no in blast)
  qed
qed


section \<open>One row\<close>

definition set_row :: "RecordId \<Rightarrow> TupleMeta \<times> bytes \<Rightarrow> (RecordId \<times> TupleMeta \<times> bytes) list \<Rightarrow> (RecordId \<times> TupleMeta \<times> bytes) list" where
  "set_row rid x rows = map (\<lambda>(r, y). (r, if r = rid then x else y)) rows"

lemma unat_row_slot: "wf_page d \<Longrightarrow> i \<le> count_of d \<Longrightarrow> unat (word_of_nat i :: u32) = i"
  using header_okD(4) [OF wf_page_header, of d] by (simp add: unat_of_nat_eq)

lemma slot_eq_iff: "wf_page d \<Longrightarrow> i < count_of d \<Longrightarrow> \<lparr>page_id = p, slot_id = word_of_nat i\<rparr> = rid \<longleftrightarrow> page_id rid = p \<and> i = unat (slot_id rid)"
  using unat_row_slot [of d i] by (cases rid) auto

lemma page_rows_distinct: "wf_page d \<Longrightarrow> distinct (map fst (page_rows p d))"
  using unat_row_slot by (auto simp: page_rows_def distinct_map comp_def inj_on_def) (metis less_imp_le)

lemma page_rows_lookup:
  assumes wf: "wf_page d"
  shows "map_of (page_rows p d) rid = (if page_id rid = p \<and> unat (slot_id rid) < count_of d then Some (tuples d ! unat (slot_id rid)) else None)"
proof (cases "page_id rid = p \<and> unat (slot_id rid) < count_of d")
  case True
  then have "(rid, tuples d ! unat (slot_id rid)) \<in> set (page_rows p d)"
    by (cases rid) (auto simp: page_rows_def image_iff intro!: bexI [of _ "unat (slot_id rid)"])
  then show ?thesis using True page_rows_distinct [OF wf, of p] by simp
next
  case False
  then have "rid \<notin> fst ` set (page_rows p d)" using unat_row_slot [OF wf] by (auto simp: page_rows_def)
  then show ?thesis using False by (auto simp: map_of_eq_None_iff)
qed

lemma heap_rows_lookup:
  assumes "\<forall>p \<in> set ps. \<exists>d. C p = Some d \<and> wf_page d"
  shows "map_of (heap_rows C ps) rid = (if page_id rid \<in> set ps then row_at C rid else None)"
  using assms
proof (induction ps)
  case (Cons p ps)
  then obtain d where d: "C p = Some d" "wf_page d" by auto
  have "map_of (heap_rows C (p # ps)) rid = (map_of (heap_rows C ps) ++ map_of (page_rows p d)) rid" by (simp add: heap_rows_def d(1))
  then show ?case using Cons d page_rows_lookup [OF d(2), of p rid] by (simp add: map_add_def row_at_def split: option.split)
qed (simp add: heap_rows_def)

lemma set_row_page:
  assumes "wf_page d" "tuples d' = (tuples d)[unat (slot_id rid) := x]"
  shows "page_rows (page_id rid) d' = set_row rid x (page_rows (page_id rid) d)"
proof -
  have "count_of d' = count_of d" using arg_cong [OF assms(2), of length] by simp
  then show ?thesis using slot_eq_iff [OF assms(1), of _ "page_id rid" rid] assms(2) by (auto simp: page_rows_def set_row_def nth_list_update)
qed

lemma set_row_other: "p \<noteq> page_id rid \<Longrightarrow> set_row rid x (page_rows p d) = page_rows p d"
  by (auto simp: page_rows_def set_row_def)

lemma heap_rows_set:
  assumes wf: "wf_page d" and d: "C (page_id rid) = Some d" "tuples d' = (tuples d)[unat (slot_id rid) := x]"
  shows "heap_rows (C(page_id rid \<mapsto> d')) ps = set_row rid x (heap_rows C ps)"
proof -
  have "page_rows p (the ((C(page_id rid \<mapsto> d')) p)) = set_row rid x (page_rows p (the (C p)))" for p
    using set_row_page [OF wf d(2)] d(1) by (cases "p = page_id rid") (simp_all add: set_row_other)
  then show ?thesis by (simp add: heap_rows_def set_row_def map_concat comp_def)
qed

lemma heap_rel_set:
  assumes h: "heap_rel h C ps" and wf: "wf_page d'" and d: "C p = Some d" "tuples d' = (tuples d)[i := x]" "link_of d' = link_of d"
  shows "heap_rel h (C(p \<mapsto> d')) ps"
proof -
  have "count_of d' = count_of d" using arg_cong [OF d(2), of length] by simp
  then show ?thesis using h chain_update [of C ps, OF _ d(1) wf d(3)] d(1) by (auto simp: heap_rel_def)
qed

text \<open>What a slot write does to the heap: it changes the row it names, or nothing.\<close>

definition row_set :: "TableHeap \<Rightarrow> (PageId \<rightharpoonup> bytes) \<Rightarrow> PageId list \<Rightarrow> RecordId \<Rightarrow> TupleMeta \<times> bytes \<Rightarrow> (PageId \<rightharpoonup> bytes) \<Rightarrow> bool" where
  "row_set h C ps rid x C' \<longleftrightarrow> heap_rel h C' ps \<and> heap_rows C' ps = set_row rid x (heap_rows C ps) \<and> (\<forall>q. q \<noteq> page_id rid \<longrightarrow> C' q = C q)"

lemma write_row:
  assumes m: "pool_map b C" and h: "heap_rel h C ps" and p: "page_id rid \<in> set ps"
    and r: "write_slot_then from rid f then_do b = (r, b')"
  shows "settled b b' \<and>
    ((\<exists>old w z C'. map_of (heap_rows C ps) rid = Some old \<and> f (fst old) (snd old) = Ok (w, z) \<and> r = Ok (then_do z) \<and>
        pool_map b' C' \<and> row_set h C ps rid (sw_meta w, new_data w (snd old)) C') \<or>
     (pool_map b' C \<and>
       ((\<exists>e. r = Err (from (HeapBpm e)) \<and> refused b e) \<or>
        (\<exists>n. map_of (heap_rows C ps) rid = None \<and> r = Err (from (HeapSlotMissing rid n))) \<or>
        (\<exists>old. map_of (heap_rows C ps) rid = Some old \<and> (case f (fst old) (snd old) of Err e \<Rightarrow> r = Err e | Panic \<Rightarrow> r = Panic
           | Ok (w, z) \<Rightarrow> (\<exists>x e. sw_data w = Some x \<and> length (snd old) < length x \<and> r = Err (from (HeapPage (page_id rid) e))))))))"
proof -
  have c: "chain_ok C ps" using h by (simp add: heap_rel_def)
  then obtain d where d: "C (page_id rid) = Some d" "wf_page d" using chain_page p by blast
  have row: "map_of (heap_rows C ps) rid = (if unat (slot_id rid) < count_of d then Some (meta_at d (unat (slot_id rid)), data_at d (unat (slot_id rid))) else None)"
    using heap_rows_lookup [of ps C rid] chain_page [OF c] p d by (simp add: row_at_def tuples_nth)
  show ?thesis
  proof (cases "unat (slot_id rid) < count_of d")
    case False
    from write_slot_refused [OF m d r slot_edit_missing [OF d(2) False, of "from" f then_do]] show ?thesis using row False by auto
  next
    case True
    let ?m = "meta_at d (unat (slot_id rid))" and ?d = "data_at d (unat (slot_id rid))"
    note sr = slot_edit_run [OF d(2) True, of "from" f then_do]
    show ?thesis
    proof (cases "f ?m ?d")
      case (Ok wz)
      obtain w z where wz: "wz = (w, z)" by (cases wz)
      have "length ?d \<le> room d (unat (slot_id rid))"
        using length_data_at [OF d(2) True] wf_page_slot [OF d(2) True] room_bounds(1) [OF d(2) True] by (simp add: slot_ok_def)
      then have big: "room d (unat (slot_id rid)) < length x \<Longrightarrow> length ?d < length x" for x :: bytes by simp
      from write_slot_ok [OF m d True Ok [unfolded wz] r] consider
        (ok) d' where "settled b b'" "r = Ok (then_do z)" "pool_map b' (C(page_id rid \<mapsto> d'))" "wf_page d'" "link_of d' = link_of d"
          "tuples d' = (tuples d)[unat (slot_id rid) := (sw_meta w, new_data w ?d)]"
        | (big) x e where "settled b b'" "r = Err (from (HeapPage (page_id rid) e))" "pool_map b' C" "sw_data w = Some x" "room d (unat (slot_id rid)) < length x"
        | (no) e where "settled b b'" "r = Err (from (HeapBpm e))" "refused b e" "pool_map b' C" by blast
      then show ?thesis
      proof cases
        case ok
        have "row_set h C ps rid (sw_meta w, new_data w ?d) (C(page_id rid \<mapsto> d'))"
          using heap_rel_set [OF h ok(4) d(1) ok(6,5)] heap_rows_set [of d C rid, OF d(2,1) ok(6)] by (simp add: row_set_def)
        then show ?thesis using ok row True Ok wz by auto
      next
        case big
        then show ?thesis using row True Ok wz \<open>\<And>x. room d (unat (slot_id rid)) < length x \<Longrightarrow> length ?d < length x\<close> by auto
      next
        case no
        then show ?thesis by blast
      qed
    next
      case (Err e)
      have "slot_edit from rid f then_do d = Err e" by (simp add: sr Err)
      from write_slot_refused [OF m d r this] show ?thesis using row True Err by auto
    next
      case Panic
      have "slot_edit from rid f then_do d = Panic" by (simp add: sr Panic)
      then have "editing (slot_edit from rid f then_do) d = (Panic, d)" by (simp add: editing_def)
      from writing_page [OF m d(1) this wf_page_length [OF d(2)] r [unfolded write_slot_then_def]] show ?thesis
        using row True Panic fun_upd_idem [of C "page_id rid" "Some d", OF d(1)] by auto
    qed
  qed
qed


lemma read_row:
  assumes m: "pool_map b C" and h: "heap_rel h C ps" and p: "page_id rid \<in> set ps" and r: "read_slot rid f b = (r, b')"
  shows "settled b b' \<and> pool_map b' C \<and>
    ((\<exists>e. r = Err (HeapBpm e) \<and> refused b e) \<or>
     (case map_of (heap_rows C ps) rid of Some (meta, x) \<Rightarrow> r = Ok (f meta x) | None \<Rightarrow> (\<exists>n. r = Err (HeapSlotMissing rid n))))"
proof -
  have c: "chain_ok C ps" using h by (simp add: heap_rel_def)
  then obtain d where d: "C (page_id rid) = Some d" "wf_page d" using chain_page p by blast
  have "map_of (heap_rows C ps) rid = row_at C rid" using heap_rows_lookup [of ps C rid] chain_page [OF c] p by simp
  then show ?thesis using read_slot_ok [OF m d r] by (auto split: option.split)
qed

section \<open>Opening\<close>

lemma pool_allocated: "pool_map b C \<Longrightarrow> C p = Some d \<Longrightarrow> page_is_allocated b p"
  by (auto simp: pool_map_def pool_ok_def alloc_ok_def)

lemma open_from_ok:
  assumes c: "chain_ok C ps"
  shows "pool_map b C \<Longrightarrow> i < length ps \<Longrightarrow> open_from (set (take i ps)) (ps ! i) b = (r, b') \<Longrightarrow>
    settled b b' \<and> pool_map b' C \<and> (r = Ok (last ps, word_of_nat (count_of (the (C (last ps))))) \<or> (\<exists>e. r = Err (HeapBpm e) \<and> refused b e))"
proof (induction "length ps - i" arbitrary: i b rule: less_induct)
  case less
  let ?p = "ps ! i"
  have dist: "distinct ps" "ps \<noteq> []" using c by (simp_all add: chain_ok_def)
  obtain d where d: "C ?p = Some d" "wf_page d" "link_of d = (if Suc i < length ps then Some (ps ! Suc i) else None)"
    using c less.prems(2) by (auto simp: chain_ok_def)
  have new: "?p \<notin> set (take i ps)" using dist less.prems(2) by (auto simp: in_set_conv_nth nth_eq_iff_index_eq)
  let ?g = "\<lambda>d. bindR (on_page ?p (TablePage_new d)) (\<lambda>page. bindR (next_page_id page) (\<lambda>next. bindR (num_tuples page) (\<lambda>n. Ok (next, n))))"
  obtain q b1 where q: "reading ?p HeapBpm ?g b = (q, b1)" by force
  have g: "?g d = Ok (link_of d, u16_at d NUM_TUPLES_OFF)" using d(2) by simp
  from reading_ok [OF less.prems(1) q] d(1) consider (ok) "settled b b1" "pool_map b1 C" "q = Ok (link_of d, u16_at d NUM_TUPLES_OFF)"
    | (no) e where "settled b b1" "pool_map b1 C" "q = Err (HeapBpm e)" "refused b e" using g by auto
  then show ?case
  proof cases
    case no
    then show ?thesis using less.prems(3) new q by (auto simp: open_from.simps)
  next
    case ok
    show ?thesis
    proof (cases "Suc i < length ps")
      case True
      obtain d2 where "C (ps ! Suc i) = Some d2" using chain_page [OF c, of "ps ! Suc i"] True by auto
      then have "page_is_allocated b1 (ps ! Suc i)" by (rule pool_allocated [OF ok(2)])
      moreover have "insert ?p (set (take i ps)) = set (take (Suc i) ps)" using less.prems(2) by (simp add: take_Suc_conv_app_nth)
      ultimately have "open_from (set (take (Suc i) ps)) (ps ! Suc i) b1 = (r, b')"
        using less.prems(3) new q ok(3) d(3) True by (simp add: open_from.simps [of "set (take i ps)"])
      moreover have "length ps - Suc i < length ps - i" using True by simp
      ultimately have "settled b1 b' \<and> pool_map b' C \<and> (r = Ok (last ps, word_of_nat (count_of (the (C (last ps))))) \<or> (\<exists>e. r = Err (HeapBpm e) \<and> refused b1 e))"
        using less.hyps [OF _ ok(2) True] by blast
      then show ?thesis
        using settled_trans [OF ok(1)] refused_settled [OF ok(1)] by blast
    next
      case False
      then have i: "ps ! i = last ps" using less.prems(2) dist(2) by (metis Suc_lessI diff_Suc_1 last_conv_nth)
      have "(ucast (u16_at d NUM_TUPLES_OFF) :: u32) = word_of_nat (count_of d)"
        by (simp add: word_unat_eq_iff count_of_def page_consts unat_of_nat_eq less_trans [OF unat_u16_less])
      then have "r = Ok (last ps, word_of_nat (count_of d))" "b' = b1"
        using less.prems(3) new q ok(3) d(3) False i by (simp_all add: open_from.simps)
      then show ?thesis using ok(1,2) d(1) i by simp
    qed
  qed
qed

lemma heap_open_ok:
  assumes m: "pool_map b C" and h: "heap_rel h C ps" and r: "heap_open (first_page_id h) b = (r, b')"
  shows "settled b b' \<and> pool_map b' C \<and> (r = Ok (h\<lparr>update_reserve := 0\<rparr>) \<or> (\<exists>e. r = Err (HeapBpm e) \<and> refused b e))"
proof -
  have hd: "chain_ok C ps" "first_page_id h = ps ! 0" "tail_page_id h = last ps" "unat (tail_num_tuples h) = count_of (the (C (last ps)))" "0 < length ps"
    using h by (auto simp: heap_rel_def chain_ok_def hd_conv_nth)
  obtain q b1 where q: "open_from {} (ps ! 0) b = (q, b1)" by force
  have n: "word_of_nat (count_of (the (C (last ps)))) = tail_num_tuples h" using hd(4) [symmetric] by simp
  have h0: "h\<lparr>update_reserve := 0\<rparr> = \<lparr>first_page_id = first_page_id h, tail_page_id = tail_page_id h, tail_num_tuples = tail_num_tuples h, update_reserve = 0\<rparr>"
    by (cases h) simp
  have "(r, b') = (case q of Ok (pid, n) \<Rightarrow> Ok \<lparr>first_page_id = first_page_id h, tail_page_id = pid, tail_num_tuples = n, update_reserve = 0\<rparr> | Err e \<Rightarrow> Err e | Panic \<Rightarrow> Panic, b1)"
    using r q hd(2) by (auto simp: heap_open_def bindS_apply effect_apply split: result.splits)
  then show ?thesis using open_from_ok [OF hd(1) m hd(5), unfolded take_0 set_empty, of q b1] q n h0 hd(3) by auto
qed

section \<open>Freeing\<close>

lemma chain_tl:
  assumes "chain_ok C (p # q # qs)"
  shows "chain_ok (C(p := None)) (q # qs)"
proof -
  have "\<exists>d. (C(p := None)) ((q # qs) ! i) = Some d \<and> wf_page d \<and> link_of d = (if Suc i < length (q # qs) then Some ((q # qs) ! Suc i) else None)"
    if "i < length (q # qs)" for i
  proof -
    have "(q # qs) ! i \<noteq> p" using assms that nth_mem [OF that] by (auto simp: chain_ok_def)
    then show ?thesis using assms that by (auto simp: chain_ok_def dest!: spec [of _ "Suc i"])
  qed
  then show ?thesis using assms by (simp add: chain_ok_def)
qed

lemma chain_head: "chain_ok C (p # qs) \<Longrightarrow> \<exists>d. C p = Some d \<and> wf_page d \<and> link_of d = (case qs of [] \<Rightarrow> None | q # _ \<Rightarrow> Some q)"
  by (auto simp: chain_ok_def dest!: spec [of _ 0] split: list.split)

lemma free_first_page_ok:
  assumes m: "pool_map b C" and c: "chain_ok C (first_page_id h # qs)" and r: "free_first_page h b = (r, b')"
  shows "settled b b' \<and>
    (r = Ok (case qs of [] \<Rightarrow> None | q # _ \<Rightarrow> Some q) \<and> pool_map b' (C(first_page_id h := None)) \<or>
     (pool_map b' C \<and> (\<exists>e. r = Err (HeapBpm e) \<and> (refused b e \<or> e = PagePinned (first_page_id h) \<and> (\<exists>f. pinned (pins b') f \<and> held (frames b') f = Some (first_page_id h))))))"
proof -
  let ?p = "first_page_id h"
  from chain_head [OF c] obtain d where d: "C ?p = Some d" "wf_page d" "link_of d = (case qs of [] \<Rightarrow> None | q # _ \<Rightarrow> Some q)" by blast
  obtain q b1 where q: "reading ?p HeapBpm (\<lambda>d. bindR (on_page ?p (TablePage_new d)) (\<lambda>page. next_page_id page)) b = (q, b1)" by force
  from reading_ok [OF m q] d(1,2) consider (ok) "settled b b1" "pool_map b1 C" "q = Ok (link_of d)"
    | (no) e where "settled b b1" "pool_map b1 C" "q = Err (HeapBpm e)" "refused b e" by auto
  then show ?thesis
  proof cases
    case no
    then show ?thesis using r q by (auto simp: free_first_page_def Let_def bindS_apply)
  next
    case ok
    obtain z b2 where z: "delete_page ?p b1 = (z, b2)" by force
    have r': "(r, b') = (case z of Ok _ \<Rightarrow> Ok (link_of d) | Err e \<Rightarrow> Err (HeapBpm e) | Panic \<Rightarrow> Panic, b2)"
      using r q ok(3) z by (cases z) (auto simp: free_first_page_def Let_def bindS_apply effect_apply)
    have ok1: "pool_ok {} b1 C" using ok(2) by (simp add: pool_map_def)
    from delete_page_cases [OF ok1 z] d(1) consider
      (pin) f where "z = Err (PagePinned ?p)" "b2 = b1" "pinned (pins b1) f" "held (frames b1) f = Some ?p"
      | (del) "pool_ok {} b2 (C(?p := None))" "pins b2 = pins b1" "kept b1 b2" "z = Ok ()" by auto
    then show ?thesis
    proof cases
      case pin
      then show ?thesis using r' ok by auto
    next
      case del
      have s: "settled b1 b2" using del(2,3) by (simp add: settled_def kept_def)
      show ?thesis using r' del(4) settled_trans [OF ok(1) s] settled_map [OF ok(2) s del(1)] d(3) by simp
    qed
  qed
qed

text \<open>Freeing stops at the page \<open>p\<close> that it cannot read or delete; the pages from there on are still a chain.\<close>

definition free_stops :: "BufferPoolManager \<Rightarrow> BufferPoolManager \<Rightarrow> (PageId \<rightharpoonup> bytes) \<Rightarrow> PageId list \<Rightarrow> PageId list \<Rightarrow> PageId \<Rightarrow> PageId list \<Rightarrow> BpmError \<Rightarrow> bool" where
  "free_stops b b' C ps freed p rest e \<longleftrightarrow> ps = freed @ p # rest \<and> pool_map b' (C |` (- set freed)) \<and> chain_ok (C |` (- set freed)) (p # rest) \<and>
     (refused b e \<or> e = PagePinned p \<and> (\<exists>f. pinned (pins b') f \<and> held (frames b') f = Some p))"

lemma free_stops_later:
  assumes "settled b b1" "free_stops b1 b' (C(q := None)) ps freed p rest e"
  shows "free_stops b b' C (q # ps) (q # freed) p rest e"
proof -
  have "C(q := None) |` (- set freed) = C |` (- set (q # freed))" by (auto simp: restrict_map_def)
  then show ?thesis using assms refused_settled [OF assms(1)] unfolding free_stops_def by auto
qed

lemma heap_free_ok:
  assumes "pool_map b C" "chain_ok C (first_page_id h # qs)" "length qs < k" "heap_free k h b = (r, b')"
  shows "settled b b' \<and>
    (r = Ok () \<and> pool_map b' (C |` (- set (first_page_id h # qs))) \<or>
     (\<exists>freed p rest e. r = Err (HeapBpm e, h\<lparr>first_page_id := p\<rparr>) \<and> free_stops b b' C (first_page_id h # qs) freed p rest e))"
  using assms
proof (induction k arbitrary: h qs b C)
  case (Suc k)
  let ?p = "first_page_id h"
  obtain q b1 where q: "free_first_page h b = (q, b1)" by force
  from free_first_page_ok [OF Suc.prems(1,2) q] consider
    (ok) "settled b b1" "q = Ok (case qs of [] \<Rightarrow> None | q # _ \<Rightarrow> Some q)" "pool_map b1 (C(?p := None))"
    | (no) e where "settled b b1" "pool_map b1 C" "q = Err (HeapBpm e)" "refused b e \<or> e = PagePinned ?p \<and> (\<exists>f. pinned (pins b1) f \<and> held (frames b1) f = Some ?p)"
    by blast
  then show ?case
  proof cases
    case no
    have r: "r = Err (HeapBpm e, h\<lparr>first_page_id := ?p\<rparr>)" "b' = b1" using Suc.prems(4) q no(3) by simp_all
    have "C |` (- set []) = C" by (simp add: restrict_map_def)
    then have "free_stops b b' C (?p # qs) [] ?p qs e" using no Suc.prems(2) r by (simp add: free_stops_def)
    then show ?thesis using no(1) r by blast
  next
    case ok
    show ?thesis
    proof (cases qs)
      case Nil
      have "C(?p := None) = C |` (- set [?p])" by (auto simp: restrict_map_def)
      then show ?thesis using Suc.prems(4) q ok Nil by simp
    next
      case (Cons p rest)
      let ?h = "h\<lparr>first_page_id := p\<rparr>"
      have r: "heap_free k ?h b1 = (r, b')" using Suc.prems(4) q ok(2) Cons by simp
      have c: "chain_ok (C(?p := None)) (first_page_id ?h # rest)" using chain_tl Suc.prems(2) Cons by simp
      have k: "length rest < k" using Suc.prems(3) Cons by simp
      have eq: "C(?p := None) |` (- set qs) = C |` (- set (?p # qs))" by (auto simp: restrict_map_def)
      have e: "first_page_id ?h # rest = qs" "?h\<lparr>first_page_id := p'\<rparr> = h\<lparr>first_page_id := p'\<rparr>" for p' using Cons by simp_all
      from Suc.IH [OF ok(3) c k r, unfolded e] consider
        (freed) "settled b1 b'" "r = Ok ()" "pool_map b' (C(?p := None) |` (- set qs))"
        | (stop) freed p' rest' e where "settled b1 b'" "r = Err (HeapBpm e, h\<lparr>first_page_id := p'\<rparr>)" "free_stops b1 b' (C(?p := None)) qs freed p' rest' e" by blast
      then show ?thesis
      proof cases
        case freed
        then show ?thesis using settled_trans [OF ok(1)] unfolding eq by blast
      next
        case stop
        then show ?thesis using settled_trans [OF ok(1)] free_stops_later [OF ok(1) stop(3)] by blast
      qed
    qed
  qed
qed simp

end
