(* ===== verification/Table_Heap_Correct.thy ===== *)
theory Table_Heap_Correct
  imports Table_Heap_Rows
begin

text \<open>
  Scans of a table heap, and the properties of the heap over the buffer pool.
\<close>


section \<open>Scanning\<close>

text \<open>The first row a visitor takes, and the rows after it.\<close>

fun first_hit :: "(RecordId \<Rightarrow> TupleMeta \<Rightarrow> bytes \<Rightarrow> 'r option) \<Rightarrow> (RecordId \<times> TupleMeta \<times> bytes) list \<Rightarrow> 'r option \<times> (RecordId \<times> TupleMeta \<times> bytes) list" where
  "first_hit f [] = (None, [])"
| "first_hit f ((rid, meta, data) # rows) = (case f rid meta data of Some x \<Rightarrow> (Some x, rows) | None \<Rightarrow> first_hit f rows)"

lemma first_hit_append: "first_hit f (xs @ ys) = (case first_hit f xs of (Some x, rest) \<Rightarrow> (Some x, rest @ ys) | (None, _) \<Rightarrow> first_hit f ys)"
  by (induction f xs rule: first_hit.induct) (auto split: option.split)

lemma first_hit_None: "first_hit f xs = (None, rest) \<Longrightarrow> rest = []"
  by (induction f xs rule: first_hit.induct) (auto split: option.splits)

text \<open>The rows an iterator still has before it, when it is on the first page of \<open>qs\<close> at slot \<open>j\<close>, and stops after \<open>n\<close> slots of the last one.\<close>

fun rows_left :: "(PageId \<rightharpoonup> bytes) \<Rightarrow> nat \<Rightarrow> nat \<Rightarrow> PageId list \<Rightarrow> (RecordId \<times> TupleMeta \<times> bytes) list" where
  "rows_left C n j [] = []"
| "rows_left C n j [p] = drop j (take n (page_rows p (the (C p))))"
| "rows_left C n j (p # q # qs) = drop j (page_rows p (the (C p))) @ rows_left C n 0 (q # qs)"

text \<open>The slots of the current page the iterator visits.\<close>

definition page_limit :: "bytes \<Rightarrow> TableHeapIterator \<Rightarrow> nat" where
  "page_limit d it = (if current_page_id it = last_page_id it then unat (last_page_slots it) else count_of d)"

definition page_left :: "bytes \<Rightarrow> TableHeapIterator \<Rightarrow> (RecordId \<times> TupleMeta \<times> bytes) list" where
  "page_left d it = drop (unat (current_slot_id it)) (take (page_limit d it) (page_rows (current_page_id it) d))"

lemma page_left_step:
  assumes wf: "wf_page d" and j: "unat (current_slot_id it) < page_limit d it" "page_limit d it \<le> count_of d"
  shows "page_left d it = (\<lparr>page_id = current_page_id it, slot_id = current_slot_id it\<rparr>, meta_at d (unat (current_slot_id it)), data_at d (unat (current_slot_id it))) #
      page_left d (it\<lparr>current_slot_id := current_slot_id it + 1\<rparr>)"
    "checked_add (current_slot_id it) 1 = Some (current_slot_id it + 1)" "unat (current_slot_id it + 1) = Suc (unat (current_slot_id it))"
proof -
  let ?j = "unat (current_slot_id it)"
  have c: "count_of d < 2 ^ 16" using header_okD(4) [OF wf_page_header [OF wf]] by simp
  then show s: "unat (current_slot_id it + 1) = Suc ?j" using j by (simp add: unat_word_ariths)
  show "checked_add (current_slot_id it) 1 = Some (current_slot_id it + 1)" using j c by (simp add: checked_add_def)
  have lim: "page_limit d (it\<lparr>current_slot_id := w\<rparr>) = page_limit d it" for w by (simp add: page_limit_def)
  have l: "?j < length (take (page_limit d it) (page_rows (current_page_id it) d))" using j by (simp add: page_rows_def)
  have "take (page_limit d it) (page_rows (current_page_id it) d) ! ?j =
      (\<lparr>page_id = current_page_id it, slot_id = current_slot_id it\<rparr>, meta_at d ?j, data_at d ?j)"
    using j by (simp add: page_rows_def tuples_nth)
  then show "page_left d it = (\<lparr>page_id = current_page_id it, slot_id = current_slot_id it\<rparr>, meta_at d ?j, data_at d ?j) #
      page_left d (it\<lparr>current_slot_id := current_slot_id it + 1\<rparr>)"
    using Cons_nth_drop_Suc [OF l, symmetric] by (simp add: page_left_def lim s)
qed

lemma scan_page_ok:
  assumes "wf_page d" "unat (current_slot_id it) \<le> page_limit d it" "page_limit d it \<le> count_of d"
    "current_page_id it \<noteq> last_page_id it \<Longrightarrow> link_of d = Some q"
  shows "case first_hit f (page_left d it) of
      (Some x, rest) \<Rightarrow> (\<exists>w. scan_page f d it = (Ok (Yield x), it\<lparr>current_slot_id := w\<rparr>) \<and> unat w \<le> page_limit d it \<and> rest = page_left d (it\<lparr>current_slot_id := w\<rparr>))
    | (None, _) \<Rightarrow> if current_page_id it = last_page_id it then (\<exists>it'. scan_page f d it = (Ok ScanEnd, it') \<and> finished it')
        else scan_page f d it = (Ok TurnPage, it\<lparr>current_page_id := q, current_slot_id := 0\<rparr>)"
  using assms
proof (induction "page_limit d it - unat (current_slot_id it)" arbitrary: it rule: less_induct)
  case less
  let ?j = "unat (current_slot_id it)"
  note wf = less.prems(1)
  show ?case
  proof (cases "?j < page_limit d it")
    case False
    then have j: "?j = page_limit d it" using less.prems(2) by simp
    then have "page_left d it = []" by (simp add: page_left_def page_rows_def)
    moreover have "at_end it \<longleftrightarrow> current_page_id it = last_page_id it" using j by (auto simp: at_end_def page_limit_def word_le_nat_alt)
    moreover have "current_page_id it \<noteq> last_page_id it \<Longrightarrow> slot_get d (current_slot_id it) = (Ok None :: (TableHeapError, _) result)"
      using j wf by (simp add: page_limit_def slot_get_ok)
    ultimately show ?thesis using wf less.prems(4) by (auto simp: scan_page.simps)
  next
    case True
    note st = page_left_step [OF wf True less.prems(3)]
    let ?it = "it\<lparr>current_slot_id := current_slot_id it + 1\<rparr>"
    have ne: "\<not> at_end it" using True by (auto simp: at_end_def page_limit_def word_le_nat_alt split: if_splits)
    have get: "slot_get d (current_slot_id it) = (Ok (Some (slot_at d ?j)) :: (TableHeapError, _) result)"
      using True less.prems(3) wf by (simp add: slot_get_ok)
    have data: "tuple_bytes d (slot_at d ?j) = Ok (data_at d ?j)" using True less.prems(3) by (intro slot_bytes_ok wf) simp
    have lim: "page_limit d ?it = page_limit d it" by (simp add: page_limit_def)
    show ?thesis
    proof (cases "f \<lparr>page_id = current_page_id it, slot_id = current_slot_id it\<rparr> (meta_at d ?j) (data_at d ?j)")
      case (Some x)
      have "scan_page f d it = (Ok (Yield x), ?it)" using ne get st(2) data Some by (simp add: scan_page.simps)
      then show ?thesis using st Some True by (auto simp: st(1) intro!: exI [of _ "current_slot_id it + 1"])
    next
      case None
      have run: "scan_page f d it = scan_page f d ?it" using ne get st(2) data None by (simp add: scan_page.simps [of f d it])
      have "page_limit d ?it - unat (current_slot_id ?it) < page_limit d it - ?j" using True by (simp add: lim st(3))
      from less.hyps [OF this wf] True less.prems(3,4) have "case first_hit f (page_left d ?it) of
          (Some x, rest) \<Rightarrow> (\<exists>w. scan_page f d ?it = (Ok (Yield x), ?it\<lparr>current_slot_id := w\<rparr>) \<and> unat w \<le> page_limit d ?it \<and> rest = page_left d (?it\<lparr>current_slot_id := w\<rparr>))
        | (None, _) \<Rightarrow> if current_page_id ?it = last_page_id ?it then (\<exists>it'. scan_page f d ?it = (Ok ScanEnd, it') \<and> finished it')
            else scan_page f d ?it = (Ok TurnPage, ?it\<lparr>current_page_id := q, current_slot_id := 0\<rparr>)"
        by (simp add: lim st(3))
      then show ?thesis unfolding run st(1) using None by (simp add: lim split: prod.splits option.splits)
    qed
  qed
qed

text \<open>What an iterator has yet to see: \<open>qs\<close> are the pages of the chain from its current page to its last one.\<close>

definition scan_rel :: "(PageId \<rightharpoonup> bytes) \<Rightarrow> PageId list \<Rightarrow> PageId list \<Rightarrow> TableHeapIterator \<Rightarrow> bool" where
  "scan_rel C ps qs it \<longleftrightarrow> qs \<noteq> [] \<and> (\<exists>before after. ps = before @ qs @ after) \<and> current_page_id it = hd qs \<and> last_page_id it = last qs \<and>
     unat (last_page_slots it) \<le> count_of (the (C (last qs))) \<and> unat (current_slot_id it) \<le> page_limit (the (C (hd qs))) it"

definition sees :: "(PageId \<rightharpoonup> bytes) \<Rightarrow> PageId list \<Rightarrow> TableHeapIterator \<Rightarrow> (RecordId \<times> TupleMeta \<times> bytes) list \<Rightarrow> bool" where
  "sees C ps it rows \<longleftrightarrow> finished it \<and> rows = [] \<or>
     \<not> finished it \<and> (\<exists>qs. scan_rel C ps qs it \<and> rows = rows_left C (unat (last_page_slots it)) (unat (current_slot_id it)) qs)"

lemma rows_left_page:
  assumes "scan_rel C ps (p # qs) it" "distinct ps"
  shows "rows_left C (unat (last_page_slots it)) (unat (current_slot_id it)) (p # qs) =
    page_left (the (C p)) it @ rows_left C (unat (last_page_slots it)) 0 qs" "current_page_id it = last_page_id it \<longleftrightarrow> qs = []"
proof -
  have d: "p \<notin> set qs" "current_page_id it = p" "last_page_id it = last (p # qs)" using assms by (auto simp: scan_rel_def)
  then show e: "current_page_id it = last_page_id it \<longleftrightarrow> qs = []" by (auto simp: last_in_set)
  show "rows_left C (unat (last_page_slots it)) (unat (current_slot_id it)) (p # qs) =
    page_left (the (C p)) it @ rows_left C (unat (last_page_slots it)) 0 qs"
    using d(2) e by (cases qs) (auto simp: page_left_def page_limit_def page_rows_def)
qed

lemma chain_nth: "chain_ok C ps \<Longrightarrow> i < length ps \<Longrightarrow>
    \<exists>d. C (ps ! i) = Some d \<and> wf_page d \<and> link_of d = (if Suc i < length ps then Some (ps ! Suc i) else None)"
  by (simp add: chain_ok_def)

lemma scan_page_info:
  assumes c: "chain_ok C ps" and s: "scan_rel C ps (p # qs) it"
  obtains d where "C p = Some d" "wf_page d" "page_limit d it \<le> count_of d" "unat (current_slot_id it) \<le> page_limit d it"
    "qs \<noteq> [] \<Longrightarrow> link_of d = Some (hd qs)"
proof -
  obtain before after where ps: "ps = before @ (p # qs) @ after" using s by (auto simp: scan_rel_def)
  have i: "length before < length ps" "ps ! length before = p" using ps by simp_all
  from chain_nth [OF c i(1)] obtain d where
    d: "C p = Some d" "wf_page d" "link_of d = (if Suc (length before) < length ps then Some (ps ! Suc (length before)) else None)"
    unfolding i(2) by blast
  have "link_of d = Some (hd qs)" if "qs \<noteq> []" using that d(3) ps by (cases qs) (auto simp: nth_append)
  moreover have "page_limit d it \<le> count_of d"
  proof (cases "current_page_id it = last_page_id it")
    case True
    then have "qs = []" using c rows_left_page(2) [OF s] by (simp add: chain_ok_def)
    moreover have "unat (last_page_slots it) \<le> count_of (the (C (last (p # qs))))" using s by (simp add: scan_rel_def)
    ultimately show ?thesis using True d(1) by (simp add: page_limit_def)
  qed (simp add: page_limit_def)
  moreover have "unat (current_slot_id it) \<le> page_limit d it" using s d(1) by (simp add: scan_rel_def)
  ultimately show ?thesis using that d by blast
qed

lemma scan_turn:
  assumes "chain_ok C ps" "scan_rel C ps (p # qs) it" "qs \<noteq> []"
  shows "scan_rel C ps qs (it\<lparr>current_page_id := hd qs, current_slot_id := 0\<rparr>)"
proof -
  obtain before after where "ps = before @ (p # qs) @ after" using assms(2) by (auto simp: scan_rel_def)
  then have "ps = (before @ [p]) @ qs @ after" by simp
  then have "\<exists>before after. ps = before @ qs @ after" by blast
  then show ?thesis using assms(2,3) by (simp add: scan_rel_def)
qed

lemma scan_yield: "scan_rel C ps (p # qs) it \<Longrightarrow> unat w \<le> page_limit (the (C p)) it \<Longrightarrow> scan_rel C ps (p # qs) (it\<lparr>current_slot_id := w\<rparr>)"
  by (auto simp: scan_rel_def page_limit_def)

lemma at_end_left:
  assumes "scan_rel C ps (p # qs) it" "distinct ps" "at_end it"
  shows "rows_left C (unat (last_page_slots it)) (unat (current_slot_id it)) (p # qs) = []"
proof -
  have "qs = []" using rows_left_page(2) [OF assms(1,2)] assms(3) by (simp add: at_end_def)
  then show ?thesis using assms(3) by (simp add: at_end_def word_le_nat_alt min.coboundedI2)
qed

lemma next_with_ok:
  assumes c: "chain_ok C ps"
  shows "pool_map b C \<Longrightarrow> \<not> finished it \<Longrightarrow> scan_rel C ps qs it \<Longrightarrow> length qs \<le> k \<Longrightarrow>
    rows = rows_left C (unat (last_page_slots it)) (unat (current_slot_id it)) qs \<Longrightarrow> next_with k f it b = (r, it', b') \<Longrightarrow>
    settled b b' \<and> pool_map b' C \<and>
    (r = Ok (fst (first_hit f rows)) \<and> sees C ps it' (snd (first_hit f rows)) \<or> (\<exists>e. r = Err (HeapBpm e) \<and> refused b e \<and> finished it'))"
proof (induction k arbitrary: qs it b rows)
  case 0
  then show ?case by (simp add: scan_rel_def)
next
  case (Suc k)
  obtain p qs' where qs: "qs = p # qs'" using Suc.prems(3) by (cases qs) (auto simp: scan_rel_def)
  note s = Suc.prems(3) [unfolded qs]
  have dist: "distinct ps" using c by (simp add: chain_ok_def)
  note rows = rows_left_page [OF s dist]
  obtain d where d: "C p = Some d" "wf_page d" "page_limit d it \<le> count_of d" "unat (current_slot_id it) \<le> page_limit d it"
    "qs' \<noteq> [] \<Longrightarrow> link_of d = Some (hd qs')" using scan_page_info [OF c s] by blast
  have cur: "current_page_id it = p" using s by (simp add: scan_rel_def)
  have rw: "rows = page_left d it @ rows_left C (unat (last_page_slots it)) 0 qs'" using Suc.prems(5) rows(1) d(1) qs by simp
  show ?case
  proof (cases "at_end it")
    case True
    then have "rows = []" using at_end_left [OF s dist] Suc.prems(5) qs by simp
    then show ?thesis using True Suc.prems(1,2,6) by (auto simp: sees_def settled_def)
  next
    case False
    obtain q b1 where q: "reading p HeapBpm Ok b = (q, b1)" by force
    note run = Suc.prems(6) [unfolded next_with.simps, simplified Suc.prems(2) False cur q]
    from reading_ok [OF Suc.prems(1) q] d(1) consider (ok) "settled b b1" "pool_map b1 C" "q = Ok d"
      | (no) e where "settled b b1" "pool_map b1 C" "q = Err (HeapBpm e)" "refused b e" by auto
    then show ?thesis
    proof cases
      case no
      then show ?thesis using run by auto
    next
      case ok
      obtain x rest where hit: "first_hit f (page_left d it) = (x, rest)" by force
      have link: "current_page_id it \<noteq> last_page_id it \<Longrightarrow> link_of d = Some (hd qs')" using d(5) rows(2) by simp
      note sp = scan_page_ok [OF d(2,4,3) link, of f, unfolded hit prod.case]
      show ?thesis
      proof (cases x)
        case (Some y)
        from sp [unfolded Some option.case] obtain w where w: "scan_page f d it = (Ok (Yield y), it\<lparr>current_slot_id := w\<rparr>)" "unat w \<le> page_limit d it"
          "rest = page_left d (it\<lparr>current_slot_id := w\<rparr>)" by blast
        have res: "r = Ok (Some y)" "it' = it\<lparr>current_slot_id := w\<rparr>" "b' = b1" using run ok(3) d(2) w(1) by simp_all
        have sr: "scan_rel C ps (p # qs') it'" using scan_yield [OF s] w(2) d(1) res(2) by simp
        have "first_hit f rows = (Some y, rest @ rows_left C (unat (last_page_slots it)) 0 qs')" using hit Some rw by (simp add: first_hit_append)
        moreover have "sees C ps it' (rest @ rows_left C (unat (last_page_slots it)) 0 qs')"
          using rows_left_page(1) [OF sr dist] sr w(3) res(2) d(1) Suc.prems(2) by (auto simp: sees_def)
        ultimately show ?thesis using ok res by simp
      next
        case None
        note none = sp [unfolded None option.case]
        have rest: "first_hit f rows = first_hit f (rows_left C (unat (last_page_slots it)) 0 qs')" using hit None rw by (simp add: first_hit_append)
        show ?thesis
        proof (cases "qs' = []")
          case True
          then obtain i where "scan_page f d it = (Ok ScanEnd, i)" "finished i" using none rows(2) by auto
          then show ?thesis using run ok d(2) rest True by (auto simp: sees_def)
        next
          case more: False
          let ?it = "it\<lparr>current_page_id := hd qs', current_slot_id := 0\<rparr>"
          have "next_with k f ?it b1 = (r, it', b')" using run ok(3) d(2) none more rows(2) by simp
          from Suc.IH [OF ok(2) _ scan_turn [OF c s more] _ _ this, of "rows_left C (unat (last_page_slots it)) 0 qs'"] show ?thesis
            using Suc.prems(2,4) qs rest settled_trans [OF ok(1)] refused_settled [OF ok(1)] by auto
        qed
      qed
    qed
  qed
qed


lemma rows_left_all: "ps \<noteq> [] \<Longrightarrow> n = count_of (the (C (last ps))) \<Longrightarrow> rows_left C n 0 ps = heap_rows C ps"
  by (induction C n "0 :: nat" ps rule: rows_left.induct) (auto simp: heap_rows_def page_rows_def)

lemma sees_start:
  assumes "heap_rel h C ps"
  shows "sees C ps (heap_iter h) (heap_rows C ps)"
proof -
  have h: "ps \<noteq> []" "first_page_id h = hd ps" "tail_page_id h = last ps" "unat (tail_num_tuples h) = count_of (the (C (last ps)))"
    using assms by (simp_all add: heap_rel_def chain_ok_def)
  have "ps = [] @ ps @ []" by simp
  then have "\<exists>before after. ps = before @ ps @ after" by blast
  then have "scan_rel C ps ps (heap_iter h)" using h by (simp add: scan_rel_def heap_iter_def)
  then show ?thesis using rows_left_all [where C = C, OF h(1) h(4)] by (auto simp: sees_def heap_iter_def intro!: exI [of _ ps])
qed

lemma sees_next:
  assumes c: "chain_ok C ps" and m: "pool_map b C" and s: "sees C ps it rows" and k: "length ps \<le> k" and r: "next_with k f it b = (r, it', b')"
  shows "settled b b' \<and> pool_map b' C \<and>
    (r = Ok (fst (first_hit f rows)) \<and> sees C ps it' (snd (first_hit f rows)) \<or> (\<exists>e. r = Err (HeapBpm e) \<and> refused b e \<and> finished it'))"
proof (cases "finished it")
  case True
  have "k \<noteq> 0" using k c by (cases ps) (auto simp: chain_ok_def)
  then obtain k' where "k = Suc k'" by (cases k) auto
  then show ?thesis using True s r m by (auto simp: sees_def settled_def)
next
  case False
  then obtain qs where qs: "scan_rel C ps qs it" "rows = rows_left C (unat (last_page_slots it)) (unat (current_slot_id it)) qs" using s by (auto simp: sees_def)
  have "length qs \<le> k" using qs(1) k by (auto simp: scan_rel_def)
  from next_with_ok [OF c m False qs(1) this qs(2) r] show ?thesis .
qed

text \<open>A whole scan, as a loop over the iterator collects it.\<close>

fun collect_scan :: "nat \<Rightarrow> nat \<Rightarrow> (RecordId \<Rightarrow> TupleMeta \<Rightarrow> bytes \<Rightarrow> 'r option) \<Rightarrow> TableHeapIterator \<Rightarrow> BufferPoolManager \<Rightarrow> (TableHeapError, 'r list) result \<times> BufferPoolManager" where
  "collect_scan 0 k f it b = (Panic, b)"
| "collect_scan (Suc n) k f it b =
     (case next_with k f it b of
        (Ok (Some x), it, b) \<Rightarrow> (case collect_scan n k f it b of (Ok xs, b) \<Rightarrow> (Ok (x # xs), b) | (Err e, b) \<Rightarrow> (Err e, b) | (Panic, b) \<Rightarrow> (Panic, b))
      | (Ok None, it, b) \<Rightarrow> (Ok [], b)
      | (Err e, it, b) \<Rightarrow> (Err e, b)
      | (Panic, it, b) \<Rightarrow> (Panic, b))"

definition visited :: "(RecordId \<Rightarrow> TupleMeta \<Rightarrow> bytes \<Rightarrow> 'r option) \<Rightarrow> (RecordId \<times> TupleMeta \<times> bytes) list \<Rightarrow> 'r list" where
  "visited f rows = List.map_filter (\<lambda>(rid, meta, data). f rid meta data) rows"

lemma visited_hit: "visited f rows = (case first_hit f rows of (Some x, rest) \<Rightarrow> x # visited f rest | (None, _) \<Rightarrow> [])"
  by (induction f rows rule: first_hit.induct) (auto simp: visited_def map_filter_simps split: option.split)

lemma first_hit_length: "first_hit f rows = (Some x, rest) \<Longrightarrow> length rest < length rows"
  by (induction f rows rule: first_hit.induct) (auto split: option.splits)

lemma collect_scan_ok:
  assumes c: "chain_ok C ps" and k: "length ps \<le> k"
  shows "pool_map b C \<Longrightarrow> sees C ps it rows \<Longrightarrow> length rows < n \<Longrightarrow> collect_scan n k f it b = (r, b') \<Longrightarrow>
    settled b b' \<and> pool_map b' C \<and> (r = Ok (visited f rows) \<or> (\<exists>e. r = Err (HeapBpm e) \<and> refused b e))"
proof (induction n arbitrary: it b rows r b')
  case (Suc n)
  obtain q i b1 where q: "next_with k f it b = (q, i, b1)" by (metis prod_cases3)
  obtain y rest where hit: "first_hit f rows = (y, rest)" by force
  from sees_next [OF c Suc.prems(1,2) k q] hit consider
    (ok) "settled b b1" "pool_map b1 C" "q = Ok y" "sees C ps i rest"
    | (no) e where "settled b b1" "pool_map b1 C" "q = Err (HeapBpm e)" "refused b e" by auto
  then show ?case
  proof cases
    case no
    then show ?thesis using Suc.prems(4) q by auto
  next
    case ok
    show ?thesis
    proof (cases y)
      case None
      then show ?thesis using ok Suc.prems(4) q hit visited_hit [of f rows] by simp
    next
      case (Some x)
      obtain z b2 where z: "collect_scan n k f i b1 = (z, b2)" by force
      have "length rest < n" using first_hit_length [OF hit [unfolded Some]] Suc.prems(3) by simp
      note ih = Suc.IH [OF ok(2,4) this z]
      have v: "visited f rows = x # visited f rest" using hit Some visited_hit [of f rows] by simp
      show ?thesis using ih ok q z Some v Suc.prems(4) settled_trans [OF ok(1)] refused_settled [OF ok(1)] by auto
    qed
  qed
qed simp

section \<open>A scan beside inserts\<close>

lemma page_rows_of_heap:
  assumes "distinct ps" "p \<in> set ps"
  shows "filter (\<lambda>x. page_id (fst x) = p) (heap_rows C ps) = page_rows p (the (C p))"
proof -
  have same: "filter (\<lambda>x. page_id (fst x) = p) (page_rows q d) = (if q = p then page_rows q d else [])" for q d
    by (auto simp: page_rows_def filter_map comp_def)
  have none: "filter (\<lambda>x. page_id (fst x) = p) (heap_rows C qs) = []" if "p \<notin> set qs" for qs
    using that by (induction qs) (auto simp: heap_rows_def same)
  show ?thesis using assms by (induction ps) (auto simp: heap_rows_def same none [unfolded heap_rows_def])
qed

lemma row_added_pages:
  assumes c: "chain_ok C ps" and a: "row_added h C ps x rid h' C' ps'" and p: "p \<in> set ps"
  shows "page_rows p (the (C' p)) = page_rows p (the (C p)) @ (if page_id rid = p then [(rid, x)] else [])" "p \<noteq> last ps \<Longrightarrow> page_id rid \<noteq> p"
proof -
  obtain qs where qs: "ps' = ps @ qs" "\<forall>q \<in> set qs. C q = None" using a by (auto simp: row_added_def)
  have d: "distinct ps" "distinct ps'" using c a by (simp_all add: row_added_def heap_rel_def chain_ok_def)
  have "filter (\<lambda>x. page_id (fst x) = p) (heap_rows C' ps') = filter (\<lambda>x. page_id (fst x) = p) (heap_rows C ps) @ (if page_id rid = p then [(rid, x)] else [])"
    using a by (simp add: row_added_def)
  then show "page_rows p (the (C' p)) = page_rows p (the (C p)) @ (if page_id rid = p then [(rid, x)] else [])"
    using page_rows_of_heap [OF d(1) p, of C] page_rows_of_heap [OF d(2), of p C'] p qs(1) by simp
  have "page_id rid = (if qs = [] then last ps else last qs)" using a qs(1) by (simp add: row_added_def)
  moreover have "p \<notin> set qs" using qs(2) chain_page [OF c p] by auto
  ultimately show "p \<noteq> last ps \<Longrightarrow> page_id rid \<noteq> p" by (auto split: if_splits)
qed

lemma length_page_rows [simp]: "length (page_rows p d) = count_of d"
  by (simp add: page_rows_def)

lemma rows_left_same:
  assumes "\<forall>p \<in> set (butlast qs). page_rows p (the (C' p)) = page_rows p (the (C p))"
    "page_rows (last qs) (the (C' (last qs))) = page_rows (last qs) (the (C (last qs))) @ zs" "n \<le> count_of (the (C (last qs)))" "qs \<noteq> []"
  shows "rows_left C' n j qs = rows_left C n j qs"
  using assms by (induction C n j qs rule: rows_left.induct) auto

lemma sees_insert:
  assumes c: "chain_ok C ps" and a: "row_added h C ps x rid h' C' ps'" and s: "sees C ps it rows"
  shows "sees C' ps' it rows"
proof (cases "finished it")
  case False
  then obtain qs where sr: "scan_rel C ps qs it" and rows: "rows = rows_left C (unat (last_page_slots it)) (unat (current_slot_id it)) qs" using s by (auto simp: sees_def)
  obtain before after where ps: "ps = before @ qs @ after" and ne: "qs \<noteq> []" using sr by (auto simp: scan_rel_def)
  obtain new where new: "ps' = ps @ new" using a by (auto simp: row_added_def)
  note pg = row_added_pages [OF c a]
  have d: "distinct ps" using c by (simp add: chain_ok_def)
  have before_last: "p \<noteq> last ps" if "p \<in> set (butlast qs)" for p
    using that d ps ne by (cases qs rule: rev_cases; cases after rule: rev_cases) auto
  have "page_rows p (the (C' p)) = page_rows p (the (C p))" if "p \<in> set (butlast qs)" for p
    using pg [of p] before_last [OF that] ps in_set_butlastD [OF that] by simp
  moreover have "last qs \<in> set ps" using ps ne by simp
  note lastp = pg(1) [OF this]
  moreover have "unat (last_page_slots it) \<le> count_of (the (C (last qs)))" using sr by (simp add: scan_rel_def)
  ultimately have left: "rows_left C' (unat (last_page_slots it)) j qs = rows_left C (unat (last_page_slots it)) j qs" for j
    using ne by (intro rows_left_same) auto
  have grow: "count_of (the (C p)) \<le> count_of (the (C' p))" if "p \<in> set ps" for p
    using arg_cong [OF pg(1) [OF that], of length] by simp
  have "hd qs \<in> set ps" "last qs \<in> set ps" using ps ne by simp_all
  then have lim: "unat (current_slot_id it) \<le> page_limit (the (C' (hd qs))) it" "unat (last_page_slots it) \<le> count_of (the (C' (last qs)))"
    using sr grow [of "hd qs"] grow [of "last qs"] by (auto simp: scan_rel_def page_limit_def)
  have "ps' = before @ qs @ (after @ new)" using new ps by simp
  then have "\<exists>before after. ps' = before @ qs @ after" by blast
  then have "scan_rel C' ps' qs it" using sr lim by (simp add: scan_rel_def)
  then show ?thesis using False left rows by (auto simp: sees_def)
qed (use s in \<open>simp add: sees_def\<close>)


section \<open>A new heap\<close>

lemma heap_rows_distinct:
  assumes "distinct ps" "\<forall>p \<in> set ps. \<exists>d. C p = Some d \<and> wf_page d"
  shows "distinct (map fst (heap_rows C ps))"
  using assms
proof (induction ps)
  case (Cons p ps)
  then obtain d where d: "C p = Some d" "wf_page d" by auto
  have "page_id (fst x) \<in> set ps" if "x \<in> set (heap_rows C ps)" for x using that by (auto simp: heap_rows_def page_rows_def)
  moreover have "page_id (fst x) = p" if "x \<in> set (page_rows p d)" for x using that by (auto simp: page_rows_def)
  ultimately have "fst ` set (page_rows p d) \<inter> fst ` set (heap_rows C ps) = {}" using Cons.prems(1) by fastforce
  then show ?case using Cons page_rows_distinct [OF d(2), of p] d(1) by (simp add: heap_rows_def)
qed (simp add: heap_rows_def)

lemma row_added_fresh: "row_added h C ps x rid h' C' ps' \<Longrightarrow> rid \<notin> fst ` set (heap_rows C ps)"
proof -
  assume a: "row_added h C ps x rid h' C' ps'"
  then have "chain_ok C' ps'" "heap_rows C' ps' = heap_rows C ps @ [(rid, x)]" by (simp_all add: row_added_def heap_rel_def)
  then show ?thesis using heap_rows_distinct [of ps' C'] chain_page [of C' ps'] by (auto simp: chain_ok_def)
qed

lemma one_page_heap: "C p = Some d \<Longrightarrow> wf_page d \<Longrightarrow> link_of d = None \<Longrightarrow> unat n = count_of d \<Longrightarrow>
    heap_rel \<lparr>first_page_id = p, tail_page_id = p, tail_num_tuples = n, update_reserve = k\<rparr> C [p]"
  by (simp add: heap_rel_def chain_ok_def)

lemma TableHeap_new_ok:
  assumes m: "pool_map b C" and r: "TableHeap_new b = (r, b')"
  shows "settled b b' \<and>
    ((\<exists>p h C'. r = Ok h \<and> C p = None \<and> pool_map b' C' \<and> (\<forall>q. q \<noteq> p \<longrightarrow> C' q = C q) \<and> heap_rel h C' [p] \<and> heap_rows C' [p] = []) \<or>
     (\<exists>e. r = Err (HeapBpm e) \<and> pool_map b' C \<and> cannot_grow b e))"
proof -
  let ?g = "\<lambda>pid. editing (\<lambda>b. bindR (TablePage_init b) (\<lambda>b. Ok (pid, b))) :: (bytes, TableHeapError, PageId) sm"
  have init: "\<exists>d'. ?g p d = (Ok p, d') \<and> wf_page d' \<and> tuples d' = [] \<and> link_of d' = None" if "length d = PAGE_SIZE" for p d
    using TablePage_init_ok [OF that, where 'e = TableHeapError] by (auto simp: editing_def)
  have len: "length (snd (?g p d)) = PAGE_SIZE" if "length d = PAGE_SIZE" for p d using init [OF that, of p] wf_page_length by fastforce
  obtain q b1 where q: "adding HeapBpm ?g b = (q, b1)" by force
  from adding_ok [OF m len q] consider
    (new) p d where "settled b b1" "C p = None" "length d = PAGE_SIZE" "q = fst (?g p d)" "pool_map b1 (C(p \<mapsto> snd (?g p d)))"
    | (er) e where "settled b b1" "q = Err (HeapBpm e)" "pool_map b1 C" "cannot_grow b e" unfolding cannot_grow_def by blast
  then show ?thesis
  proof cases
    case er
    then show ?thesis using r q by (auto simp: TableHeap_new_def bindS_apply)
  next
    case new
    from init [OF new(3), of p] obtain d' where d': "?g p d = (Ok p, d')" "wf_page d'" "tuples d' = []" "link_of d' = None" by blast
    let ?h = "\<lparr>first_page_id = p, tail_page_id = p, tail_num_tuples = 0, update_reserve = 0\<rparr>" and ?C = "C(p \<mapsto> d')"
    have z: "count_of d' = 0" using arg_cong [OF d'(3), of length] by simp
    have "heap_rel ?h ?C [p]" using z d' by (intro one_page_heap) auto
    moreover have "heap_rows ?C [p] = []" using z by (simp add: heap_rows_def page_rows_def)
    moreover have "r = Ok ?h" "b' = b1" "pool_map b1 ?C" using r q new(4,5) d'(1) by (auto simp: TableHeap_new_def bindS_apply effect_apply)
    ultimately show ?thesis using new(1,2) by (intro conjI disjI1 exI [of _ p] exI [of _ ?h] exI [of _ ?C]) simp_all
  qed
qed

text \<open>A heap with one row, in a pool that refuses nothing.\<close>

lemma one_row_heap:
  assumes "length x \<le> MAX_TUPLE_SIZE"
  shows "\<exists>b C h p. pool_map b C \<and> heap_rel h C [p] \<and> heap_rows C [p] = [(\<lparr>page_id = p, slot_id = 0\<rparr>, meta, x)] \<and> (\<forall>e. \<not> refused b e)"
proof -
  from empty_pool obtain b where b: "pool_map b Map.empty" "healthy (dm (scheduler b))" "pins b = [0, 0]" "bp_next_page_id b = 0" by blast
  have n: "length (frames b) = 2" using b(1,3) by (auto simp: pool_map_def tables_ok_def elim!: pool_okE)
  have "\<not> pinned (pins b) (FrameId 0)" "frame_raw (FrameId 0) < length (frames b)" using b(3) n by (simp_all add: pinned_def)
  then have nr: "\<not> refused b e" for e using b(2) unfolding refused_def by blast
  obtain q b1 where q: "adding HeapBpm (first_row meta x) b = (q, b1)" by force
  have len: "length (snd (first_row meta x p d)) = PAGE_SIZE" if "length d = PAGE_SIZE" for p d
    using first_row_ok [OF that assms, of meta p] wf_page_length by fastforce
  from adding_ok [OF b(1) len q] nr b(4) obtain p d where
    new: "settled b b1" "length d = PAGE_SIZE" "pool_map b1 [p \<mapsto> snd (first_row meta x p d)]" by auto
  from first_row_ok [OF new(2) assms, of meta p] obtain d' where d': "first_row meta x p d = (Ok (p, 0), d')" "wf_page d'" "tuples d' = [(meta, x)]" "link_of d' = None" by blast
  have c: "count_of d' = 1" using arg_cong [OF d'(3), of length] by simp
  let ?h = "\<lparr>first_page_id = p, tail_page_id = p, tail_num_tuples = 1, update_reserve = 0\<rparr>"
  have "heap_rel ?h [p \<mapsto> d'] [p]" using c d' by (intro one_page_heap) auto
  moreover have "heap_rows [p \<mapsto> d'] [p] = [(\<lparr>page_id = p, slot_id = 0\<rparr>, meta, x)]" using c d'(3) by (simp add: heap_rows_def page_rows_def)
  moreover have "\<not> refused b1 e" for e using nr refused_settled [OF new(1)] by blast
  moreover have "pool_map b1 [p \<mapsto> d']" using new(3) d'(1) by simp
  ultimately show ?thesis by blast
qed


section \<open>Properties\<close>

lemma insert_failed:
  assumes "heap_rel h C ps" "\<forall>q \<in> dom C. C' q = C q"
  shows "heap_rel h C' ps" "heap_rows C' ps = heap_rows C ps"
proof -
  have c: "chain_ok C ps" using assms(1) by (simp add: heap_rel_def)
  have s: "\<forall>p \<in> set ps. C' p = C p" using chain_page [OF c] assms(2) by blast
  have "last ps \<in> set ps" using c by (simp add: chain_ok_def)
  then show "heap_rel h C' ps" using assms(1) chain_same(1) [OF c s] s by (simp add: heap_rel_def)
  show "heap_rows C' ps = heap_rows C ps" by (rule chain_same(2) [OF c s])
qed


lemma slot_write_cases:
  assumes "pool_map b C" "heap_rel h C ps" "page_id rid \<in> set ps" "write_slot (\<lambda>e. e) rid f b = (r, b')"
  obtains (ok) old w C' where "map_of (heap_rows C ps) rid = Some old" "f (fst old) (snd old) = Ok w" "r = Ok ()" "pins b' = pins b" "pool_map b' C'"
      "row_set h C ps rid (sw_meta w, new_data w (snd old)) C'"
  | (refused) e where "r = Err (HeapBpm e)" "refused b e" "pool_map b' C" "pins b' = pins b"
  | (missing) n where "map_of (heap_rows C ps) rid = None" "r = Err (HeapSlotMissing rid n)" "pool_map b' C" "pins b' = pins b"
  | (bad) old where "map_of (heap_rows C ps) rid = Some old" "pool_map b' C" "pins b' = pins b"
      "case f (fst old) (snd old) of Err e \<Rightarrow> r = Err e | Panic \<Rightarrow> r = Panic
         | Ok w \<Rightarrow> (\<exists>x e. sw_data w = Some x \<and> length (snd old) < length x \<and> r = Err (HeapPage (page_id rid) e))"
proof -
  note w = write_row [OF assms(1-3) assms(4) [unfolded write_slot_def]]
  have p: "pins b' = pins b" using w by (simp add: settled_def)
  from w show thesis
  proof (elim conjE disjE exE)
    fix old w z C' assume "map_of (heap_rows C ps) rid = Some old" "bindR (f (fst old) (snd old)) (\<lambda>w. Ok (w, ())) = Ok (w, z)" "r = Ok ()"
      "pool_map b' C'" "row_set h C ps rid (sw_meta w, new_data w (snd old)) C'"
    then show thesis using p by (intro ok [of old w C']) (auto simp: bindR_Ok_iff)
  next
    fix old assume "pool_map b' C" "map_of (heap_rows C ps) rid = Some old"
      "case bindR (f (fst old) (snd old)) (\<lambda>w. Ok (w, ())) of Err e \<Rightarrow> r = Err e | Panic \<Rightarrow> r = Panic
         | Ok (w, z) \<Rightarrow> \<exists>x e. sw_data w = Some x \<and> length (snd old) < length x \<and> r = Err (HeapPage (page_id rid) e)"
    then show thesis using p by (intro bad [of old]) (auto split: result.splits)
  qed (use p refused missing in blast)+
qed


lemma heap_get_run:
  "get_with_meta rid b = (r, b') \<Longrightarrow> heap_get rid b =
    (case r of Ok (meta, x) \<Rightarrow> if meta_is_deleted meta then Err (Deleted rid) else Ok (rid, x) | Err e \<Rightarrow> Err e | Panic \<Rightarrow> Panic, b')"
  by (auto simp: heap_get_def bindS_apply effect_apply split: result.split)

text \<open>C37. A record id names one row. Getting it returns the row's bytes, or says that it is deleted or missing; updating it in place replaces
  that row and no other and keeps every record id; deleting it marks that row deleted, once. An update fails for lack of room only
  when the new bytes are longer than the old ones. When an operation fails the rows stay as they were, and it fails otherwise only
  when the pool refuses.\<close>

theorem heap_row_by_id:
  assumes "pool_map b C" "heap_rel h C ps" "page_id rid \<in> set ps"
  shows "(case heap_get rid b of (r, b') \<Rightarrow> pool_map b' C \<and> pins b' = pins b \<and>
      ((\<exists>e. r = Err (HeapBpm e) \<and> refused b e) \<or>
       (case map_of (heap_rows C ps) rid of
          Some (m, x) \<Rightarrow> r = (if meta_is_deleted m then Err (Deleted rid) else Ok (rid, x))
        | None \<Rightarrow> (\<exists>n. r = Err (HeapSlotMissing rid n))))) \<and>
    (case heap_update_in_place rid meta new b of (r, b') \<Rightarrow> pins b' = pins b \<and>
      (r = Ok () \<and> map_of (heap_rows C ps) rid \<noteq> None \<and> (\<exists>C'. pool_map b' C' \<and> row_set h C ps rid (meta, new) C') \<or>
       pool_map b' C \<and> ((\<exists>e. r = Err (HeapBpm e) \<and> refused b e) \<or>
         (case map_of (heap_rows C ps) rid of
            Some (m, x) \<Rightarrow> length x < length new \<and> (\<exists>e. r = Err (HeapPage (page_id rid) e))
          | None \<Rightarrow> (\<exists>n. r = Err (HeapSlotMissing rid n)))))) \<and>
    (case heap_delete rid b of (r, b') \<Rightarrow> pins b' = pins b \<and>
      ((\<exists>m x C'. r = Ok () \<and> map_of (heap_rows C ps) rid = Some (m, x) \<and> \<not> meta_is_deleted m \<and> pool_map b' C' \<and>
          row_set h C ps rid (m\<lparr>meta_is_deleted := True\<rparr>, x) C') \<or>
       pool_map b' C \<and> ((\<exists>e. r = Err (HeapBpm e) \<and> refused b e) \<or>
         (case map_of (heap_rows C ps) rid of
            Some (m, x) \<Rightarrow> meta_is_deleted m \<and> r = Err (Deleted rid)
          | None \<Rightarrow> (\<exists>n. r = Err (HeapSlotMissing rid n))))))"
proof (intro conjI)
  obtain r b' where r: "get_with_meta rid b = (r, b')" by force
  note rd = read_row [OF assms r [unfolded get_with_meta_def]]
  show "case heap_get rid b of (r, b') \<Rightarrow> pool_map b' C \<and> pins b' = pins b \<and>
      ((\<exists>e. r = Err (HeapBpm e) \<and> refused b e) \<or>
       (case map_of (heap_rows C ps) rid of
          Some (m, x) \<Rightarrow> r = (if meta_is_deleted m then Err (Deleted rid) else Ok (rid, x))
        | None \<Rightarrow> (\<exists>n. r = Err (HeapSlotMissing rid n))))"
    unfolding heap_get_run [OF r] using rd by (auto simp: settled_def split: option.splits)
next
  obtain r b' where r: "heap_update_in_place rid meta new b = (r, b')" by force
  from slot_write_cases [OF assms r [unfolded heap_update_in_place_def]]
  show "case heap_update_in_place rid meta new b of (r, b') \<Rightarrow> pins b' = pins b \<and>
      (r = Ok () \<and> map_of (heap_rows C ps) rid \<noteq> None \<and> (\<exists>C'. pool_map b' C' \<and> row_set h C ps rid (meta, new) C') \<or>
       pool_map b' C \<and> ((\<exists>e. r = Err (HeapBpm e) \<and> refused b e) \<or>
         (case map_of (heap_rows C ps) rid of
            Some (m, x) \<Rightarrow> length x < length new \<and> (\<exists>e. r = Err (HeapPage (page_id rid) e))
          | None \<Rightarrow> (\<exists>n. r = Err (HeapSlotMissing rid n)))))"
    by cases (auto simp: r new_data_def)
next
  obtain r b' where r: "heap_delete rid b = (r, b')" by force
  from slot_write_cases [OF assms r [unfolded heap_delete_def]]
  show "case heap_delete rid b of (r, b') \<Rightarrow> pins b' = pins b \<and>
      ((\<exists>m x C'. r = Ok () \<and> map_of (heap_rows C ps) rid = Some (m, x) \<and> \<not> meta_is_deleted m \<and> pool_map b' C' \<and>
          row_set h C ps rid (m\<lparr>meta_is_deleted := True\<rparr>, x) C') \<or>
       pool_map b' C \<and> ((\<exists>e. r = Err (HeapBpm e) \<and> refused b e) \<or>
         (case map_of (heap_rows C ps) rid of
            Some (m, x) \<Rightarrow> meta_is_deleted m \<and> r = Err (Deleted rid)
          | None \<Rightarrow> (\<exists>n. r = Err (HeapSlotMissing rid n)))))"
    by cases (auto simp: r new_data_def split: if_splits)
qed

text \<open>C38. A scan reads the rows of the heap in the order they were inserted. Collecting from a new iterator gives what the visitor takes of every row,
  deleted ones left out by the visitor only; each call returns the first row left that the visitor takes, and goes on after it.
  Rows inserted after the iterator was made are not seen by it, also when they land on the page it is reading, and the
  rows it has yet to see stay before it. A page visited costs one unit of the bound \<open>k\<close>.\<close>

theorem scan_reads_rows_in_order:
  assumes "pool_map b C" "heap_rel h C ps" "length ps \<le> k" "length (heap_rows C ps) < n"
  shows "(case collect_scan n k f (heap_iter h) b of (r, b') \<Rightarrow> pool_map b' C \<and> pins b' = pins b \<and>
      (r = Ok (visited f (heap_rows C ps)) \<or> (\<exists>e. r = Err (HeapBpm e) \<and> refused b e))) \<and>
    sees C ps (heap_iter h) (heap_rows C ps) \<and>
    (\<forall>it rows. sees C ps it rows \<longrightarrow>
      (case next_with k f it b of (r, it', b') \<Rightarrow> pool_map b' C \<and> pins b' = pins b \<and>
        (r = Ok (fst (first_hit f rows)) \<and> sees C ps it' (snd (first_hit f rows)) \<or> (\<exists>e. r = Err (HeapBpm e) \<and> refused b e \<and> finished it'))) \<and>
      (case heap_insert_with_meta h meta x b of
        (Ok (rid, h'), b') \<Rightarrow> \<exists>C' ps'. pool_map b' C' \<and> heap_rel h' C' ps' \<and> heap_rows C' ps' = heap_rows C ps @ [(rid, meta, x)] \<and> sees C' ps' it rows
      | _ \<Rightarrow> True))"
proof -
  have c: "chain_ok C ps" using assms(2) by (simp add: heap_rel_def)
  obtain r b' where r: "collect_scan n k f (heap_iter h) b = (r, b')" by force
  have all: "case collect_scan n k f (heap_iter h) b of (r, b') \<Rightarrow> pool_map b' C \<and> pins b' = pins b \<and>
      (r = Ok (visited f (heap_rows C ps)) \<or> (\<exists>e. r = Err (HeapBpm e) \<and> refused b e))"
    using collect_scan_ok [OF c assms(3,1) sees_start [OF assms(2)] assms(4) r] by (simp add: r settled_def)
  have step: "case next_with k f it b of (r, it', b') \<Rightarrow> pool_map b' C \<and> pins b' = pins b \<and>
        (r = Ok (fst (first_hit f rows)) \<and> sees C ps it' (snd (first_hit f rows)) \<or> (\<exists>e. r = Err (HeapBpm e) \<and> refused b e \<and> finished it'))"
    if s: "sees C ps it rows" for it rows
  proof -
    obtain r it' b' where n: "next_with k f it b = (r, it', b')" by (metis prod_cases3)
    show ?thesis using sees_next [OF c assms(1) s assms(3) n] by (simp add: n settled_def)
  qed
  have ins: "case heap_insert_with_meta h meta x b of
        (Ok (rid, h'), b') \<Rightarrow> \<exists>C' ps'. pool_map b' C' \<and> heap_rel h' C' ps' \<and> heap_rows C' ps' = heap_rows C ps @ [(rid, meta, x)] \<and> sees C' ps' it rows
      | _ \<Rightarrow> True" if s: "sees C ps it rows" for it rows
  proof -
    obtain r b' where r: "insert_locked h meta x b = (r, b')" by force
    show ?thesis
    proof (cases r)
      case (Ok y)
      then obtain rid h' C' ps' where y: "y = (rid, h')" "pool_map b' C'" "row_added h C ps (meta, x) rid h' C' ps'"
        using insert_locked_ok [OF assms(1,2) r] by auto
      have "\<exists>C' ps'. pool_map b' C' \<and> heap_rel h' C' ps' \<and> heap_rows C' ps' = heap_rows C ps @ [(rid, meta, x)] \<and> sees C' ps' it rows"
        using y(2,3) sees_insert [OF c y(3) s] unfolding row_added_def by blast
      then show ?thesis using Ok r y(1) by (simp add: heap_insert_with_meta_def)
    qed (use r in \<open>simp_all add: heap_insert_with_meta_def\<close>)
  qed
  show ?thesis by (intro conjI allI impI all sees_start [OF assms(2)] step ins)
qed

text \<open>C40. Freeing a heap gives every one of its pages back to the pool and touches no other page. When a page cannot be read or deleted, the heap that comes back
  has exactly the pages that were not freed and their rows, so the call can be repeated, and the cause is that the pool
  refuses or that a guard pins that page. A page freed costs one unit of the bound \<open>k\<close>.\<close>

theorem heap_free_returns_pages:
  assumes "pool_map b C" "heap_rel h C ps" "length ps \<le> k"
  shows "case heap_free k h b of
      (Ok _, b') \<Rightarrow> pool_map b' (C |` (- set ps)) \<and> pins b' = pins b
    | (Err (e, h'), b') \<Rightarrow> pins b' = pins b \<and> (\<exists>freed rest. ps = freed @ rest \<and> pool_map b' (C |` (- set freed)) \<and>
        heap_rel h' (C |` (- set freed)) rest \<and> heap_rows (C |` (- set freed)) rest = heap_rows C rest \<and>
        (\<exists>y. e = HeapBpm y \<and> (refused b y \<or> y = PagePinned (hd rest) \<and> (\<exists>f. pinned (pins b') f \<and> held (frames b') f = Some (hd rest)))))
    | (Panic, b') \<Rightarrow> False"
proof -
  have h: "chain_ok C ps" "first_page_id h = hd ps" "tail_page_id h = last ps" "unat (tail_num_tuples h) = count_of (the (C (last ps)))" "ps \<noteq> []" "distinct ps"
    using assms(2) by (auto simp: heap_rel_def chain_ok_def)
  have ps: "first_page_id h # tl ps = ps" using h(2,5) by simp
  obtain r b' where r: "heap_free k h b = (r, b')" by force
  have "length (tl ps) < k" using assms(3) h(5) by (cases ps) auto
  from heap_free_ok [OF assms(1) _ this r, unfolded ps, OF h(1)] consider (ok) "settled b b'" "r = Ok ()" "pool_map b' (C |` (- set ps))"
    | (stop) freed p rest e where "settled b b'" "r = Err (HeapBpm e, h\<lparr>first_page_id := p\<rparr>)" "free_stops b b' C ps freed p rest e" by blast
  then show ?thesis
  proof cases
    case stop
    let ?C = "C |` (- set freed)"
    note st = stop(3) [unfolded free_stops_def]
    have same: "?C q = C q" if "q \<in> set (p # rest)" for q using that st h(6) by (auto simp: restrict_map_def)
    have "last ps = last (p # rest)" using st by simp
    moreover have "?C (last (p # rest)) = C (last (p # rest))" by (rule same) (rule last_in_set, simp)
    ultimately have rel: "heap_rel (h\<lparr>first_page_id := p\<rparr>) ?C (p # rest)" using st h(3,4) by (simp add: heap_rel_def del: last.simps)
    have rows: "heap_rows ?C (p # rest) = heap_rows C (p # rest)"
      unfolding heap_rows_def by (rule arg_cong [of _ _ concat], rule map_cong) (simp_all only: same)
    have "ps = freed @ (p # rest)" "pool_map b' ?C" "\<exists>y. HeapBpm e = HeapBpm y \<and> (refused b y \<or> y = PagePinned (hd (p # rest)) \<and> (\<exists>f. pinned (pins b') f \<and> held (frames b') f = Some (hd (p # rest))))"
      using st by simp_all
    with rel rows have "\<exists>freed rest. ps = freed @ rest \<and> pool_map b' (C |` (- set freed)) \<and>
        heap_rel (h\<lparr>first_page_id := p\<rparr>) (C |` (- set freed)) rest \<and> heap_rows (C |` (- set freed)) rest = heap_rows C rest \<and>
        (\<exists>y. HeapBpm e = HeapBpm y \<and> (refused b y \<or> y = PagePinned (hd rest) \<and> (\<exists>f. pinned (pins b') f \<and> held (frames b') f = Some (hd rest))))" by blast
    then show ?thesis using stop(1,2) r by (simp only: r settled_def prod.case result.case)
  qed (simp add: r settled_def)
qed


lemma unpinned_refused:
  assumes "pool_map b C" "pins b = replicate n 0" "0 < n" "refused b e"
  shows "\<not> healthy (dm (scheduler b))"
proof -
  have "length (frames b) = n" using assms(1,2) by (auto simp: pool_map_def tables_ok_def elim!: pool_okE)
  then have "frame_raw (FrameId 0) < length (frames b)" "\<not> pinned (pins b) (FrameId 0)" using assms(2,3) by (simp_all add: pinned_def)
  then show ?thesis using assms(4) unfolding refused_def by blast
qed

text \<open>C39. A heap outlives the process. After the pool is flushed, a new pool over the same disk, resumed from the saved
  allocation, opens the heap from its first page alone: following the links finds the last page and its tuple count again, so the heap is
  the one that was flushed, with the same pages and rows, and only the reserve for updates has to be set anew. Following the links
  ends, and fails only when a file operation does.\<close>

theorem heap_survives_reopen:
  assumes "pool_map b C" "heap_rel h C ps" "0 < n"
  shows "case flush_all b of
      (Ok written, b1) \<Rightarrow>
        (case BufferPoolManager_new n (ArcReplacer_new n) (DiskScheduler_new (dm (scheduler b1))) of
           Ok fresh \<Rightarrow> (case resume_allocation (bpm_allocation b1) fresh of (_, b2) \<Rightarrow>
             (case heap_open (first_page_id h) b2 of (r, b3) \<Rightarrow> pool_map b3 C \<and>
               (r = Ok (h\<lparr>update_reserve := 0\<rparr>) \<and> heap_rel (h\<lparr>update_reserve := 0\<rparr>) C ps \<or>
                (\<exists>e. r = Err (HeapBpm e)) \<and> \<not> healthy (dm (scheduler b2)))))
         | Err e \<Rightarrow> False | Panic \<Rightarrow> False)
    | (Err e, b1) \<Rightarrow> pool_map b1 C \<and> \<not> healthy (dm (scheduler b))
    | (Panic, b1) \<Rightarrow> False"
proof -
  obtain r b1 where r: "flush_all b = (r, b1)" by force
  have ok: "pool_ok {} b C" using assms(1) by (simp add: pool_map_def)
  note fl = flush_all_ok [OF ok r]
  have m: "pool_map b1 C" using fl assms(1) by (simp add: pool_map_def)
  show ?thesis
  proof (cases r)
    case (Ok k)
    have rel: "disk_rel (dm (scheduler b1)) C" using fl Ok by auto
    from reopened_pool [OF m rel, of n, where 'e = 'a] obtain b0 b2 where
      b2: "BufferPoolManager_new n (ArcReplacer_new n) (DiskScheduler_new (dm (scheduler b1))) = (Ok b0 :: ('a, BufferPoolManager) result)"
      "resume_allocation (bpm_allocation b1) b0 = (Ok (), b2)" "pool_map b2 C" "pins b2 = replicate n 0" by blast
    obtain q b3 where q: "heap_open (first_page_id h) b2 = (q, b3)" by force
    have "heap_rel (h\<lparr>update_reserve := 0\<rparr>) C ps" using assms(2) by (simp add: heap_rel_def)
    then have "pool_map b3 C \<and> (q = Ok (h\<lparr>update_reserve := 0\<rparr>) \<and> heap_rel (h\<lparr>update_reserve := 0\<rparr>) C ps \<or> (\<exists>e. q = Err (HeapBpm e)) \<and> \<not> healthy (dm (scheduler b2)))"
      using heap_open_ok [OF b2(3) assms(2) q] unpinned_refused [OF b2(3,4) assms(3)] by blast
    then show ?thesis using r Ok b2(1,2) q by simp
  qed (use r fl m in auto)
qed

section \<open>Witnesses\<close>


theorem heap_row_by_id_witness:
  "\<exists>b C h p. pool_map b C \<and> heap_rel h C [p] \<and> fst (heap_get \<lparr>page_id = p, slot_id = 0\<rparr> b) = Ok (\<lparr>page_id = p, slot_id = 0\<rparr>, [7]) \<and>
    fst (heap_update_in_place \<lparr>page_id = p, slot_id = 0\<rparr> TupleMeta_default [8] b) = Ok () \<and> fst (heap_delete \<lparr>page_id = p, slot_id = 0\<rparr> b) = Ok ()"
proof -
  from one_row_heap [of "[7]" TupleMeta_default] obtain b C h p where b: "pool_map b C" "heap_rel h C [p]"
    "heap_rows C [p] = [(\<lparr>page_id = p, slot_id = 0\<rparr>, TupleMeta_default, [7])]" "\<forall>e. \<not> refused b e" by (auto simp: page_consts)
  let ?rid = "\<lparr>page_id = p, slot_id = 0\<rparr>"
  note t = heap_row_by_id [OF b(1,2), of ?rid TupleMeta_default "[8]"]
  have "fst (heap_get ?rid b) = Ok (?rid, [7])" using t b(3,4) by (auto simp: TupleMeta_default_def split: prod.splits)
  moreover have "fst (heap_update_in_place ?rid TupleMeta_default [8] b) = Ok ()" using t b(3,4) by (auto split: prod.splits)
  moreover have "fst (heap_delete ?rid b) = Ok ()" using t b(3,4) by (auto simp: TupleMeta_default_def split: prod.splits)
  ultimately show ?thesis using b(1,2) by blast
qed

theorem scan_reads_rows_in_order_witness:
  "\<exists>b C h p. pool_map b C \<and> heap_rel h C [p] \<and>
    fst (collect_scan 2 1 (\<lambda>rid meta data. if meta_is_deleted meta then None else Some data) (heap_iter h) b) = Ok [[7]]"
proof -
  from one_row_heap [of "[7]" TupleMeta_default] obtain b C h p where b: "pool_map b C" "heap_rel h C [p]"
    "heap_rows C [p] = [(\<lparr>page_id = p, slot_id = 0\<rparr>, TupleMeta_default, [7])]" "\<forall>e. \<not> refused b e" by (auto simp: page_consts)
  have n: "length [p] \<le> 1" "length (heap_rows C [p]) < 2" using b(3) by simp_all
  let ?f = "\<lambda>rid meta data. if meta_is_deleted meta then None else Some data"
  have "visited ?f (heap_rows C [p]) = [[7]]" using b(3) by (simp add: visited_def map_filter_simps TupleMeta_default_def)
  then have "fst (collect_scan 2 1 ?f (heap_iter h) b) = Ok [[7]]"
    using conjunct1 [OF scan_reads_rows_in_order [OF b(1,2) n, of ?f]] b(4) by (auto split: prod.splits)
  then show ?thesis using b(1,2) by blast
qed

theorem heap_free_returns_pages_witness:
  "\<exists>b C h p. pool_map b C \<and> heap_rel h C [p] \<and> (case heap_free 1 h b of (Ok _, b') \<Rightarrow> pool_map b' (C |` (- {p}))
    | (Err (e, h'), b') \<Rightarrow> (\<exists>f. pinned (pins b') f) | (Panic, b') \<Rightarrow> False)"
proof -
  from one_row_heap [of "[7]" TupleMeta_default] obtain b C h p where b: "pool_map b C" "heap_rel h C [p]" "\<forall>e. \<not> refused b e" by (auto simp: page_consts)
  have "case heap_free 1 h b of (Ok _, b') \<Rightarrow> pool_map b' (C |` (- {p})) | (Err (e, h'), b') \<Rightarrow> (\<exists>f. pinned (pins b') f) | (Panic, b') \<Rightarrow> False"
    using heap_free_returns_pages [OF b(1,2), of 1] b(3) by (auto simp del: heap_free.simps split: prod.splits result.splits)
  then show ?thesis using b(1,2) by (intro exI [of _ b] exI [of _ C] exI [of _ h] exI [of _ p] conjI)
qed

theorem heap_survives_reopen_witness:
  "\<exists>b C h p. pool_map b C \<and> heap_rel h C [p] \<and> (0 :: nat) < 4 \<and> heap_rows C [p] \<noteq> [] \<and>
    (case flush_all b of (Panic, b1) \<Rightarrow> False | (Err e, b1) \<Rightarrow> \<not> healthy (dm (scheduler b))
     | (Ok written, b1) \<Rightarrow> (case BufferPoolManager_new 4 (ArcReplacer_new 4) (DiskScheduler_new (dm (scheduler b1))) :: (unit, _) result of
         Ok fresh \<Rightarrow> (case resume_allocation (bpm_allocation b1) fresh of (_, b2) \<Rightarrow> (case heap_open (first_page_id h) b2 of (r, b3) \<Rightarrow> pool_map b3 C))
       | Err e \<Rightarrow> False | Panic \<Rightarrow> False))"
proof -
  from one_row_heap [of "[7]" TupleMeta_default] obtain b C h p where b: "pool_map b C" "heap_rel h C [p]"
    "heap_rows C [p] = [(\<lparr>page_id = p, slot_id = 0\<rparr>, TupleMeta_default, [7])]" by (auto simp: page_consts)
  have "case flush_all b of (Panic, b1) \<Rightarrow> False | (Err e, b1) \<Rightarrow> \<not> healthy (dm (scheduler b))
     | (Ok written, b1) \<Rightarrow> (case BufferPoolManager_new 4 (ArcReplacer_new 4) (DiskScheduler_new (dm (scheduler b1))) :: (unit, _) result of
         Ok fresh \<Rightarrow> (case resume_allocation (bpm_allocation b1) fresh of (_, b2) \<Rightarrow> (case heap_open (first_page_id h) b2 of (r, b3) \<Rightarrow> pool_map b3 C))
       | Err e \<Rightarrow> False | Panic \<Rightarrow> False)"
    using heap_survives_reopen [OF b(1,2), of 4, where 'a = unit] by (cases "flush_all b") (auto split: result.splits simp: case_prod_beta)
  then show ?thesis using b by (intro exI [of _ b] exI [of _ C] exI [of _ h] exI [of _ p] conjI) simp_all
qed

end
