(* ===== verification/Spec2Isabelle.thy ===== *)
theory Spec2Isabelle
  imports Table_Page_Correct Replacer_Correct Timestamp Schema_Correct Disk_Correct View_Safe Table_Heap_Correct
begin

text \<open>
  A verification development for the storage engine of the relational database under \<open>src/\<close>, from the bytes of a page up to tables
  that survive a crash, and for the values, rows and index pages kept in it.

  \<^bold>\<open>The program.\<close>  A table is a heap (\<open>table_heap.rs\<close>): a chain of slotted pages (\<open>table_page.rs\<close>). An index is a B+ tree whose nodes
  are internal and leaf pages (\<open>index/b_plus_page.rs\<close>), read and changed in place through views (\<open>index/page_view.rs\<close>) over a slotted
  entry area (\<open>index/slotted.rs\<close>) behind a common header (\<open>index/page_codec.rs\<close>). Both reach their pages through the buffer pool
  (\<open>buffer_pool.rs\<close>), which caches pages in frames, chooses what to evict by adaptive replacement (\<open>replacer.rs\<close>), and reads and writes
  through the disk scheduler and the disk manager (\<open>disk.rs\<close>), with a write-ahead log (\<open>wal.rs\<close>) between them and the
  data file. Rows and index keys are bytes that the catalog encodes (\<open>catalog/mod.rs\<close>, \<open>catalog/timestamp.rs\<close>). Identifiers and byte
  cursors are in \<open>ids.rs\<close> and \<open>buf.rs\<close>.

  \<^bold>\<open>How code is modelled.\<close>  Fallible code returns \<open>result\<close>: \<open>Ok\<close>, \<open>Err\<close> with the error the source returns, or \<open>Panic\<close> where the source
  would panic (an index out of range, a failed \<open>expect\<close> or assertion, an overflow), so a theorem that excludes \<open>Panic\<close> is a safety
  statement. Machine integers are words of their width, \<open>usize\<close> is \<open>nat\<close>, slices and vectors are lists. A method on
  \<open>&mut self\<close> is a function of type \<open>sm\<close> (theory \<open>Effects\<close>) that returns the state it reached also when it fails, as the source does.
  Records and datatypes have the fields and constructors of the source, with a prefix where two types share a field name.

  \<^bold>\<open>Theories.\<close>
  \<^item> \<open>Prelude\<close>, \<open>Effects\<close>, \<open>Rust_Str\<close>, \<open>Orders\<close>, \<open>F64\<close>: results, checked arithmetic, byte lists, the state of fallible methods, and
    what the code uses of the standard library on text, orderings and floats.
  \<^item> \<open>Ids\<close>, \<open>Buf\<close>: \<open>ids.rs\<close> and \<open>buf.rs\<close>.
  \<^item> \<open>Table_Page\<close> models \<open>table_page.rs\<close>. \<open>Table_Page_Inv\<close> has the invariant \<open>wf_page\<close> and the tuples of a page; \<open>Table_Page_Correct\<close> shows that
    every write keeps the invariant and does to the list of tuples what it says, compaction included, and that a page that
    \<open>TablePage::new\<close> accepts is read without a panic.
  \<^item> \<open>Replacer\<close> models \<open>replacer.rs\<close> with its node arena. \<open>Replacer_Lists\<close> relates the links to lists, \<open>Replacer_Inv\<close> has the invariant,
    \<open>Replacer_Spec\<close> states adaptive replacement on plain lists, and \<open>Replacer_Correct\<close> shows that the implementation refines it.
  \<^item> \<open>Wal\<close> models \<open>wal.rs\<close>, \<open>Disk\<close> models \<open>disk.rs\<close>. \<open>Wal_Records\<close>, \<open>Wal_Correct\<close> and \<open>Wal_Recovery\<close> show that the log keeps a
    durable and a current state, whatever file operation fails and wherever a crash cuts the log; \<open>Disk_Correct\<close> that the disk
    manager is a map from page ids to bytes, that durable pages survive, and that the worker serves requests in order.
  \<^item> \<open>Frame_Tracker\<close> states what the pool needs of its replacer as the locale \<open>frame_tracker\<close> and interprets it on the replacer.
    \<open>Buffer_Pool\<close> models \<open>buffer_pool.rs\<close>. \<open>Buffer_Pool_Correct\<close> and \<open>Buffer_Pool_Map\<close> show that the pool is a map from page ids
    to bytes (\<open>pool_map\<close>) whatever is cached, dirty or evicted, that a failed eviction is undone, that pinned pages stay, and that a
    flushed pool can be reopened.
  \<^item> \<open>Table_Heap\<close> models \<open>table_heap.rs\<close>. \<open>Table_Heap_Rows\<close> relates a heap to the chain of its pages (\<open>heap_rel\<close>) and to the list of its
    rows (\<open>heap_rows\<close>); \<open>Table_Heap_Correct\<close> shows that inserting appends, that an operation by record id acts on one row, that a
    scan yields the rows there were when it began, that a heap is found again after a restart, and that freeing returns every page.
  \<^item> \<open>Timestamp\<close> models and verifies \<open>catalog/timestamp.rs\<close>. \<open>Value\<close>, \<open>Key_Encoding\<close> and \<open>Schema\<close> model the values, keys and rows of
    \<open>catalog/mod.rs\<close>; \<open>Value_Correct\<close> shows that the bytewise order of keys is the order of rows and that conversions are exact;
    \<open>Schema_Correct\<close> that every column of an encoded row reads back.
  \<^item> \<open>Page_Codec\<close>, \<open>Slotted\<close>, \<open>BPlus_Page\<close>, \<open>BPlus_Leaf\<close> and \<open>Page_View\<close> model the index pages. \<open>Slotted_Correct\<close>, \<open>BPlus_Split\<close>,
    \<open>Internal_Correct\<close>, \<open>Leaf_Correct\<close>, \<open>Leaf_Codec\<close>, \<open>Leaf_View\<close>, \<open>Leaf_Map\<close>, \<open>Leaf_Split\<close> and \<open>View_Safe\<close> show codec round trips, that
    splits and merges are balanced, that a leaf is a map of its live keys (the locale \<open>key_map\<close>, interpreted on decoded pages and on
    views), that views change bytes exactly as the decoded page would, and that an accepted page of any bytes reads without a panic.

  \<^bold>\<open>File operations and crashes.\<close>  The disk manager carries a list \<open>ios\<close> that says for each coming file operation
  whether it is done or fails, and how many bytes it wrote before it failed; an empty list means that every operation succeeds (\<open>healthy\<close>).
  Theorems hold for every such list. A crash is a log cut at any byte.

  \<^bold>\<open>Code outside the sources.\<close>  The order of floats of the \<open>ordered-float\<close> crate is a parameter, with the documented laws in the locale
  \<open>ordered_float\<close>. Channels, mutexes and files are modelled by what the code relies on: a queue, one operation
  at a time, and bytes.

  \<^bold>\<open>Bounds and fuel.\<close>  Loops are structural or have a termination proof, with these exceptions, where running out counts as \<open>Panic\<close> and the
  theorems show that it does not happen. The walk of \<open>evict_from_list\<close> takes the number of nodes, which a walk of distinct
  nodes cannot exceed. \<open>pin_page\<close> starts over when another thread took the frame between lookup and latch, which does not happen
  with one operation at a time, so one round is enough. \<open>next_with\<close> and \<open>heap_free\<close> take a bound on the pages visited; the length of the
  chain is enough. Following the links in \<open>heap_open\<close> needs no bound, since the code refuses a page it has seen.

  \<^bold>\<open>Not modelled.\<close>
  \<^item> Threads: operations of the pool and the heap run one at a time, so latches, waiting and the deadlock detector are left out. The
    interleaving of senders and the worker of the disk scheduler is modelled.
  \<^item> Transactions and versions (\<open>concurrency/\<close>): shared mutable chains under several locks. The heap operations, the log records and the
    recovery of unfinished transactions they rest on are modelled.
  \<^item> The B+ tree over its pages (\<open>index/b_plus_tree.rs\<close>, \<open>index/context.rs\<close>, \<open>catalog/index_schema.rs\<close>): latch coupling and the paths of splits
    and merges. The steps on single pages are modelled.
  \<^item> The registry of tables and indexes in \<open>catalog/mod.rs\<close> and its encoding (\<open>database_file.rs\<close>).
  \<^item> SQL (\<open>parser.rs\<close>, \<open>planner.rs\<close>, \<open>processor/\<close>, \<open>database.rs\<close>): it starts from the syntax tree of an external crate.
  \<^item> \<open>main.rs\<close>, \<open>lib.rs\<close>, test support, log lines and the display of errors.
\<close>

end
